(* ===== verification/Prelude.thy ===== *)
theory Prelude
  imports Main "HOL-Library.Word" "HOL-Library.Multiset"
begin

unbundle bit_operations_syntax

text \<open>
  Shared vocabulary of the development: the C integer types as words, byte strings,
  the limits of \<^verbatim>\<open>size_t\<close> and friends on the 64-bit platforms the client targets,
  the allocation oracle that stands for \<^verbatim>\<open>malloc(3)\<close>, and generic lemmas on lists,
  masks and counters that several components use.
\<close>

subsection \<open>Machine types\<close>

type_synonym u8 = "8 word"
type_synonym u16 = "16 word"
type_synonym u32 = "32 word"
type_synonym u64 = "64 word"

type_synonym bytes = "u8 list"

text \<open>Limits of the C types; a \<^verbatim>\<open>size_t\<close> is a natural number below \<open>2 ^ 64\<close>.\<close>

abbreviation SIZE_MAX :: nat where "SIZE_MAX \<equiv> 18446744073709551615"
abbreviation SSIZE_MAX :: nat where "SSIZE_MAX \<equiv> 9223372036854775807"
abbreviation UINT32_MAX :: nat where "UINT32_MAX \<equiv> 4294967295"

text \<open>Arithmetic on \<^verbatim>\<open>size_t\<close> wraps at \<open>2 ^ 64\<close>.\<close>

abbreviation size_wrap :: "nat \<Rightarrow> nat" where
  "size_wrap n \<equiv> n mod 18446744073709551616"

text \<open>
  \<^verbatim>\<open>malloc\<close>, \<^verbatim>\<open>realloc\<close>, \<^verbatim>\<open>strdup\<close> may fail at every call.
  An operation takes an oracle: \<open>ma k\<close> says whether its \<open>k\<close>-th allocation succeeds.
\<close>

type_synonym mem = "nat \<Rightarrow> bool"

abbreviation mem_ok :: mem where "mem_ok \<equiv> \<lambda>_. True"

subsection \<open>Collections of facts\<close>

named_theorems codec_simps \<open>round-trip equations of the byte encoders\<close>
named_theorems length_simps \<open>lengths of encoded data\<close>
named_theorems inv_intros \<open>preservation of the component invariants\<close>

subsection \<open>Masks of powers of two\<close>

lemma nat_and_mask: "(x::nat) AND (2 ^ k - 1) = x mod 2 ^ k"
  by (metis mask_eq_exp_minus_1 take_bit_eq_mask take_bit_eq_mod)

lemma drop_bit_Suc_half: "drop_bit (Suc e) (n::nat) = drop_bit e n div 2"
  by (simp add: drop_bit_eq_div div_mult2_eq [symmetric] mult.commute)

text \<open>Bounds of the unsigned readings.\<close>

lemma unat_u8_less [simp]: "unat (b :: u8) < 256"
  using unsigned_less [of b, where ?'a = nat] by simp

lemma unat_u32_less [simp]: "unat (x :: u32) < 4294967296"
  using unsigned_less [of x, where ?'a = nat] by simp

lemma unat_u64_less [simp]: "unat (x :: u64) < 18446744073709551616"
  using unsigned_less [of x, where ?'a = nat] by simp

subsection \<open>Lists\<close>

lemma take_append_length [simp]: "length xs = n \<Longrightarrow> take n (xs @ ys) = xs"
  by simp

lemma drop_append_length [simp]: "length xs = n \<Longrightarrow> drop n (xs @ ys) = ys"
  by simp

text \<open>The records of a table of optional slots, in slot order.\<close>

fun somes :: "'a option list \<Rightarrow> 'a list" where
  "somes [] = []"
| "somes (None # xs) = somes xs"
| "somes (Some x # xs) = x # somes xs"

lemma set_somes: "set (somes xs) = {x. Some x \<in> set xs}"
  by (induction xs rule: somes.induct) auto

lemma somes_append [simp]: "somes (xs @ ys) = somes xs @ somes ys"
  by (induction xs rule: somes.induct) auto

lemma somes_replicate_None [simp]: "somes (replicate n None) = []"
  by (induction n) auto

lemma length_somes_less: "length (somes xs) < length xs \<longleftrightarrow> None \<in> set xs"
proof -
  have "length (somes xs) \<le> length xs" for xs :: "'a option list"
    by (induction xs rule: somes.induct) auto
  then show ?thesis
    by (induction xs rule: somes.induct) (auto simp: less_Suc_eq_le)
qed

lemma mset_somes_update_None:
  "i < length xs \<Longrightarrow> xs ! i = None \<Longrightarrow> mset (somes (xs[i := Some x])) = add_mset x (mset (somes xs))"
proof (induction xs arbitrary: i rule: somes.induct)
  case (3 y xs)
  then show ?case by (cases i) auto
qed (auto split: nat.splits)

lemma option_eqI:
  assumes "\<And>x. a = Some x \<longleftrightarrow> b = Some x"
  shows "a = b"
proof (cases b)
  case None
  then show ?thesis using assms by (cases a) auto
next
  case (Some y)
  then show ?thesis using assms [of y] by simp
qed

lemma nth_Some_in_set: "i < length xs \<Longrightarrow> xs ! i = x \<Longrightarrow> x \<in> set xs"
  by auto

end
