(* ===== verification/Sysendian.thy ===== *)
theory Sysendian
  imports Prelude
begin

text \<open>
  \<^verbatim>\<open>libcperciva/util/sysendian.h\<close>: big- and little-endian encoders and decoders.
  An encoder writes its bytes to a buffer; the model returns them in buffer order.
  A decoder reads a fixed number of bytes from the start of a buffer; the model is
  meaningful for buffers of at least that length (the callers check it first).
\<close>

subsection \<open>Encoders and decoders\<close>

definition le16enc :: "u16 \<Rightarrow> bytes" where
  "le16enc x = [ucast (x AND 0xff), ucast ((drop_bit 8 x) AND 0xff)]"

definition le16dec :: "bytes \<Rightarrow> u16" where
  "le16dec p = ucast (p ! 0) OR push_bit 8 (ucast (p ! 1))"

definition be16enc :: "u16 \<Rightarrow> bytes" where
  "be16enc x = [ucast ((drop_bit 8 x) AND 0xff), ucast (x AND 0xff)]"

definition be16dec :: "bytes \<Rightarrow> u16" where
  "be16dec p = ucast (p ! 1) OR push_bit 8 (ucast (p ! 0))"

definition le32enc :: "u32 \<Rightarrow> bytes" where
  "le32enc x = [ucast (x AND 0xff), ucast ((drop_bit 8 x) AND 0xff),
     ucast ((drop_bit 16 x) AND 0xff), ucast ((drop_bit 24 x) AND 0xff)]"

definition le32dec :: "bytes \<Rightarrow> u32" where
  "le32dec p = ucast (p ! 0) OR push_bit 8 (ucast (p ! 1)) OR
     push_bit 16 (ucast (p ! 2)) OR push_bit 24 (ucast (p ! 3))"

definition be32enc :: "u32 \<Rightarrow> bytes" where
  "be32enc x = [ucast ((drop_bit 24 x) AND 0xff), ucast ((drop_bit 16 x) AND 0xff),
     ucast ((drop_bit 8 x) AND 0xff), ucast (x AND 0xff)]"

definition be32dec :: "bytes \<Rightarrow> u32" where
  "be32dec p = ucast (p ! 3) OR push_bit 8 (ucast (p ! 2)) OR
     push_bit 16 (ucast (p ! 1)) OR push_bit 24 (ucast (p ! 0))"

definition le64enc :: "u64 \<Rightarrow> bytes" where
  "le64enc x = [ucast (x AND 0xff), ucast ((drop_bit 8 x) AND 0xff),
     ucast ((drop_bit 16 x) AND 0xff), ucast ((drop_bit 24 x) AND 0xff),
     ucast ((drop_bit 32 x) AND 0xff), ucast ((drop_bit 40 x) AND 0xff),
     ucast ((drop_bit 48 x) AND 0xff), ucast ((drop_bit 56 x) AND 0xff)]"

definition le64dec :: "bytes \<Rightarrow> u64" where
  "le64dec p = ucast (p ! 0) OR push_bit 8 (ucast (p ! 1)) OR
     push_bit 16 (ucast (p ! 2)) OR push_bit 24 (ucast (p ! 3)) OR
     push_bit 32 (ucast (p ! 4)) OR push_bit 40 (ucast (p ! 5)) OR
     push_bit 48 (ucast (p ! 6)) OR push_bit 56 (ucast (p ! 7))"

definition be64enc :: "u64 \<Rightarrow> bytes" where
  "be64enc x = [ucast ((drop_bit 56 x) AND 0xff), ucast ((drop_bit 48 x) AND 0xff),
     ucast ((drop_bit 40 x) AND 0xff), ucast ((drop_bit 32 x) AND 0xff),
     ucast ((drop_bit 24 x) AND 0xff), ucast ((drop_bit 16 x) AND 0xff),
     ucast ((drop_bit 8 x) AND 0xff), ucast (x AND 0xff)]"

definition be64dec :: "bytes \<Rightarrow> u64" where
  "be64dec p = ucast (p ! 7) OR push_bit 8 (ucast (p ! 6)) OR
     push_bit 16 (ucast (p ! 5)) OR push_bit 24 (ucast (p ! 4)) OR
     push_bit 32 (ucast (p ! 3)) OR push_bit 40 (ucast (p ! 2)) OR
     push_bit 48 (ucast (p ! 1)) OR push_bit 56 (ucast (p ! 0))"

subsection \<open>Lengths\<close>

lemma length_le16enc [simp, length_simps]: "length (le16enc x) = 2" by (simp add: le16enc_def)
lemma length_be16enc [simp, length_simps]: "length (be16enc x) = 2" by (simp add: be16enc_def)
lemma length_le32enc [simp, length_simps]: "length (le32enc x) = 4" by (simp add: le32enc_def)
lemma length_be32enc [simp, length_simps]: "length (be32enc x) = 4" by (simp add: be32enc_def)
lemma length_le64enc [simp, length_simps]: "length (le64enc x) = 8" by (simp add: le64enc_def)
lemma length_be64enc [simp, length_simps]: "length (be64enc x) = 8" by (simp add: be64enc_def)

subsection \<open>Bits of octets\<close>

lemma ucast_and_ff [simp]:
  "(ucast ((x :: u32) AND 0xff) :: u8) = ucast x"
  "(ucast ((y :: u64) AND 0xff) :: u8) = ucast y"
  "(ucast ((z :: u16) AND 0xff) :: u8) = ucast z"
proof -
  have m: "(0xff :: u32) = mask 8" "(0xff :: u64) = mask 8" "(0xff :: u16) = mask 8"
    by (simp_all add: mask_eq_exp_minus_1)
  show "(ucast (x AND 0xff) :: u8) = ucast x" "(ucast (y AND 0xff) :: u8) = ucast y"
    "(ucast (z AND 0xff) :: u8) = ucast z"
    unfolding m by (simp_all add: bit_eq_iff bit_simps)
qed

lemma not_bit_u8: "8 \<le> n \<Longrightarrow> \<not> bit (w :: u8) n"
  using bit_imp_le_length [of w n] by auto

lemma octet_cases:
  assumes "(n::nat) < 64"
  obtains "n < 8" | "8 \<le> n" "n < 16" | "16 \<le> n" "n < 24" | "24 \<le> n" "n < 32"
    | "32 \<le> n" "n < 40" | "40 \<le> n" "n < 48" | "48 \<le> n" "n < 56" | "56 \<le> n" "n < 64"
  using assms by linarith

lemma take_2_nth: "2 \<le> length p \<Longrightarrow> take 2 p = [p ! 0, p ! 1]"
  by (cases p; cases "tl p"; simp)

lemma take_4_nth: "4 \<le> length p \<Longrightarrow> take 4 p = [p ! 0, p ! 1, p ! 2, p ! 3]"
  by (cases p; cases "tl p"; cases "tl (tl p)"; cases "tl (tl (tl p))"; simp)

lemma take_8_nth:
  assumes "8 \<le> length p"
  shows "take 8 p = [p ! 0, p ! 1, p ! 2, p ! 3, p ! 4, p ! 5, p ! 6, p ! 7]"
proof -
  have "take (4 + 4) p = take 4 p @ take 4 (drop 4 p)" by (rule take_add)
  with assms show ?thesis by (simp add: take_4_nth)
qed

subsection \<open>Round trips\<close>

lemma le16dec_le16enc [simp, codec_simps]: "le16dec (le16enc x @ r) = x"
proof (rule bit_word_eqI)
  fix n assume "n < LENGTH(16)"
  then have "n < 64" "n < 16" by simp_all
  then show "bit (le16dec (le16enc x @ r)) n = bit x n"
    by (cases rule: octet_cases [of n])
      (simp_all add: le16dec_def le16enc_def bit_simps less_diff_conv2)
qed

lemma be16dec_be16enc [simp, codec_simps]: "be16dec (be16enc x @ r) = x"
proof (rule bit_word_eqI)
  fix n assume "n < LENGTH(16)"
  then have "n < 64" "n < 16" by simp_all
  then show "bit (be16dec (be16enc x @ r)) n = bit x n"
    by (cases rule: octet_cases [of n])
      (simp_all add: be16dec_def be16enc_def bit_simps less_diff_conv2)
qed

lemma le32dec_le32enc [simp, codec_simps]: "le32dec (le32enc x @ r) = x"
proof (rule bit_word_eqI)
  fix n assume "n < LENGTH(32)"
  then have "n < 64" "n < 32" by simp_all
  then show "bit (le32dec (le32enc x @ r)) n = bit x n"
    by (cases rule: octet_cases [of n])
      (simp_all add: le32dec_def le32enc_def bit_simps less_diff_conv2)
qed

lemma be32dec_be32enc [simp, codec_simps]: "be32dec (be32enc x @ r) = x"
proof (rule bit_word_eqI)
  fix n assume "n < LENGTH(32)"
  then have "n < 64" "n < 32" by simp_all
  then show "bit (be32dec (be32enc x @ r)) n = bit x n"
    by (cases rule: octet_cases [of n])
      (simp_all add: be32dec_def be32enc_def bit_simps less_diff_conv2)
qed

lemma le64dec_le64enc [simp, codec_simps]: "le64dec (le64enc x @ r) = x"
proof (rule bit_word_eqI)
  fix n assume "n < LENGTH(64)"
  then have "n < 64" by simp
  then show "bit (le64dec (le64enc x @ r)) n = bit x n"
    by (cases rule: octet_cases [of n])
      (simp_all add: le64dec_def le64enc_def bit_simps less_diff_conv2)
qed

lemma be64dec_be64enc [simp, codec_simps]: "be64dec (be64enc x @ r) = x"
proof (rule bit_word_eqI)
  fix n assume "n < LENGTH(64)"
  then have "n < 64" by simp
  then show "bit (be64dec (be64enc x @ r)) n = bit x n"
    by (cases rule: octet_cases [of n])
      (simp_all add: be64dec_def be64enc_def bit_simps less_diff_conv2)
qed

text \<open>The same without trailing bytes, and the other direction on a long enough buffer.\<close>

lemmas dec_enc_exact [simp, codec_simps] =
  le16dec_le16enc [of _ "[]", simplified] be16dec_be16enc [of _ "[]", simplified]
  le32dec_le32enc [of _ "[]", simplified] be32dec_be32enc [of _ "[]", simplified]
  le64dec_le64enc [of _ "[]", simplified] be64dec_be64enc [of _ "[]", simplified]

lemma le16enc_le16dec: "2 \<le> length p \<Longrightarrow> le16enc (le16dec p) = take 2 p"
  unfolding le16dec_def le16enc_def ucast_and_ff
  by (simp add: take_2_nth bit_eq_iff bit_simps not_bit_u8)

lemma le32enc_le32dec: "4 \<le> length p \<Longrightarrow> le32enc (le32dec p) = take 4 p"
  unfolding le32dec_def le32enc_def ucast_and_ff
  by (simp add: take_4_nth bit_eq_iff bit_simps not_bit_u8)

lemma be32enc_be32dec: "4 \<le> length p \<Longrightarrow> be32enc (be32dec p) = take 4 p"
  unfolding be32dec_def be32enc_def ucast_and_ff
  by (simp add: take_4_nth bit_eq_iff bit_simps not_bit_u8)

lemma le64enc_le64dec: "8 \<le> length p \<Longrightarrow> le64enc (le64dec p) = take 8 p"
  unfolding le64dec_def le64enc_def ucast_and_ff
  by (simp add: take_8_nth bit_eq_iff bit_simps not_bit_u8)

lemma be64enc_be64dec: "8 \<le> length p \<Longrightarrow> be64enc (be64dec p) = take 8 p"
  unfolding be64dec_def be64enc_def ucast_and_ff
  by (simp add: take_8_nth bit_eq_iff bit_simps not_bit_u8)

lemma le32enc_inject: "le32enc x = le32enc y \<longleftrightarrow> x = y"
  by (metis dec_enc_exact(3))

lemma le64enc_inject: "le64enc x = le64enc y \<longleftrightarrow> x = y"
  by (metis dec_enc_exact(5))

lemma be32enc_rev: "be32enc x = rev (le32enc x)"
  by (simp add: be32enc_def le32enc_def)

end
