(* ===== verification/Table_Interface.thy ===== *)
theory Table_Interface
  imports Prelude
begin

text \<open>
  The contract of a keyed record table as its clients (the chunk directory, the read cache)
  use it: look a record up, insert a new one, write through a record pointer.  An operation
  that never returns would be \<^const>\<open>None\<close>; the contract rules that out on well-formed tables.
\<close>

locale keyed_table =
  fixes inv :: "'t \<Rightarrow> bool"
    and lookup :: "'t \<Rightarrow> bytes \<Rightarrow> 'r option"
    and read :: "'t \<Rightarrow> bytes \<Rightarrow> 'r option option"
    and ins :: "bool \<Rightarrow> 't \<Rightarrow> 'r \<Rightarrow> (int \<times> 't) option"
    and upd :: "'t \<Rightarrow> 'r \<Rightarrow> 't"
    and keyof :: "'r \<Rightarrow> bytes"
  assumes read_lookup: "inv t \<Longrightarrow> read t k = Some (lookup t k)"
    and lookup_key: "inv t \<Longrightarrow> lookup t k = Some r \<Longrightarrow> keyof r = k"
    and ins_result: "inv t \<Longrightarrow> \<exists>rc t'. ins ma t r = Some (rc, t') \<and> inv t' \<and>
      (rc = 0 \<and> lookup t (keyof r) = None \<and> lookup t' = (lookup t)(keyof r \<mapsto> r)
       \<or> rc = 1 \<and> lookup t (keyof r) \<noteq> None \<and> lookup t' = lookup t
       \<or> rc = -1 \<and> t' = t)"
    and upd_inv: "inv t \<Longrightarrow> lookup t (keyof r) \<noteq> None \<Longrightarrow> inv (upd t r)"
    and upd_lookup: "inv t \<Longrightarrow> lookup t (keyof r) \<noteq> None \<Longrightarrow>
      lookup (upd t r) = (lookup t)(keyof r \<mapsto> r)"
begin

lemma read_returns: "inv t \<Longrightarrow> read t k \<noteq> None"
  by (simp add: read_lookup)

lemma read_own_key: "inv t \<Longrightarrow> read t k = Some (Some r) \<Longrightarrow> keyof r = k"
  using lookup_key by (simp add: read_lookup)

lemma ins_absent:
  assumes "inv t" "lookup t (keyof r) = None"
  obtains t' where "ins ma t r = Some (0, t')" "inv t'" "lookup t' = (lookup t)(keyof r \<mapsto> r)"
  | "ins ma t r = Some (-1, t)"
  using ins_result [OF assms(1), of ma r] assms(2) by auto

lemma ins_preserves_inv: "inv t \<Longrightarrow> ins ma t r = Some (rc, t') \<Longrightarrow> inv t'"
  using ins_result [of t ma r] by auto

lemma ins_read_back:
  "inv t \<Longrightarrow> ins ma t r = Some (0, t') \<Longrightarrow> read t' (keyof r) = Some (Some r)"
  using ins_result [of t ma r] by (auto simp: read_lookup)

lemma ins_read_other:
  "inv t \<Longrightarrow> ins ma t r = Some (rc, t') \<Longrightarrow> k \<noteq> keyof r \<Longrightarrow> read t' k = read t k"
  using ins_result [of t ma r] by (auto simp: read_lookup)

lemma ins_twice:
  assumes "inv t" "ins ma t r = Some (0, t')" "keyof r' = keyof r" "ins ma' t' r' = Some (rc, t'')"
  shows "rc \<noteq> 0 \<and> lookup t'' = lookup t'"
proof -
  have "inv t'" "lookup t' (keyof r') = Some r"
    using ins_result [OF assms(1), of ma r] assms(2,3) by auto
  then show ?thesis using ins_result [of t' ma' r'] assms(4) by auto
qed

lemma modify_present:
  assumes "inv t" "read t k = Some (Some r)" "keyof r' = keyof r"
  shows "inv (upd t r')" "lookup (upd t r') = (lookup t)(k \<mapsto> r')"
proof -
  have "lookup t k = Some r" "keyof r' = k"
    using assms read_lookup [OF assms(1)] lookup_key [OF assms(1)] by auto
  then show "inv (upd t r')" "lookup (upd t r') = (lookup t)(k \<mapsto> r')"
    using upd_inv [OF assms(1), of r'] upd_lookup [OF assms(1), of r'] by auto
qed

end

end
