(* ===== verification/Rwhashtab.thy ===== *)
theory Rwhashtab
  imports Sysendian Table_Interface
begin

text \<open>
  \<^verbatim>\<open>lib/datastruct/rwhashtab.c\<close>: the open-addressing hash table under the chunk
  directory and the read cache.  The table holds pointers to records; a record's key is
  the \<^verbatim>\<open>keylength\<close> bytes at \<^verbatim>\<open>keyoffset\<close>, which the model reads with the parameter
  \<open>keyof\<close>.  The parameter \<open>hash\<close> is \<^verbatim>\<open>crypto_hash_data_2(CRYPTO_KEY_HMAC_SHA256, ...)\<close> on
  the concatenation of its two buffers.
  Probing is a loop without a bound in the code: the model runs it for \<^verbatim>\<open>cursize\<close> probes,
  after which the positions repeat, and returns \<^const>\<open>None\<close> for a loop that never ends.
\<close>

record 'r rwhashtab =
  ht_cursize :: nat
  ht_numentries :: nat
  ht_ht :: "'r option list"
  ht_randbuf :: bytes

subsection \<open>Search\<close>

fun search_probe :: "nat \<Rightarrow> 'r option list \<Rightarrow> nat \<Rightarrow> ('r \<Rightarrow> bytes) \<Rightarrow> bytes \<Rightarrow> nat \<Rightarrow> nat option" where
  "search_probe 0 ht cursize keyof key htpos = None"
| "search_probe (Suc n) ht cursize keyof key htpos =
     (case ht ! htpos of
        None \<Rightarrow> Some htpos
      | Some rec \<Rightarrow>
          if keyof rec = key then Some htpos
          else search_probe n ht cursize keyof key ((htpos + 1) AND (cursize - 1)))"

definition rwhashtab_start :: "(bytes \<Rightarrow> bytes) \<Rightarrow> 'r rwhashtab \<Rightarrow> bytes \<Rightarrow> nat" where
  "rwhashtab_start hash H key =
     unat (le64dec (hash (ht_randbuf H @ key))) AND (ht_cursize H - 1)"

definition rwhashtab_search ::
  "(bytes \<Rightarrow> bytes) \<Rightarrow> ('r \<Rightarrow> bytes) \<Rightarrow> 'r rwhashtab \<Rightarrow> bytes \<Rightarrow> nat option" where
  "rwhashtab_search hash keyof H key =
     search_probe (ht_cursize H) (ht_ht H) (ht_cursize H) keyof key (rwhashtab_start hash H key)"

subsection \<open>Operations\<close>

definition rwhashtab_init :: "mem \<Rightarrow> bytes option \<Rightarrow> nat \<Rightarrow> 'r rwhashtab option" where
  "rwhashtab_init ma entropy keylength =
     (if keylength = 0 then None
      else if \<not> ma 0 then None
      else case entropy of
        None \<Rightarrow> None
      | Some randbuf \<Rightarrow>
          if \<not> ma 1 then None
          else Some \<lparr>ht_cursize = 4, ht_numentries = 0,
                     ht_ht = replicate 4 None, ht_randbuf = randbuf\<rparr>)"

definition rwhashtab_getsize :: "'r rwhashtab \<Rightarrow> nat" where
  "rwhashtab_getsize H = ht_numentries H"

fun rehash :: "(bytes \<Rightarrow> bytes) \<Rightarrow> ('r \<Rightarrow> bytes) \<Rightarrow> 'r option list \<Rightarrow> 'r rwhashtab
    \<Rightarrow> 'r rwhashtab option" where
  "rehash hash keyof [] H = Some H"
| "rehash hash keyof (None # htold) H = rehash hash keyof htold H"
| "rehash hash keyof (Some rec # htold) H =
     (case rwhashtab_search hash keyof H (keyof rec) of
        None \<Rightarrow> None
      | Some htposnew \<Rightarrow>
          rehash hash keyof htold (H\<lparr>ht_ht := (ht_ht H)[htposnew := Some rec]\<rparr>))"

definition rwhashtab_enlarge :: "bool \<Rightarrow> (bytes \<Rightarrow> bytes) \<Rightarrow> ('r \<Rightarrow> bytes) \<Rightarrow> 'r rwhashtab
    \<Rightarrow> (int \<times> 'r rwhashtab) option" where
  "rwhashtab_enlarge ma hash keyof H =
     (let newsize = size_wrap (ht_cursize H * 2)
      in if newsize > SIZE_MAX div 8 then Some (-1, H)
         else if \<not> ma then Some (-1, H)
         else case rehash hash keyof (ht_ht H)
                     (H\<lparr>ht_ht := replicate newsize None, ht_cursize := newsize\<rparr>) of
             None \<Rightarrow> None
           | Some H' \<Rightarrow> Some (0, H'))"

definition rwhashtab_insert_nogrow :: "(bytes \<Rightarrow> bytes) \<Rightarrow> ('r \<Rightarrow> bytes) \<Rightarrow> 'r rwhashtab \<Rightarrow> 'r
    \<Rightarrow> (int \<times> 'r rwhashtab) option" where
  "rwhashtab_insert_nogrow hash keyof H rec =
     (case rwhashtab_search hash keyof H (keyof rec) of
        None \<Rightarrow> None
      | Some htpos \<Rightarrow>
          if ht_ht H ! htpos \<noteq> None then Some (1, H)
          else Some (0, H\<lparr>ht_ht := (ht_ht H)[htpos := Some rec],
                          ht_numentries := ht_numentries H + 1\<rparr>))"

definition rwhashtab_insert :: "bool \<Rightarrow> (bytes \<Rightarrow> bytes) \<Rightarrow> ('r \<Rightarrow> bytes) \<Rightarrow> 'r rwhashtab \<Rightarrow> 'r
    \<Rightarrow> (int \<times> 'r rwhashtab) option" where
  "rwhashtab_insert ma hash keyof H rec =
     (if ht_numentries H \<ge> ht_cursize H - drop_bit 2 (ht_cursize H)
      then (case rwhashtab_enlarge ma hash keyof H of
              None \<Rightarrow> None
            | Some (rc, H') \<Rightarrow>
                if rc \<noteq> 0 then Some (rc, H')
                else rwhashtab_insert_nogrow hash keyof H' rec)
      else rwhashtab_insert_nogrow hash keyof H rec)"

definition rwhashtab_read :: "(bytes \<Rightarrow> bytes) \<Rightarrow> ('r \<Rightarrow> bytes) \<Rightarrow> 'r rwhashtab \<Rightarrow> bytes
    \<Rightarrow> 'r option option" where
  "rwhashtab_read hash keyof H key =
     (case rwhashtab_search hash keyof H key of
        None \<Rightarrow> None
      | Some htpos \<Rightarrow> Some (ht_ht H ! htpos))"

text \<open>
  The caller of \<^verbatim>\<open>rwhashtab_read\<close> gets a pointer into the record and writes through it;
  the model writes the changed record back to the position that was found.
\<close>

definition rwhashtab_update :: "(bytes \<Rightarrow> bytes) \<Rightarrow> ('r \<Rightarrow> bytes) \<Rightarrow> 'r rwhashtab \<Rightarrow> 'r
    \<Rightarrow> 'r rwhashtab" where
  "rwhashtab_update hash keyof H rec =
     (case rwhashtab_search hash keyof H (keyof rec) of
        None \<Rightarrow> H
      | Some htpos \<Rightarrow>
          if ht_ht H ! htpos = None then H
          else H\<lparr>ht_ht := (ht_ht H)[htpos := Some rec]\<rparr>)"

text \<open>
  The callback of \<^verbatim>\<open>rwhashtab_foreach\<close> may change the record it is given and the state
  behind its cookie; a nonzero result stops the iteration.
\<close>

fun foreach_slots :: "('r \<Rightarrow> 's \<Rightarrow> int \<times> 'r \<times> 's) \<Rightarrow> 'r option list \<Rightarrow> 's
    \<Rightarrow> int \<times> 'r option list \<times> 's" where
  "foreach_slots func [] s = (0, [], s)"
| "foreach_slots func (None # ht) s =
     (case foreach_slots func ht s of (rc, ht', s') \<Rightarrow> (rc, None # ht', s'))"
| "foreach_slots func (Some rec # ht) s =
     (case func rec s of (rc, rec', s') \<Rightarrow>
        if rc \<noteq> 0 then (rc, Some rec' # ht, s')
        else case foreach_slots func ht s' of (rc', ht', s'') \<Rightarrow> (rc', Some rec' # ht', s''))"

definition rwhashtab_foreach :: "('r \<Rightarrow> 's \<Rightarrow> int \<times> 'r \<times> 's) \<Rightarrow> 'r rwhashtab \<Rightarrow> 's
    \<Rightarrow> int \<times> 'r rwhashtab \<times> 's" where
  "rwhashtab_foreach func H s =
     (case foreach_slots func (ht_ht H) s of (rc, ht', s') \<Rightarrow> (rc, H\<lparr>ht_ht := ht'\<rparr>, s'))"

subsection \<open>The probe sequence\<close>

text \<open>
  The \<open>i\<close>-th probe from start \<open>p\<close> in a table of \<open>n\<close> slots; with a power of two for \<open>n\<close>
  the masks of the code are this remainder.
\<close>

definition probe_hit :: "'r option list \<Rightarrow> ('r \<Rightarrow> bytes) \<Rightarrow> bytes \<Rightarrow> nat \<Rightarrow> bool" where
  "probe_hit ht keyof key p = (case ht ! p of None \<Rightarrow> True | Some rec \<Rightarrow> keyof rec = key)"

lemma search_probe_Suc:
  "search_probe (Suc m) ht n keyof key p =
     (if probe_hit ht keyof key p then Some p
      else search_probe m ht n keyof key ((p + 1) AND (n - 1)))"
  by (auto simp: probe_hit_def split: option.splits)

lemma search_probe_Some:
  assumes "n = 2 ^ k" "p < n"
  shows "search_probe m ht n keyof key p = Some q \<longleftrightarrow>
    (\<exists>i<m. q = (p + i) mod n \<and> probe_hit ht keyof key q \<and>
       (\<forall>j<i. \<not> probe_hit ht keyof key ((p + j) mod n)))"
  using assms(2)
proof (induction m arbitrary: p)
  case 0
  then show ?case by simp
next
  case (Suc m)
  define p' where "p' = (p + 1) mod n"
  have p': "p' < n" using assms(1) by (simp add: p'_def)
  have mask: "(p + 1) AND (n - 1) = p'" using nat_and_mask [of "p + 1" k] assms(1) by (simp add: p'_def)
  have shift: "(p' + i) mod n = (p + Suc i) mod n" for i
    by (simp add: p'_def mod_add_left_eq)
  show ?case
  proof (cases "probe_hit ht keyof key p")
    case True
    then show ?thesis using Suc.prems
      unfolding search_probe_Suc mask
      by (auto intro!: exI [of _ 0]) (metis mod_less not_gr0 add.right_neutral)
  next
    case False
    have "search_probe (Suc m) ht n keyof key p = Some q \<longleftrightarrow>
      (\<exists>i<m. q = (p + Suc i) mod n \<and> probe_hit ht keyof key q \<and>
       (\<forall>j<i. \<not> probe_hit ht keyof key ((p + Suc j) mod n)))"
      unfolding search_probe_Suc mask using False Suc.IH [OF p'] by (simp add: shift)
    also have "\<dots> \<longleftrightarrow> (\<exists>i<Suc m. q = (p + i) mod n \<and> probe_hit ht keyof key q \<and>
       (\<forall>j<i. \<not> probe_hit ht keyof key ((p + j) mod n)))"
      using False Suc.prems by (auto simp add: Ex_less_Suc2 All_less_Suc2)
    finally show ?thesis .
  qed
qed

lemma search_probe_None:
  assumes "n = 2 ^ k" "p < n"
  shows "search_probe m ht n keyof key p = None \<longleftrightarrow>
    (\<forall>i<m. \<not> probe_hit ht keyof key ((p + i) mod n))"
proof
  assume none: "search_probe m ht n keyof key p = None"
  show "\<forall>i<m. \<not> probe_hit ht keyof key ((p + i) mod n)"
  proof (rule ccontr)
    assume "\<not> ?thesis"
    then obtain i where i: "i < m" "probe_hit ht keyof key ((p + i) mod n)" by blast
    define l where "l = (LEAST i. probe_hit ht keyof key ((p + i) mod n))"
    have "probe_hit ht keyof key ((p + l) mod n)" "l \<le> i"
      unfolding l_def using i(2) by (auto intro: LeastI Least_le)
    moreover have "\<forall>j<l. \<not> probe_hit ht keyof key ((p + j) mod n)"
      unfolding l_def using not_less_Least by blast
    ultimately have "search_probe m ht n keyof key p = Some ((p + l) mod n)"
      using i(1) unfolding search_probe_Some [OF assms] by (intro exI [of _ l]) auto
    with none show False by simp
  qed
next
  assume "\<forall>i<m. \<not> probe_hit ht keyof key ((p + i) mod n)"
  then show "search_probe m ht n keyof key p = None"
    using search_probe_Some [OF assms, of m ht keyof key] by (metis option.exhaust)
qed

text \<open>The probes of a full round visit every slot, each once.\<close>

lemma probe_surj: "(q::nat) < n \<Longrightarrow> p < n \<Longrightarrow> \<exists>i<n. (p + i) mod n = q"
  by (rule exI [of _ "(q + (n - p)) mod n"])
    (auto simp: mod_add_right_eq)

lemma probe_inj:
  assumes "(i::nat) < n" "j < n" "(p + i) mod n = (p + j) mod n"
  shows "i = j"
proof -
  have le: "a = b" if "a \<le> b" "b < n" "(p + a) mod n = (p + b) mod n" for a b :: nat
  proof -
    have "n dvd (p + b) - (p + a)"
      using that(3) by (subst mod_eq_dvd_iff_nat [symmetric]) (use that(1) in simp_all)
    then show ?thesis using that(1,2) nat_dvd_not_less [of "b - a" n] by (cases "a = b") auto
  qed
  show ?thesis using le [of i j] le [of j i] assms by (cases "i \<le> j") auto
qed

subsection \<open>Well-formed tables\<close>

text \<open>
  Every record is reachable by probing from its start slot over occupied slots, and no key
  occurs twice: what makes a search that stops at the first free slot complete.
\<close>

definition chained :: "(bytes \<Rightarrow> nat) \<Rightarrow> ('r \<Rightarrow> bytes) \<Rightarrow> 'r option list \<Rightarrow> bool" where
  "chained start keyof ht \<longleftrightarrow>
     (\<forall>q<length ht. \<forall>rec. ht ! q = Some rec \<longrightarrow>
        (\<exists>i<length ht. q = (start (keyof rec) + i) mod length ht \<and>
           (\<forall>j<i. ht ! ((start (keyof rec) + j) mod length ht) \<noteq> None)))"

definition tab_ok :: "(bytes \<Rightarrow> nat) \<Rightarrow> ('r \<Rightarrow> bytes) \<Rightarrow> 'r option list \<Rightarrow> bool" where
  "tab_ok start keyof ht \<longleftrightarrow>
     (\<exists>k. length ht = 2 ^ k) \<and> (\<forall>key. start key < length ht) \<and>
     chained start keyof ht \<and> distinct (map keyof (somes ht))"

abbreviation tab_search where
  "tab_search start keyof ht key \<equiv>
     search_probe (length ht) ht (length ht) keyof key (start key)"

lemma distinct_somes_nth:
  "distinct (map f (somes xs)) \<longleftrightarrow>
     (\<forall>p q x y. p < q \<longrightarrow> q < length xs \<longrightarrow> xs ! p = Some x \<longrightarrow> xs ! q = Some y \<longrightarrow> f x \<noteq> f y)"
proof (induction xs rule: somes.induct)
  case (2 xs)
  have "(\<forall>p q x y. p < q \<longrightarrow> q < length (None # xs) \<longrightarrow> (None # xs) ! p = Some x \<longrightarrow>
          (None # xs) ! q = Some y \<longrightarrow> f x \<noteq> f y) \<longleftrightarrow>
        (\<forall>p q x y. p < q \<longrightarrow> q < length xs \<longrightarrow> xs ! p = Some x \<longrightarrow> xs ! q = Some y \<longrightarrow> f x \<noteq> f y)"
    by (auto simp: nth_Cons split: nat.splits)
  with 2 show ?case by simp
next
  case (3 a xs)
  have "(\<forall>p q x y. p < q \<longrightarrow> q < length (Some a # xs) \<longrightarrow> (Some a # xs) ! p = Some x \<longrightarrow>
          (Some a # xs) ! q = Some y \<longrightarrow> f x \<noteq> f y) \<longleftrightarrow>
        (\<forall>q y. q < length xs \<longrightarrow> xs ! q = Some y \<longrightarrow> f a \<noteq> f y) \<and>
        (\<forall>p q x y. p < q \<longrightarrow> q < length xs \<longrightarrow> xs ! p = Some x \<longrightarrow> xs ! q = Some y \<longrightarrow> f x \<noteq> f y)"
    by (auto simp: nth_Cons split: nat.splits)
  moreover have "(\<forall>q y. q < length xs \<longrightarrow> xs ! q = Some y \<longrightarrow> f a \<noteq> f y) \<longleftrightarrow>
      f a \<notin> f ` set (somes xs)"
    by (auto simp: set_somes in_set_conv_nth)
  ultimately show ?case using 3 by auto
qed simp

lemma tab_ok_unique:
  assumes "tab_ok start keyof ht" "p < length ht" "q < length ht"
    "ht ! p = Some x" "ht ! q = Some y" "keyof x = keyof y"
  shows "p = q"
  using assms by (metis tab_ok_def distinct_somes_nth linorder_neqE_nat)

lemma tab_search_present:
  assumes ok: "tab_ok start keyof ht" and q: "q < length ht" "ht ! q = Some rec"
  shows "tab_search start keyof ht (keyof rec) = Some q"
proof -
  let ?n = "length ht" and ?s = "start (keyof rec)"
  obtain k where k: "?n = 2 ^ k" using ok by (auto simp: tab_ok_def)
  have s: "?s < ?n" using ok by (simp add: tab_ok_def)
  obtain i where i: "i < ?n" "q = (?s + i) mod ?n" "\<forall>j<i. ht ! ((?s + j) mod ?n) \<noteq> None"
    using ok q unfolding tab_ok_def chained_def by blast
  have "\<not> probe_hit ht keyof (keyof rec) ((?s + j) mod ?n)" if j: "j < i" for j
  proof -
    obtain rec' where rec': "ht ! ((?s + j) mod ?n) = Some rec'" using i(3) j by auto
    have "(?s + j) mod ?n \<noteq> q" using probe_inj [of j ?n i ?s] j i by auto
    then have "keyof rec' \<noteq> keyof rec"
      using tab_ok_unique [OF ok _ q(1) rec' q(2)] k by auto
    with rec' show ?thesis by (simp add: probe_hit_def)
  qed
  moreover have "probe_hit ht keyof (keyof rec) q" using q by (simp add: probe_hit_def)
  ultimately show ?thesis unfolding search_probe_Some [OF k s] using i(1,2) by blast
qed

lemma tab_search_absent:
  assumes ok: "tab_ok start keyof ht" and free: "None \<in> set ht"
    and absent: "key \<notin> keyof ` set (somes ht)"
  obtains q where "tab_search start keyof ht key = Some q" "q < length ht" "ht ! q = None"
proof -
  let ?n = "length ht" and ?s = "start key"
  obtain k where k: "?n = 2 ^ k" using ok by (auto simp: tab_ok_def)
  have s: "?s < ?n" using ok by (simp add: tab_ok_def)
  obtain p where p: "p < ?n" "ht ! p = None" using free by (auto simp: in_set_conv_nth)
  obtain i where "i < ?n" "(?s + i) mod ?n = p" using probe_surj [OF p(1) s] by blast
  then have "tab_search start keyof ht key \<noteq> None"
    unfolding search_probe_None [OF k s] using p by (auto simp: probe_hit_def)
  then obtain q where q: "tab_search start keyof ht key = Some q" by auto
  then have "probe_hit ht keyof key q" and lt: "q < ?n"
    unfolding search_probe_Some [OF k s] using k by auto
  with absent have "ht ! q = None"
    by (auto simp: probe_hit_def set_somes image_iff split: option.splits) (metis nth_mem)
  with q lt show thesis by (rule that)
qed

lemma tab_search_hit:
  assumes "tab_ok start keyof ht" "tab_search start keyof ht key = Some q"
  shows "q < length ht" "probe_hit ht keyof key q"
proof -
  obtain k where k: "length ht = 2 ^ k" using assms(1) by (auto simp: tab_ok_def)
  have s: "start key < length ht" using assms(1) by (simp add: tab_ok_def)
  show "q < length ht" "probe_hit ht keyof key q"
    using assms(2) k unfolding search_probe_Some [OF k s] by auto
qed

lemma tab_ok_replicate:
  "n = 2 ^ k \<Longrightarrow> (\<forall>key. start key < n) \<Longrightarrow> tab_ok start keyof (replicate n None)"
  by (auto simp: tab_ok_def chained_def)

text \<open>Storing a record with a new key in the free slot its search ends at.\<close>

lemma tab_ok_store:
  assumes ok: "tab_ok start keyof ht" and q: "tab_search start keyof ht (keyof rec) = Some q"
    and free: "ht ! q = None"
  shows "tab_ok start keyof (ht[q := Some rec])"
    and "mset (somes (ht[q := Some rec])) = add_mset rec (mset (somes ht))"
    and "keyof rec \<notin> keyof ` set (somes ht)"
proof -
  let ?n = "length ht" and ?s = "start (keyof rec)" and ?ht = "ht[q := Some rec]"
  obtain k where k: "?n = 2 ^ k" using ok by (auto simp: tab_ok_def)
  have s: "?s < ?n" using ok by (simp add: tab_ok_def)
  have lt: "q < ?n" using tab_search_hit [OF ok q] by simp
  show new: "keyof rec \<notin> keyof ` set (somes ht)"
    using tab_search_present [OF ok] q free
    by (auto simp: set_somes in_set_conv_nth)
  show ms: "mset (somes ?ht) = add_mset rec (mset (somes ht))"
    using lt free by (rule mset_somes_update_None)
  have "distinct (map keyof (somes ?ht))"
  proof -
    have "mset (map keyof (somes ?ht)) = mset (keyof rec # map keyof (somes ht))"
      using ms by simp
    then have "distinct (map keyof (somes ?ht)) \<longleftrightarrow> distinct (keyof rec # map keyof (somes ht))"
      by (rule mset_eq_imp_distinct_iff)
    with ok new show ?thesis by (auto simp: tab_ok_def)
  qed
  moreover have "chained start keyof ?ht"
    unfolding chained_def
  proof (intro allI impI)
    fix p r assume p: "p < length ?ht" "?ht ! p = Some r"
    have occ: "?ht ! x \<noteq> None" if "ht ! x \<noteq> None" for x
      using that lt by (cases "x = q") auto
    show "\<exists>i<length ?ht. p = (start (keyof r) + i) mod length ?ht \<and>
        (\<forall>j<i. ?ht ! ((start (keyof r) + j) mod length ?ht) \<noteq> None)"
    proof (cases "p = q")
      case True
      then have r: "r = rec" using p by simp
      obtain i where "i < ?n" "q = (?s + i) mod ?n"
        "\<forall>j<i. \<not> probe_hit ht keyof (keyof rec) ((?s + j) mod ?n)"
        using q unfolding search_probe_Some [OF k s] by blast
      then show ?thesis using True r occ
        by (intro exI [of _ i]) (auto simp: probe_hit_def split: option.splits)
    next
      case False
      then have "ht ! p = Some r" "p < ?n" using p by auto
      then obtain i where "i < ?n" "p = (start (keyof r) + i) mod ?n"
        "\<forall>j<i. ht ! ((start (keyof r) + j) mod ?n) \<noteq> None"
        using ok unfolding tab_ok_def chained_def by blast
      then show ?thesis using occ by (intro exI [of _ i]) auto
    qed
  qed
  ultimately show "tab_ok start keyof ?ht" using ok by (simp add: tab_ok_def)
qed

subsection \<open>The invariant and the map a table stands for\<close>

definition ht_inv :: "(bytes \<Rightarrow> bytes) \<Rightarrow> ('r \<Rightarrow> bytes) \<Rightarrow> 'r rwhashtab \<Rightarrow> bool" where
  "ht_inv hash keyof H \<longleftrightarrow>
     length (ht_ht H) = ht_cursize H \<and> 4 \<le> ht_cursize H \<and> ht_cursize H \<le> SIZE_MAX div 8 \<and>
     ht_numentries H = length (somes (ht_ht H)) \<and>
     ht_numentries H \<le> ht_cursize H - drop_bit 2 (ht_cursize H) \<and>
     tab_ok (rwhashtab_start hash H) keyof (ht_ht H)"

definition ht_map :: "('r \<Rightarrow> bytes) \<Rightarrow> 'r rwhashtab \<Rightarrow> bytes \<Rightarrow> 'r option" where
  "ht_map keyof H = map_of (map (\<lambda>r. (keyof r, r)) (somes (ht_ht H)))"

lemma map_of_keyed_Some:
  "distinct (map f xs) \<Longrightarrow>
     map_of (map (\<lambda>r. (f r, r)) xs) k = Some r \<longleftrightarrow> r \<in> set xs \<and> f r = k"
  by (subst map_of_eq_Some_iff) (auto simp: comp_def)

lemma map_of_keyed_None:
  "map_of (map (\<lambda>r. (f r, r)) xs) k = None \<longleftrightarrow> k \<notin> f ` set xs"
  by (auto simp: map_of_eq_None_iff image_image)

lemma map_of_keyed_mset:
  assumes d: "distinct (map f xs)" and ms: "mset xs = mset ys"
  shows "map_of (map (\<lambda>r. (f r, r)) xs) = map_of (map (\<lambda>r. (f r, r)) ys)"
proof
  fix k
  have "distinct (map f ys)"
    using d ms by (metis mset_eq_imp_distinct_iff mset_map)
  moreover have "set xs = set ys" using ms by (rule mset_eq_setD)
  ultimately have eq: "map_of (map (\<lambda>r. (f r, r)) xs) k = Some r \<longleftrightarrow>
      map_of (map (\<lambda>r. (f r, r)) ys) k = Some r" for r
    using d by (simp add: map_of_keyed_Some)
  show "map_of (map (\<lambda>r. (f r, r)) xs) k = map_of (map (\<lambda>r. (f r, r)) ys) k"
  proof (cases "map_of (map (\<lambda>r. (f r, r)) ys) k")
    case None
    then show ?thesis using eq by (cases "map_of (map (\<lambda>r. (f r, r)) xs) k") auto
  next
    case (Some r)
    then show ?thesis using eq [of r] by simp
  qed
qed

lemma rwhashtab_start_cong:
  "ht_cursize H' = ht_cursize H \<Longrightarrow> ht_randbuf H' = ht_randbuf H \<Longrightarrow>
     rwhashtab_start hash H' = rwhashtab_start hash H"
  by (simp add: rwhashtab_start_def fun_eq_iff)

lemma rwhashtab_start_less: "ht_cursize H = 2 ^ k \<Longrightarrow> rwhashtab_start hash H key < ht_cursize H"
  using nat_and_mask [of _ k] by (simp add: rwhashtab_start_def)

lemma ht_inv_free:
  assumes "ht_inv hash keyof H"
  shows "None \<in> set (ht_ht H)"
proof -
  have "0 < drop_bit 2 (ht_cursize H)"
    using assms by (simp add: ht_inv_def drop_bit_eq_div div_greater_zero_iff)
  then have "length (somes (ht_ht H)) < length (ht_ht H)"
    using assms by (auto simp: ht_inv_def)
  then show ?thesis by (simp add: length_somes_less)
qed

lemma ht_inv_search:
  assumes "ht_inv hash keyof H"
  obtains q where "rwhashtab_search hash keyof H key = Some q" "q < ht_cursize H"
    "ht_ht H ! q = ht_map keyof H key"
proof (cases "ht_map keyof H key")
  case None
  then have "key \<notin> keyof ` set (somes (ht_ht H))" by (simp add: ht_map_def map_of_keyed_None)
  moreover have "tab_ok (rwhashtab_start hash H) keyof (ht_ht H)"
    and len: "length (ht_ht H) = ht_cursize H" using assms by (simp_all add: ht_inv_def)
  ultimately obtain q where "tab_search (rwhashtab_start hash H) keyof (ht_ht H) key = Some q"
    "q < length (ht_ht H)" "ht_ht H ! q = None"
    using tab_search_absent ht_inv_free [OF assms] by metis
  then show thesis using that None len by (simp add: rwhashtab_search_def)
next
  case (Some rec)
  have "distinct (map keyof (somes (ht_ht H)))" using assms by (simp add: ht_inv_def tab_ok_def)
  with Some have "rec \<in> set (somes (ht_ht H))" and key: "keyof rec = key"
    by (simp_all add: ht_map_def map_of_keyed_Some)
  then obtain q where "q < length (ht_ht H)" "ht_ht H ! q = Some rec"
    by (auto simp: set_somes in_set_conv_nth)
  then show thesis
    using tab_search_present [of "rwhashtab_start hash H" keyof "ht_ht H" q rec] assms Some key that
    by (auto simp: ht_inv_def rwhashtab_search_def)
qed

lemma ht_map_Some:
  "ht_inv hash keyof H \<Longrightarrow>
     ht_map keyof H key = Some r \<longleftrightarrow> r \<in> set (somes (ht_ht H)) \<and> keyof r = key"
  by (simp add: ht_map_def ht_inv_def tab_ok_def map_of_keyed_Some)

subsection \<open>Reading\<close>

lemma rwhashtab_read_spec:
  "ht_inv hash keyof H \<Longrightarrow> rwhashtab_read hash keyof H key = Some (ht_map keyof H key)"
  by (erule ht_inv_search [of hash keyof H key]) (simp add: rwhashtab_read_def)

subsection \<open>Inserting\<close>

lemma rwhashtab_insert_nogrow_spec:
  assumes inv: "ht_inv hash keyof H"
    and room: "ht_numentries H < ht_cursize H - drop_bit 2 (ht_cursize H)"
  shows "\<exists>rc H'. rwhashtab_insert_nogrow hash keyof H rec = Some (rc, H') \<and> ht_inv hash keyof H' \<and>
    (if ht_map keyof H (keyof rec) = None
     then rc = 0 \<and> ht_map keyof H' = (ht_map keyof H)(keyof rec \<mapsto> rec)
     else rc = 1 \<and> H' = H)"
proof -
  obtain q where q: "rwhashtab_search hash keyof H (keyof rec) = Some q" "q < ht_cursize H"
    "ht_ht H ! q = ht_map keyof H (keyof rec)"
    using inv by (rule ht_inv_search)
  show ?thesis
  proof (cases "ht_map keyof H (keyof rec)")
    case (Some r)
    then show ?thesis using q inv by (simp add: rwhashtab_insert_nogrow_def)
  next
    case None
    let ?H' = "H\<lparr>ht_ht := (ht_ht H)[q := Some rec], ht_numentries := ht_numentries H + 1\<rparr>"
    have tab: "tab_ok (rwhashtab_start hash H) keyof (ht_ht H)"
      and len: "length (ht_ht H) = ht_cursize H" using inv by (simp_all add: ht_inv_def)
    have srch: "tab_search (rwhashtab_start hash H) keyof (ht_ht H) (keyof rec) = Some q"
      using q(1) len by (simp add: rwhashtab_search_def)
    note st = tab_ok_store [OF tab srch]
    have free: "ht_ht H ! q = None" using q None by simp
    have ms: "mset (somes (ht_ht ?H')) = mset (rec # somes (ht_ht H))" using st(2) free by simp
    have start: "rwhashtab_start hash ?H' = rwhashtab_start hash H"
      by (rule rwhashtab_start_cong) simp_all
    have "length (somes (ht_ht ?H')) = Suc (length (somes (ht_ht H)))"
      using ms by (metis size_mset length_Cons)
    then have "ht_inv hash keyof ?H'"
      using inv room st(1) free start by (simp add: ht_inv_def)
    moreover have "ht_map keyof ?H' = (ht_map keyof H)(keyof rec \<mapsto> rec)"
    proof -
      have "distinct (map keyof (somes (ht_ht ?H')))" using st(1) free by (simp add: tab_ok_def)
      from map_of_keyed_mset [OF this ms] show ?thesis by (simp add: ht_map_def)
    qed
    ultimately show ?thesis using q None by (simp add: rwhashtab_insert_nogrow_def)
  qed
qed

lemma rehash_spec:
  assumes "tab_ok (rwhashtab_start hash H) keyof (ht_ht H)" "length (ht_ht H) = ht_cursize H"
    "distinct (map keyof (somes old @ somes (ht_ht H)))"
    "length (somes old) + length (somes (ht_ht H)) < ht_cursize H"
  shows "\<exists>ht'. rehash hash keyof old H = Some (H\<lparr>ht_ht := ht'\<rparr>) \<and> length ht' = ht_cursize H \<and>
    tab_ok (rwhashtab_start hash H) keyof ht' \<and>
    mset (somes ht') = mset (somes old) + mset (somes (ht_ht H))"
  using assms
proof (induction old arbitrary: H rule: somes.induct)
  case 1
  then show ?case by (intro exI [of _ "ht_ht H"]) simp
next
  case (2 xs)
  then show ?case by simp
next
  case (3 r xs)
  have "None \<in> set (ht_ht H)" using 3(3,5) by (simp flip: length_somes_less)
  moreover have "keyof r \<notin> keyof ` set (somes (ht_ht H))" using 3(4) by auto
  ultimately obtain q where q: "tab_search (rwhashtab_start hash H) keyof (ht_ht H) (keyof r) = Some q"
    "q < length (ht_ht H)" "ht_ht H ! q = None"
    using tab_search_absent [OF 3(2)] by metis
  note st = tab_ok_store [OF 3(2) q(1,3)]
  let ?H = "H\<lparr>ht_ht := (ht_ht H)[q := Some r]\<rparr>"
  have start: "rwhashtab_start hash ?H = rwhashtab_start hash H"
    by (rule rwhashtab_start_cong) simp_all
  have ms: "mset (somes (ht_ht ?H)) = mset (r # somes (ht_ht H))" using st(2) by simp
  have d: "distinct (map keyof (somes xs @ somes (ht_ht ?H)))"
  proof -
    have "mset (map keyof (somes xs @ somes (ht_ht ?H))) =
          mset (map keyof (somes (Some r # xs) @ somes (ht_ht H)))"
      using ms by simp
    then show ?thesis using 3(4) by (metis mset_eq_imp_distinct_iff)
  qed
  have l: "length (somes (ht_ht ?H)) = Suc (length (somes (ht_ht H)))"
    using ms by (metis size_mset length_Cons)
  have "\<exists>ht'. rehash hash keyof xs ?H = Some (?H\<lparr>ht_ht := ht'\<rparr>) \<and> length ht' = ht_cursize ?H \<and>
    tab_ok (rwhashtab_start hash ?H) keyof ht' \<and>
    mset (somes ht') = mset (somes xs) + mset (somes (ht_ht ?H))"
    by (rule 3(1)) (use st(1) 3(3,5) d l start in simp_all)
  then show ?case using q(1) 3(3) ms start by (auto simp: rwhashtab_search_def)
qed

lemma rwhashtab_enlarge_spec:
  assumes inv: "ht_inv hash keyof H"
  shows "\<exists>rc H'. rwhashtab_enlarge ma hash keyof H = Some (rc, H') \<and> ht_inv hash keyof H' \<and>
    ht_map keyof H' = ht_map keyof H \<and>
    (if ma \<and> ht_cursize H * 2 \<le> SIZE_MAX div 8
     then rc = 0 \<and> ht_numentries H' < ht_cursize H' - drop_bit 2 (ht_cursize H')
     else rc = -1 \<and> H' = H)"
proof -
  have bound: "ht_cursize H * 2 < 18446744073709551616" using inv by (simp add: ht_inv_def)
  show ?thesis
  proof (cases "ma \<and> ht_cursize H * 2 \<le> SIZE_MAX div 8")
    case False
    then show ?thesis using inv bound by (auto simp: rwhashtab_enlarge_def Let_def)
  next
    case True
    let ?n = "ht_cursize H * 2"
    let ?H = "H\<lparr>ht_ht := replicate ?n None, ht_cursize := ?n\<rparr>"
    obtain k where "length (ht_ht H) = 2 ^ k" using inv unfolding ht_inv_def tab_ok_def by blast
    then have n: "?n = 2 ^ Suc k" using inv by (simp add: ht_inv_def)
    have "ht_cursize ?H = ?n" by simp
    with n have "\<forall>key. rwhashtab_start hash ?H key < ?n"
      using rwhashtab_start_less [of ?H "Suc k" hash] by metis
    with n have "tab_ok (rwhashtab_start hash ?H) keyof (replicate ?n None)"
      by (rule tab_ok_replicate)
    then have "tab_ok (rwhashtab_start hash ?H) keyof (ht_ht ?H)" by simp
    moreover have few: "length (somes (ht_ht H)) < ?n" and
      num: "length (somes (ht_ht H)) < ?n - drop_bit 2 ?n"
      using inv by (auto simp: ht_inv_def drop_bit_eq_div)
    ultimately obtain ht' where ht': "rehash hash keyof (ht_ht H) ?H = Some (?H\<lparr>ht_ht := ht'\<rparr>)"
      "length ht' = ?n" "tab_ok (rwhashtab_start hash ?H) keyof ht'"
      "mset (somes ht') = mset (somes (ht_ht H))"
      using rehash_spec [of hash ?H keyof "ht_ht H"] inv by (auto simp: ht_inv_def tab_ok_def)
    let ?H' = "?H\<lparr>ht_ht := ht'\<rparr>"
    have start: "rwhashtab_start hash ?H' = rwhashtab_start hash ?H"
      by (rule rwhashtab_start_cong) simp_all
    have len: "length (somes ht') = length (somes (ht_ht H))" using ht'(4) by (metis size_mset)
    have "ht_inv hash keyof ?H'"
      using inv ht' start len True num by (simp add: ht_inv_def)
    moreover have "ht_map keyof ?H' = ht_map keyof H"
    proof -
      have "distinct (map keyof (somes ht'))" using ht'(3) by (simp add: tab_ok_def)
      from map_of_keyed_mset [OF this ht'(4)] show ?thesis by (simp add: ht_map_def)
    qed
    ultimately show ?thesis using True bound ht'(1) num inv
      by (simp add: rwhashtab_enlarge_def ht_inv_def)
  qed
qed

lemma rwhashtab_insert_spec:
  assumes inv: "ht_inv hash keyof H"
  shows "\<exists>rc H'. rwhashtab_insert ma hash keyof H rec = Some (rc, H') \<and> ht_inv hash keyof H' \<and>
    (rc = 0 \<and> ht_map keyof H (keyof rec) = None \<and>
       ht_map keyof H' = (ht_map keyof H)(keyof rec \<mapsto> rec)
     \<or> rc = 1 \<and> ht_map keyof H (keyof rec) \<noteq> None \<and> ht_map keyof H' = ht_map keyof H
     \<or> rc = -1 \<and> H' = H \<and> \<not> (ma \<and> ht_cursize H * 2 \<le> SIZE_MAX div 8))"
proof (cases "ht_numentries H \<ge> ht_cursize H - drop_bit 2 (ht_cursize H)")
  case False
  then show ?thesis
    using rwhashtab_insert_nogrow_spec [OF inv, of rec]
    by (auto simp: rwhashtab_insert_def split: if_splits)
next
  case grow: True
  obtain rc H1 where H1: "rwhashtab_enlarge ma hash keyof H = Some (rc, H1)" "ht_inv hash keyof H1"
    "ht_map keyof H1 = ht_map keyof H"
    "if ma \<and> ht_cursize H * 2 \<le> SIZE_MAX div 8
     then rc = 0 \<and> ht_numentries H1 < ht_cursize H1 - drop_bit 2 (ht_cursize H1)
     else rc = -1 \<and> H1 = H"
    using rwhashtab_enlarge_spec [OF inv] by blast
  show ?thesis
  proof (cases "ma \<and> ht_cursize H * 2 \<le> SIZE_MAX div 8")
    case True
    then have "rc = 0" "ht_numentries H1 < ht_cursize H1 - drop_bit 2 (ht_cursize H1)"
      using H1(4) by simp_all
    then show ?thesis
      using rwhashtab_insert_nogrow_spec [OF H1(2), of rec] H1(1,2,3) grow
      by (auto simp: rwhashtab_insert_def split: if_splits)
  next
    case False
    then show ?thesis using H1 grow by (simp add: rwhashtab_insert_def)
  qed
qed

subsection \<open>Writing through a record pointer\<close>

lemma somes_update_Some:
  "q < length xs \<Longrightarrow> xs ! q = Some r0 \<Longrightarrow> f r = f r0 \<Longrightarrow>
     map f (somes (xs[q := Some r])) = map f (somes xs)"
proof (induction xs arbitrary: q rule: somes.induct)
  case (2 xs)
  then show ?case by (cases q) auto
next
  case (3 x xs)
  then show ?case by (cases q) auto
qed simp

lemma tab_ok_modify:
  assumes ok: "tab_ok start keyof ht" and q: "q < length ht" "ht ! q = Some r0"
    and key: "keyof r = keyof r0"
  shows "tab_ok start keyof (ht[q := Some r])"
proof -
  have keys: "map keyof (somes (ht[q := Some r])) = map keyof (somes ht)"
    using q key by (rule somes_update_Some)
  have "chained start keyof (ht[q := Some r])"
    unfolding chained_def
  proof (intro allI impI)
    fix p x assume p: "p < length (ht[q := Some r])" "ht[q := Some r] ! p = Some x"
    have occ: "ht[q := Some r] ! y \<noteq> None" if "ht ! y \<noteq> None" for y
      using that q by (cases "y = q") auto
    obtain x0 where "ht ! p = Some x0" "keyof x0 = keyof x"
      using p q key by (cases "p = q") auto
    then obtain i where "i < length ht" "p = (start (keyof x) + i) mod length ht"
      "\<forall>j<i. ht ! ((start (keyof x) + j) mod length ht) \<noteq> None"
      using ok p unfolding tab_ok_def chained_def by (metis length_list_update)
    then show "\<exists>i<length (ht[q := Some r]).
        p = (start (keyof x) + i) mod length (ht[q := Some r]) \<and>
        (\<forall>j<i. ht[q := Some r] ! ((start (keyof x) + j) mod length (ht[q := Some r])) \<noteq> None)"
      using occ by (intro exI [of _ i]) auto
  qed
  then show ?thesis using ok keys by (simp add: tab_ok_def)
qed

lemma rwhashtab_update_spec:
  assumes inv: "ht_inv hash keyof H" and present: "ht_map keyof H (keyof rec) = Some r0"
  shows "ht_inv hash keyof (rwhashtab_update hash keyof H rec)"
    and "ht_map keyof (rwhashtab_update hash keyof H rec) = (ht_map keyof H)(keyof rec \<mapsto> rec)"
    and "ht_numentries (rwhashtab_update hash keyof H rec) = ht_numentries H"
proof -
  obtain q where q: "rwhashtab_search hash keyof H (keyof rec) = Some q" "q < ht_cursize H"
    "ht_ht H ! q = Some r0"
    using ht_inv_search [OF inv] present by metis
  let ?H = "H\<lparr>ht_ht := (ht_ht H)[q := Some rec]\<rparr>"
  have upd: "rwhashtab_update hash keyof H rec = ?H" using q by (simp add: rwhashtab_update_def)
  have len: "length (ht_ht H) = ht_cursize H"
    and tab: "tab_ok (rwhashtab_start hash H) keyof (ht_ht H)" using inv by (simp_all add: ht_inv_def)
  have key: "keyof rec = keyof r0" using present ht_map_Some [OF inv] by simp
  have start: "rwhashtab_start hash ?H = rwhashtab_start hash H" by (rule rwhashtab_start_cong) simp_all
  have tab': "tab_ok (rwhashtab_start hash H) keyof ((ht_ht H)[q := Some rec])"
    using tab q(2,3) len key by (intro tab_ok_modify) auto
  have keys: "map keyof (somes ((ht_ht H)[q := Some rec])) = map keyof (somes (ht_ht H))"
    using q(2,3) len key by (intro somes_update_Some) auto
  from arg_cong [OF keys, of length]
  show inv': "ht_inv hash keyof (rwhashtab_update hash keyof H rec)"
    unfolding upd using inv tab' start by (simp add: ht_inv_def)
  show "ht_numentries (rwhashtab_update hash keyof H rec) = ht_numentries H" by (simp add: upd)
  have mem: "r \<in> set (somes ((ht_ht H)[q := Some rec])) \<longleftrightarrow>
      r = rec \<or> r \<in> set (somes (ht_ht H)) \<and> keyof r \<noteq> keyof rec" for r
  proof -
    have slots: "r \<in> set (somes xs) \<longleftrightarrow> (\<exists>p<length xs. xs ! p = Some r)" for xs
      by (auto simp: set_somes in_set_conv_nth)
    have "p = q" if "p < ht_cursize H" "ht_ht H ! p = Some r" "keyof r = keyof rec" for p
      using tab_ok_unique [OF tab, of p q r r0] that q len key by simp
    then have "(\<exists>p<ht_cursize H. p \<noteq> q \<and> ht_ht H ! p = Some r) \<longleftrightarrow>
        (\<exists>p<ht_cursize H. ht_ht H ! p = Some r) \<and> keyof r \<noteq> keyof rec"
      using q(2,3) key by (metis option.inject)
    moreover have "(\<exists>p<ht_cursize H. (ht_ht H)[q := Some rec] ! p = Some r) \<longleftrightarrow>
        r = rec \<or> (\<exists>p<ht_cursize H. p \<noteq> q \<and> ht_ht H ! p = Some r)"
      using q(2) len by (auto simp: nth_list_update)
    ultimately show ?thesis unfolding slots using len by simp
  qed
  show "ht_map keyof (rwhashtab_update hash keyof H rec) = (ht_map keyof H)(keyof rec \<mapsto> rec)"
  proof (rule ext, rule option.expand)
    fix k
    have "ht_map keyof (rwhashtab_update hash keyof H rec) k = Some r \<longleftrightarrow>
        ((ht_map keyof H)(keyof rec \<mapsto> rec)) k = Some r" for r
      using ht_map_Some [OF inv'] ht_map_Some [OF inv] by (auto simp: upd mem)
    then show "(ht_map keyof (rwhashtab_update hash keyof H rec) k = None) =
        (((ht_map keyof H)(keyof rec \<mapsto> rec)) k = None)"
      by (metis option.exhaust_sel)
  next
    fix k
    assume "ht_map keyof (rwhashtab_update hash keyof H rec) k \<noteq> None"
    then obtain r where r: "ht_map keyof (rwhashtab_update hash keyof H rec) k = Some r" by auto
    then have "((ht_map keyof H)(keyof rec \<mapsto> rec)) k = Some r"
      using ht_map_Some [OF inv'] ht_map_Some [OF inv] by (auto simp: upd mem)
    with r show "the (ht_map keyof (rwhashtab_update hash keyof H rec) k) =
        the (((ht_map keyof H)(keyof rec \<mapsto> rec)) k)" by simp
  qed
qed

subsection \<open>Iterating\<close>

fun foreach_recs :: "('r \<Rightarrow> 's \<Rightarrow> int \<times> 'r \<times> 's) \<Rightarrow> 'r list \<Rightarrow> 's \<Rightarrow> int \<times> 'r list \<times> 's" where
  "foreach_recs func [] s = (0, [], s)"
| "foreach_recs func (rec # rs) s =
     (case func rec s of (rc, rec', s') \<Rightarrow>
        if rc \<noteq> 0 then (rc, rec' # rs, s')
        else case foreach_recs func rs s' of (rc', rs', s'') \<Rightarrow> (rc', rec' # rs', s''))"

lemma foreach_slots_recs:
  "foreach_slots func ht s = (rc, ht', s') \<Longrightarrow> foreach_recs func (somes ht) s = (rc, somes ht', s')"
  by (induction func ht s arbitrary: rc ht' s' rule: foreach_slots.induct)
    (auto split: prod.splits if_splits)

lemma foreach_slots_frame:
  assumes "\<And>r s. keyof (fst (snd (func r s))) = keyof r"
  shows "foreach_slots func ht s = (rc, ht', s') \<Longrightarrow>
    map (map_option keyof) ht' = map (map_option keyof) ht"
  using assms
  by (induction func ht s arbitrary: rc ht' s' rule: foreach_slots.induct)
    (auto split: prod.splits if_splits, (metis fst_conv snd_conv)+)

lemma tab_ok_same_keys:
  assumes same: "map (map_option keyof) ht' = map (map_option keyof) ht"
    and ok: "tab_ok start keyof ht"
  shows "tab_ok start keyof ht'"
proof -
  have len: "length ht' = length ht" using same by (rule map_eq_imp_length_eq)
  have nth: "map_option keyof (ht' ! i) = map_option keyof (ht ! i)" if "i < length ht" for i
    using that same len by (metis nth_map)
  have "map keyof (somes xs) = somes (map (map_option keyof) xs)" for xs
    by (induction xs rule: somes.induct) auto
  then have keys: "map keyof (somes ht') = map keyof (somes ht)" using same by simp
  have pos: "0 < length ht" using ok by (auto simp: tab_ok_def)
  have occ: "ht' ! (x mod length ht) = None \<longleftrightarrow> ht ! (x mod length ht) = None" for x
    using nth [of "x mod length ht"] pos by (metis mod_less_divisor map_option_is_None)
  have "chained start keyof ht'"
    unfolding chained_def len
  proof (intro allI impI)
    fix q x assume q: "q < length ht" "ht' ! q = Some x"
    then obtain x0 where "ht ! q = Some x0" "keyof x0 = keyof x"
      using nth [of q] by (cases "ht ! q") auto
    then show "\<exists>i<length ht. q = (start (keyof x) + i) mod length ht \<and>
        (\<forall>j<i. ht' ! ((start (keyof x) + j) mod length ht) \<noteq> None)"
      using ok q(1) unfolding occ tab_ok_def chained_def by metis
  qed
  then show ?thesis using ok keys len by (simp add: tab_ok_def)
qed

lemma rwhashtab_foreach_spec:
  assumes inv: "ht_inv hash keyof H" and key: "\<And>r s. keyof (fst (snd (func r s))) = keyof r"
    and run: "rwhashtab_foreach func H s = (rc, H', s')"
  shows "ht_inv hash keyof H'"
    and "foreach_recs func (somes (ht_ht H)) s = (rc, somes (ht_ht H'), s')"
proof -
  obtain ht' where ht': "foreach_slots func (ht_ht H) s = (rc, ht', s')" "H' = H\<lparr>ht_ht := ht'\<rparr>"
    using run by (auto simp: rwhashtab_foreach_def split: prod.splits)
  have same: "map (map_option keyof) ht' = map (map_option keyof) (ht_ht H)"
    using foreach_slots_frame [where keyof = keyof and func = func, OF key ht'(1)] .
  have "map keyof (somes xs) = somes (map (map_option keyof) xs)" for xs
    by (induction xs rule: somes.induct) auto
  then have "map keyof (somes ht') = map keyof (somes (ht_ht H))" using same by simp
  from arg_cong [OF this, of length] arg_cong [OF same, of length]
  have "length (somes ht') = length (somes (ht_ht H))" "length ht' = length (ht_ht H)" by simp_all
  moreover have "rwhashtab_start hash H' = rwhashtab_start hash H"
    using ht'(2) by (intro rwhashtab_start_cong) simp_all
  ultimately show "ht_inv hash keyof H'"
    using inv ht'(2) tab_ok_same_keys [OF same] by (simp add: ht_inv_def)
  show "foreach_recs func (somes (ht_ht H)) s = (rc, somes (ht_ht H'), s')"
    using foreach_slots_recs [OF ht'(1)] ht'(2) by simp
qed

subsection \<open>Creating\<close>

lemma rwhashtab_init_inv:
  "rwhashtab_init ma entropy keylength = Some H \<Longrightarrow>
     ht_inv hash keyof H \<and> ht_map keyof H = Map.empty \<and> ht_numentries H = 0"
proof -
  assume "rwhashtab_init ma entropy keylength = Some H"
  then have H: "ht_cursize H = 4" "ht_numentries H = 0" "ht_ht H = replicate 4 None"
    by (auto simp: rwhashtab_init_def split: if_splits option.splits)
  have "rwhashtab_start hash H key < 4" for key
    using rwhashtab_start_less [of H 2 hash key] H by simp
  then have "tab_ok (rwhashtab_start hash H) keyof (replicate 4 None)"
    using tab_ok_replicate [of 4 2 "rwhashtab_start hash H" keyof] by simp
  moreover have "somes (ht_ht H) = []" using H(3) by simp
  ultimately show ?thesis using H by (simp add: ht_inv_def ht_map_def drop_bit_eq_div)
qed

subsection \<open>Sums over the records, and room for more of them\<close>

lemma ht_map_finite [simp]: "finite (dom (ht_map keyof H))"
  by (simp add: ht_map_def finite_dom_map_of)

lemma ht_map_image:
  assumes "ht_inv hash keyof H"
  shows "set (somes (ht_ht H)) = ran (ht_map keyof H)"
  using ht_map_Some [OF assms] by (auto simp: ran_def)

lemma ht_map_dom:
  assumes "ht_inv hash keyof H"
  shows "dom (ht_map keyof H) = keyof ` set (somes (ht_ht H))"
  using ht_map_Some [OF assms] by (auto simp: dom_def)

lemma ht_map_sum:
  assumes "ht_inv hash keyof H"
  shows "(\<Sum>k\<in>dom (ht_map keyof H). f (the (ht_map keyof H k))) = sum_list (map f (somes (ht_ht H)))"
proof -
  have d: "distinct (map keyof (somes (ht_ht H)))" using assms by (simp add: ht_inv_def tab_ok_def)
  have "(\<Sum>k\<in>dom (ht_map keyof H). f (the (ht_map keyof H k))) =
      (\<Sum>r\<in>set (somes (ht_ht H)). f (the (ht_map keyof H (keyof r))))"
    unfolding ht_map_dom [OF assms] using d by (subst sum.reindex) (auto simp: distinct_map)
  also have "\<dots> = (\<Sum>r\<in>set (somes (ht_ht H)). f r)"
  proof (intro sum.cong refl)
    fix r assume "r \<in> set (somes (ht_ht H))"
    then have "ht_map keyof H (keyof r) = Some r" using ht_map_Some [OF assms] by blast
    then show "f (the (ht_map keyof H (keyof r))) = f r" by simp
  qed
  also have "\<dots> = sum_list (map f (somes (ht_ht H)))"
    using d by (simp add: sum_list_distinct_conv_sum_set distinct_map)
  finally show ?thesis .
qed

lemma ht_numentries_card:
  assumes "ht_inv hash keyof H"
  shows "card (dom (ht_map keyof H)) = ht_numentries H"
proof -
  have "distinct (map keyof (somes (ht_ht H)))" using assms by (simp add: ht_inv_def tab_ok_def)
  from distinct_card [OF this] show ?thesis
    using assms by (simp add: ht_map_dom [OF assms] ht_inv_def)
qed

text \<open>The table is at most four times as large as it needs to be, so that it can always grow
  while its number of records is within the bound.\<close>

definition ht_tight :: "'r rwhashtab \<Rightarrow> bool" where
  "ht_tight H \<longleftrightarrow> ht_cursize H \<le> 4 * (ht_numentries H + 1)"

lemma rwhashtab_insert_tight:
  assumes "rwhashtab_insert ma hash keyof H rec = Some (rc, H')" "ht_tight H"
    "ht_cursize H * 2 < 18446744073709551616"
  shows "ht_tight H'"
proof -
  have nogrow: "ht_cursize H2 = ht_cursize H1 \<and> ht_numentries H1 \<le> ht_numentries H2"
    if "rwhashtab_insert_nogrow hash keyof H1 rec = Some (rc', H2)" for H1 H2 rc'
    using that by (auto simp: rwhashtab_insert_nogrow_def split: option.splits if_splits)
  have reh: "ht_cursize H2 = ht_cursize H1 \<and> ht_numentries H1 = ht_numentries H2"
    if "rehash hash keyof xs H1 = Some H2" for xs H1 H2
    using that by (induction xs arbitrary: H1 rule: somes.induct) (fastforce split: option.splits)+
  have grow: "ht_cursize H1 = 2 * ht_cursize H \<and> ht_numentries H1 = ht_numentries H"
    if "rwhashtab_enlarge ma hash keyof H = Some (0, H1)" for H1
    using that assms(3)
    by (auto simp: rwhashtab_enlarge_def Let_def split: option.splits if_splits dest!: reh)
  have fail: "H1 = H" if "rwhashtab_enlarge ma hash keyof H = Some (rc', H1)" "rc' \<noteq> 0" for rc' H1
    using that by (auto simp: rwhashtab_enlarge_def Let_def split: option.splits if_splits)
  show ?thesis
  proof (cases "ht_numentries H \<ge> ht_cursize H - drop_bit 2 (ht_cursize H)")
    case False
    then have "ht_cursize H' = ht_cursize H \<and> ht_numentries H \<le> ht_numentries H'"
      using assms(1) by (intro nogrow) (simp add: rwhashtab_insert_def)
    then show ?thesis using assms(2) by (simp add: ht_tight_def)
  next
    case True
    then obtain rc1 H1 where H1: "rwhashtab_enlarge ma hash keyof H = Some (rc1, H1)"
      using assms(1) by (auto simp: rwhashtab_insert_def split: option.splits)
    show ?thesis
    proof (cases "rc1 = 0")
      case False
      then have "H' = H" using True H1 fail assms(1) by (simp add: rwhashtab_insert_def)
      then show ?thesis using assms(2) by simp
    next
      case rc1: True
      then have "rwhashtab_insert_nogrow hash keyof H1 rec = Some (rc, H')"
        using True H1 assms(1) by (simp add: rwhashtab_insert_def)
      from nogrow [OF this] grow [OF H1 [unfolded rc1]]
      have sizes: "ht_cursize H' = 2 * ht_cursize H" "ht_numentries H \<le> ht_numentries H'" by simp_all
      have "ht_cursize H - ht_cursize H div 4 \<le> ht_numentries H" using True by (simp add: drop_bit_eq_div)
      then have "2 * ht_cursize H \<le> 4 * ht_numentries H" by linarith
      then have "2 * ht_cursize H \<le> 4 * ht_numentries H'" using sizes(2) by simp
      with sizes(1) show ?thesis by (simp add: ht_tight_def)
    qed
  qed
qed

lemma rwhashtab_insert_room:
  assumes "ht_inv hash keyof H" "ht_tight H" "ht_numentries H < 2 ^ 48"
    "rwhashtab_insert True hash keyof H rec = Some (rc, H')"
  shows "rc \<noteq> -1" "ht_tight H'"
proof -
  have small: "ht_cursize H * 2 \<le> SIZE_MAX div 8" using assms(2,3) by (simp add: ht_tight_def)
  then show "rc \<noteq> -1" using rwhashtab_insert_spec [OF assms(1), of True rec] assms(4) by auto
  show "ht_tight H'" using rwhashtab_insert_tight [OF assms(4,2)] small by simp
qed

lemma rwhashtab_init_tight: "rwhashtab_init ma entropy keylength = Some H \<Longrightarrow> ht_tight H"
  by (auto simp: rwhashtab_init_def ht_tight_def split: if_splits option.splits)

subsection \<open>The table meets its contract\<close>

interpretation ht: keyed_table "ht_inv hash keyof" "ht_map keyof" "rwhashtab_read hash keyof"
  "\<lambda>ma. rwhashtab_insert ma hash keyof" "rwhashtab_update hash keyof" keyof
  for hash :: "bytes \<Rightarrow> bytes" and keyof :: "'r \<Rightarrow> bytes"
proof unfold_locales
  fix t :: "'r rwhashtab" and k ma r
  assume inv: "ht_inv hash keyof t"
  show "rwhashtab_read hash keyof t k = Some (ht_map keyof t k)"
    using inv by (rule rwhashtab_read_spec)
  show "keyof r = k" if "ht_map keyof t k = Some r"
    using that ht_map_Some [OF inv] by simp
  show "\<exists>rc t'. rwhashtab_insert ma hash keyof t r = Some (rc, t') \<and> ht_inv hash keyof t' \<and>
      (rc = 0 \<and> ht_map keyof t (keyof r) = None \<and> ht_map keyof t' = (ht_map keyof t)(keyof r \<mapsto> r)
       \<or> rc = 1 \<and> ht_map keyof t (keyof r) \<noteq> None \<and> ht_map keyof t' = ht_map keyof t
       \<or> rc = -1 \<and> t' = t)"
    using rwhashtab_insert_spec [OF inv, of ma r] by blast
  show "ht_inv hash keyof (rwhashtab_update hash keyof t r)" if "ht_map keyof t (keyof r) \<noteq> None"
    using that rwhashtab_update_spec(1) [OF inv] by auto
  show "ht_map keyof (rwhashtab_update hash keyof t r) = (ht_map keyof t)(keyof r \<mapsto> r)"
    if "ht_map keyof t (keyof r) \<noteq> None"
    using that rwhashtab_update_spec(2) [OF inv] by auto
qed

section \<open>Properties\<close>

text \<open>C37: On a well-formed table every search ends within \<open>ht_cursize\<close> probes, at the slot of
  the record with the key if the table has one and at a free slot otherwise; the unbounded
  probe loops of \<^verbatim>\<open>rwhashtab_read\<close> and \<^verbatim>\<open>rwhashtab_insert\<close> therefore return.\<close>

theorem rwhashtab_search_ends:
  assumes "ht_inv hash keyof H"
  shows "\<exists>q < ht_cursize H. rwhashtab_search hash keyof H key = Some q \<and>
    ht_ht H ! q = ht_map keyof H key \<and>
    (\<forall>rec. ht_map keyof H key = Some rec \<longleftrightarrow> Some rec \<in> set (ht_ht H) \<and> keyof rec = key)"
  using ht_inv_search [OF assms, of key] ht_map_Some [OF assms, of key]
  by (metis (no_types, lifting) mem_Collect_eq set_somes)

text \<open>A table with one record, for the concrete instances below; every key hashes to slot 0.\<close>

definition sample_hash :: "bytes \<Rightarrow> bytes" where
  "sample_hash b = replicate 32 0"

definition sample_table :: "bytes rwhashtab" where
  "sample_table = \<lparr>ht_cursize = 4, ht_numentries = 1,
     ht_ht = [Some [5], None, None, None], ht_randbuf = [7]\<rparr>"

lemma sample_table_start [simp]: "rwhashtab_start sample_hash H key = 0"
  by (simp add: rwhashtab_start_def sample_hash_def numeral_eq_Suc le64dec_def)

lemmas search_probe_numeral [simp] =
  search_probe.simps(2) [of "pred_numeral k", folded numeral_eq_Suc] for k

lemma replicate_4_None: "replicate 4 None = [None, None, None, None]"
  by (simp add: numeral_eq_Suc)

lemma sample_table_inv: "ht_inv sample_hash (\<lambda>r. r) sample_table"
proof -
  let ?H = "\<lparr>ht_cursize = 4, ht_numentries = 0, ht_ht = replicate 4 None, ht_randbuf = [7]\<rparr> :: bytes rwhashtab"
  have "rwhashtab_init mem_ok (Some [7]) 1 = Some ?H" by (simp add: rwhashtab_init_def)
  then have inv: "ht_inv sample_hash (\<lambda>r. r) ?H" using rwhashtab_init_inv by blast
  have "rwhashtab_insert True sample_hash (\<lambda>r. r) ?H [5] = Some (0, sample_table)"
    by (simp add: rwhashtab_insert_def rwhashtab_insert_nogrow_def rwhashtab_search_def
        sample_table_def replicate_4_None drop_bit_eq_div)
  then show ?thesis using ht.ins_preserves_inv [OF inv] by blast
qed

theorem rwhashtab_search_ends_witness:
  "\<exists>q < 4. rwhashtab_search sample_hash (\<lambda>r. r) sample_table [9] = Some q \<and>
     ht_ht sample_table ! q = None"
  using rwhashtab_search_ends [OF sample_table_inv, of "[9]"]
  by (auto simp: sample_table_def ht_map_def)

text \<open>C36: Inserting refines the update of a finite map, growth included: the call returns; the
  invariant holds after it; result 0 stores the record and keeps every other key, 1 reports a
  key already present and changes nothing a reader sees, and -1 (no memory, or no room for a
  larger table) leaves the table as it was.\<close>

theorem rwhashtab_insert_refines:
  assumes "ht_inv hash keyof H"
  shows "\<exists>rc H'. rwhashtab_insert ma hash keyof H rec = Some (rc, H') \<and> ht_inv hash keyof H' \<and>
    (\<forall>k. rwhashtab_read hash keyof H' k =
       (if rc = 0 \<and> k = keyof rec then Some (Some rec) else rwhashtab_read hash keyof H k)) \<and>
    (rc = 0 \<or> rc = 1 \<or> rc = -1 \<and> H' = H) \<and>
    (rc = 0 \<longrightarrow> rwhashtab_read hash keyof H (keyof rec) = Some None) \<and>
    (rc = 1 \<longrightarrow> rwhashtab_read hash keyof H (keyof rec) \<noteq> Some None) \<and>
    (ma \<and> ht_cursize H * 2 \<le> SIZE_MAX div 8 \<longrightarrow> rc \<noteq> -1)"
proof -
  obtain rc H' where H': "rwhashtab_insert ma hash keyof H rec = Some (rc, H')" "ht_inv hash keyof H'"
    and cases: "rc = 0 \<and> ht_map keyof H (keyof rec) = None \<and>
       ht_map keyof H' = (ht_map keyof H)(keyof rec \<mapsto> rec)
     \<or> rc = 1 \<and> ht_map keyof H (keyof rec) \<noteq> None \<and> ht_map keyof H' = ht_map keyof H
     \<or> rc = -1 \<and> H' = H \<and> \<not> (ma \<and> ht_cursize H * 2 \<le> SIZE_MAX div 8)"
    using rwhashtab_insert_spec [OF assms, of ma rec] by blast
  show ?thesis
    unfolding rwhashtab_read_spec [OF assms]
    by (rule exI [of _ rc], rule exI [of _ H'])
      (use H' cases in \<open>auto simp: rwhashtab_read_spec [OF H'(2)]\<close>)
qed

theorem rwhashtab_insert_refines_witness:
  "\<exists>rc H'. rwhashtab_insert True sample_hash (\<lambda>r. r) sample_table [1] = Some (rc, H') \<and>
     rc = 0 \<and> rwhashtab_read sample_hash (\<lambda>r. r) H' [1] = Some (Some [1]) \<and>
     rwhashtab_read sample_hash (\<lambda>r. r) H' [5] = Some (Some [5])"
proof -
  have absent: "rwhashtab_read sample_hash (\<lambda>r. r) sample_table [1] = Some None"
    and there: "rwhashtab_read sample_hash (\<lambda>r. r) sample_table [5] = Some (Some [5])"
    by (simp_all add: rwhashtab_read_def rwhashtab_search_def sample_table_def)
  show ?thesis
    using rwhashtab_insert_refines [OF sample_table_inv, of True "[1]"] absent there
    by (auto simp: sample_table_def)
qed

text \<open>C38: Iterating calls the callback on every record of the table exactly once, in slot
  order, threads its state through, stops at the first nonzero result, and keeps the table
  well formed when the callback leaves the keys alone.\<close>

theorem rwhashtab_foreach_visits:
  assumes "ht_inv hash keyof H" and "\<forall>r s. keyof (fst (snd (func r s))) = keyof r"
    and "rwhashtab_foreach func H s = (rc, H', s')"
  shows "ht_inv hash keyof H' \<and>
    foreach_recs func (somes (ht_ht H)) s = (rc, somes (ht_ht H'), s') \<and>
    (\<forall>r. count (mset (somes (ht_ht H))) r = (if ht_map keyof H (keyof r) = Some r then 1 else 0))"
proof (intro conjI allI)
  show "ht_inv hash keyof H'" "foreach_recs func (somes (ht_ht H)) s = (rc, somes (ht_ht H'), s')"
    using rwhashtab_foreach_spec [OF assms(1) _ assms(3)] assms(2) by blast+
  fix r
  have "distinct (somes (ht_ht H))"
    using assms(1) by (auto simp: ht_inv_def tab_ok_def distinct_map)
  then show "count (mset (somes (ht_ht H))) r = (if ht_map keyof H (keyof r) = Some r then 1 else 0)"
    using ht_map_Some [OF assms(1)] by (simp add: distinct_count_atmost_1)
qed

theorem rwhashtab_foreach_visits_witness:
  "foreach_recs (\<lambda>r n. (0, r, Suc n)) (somes (ht_ht sample_table)) 0 = (0, [[5]], 1)"
proof -
  have run: "rwhashtab_foreach (\<lambda>r n. (0, r, Suc n)) sample_table 0 = (0, sample_table, 1)"
    by (simp add: sample_table_def rwhashtab_foreach_def)
  show ?thesis
    using rwhashtab_foreach_visits [OF sample_table_inv _ run] by (simp add: sample_table_def)
qed

end
