(* ===== verification/Chunks_Stats.thy ===== *)
theory Chunks_Stats
  imports Prelude
begin

text \<open>
  \<^verbatim>\<open>tar/chunks/chunks_internal.h\<close> and the arithmetic of \<^verbatim>\<open>tar/chunks/chunks_stats_internal.c\<close>:
  the in-core chunk records with their flag bits, and the chunk statistics, which count modulo
  \<open>2 ^ 64\<close> so that chunks are taken out by adding a negative number of copies.
\<close>

subsection \<open>Chunk records\<close>

definition CHDATA_MALLOC :: u32 where "CHDATA_MALLOC = push_bit 30 1"
definition CHDATA_CTAPE :: u32 where "CHDATA_CTAPE = push_bit 31 1"
definition CHDATA_FLAGS :: u32 where "CHDATA_FLAGS = 0xc0000000"
definition CHDATA_ZLEN :: u32 where "CHDATA_ZLEN = NOT CHDATA_FLAGS"

record chunkdata =
  cd_hash :: bytes
  cd_len :: u32
  cd_zlen_flags :: u32
  cd_nrefs :: u32
  cd_ncopies :: u32

record chunkdata_statstape = chunkdata +
  cd_ncopies_ctape :: u32

abbreviation cd_zlen :: "'a chunkdata_scheme \<Rightarrow> u32" where
  "cd_zlen ch \<equiv> cd_zlen_flags ch AND CHDATA_ZLEN"

subsection \<open>Statistics\<close>

record chunkstats =
  st_nchunks :: u64
  st_len :: u64
  st_zlen :: u64

definition chunks_stats_zero :: chunkstats where
  "chunks_stats_zero = \<lparr>st_nchunks = 0, st_len = 0, st_zlen = 0\<rparr>"

definition chunks_stats_add :: "chunkstats \<Rightarrow> u64 \<Rightarrow> u64 \<Rightarrow> int \<Rightarrow> chunkstats" where
  "chunks_stats_add stats len zlen copies =
     stats\<lparr>st_nchunks := st_nchunks stats + of_int copies,
           st_len := st_len stats + len * of_int copies,
           st_zlen := st_zlen stats + zlen * of_int copies\<rparr>"

definition chunks_stats_addstats :: "chunkstats \<Rightarrow> chunkstats \<Rightarrow> chunkstats" where
  "chunks_stats_addstats to from =
     to\<lparr>st_nchunks := st_nchunks to + st_nchunks from,
        st_len := st_len to + st_len from,
        st_zlen := st_zlen to + st_zlen from\<rparr>"

subsection \<open>Sums over a chunk directory\<close>

text \<open>
  What the statistics are meant to be: sums over the records of the directory \<open>m\<close>, each record
  counted \<open>w\<close> times.
\<close>

definition stats_of :: "('a chunkdata_scheme \<Rightarrow> u64) \<Rightarrow> (bytes \<Rightarrow> 'a chunkdata_scheme option)
    \<Rightarrow> chunkstats" where
  "stats_of w m =
     \<lparr>st_nchunks = (\<Sum>k\<in>dom m. w (the (m k))),
      st_len = (\<Sum>k\<in>dom m. ucast (cd_len (the (m k))) * w (the (m k))),
      st_zlen = (\<Sum>k\<in>dom m. ucast (cd_zlen (the (m k))) * w (the (m k)))\<rparr>"

abbreviation unique_of :: "(bytes \<Rightarrow> 'a chunkdata_scheme option) \<Rightarrow> chunkstats" where
  "unique_of m \<equiv> stats_of (\<lambda>_. 1) m"

abbreviation total_of :: "(bytes \<Rightarrow> 'a chunkdata_scheme option) \<Rightarrow> chunkstats" where
  "total_of m \<equiv> stats_of (\<lambda>ch. ucast (cd_ncopies ch)) m"

lemma chunkstats_eqI:
  "st_nchunks a = st_nchunks b \<Longrightarrow> st_len a = st_len b \<Longrightarrow> st_zlen a = st_zlen b \<Longrightarrow> (a :: chunkstats) = b"
  by simp

lemma stats_of_empty [simp]: "stats_of w Map.empty = chunks_stats_zero"
  by (simp add: stats_of_def chunks_stats_zero_def)

lemma stats_of_insert:
  assumes "finite (dom m)" "m k = None" "of_int c = w r"
  shows "stats_of w (m(k \<mapsto> r)) =
    chunks_stats_add (stats_of w m) (ucast (cd_len r)) (ucast (cd_zlen r)) c"
proof -
  have k: "k \<notin> dom m" using assms(2) by auto
  have same: "(\<Sum>x\<in>dom m. f (the ((m(k \<mapsto> r)) x))) = (\<Sum>x\<in>dom m. f (the (m x)))" for f :: "_ \<Rightarrow> u64"
    using k by (intro sum.cong) auto
  show ?thesis
    using k assms same [of w] same [of "\<lambda>r. ucast (cd_len r) * w r"]
      same [of "\<lambda>r. ucast (cd_zlen r) * w r"]
    by (simp add: stats_of_def chunks_stats_add_def add.commute)
qed

lemma stats_of_update:
  assumes "finite (dom m)" "m k = Some r0" "cd_len r = cd_len r0" "cd_zlen r = cd_zlen r0"
    "of_int c = w r - w r0"
  shows "stats_of w (m(k \<mapsto> r)) =
    chunks_stats_add (stats_of w m) (ucast (cd_len r)) (ucast (cd_zlen r)) c"
proof -
  have k: "k \<in> dom m" using assms(2) by auto
  have upd: "(\<Sum>x\<in>dom m. f (the ((m(k \<mapsto> r)) x))) = (\<Sum>x\<in>dom m. f (the (m x))) + (f r - f r0)"
    for f :: "_ \<Rightarrow> u64"
  proof -
    have "(\<Sum>x\<in>dom m. f (the ((m(k \<mapsto> r)) x))) = f r + (\<Sum>x\<in>dom m - {k}. f (the (m x)))"
      using assms(1) k by (subst sum.remove [of _ k]) (auto intro!: sum.cong)
    moreover have "(\<Sum>x\<in>dom m. f (the (m x))) = f r0 + (\<Sum>x\<in>dom m - {k}. f (the (m x)))"
      using assms(1,2) k by (subst sum.remove [of _ k]) auto
    ultimately show ?thesis by simp
  qed
  have dom: "dom (m(k \<mapsto> r)) = dom m" using k by auto
  show ?thesis
    unfolding stats_of_def chunks_stats_add_def dom
    upd [of w] upd [of "\<lambda>r. ucast (cd_len r) * w r"] upd [of "\<lambda>r. ucast (cd_zlen r) * w r"]
    using assms(3-5) by (simp add: right_diff_distrib)
qed

lemma stats_of_remove:
  assumes "finite (dom m)" "m k = Some r" "of_int c = - w r"
  shows "stats_of w (m(k := None)) =
    chunks_stats_add (stats_of w m) (ucast (cd_len r)) (ucast (cd_zlen r)) c"
proof -
  have k: "k \<in> dom m" using assms(2) by auto
  have rem: "(\<Sum>x\<in>dom m - {k}. f (the ((m(k := None)) x))) = (\<Sum>x\<in>dom m. f (the (m x))) - f r"
    for f :: "_ \<Rightarrow> u64"
  proof -
    have "(\<Sum>x\<in>dom m - {k}. f (the ((m(k := None)) x))) = (\<Sum>x\<in>dom m - {k}. f (the (m x)))"
      by (intro sum.cong) auto
    moreover have "(\<Sum>x\<in>dom m. f (the (m x))) = f r + (\<Sum>x\<in>dom m - {k}. f (the (m x)))"
      using assms(1,2) k by (subst sum.remove [of _ k]) auto
    ultimately show ?thesis by simp
  qed
  show ?thesis
    unfolding stats_of_def chunks_stats_add_def dom_fun_upd
    using rem [of w] rem [of "\<lambda>r. ucast (cd_len r) * w r"] rem [of "\<lambda>r. ucast (cd_zlen r) * w r"] assms(3)
    by (simp add: algebra_simps)
qed

lemma chunks_stats_add_cancel:
  "chunks_stats_add (chunks_stats_add stats len zlen c) len zlen (- c) = stats"
  by (simp add: chunks_stats_add_def)

lemma chunks_stats_add_add:
  "chunks_stats_add (chunks_stats_add stats len zlen c) len zlen d = chunks_stats_add stats len zlen (c + d)"
  by (simp add: chunks_stats_add_def algebra_simps)

subsection \<open>The flag bits\<close>

lemma flag_simps [simp]:
  "CHDATA_ZLEN AND CHDATA_FLAGS = 0" "CHDATA_MALLOC AND CHDATA_ZLEN = 0" "CHDATA_CTAPE AND CHDATA_ZLEN = 0"
  "CHDATA_CTAPE AND CHDATA_MALLOC = 0" "CHDATA_CTAPE AND CHDATA_CTAPE = CHDATA_CTAPE" "CHDATA_CTAPE \<noteq> 0"
  by (simp_all add: CHDATA_ZLEN_def CHDATA_FLAGS_def CHDATA_MALLOC_def CHDATA_CTAPE_def)

lemma zlen_or_ctape [simp]: "(z OR CHDATA_CTAPE) AND CHDATA_ZLEN = z AND CHDATA_ZLEN"
  by (simp add: bit.conj_disj_distrib2)

lemma zlen_or_malloc [simp]: "(z OR CHDATA_MALLOC) AND CHDATA_ZLEN = z AND CHDATA_ZLEN"
  by (simp add: bit.conj_disj_distrib2)

lemma ctape_or_ctape [simp]: "(z OR CHDATA_CTAPE) AND CHDATA_CTAPE = CHDATA_CTAPE"
  by (simp add: bit.conj_disj_distrib2)

lemma zlen_eq_mask: "CHDATA_ZLEN = mask 30"
  by (simp add: CHDATA_ZLEN_def CHDATA_FLAGS_def mask_eq_exp_minus_1)

lemma zlen_mod: "unat (z AND CHDATA_ZLEN) = unat z mod 2 ^ 30"
  by (simp only: zlen_eq_mask take_bit_eq_mask [symmetric] unsigned_take_bit_eq)
    (simp add: take_bit_eq_mod)

lemma zlen_id: "unat z < 2 ^ 30 \<Longrightarrow> z AND CHDATA_ZLEN = z"
  by (simp add: word_unat_eq_iff zlen_mod)

lemma flags_zero_zlen:
  assumes "z AND CHDATA_FLAGS = 0"
  shows "z AND CHDATA_ZLEN = z"
proof -
  have "z = z AND (CHDATA_ZLEN OR CHDATA_FLAGS)" by (simp add: CHDATA_ZLEN_def)
  also have "\<dots> = z AND CHDATA_ZLEN" using assms by (simp only: bit.conj_disj_distrib) simp
  finally show ?thesis by simp
qed

end
