(* ===== verification/Posix_Dir.thy ===== *)
theory Posix_Dir
  imports Prelude "HOL-Library.Sublist"
begin

text \<open>
  The part of POSIX the cache directory rests on: names, inodes, and what a power failure may
  leave of them.  A change of the directory is pending until the directory is synced; the
  contents of a file are safe once the file is synced.  Every library or system call that can
  fail consumes one number of the call counter, and the fault oracle may make it fail with an
  error of its choice and no other effect, so that the branches of the callers for failing
  calls are all part of the model.  Only \<^verbatim>\<open>ENOENT\<close> is never injected: it is reported
  for a missing file and for nothing else.
\<close>

subsection \<open>The file system\<close>

datatype errno = E0 | ENOENT | EEXIST | ENOSYS | EPERM | EIO | ENOMEM | EINVAL | ELOOP

datatype fnode =
    Regular bytes bytes   \<comment> \<open>the contents, and the contents when last synced\<close>
  | Symlink string

record fs =
  fs_dur :: "string \<Rightarrow> nat option"                 \<comment> \<open>names that survive a power failure\<close>
  fs_pend :: "(string \<times> nat option) list list"      \<comment> \<open>changes since the last sync, each atomic\<close>
  fs_node :: "nat \<Rightarrow> fnode option"
  fs_next :: nat
  fs_calls :: nat
  fs_atomic_rename :: bool                        \<comment> \<open>what POSIX does not promise\<close>

definition empty_fs :: fs where
  "empty_fs = \<lparr>fs_dur = Map.empty, fs_pend = [], fs_node = Map.empty, fs_next = 0, fs_calls = 0,
     fs_atomic_rename = False\<rparr>"

type_synonym fault = "nat \<Rightarrow> errno option"

abbreviation no_fault :: fault where "no_fault \<equiv> \<lambda>_. None"

type_synonym name_update = "(string \<times> nat option) list"

definition apply_update :: "name_update \<Rightarrow> (string \<Rightarrow> nat option) \<Rightarrow> string \<Rightarrow> nat option" where
  "apply_update u m = fold (\<lambda>(p, i) m. m(p := i)) u m"

definition apply_updates ::
  "name_update list \<Rightarrow> (string \<Rightarrow> nat option) \<Rightarrow> string \<Rightarrow> nat option" where
  "apply_updates us m = fold apply_update us m"

definition fs_names :: "fs \<Rightarrow> string \<Rightarrow> nat option" where
  "fs_names fs = apply_updates (fs_pend fs) (fs_dur fs)"

definition fs_change :: "name_update \<Rightarrow> fs \<Rightarrow> fs" where
  "fs_change u fs = fs\<lparr>fs_pend := fs_pend fs @ [u]\<rparr>"

subsection \<open>Calls\<close>

definition call :: "fault \<Rightarrow> fs \<Rightarrow> (fs \<Rightarrow> (errno + 'a) \<times> fs) \<Rightarrow> (errno + 'a) \<times> fs" where
  "call flt fs op =
     (let fs' = fs\<lparr>fs_calls := Suc (fs_calls fs)\<rparr>
      in case flt (fs_calls fs) of
           Some e \<Rightarrow> if e = ENOENT then op fs' else (Inl e, fs')
         | None \<Rightarrow> op fs')"

text \<open>A call that has no effect the model records (\<^verbatim>\<open>asprintf\<close>, \<^verbatim>\<open>malloc\<close>, \<^verbatim>\<open>fclose\<close>, \<^verbatim>\<open>open\<close>).\<close>

definition plain_call :: "fault \<Rightarrow> fs \<Rightarrow> (errno + unit) \<times> fs" where
  "plain_call flt fs = call flt fs (\<lambda>fs. (Inr (), fs))"

text \<open>The inode number of a name.\<close>

definition lstat :: "fault \<Rightarrow> string \<Rightarrow> fs \<Rightarrow> (errno + nat) \<times> fs" where
  "lstat flt p fs = call flt fs (\<lambda>fs.
     case fs_names fs p of None \<Rightarrow> (Inl ENOENT, fs) | Some i \<Rightarrow> (Inr i, fs))"

text \<open>The size of a file; the client never makes a cache file a symbolic link to follow.\<close>

definition stat_size :: "fault \<Rightarrow> string \<Rightarrow> fs \<Rightarrow> (errno + int) \<times> fs" where
  "stat_size flt p fs = call flt fs (\<lambda>fs.
     case fs_names fs p of
       None \<Rightarrow> (Inl ENOENT, fs)
     | Some i \<Rightarrow>
         (case fs_node fs i of
            Some (Regular d s) \<Rightarrow> (Inr (int (length d)), fs)
          | _ \<Rightarrow> (Inl ELOOP, fs)))"

definition unlink :: "fault \<Rightarrow> string \<Rightarrow> fs \<Rightarrow> (errno + unit) \<times> fs" where
  "unlink flt p fs = call flt fs (\<lambda>fs.
     case fs_names fs p of
       None \<Rightarrow> (Inl ENOENT, fs)
     | Some i \<Rightarrow> (Inr (), fs_change [(p, None)] fs))"

text \<open>\<open>link_file t s\<close> is \<^verbatim>\<open>link(t, s)\<close>, \<open>rename_file t s\<close> is \<^verbatim>\<open>rename(t, s)\<close>.  POSIX does not promise that a
  file that is being renamed survives a power failure: unless the file system makes the two changes of the directory
  one, the removal of the old name may reach the disk without the new one.\<close>

definition link_file :: "fault \<Rightarrow> string \<Rightarrow> string \<Rightarrow> fs \<Rightarrow> (errno + unit) \<times> fs" where
  "link_file flt t s fs = call flt fs (\<lambda>fs.
     case fs_names fs t of
       None \<Rightarrow> (Inl ENOENT, fs)
     | Some i \<Rightarrow>
         if fs_names fs s \<noteq> None then (Inl EEXIST, fs)
         else (Inr (), fs_change [(s, Some i)] fs))"

definition rename_file :: "fault \<Rightarrow> string \<Rightarrow> string \<Rightarrow> fs \<Rightarrow> (errno + unit) \<times> fs" where
  "rename_file flt t s fs = call flt fs (\<lambda>fs.
     case fs_names fs t of
       None \<Rightarrow> (Inl ENOENT, fs)
     | Some i \<Rightarrow>
         if fs_names fs s = Some i then (Inr (), fs)
         else if fs_atomic_rename fs then (Inr (), fs_change [(s, Some i), (t, None)] fs)
         else (Inr (), fs_change [(t, None)] (fs_change [(s, Some i)] fs)))"

definition symlink :: "fault \<Rightarrow> string \<Rightarrow> string \<Rightarrow> fs \<Rightarrow> (errno + unit) \<times> fs" where
  "symlink flt tgt p fs = call flt fs (\<lambda>fs.
     if fs_names fs p \<noteq> None then (Inl EEXIST, fs)
     else (Inr (), fs_change [(p, Some (fs_next fs))]
            (fs\<lparr>fs_node := (fs_node fs)(fs_next fs \<mapsto> Symlink tgt), fs_next := Suc (fs_next fs)\<rparr>)))"

text \<open>At most \<open>n\<close> characters of the target are placed in the buffer.\<close>

definition readlink :: "fault \<Rightarrow> string \<Rightarrow> nat \<Rightarrow> fs \<Rightarrow> (errno + string) \<times> fs" where
  "readlink flt p n fs = call flt fs (\<lambda>fs.
     case fs_names fs p of
       None \<Rightarrow> (Inl ENOENT, fs)
     | Some i \<Rightarrow>
         (case fs_node fs i of
            Some (Symlink tgt) \<Rightarrow> (Inr (take n tgt), fs)
          | _ \<Rightarrow> (Inl EINVAL, fs)))"

text \<open>\<^verbatim>\<open>fopen(p, "w")\<close> truncates an existing file in place; the result is the inode.\<close>

definition fopen_w :: "fault \<Rightarrow> string \<Rightarrow> fs \<Rightarrow> (errno + nat) \<times> fs" where
  "fopen_w flt p fs = call flt fs (\<lambda>fs.
     case fs_names fs p of
       None \<Rightarrow> (Inr (fs_next fs), fs_change [(p, Some (fs_next fs))]
            (fs\<lparr>fs_node := (fs_node fs)(fs_next fs \<mapsto> Regular [] []), fs_next := Suc (fs_next fs)\<rparr>))
     | Some i \<Rightarrow>
         (case fs_node fs i of
            Some (Regular d s) \<Rightarrow> (Inr i, fs\<lparr>fs_node := (fs_node fs)(i \<mapsto> Regular [] s)\<rparr>)
          | _ \<Rightarrow> (Inl ELOOP, fs)))"

definition fwrite :: "fault \<Rightarrow> nat \<Rightarrow> bytes \<Rightarrow> fs \<Rightarrow> (errno + unit) \<times> fs" where
  "fwrite flt i b fs = call flt fs (\<lambda>fs.
     case fs_node fs i of
       Some (Regular d s) \<Rightarrow> (Inr (), fs\<lparr>fs_node := (fs_node fs)(i \<mapsto> Regular (d @ b) s)\<rparr>)
     | _ \<Rightarrow> (Inl EINVAL, fs))"

text \<open>\<^verbatim>\<open>fopen(p, "r")\<close>: the result is the data still to be read from the stream.\<close>

definition fopen_r :: "fault \<Rightarrow> string \<Rightarrow> fs \<Rightarrow> (errno + bytes) \<times> fs" where
  "fopen_r flt p fs = call flt fs (\<lambda>fs.
     case fs_names fs p of
       None \<Rightarrow> (Inl ENOENT, fs)
     | Some i \<Rightarrow>
         (case fs_node fs i of
            Some (Regular d s) \<Rightarrow> (Inr d, fs)
          | _ \<Rightarrow> (Inl ELOOP, fs)))"

definition fread :: "fault \<Rightarrow> nat \<Rightarrow> bytes \<Rightarrow> fs \<Rightarrow> (errno + bytes \<times> bytes) \<times> fs" where
  "fread flt n strm fs = call flt fs (\<lambda>fs.
     if length strm < n then (Inl E0, fs) else (Inr (take n strm, drop n strm), fs))"

definition fsync_file :: "fault \<Rightarrow> nat \<Rightarrow> fs \<Rightarrow> (errno + unit) \<times> fs" where
  "fsync_file flt i fs = call flt fs (\<lambda>fs.
     case fs_node fs i of
       Some (Regular d s) \<Rightarrow> (Inr (), fs\<lparr>fs_node := (fs_node fs)(i \<mapsto> Regular d d)\<rparr>)
     | _ \<Rightarrow> (Inl EINVAL, fs))"

definition fsync_dir :: "fault \<Rightarrow> fs \<Rightarrow> (errno + unit) \<times> fs" where
  "fsync_dir flt fs = call flt fs (\<lambda>fs.
     (Inr (), fs\<lparr>fs_dur := fs_names fs, fs_pend := []\<rparr>))"

subsection \<open>The helpers of the client\<close>

text \<open>\<^verbatim>\<open>lib/util/dirutil.c\<close>: open, sync, close; a failed close is an error after the sync.\<close>

definition dirutil_fsyncdir :: "fault \<Rightarrow> fs \<Rightarrow> int \<times> fs" where
  "dirutil_fsyncdir flt fs =
     (case plain_call flt fs of
        (Inl e, fs) \<Rightarrow> (-1, fs)
      | (Inr _, fs) \<Rightarrow>
          (case fsync_dir flt fs of
             (Inl e, fs) \<Rightarrow> (case plain_call flt fs of (_, fs) \<Rightarrow> (-1, fs))
           | (Inr _, fs) \<Rightarrow>
               (case plain_call flt fs of
                  (Inl e, fs) \<Rightarrow> (-1, fs)
                | (Inr _, fs) \<Rightarrow> (0, fs))))"

text \<open>\<^verbatim>\<open>lib-platform/util/fileutil.c\<close>: flush, find the descriptor, sync.\<close>

definition fileutil_fsync :: "fault \<Rightarrow> nat \<Rightarrow> fs \<Rightarrow> int \<times> fs" where
  "fileutil_fsync flt i fs =
     (case plain_call flt fs of
        (Inl e, fs) \<Rightarrow> (-1, fs)
      | (Inr _, fs) \<Rightarrow>
          (case plain_call flt fs of
             (Inl e, fs) \<Rightarrow> (-1, fs)
           | (Inr _, fs) \<Rightarrow>
               (case fsync_file flt i fs of
                  (Inl e, fs) \<Rightarrow> (-1, fs)
                | (Inr _, fs) \<Rightarrow> (0, fs))))"

subsection \<open>Power failure\<close>

text \<open>
  After a power failure any of the pending changes may have reached the disk, a synced file
  has its contents, and a file written since its last sync may contain anything.
\<close>

definition node_after_crash :: "fnode option \<Rightarrow> fnode option \<Rightarrow> bool" where
  "node_after_crash n n' \<longleftrightarrow>
     (case n of
        Some (Regular d s) \<Rightarrow> if d = s then n' = n else (\<exists>d'. n' = Some (Regular d' d'))
      | _ \<Rightarrow> n' = n)"

definition power_loss :: "fs \<Rightarrow> fs \<Rightarrow> bool" where
  "power_loss fs fs' \<longleftrightarrow>
     (\<exists>us. subseq us (fs_pend fs) \<and> fs_dur fs' = apply_updates us (fs_dur fs)) \<and>
     fs_pend fs' = [] \<and> fs_next fs' = fs_next fs \<and> fs_atomic_rename fs' = fs_atomic_rename fs \<and>
     (\<forall>i. node_after_crash (fs_node fs i) (fs_node fs' i))"

subsection \<open>Lemmas\<close>

lemma apply_updates_Nil [simp]: "apply_updates [] m = m"
  by (simp add: apply_updates_def)

lemma apply_updates_append: "apply_updates (us @ vs) m = apply_updates vs (apply_updates us m)"
  by (simp add: apply_updates_def)

lemma apply_update_simps [simp]:
  "apply_update [] m = m"
  "apply_update ((p, i) # u) m = apply_update u (m(p := i))"
  by (simp_all add: apply_update_def)

lemma fs_names_change [simp]: "fs_names (fs_change u fs) = apply_update u (fs_names fs)"
  by (simp add: fs_names_def fs_change_def apply_updates_append) (simp add: apply_updates_def)

lemma fs_names_cong:
  "fs_dur fs' = fs_dur fs \<Longrightarrow> fs_pend fs' = fs_pend fs \<Longrightarrow> fs_names fs' = fs_names fs"
  by (simp add: fs_names_def)

lemma fs_names_update [simp]:
  "fs_names (fs\<lparr>fs_calls := n\<rparr>) = fs_names fs"
  "fs_names (fs\<lparr>fs_node := nd\<rparr>) = fs_names fs"
  "fs_names (fs\<lparr>fs_node := nd, fs_next := k\<rparr>) = fs_names fs"
  "fs_names (fs\<lparr>fs_dur := m, fs_pend := []\<rparr>) = m"
  by (simp_all add: fs_names_def)

lemma fs_change_fields [simp]:
  "fs_dur (fs_change u fs) = fs_dur fs" "fs_pend (fs_change u fs) = fs_pend fs @ [u]"
  "fs_node (fs_change u fs) = fs_node fs" "fs_next (fs_change u fs) = fs_next fs"
  "fs_calls (fs_change u fs) = fs_calls fs" "fs_atomic_rename (fs_change u fs) = fs_atomic_rename fs"
  by (simp_all add: fs_change_def)

text \<open>A call either fails by the oracle, or has its effect.\<close>

lemma call_result:
  assumes "call flt fs op = (r, fs')"
  obtains e where "flt \<noteq> no_fault" "e \<noteq> ENOENT" "r = Inl e" "fs' = fs\<lparr>fs_calls := Suc (fs_calls fs)\<rparr>"
  | "op (fs\<lparr>fs_calls := Suc (fs_calls fs)\<rparr>) = (r, fs')"
  using assms by (auto simp: call_def Let_def split: option.splits if_splits)

text \<open>The directories a power failure may leave.\<close>

definition crash_views :: "fs \<Rightarrow> (string \<Rightarrow> nat option) set" where
  "crash_views fs = {apply_updates us (fs_dur fs) | us. subseq us (fs_pend fs)}"

lemma crash_views_cong:
  "fs_dur fs' = fs_dur fs \<Longrightarrow> fs_pend fs' = fs_pend fs \<Longrightarrow> crash_views fs' = crash_views fs"
  by (simp add: crash_views_def)

lemma crash_views_synced: "fs_pend fs = [] \<Longrightarrow> crash_views fs = {fs_names fs}"
proof -
  have "subseq us [] \<longleftrightarrow> us = []" for us :: "name_update list"
    by (cases us) auto
  then show "fs_pend fs = [] \<Longrightarrow> crash_views fs = {fs_names fs}"
    by (simp add: crash_views_def fs_names_def)
qed

lemma crash_views_update [simp]:
  "crash_views (fs\<lparr>fs_calls := n\<rparr>) = crash_views fs"
  "crash_views (fs\<lparr>fs_node := nd\<rparr>) = crash_views fs"
  "crash_views (fs\<lparr>fs_node := nd, fs_next := k\<rparr>) = crash_views fs"
  "crash_views (fs\<lparr>fs_dur := m, fs_pend := []\<rparr>) = {m}"
proof -
  show "crash_views (fs\<lparr>fs_dur := m, fs_pend := []\<rparr>) = {m}"
    by (subst crash_views_synced) simp_all
qed (simp_all add: crash_views_def)

lemma fs_names_in_crash_views: "fs_names fs \<in> crash_views fs"
  by (auto simp: crash_views_def fs_names_def)

lemma subseq_snoc:
  "subseq us (vs @ [u]) \<longleftrightarrow> subseq us vs \<or> (\<exists>ws. us = ws @ [u] \<and> subseq ws vs)"
proof
  assume "subseq us (vs @ [u])"
  then obtain ws xs where "us = ws @ xs" "subseq ws vs" "subseq xs [u]"
    by (auto elim: subseq_appendE)
  moreover from this(3) have "xs = [] \<or> xs = [u]"
    by (cases xs) (auto split: if_splits simp: subseq_Cons2_iff)
  ultimately show "subseq us vs \<or> (\<exists>ws. us = ws @ [u] \<and> subseq ws vs)" by auto
qed (auto intro: list_emb_append2 subseq_append')

lemma crash_views_change [simp]:
  "crash_views (fs_change u fs) = crash_views fs \<union> apply_update u ` crash_views fs"
proof -
  have snoc: "apply_updates (ws @ [u]) m = apply_update u (apply_updates ws m)" for ws m
    by (simp add: apply_updates_append) (simp add: apply_updates_def)
  have "v \<in> crash_views (fs_change u fs) \<longleftrightarrow>
      (\<exists>us. v = apply_updates us (fs_dur fs) \<and> subseq us (fs_pend fs)) \<or>
      (\<exists>ws. v = apply_updates (ws @ [u]) (fs_dur fs) \<and> subseq ws (fs_pend fs))" for v
    unfolding crash_views_def fs_change_fields subseq_snoc mem_Collect_eq by blast
  then show ?thesis
    unfolding snoc by (intro set_eqI) (auto simp: crash_views_def)
qed

text \<open>The nodes, and the directory up to the calls counted, are what a call leaves alone.\<close>

definition same_dir :: "fs \<Rightarrow> fs \<Rightarrow> bool" where
  "same_dir fs fs' \<longleftrightarrow> (\<exists>n. fs' = fs\<lparr>fs_calls := n\<rparr>)"

lemma same_dir_refl [simp]: "same_dir fs fs"
  unfolding same_dir_def by (rule exI [of _ "fs_calls fs"]) simp

lemma same_dir_calls [simp]: "same_dir fs (fs\<lparr>fs_calls := n\<rparr>)"
  by (auto simp: same_dir_def)

lemma same_dirD:
  assumes "same_dir fs fs'"
  shows "fs_names fs' = fs_names fs" "crash_views fs' = crash_views fs" "fs_node fs' = fs_node fs"
    "fs_next fs' = fs_next fs" "fs_atomic_rename fs' = fs_atomic_rename fs"
  using assms by (auto simp: same_dir_def)

lemma same_dir_trans: "same_dir a b \<Longrightarrow> same_dir b c \<Longrightarrow> same_dir a c"
  by (auto simp: same_dir_def)

lemma plain_call_result:
  assumes "plain_call flt fs = (r, fs')"
  shows "same_dir fs fs'" "flt = no_fault \<Longrightarrow> r = Inr ()"
  by (rule call_result [OF assms [unfolded plain_call_def]]; auto)+

lemma lstat_result:
  assumes "lstat flt p fs = (r, fs')"
  shows "same_dir fs fs'" "r = Inr i \<Longrightarrow> fs_names fs p = Some i"
    "r = Inl ENOENT \<Longrightarrow> fs_names fs p = None"
    "flt = no_fault \<Longrightarrow> r = (case fs_names fs p of None \<Rightarrow> Inl ENOENT | Some i \<Rightarrow> Inr i)"
  by (rule call_result [OF assms [unfolded lstat_def]]; auto split: option.splits)+

lemma stat_size_result:
  assumes "stat_size flt p fs = (r, fs')"
  shows "same_dir fs fs'"
    "r = Inr n \<Longrightarrow> \<exists>i d s. fs_names fs p = Some i \<and> fs_node fs i = Some (Regular d s) \<and> n = int (length d)"
    "r = Inl ENOENT \<Longrightarrow> fs_names fs p = None"
    "flt = no_fault \<Longrightarrow> fs_names fs p = None \<Longrightarrow> r = Inl ENOENT"
    "flt = no_fault \<Longrightarrow> fs_names fs p = Some i \<Longrightarrow> fs_node fs i = Some (Regular d s) \<Longrightarrow>
       r = Inr (int (length d))"
  by (rule call_result [OF assms [unfolded stat_size_def]];
      auto split: option.splits fnode.splits)+

lemma unlink_result:
  assumes "unlink flt p fs = (r, fs')"
  shows "r = Inl e \<Longrightarrow> same_dir fs fs'"
    "r = Inr u \<Longrightarrow> fs_names fs' = (fs_names fs)(p := None) \<and>
       crash_views fs' = crash_views fs \<union> (\<lambda>v. v(p := None)) ` crash_views fs"
    "fs_node fs' = fs_node fs"
    "flt = no_fault \<Longrightarrow> fs_names fs p \<noteq> None \<Longrightarrow> r = Inr ()"
    "r = Inl ENOENT \<Longrightarrow> fs_names fs p = None" "fs_atomic_rename fs' = fs_atomic_rename fs"
  by (rule call_result [OF assms [unfolded unlink_def]]; auto split: option.splits)+

lemma link_result:
  assumes "link_file flt t s fs = (r, fs')"
  shows "r = Inl e \<Longrightarrow> same_dir fs fs'"
    "r = Inr u \<Longrightarrow> fs_names fs' = (fs_names fs)(s := fs_names fs t) \<and> fs_names fs s = None \<and>
       crash_views fs' = crash_views fs \<union> (\<lambda>v. v(s := fs_names fs t)) ` crash_views fs"
    "fs_node fs' = fs_node fs"
    "flt = no_fault \<Longrightarrow> fs_names fs t \<noteq> None \<Longrightarrow> fs_names fs s = None \<Longrightarrow> r = Inr ()"
    "fs_atomic_rename fs' = fs_atomic_rename fs"
  by (rule call_result [OF assms [unfolded link_file_def]]; auto split: option.splits if_splits)+

lemma rename_result:
  assumes "rename_file flt t s fs = (r, fs')" "fs_names fs s = None"
  shows "r = Inl e \<Longrightarrow> same_dir fs fs'"
    "r = Inr u \<Longrightarrow> fs_names fs' = (fs_names fs)(s := fs_names fs t, t := None)"
    "r = Inr u \<Longrightarrow> fs_atomic_rename fs \<Longrightarrow>
       crash_views fs' = crash_views fs \<union> (\<lambda>v. v(s := fs_names fs t, t := None)) ` crash_views fs"
    "fs_node fs' = fs_node fs"
  by (rule call_result [OF assms(1) [unfolded rename_file_def]];
      insert assms(2); auto split: option.splits if_splits)+

text \<open>A run in which no file is lost by a rename: the file system sees to it, or hard links are not refused.\<close>

definition rename_safe :: "fault \<Rightarrow> fs \<Rightarrow> bool" where
  "rename_safe flt fs \<longleftrightarrow> fs_atomic_rename fs \<or> (\<forall>n. flt n \<noteq> Some ENOSYS \<and> flt n \<noteq> Some EPERM)"

lemma rename_safe_no_fault [simp]: "rename_safe no_fault fs"
  by (simp add: rename_safe_def)

lemma rename_safe_cong: "fs_atomic_rename fs' = fs_atomic_rename fs \<Longrightarrow> rename_safe flt fs' = rename_safe flt fs"
  by (simp add: rename_safe_def)

lemma link_refused:
  assumes "link_file flt t s fs = (Inl e, fs')" "e = ENOSYS \<or> e = EPERM" "rename_safe flt fs"
  shows "fs_atomic_rename fs"
  using assms by (auto simp: link_file_def call_def Let_def rename_safe_def split: option.splits if_splits)

lemma fsync_dir_result:
  assumes "fsync_dir flt fs = (r, fs')"
  shows "fs_names fs' = fs_names fs" "fs_node fs' = fs_node fs"
    "r = Inl e \<Longrightarrow> crash_views fs' = crash_views fs"
    "r = Inr u \<Longrightarrow> crash_views fs' = {fs_names fs}" "flt = no_fault \<Longrightarrow> r = Inr ()"
  by (rule call_result [OF assms [unfolded fsync_dir_def]]; auto)+

lemma fsyncdir_result:
  assumes "dirutil_fsyncdir flt fs = (rc, fs')"
  shows "fs_names fs' = fs_names fs" "fs_node fs' = fs_node fs"
    "crash_views fs' = crash_views fs \<or> crash_views fs' = {fs_names fs}"
    "rc = 0 \<Longrightarrow> crash_views fs' = {fs_names fs}" "flt = no_fault \<Longrightarrow> rc = 0" "rc = 0 \<or> rc = -1"
proof -
  obtain r1 fs1 where r1: "plain_call flt fs = (r1, fs1)" by fastforce
  obtain r2 fs2 where r2: "fsync_dir flt fs1 = (r2, fs2)" by fastforce
  obtain r3 fs3 where r3: "plain_call flt fs2 = (r3, fs3)" by fastforce
  note same1 = same_dirD [OF plain_call_result(1) [OF r1]]
  note same3 = same_dirD [OF plain_call_result(1) [OF r3]]
  note f2 = fsync_dir_result [OF r2]
  note rc = assms [unfolded dirutil_fsyncdir_def r1 prod.case]
  show "fs_names fs' = fs_names fs" "fs_node fs' = fs_node fs"
    using rc r2 r3 same1 same3 f2 by (auto split: sum.splits)
  show "crash_views fs' = crash_views fs \<or> crash_views fs' = {fs_names fs}"
    "rc = 0 \<Longrightarrow> crash_views fs' = {fs_names fs}" "rc = 0 \<or> rc = -1"
    using rc r2 r3 same1 same3 f2(3,4) by (auto split: sum.splits)
  show "flt = no_fault \<Longrightarrow> rc = 0"
    using rc r2 r3 f2(5) plain_call_result(2) [OF r1] plain_call_result(2) [OF r3] by auto
qed

text \<open>Calls on files keep the directory; \<open>same_names\<close> says so.\<close>

definition same_names :: "fs \<Rightarrow> fs \<Rightarrow> bool" where
  "same_names fs fs' \<longleftrightarrow> fs_names fs' = fs_names fs \<and> crash_views fs' = crash_views fs \<and> fs_next fs' = fs_next fs"

lemma same_names_refl [simp]: "same_names fs fs"
  by (simp add: same_names_def)

lemma same_names_trans: "same_names a b \<Longrightarrow> same_names b c \<Longrightarrow> same_names a c"
  by (simp add: same_names_def)

lemma same_dir_names: "same_dir fs fs' \<Longrightarrow> same_names fs fs'"
  by (simp add: same_names_def same_dirD)

lemma fsyncdir_next: "dirutil_fsyncdir flt fs = (rc, fs') \<Longrightarrow> fs_next fs' = fs_next fs"
proof -
  assume run: "dirutil_fsyncdir flt fs = (rc, fs')"
  obtain r1 fs1 where r1: "plain_call flt fs = (r1, fs1)" by fastforce
  obtain r2 fs2 where r2: "fsync_dir flt fs1 = (r2, fs2)" by fastforce
  obtain r3 fs3 where r3: "plain_call flt fs2 = (r3, fs3)" by fastforce
  have "fs_next fs2 = fs_next fs1" by (rule call_result [OF r2 [unfolded fsync_dir_def]]) auto
  then show ?thesis
    using run same_dirD(4) [OF plain_call_result(1) [OF r1]] same_dirD(4) [OF plain_call_result(1) [OF r3]]
    by (auto simp: dirutil_fsyncdir_def r1 r2 r3 split: sum.splits)
qed

lemma fopen_w_result:
  assumes "fopen_w flt p fs = (r, fs')"
  shows "r = Inl e \<Longrightarrow> same_dir fs fs'"
    "r = Inr f \<Longrightarrow> fs_names fs' p = Some f \<and> (\<exists>s. fs_node fs' f = Some (Regular [] s)) \<and>
       (\<forall>q. q \<noteq> p \<longrightarrow> fs_names fs' q = fs_names fs q) \<and>
       (\<forall>g. g \<noteq> f \<longrightarrow> fs_node fs' g = fs_node fs g) \<and>
       (fs_names fs p = Some f \<and> fs_next fs' = fs_next fs \<or>
        fs_names fs p = None \<and> f = fs_next fs \<and> fs_next fs' = Suc f)"
    "flt = no_fault \<Longrightarrow> fs_names fs p = None \<Longrightarrow> \<exists>f. r = Inr f"
    "flt = no_fault \<Longrightarrow> fs_names fs p = Some i \<Longrightarrow> fs_node fs i = Some (Regular d s) \<Longrightarrow> r = Inr i"
  by (rule call_result [OF assms [unfolded fopen_w_def]];
      auto split: option.splits fnode.splits if_splits)+

lemma fwrite_result:
  assumes "fwrite flt f b fs = (r, fs')"
  shows "same_names fs fs'" "r = Inl e \<Longrightarrow> same_dir fs fs'"
    "r = Inr u \<Longrightarrow> fs_node fs f = Some (Regular d s) \<Longrightarrow>
       fs_node fs' = (fs_node fs)(f \<mapsto> Regular (d @ b) s)"
    "flt = no_fault \<Longrightarrow> fs_node fs f = Some (Regular d s) \<Longrightarrow> r = Inr ()"
  by (rule call_result [OF assms [unfolded fwrite_def]];
      auto simp: same_names_def split: option.splits fnode.splits)+

lemma fopen_r_result:
  assumes "fopen_r flt p fs = (r, fs')"
  shows "same_dir fs fs'"
    "r = Inr d \<Longrightarrow> \<exists>i s. fs_names fs p = Some i \<and> fs_node fs i = Some (Regular d s)"
    "flt = no_fault \<Longrightarrow> fs_names fs p = Some i \<Longrightarrow> fs_node fs i = Some (Regular d s) \<Longrightarrow> r = Inr d"
  by (rule call_result [OF assms [unfolded fopen_r_def]]; auto split: option.splits fnode.splits)+

lemma fread_result:
  assumes "fread flt n strm fs = (r, fs')"
  shows "same_dir fs fs'"
    "r = Inr (b, strm') \<Longrightarrow> n \<le> length strm \<and> b = take n strm \<and> strm' = drop n strm"
    "flt = no_fault \<Longrightarrow> n \<le> length strm \<Longrightarrow> r = Inr (take n strm, drop n strm)"
  by (rule call_result [OF assms [unfolded fread_def]]; auto split: if_splits)+

lemma fsync_file_result:
  assumes "fsync_file flt f fs = (r, fs')"
  shows "same_names fs fs'" "r = Inl e \<Longrightarrow> same_dir fs fs'"
    "r = Inr u \<Longrightarrow> fs_node fs f = Some (Regular d s) \<Longrightarrow> fs_node fs' = (fs_node fs)(f \<mapsto> Regular d d)"
    "flt = no_fault \<Longrightarrow> fs_node fs f = Some (Regular d s) \<Longrightarrow> r = Inr ()"
  by (rule call_result [OF assms [unfolded fsync_file_def]];
      auto simp: same_names_def split: option.splits fnode.splits)+

lemma fileutil_fsync_result:
  assumes "fileutil_fsync flt f fs = (rc, fs')" "fs_node fs f = Some (Regular d s)"
  shows "same_names fs fs'" "\<exists>s'. fs_node fs' = (fs_node fs)(f \<mapsto> Regular d s')"
    "rc = 0 \<Longrightarrow> fs_node fs' = (fs_node fs)(f \<mapsto> Regular d d)" "flt = no_fault \<Longrightarrow> rc = 0"
proof -
  obtain r1 fs1 where r1: "plain_call flt fs = (r1, fs1)" by fastforce
  obtain r2 fs2 where r2: "plain_call flt fs1 = (r2, fs2)" by fastforce
  obtain r3 fs3 where r3: "fsync_file flt f fs2 = (r3, fs3)" by fastforce
  note s1 = plain_call_result(1) [OF r1]
  note s2 = same_dir_trans [OF s1 plain_call_result(1) [OF r2]]
  note f3 = fsync_file_result [OF r3]
  have node: "fs_node fs2 f = Some (Regular d s)" using assms(2) same_dirD [OF s2] by simp
  note run = assms(1) [unfolded fileutil_fsync_def r1 prod.case]
  show "same_names fs fs'"
    using run r2 r3 same_dir_names [OF s1] same_dir_names [OF s2]
      same_names_trans [OF same_dir_names [OF s2] f3(1)] by (auto split: sum.splits)
  have keep: "fs_node fs = (fs_node fs)(f \<mapsto> Regular d s)" using assms(2) by auto
  show "rc = 0 \<Longrightarrow> fs_node fs' = (fs_node fs)(f \<mapsto> Regular d d)"
    using run r2 r3 f3(3) [OF _ node] same_dirD [OF s2] by (auto split: sum.splits)
  then show "\<exists>s'. fs_node fs' = (fs_node fs)(f \<mapsto> Regular d s')"
    using run r2 r3 keep f3(2,3) same_dirD(3) [OF s1] same_dirD(3) [OF s2] same_dirD(3) [of fs2 fs3]
    by (auto split: sum.splits)
  show "flt = no_fault \<Longrightarrow> rc = 0"
    using run r2 r3 f3(4) [OF _ node] plain_call_result(2) [OF r1] plain_call_result(2) [OF r2] by auto
qed

lemma power_loss_names: "power_loss fs fs' \<Longrightarrow> fs_names fs' \<in> crash_views fs"
  by (auto simp: power_loss_def crash_views_def fs_names_def)

end
