(* ===== verification/Chunks_Commit.thy ===== *)
theory Chunks_Commit
  imports Posix_Dir
begin

text \<open>
  \<^verbatim>\<open>chunks_directory_commit\<close> and \<^verbatim>\<open>chunks_directory_exists\<close> of
  \<^verbatim>\<open>tar/chunks/chunks_directory.c\<close>, and \<^verbatim>\<open>tar/chunks/chunks_transaction.c\<close>: moving a
  finished chunk directory into place so that it survives a crash at any point.
\<close>

definition directory_path :: "string \<Rightarrow> string \<Rightarrow> string" where
  "directory_path cachepath suff = cachepath @ ''/directory'' @ suff"

text \<open>The last step of a commit, the steps from the label \<^verbatim>\<open>linkdone\<close>, and the link step.\<close>

definition commit_sync :: "fault \<Rightarrow> fs \<Rightarrow> int \<times> fs" where
  "commit_sync flt fs =
     (case dirutil_fsyncdir flt fs of (rc, fs) \<Rightarrow> if rc \<noteq> 0 then (-1, fs) else (0, fs))"

definition commit_linkdone :: "fault \<Rightarrow> string \<Rightarrow> fs \<Rightarrow> int \<times> fs" where
  "commit_linkdone flt t fs =
     (case dirutil_fsyncdir flt fs of (rc, fs) \<Rightarrow>
        if rc \<noteq> 0 then (-1, fs)
        else case unlink flt t fs of
               (Inl e, fs) \<Rightarrow> (-1, fs)
             | (Inr _, fs) \<Rightarrow> commit_sync flt fs)"

definition commit_link :: "fault \<Rightarrow> string \<Rightarrow> string \<Rightarrow> fs \<Rightarrow> int \<times> fs" where
  "commit_link flt s t fs =
     (case link_file flt t s fs of
        (Inl e, fs) \<Rightarrow>
          if e \<noteq> ENOSYS \<and> e \<noteq> EPERM then (-1, fs)
          else (case rename_file flt t s fs of
                  (Inl e, fs) \<Rightarrow> (-1, fs)
                | (Inr _, fs) \<Rightarrow> commit_sync flt fs)
      | (Inr _, fs) \<Rightarrow> commit_linkdone flt t fs)"

definition commit_paths :: "fault \<Rightarrow> string \<Rightarrow> string \<Rightarrow> fs \<Rightarrow> int \<times> fs" where
  "commit_paths flt s t fs =
     (case lstat flt t fs of
        (Inl e, fs) \<Rightarrow> if e = ENOENT then (0, fs) else (-1, fs)
      | (Inr ino_t, fs) \<Rightarrow>
          (case lstat flt s fs of
             (Inl e, fs) \<Rightarrow> if e \<noteq> ENOENT then (-1, fs) else commit_link flt s t fs
           | (Inr ino_s, fs) \<Rightarrow>
               if ino_s \<noteq> ino_t
               then (case unlink flt s fs of
                       (Inl e, fs) \<Rightarrow> (-1, fs)
                     | (Inr _, fs) \<Rightarrow> commit_link flt s t fs)
               else commit_linkdone flt t fs))"

definition chunks_directory_commit :: "fault \<Rightarrow> string \<Rightarrow> string \<Rightarrow> string \<Rightarrow> fs \<Rightarrow> int \<times> fs" where
  "chunks_directory_commit flt cachepath osuff nsuff fs =
     (case plain_call flt fs of
        (Inl e, fs) \<Rightarrow> (-1, fs)
      | (Inr _, fs) \<Rightarrow>
          (case plain_call flt fs of
             (Inl e, fs) \<Rightarrow> (-1, fs)
           | (Inr _, fs) \<Rightarrow>
               commit_paths flt (directory_path cachepath nsuff) (directory_path cachepath osuff) fs))"

definition chunks_directory_exists :: "fault \<Rightarrow> string \<Rightarrow> fs \<Rightarrow> int \<times> fs" where
  "chunks_directory_exists flt cachepath fs =
     (case plain_call flt fs of
        (Inl e, fs) \<Rightarrow> (-1, fs)
      | (Inr _, fs) \<Rightarrow>
          (case stat_size flt (directory_path cachepath []) fs of
             (Inr _, fs) \<Rightarrow> (1, fs)
           | (Inl e, fs) \<Rightarrow> if e = ENOENT then (0, fs) else (-1, fs)))"

definition chunks_transaction_checkpoint :: "fault \<Rightarrow> string \<Rightarrow> fs \<Rightarrow> int \<times> fs" where
  "chunks_transaction_checkpoint flt cachepath fs =
     (case chunks_directory_commit flt cachepath ''.ckpt'' ''.tmp'' fs of (rc, fs) \<Rightarrow>
        if rc \<noteq> 0 then (-1, fs) else (0, fs))"

definition chunks_transaction_commit :: "fault \<Rightarrow> string \<Rightarrow> fs \<Rightarrow> int \<times> fs" where
  "chunks_transaction_commit flt cachepath fs =
     (case chunks_directory_commit flt cachepath ''.tmp'' [] fs of (rc, fs) \<Rightarrow>
        if rc \<noteq> 0 then (-1, fs) else (0, fs))"

subsection \<open>The commit invariant\<close>

text \<open>
  \<open>t\<close> is the temporary name, \<open>s\<close> the final one and \<open>i\<close> the inode of the new directory.
  Whatever a power failure leaves, the new directory has one of the two names; the three
  phases are: still under the temporary name, already under the final one, and (after
  \<^verbatim>\<open>rename\<close>) about to be under exactly one of them.
\<close>

definition phase_tmp :: "string \<Rightarrow> string \<Rightarrow> nat \<Rightarrow> fs \<Rightarrow> bool" where
  "phase_tmp s t i fs \<longleftrightarrow> (\<forall>v\<in>crash_views fs. v t = Some i)"

definition phase_done :: "string \<Rightarrow> string \<Rightarrow> nat \<Rightarrow> fs \<Rightarrow> bool" where
  "phase_done s t i fs \<longleftrightarrow> (\<forall>v\<in>crash_views fs. v s = Some i \<and> (v t = None \<or> v t = Some i))"

definition phase_moved :: "string \<Rightarrow> string \<Rightarrow> nat \<Rightarrow> fs \<Rightarrow> bool" where
  "phase_moved s t i fs \<longleftrightarrow> fs_names fs t = None \<and> fs_names fs s = Some i \<and>
     (\<forall>v\<in>crash_views fs. v t = Some i \<or> v t = None \<and> v s = Some i)"

definition commit_inv :: "string \<Rightarrow> string \<Rightarrow> nat \<Rightarrow> fs \<Rightarrow> bool" where
  "commit_inv s t i fs \<longleftrightarrow> phase_tmp s t i fs \<or> phase_done s t i fs \<or> phase_moved s t i fs"

lemma commit_inv_intros [inv_intros]:
  "phase_tmp s t i fs \<Longrightarrow> commit_inv s t i fs"
  "phase_done s t i fs \<Longrightarrow> commit_inv s t i fs"
  "phase_moved s t i fs \<Longrightarrow> commit_inv s t i fs"
  by (simp_all add: commit_inv_def)

lemma phases_same_dir:
  assumes "same_dir fs fs'"
  shows "phase_tmp s t i fs' = phase_tmp s t i fs" "phase_done s t i fs' = phase_done s t i fs"
    "phase_moved s t i fs' = phase_moved s t i fs" "commit_inv s t i fs' = commit_inv s t i fs"
  using same_dirD [OF assms] by (simp_all add: commit_inv_def phase_tmp_def phase_done_def phase_moved_def)

subsection \<open>Every step keeps the invariant\<close>

lemma phases_fsyncdir:
  assumes "dirutil_fsyncdir flt fs = (rc, fs')"
  shows "phase_tmp s t i fs \<Longrightarrow> phase_tmp s t i fs'"
    "phase_done s t i fs \<Longrightarrow> phase_done s t i fs'"
    "phase_moved s t i fs \<Longrightarrow> phase_moved s t i fs'"
proof -
  have sub: "crash_views fs' \<subseteq> crash_views fs"
    using fsyncdir_result(3) [OF assms] fs_names_in_crash_views [of fs] by auto
  then show "phase_tmp s t i fs \<Longrightarrow> phase_tmp s t i fs'"
    "phase_done s t i fs \<Longrightarrow> phase_done s t i fs'"
    "phase_moved s t i fs \<Longrightarrow> phase_moved s t i fs'"
    unfolding phase_tmp_def phase_done_def phase_moved_def fsyncdir_result(1) [OF assms] by fast+
qed

lemma commit_sync_result:
  assumes "commit_sync flt fs = (rc, fs')"
  shows "fs_names fs' = fs_names fs" "fs_node fs' = fs_node fs"
    "rc = 0 \<Longrightarrow> crash_views fs' = {fs_names fs}" "flt = no_fault \<Longrightarrow> rc = 0"
    "phase_done s t i fs \<Longrightarrow> phase_done s t i fs'" "phase_moved s t i fs \<Longrightarrow> phase_moved s t i fs'"
proof -
  obtain rc1 where r: "dirutil_fsyncdir flt fs = (rc1, fs')" "rc = (if rc1 = 0 then 0 else -1)"
    using assms by (auto simp: commit_sync_def split: prod.splits if_splits)
  show "fs_names fs' = fs_names fs" "fs_node fs' = fs_node fs"
    "rc = 0 \<Longrightarrow> crash_views fs' = {fs_names fs}" "flt = no_fault \<Longrightarrow> rc = 0"
    "phase_done s t i fs \<Longrightarrow> phase_done s t i fs'" "phase_moved s t i fs \<Longrightarrow> phase_moved s t i fs'"
    using fsyncdir_result(1,2,4,5) [OF r(1)] phases_fsyncdir(2,3) [OF r(1)] r(2)
    by (simp_all split: if_splits)
qed

text \<open>What a commit step that ran from a good state leaves, for every oracle.\<close>

definition commit_step_ok :: "string \<Rightarrow> string \<Rightarrow> nat \<Rightarrow> fault \<Rightarrow> fs \<Rightarrow> int \<times> fs \<Rightarrow> bool" where
  "commit_step_ok s t i flt fs res \<longleftrightarrow>
     (case res of (rc, fs') \<Rightarrow>
        (rc = 0 \<or> rename_safe flt fs \<longrightarrow> commit_inv s t i fs') \<and> fs_node fs' = fs_node fs \<and>
        (rc = 0 \<longrightarrow> fs_names fs' s = Some i \<and> fs_names fs' t = None) \<and>
        (rc = 0 \<longrightarrow> fs_names fs t \<noteq> None \<longrightarrow> crash_views fs' = {fs_names fs'}) \<and>
        (flt = no_fault \<longrightarrow> rc = 0) \<and>
        (\<forall>p. p \<noteq> s \<longrightarrow> p \<noteq> t \<longrightarrow> fs_names fs' p = fs_names fs p))"

lemma commit_linkdone_ok:
  assumes "commit_inv s t i fs" "fs_names fs s = Some i" "fs_names fs t = Some i" "s \<noteq> t"
  shows "commit_step_ok s t i flt fs (commit_linkdone flt t fs)"
proof -
  obtain rc1 fs1 where r1: "dirutil_fsyncdir flt fs = (rc1, fs1)" by fastforce
  note f1 = fsyncdir_result [OF r1]
  have inv1: "commit_inv s t i fs1"
    using assms(1) phases_fsyncdir [OF r1] unfolding commit_inv_def by blast
  show ?thesis
  proof (cases "rc1 = 0")
    case False
    then show ?thesis using r1 f1 inv1
      by (auto simp: commit_linkdone_def commit_step_ok_def)
  next
    case True
    then have views: "crash_views fs1 = {fs_names fs}" using f1(4) by blast
    obtain r2 fs2 where r2: "unlink flt t fs1 = (r2, fs2)" by fastforce
    note f2 = unlink_result [OF r2]
    show ?thesis
    proof (cases r2)
      case (Inl e)
      then have "same_dir fs1 fs2" using f2(1) by blast
      moreover have "flt \<noteq> no_fault" using f2(4) Inl f1(1) assms(3) by auto
      ultimately show ?thesis
        using Inl True r1 r2 f1 f2(3) inv1 phases_same_dir(4) same_dirD
        by (auto simp: commit_linkdone_def commit_step_ok_def)
    next
      case (Inr u)
      then have names2: "fs_names fs2 = (fs_names fs)(t := None)" and
        views2: "crash_views fs2 = {fs_names fs, (fs_names fs)(t := None)}"
        using f2(2) f1(1) views by auto
      then have done2: "phase_done s t i fs2" using assms(2-4) by (auto simp: phase_done_def)
      obtain rc3 fs3 where r3: "commit_sync flt fs2 = (rc3, fs3)" by fastforce
      note f3 = commit_sync_result [OF r3]
      have "commit_linkdone flt t fs = (rc3, fs3)"
        using r1 r2 r3 True Inr by (simp add: commit_linkdone_def)
      then show ?thesis
        using f3(1-4) commit_inv_intros(2) [OF f3(5) [OF done2]] names2 f2(3) f1(2) assms(2-4)
        by (simp add: commit_step_ok_def)
    qed
  qed
qed

lemma commit_link_ok:
  assumes tmp: "phase_tmp s t i fs" and free: "fs_names fs s = None" and st: "s \<noteq> t"
  shows "commit_step_ok s t i flt fs (commit_link flt s t fs)"
proof -
  have t: "fs_names fs t = Some i" using tmp fs_names_in_crash_views by (auto simp: phase_tmp_def)
  obtain r1 fs1 where r1: "link_file flt t s fs = (r1, fs1)" by fastforce
  note f1 = link_result [OF r1]
  show ?thesis
  proof (cases r1)
    case (Inr u)
    then have names1: "fs_names fs1 = (fs_names fs)(s := Some i)" and
      views1: "crash_views fs1 = crash_views fs \<union> (\<lambda>v. v(s := Some i)) ` crash_views fs"
      using f1(2) t by auto
    have "phase_tmp s t i fs1" using tmp st unfolding phase_tmp_def views1 by auto
    then have "commit_step_ok s t i flt fs1 (commit_linkdone flt t fs1)"
      using names1 t st by (intro commit_linkdone_ok inv_intros) auto
    moreover have "rename_safe flt fs = rename_safe flt fs1" using f1(5) by (simp add: rename_safe_def)
    moreover have "commit_link flt s t fs = commit_linkdone flt t fs1" using Inr r1 by (simp add: commit_link_def)
    ultimately show ?thesis
      using names1 f1(3) t st by (auto simp: commit_step_ok_def split: prod.splits)
  next
    case (Inl e)
    then have same1: "same_dir fs fs1" using f1(1) by blast
    have faulty: "flt \<noteq> no_fault" using Inl f1(4) t free by auto
    have tmp1: "phase_tmp s t i fs1" and free1: "fs_names fs1 s = None" and t1: "fs_names fs1 t = Some i"
      using tmp free t phases_same_dir(1) [OF same1] same_dirD(1) [OF same1] by simp_all
    show ?thesis
    proof (cases "e \<noteq> ENOSYS \<and> e \<noteq> EPERM")
      case True
      then show ?thesis using Inl r1 commit_inv_intros(1) [OF tmp1] faulty same_dirD [OF same1]
        by (simp add: commit_link_def commit_step_ok_def)
    next
      case False
      obtain r2 fs2 where r2: "rename_file flt t s fs1 = (r2, fs2)" by fastforce
      note f2 = rename_result [OF r2 free1]
      show ?thesis
      proof (cases r2)
        case (Inl e2)
        then have same2: "same_dir fs1 fs2" using f2(1) by blast
        have "commit_link flt s t fs = (-1, fs2)"
          using False r1 \<open>r1 = Inl e\<close> r2 Inl by (auto simp: commit_link_def)
        then show ?thesis
          using commit_inv_intros(1) [OF tmp1] phases_same_dir(4) [OF same2] faulty
            same_dirD [OF same1] same_dirD [OF same2]
          by (simp add: commit_step_ok_def)
      next
        case (Inr u)
        then have names2: "fs_names fs2 = (fs_names fs)(s := Some i, t := None)"
          using f2(2) t1 same_dirD [OF same1] by auto
        have moved: "phase_moved s t i fs2" if safe: "rename_safe flt fs"
        proof -
          have "fs_atomic_rename fs1" using link_refused r1 \<open>r1 = Inl e\<close> False safe same_dirD(5) [OF same1] by blast
          then have views2: "crash_views fs2 = crash_views fs \<union> (\<lambda>v. v(s := Some i, t := None)) ` crash_views fs"
            using f2(3) Inr t1 same_dirD [OF same1] by auto
          show ?thesis using names2 tmp st unfolding phase_moved_def phase_tmp_def views2 by auto
        qed
        obtain rc3 fs3 where r3: "commit_sync flt fs2 = (rc3, fs3)" by fastforce
        note f3 = commit_sync_result [OF r3]
        have fin: "phase_done s t i fs3" if "rc3 = 0"
          using f3(3) [OF that] names2 st by (simp add: phase_done_def)
        have "commit_link flt s t fs = (rc3, fs3)"
          using False r1 \<open>r1 = Inl e\<close> r2 Inr r3 by (auto simp: commit_link_def)
        moreover have "rc3 = 0 \<or> rename_safe flt fs \<longrightarrow> commit_inv s t i fs3"
          using commit_inv_intros(3) [OF f3(6) [OF moved]] commit_inv_intros(2) [OF fin] by blast
        ultimately show ?thesis
          using f3(1-4) names2 f2(4) st same_dirD [OF same1] faulty
          by (simp add: commit_step_ok_def)
      qed
    qed
  qed
qed

lemma commit_step_ok_same_dir:
  "same_dir fs fs1 \<Longrightarrow> commit_step_ok s t i flt fs1 res \<Longrightarrow> commit_step_ok s t i flt fs res"
  using same_dirD(1,3) [of fs fs1] rename_safe_cong [OF same_dirD(5), of fs fs1 flt]
  by (simp add: commit_step_ok_def split: prod.splits)

lemma commit_paths_ok:
  assumes inv: "commit_inv s t i fs" and st: "s \<noteq> t"
  shows "commit_step_ok s t i flt fs (commit_paths flt s t fs)"
proof -
  have now: "fs_names fs t = Some i \<or> fs_names fs t = None \<and> fs_names fs s = Some i"
    using inv fs_names_in_crash_views [of fs]
    by (auto simp: commit_inv_def phase_tmp_def phase_done_def phase_moved_def)
  obtain r1 fs1 where r1: "lstat flt t fs = (r1, fs1)" by fastforce
  note f1 = lstat_result [OF r1]
  have inv1: "commit_inv s t i fs1" using inv phases_same_dir(4) [OF f1(1)] by simp
  show ?thesis
  proof (cases r1)
    case (Inl e)
    show ?thesis
    proof (cases "e = ENOENT")
      case True
      then have "fs_names fs t = None" using f1(3) Inl by blast
      then show ?thesis using True Inl r1 inv1 now same_dirD [OF f1(1)]
        by (simp add: commit_paths_def commit_step_ok_def)
    next
      case False
      then have "flt \<noteq> no_fault" using f1(4) Inl now by (auto split: option.splits)
      then show ?thesis using False Inl r1 inv1 same_dirD [OF f1(1)]
        by (simp add: commit_paths_def commit_step_ok_def)
    qed
  next
    case (Inr j)
    then have j: "fs_names fs t = Some j" using f1(2) by blast
    then have ij: "j = i" using now by auto
    obtain r2 fs2 where r2: "lstat flt s fs1 = (r2, fs2)" by fastforce
    note f2 = lstat_result [OF r2]
    have same2: "same_dir fs fs2" using same_dir_trans [OF f1(1) f2(1)] .
    have inv2: "commit_inv s t i fs2" using inv phases_same_dir(4) [OF same2] by simp
    have tmp2: "phase_tmp s t i fs2" if "fs_names fs2 s \<noteq> Some i"
      using inv2 that fs_names_in_crash_views [of fs2]
      by (auto simp: commit_inv_def phase_done_def phase_moved_def)
    show ?thesis
    proof (cases r2)
      case (Inl e)
      show ?thesis
      proof (cases "e = ENOENT")
        case True
        then have free: "fs_names fs2 s = None"
          using f2(3) Inl same_dirD(1) [OF f1(1)] same_dirD(1) [OF same2] by simp
        then have "commit_step_ok s t i flt fs2 (commit_link flt s t fs2)"
          using tmp2 st by (intro commit_link_ok) auto
        moreover have "commit_paths flt s t fs = commit_link flt s t fs2"
          using True Inl \<open>r1 = Inr j\<close> r1 r2 by (simp add: commit_paths_def)
        ultimately show ?thesis using commit_step_ok_same_dir [OF same2] by simp
      next
        case False
        then have "flt \<noteq> no_fault" using f2(4) Inl by (auto split: option.splits)
        moreover have "commit_paths flt s t fs = (-1, fs2)"
          using False Inl \<open>r1 = Inr j\<close> r1 r2 by (simp add: commit_paths_def)
        ultimately show ?thesis using inv2 same_dirD [OF same2] by (simp add: commit_step_ok_def)
      qed
    next
      case (Inr k)
      then have k: "fs_names fs2 s = Some k" using f2(2) same_dirD(1) [OF f2(1)] by simp
      show ?thesis
      proof (cases "k = i")
        case True
        then have "commit_step_ok s t i flt fs2 (commit_linkdone flt t fs2)"
          using inv2 k j ij st same_dirD(1) [OF same2] by (intro commit_linkdone_ok) auto
        moreover have "commit_paths flt s t fs = commit_linkdone flt t fs2"
          using True Inr \<open>r1 = Inr j\<close> r1 r2 ij by (simp add: commit_paths_def)
        ultimately show ?thesis using commit_step_ok_same_dir [OF same2] by simp
      next
        case False
        then have tmp: "phase_tmp s t i fs2" using tmp2 k by simp
        obtain r3 fs3 where r3: "unlink flt s fs2 = (r3, fs3)" by fastforce
        note f3 = unlink_result [OF r3]
        show ?thesis
        proof (cases r3)
          case (Inl e)
          then have same3: "same_dir fs2 fs3" using f3(1) by blast
          have "flt \<noteq> no_fault" using f3(4) Inl k by auto
          moreover have "commit_paths flt s t fs = (-1, fs3)"
            using False Inl \<open>r1 = Inr j\<close> \<open>r2 = Inr k\<close> r1 r2 r3 ij by (simp add: commit_paths_def)
          ultimately show ?thesis
            using inv2 phases_same_dir(4) [OF same3] same_dirD [OF same2] same_dirD [OF same3]
            by (simp add: commit_step_ok_def)
        next
          case (Inr u)
          then have names3: "fs_names fs3 = (fs_names fs2)(s := None)" and
            views3: "crash_views fs3 = crash_views fs2 \<union> (\<lambda>v. v(s := None)) ` crash_views fs2"
            using f3(2) by auto
          have "phase_tmp s t i fs3" using tmp st unfolding phase_tmp_def views3 by auto
          then have ok: "commit_step_ok s t i flt fs3 (commit_link flt s t fs3)"
            using names3 st by (intro commit_link_ok) auto
          have eq: "commit_paths flt s t fs = commit_link flt s t fs3"
            using False Inr \<open>r1 = Inr j\<close> \<open>r2 = Inr k\<close> r1 r2 r3 ij by (simp add: commit_paths_def)
          have "rename_safe flt fs = rename_safe flt fs3"
            using f3(6) same_dirD(5) [OF same2] by (simp add: rename_safe_def)
          moreover have "fs_names fs3 t = fs_names fs t" "fs_node fs3 = fs_node fs"
              "\<forall>p. p \<noteq> s \<longrightarrow> fs_names fs3 p = fs_names fs p"
            using names3 f3(3) same_dirD [OF same2] st by auto
          ultimately show ?thesis
            using ok unfolding eq commit_step_ok_def by (auto split: prod.splits)
        qed
      qed
    qed
  qed
qed

lemma directory_path_inject [simp]:
  "directory_path cachepath a = directory_path cachepath b \<longleftrightarrow> a = b"
  by (simp add: directory_path_def)

lemma chunks_directory_commit_ok:
  assumes inv: "commit_inv (directory_path cachepath nsuff) (directory_path cachepath osuff) i fs"
    and "osuff \<noteq> nsuff"
  shows "commit_step_ok (directory_path cachepath nsuff) (directory_path cachepath osuff) i flt fs
    (chunks_directory_commit flt cachepath osuff nsuff fs)"
proof -
  obtain r1 fs1 where r1: "plain_call flt fs = (r1, fs1)" by fastforce
  obtain r2 fs2 where r2: "plain_call flt fs1 = (r2, fs2)" by fastforce
  have same1: "same_dir fs fs1" and same2: "same_dir fs fs2"
    using plain_call_result(1) [OF r1] plain_call_result(1) [OF r2] same_dir_trans by blast+
  have "commit_step_ok (directory_path cachepath nsuff) (directory_path cachepath osuff) i flt fs2
      (commit_paths flt (directory_path cachepath nsuff) (directory_path cachepath osuff) fs2)"
    using inv assms(2) phases_same_dir(4) [OF same2] by (intro commit_paths_ok) auto
  from commit_step_ok_same_dir [OF same2 this] show ?thesis
    using r1 r2 inv same_dirD [OF same1] same_dirD [OF same2] phases_same_dir(4) [OF same1]
      phases_same_dir(4) [OF same2] plain_call_result(2) [OF r1] plain_call_result(2) [OF r2]
    by (auto simp: chunks_directory_commit_def commit_step_ok_def split: sum.splits)
qed

lemma commit_inv_power_loss:
  assumes "commit_inv s t i fs" "power_loss fs fs'"
  shows "commit_inv s t i fs'"
proof -
  have v: "fs_names fs' \<in> crash_views fs" using assms(2) by (rule power_loss_names)
  have "crash_views fs' = {fs_names fs'}"
    using assms(2) by (simp add: power_loss_def crash_views_synced)
  then show ?thesis
    using assms(1) v by (auto simp: commit_inv_def phase_tmp_def phase_done_def phase_moved_def)
qed

lemma power_loss_synced:
  "power_loss fs fs' \<Longrightarrow> fs_node fs i = Some (Regular d d) \<Longrightarrow> fs_node fs' i = Some (Regular d d)"
  unfolding power_loss_def node_after_crash_def by (elim conjE allE [of _ i]) simp

lemma commit_moves:
  assumes "fs_names fs (directory_path path osuff) = Some f" "fs_node fs f = Some n"
    "crash_views fs = {fs_names fs}" "osuff \<noteq> nsuff"
    "chunks_directory_commit flt path osuff nsuff fs = (0, fs')"
  shows "fs_names fs' (directory_path path nsuff) = Some f" "fs_node fs' f = Some n"
    "crash_views fs' = {fs_names fs'}"
proof -
  have "commit_inv (directory_path path nsuff) (directory_path path osuff) f fs"
    using assms(1,3) by (simp add: commit_inv_def phase_tmp_def)
  from chunks_directory_commit_ok [OF this assms(4), of flt] assms(1,2,5)
  show "fs_names fs' (directory_path path nsuff) = Some f" "fs_node fs' f = Some n"
    "crash_views fs' = {fs_names fs'}"
    by (simp_all add: commit_step_ok_def)
qed

text \<open>
  A history of a commit: attempts that may fail at any call, and power failures, in any number
  and order.  Where hard links are refused, the file system has to make a rename one change.
\<close>

inductive commit_history :: "string \<Rightarrow> string \<Rightarrow> string \<Rightarrow> fs \<Rightarrow> fs \<Rightarrow> bool"
  for cachepath osuff nsuff fs0 where
  start: "commit_history cachepath osuff nsuff fs0 fs0"
| attempt: "commit_history cachepath osuff nsuff fs0 fs \<Longrightarrow> rename_safe flt fs \<Longrightarrow>
    chunks_directory_commit flt cachepath osuff nsuff fs = (rc, fs') \<Longrightarrow>
    commit_history cachepath osuff nsuff fs0 fs'"
| power: "commit_history cachepath osuff nsuff fs0 fs \<Longrightarrow> power_loss fs fs' \<Longrightarrow>
    commit_history cachepath osuff nsuff fs0 fs'"

lemma commit_history_inv:
  assumes "commit_history cachepath osuff nsuff fs0 fs"
    and "commit_inv (directory_path cachepath nsuff) (directory_path cachepath osuff) i fs0"
    and "fs_node fs0 i = Some (Regular d d)" and "osuff \<noteq> nsuff"
  shows "commit_inv (directory_path cachepath nsuff) (directory_path cachepath osuff) i fs \<and>
    fs_node fs i = Some (Regular d d)"
  using assms
proof (induction rule: commit_history.induct)
  case (attempt fs flt rc fs')
  then show ?case
    using chunks_directory_commit_ok [of cachepath nsuff osuff i fs flt] by (simp add: commit_step_ok_def)
next
  case (power fs fs')
  then show ?case using commit_inv_power_loss power_loss_synced by blast
qed simp_all

lemma commit_inv_start:
  assumes "fs_pend fs = []" "fs_names fs t = Some i"
  shows "commit_inv s t i fs"
  using assms(2) crash_views_synced [OF assms(1)] by (simp add: commit_inv_def phase_tmp_def)

text \<open>No temporary directory: the transaction was committed already.\<close>

lemma commit_without_tmp:
  assumes "fs_names fs (directory_path cachepath osuff) = None"
    and "chunks_directory_commit flt cachepath osuff nsuff fs = (rc, fs')"
  shows "same_dir fs fs'" "flt = no_fault \<Longrightarrow> rc = 0"
proof -
  let ?t = "directory_path cachepath osuff"
  obtain r1 fs1 where r1: "plain_call flt fs = (r1, fs1)" by fastforce
  obtain r2 fs2 where r2: "plain_call flt fs1 = (r2, fs2)" by fastforce
  obtain r3 fs3 where r3: "lstat flt ?t fs2 = (r3, fs3)" by fastforce
  have same1: "same_dir fs fs1" and same2: "same_dir fs fs2" and same3: "same_dir fs fs3"
    using plain_call_result(1) [OF r1] plain_call_result(1) [OF r2] lstat_result(1) [OF r3]
      same_dir_trans by blast+
  have absent: "fs_names fs2 ?t = None" using assms(1) same_dirD(1) [OF same2] by simp
  then obtain e where e: "r3 = Inl e" "flt = no_fault \<Longrightarrow> e = ENOENT"
    using lstat_result(2,4) [OF r3] by (cases r3) (auto split: option.splits)
  note run = assms(2) [unfolded chunks_directory_commit_def commit_paths_def r1 r2 prod.case]
  show "same_dir fs fs'"
    using run r2 r3 e(1) same1 same2 same3 by (auto split: sum.splits if_splits)
  show "flt = no_fault \<Longrightarrow> rc = 0"
    using run r2 r3 e plain_call_result(2) [OF r1] plain_call_result(2) [OF r2]
    by (auto split: sum.splits if_splits)
qed

section \<open>Properties\<close>

text \<open>C11: A finished chunk directory that is on disk under its temporary name is never lost by a
  commit, where the file system has hard links or renames atomically.  After any history of commit
  attempts that fail at any system call and of power
  failures that keep any of the unsynced directory changes, the new directory still has its
  temporary or its final name with its contents; any attempt that returns 0 from there has left
  it under its final name only; and an attempt in which no call fails does return 0.\<close>

theorem commit_survives_crashes:
  assumes "fs_pend fs0 = []" "fs_names fs0 (directory_path cachepath osuff) = Some i"
    and "fs_node fs0 i = Some (Regular d d)" "osuff \<noteq> nsuff"
    and "commit_history cachepath osuff nsuff fs0 fs"
  shows "fs_node fs i = Some (Regular d d) \<and>
    (\<forall>v\<in>crash_views fs. v (directory_path cachepath osuff) = Some i \<or>
       v (directory_path cachepath nsuff) = Some i) \<and>
    (\<forall>flt. case chunks_directory_commit flt cachepath osuff nsuff fs of (rc, fs') \<Rightarrow>
       (rc = 0 \<longrightarrow> fs_names fs' (directory_path cachepath nsuff) = Some i \<and>
          fs_names fs' (directory_path cachepath osuff) = None \<and>
          fs_node fs' i = Some (Regular d d)) \<and>
       (flt = no_fault \<longrightarrow> rc = 0))"
proof -
  let ?s = "directory_path cachepath nsuff" and ?t = "directory_path cachepath osuff"
  have inv: "commit_inv ?s ?t i fs" and node: "fs_node fs i = Some (Regular d d)"
    using commit_history_inv [OF assms(5) commit_inv_start [OF assms(1,2)] assms(3,4)] by blast+
  have step: "commit_step_ok ?s ?t i flt fs (chunks_directory_commit flt cachepath osuff nsuff fs)" for flt
    using inv assms(4) by (rule chunks_directory_commit_ok)
  have "\<forall>v\<in>crash_views fs. v ?t = Some i \<or> v ?s = Some i"
    using inv by (auto simp: commit_inv_def phase_tmp_def phase_done_def phase_moved_def)
  moreover have "case chunks_directory_commit flt cachepath osuff nsuff fs of (rc, fs') \<Rightarrow>
       (rc = 0 \<longrightarrow> fs_names fs' ?s = Some i \<and> fs_names fs' ?t = None \<and>
          fs_node fs' i = Some (Regular d d)) \<and> (flt = no_fault \<longrightarrow> rc = 0)" for flt
    using step [of flt] node by (auto simp: commit_step_ok_def split: prod.splits)
  ultimately show ?thesis using node by blast
qed

text \<open>An attempt that fails when the temporary name is to be removed, then a second one.\<close>

definition sample_fs :: fs where
  "sample_fs = \<lparr>fs_dur = [''c/directory.tmp'' \<mapsto> 0, ''c/directory'' \<mapsto> 1], fs_pend = [],
     fs_node = [0 \<mapsto> Regular [1] [1], 1 \<mapsto> Regular [2] [2]], fs_next = 2, fs_calls = 0,
     fs_atomic_rename = False\<rparr>"

theorem commit_survives_crashes_witness:
  "case chunks_directory_commit (\<lambda>n. if n = 9 then Some EIO else None) ''c'' ''.tmp'' [] sample_fs of
     (rc, fs) \<Rightarrow> rc = -1 \<and>
       (case chunks_directory_commit no_fault ''c'' ''.tmp'' [] fs of (rc', fs') \<Rightarrow>
          rc' = 0 \<and> fs_names fs' ''c/directory'' = Some 0 \<and> fs_names fs' ''c/directory.tmp'' = None)"
proof -
  let ?flt = "\<lambda>n. if n = 9 then Some EIO else None"
  obtain rc fs where run: "chunks_directory_commit ?flt ''c'' ''.tmp'' [] sample_fs = (rc, fs)"
    by fastforce
  have rc: "fst (chunks_directory_commit ?flt ''c'' ''.tmp'' [] sample_fs) = -1"
    by code_simp
  have "fs_pend sample_fs = []" "fs_names sample_fs (directory_path ''c'' ''.tmp'') = Some 0"
    "fs_node sample_fs 0 = Some (Regular [1] [1])" "''.tmp'' \<noteq> []"
    by (simp_all add: sample_fs_def directory_path_def fs_names_def)
  moreover have "rename_safe ?flt sample_fs" by (simp add: rename_safe_def)
  note commit_history.attempt [OF commit_history.start this run]
  ultimately show ?thesis
    using commit_survives_crashes [of sample_fs "''c''" "''.tmp''" 0 "[1]" "[]" fs] run rc
    by (auto simp: directory_path_def split: prod.splits)
qed

text \<open>C31: The condition is needed: where hard links are refused, and the file system does not rename atomically, the new
  chunk directory can be lost.  From any directory in which it is on disk under its temporary name there is a run in
  which \<^verbatim>\<open>link\<close> is refused and the power fails after the rename, before the directory is synced, that leaves it
  under neither name; the next attempt takes the missing temporary name for a commit that is done, and returns 0.\<close>

theorem rename_may_lose:
  assumes "fs_pend fs = []" "fs_names fs (directory_path cachepath osuff) = Some i"
    and "fs_names fs (directory_path cachepath nsuff) \<noteq> Some i" "osuff \<noteq> nsuff" "\<not> fs_atomic_rename fs"
  shows "\<exists>flt fs1 fs2 fs3. chunks_directory_commit flt cachepath osuff nsuff fs = (-1, fs1) \<and> power_loss fs1 fs2 \<and>
    chunks_directory_commit no_fault cachepath osuff nsuff fs2 = (0, fs3) \<and>
    (\<forall>v\<in>crash_views fs3. v (directory_path cachepath osuff) = None \<and> v (directory_path cachepath nsuff) = None)"
proof -
  let ?s = "directory_path cachepath nsuff" and ?t = "directory_path cachepath osuff" and ?k = "fs_calls fs"
  define r where "r = (if fs_names fs ?s = None then 4 else 5 :: nat)"
  define flt :: fault where "flt = (\<lambda>n. if n = ?k + r then Some EPERM else if n > ?k + r + 1 then Some EIO else None)"
  define old where "old = (if fs_names fs ?s = None then [] else [[(?s, None)]] :: name_update list)"
  define fs1 where "fs1 = fs\<lparr>fs_pend := old @ [[(?s, Some i)], [(?t, None)]], fs_calls := ?k + r + 3\<rparr>"
  define us where "us = old @ [[(?t, None)]]"
  define fs2 where "fs2 = fs\<lparr>fs_dur := apply_updates us (fs_dur fs), fs_pend := [],
    fs_node := \<lambda>j. case fs_node fs j of Some (Regular d s) \<Rightarrow> Some (Regular d d) | n \<Rightarrow> n\<rparr>"
  have ne: "?s \<noteq> ?t" using assms(4) by simp
  have run: "chunks_directory_commit flt cachepath osuff nsuff fs = (-1, fs1)"
    using assms ne ne [symmetric]
    by (cases "fs_names fs ?s")
      (simp_all add: chunks_directory_commit_def commit_paths_def commit_link_def commit_sync_def plain_call_def lstat_def
        unlink_def link_file_def rename_file_def dirutil_fsyncdir_def call_def Let_def flt_def fs1_def r_def old_def
        fs_change_def fs_names_def apply_updates_def)
  have "subseq us (fs_pend fs1)" by (simp add: us_def fs1_def list_emb_append_mono)
  then have loss: "power_loss fs1 fs2"
    by (auto simp: power_loss_def fs1_def fs2_def node_after_crash_def split: option.splits fnode.splits)
  have gone: "fs_names fs2 ?t = None" "fs_names fs2 ?s = None"
    using ne assms(1) by (auto simp: fs2_def us_def old_def fs_names_def apply_updates_def)
  obtain rc fs3 where again: "chunks_directory_commit no_fault cachepath osuff nsuff fs2 = (rc, fs3)" by fastforce
  note r = commit_without_tmp [OF gone(1) again]
  have "crash_views fs3 = {fs_names fs2}"
    using same_dirD(2) [OF r(1)] crash_views_synced [of fs2] by (simp add: fs2_def)
  then have "\<forall>v\<in>crash_views fs3. v ?t = None \<and> v ?s = None" using gone by simp
  moreover have "rc = 0" using r(2) by simp
  ultimately show ?thesis using run loss again by blast
qed

lemma rename_may_lose_witness:
  "\<exists>flt fs1 fs2 fs3. chunks_directory_commit flt ''c'' ''.tmp'' [] sample_fs = (-1, fs1) \<and> power_loss fs1 fs2 \<and>
    chunks_directory_commit no_fault ''c'' ''.tmp'' [] fs2 = (0, fs3) \<and>
    fs_names fs3 ''c/directory'' = None \<and> fs_names fs3 ''c/directory.tmp'' = None"
proof -
  have "fs_pend sample_fs = []" "fs_names sample_fs (directory_path ''c'' ''.tmp'') = Some 0"
    "fs_names sample_fs (directory_path ''c'' []) \<noteq> Some 0" "''.tmp'' \<noteq> []" "\<not> fs_atomic_rename sample_fs"
    by (simp_all add: sample_fs_def directory_path_def fs_names_def)
  from rename_may_lose [OF this] show ?thesis
    using fs_names_in_crash_views by (fastforce simp: directory_path_def)
qed

end
