(* ===== verification/Chunks_Directory.thy ===== *)
theory Chunks_Directory
  imports Rwhashtab Chunks_Stats Chunks_Commit
begin

text \<open>
  \<^verbatim>\<open>tar/chunks/chunks_directory.c\<close>: reading and writing the chunk directory of the cache.
  The in-core directory is the hash table of chunk records keyed by \<^verbatim>\<open>hash\<close>; \<open>ext\<close> is what a
  \<^verbatim>\<open>struct chunkdata_statstape\<close> holds beyond its \<^verbatim>\<open>struct chunkdata\<close> (nothing, or the
  uninitialised \<^verbatim>\<open>ncopies_ctape\<close>).  \<^const>\<open>None\<close> as the outer result of a function is a probe
  loop that never ends.
\<close>

subsection \<open>On-disk records\<close>

definition chunkstats_enc :: "chunkstats \<Rightarrow> bytes" where
  "chunkstats_enc st = le64enc (st_nchunks st) @ le64enc (st_len st) @ le64enc (st_zlen st)"

definition chunkstats_dec :: "bytes \<Rightarrow> chunkstats" where
  "chunkstats_dec cse =
     \<lparr>st_nchunks = le64dec cse, st_len = le64dec (drop 8 cse), st_zlen = le64dec (drop 16 cse)\<rparr>"

definition chunkdata_enc :: "'a chunkdata_scheme \<Rightarrow> bytes" where
  "chunkdata_enc ch =
     cd_hash ch @ le32enc (cd_len ch) @ le32enc (cd_zlen_flags ch AND CHDATA_ZLEN) @
     le32enc (cd_nrefs ch) @ le32enc (cd_ncopies ch)"

definition chunkdata_dec :: "'a \<Rightarrow> bytes \<Rightarrow> 'a chunkdata_scheme" where
  "chunkdata_dec ext che =
     \<lparr>cd_hash = take 32 che, cd_len = le32dec (drop 32 che), cd_zlen_flags = le32dec (drop 36 che),
      cd_nrefs = le32dec (drop 40 che), cd_ncopies = le32dec (drop 44 che), \<dots> = ext\<rparr>"

subsection \<open>Writing\<close>

definition callback_write :: "fault \<Rightarrow> nat \<Rightarrow> 'a chunkdata_scheme \<Rightarrow> fs
    \<Rightarrow> int \<times> 'a chunkdata_scheme \<times> fs" where
  "callback_write flt f ch fs =
     (if cd_nrefs ch = 0 then (0, ch, fs)
      else case fwrite flt f (chunkdata_enc ch) fs of
             (Inl e, fs) \<Rightarrow> (-1, ch, fs)
           | (Inr _, fs) \<Rightarrow> (0, ch, fs))"

text \<open>After a failure the stream is closed, whatever \<^verbatim>\<open>fclose\<close> says.\<close>

definition close_and_fail :: "fault \<Rightarrow> fs \<Rightarrow> int \<times> fs" where
  "close_and_fail flt fs = (case plain_call flt fs of (_, fs) \<Rightarrow> (-1, fs))"

definition chunks_directory_write :: "fault \<Rightarrow> string \<Rightarrow> 'a chunkdata_scheme rwhashtab \<Rightarrow> chunkstats
    \<Rightarrow> string \<Rightarrow> fs \<Rightarrow> int \<times> fs" where
  "chunks_directory_write flt cachepath HT stats_extra suff fs =
     (case plain_call flt fs of
        (Inl e, fs) \<Rightarrow> (-1, fs)
      | (Inr _, fs) \<Rightarrow>
     (case fopen_w flt (directory_path cachepath suff) fs of
        (Inl e, fs) \<Rightarrow> (-1, fs)
      | (Inr f, fs) \<Rightarrow>
     (case fwrite flt f (chunkstats_enc stats_extra) fs of
        (Inl e, fs) \<Rightarrow> close_and_fail flt fs
      | (Inr _, fs) \<Rightarrow>
     (case rwhashtab_foreach (callback_write flt f) HT fs of (rc, _, fs) \<Rightarrow>
        if rc \<noteq> 0 then close_and_fail flt fs
        else
     (case fileutil_fsync flt f fs of (rc, fs) \<Rightarrow>
        if rc \<noteq> 0 then close_and_fail flt fs
        else
     (case plain_call flt fs of
        (Inl e, fs) \<Rightarrow> (-1, fs)
      | (Inr _, fs) \<Rightarrow>
     (case dirutil_fsyncdir flt fs of (rc, fs) \<Rightarrow>
        if rc \<noteq> 0 then (-1, fs) else (0, fs))))))))"

subsection \<open>Reading\<close>

text \<open>\<open>mem_call\<close> is an allocation inside the hash table: it succeeds unless the oracle says no.\<close>

definition mem_call :: "fault \<Rightarrow> fs \<Rightarrow> bool \<times> fs" where
  "mem_call flt fs = (case plain_call flt fs of (r, fs) \<Rightarrow> (\<not> isl r, fs))"

fun read_chunks :: "fault \<Rightarrow> (bytes \<Rightarrow> bytes) \<Rightarrow> 'a \<Rightarrow> nat \<Rightarrow> bytes
    \<Rightarrow> 'a chunkdata_scheme rwhashtab \<Rightarrow> chunkstats \<Rightarrow> chunkstats \<Rightarrow> fs
    \<Rightarrow> (('a chunkdata_scheme rwhashtab \<times> chunkstats \<times> chunkstats) option \<times> fs) option" where
  "read_chunks flt hash ext 0 strm HT uniq all fs = Some (Some (HT, uniq, all), fs)"
| "read_chunks flt hash ext (Suc numchunks) strm HT uniq all fs =
     (case fread flt 48 strm fs of
        (Inl e, fs) \<Rightarrow> Some (None, fs)
      | (Inr (che, strm), fs) \<Rightarrow>
          let p = chunkdata_dec ext che
          in if cd_len p = 0 \<or> cd_zlen_flags p = 0 \<or> cd_zlen_flags p AND CHDATA_FLAGS \<noteq> 0 \<or>
                cd_nrefs p = 0
             then Some (None, fs)
             else (case mem_call flt fs of (ma, fs) \<Rightarrow>
               case rwhashtab_insert ma hash cd_hash HT p of
                 None \<Rightarrow> None
               | Some (rc, HT) \<Rightarrow>
                   if rc \<noteq> 0 then Some (None, fs)
                   else read_chunks flt hash ext numchunks strm HT
                          (chunks_stats_add uniq (ucast (cd_len p)) (ucast (cd_zlen_flags p)) 1)
                          (chunks_stats_add all (ucast (cd_len p)) (ucast (cd_zlen_flags p))
                             (uint (cd_ncopies p)))
                          fs))"

type_synonym 'a directory = "'a chunkdata_scheme rwhashtab \<times> chunkstats \<times> chunkstats \<times> chunkstats"

text \<open>The part that works on the open stream, up to its \<^verbatim>\<open>fclose\<close>.\<close>

definition read_stream :: "fault \<Rightarrow> (bytes \<Rightarrow> bytes) \<Rightarrow> 'a \<Rightarrow> nat \<Rightarrow> bytes
    \<Rightarrow> 'a chunkdata_scheme rwhashtab \<Rightarrow> fs \<Rightarrow> ('a directory option \<times> fs) option" where
  "read_stream flt hash ext numchunks strm HT fs =
     (case fread flt 24 strm fs of
        (Inl e, fs) \<Rightarrow> Some (None, snd (close_and_fail flt fs))
      | (Inr (cse, strm), fs) \<Rightarrow>
          (case read_chunks flt hash ext numchunks strm HT chunks_stats_zero chunks_stats_zero fs of
             None \<Rightarrow> None
           | Some (None, fs) \<Rightarrow> Some (None, snd (close_and_fail flt fs))
           | Some (Some (HT, uniq, all), fs) \<Rightarrow>
               (case plain_call flt fs of
                  (Inl e, fs) \<Rightarrow> Some (None, fs)
                | (Inr _, fs) \<Rightarrow> Some (Some (HT, uniq, all, chunkstats_dec cse), fs))))"

text \<open>The part that checks the size and opens the file; 24, 48 and 52 are the sizes of
  \<^verbatim>\<open>chunkstats_external\<close>, \<^verbatim>\<open>chunkdata_external\<close> and \<^verbatim>\<open>chunkdata_statstape\<close>.\<close>

definition read_file :: "fault \<Rightarrow> (bytes \<Rightarrow> bytes) \<Rightarrow> 'a \<Rightarrow> string \<Rightarrow> int
    \<Rightarrow> 'a chunkdata_scheme rwhashtab \<Rightarrow> fs \<Rightarrow> ('a directory option \<times> fs) option" where
  "read_file flt hash ext s st_size HT fs =
     (if st_size < 0 then Some (None, fs)
      else if nat st_size < 24 then Some (None, fs)
      else if (nat st_size - 24) mod 48 \<noteq> 0 then Some (None, fs)
      else if (nat st_size - 24) div 48 \<ge> SIZE_MAX div 52 then Some (None, fs)
      else case plain_call flt fs of
             (Inl e, fs) \<Rightarrow> Some (None, fs)
           | (Inr _, fs) \<Rightarrow>
               (case fopen_r flt s fs of
                  (Inl e, fs) \<Rightarrow> Some (None, fs)
                | (Inr strm, fs) \<Rightarrow>
                    read_stream flt hash ext ((nat st_size - 24) div 48) strm HT fs))"

definition chunks_directory_read :: "fault \<Rightarrow> (bytes \<Rightarrow> bytes) \<Rightarrow> bytes option \<Rightarrow> 'a
    \<Rightarrow> string option \<Rightarrow> bool \<Rightarrow> fs \<Rightarrow> ('a directory option \<times> fs) option" where
  "chunks_directory_read flt hash entropy ext cachepath mustexist fs =
     (case mem_call flt fs of (m0, fs) \<Rightarrow>
      case mem_call flt fs of (m1, fs) \<Rightarrow>
      case rwhashtab_init (\<lambda>k. if k = 0 then m0 else m1) entropy 32 of
        None \<Rightarrow> Some (None, fs)
      | Some HT \<Rightarrow>
          (case cachepath of
             None \<Rightarrow> Some (Some (HT, chunks_stats_zero, chunks_stats_zero, chunks_stats_zero), fs)
           | Some path \<Rightarrow>
               (case plain_call flt fs of
                  (Inl e, fs) \<Rightarrow> Some (None, fs)
                | (Inr _, fs) \<Rightarrow>
                    (case stat_size flt (directory_path path []) fs of
                       (Inl e, fs) \<Rightarrow>
                         if e \<noteq> ENOENT then Some (None, fs)
                         else if mustexist then Some (None, fs)
                         else Some (Some (HT, chunks_stats_zero, chunks_stats_zero,
                                          chunks_stats_zero), fs)
                     | (Inr st_size, fs) \<Rightarrow>
                         read_file flt hash ext (directory_path path []) st_size HT fs))))"

subsection \<open>Encoding\<close>

definition chunk_wf :: "'a chunkdata_scheme \<Rightarrow> bool" where
  "chunk_wf ch \<longleftrightarrow> length (cd_hash ch) = 32 \<and> cd_len ch \<noteq> 0 \<and> cd_zlen ch \<noteq> 0"

text \<open>The record as it comes back from disk: without its flags.\<close>

definition stored :: "'b \<Rightarrow> 'a chunkdata_scheme \<Rightarrow> 'b chunkdata_scheme" where
  "stored ext ch =
     \<lparr>cd_hash = cd_hash ch, cd_len = cd_len ch, cd_zlen_flags = cd_zlen ch,
      cd_nrefs = cd_nrefs ch, cd_ncopies = cd_ncopies ch, \<dots> = ext\<rparr>"

lemma stored_simps [simp]:
  "cd_hash (stored ext ch) = cd_hash ch" "cd_len (stored ext ch) = cd_len ch"
  "cd_zlen_flags (stored ext ch) = cd_zlen ch"
  "cd_nrefs (stored ext ch) = cd_nrefs ch" "cd_ncopies (stored ext ch) = cd_ncopies ch"
  by (simp_all add: stored_def)

lemma length_chunkstats_enc [simp, length_simps]: "length (chunkstats_enc st) = 24"
  by (simp add: chunkstats_enc_def)

lemma length_chunkdata_enc [length_simps]: "chunk_wf ch \<Longrightarrow> length (chunkdata_enc ch) = 48"
  by (simp add: chunkdata_enc_def chunk_wf_def)

lemma chunkstats_dec_enc [simp, codec_simps]: "chunkstats_dec (chunkstats_enc st) = st"
  by (simp add: chunkstats_dec_def chunkstats_enc_def dec_enc_exact)

lemma chunkdata_dec_enc [codec_simps]:
  "chunk_wf ch \<Longrightarrow> chunkdata_dec ext (chunkdata_enc ch) = stored ext ch"
  by (simp add: chunkdata_dec_def chunkdata_enc_def chunk_wf_def stored_def dec_enc_exact)

subsection \<open>What a write leaves on disk\<close>

definition directory_file :: "chunkstats \<Rightarrow> 'a chunkdata_scheme list \<Rightarrow> bytes" where
  "directory_file st rs = chunkstats_enc st @ concat (map chunkdata_enc rs)"

abbreviation live :: "'a chunkdata_scheme list \<Rightarrow> 'a chunkdata_scheme list" where
  "live rs \<equiv> filter (\<lambda>ch. cd_nrefs ch \<noteq> 0) rs"

lemma callback_write_recs:
  assumes "foreach_recs (callback_write flt f) rs fs = (rc, rs', fs')"
    and "fs_node fs f = Some (Regular d s)"
  shows "same_names fs fs' \<and> (\<exists>d'. fs_node fs' = (fs_node fs)(f \<mapsto> Regular d' s)) \<and>
    (rc = 0 \<longrightarrow> fs_node fs' = (fs_node fs)(f \<mapsto> Regular (d @ concat (map chunkdata_enc (live rs))) s)) \<and>
    (flt = no_fault \<longrightarrow> rc = 0)"
  using assms
proof (induction rs arbitrary: fs rc rs' fs' d)
  case Nil
  then have eqs: "rc = 0" "fs' = fs" by simp_all
  have keep: "fs_node fs = (fs_node fs)(f \<mapsto> Regular (d @ concat (map chunkdata_enc (live []))) s)"
    using Nil.prems(2) by auto
  then have "\<exists>d'. fs_node fs = (fs_node fs)(f \<mapsto> Regular d' s)" by blast
  then show ?case unfolding eqs using keep same_names_refl by blast
next
  case (Cons ch rs)
  show ?case
  proof (cases "cd_nrefs ch = 0")
    case True
    then have "callback_write flt f ch fs = (0, ch, fs)" by (simp add: callback_write_def)
    then obtain rs1 where "foreach_recs (callback_write flt f) rs fs = (rc, rs1, fs')"
      using Cons.prems(1) by (auto split: prod.splits)
    from Cons.IH [OF this Cons.prems(2)] True show ?thesis by simp
  next
    case False
    obtain r1 fs1 where r1: "fwrite flt f (chunkdata_enc ch) fs = (r1, fs1)" by fastforce
    note f1 = fwrite_result [OF r1]
    have keep: "fs_node fs = (fs_node fs)(f \<mapsto> Regular d s)" using Cons.prems(2) by auto
    show ?thesis
    proof (cases r1)
      case (Inl e)
      then have "callback_write flt f ch fs = (-1, ch, fs1)"
        using False r1 by (simp add: callback_write_def)
      then have "rc = -1 \<and> fs' = fs1" using Cons.prems(1) by simp
      moreover have "flt \<noteq> no_fault" using f1(4) [OF _ Cons.prems(2)] Inl by auto
      moreover have "fs_node fs1 = (fs_node fs)(f \<mapsto> Regular d s)"
        using f1(2) Inl same_dirD(3) keep by metis
      ultimately show ?thesis using f1(1) by (metis zero_neq_neg_one)
    next
      case (Inr u)
      then have node: "fs_node fs1 = (fs_node fs)(f \<mapsto> Regular (d @ chunkdata_enc ch) s)"
        using f1(3) Cons.prems(2) by blast
      then have node_f: "fs_node fs1 f = Some (Regular (d @ chunkdata_enc ch) s)" by simp
      have "callback_write flt f ch fs = (0, ch, fs1)"
        using False r1 Inr by (simp add: callback_write_def)
      then obtain rs1 where "foreach_recs (callback_write flt f) rs fs1 = (rc, rs1, fs')"
        using Cons.prems(1) by (auto split: prod.splits)
      from Cons.IH [OF this node_f] False same_names_trans [OF f1(1)] node show ?thesis
        by (auto simp del: fun_upd_apply)
    qed
  qed
qed

lemma chunks_directory_write_spec:
  assumes "chunks_directory_write flt cachepath HT st suff fs = (0, fs')"
  defines "p \<equiv> directory_path cachepath suff"
  shows "\<exists>f. fs_names fs' p = Some f \<and> crash_views fs' = {fs_names fs'} \<and>
    (let d = directory_file st (live (somes (ht_ht HT))) in fs_node fs' f = Some (Regular d d)) \<and>
    (\<forall>q. q \<noteq> p \<longrightarrow> fs_names fs' q = fs_names fs q) \<and>
    (\<forall>g. g \<noteq> f \<longrightarrow> fs_node fs' g = fs_node fs g) \<and>
    (fs_names fs p = Some f \<and> fs_next fs' = fs_next fs \<or>
     fs_names fs p = None \<and> f = fs_next fs \<and> fs_next fs' = Suc f)"
proof -
  obtain r1 fs1 where r1: "plain_call flt fs = (r1, fs1)" by fastforce
  obtain r2 fs2 where r2: "fopen_w flt p fs1 = (r2, fs2)" by fastforce
  note s1 = same_dirD [OF plain_call_result(1) [OF r1]]
  note run1 = assms(1) [unfolded chunks_directory_write_def r1 prod.case, folded p_def, unfolded r2 prod.case]
  obtain f where f: "r1 = Inr ()" "r2 = Inr f"
    using run1 r2 by (auto split: sum.splits)
  note run2 = run1 [unfolded f sum.case r2 prod.case]
  obtain s where open_f: "fs_names fs2 p = Some f" "fs_node fs2 f = Some (Regular [] s)"
    "\<forall>q. q \<noteq> p \<longrightarrow> fs_names fs2 q = fs_names fs1 q" "\<forall>g. g \<noteq> f \<longrightarrow> fs_node fs2 g = fs_node fs1 g"
    "fs_names fs1 p = Some f \<and> fs_next fs2 = fs_next fs1 \<or>
       fs_names fs1 p = None \<and> f = fs_next fs1 \<and> fs_next fs2 = Suc f"
    using fopen_w_result(2) [OF r2 f(2)] by blast
  obtain r3 fs3 where r3: "fwrite flt f (chunkstats_enc st) fs2 = (r3, fs3)" by fastforce
  then obtain u where u: "r3 = Inr u" using run2 by (auto simp: close_and_fail_def split: sum.splits prod.splits)
  have node3: "fs_node fs3 = (fs_node fs2)(f \<mapsto> Regular (chunkstats_enc st) s)"
    using fwrite_result(3) [OF r3 u open_f(2)] by simp
  obtain rc4 H4 fs4 where r4: "rwhashtab_foreach (callback_write flt f) HT fs3 = (rc4, H4, fs4)"
    by (metis prod_cases3)
  obtain ht' where "foreach_slots (callback_write flt f) (ht_ht HT) fs3 = (rc4, ht', fs4)"
    using r4 by (auto simp: rwhashtab_foreach_def split: prod.splits)
  note c4 = callback_write_recs [OF foreach_slots_recs [OF this], of "chunkstats_enc st" s]
  note run3 = run2 [unfolded r3 u prod.case sum.case r4]
  have rc4: "rc4 = 0" using run3 by (auto simp: close_and_fail_def split: prod.splits if_splits)
  let ?d = "directory_file st (live (somes (ht_ht HT)))"
  have node4: "fs_node fs4 = (fs_node fs3)(f \<mapsto> Regular ?d s)" and names4: "same_names fs3 fs4"
    using c4 rc4 node3 by (auto simp: directory_file_def)
  obtain rc5 fs5 where r5: "fileutil_fsync flt f fs4 = (rc5, fs5)" by fastforce
  have rc5: "rc5 = 0"
    using run3 rc4 r5 by (auto simp: close_and_fail_def split: prod.splits if_splits)
  have "fs_node fs4 f = Some (Regular ?d s)" using node4 by simp
  note f5 = fileutil_fsync_result [OF r5 this]
  obtain r6 fs6 where r6: "plain_call flt fs5 = (r6, fs6)" by fastforce
  obtain rc7 fs7 where r7: "dirutil_fsyncdir flt fs6 = (rc7, fs7)" by fastforce
  have fin: "rc7 = 0" "fs' = fs7"
    using run3 rc4 rc5 r5 r6 r7 by (auto split: sum.splits if_splits)
  note s6 = same_dirD [OF plain_call_result(1) [OF r6]]
  note f7 = fsyncdir_result [OF r7]
  have "fs_names fs7 = fs_names fs2"
    using f7(1) s6(1) f5(1) names4 fwrite_result(1) [OF r3] by (simp add: same_names_def)
  moreover have "fs_node fs7 = (fs_node fs2)(f \<mapsto> Regular ?d ?d)"
    using f7(2) s6(3) f5(3) rc5 node4 node3 by simp
  moreover have "crash_views fs7 = {fs_names fs7}" using f7(1,4) fin by simp
  moreover have "fs_next fs7 = fs_next fs2"
    using fsyncdir_next [OF r7] s6(4) f5(1) names4 fwrite_result(1) [OF r3] by (simp add: same_names_def)
  ultimately show ?thesis using open_f s1 fin by auto
qed

lemma chunks_directory_write_succeeds:
  assumes "\<And>i. fs_names fs (directory_path cachepath suff) = Some i \<Longrightarrow>
    \<exists>d s. fs_node fs i = Some (Regular d s)"
  shows "fst (chunks_directory_write no_fault cachepath HT st suff fs) = 0"
proof -
  let ?p = "directory_path cachepath suff"
  obtain r1 fs1 where r1: "plain_call no_fault fs = (r1, fs1)" by fastforce
  obtain r2 fs2 where r2: "fopen_w no_fault ?p fs1 = (r2, fs2)" by fastforce
  note s1 = same_dirD [OF plain_call_result(1) [OF r1]]
  obtain f where f: "r2 = Inr f"
    using fopen_w_result(3,4) [OF r2] assms s1 by (cases "fs_names fs ?p") auto
  obtain s where node2: "fs_node fs2 f = Some (Regular [] s)" using fopen_w_result(2) [OF r2 f] by blast
  obtain r3 fs3 where r3: "fwrite no_fault f (chunkstats_enc st) fs2 = (r3, fs3)" by fastforce
  have ok3: "r3 = Inr ()" using fwrite_result(4) [OF r3 refl node2] .
  have node3: "fs_node fs3 f = Some (Regular (chunkstats_enc st) s)"
    using fwrite_result(3) [OF r3 ok3 node2] by simp
  obtain rc4 H4 fs4 where r4: "rwhashtab_foreach (callback_write no_fault f) HT fs3 = (rc4, H4, fs4)"
    by (metis prod_cases3)
  obtain ht' where "foreach_slots (callback_write no_fault f) (ht_ht HT) fs3 = (rc4, ht', fs4)"
    using r4 by (auto simp: rwhashtab_foreach_def split: prod.splits)
  note c4 = callback_write_recs [OF foreach_slots_recs [OF this] node3]
  then obtain d where node4: "fs_node fs4 f = Some (Regular d s)" by auto
  obtain rc5 fs5 where r5: "fileutil_fsync no_fault f fs4 = (rc5, fs5)" by fastforce
  note f5 = fileutil_fsync_result [OF r5 node4]
  obtain r6 fs6 where r6: "plain_call no_fault fs5 = (r6, fs6)" by fastforce
  obtain rc7 fs7 where r7: "dirutil_fsyncdir no_fault fs6 = (rc7, fs7)" by fastforce
  show ?thesis
    using r1 r2 f r3 ok3 r4 c4 r5 f5(4) r6 r7 fsyncdir_result(5) [OF r7]
      plain_call_result(2) [OF r1] plain_call_result(2) [OF r6]
    by (simp add: chunks_directory_write_def)
qed
subsection \<open>What a read accepts\<close>

text \<open>
  The directory as the other components find it after a read: every record is legal, carries no
  flag, and is stored under its own hash; the statistics are the sums over the records.
\<close>

definition directory_ok :: "(bytes \<Rightarrow> 'a chunkdata_scheme option) \<Rightarrow> bool" where
  "directory_ok m \<longleftrightarrow> (\<forall>k ch. m k = Some ch \<longrightarrow>
     cd_hash ch = k \<and> chunk_wf ch \<and> cd_zlen_flags ch AND CHDATA_FLAGS = 0 \<and> cd_nrefs ch \<noteq> 0)"

abbreviation dir_map :: "'a chunkdata_scheme rwhashtab \<Rightarrow> bytes \<Rightarrow> 'a chunkdata_scheme option" where
  "dir_map HT \<equiv> ht_map cd_hash HT"

abbreviation dir_inv :: "(bytes \<Rightarrow> bytes) \<Rightarrow> 'a chunkdata_scheme rwhashtab \<Rightarrow> bool" where
  "dir_inv hash HT \<equiv> ht_inv hash cd_hash HT"

lemma directory_ok_empty [simp]: "directory_ok Map.empty"
  by (simp add: directory_ok_def)

lemma directory_ok_insert:
  "directory_ok m \<Longrightarrow> chunk_wf ch \<Longrightarrow> cd_zlen_flags ch AND CHDATA_FLAGS = 0 \<Longrightarrow> cd_nrefs ch \<noteq> 0 \<Longrightarrow>
     directory_ok (m(cd_hash ch \<mapsto> ch))"
  by (auto simp: directory_ok_def)

lemma mem_call_result:
  assumes "mem_call flt fs = (ma, fs')"
  shows "same_dir fs fs'" "flt = no_fault \<Longrightarrow> ma"
  using assms plain_call_result [of flt fs] by (auto simp: mem_call_def split: prod.splits)

lemma read_chunks_sound:
  fixes HT :: "'a chunkdata_scheme rwhashtab"
  assumes "dir_inv hash HT" "directory_ok (dir_map HT)"
    "uniq = unique_of (dir_map HT)" "all = total_of (dir_map HT)"
  shows "\<exists>res fs'. read_chunks flt hash ext n strm HT uniq all fs = Some (res, fs') \<and> same_dir fs fs' \<and>
    (case res of None \<Rightarrow> True | Some (HT', uniq', all') \<Rightarrow>
       dir_inv hash HT' \<and> directory_ok (dir_map HT') \<and>
       uniq' = unique_of (dir_map HT') \<and> all' = total_of (dir_map HT') \<and>
       48 * n \<le> length strm)"
  using assms
proof (induction n arbitrary: strm HT uniq all fs)
  case (Suc n)
  obtain r1 fs1 where r1: "fread flt 48 strm fs = (r1, fs1)" by fastforce
  note f1 = fread_result [OF r1]
  show ?case
  proof (cases r1)
    case (Inl e)
    then show ?thesis using r1 f1(1) by auto
  next
    case (Inr r)
    then obtain che strm1 where r: "r1 = Inr (che, strm1)" by (cases r) auto
    note che = f1(2) [OF r]
    define p where "p = chunkdata_dec ext che"
    have hash32: "length (cd_hash p) = 32" using che by (simp add: p_def chunkdata_dec_def)
    show ?thesis
    proof (cases "cd_len p = 0 \<or> cd_zlen_flags p = 0 \<or> cd_zlen_flags p AND CHDATA_FLAGS \<noteq> 0 \<or> cd_nrefs p = 0")
      case True
      then show ?thesis using r1 r f1(1) by (simp add: p_def [symmetric])
    next
      case accepted: False
      then have legal: "chunk_wf p" "cd_zlen_flags p AND CHDATA_FLAGS = 0" "cd_nrefs p \<noteq> 0"
        "cd_zlen p = cd_zlen_flags p"
        using hash32 flags_zero_zlen [of "cd_zlen_flags p"] by (auto simp: chunk_wf_def)
      obtain ma fs2 where r2: "mem_call flt fs1 = (ma, fs2)" by fastforce
      have same2: "same_dir fs fs2" using same_dir_trans [OF f1(1) mem_call_result(1) [OF r2]] .
      obtain rc HT1 where r3: "rwhashtab_insert ma hash cd_hash HT p = Some (rc, HT1)"
        and inv1: "dir_inv hash HT1"
        and cases1: "rc = 0 \<and> dir_map HT (cd_hash p) = None \<and> dir_map HT1 = (dir_map HT)(cd_hash p \<mapsto> p) \<or>
          rc = 1 \<and> dir_map HT (cd_hash p) \<noteq> None \<and> dir_map HT1 = dir_map HT \<or> rc = -1 \<and> HT1 = HT"
        using ht.ins_result [OF Suc.prems(1), of ma p] by blast
      show ?thesis
      proof (cases "rc = 0")
        case False
        then have "read_chunks flt hash ext (Suc n) strm HT uniq all fs = Some (None, fs2)"
          using r1 r r2 r3 accepted by (simp add: p_def [symmetric])
        then show ?thesis using same2 by simp
      next
        case True
        let ?u = "chunks_stats_add uniq (ucast (cd_len p)) (ucast (cd_zlen_flags p)) 1"
        let ?a = "chunks_stats_add all (ucast (cd_len p)) (ucast (cd_zlen_flags p)) (uint (cd_ncopies p))"
        have new: "dir_map HT (cd_hash p) = None" and
          map1: "dir_map HT1 = (dir_map HT)(cd_hash p \<mapsto> p)" using True cases1 by simp_all
        have u: "?u = unique_of (dir_map HT1)"
          unfolding map1 Suc.prems(3) using stats_of_insert [of "dir_map HT" "cd_hash p" 1 "\<lambda>_. 1" p]
            new legal(4) by simp
        have a: "?a = total_of (dir_map HT1)"
          unfolding map1 Suc.prems(4)
          using stats_of_insert [of "dir_map HT" "cd_hash p" "uint (cd_ncopies p)" "\<lambda>ch. ucast (cd_ncopies ch)" p]
            new legal(4) by simp
        have ok: "directory_ok (dir_map HT1)"
          unfolding map1 using Suc.prems(2) legal by (intro directory_ok_insert)
        have eq: "read_chunks flt hash ext (Suc n) strm HT uniq all fs =
            read_chunks flt hash ext n strm1 HT1 ?u ?a fs2"
          using r1 r r2 r3 True accepted by (simp add: p_def [symmetric])
        obtain res fs' where res: "read_chunks flt hash ext n strm1 HT1 ?u ?a fs2 = Some (res, fs')"
          "same_dir fs2 fs'"
          "case res of None \<Rightarrow> True | Some (HT', uniq', all') \<Rightarrow>
             dir_inv hash HT' \<and> directory_ok (dir_map HT') \<and>
             uniq' = unique_of (dir_map HT') \<and> all' = total_of (dir_map HT') \<and>
             48 * n \<le> length strm1"
          using Suc.IH [OF inv1 ok u a] by blast
        have "same_dir fs fs'" using same_dir_trans [OF same2 res(2)] .
        moreover have "length strm = 48 + length strm1" using che by simp
        ultimately show ?thesis
          unfolding eq using res by (auto split: option.splits)
      qed
    qed
  qed
qed simp

text \<open>A stream written by the writer is read back.\<close>

lemma read_chunks_complete:
  assumes "dir_inv hash HT" "ht_tight HT" "ht_numentries HT + length rs \<le> 2 ^ 48"
    and "\<forall>r\<in>set rs. chunk_wf r \<and> cd_nrefs r \<noteq> 0" "distinct (map cd_hash rs)"
    and "cd_hash ` set rs \<inter> dom (dir_map HT) = {}"
  shows "\<exists>HT' uniq' all' fs'.
    read_chunks no_fault hash ext (length rs) (concat (map chunkdata_enc rs) @ tail) HT uniq all fs =
      Some (Some (HT', uniq', all'), fs') \<and>
    dir_map HT' = dir_map HT ++ map_of (map (\<lambda>r. (cd_hash r, stored ext r)) rs)"
  using assms
proof (induction rs arbitrary: HT uniq all fs)
  case (Cons r rs)
  let ?strm = "concat (map chunkdata_enc (r # rs)) @ tail"
  have wf: "chunk_wf r" "cd_nrefs r \<noteq> 0" using Cons.prems(4) by auto
  have len: "length (chunkdata_enc r) = 48" using wf(1) by (rule length_chunkdata_enc)
  obtain r1 fs1 where r1: "fread no_fault 48 ?strm fs = (r1, fs1)" by fastforce
  have r1v: "r1 = Inr (chunkdata_enc r, concat (map chunkdata_enc rs) @ tail)"
    using fread_result(3) [OF r1] len by simp
  define p where "p = chunkdata_dec ext (chunkdata_enc r)"
  have p: "p = stored ext r" using chunkdata_dec_enc [OF wf(1)] by (simp add: p_def)
  have legal: "cd_len p \<noteq> 0" "cd_zlen_flags p \<noteq> 0" "cd_zlen_flags p AND CHDATA_FLAGS = 0" "cd_nrefs p \<noteq> 0"
    using wf by (simp_all add: p chunk_wf_def and.assoc)
  obtain ma fs2 where r2: "mem_call no_fault fs1 = (ma, fs2)" by fastforce
  then have ma: "ma = True" using mem_call_result(2) by blast
  obtain rc HT1 where r3: "rwhashtab_insert True hash cd_hash HT p = Some (rc, HT1)"
    and HT1: "dir_inv hash HT1"
      "rc = 0 \<and> dir_map HT (cd_hash p) = None \<and> dir_map HT1 = (dir_map HT)(cd_hash p \<mapsto> p) \<or>
       rc = 1 \<and> dir_map HT (cd_hash p) \<noteq> None \<and> dir_map HT1 = dir_map HT \<or> rc = -1 \<and> HT1 = HT"
    using ht.ins_result [OF Cons.prems(1), of True p] by blast
  have "dir_map HT (cd_hash p) = None" using Cons.prems(6) by (auto simp: p)
  moreover have "rc \<noteq> -1" "ht_tight HT1"
    using rwhashtab_insert_room [OF Cons.prems(1,2) _ r3] Cons.prems(3) by auto
  ultimately have rc: "rc = 0" and map1: "dir_map HT1 = (dir_map HT)(cd_hash r \<mapsto> p)"
    using HT1(2) by (auto simp: p)
  have num: "ht_numentries HT1 = Suc (ht_numentries HT)"
    using ht_numentries_card [OF HT1(1)] ht_numentries_card [OF Cons.prems(1)] map1
      Cons.prems(6) by (simp add: card_insert_if)
  let ?u = "chunks_stats_add uniq (ucast (cd_len p)) (ucast (cd_zlen_flags p)) 1"
  let ?a = "chunks_stats_add all (ucast (cd_len p)) (ucast (cd_zlen_flags p)) (uint (cd_ncopies p))"
  have eq: "read_chunks no_fault hash ext (length (r # rs)) ?strm HT uniq all fs =
      read_chunks no_fault hash ext (length rs) (concat (map chunkdata_enc rs) @ tail) HT1 ?u ?a fs2"
    using r1 r1v r2 ma r3 rc legal by (simp add: p_def [symmetric])
  have bound1: "ht_numentries HT1 + length rs \<le> 2 ^ 48" using num Cons.prems(3) by simp
  have disj: "cd_hash ` set rs \<inter> dom (dir_map HT1) = {}"
    using Cons.prems(5,6) unfolding map1 dom_fun_upd by auto
  obtain HT' uniq' all' fs' where
    "read_chunks no_fault hash ext (length rs) (concat (map chunkdata_enc rs) @ tail) HT1 ?u ?a fs2 =
      Some (Some (HT', uniq', all'), fs')"
    "dir_map HT' = dir_map HT1 ++ map_of (map (\<lambda>r. (cd_hash r, stored ext r)) rs)"
    using Cons.IH [OF HT1(1) \<open>ht_tight HT1\<close> bound1 _ _ disj, of ?u ?a fs2] Cons.prems(4,5) by auto
  moreover have "cd_hash r \<notin> dom (map_of (map (\<lambda>r. (cd_hash r, stored ext r)) rs))"
    using Cons.prems(5) by (auto simp: dom_map_of_conv_image_fst)
  ultimately show ?case
    unfolding eq using map1 p by (simp add: map_add_upd_left map_add_upd del: fun_upd_apply)
qed simp
subsection \<open>Reading the whole file\<close>

abbreviation read_ok :: "(bytes \<Rightarrow> bytes) \<Rightarrow> 'a directory option \<Rightarrow> bool" where
  "read_ok hash res \<equiv>
     (case res of None \<Rightarrow> True | Some (HT, uniq, all, extra) \<Rightarrow>
        dir_inv hash HT \<and> directory_ok (dir_map HT) \<and>
        uniq = unique_of (dir_map HT) \<and> all = total_of (dir_map HT))"

lemma close_and_fail_result:
  "close_and_fail flt fs = (rc, fs') \<Longrightarrow> same_dir fs fs' \<and> rc = -1"
  using plain_call_result(1) [of flt fs] by (auto simp: close_and_fail_def split: prod.splits)

lemma read_stream_sound:
  assumes "dir_inv hash HT" "dir_map HT = Map.empty"
  shows "\<exists>res fs'. read_stream flt hash ext n strm HT fs = Some (res, fs') \<and> same_dir fs fs' \<and> read_ok hash res"
proof -
  obtain r1 fs1 where r1: "fread flt 24 strm fs = (r1, fs1)" by fastforce
  note f1 = fread_result [OF r1]
  obtain rcc fsc where rc: "close_and_fail flt fs1 = (rcc, fsc)" by fastforce
  note c = close_and_fail_result [OF rc]
  show ?thesis
  proof (cases r1)
    case (Inl e)
    then show ?thesis using r1 rc same_dir_trans [OF f1(1)] c by (auto simp: read_stream_def)
  next
    case (Inr r)
    then obtain cse strm1 where r: "r1 = Inr (cse, strm1)" by (cases r) auto
    obtain res fs2 where r2: "read_chunks flt hash ext n strm1 HT chunks_stats_zero chunks_stats_zero fs1 =
        Some (res, fs2)" "same_dir fs1 fs2"
      and ok: "case res of None \<Rightarrow> True | Some (HT', uniq', all') \<Rightarrow>
         dir_inv hash HT' \<and> directory_ok (dir_map HT') \<and>
         uniq' = unique_of (dir_map HT') \<and> all' = total_of (dir_map HT') \<and> 48 * n \<le> length strm1"
      using read_chunks_sound [OF assms(1), of chunks_stats_zero chunks_stats_zero flt ext n strm1 fs1]
        assms(2) by auto
    have same2: "same_dir fs fs2" using same_dir_trans [OF f1(1) r2(2)] .
    show ?thesis
    proof (cases res)
      case None
      obtain rcd fsd where rd: "close_and_fail flt fs2 = (rcd, fsd)" by fastforce
      have "read_stream flt hash ext n strm HT fs = Some (None, fsd)"
        using r1 r r2 None rd by (simp add: read_stream_def)
      then show ?thesis using same_dir_trans [OF same2] close_and_fail_result [OF rd] by simp
    next
      case (Some res1)
      then obtain HT' uniq' all' where res: "res = Some (HT', uniq', all')" by (cases res1) auto
      obtain r3 fs3 where r3: "plain_call flt fs2 = (r3, fs3)" by fastforce
      have "read_stream flt hash ext n strm HT fs =
          Some (case r3 of Inl e \<Rightarrow> None | Inr _ \<Rightarrow> Some (HT', uniq', all', chunkstats_dec cse), fs3)"
        using r1 r r2 res r3 by (simp add: read_stream_def split: sum.split)
      then show ?thesis
        using same_dir_trans [OF same2 plain_call_result(1) [OF r3]] ok res by (auto split: sum.split)
    qed
  qed
qed

lemma read_file_sound:
  assumes "dir_inv hash HT" "dir_map HT = Map.empty"
  shows "\<exists>res fs'. read_file flt hash ext s st_size HT fs = Some (res, fs') \<and> same_dir fs fs' \<and> read_ok hash res"
proof (cases "st_size < 0 \<or> nat st_size < 24 \<or> (nat st_size - 24) mod 48 \<noteq> 0 \<or>
    (nat st_size - 24) div 48 \<ge> SIZE_MAX div 52")
  case True
  then show ?thesis by (auto simp: read_file_def)
next
  case False
  obtain r1 fs1 where r1: "plain_call flt fs = (r1, fs1)" by fastforce
  obtain r2 fs2 where r2: "fopen_r flt s fs1 = (r2, fs2)" by fastforce
  note s1 = plain_call_result(1) [OF r1]
  note s2 = same_dir_trans [OF s1 fopen_r_result(1) [OF r2]]
  show ?thesis
  proof (cases "\<exists>strm. r1 = Inr () \<and> r2 = Inr strm")
    case True
    then obtain strm where strm: "r1 = Inr ()" "r2 = Inr strm" by blast
    obtain res fs' where "read_stream flt hash ext ((nat st_size - 24) div 48) strm HT fs2 = Some (res, fs')"
      "same_dir fs2 fs'" "read_ok hash res"
      using read_stream_sound [OF assms] by blast
    then show ?thesis using r1 r2 strm False same_dir_trans [OF s2] by (simp add: read_file_def)
  next
    case no: False
    then show ?thesis using r1 r2 s1 s2 False
      by (cases r1; cases r2) (auto simp: read_file_def)
  qed
qed

lemma chunks_directory_read_sound:
  "\<exists>res fs'. chunks_directory_read flt hash entropy ext cachepath mustexist fs = Some (res, fs') \<and>
     same_dir fs fs' \<and> read_ok hash res"
proof -
  obtain m0 fs1 where m0: "mem_call flt fs = (m0, fs1)" by fastforce
  obtain m1 fs2 where m1: "mem_call flt fs1 = (m1, fs2)" by fastforce
  note s2 = same_dir_trans [OF mem_call_result(1) [OF m0] mem_call_result(1) [OF m1]]
  note defs = chunks_directory_read_def m0 m1
  show ?thesis
  proof (cases "rwhashtab_init (\<lambda>k. if k = 0 then m0 else m1) entropy 32 :: 'a chunkdata_scheme rwhashtab option")
    case None
    then show ?thesis using s2 by (simp add: defs)
  next
    case (Some HT)
    then have HT: "dir_inv hash HT" "dir_map HT = Map.empty" using rwhashtab_init_inv by blast+
    then have empty: "read_ok hash (Some (HT, chunks_stats_zero, chunks_stats_zero, chunks_stats_zero))"
      by simp
    show ?thesis
    proof (cases cachepath)
      case None
      then show ?thesis using s2 Some empty by (simp add: defs)
    next
      case path: (Some path)
      obtain r3 fs3 where r3: "plain_call flt fs2 = (r3, fs3)" by fastforce
      obtain r4 fs4 where r4: "stat_size flt (directory_path path []) fs3 = (r4, fs4)" by fastforce
      note s3 = same_dir_trans [OF s2 plain_call_result(1) [OF r3]]
      note s4 = same_dir_trans [OF s3 stat_size_result(1) [OF r4]]
      show ?thesis
      proof (cases "\<exists>n. r3 = Inr () \<and> r4 = Inr n")
        case True
        then obtain n where n: "r3 = Inr ()" "r4 = Inr n" by blast
        obtain res fs' where "read_file flt hash ext (directory_path path []) n HT fs4 = Some (res, fs')"
          "same_dir fs4 fs'" "read_ok hash res"
          using read_file_sound [OF HT] by blast
        then show ?thesis using r3 r4 n path Some same_dir_trans [OF s4] by (simp add: defs)
      next
        case False
        then show ?thesis using r3 r4 s3 s4 path Some empty
          by (cases r3; cases r4) (auto simp: defs)
      qed
    qed
  qed
qed

lemma length_directory_file:
  "\<forall>r\<in>set rs. chunk_wf r \<Longrightarrow> length (directory_file st rs) = 24 + 48 * length rs"
  by (induction rs) (auto simp: directory_file_def length_chunkdata_enc)

lemma read_of_directory_file:
  fixes rs :: "'b chunkdata_scheme list"
  assumes "fs_names fs (directory_path path []) = Some f"
    and "fs_node fs f = Some (Regular (directory_file st rs) s)"
    and rs: "\<forall>r\<in>set rs. chunk_wf r \<and> cd_nrefs r \<noteq> 0" "distinct (map cd_hash rs)" "length rs \<le> 2 ^ 48"
  shows "\<exists>HT fs'. chunks_directory_read no_fault hash (Some randbuf) ext (Some path) mustexist fs =
      Some (Some (HT, unique_of (dir_map HT), total_of (dir_map HT), st), fs') \<and>
    dir_inv hash HT \<and> directory_ok (dir_map HT) \<and>
    dir_map HT = map_of (map (\<lambda>r. (cd_hash r, stored ext r)) rs)"
proof -
  obtain m0 fs1 where m0: "mem_call no_fault fs = (m0, fs1)" by fastforce
  obtain m1 fs2 where m1: "mem_call no_fault fs1 = (m1, fs2)" by fastforce
  obtain r3 fs3 where r3: "plain_call no_fault fs2 = (r3, fs3)" by fastforce
  let ?p = "directory_path path []" and ?d = "directory_file st rs"
  obtain r4 fs4 where r4: "stat_size no_fault ?p fs3 = (r4, fs4)" by fastforce
  obtain r5 fs5 where r5: "plain_call no_fault fs4 = (r5, fs5)" by fastforce
  obtain r6 fs6 where r6: "fopen_r no_fault ?p fs5 = (r6, fs6)" by fastforce
  obtain r7 fs7 where r7: "fread no_fault 24 ?d fs6 = (r7, fs7)" by fastforce
  note s2 = same_dir_trans [OF mem_call_result(1) [OF m0] mem_call_result(1) [OF m1]]
  note s3 = same_dir_trans [OF s2 plain_call_result(1) [OF r3]]
  note s4 = same_dir_trans [OF s3 stat_size_result(1) [OF r4]]
  note s5 = same_dir_trans [OF s4 plain_call_result(1) [OF r5]]
  obtain HT0 :: "'a chunkdata_scheme rwhashtab" where
    HT0: "rwhashtab_init (\<lambda>k. if k = 0 then m0 else m1) (Some randbuf) 32 = Some HT0"
    using mem_call_result(2) [OF m0] mem_call_result(2) [OF m1] by (simp add: rwhashtab_init_def)
  have init: "dir_inv hash HT0" "dir_map HT0 = Map.empty" "ht_numentries HT0 = 0" "ht_tight HT0"
    using rwhashtab_init_inv [OF HT0] rwhashtab_init_tight [OF HT0] by blast+
  have len: "length ?d = 24 + 48 * length rs" using rs(1) by (intro length_directory_file) auto
  have v3: "r3 = Inr ()" "r5 = Inr ()"
    using plain_call_result(2) [OF r3] plain_call_result(2) [OF r5] by auto
  have v4: "r4 = Inr (int (length ?d))"
    using stat_size_result(5) [OF r4 refl] assms(1,2) same_dirD [OF s3] by simp
  have v6: "r6 = Inr ?d"
    using fopen_r_result(3) [OF r6 refl] assms(1,2) same_dirD [OF s5] by simp
  have v7: "r7 = Inr (chunkstats_enc st, concat (map chunkdata_enc rs))"
    using fread_result(3) [OF r7 refl] by (simp add: directory_file_def)
  obtain HT uniq all fs8 where r8:
    "read_chunks no_fault hash ext (length rs) (concat (map chunkdata_enc rs) @ []) HT0
       chunks_stats_zero chunks_stats_zero fs7 = Some (Some (HT, uniq, all), fs8)"
    and map: "dir_map HT = dir_map HT0 ++ map_of (map (\<lambda>r. (cd_hash r, stored ext r)) rs)"
    using read_chunks_complete [OF init(1,4), of rs ext "[]" chunks_stats_zero chunks_stats_zero fs7]
      rs init(2,3) by auto
  obtain r9 fs9 where r9: "plain_call no_fault fs8 = (r9, fs9)" by fastforce
  then have v9: "r9 = Inr ()" using plain_call_result(2) by blast
  have stream: "read_stream no_fault hash ext (length rs) ?d HT0 fs6 = Some (Some (HT, uniq, all, st), fs9)"
    using r7 v7 r8 r9 v9 by (simp add: read_stream_def)
  have sizes: "\<not> int (length ?d) < 0" "nat (int (length ?d)) = 24 + 48 * length rs"
    "length rs < SIZE_MAX div 52" using len rs(3) by simp_all
  have "read_file no_fault hash ext ?p (int (length ?d)) HT0 fs4 = Some (Some (HT, uniq, all, st), fs9)"
    unfolding read_file_def sizes(2) using sizes(1,3) r5 v3 r6 v6 stream by simp
  then have "chunks_directory_read no_fault hash (Some randbuf) ext (Some path) mustexist fs =
      Some (Some (HT, uniq, all, st), fs9)"
    using m0 m1 HT0 r3 v3 r4 v4 by (simp add: chunks_directory_read_def)
  moreover from this have "read_ok hash (Some (HT, uniq, all, st))"
    using chunks_directory_read_sound [of no_fault hash "Some randbuf" ext "Some path" mustexist fs] by simp
  ultimately show ?thesis using map init(2) by simp
qed

text \<open>The directory that is left of \<open>m\<close> once it has been written and read back.\<close>

definition reloaded :: "'b \<Rightarrow> (bytes \<Rightarrow> 'a chunkdata_scheme option) \<Rightarrow> bytes \<Rightarrow> 'b chunkdata_scheme option" where
  "reloaded ext m k =
     (case m k of None \<Rightarrow> None | Some ch \<Rightarrow> if cd_nrefs ch = 0 then None else Some (stored ext ch))"

lemma map_of_live:
  assumes "dir_inv hash HT"
  shows "map_of (map (\<lambda>r. (cd_hash r, stored ext r)) (live (somes (ht_ht HT)))) = reloaded ext (dir_map HT)"
proof
  fix k
  let ?rs = "live (somes (ht_ht HT))"
  have "distinct (map cd_hash (somes (ht_ht HT)))" using assms by (simp add: ht_inv_def tab_ok_def)
  then have "distinct (map cd_hash ?rs)" by (rule distinct_map_filter)
  then have eq: "map_of (map (\<lambda>r. (cd_hash r, stored ext r)) ?rs) k = Some x \<longleftrightarrow>
      (\<exists>r\<in>set ?rs. cd_hash r = k \<and> x = stored ext r)" for x
    by (subst map_of_eq_Some_iff) (auto simp: comp_def)
  have looked: "(\<exists>r\<in>set ?rs. cd_hash r = k \<and> x = stored ext r) \<longleftrightarrow>
      (\<exists>r. dir_map HT k = Some r \<and> cd_nrefs r \<noteq> 0 \<and> x = stored ext r)" for x
    unfolding ht_map_Some [OF assms] by auto
  have reload: "(\<exists>r. dir_map HT k = Some r \<and> cd_nrefs r \<noteq> 0 \<and> x = stored ext r) \<longleftrightarrow>
      reloaded ext (dir_map HT) k = Some x" for x
    by (auto simp: reloaded_def split: option.splits)
  have "map_of (map (\<lambda>r. (cd_hash r, stored ext r)) ?rs) k = Some x \<longleftrightarrow>
      reloaded ext (dir_map HT) k = Some x" for x
    by (simp only: eq looked reload)
  then show "map_of (map (\<lambda>r. (cd_hash r, stored ext r)) ?rs) k = reloaded ext (dir_map HT) k"
    by (rule option_eqI)
qed

section \<open>Properties\<close>

text \<open>C15: Reading the chunk directory of the cache always ends, never changes the cache, and
  whatever the file holds and whichever calls fail, a directory that is accepted is well formed:
  a legal hash table in which every record is stored under its own 32-byte hash, has nonzero
  length, compressed length and reference count and no flag bit, and the unique and total
  statistics are the sums over its records, modulo \<open>2 ^ 64\<close>.\<close>

theorem directory_read_sound:
  "\<exists>res fs'. chunks_directory_read flt hash entropy ext cachepath mustexist fs = Some (res, fs') \<and>
     same_dir fs fs' \<and>
     (case res of None \<Rightarrow> True | Some (HT, uniq, all, extra) \<Rightarrow>
        ht_inv hash cd_hash HT \<and> directory_ok (ht_map cd_hash HT) \<and>
        uniq = stats_of (\<lambda>_. 1) (ht_map cd_hash HT) \<and>
        all = stats_of (\<lambda>ch. ucast (cd_ncopies ch)) (ht_map cd_hash HT))"
  by (rule chunks_directory_read_sound)

text \<open>C13: The life of a chunk directory: what is written as \<^verbatim>\<open>directory.tmp\<close> and committed is what
  the next run reads, through any number of failed commit attempts and power failures on the way (where the file system has
  hard links or renames atomically): the same extra statistics, and exactly the records with a nonzero reference count, without their
  in-core flags.\<close>

theorem directory_write_commit_read:
  fixes HT :: "'a chunkdata_scheme rwhashtab"
  assumes "ht_inv hash cd_hash HT" "\<forall>k ch. ht_map cd_hash HT k = Some ch \<longrightarrow> chunk_wf ch"
    "ht_numentries HT \<le> 2 ^ 48"
    and "chunks_directory_write flt path HT st ''.tmp'' fs = (0, fs1)"
    and "commit_history path ''.tmp'' [] fs1 fs2"
    and "chunks_transaction_commit flt2 path fs2 = (0, fs3)"
  shows "\<exists>HT' fs4. chunks_directory_read no_fault hash2 (Some randbuf) ext (Some path) mustexist fs3 =
      Some (Some (HT', unique_of (ht_map cd_hash HT'), total_of (ht_map cd_hash HT'), st), fs4) \<and>
    ht_map cd_hash HT' = reloaded ext (ht_map cd_hash HT)"
proof -
  let ?t = "directory_path path ''.tmp''" and ?s = "directory_path path []"
  let ?rs = "live (somes (ht_ht HT))"
  let ?d = "directory_file st ?rs"
  obtain f where f: "fs_names fs1 ?t = Some f" "crash_views fs1 = {fs_names fs1}"
    "fs_node fs1 f = Some (Regular ?d ?d)"
    using chunks_directory_write_spec [OF assms(4)] by (auto simp: Let_def)
  have "commit_inv ?s ?t f fs1" using f by (simp add: commit_inv_def phase_tmp_def)
  with assms(5) f(3) have inv: "commit_inv ?s ?t f fs2" "fs_node fs2 f = Some (Regular ?d ?d)"
    using commit_history_inv [of path "''.tmp''" "[]" fs1 fs2 f ?d] by auto
  have "commit_step_ok ?s ?t f flt2 fs2 (chunks_directory_commit flt2 path ''.tmp'' [] fs2)"
    using inv(1) by (intro chunks_directory_commit_ok) simp_all
  then have fin: "fs_names fs3 ?s = Some f" "fs_node fs3 f = Some (Regular ?d ?d)"
    using assms(6) inv(2)
    by (auto simp: chunks_transaction_commit_def commit_step_ok_def split: prod.splits if_splits)
  have keys: "distinct (map cd_hash (somes (ht_ht HT)))"
    using assms(1) by (simp add: ht_inv_def tab_ok_def)
  have "\<forall>r\<in>set ?rs. chunk_wf r \<and> cd_nrefs r \<noteq> 0"
    using assms(2) ht_map_Some [OF assms(1)] by auto
  moreover have "distinct (map cd_hash ?rs)" using keys by (rule distinct_map_filter)
  moreover have "length ?rs \<le> 2 ^ 48"
    using assms(1,3) by (intro order_trans [OF length_filter_le]) (simp add: ht_inv_def)
  ultimately obtain HT' fs4 where
    "chunks_directory_read no_fault hash2 (Some randbuf) ext (Some path) mustexist fs3 =
      Some (Some (HT', unique_of (dir_map HT'), total_of (dir_map HT'), st), fs4)"
    "dir_map HT' = map_of (map (\<lambda>r. (cd_hash r, stored ext r)) ?rs)"
    using read_of_directory_file [OF fin, of hash2 randbuf ext mustexist] by blast
  then show ?thesis using map_of_live [OF assms(1)] by auto
qed

text \<open>A directory with one chunk of the current archive.\<close>

definition sample_chunk :: chunkdata where
  "sample_chunk = \<lparr>cd_hash = replicate 32 1, cd_len = 10, cd_zlen_flags = 7 OR CHDATA_CTAPE,
     cd_nrefs = 1, cd_ncopies = 2\<rparr>"

definition sample_dir :: "chunkdata rwhashtab" where
  "sample_dir = \<lparr>ht_cursize = 4, ht_numentries = 1,
     ht_ht = [Some sample_chunk, None, None, None], ht_randbuf = [7]\<rparr>"

lemma sample_dir_inv: "dir_inv sample_hash sample_dir"
proof -
  let ?H = "\<lparr>ht_cursize = 4, ht_numentries = 0, ht_ht = replicate 4 None, ht_randbuf = [7]\<rparr> :: chunkdata rwhashtab"
  have "rwhashtab_init mem_ok (Some [7]) 32 = Some ?H" by (simp add: rwhashtab_init_def)
  then have inv: "dir_inv sample_hash ?H" using rwhashtab_init_inv by blast
  have "rwhashtab_insert True sample_hash cd_hash ?H sample_chunk = Some (0, sample_dir)"
    by (simp add: rwhashtab_insert_def rwhashtab_insert_nogrow_def rwhashtab_search_def
        sample_dir_def replicate_4_None drop_bit_eq_div)
  then show ?thesis using ht.ins_preserves_inv [OF inv] by blast
qed

lemma sample_chunk_wf: "chunk_wf sample_chunk" "cd_zlen sample_chunk = 7"
  by (simp_all add: chunk_wf_def sample_chunk_def) (simp_all add: zlen_eq_mask mask_eq_exp_minus_1)

lemma sample_dir_map: "dir_map sample_dir = [replicate 32 1 \<mapsto> sample_chunk]"
  by (simp add: ht_map_def sample_dir_def sample_chunk_def)

theorem directory_write_commit_read_witness:
  "\<exists>fs1 fs3 HT' st fs4. chunks_directory_write no_fault ''c'' sample_dir chunks_stats_zero ''.tmp'' empty_fs = (0, fs1) \<and>
     chunks_transaction_commit no_fault ''c'' fs1 = (0, fs3) \<and>
     chunks_directory_read no_fault sample_hash (Some [7]) () (Some ''c'') True fs3 =
       Some (Some (HT', st, total_of (ht_map cd_hash HT'), chunks_stats_zero), fs4) \<and>
     ht_map cd_hash HT' (replicate 32 1) = Some (stored () sample_chunk)"
proof -
  have "fst (chunks_directory_write no_fault ''c'' sample_dir chunks_stats_zero ''.tmp'' empty_fs) = 0"
    by (rule chunks_directory_write_succeeds) (simp add: empty_fs_def fs_names_def)
  then obtain fs1 where w: "chunks_directory_write no_fault ''c'' sample_dir chunks_stats_zero ''.tmp'' empty_fs = (0, fs1)"
    by (metis prod.collapse)
  obtain f where "fs_names fs1 (directory_path ''c'' ''.tmp'') = Some f" "crash_views fs1 = {fs_names fs1}"
    using chunks_directory_write_spec [OF w] by blast
  then have "commit_inv (directory_path ''c'' []) (directory_path ''c'' ''.tmp'') f fs1"
    by (simp add: commit_inv_def phase_tmp_def)
  then have "commit_step_ok (directory_path ''c'' []) (directory_path ''c'' ''.tmp'') f no_fault fs1
      (chunks_directory_commit no_fault ''c'' ''.tmp'' [] fs1)"
    by (intro chunks_directory_commit_ok) simp_all
  then obtain fs3 where c: "chunks_transaction_commit no_fault ''c'' fs1 = (0, fs3)"
    by (auto simp: chunks_transaction_commit_def commit_step_ok_def split: prod.splits)
  have wf: "\<forall>k ch. ht_map cd_hash sample_dir k = Some ch \<longrightarrow> chunk_wf ch"
    using sample_chunk_wf by (auto simp: sample_dir_map split: if_splits)
  obtain HT' fs4 where
    "chunks_directory_read no_fault sample_hash (Some [7]) () (Some ''c'') True fs3 =
       Some (Some (HT', unique_of (ht_map cd_hash HT'), total_of (ht_map cd_hash HT'), chunks_stats_zero), fs4)"
    "ht_map cd_hash HT' = reloaded () (ht_map cd_hash sample_dir)"
    using directory_write_commit_read [OF sample_dir_inv wf _ w commit_history.start c,
        of sample_hash "[7]" "()" True] by (auto simp: sample_dir_def)
  then show ?thesis using w c by (auto simp: reloaded_def sample_dir_map sample_chunk_def)
qed

end
