(* ===== verification/Padme.thy ===== *)
theory Padme
  imports Prelude
begin

text \<open>
  The padding of compressed chunks, \<^verbatim>\<open>padme\<close> of \<^verbatim>\<open>tar/chunks/chunks_write.c\<close>: lengths are
  rounded up to a number with few significant bits, so that a chunk file leaks little of the
  length of its contents.
\<close>

text \<open>The two search loops of the code; they have no bound there.\<close>

function padme_e :: "nat \<Rightarrow> nat \<Rightarrow> nat" where
  "padme_e len e = (if drop_bit e len < 2 then e else padme_e len (e + 1))"
  by pat_completeness auto
termination
proof (relation "measure (\<lambda>(len, e). drop_bit e len)")
  fix len e :: nat
  assume "\<not> drop_bit e len < 2"
  moreover have "drop_bit (e + 1) len = drop_bit e len div 2"
    using drop_bit_Suc_half by simp
  ultimately show "((len, e + 1), len, e) \<in> measure (\<lambda>(len, e). drop_bit e len)" by simp
qed simp

function padme_s :: "nat \<Rightarrow> nat \<Rightarrow> nat" where
  "padme_s e s = (if drop_bit s e = 0 then s else padme_s e (s + 1))"
  by pat_completeness auto
termination
proof (relation "measure (\<lambda>(e, s). drop_bit s e)")
  fix e s :: nat
  assume "drop_bit s e \<noteq> 0"
  moreover have "drop_bit (s + 1) e = drop_bit s e div 2"
    using drop_bit_Suc_half by simp
  ultimately show "((e, s + 1), e, s) \<in> measure (\<lambda>(e, s). drop_bit s e)" by simp
qed simp

declare padme_e.simps [simp del] padme_s.simps [simp del]

text \<open>
  The mask is computed in \<^verbatim>\<open>int\<close>, 32 bits wide, and converted to \<^verbatim>\<open>size_t\<close>.  In C the shift is undefined
  from 31 on, which takes a length of \<open>2 ^ 37\<close> or more; the words wrap there, and no lemma speaks about it.
\<close>

definition padme_bitmask :: "nat \<Rightarrow> nat \<Rightarrow> u64" where
  "padme_bitmask e s = scast (push_bit (e - s) (1 :: 32 word) - 1)"

definition padme :: "nat \<Rightarrow> nat \<Rightarrow> nat" where
  "padme len maxlen =
     (if len \<le> 8 then 0
      else let e = padme_e len 0;
               s = padme_s e 1;
               bitmask = padme_bitmask e s;
               plen = unat ((of_nat len + bitmask) AND NOT bitmask);
               plen = (if plen > maxlen then maxlen else plen)
           in plen - len)"

subsection \<open>Lemmas\<close>

lemma padme_e_log:
  "2 ^ a \<le> len \<Longrightarrow> 2 ^ padme_e len a \<le> len \<and> len < 2 ^ (padme_e len a + 1) \<and> a \<le> padme_e len a"
proof (induction len a rule: padme_e.induct)
  case (1 len e)
  have pos: "0 < (2::nat) ^ e" by simp
  show ?case
  proof (cases "drop_bit e len < 2")
    case True
    then have "len < 2 * 2 ^ e" using pos by (simp add: drop_bit_eq_div div_less_iff_less_mult)
    then show ?thesis using True 1(2) by (subst (1 2 3) padme_e.simps) simp
  next
    case False
    then have "2 * 2 ^ e \<le> len" using pos by (simp add: drop_bit_eq_div not_less less_eq_div_iff_mult_less_eq)
    then show ?thesis using 1(1) False by (subst (1 2 3) padme_e.simps) simp
  qed
qed

lemma padme_s_log:
  "a = 0 \<or> 2 ^ (a - 1) \<le> e \<Longrightarrow> e < 2 ^ padme_s e a \<and> a \<le> padme_s e a \<and>
     (padme_s e a = a \<or> 2 ^ (padme_s e a - 1) \<le> e)"
proof (induction e a rule: padme_s.induct)
  case (1 e s)
  show ?case
  proof (cases "drop_bit s e = 0")
    case True
    then show ?thesis by (subst (1 2 3 4) padme_s.simps) (simp add: drop_bit_eq_div div_eq_0_iff)
  next
    case False
    then have "2 ^ s \<le> e" by (simp add: drop_bit_eq_div div_eq_0_iff)
    then show ?thesis using 1(1) False by (subst (1 2 3 4) padme_s.simps) auto
  qed
qed

lemma padme_bitmask_is_mask: "e < 31 + s \<Longrightarrow> padme_bitmask e s = mask (e - s)"
  unfolding padme_bitmask_def mask_eq_exp_minus_1 [symmetric] push_bit_eq_mult mult_1
  by (rule bit_word_eqI) (auto simp: bit_simps)

text \<open>Masking is rounding up to a multiple of a power of two.\<close>

lemma and_not_mask: "unat ((w :: u64) AND NOT (mask k)) = unat w - unat w mod 2 ^ k"
proof -
  have "w AND NOT (mask k) = push_bit k (drop_bit k w)"
    by (rule bit_word_eqI) (auto simp: bit_simps)
  then have "w AND NOT (mask k) = w - take_bit k w"
    using bits_ident [of k w] by (metis add_diff_cancel)
  moreover have "unat (take_bit k w) = unat w mod 2 ^ k"
    by (simp only: unsigned_take_bit_eq) (simp add: take_bit_eq_mod)
  ultimately show ?thesis by (simp add: unat_sub word_le_nat_alt)
qed

lemma round_up_bounds:
  assumes "0 < (m::nat)"
  shows "n \<le> (n + (m - 1)) div m * m" "(n + (m - 1)) div m * m < n + m"
proof -
  have "(n + (m - 1)) div m * m + (n + (m - 1)) mod m = n + (m - 1)" by simp
  moreover have "(n + (m - 1)) mod m < m" using assms by simp
  ultimately show "n \<le> (n + (m - 1)) div m * m" "(n + (m - 1)) div m * m < n + m"
    using assms by linarith+
qed

text \<open>What the code computes, without words: round up to a multiple of \<open>2 ^ (e - s)\<close>.\<close>

lemma padme_nat:
  assumes "8 < len" "len \<le> maxlen" "maxlen < 2 ^ 37"
  obtains e s L where "2 ^ e \<le> len" "len < 2 ^ (e + 1)" "e < 2 ^ s" "2 ^ (s - 1) \<le> e" "s \<le> e"
    "len \<le> L" "L < len + 2 ^ (e - s)" "2 ^ (e - s) dvd L" "padme len maxlen = min L maxlen - len"
proof -
  define e where "e = padme_e len 0"
  define s where "s = padme_s e 1"
  define m :: nat where "m = 2 ^ (e - s)"
  have e: "2 ^ e \<le> len" "len < 2 ^ (e + 1)"
    using padme_e_log [of 0 len] assms(1) by (simp_all add: e_def)
  have e3: "3 \<le> e"
  proof (rule ccontr)
    assume "\<not> 3 \<le> e"
    then have "(2::nat) ^ (e + 1) \<le> 2 ^ 3" by (intro power_increasing) auto
    with e(2) assms(1) show False by simp
  qed
  have s: "e < 2 ^ s" "1 \<le> s" "2 ^ (s - 1) \<le> e"
    using padme_s_log [of 1 e] e3 by (auto simp: s_def)
  have "s \<le> e"
  proof (rule ccontr)
    assume "\<not> s \<le> e"
    then have "(2::nat) ^ e \<le> 2 ^ (s - 1)" by (intro power_increasing) auto
    also note s(3)
    finally show False using less_exp [of e] by (simp del: less_exp)
  qed
  have "e < 37"
  proof (rule ccontr)
    assume "\<not> e < 37"
    then have "(2::nat) ^ 37 \<le> 2 ^ e" by (intro power_increasing) auto
    with e(1) assms(2,3) show False by simp
  qed
  have "e < 31 + s"
  proof (rule ccontr)
    assume a: "\<not> e < 31 + s"
    with \<open>e < 37\<close> have "(2::nat) ^ s \<le> 2 ^ 5" by (intro power_increasing) auto
    with s(1) a s(2) show False by simp
  qed
  note mask = padme_bitmask_is_mask [OF this]
  have "m \<le> 2 ^ e" unfolding m_def by (rule power_increasing) simp_all
  then have m_le: "m \<le> len" using e(1) by simp
  then have small: "len + (m - 1) < 2 ^ 64" using assms(2,3) by simp
  have "mask (e - s) = (of_nat (m - 1) :: u64)" by (simp add: m_def mask_eq_exp_minus_1 of_nat_diff)
  then have "(of_nat len :: u64) + mask (e - s) = of_nat (len + (m - 1))" by (simp only: of_nat_add)
  then have "unat (((of_nat len :: u64) + padme_bitmask e s) AND NOT (padme_bitmask e s)) =
      (len + (m - 1)) - (len + (m - 1)) mod m"
    unfolding mask and_not_mask using small by (simp add: unat_of_nat m_def)
  also have "\<dots> = (len + (m - 1)) div m * m" by (simp add: minus_mod_eq_div_mult)
  finally have plen: "unat (((of_nat len :: u64) + padme_bitmask e s) AND NOT (padme_bitmask e s)) = (len + (m - 1)) div m * m" .
  define L where "L = (len + (m - 1)) div m * m"
  have "padme len maxlen = (if L > maxlen then maxlen else L) - len"
    unfolding padme_def Let_def e_def [symmetric] s_def [symmetric] plen L_def [symmetric]
    using assms(1) by (intro if_not_P) simp
  then have pad: "padme len maxlen = min L maxlen - len" by (simp add: min_def)
  have "0 < m" by (simp add: m_def)
  then have "len \<le> L" "L < len + m" unfolding L_def by (rule round_up_bounds)+
  moreover have "m dvd L" by (simp add: L_def)
  ultimately show thesis using that e s \<open>s \<le> e\<close> pad unfolding m_def by blast
qed

lemma padme_le:
  assumes "len \<le> maxlen" "maxlen < 2 ^ 37"
  shows "len + padme len maxlen \<le> maxlen"
proof (cases "8 < len")
  case True
  obtain L where "len \<le> L" "padme len maxlen = min L maxlen - len"
    using padme_nat [OF True assms] by metis
  then show ?thesis using assms(1) by (simp add: min_def)
qed (use assms in \<open>simp add: padme_def\<close>)

section \<open>Properties\<close>

text \<open>C39: Padding never exceeds the buffer and costs little: for a length of \<open>e + 1\<close> bits it adds
  less than a fraction \<open>1 / (e + 1)\<close> of the length, and none at all up to 8 bytes.  This is for buffers below
  \<open>2 ^ 37\<close> bytes, where the shift of the mask is defined; the program's are shorter than \<open>2 ^ 31\<close>.\<close>

theorem padme_overhead:
  assumes "0 < len" "len \<le> maxlen" "maxlen < 2 ^ 37"
  shows "len + padme len maxlen \<le> maxlen \<and>
    (\<forall>e. 2 ^ e \<le> len \<longrightarrow> padme len maxlen * (e + 1) < len)"
proof (intro conjI allI impI)
  show "len + padme len maxlen \<le> maxlen" using assms(2,3) by (rule padme_le)
  fix a assume a: "2 ^ a \<le> len"
  show "padme len maxlen * (a + 1) < len"
  proof (cases "8 < len")
    case False
    then show ?thesis using assms(1) by (simp add: padme_def)
  next
    case True
    obtain e s L where esl: "2 ^ e \<le> len" "len < 2 ^ (e + 1)" "e < 2 ^ s" "s \<le> e"
      "len \<le> L" "L < len + 2 ^ (e - s)" "padme len maxlen = min L maxlen - len"
      using padme_nat [OF True assms(2,3)] by metis
    have "(2::nat) ^ a < 2 ^ (e + 1)" using a esl(2) by simp
    then have "a < e + 1" by (rule power_less_imp_less_exp [rotated]) simp
    then have ae: "a \<le> e" by simp
    have "padme len maxlen \<le> L - len" using esl(7) by simp
    also have "\<dots> < 2 ^ (e - s)" using esl(5,6) by linarith
    finally have pad: "padme len maxlen < 2 ^ (e - s)" .
    have "padme len maxlen * (a + 1) \<le> padme len maxlen * 2 ^ s"
      using ae esl(3) by (intro mult_le_mono) auto
    also have "\<dots> < 2 ^ (e - s) * 2 ^ s" using pad by simp
    also have "\<dots> = 2 ^ e" using esl(4) by (simp flip: power_add)
    also have "\<dots> \<le> len" using esl(1) .
    finally show ?thesis .
  qed
qed

theorem padme_overhead_witness: "1000 + padme 1000 2000 \<le> 2000 \<and> padme 1000 2000 * 10 < 1000"
  using padme_overhead [of 1000 2000] by (auto dest: spec [of _ 9])

text \<open>The padded length is a multiple of \<open>2 ^ (e - s)\<close>, where \<open>e + 1\<close> is the number of bits of
  the length and \<open>s\<close> the number of bits of \<open>e\<close>, or the whole buffer: at most \<open>s + 1\<close> bits of
  the length of a chunk can be seen in the length of its file.\<close>

theorem padme_quantised:
  assumes "8 < len" "len \<le> maxlen" "maxlen < 2 ^ 37"
  shows "\<exists>e s. 2 ^ e \<le> len \<and> len < 2 ^ (e + 1) \<and> 2 ^ (s - 1) \<le> e \<and> e < 2 ^ s \<and> s \<le> e \<and>
    (len + padme len maxlen = maxlen \<or>
     2 ^ (e - s) dvd len + padme len maxlen \<and> padme len maxlen < 2 ^ (e - s))"
proof -
  obtain e s L where esl: "2 ^ e \<le> len" "len < 2 ^ (e + 1)" "2 ^ (s - 1) \<le> e" "e < 2 ^ s" "s \<le> e"
    "len \<le> L" "L < len + 2 ^ (e - s)" "2 ^ (e - s) dvd L" "padme len maxlen = min L maxlen - len"
    using padme_nat [OF assms] by metis
  have "len + padme len maxlen = maxlen \<or>
      2 ^ (e - s) dvd len + padme len maxlen \<and> padme len maxlen < 2 ^ (e - s)"
  proof (cases "L \<le> maxlen")
    case True
    then have "len + padme len maxlen = L" using esl(6,9) by simp
    then show ?thesis using esl(7,8) by simp
  next
    case False
    then show ?thesis using esl(9) assms(2) by simp
  qed
  then show ?thesis using esl(1-5) by blast
qed

theorem padme_quantised_witness: "\<exists>e s. 2 ^ e \<le> (1000::nat) \<and> 1000 < (2::nat) ^ (e + 1) \<and> s \<le> e \<and>
    (1000 + padme 1000 2000 = 2000 \<or> 2 ^ (e - s) dvd 1000 + padme 1000 2000)"
  using padme_quantised [of 1000 2000] by auto

end
