(* ===== verification/Chunks_Write.thy ===== *)
theory Chunks_Write
  imports Chunks_Directory Padme
begin

text \<open>
  \<^verbatim>\<open>tar/chunks/chunks_write.c\<close>: write transactions of the chunk layer.  Parameters: \<open>hash\<close> is
  the keyed hash of the hash table, \<open>compress2\<close> is zlib's function (the capacity of the buffer and
  the input give an error code or the output), \<open>wfile\<close> is \<^verbatim>\<open>storage_write_file\<close> on the state of
  the storage layer.  The outer \<^const>\<open>None\<close> is a call that does not return: a failed \<^verbatim>\<open>assert\<close> or an
  endless probe loop.
\<close>

record chunks_w =
  cw_maxlen :: nat
  cw_zbuflen :: nat
  cw_HT :: "chunkdata rwhashtab"
  cw_path :: "string option"
  cw_S :: bool   \<comment> \<open>whether there is a storage layer cookie; \<open>False\<close> is a dry run\<close>
  cw_stats_total :: chunkstats
  cw_stats_unique :: chunkstats
  cw_stats_extra :: chunkstats
  cw_stats_extra_copy :: chunkstats
  cw_stats_tape :: chunkstats
  cw_stats_new :: chunkstats
  cw_stats_tapee :: chunkstats

type_synonym 's wfile = "'s \<Rightarrow> bytes \<Rightarrow> char \<Rightarrow> bytes \<Rightarrow> int \<times> 's"
type_synonym compress2 = "nat \<Rightarrow> bytes \<Rightarrow> int + bytes"

definition chunks_write_start :: "fault \<Rightarrow> (bytes \<Rightarrow> bytes) \<Rightarrow> bytes option \<Rightarrow> string option \<Rightarrow> bool
    \<Rightarrow> nat \<Rightarrow> fs \<Rightarrow> (chunks_w option \<times> fs) option" where
  "chunks_write_start flt hash entropy cachepath S maxchunksize fs =
     (if maxchunksize = 0 \<or> maxchunksize > SIZE_MAX div 2 then Some (None, fs)
      else case mem_call flt fs of (m0, fs) \<Rightarrow>
        if \<not> m0 then Some (None, fs)
        else case mem_call flt fs of (m1, fs) \<Rightarrow>
        if \<not> m1 then Some (None, fs)
        else case (case cachepath of None \<Rightarrow> (True, fs) | Some p \<Rightarrow> mem_call flt fs) of (m2, fs) \<Rightarrow>
        if \<not> m2 then Some (None, fs)
        else case chunks_directory_read flt hash entropy () cachepath False fs of
               None \<Rightarrow> None
             | Some (None, fs) \<Rightarrow> Some (None, fs)
             | Some (Some (HT, uniq, all, extra), fs) \<Rightarrow>
                 Some (Some \<lparr>cw_maxlen = maxchunksize,
                   cw_zbuflen = maxchunksize + maxchunksize div 1000 + 13,
                   cw_HT = HT, cw_path = cachepath, cw_S = S,
                   cw_stats_total = all, cw_stats_unique = uniq, cw_stats_extra = extra,
                   cw_stats_extra_copy = chunks_stats_zero,
                   cw_stats_tape = chunks_stats_zero, cw_stats_new = chunks_stats_zero,
                   cw_stats_tapee = chunks_stats_zero\<rparr>, fs))"

text \<open>A chunk that is there already is used once more by the current archive.\<close>

definition chunk_use :: "chunkdata \<Rightarrow> chunkdata" where
  "chunk_use ch =
     (let ch = ch\<lparr>cd_ncopies := cd_ncopies ch + 1\<rparr>
      in if cd_zlen_flags ch AND CHDATA_CTAPE = 0
         then ch\<lparr>cd_nrefs := cd_nrefs ch + 1, cd_zlen_flags := cd_zlen_flags ch OR CHDATA_CTAPE\<rparr>
         else ch)"

definition chunks_write_use :: "(bytes \<Rightarrow> bytes) \<Rightarrow> chunks_w \<Rightarrow> chunkdata \<Rightarrow> chunks_w" where
  "chunks_write_use hash C ch =
     C\<lparr>cw_stats_total := chunks_stats_add (cw_stats_total C) (ucast (cd_len ch)) (ucast (cd_zlen ch)) 1,
       cw_stats_tape := chunks_stats_add (cw_stats_tape C) (ucast (cd_len ch)) (ucast (cd_zlen ch)) 1,
       cw_HT := rwhashtab_update hash cd_hash (cw_HT C) (chunk_use ch)\<rparr>"

definition chunk_new :: "bytes \<Rightarrow> nat \<Rightarrow> nat \<Rightarrow> chunkdata" where
  "chunk_new h buflen zlen =
     \<lparr>cd_hash = take 32 h, cd_len = of_nat buflen,
      cd_zlen_flags = of_nat zlen OR CHDATA_MALLOC OR CHDATA_CTAPE, cd_nrefs = 1, cd_ncopies = 1\<rparr>"

definition chunks_write_new :: "mem \<Rightarrow> (bytes \<Rightarrow> bytes) \<Rightarrow> compress2 \<Rightarrow> 's wfile \<Rightarrow> chunks_w \<Rightarrow> bytes
    \<Rightarrow> bytes \<Rightarrow> 's \<Rightarrow> (int \<times> chunks_w \<times> 's) option" where
  "chunks_write_new ma hash compress2 wfile C h buf s =
     (case compress2 (cw_zbuflen C) buf of
        Inl rc \<Rightarrow> Some (-1, C, s)
      | Inr zbuf \<Rightarrow>
     (if length zbuf > SSIZE_MAX then Some (-1, C, s)
      else
        let padlen = padme (length zbuf) (cw_zbuflen C);
            zbuf = zbuf @ replicate padlen 0;
            zlen = length zbuf
        in
     (case (if cw_S C then wfile s zbuf (CHR ''c'') h else (0, s)) of (rc, s) \<Rightarrow>
        if rc \<noteq> 0 then Some (-1, C, s)
        else if \<not> ma 0 then Some (-1, C, s)
        else let ch = chunk_new h (length buf) zlen in
     (case rwhashtab_insert (ma 1) hash cd_hash (cw_HT C) ch of
        None \<Rightarrow> None
      | Some (rc, HT) \<Rightarrow>
          if rc \<noteq> 0 then Some (-1, C\<lparr>cw_HT := HT\<rparr>, s)
          else
            let len64 = ucast (cd_len ch); zlen64 = of_nat zlen in
            Some (int zlen,
              C\<lparr>cw_HT := HT,
                cw_stats_total := chunks_stats_add (cw_stats_total C) len64 zlen64 1,
                cw_stats_unique := chunks_stats_add (cw_stats_unique C) len64 zlen64 1,
                cw_stats_tape := chunks_stats_add (cw_stats_tape C) len64 zlen64 1,
                cw_stats_new := chunks_stats_add (cw_stats_new C) len64 zlen64 1\<rparr>, s)))))"

definition chunks_write_chunk :: "mem \<Rightarrow> (bytes \<Rightarrow> bytes) \<Rightarrow> compress2 \<Rightarrow> 's wfile \<Rightarrow> chunks_w \<Rightarrow> bytes
    \<Rightarrow> bytes \<Rightarrow> 's \<Rightarrow> (int \<times> chunks_w \<times> 's) option" where
  "chunks_write_chunk ma hash compress2 wfile C h buf s =
     (if length buf > UINT32_MAX \<or> cw_zbuflen C \<ge> unat CHDATA_MALLOC then None
      else case rwhashtab_read hash cd_hash (cw_HT C) h of
             None \<Rightarrow> None
           | Some (Some ch) \<Rightarrow> Some (int (unat (cd_zlen ch)), chunks_write_use hash C ch, s)
           | Some None \<Rightarrow> chunks_write_new ma hash compress2 wfile C h buf s)"

definition chunks_write_ispresent :: "(bytes \<Rightarrow> bytes) \<Rightarrow> chunks_w \<Rightarrow> bytes \<Rightarrow> int option" where
  "chunks_write_ispresent hash C h =
     (case rwhashtab_read hash cd_hash (cw_HT C) h of
        None \<Rightarrow> None | Some (Some ch) \<Rightarrow> Some 0 | Some None \<Rightarrow> Some 1)"

definition chunks_write_chunkref :: "(bytes \<Rightarrow> bytes) \<Rightarrow> chunks_w \<Rightarrow> bytes \<Rightarrow> (int \<times> chunks_w) option" where
  "chunks_write_chunkref hash C h =
     (case rwhashtab_read hash cd_hash (cw_HT C) h of
        None \<Rightarrow> None
      | Some (Some ch) \<Rightarrow> Some (0, chunks_write_use hash C ch)
      | Some None \<Rightarrow> Some (1, C))"

definition chunks_write_extrastats :: "chunks_w \<Rightarrow> nat \<Rightarrow> chunks_w" where
  "chunks_write_extrastats C len =
     C\<lparr>cw_stats_extra := chunks_stats_add (cw_stats_extra C) (of_nat len) (of_nat len) 1,
       cw_stats_tapee := chunks_stats_add (cw_stats_tapee C) (of_nat len) (of_nat len) 1\<rparr>"

definition chunks_write_extrastats_copy :: "chunks_w \<Rightarrow> nat \<Rightarrow> chunks_w" where
  "chunks_write_extrastats_copy C direction =
     (if direction = 0 then C\<lparr>cw_stats_extra_copy := cw_stats_extra C\<rparr>
      else C\<lparr>cw_stats_extra := cw_stats_extra_copy C\<rparr>)"

text \<open>The path is asserted to be there when there is a storage layer cookie.\<close>

definition chunks_write_checkpoint :: "fault \<Rightarrow> chunks_w \<Rightarrow> fs \<Rightarrow> (int \<times> fs) option" where
  "chunks_write_checkpoint flt C fs =
     (if cw_S C
      then (case cw_path C of
              None \<Rightarrow> None
            | Some path \<Rightarrow>
                (case chunks_directory_write flt path (cw_HT C) (cw_stats_extra C) ''.ckpt'' fs of (rc, fs) \<Rightarrow>
                   if rc \<noteq> 0 then Some (-1, fs) else Some (0, fs)))
      else Some (0, fs))"

subsection \<open>Counting uses\<close>

text \<open>Reference and copy counts of a directory; a chunk that is not there has none.\<close>

definition refs :: "(bytes \<Rightarrow> 'a chunkdata_scheme option) \<Rightarrow> bytes \<Rightarrow> u32" where
  "refs m k = (case m k of None \<Rightarrow> 0 | Some ch \<Rightarrow> cd_nrefs ch)"

definition copies :: "(bytes \<Rightarrow> 'a chunkdata_scheme option) \<Rightarrow> bytes \<Rightarrow> u32" where
  "copies m k = (case m k of None \<Rightarrow> 0 | Some ch \<Rightarrow> cd_ncopies ch)"

text \<open>The statistics of a list of uses of chunks, multiplicity included.\<close>

definition use_stats :: "(bytes \<Rightarrow> 'a chunkdata_scheme option) \<Rightarrow> bytes list \<Rightarrow> chunkstats" where
  "use_stats m us =
     \<lparr>st_nchunks = of_nat (length us),
      st_len = (\<Sum>k\<leftarrow>us. ucast (cd_len (the (m k)))),
      st_zlen = (\<Sum>k\<leftarrow>us. ucast (cd_zlen (the (m k))))\<rparr>"

text \<open>
  \<open>tally m0 us m\<close>: the directory \<open>m\<close> is \<open>m0\<close> after an archive that uses the chunks \<open>us\<close>, each use
  one copy, each chunk used at least once one reference and marked with \<^const>\<open>CHDATA_CTAPE\<close>.
\<close>

definition chunk_keeps :: "(bytes \<Rightarrow> 'a chunkdata_scheme option) \<Rightarrow> (bytes \<Rightarrow> 'a chunkdata_scheme option) \<Rightarrow> bool" where
  "chunk_keeps m0 m \<longleftrightarrow> (\<forall>k ch0. m0 k = Some ch0 \<longrightarrow>
     (\<exists>ch. m k = Some ch \<and> cd_len ch = cd_len ch0 \<and> cd_zlen ch = cd_zlen ch0))"

definition tally :: "(bytes \<Rightarrow> chunkdata option) \<Rightarrow> bytes list \<Rightarrow> (bytes \<Rightarrow> chunkdata option) \<Rightarrow> bool" where
  "tally m0 us m \<longleftrightarrow>
     dom m = dom m0 \<union> set us \<and>
     (\<forall>k. refs m k = refs m0 k + (if k \<in> set us then 1 else 0)) \<and>
     (\<forall>k. copies m k = copies m0 k + of_nat (count_list us k)) \<and>
     (\<forall>k ch. m k = Some ch \<longrightarrow> cd_hash ch = k \<and> chunk_wf ch \<and>
        (cd_zlen_flags ch AND CHDATA_CTAPE \<noteq> 0 \<longleftrightarrow> k \<in> set us)) \<and>
     chunk_keeps m0 m"

lemma chunk_keeps_refl [simp]: "chunk_keeps m m"
  by (simp add: chunk_keeps_def)

lemma chunk_keeps_trans: "chunk_keeps a b \<Longrightarrow> chunk_keeps b c \<Longrightarrow> chunk_keeps a c"
  unfolding chunk_keeps_def by metis

lemma no_flags_no_ctape: "z AND CHDATA_FLAGS = 0 \<Longrightarrow> z AND CHDATA_CTAPE = 0"
proof -
  assume "z AND CHDATA_FLAGS = 0"
  moreover have "CHDATA_CTAPE = CHDATA_FLAGS AND CHDATA_CTAPE"
    by (simp add: CHDATA_FLAGS_def CHDATA_CTAPE_def)
  ultimately show ?thesis by (metis and.assoc and_zero_eq bit.conj_zero_left)
qed

lemma tally_start: "directory_ok m0 \<Longrightarrow> tally m0 [] m0"
  by (auto simp: tally_def directory_ok_def no_flags_no_ctape)

lemma chunk_use_simps [simp]:
  "cd_hash (chunk_use ch) = cd_hash ch" "cd_len (chunk_use ch) = cd_len ch"
  "cd_zlen (chunk_use ch) = cd_zlen ch" "cd_ncopies (chunk_use ch) = cd_ncopies ch + 1"
  "cd_nrefs (chunk_use ch) =
     cd_nrefs ch + (if cd_zlen_flags ch AND CHDATA_CTAPE = 0 then 1 else 0)"
  "cd_zlen_flags (chunk_use ch) AND CHDATA_CTAPE \<noteq> 0"
  by (simp_all add: chunk_use_def Let_def)

lemma chunk_use_wf [simp]: "chunk_wf (chunk_use ch) = chunk_wf ch"
  by (simp add: chunk_wf_def)

lemma use_stats_snoc:
  "use_stats m (us @ [k]) =
     chunks_stats_add (use_stats m us) (ucast (cd_len (the (m k)))) (ucast (cd_zlen (the (m k)))) 1"
  by (simp add: use_stats_def chunks_stats_add_def)

lemma use_stats_keeps:
  assumes "chunk_keeps m m'" "set us \<subseteq> dom m"
  shows "use_stats m' us = use_stats m us"
proof -
  have "\<forall>k\<in>set us. cd_len (the (m' k)) = cd_len (the (m k)) \<and> cd_zlen (the (m' k)) = cd_zlen (the (m k))"
    using assms unfolding chunk_keeps_def by (metis domD option.sel subsetD)
  then have "map (\<lambda>k. ucast (cd_len (the (m' k))) :: u64) us = map (\<lambda>k. ucast (cd_len (the (m k)))) us"
    "map (\<lambda>k. ucast (cd_zlen (the (m' k))) :: u64) us = map (\<lambda>k. ucast (cd_zlen (the (m k)))) us"
    by simp_all
  then show ?thesis by (simp only: use_stats_def)
qed

lemma tally_use:
  assumes t: "tally m0 us m" and k: "m k = Some ch"
  shows "tally m0 (us @ [k]) (m(k \<mapsto> chunk_use ch))" "chunk_keeps m (m(k \<mapsto> chunk_use ch))"
proof -
  show keeps: "chunk_keeps m (m(k \<mapsto> chunk_use ch))" using k by (auto simp: chunk_keeps_def)
  have flag: "cd_zlen_flags ch AND CHDATA_CTAPE = 0 \<longleftrightarrow> k \<notin> set us"
    using t k unfolding tally_def by blast
  have r: "refs (m(k \<mapsto> chunk_use ch)) j = refs m j + (if j = k \<and> k \<notin> set us then 1 else 0)" for j
    using k flag by (simp add: refs_def)
  have c: "copies (m(k \<mapsto> chunk_use ch)) j = copies m j + (if j = k then 1 else 0)" for j
    using k by (simp add: copies_def)
  show "tally m0 (us @ [k]) (m(k \<mapsto> chunk_use ch))"
    unfolding tally_def
  proof (intro conjI)
    show "dom (m(k \<mapsto> chunk_use ch)) = dom m0 \<union> set (us @ [k])" using t by (auto simp: tally_def)
    show "\<forall>j. refs (m(k \<mapsto> chunk_use ch)) j = refs m0 j + (if j \<in> set (us @ [k]) then 1 else 0)"
      using t unfolding r by (auto simp: tally_def)
    show "\<forall>j. copies (m(k \<mapsto> chunk_use ch)) j = copies m0 j + of_nat (count_list (us @ [k]) j)"
      using t unfolding c by (auto simp: tally_def)
    show "\<forall>j ch'. (m(k \<mapsto> chunk_use ch)) j = Some ch' \<longrightarrow> cd_hash ch' = j \<and> chunk_wf ch' \<and>
        (cd_zlen_flags ch' AND CHDATA_CTAPE \<noteq> 0) = (j \<in> set (us @ [k]))"
      using t k by (auto simp: tally_def)
    show "chunk_keeps m0 (m(k \<mapsto> chunk_use ch))"
      using t keeps chunk_keeps_trans by (auto simp: tally_def)
  qed
qed

lemma tally_new:
  assumes t: "tally m0 us m" and k: "m (cd_hash ch) = None"
    and ch: "chunk_wf ch" "cd_nrefs ch = 1" "cd_ncopies ch = 1" "cd_zlen_flags ch AND CHDATA_CTAPE \<noteq> 0"
  shows "tally m0 (us @ [cd_hash ch]) (m(cd_hash ch \<mapsto> ch))" "chunk_keeps m (m(cd_hash ch \<mapsto> ch))"
proof -
  let ?k = "cd_hash ch"
  show keeps: "chunk_keeps m (m(?k \<mapsto> ch))" using k by (auto simp: chunk_keeps_def)
  have "set us \<subseteq> dom m" using t by (simp add: tally_def)
  then have fresh: "?k \<notin> set us" using k by auto
  have r: "refs (m(?k \<mapsto> ch)) j = refs m j + (if j = ?k then 1 else 0)" for j
    using k ch by (simp add: refs_def)
  have c: "copies (m(?k \<mapsto> ch)) j = copies m j + (if j = ?k then 1 else 0)" for j
    using k ch by (simp add: copies_def)
  show "tally m0 (us @ [?k]) (m(?k \<mapsto> ch))"
    unfolding tally_def
  proof (intro conjI)
    show "dom (m(?k \<mapsto> ch)) = dom m0 \<union> set (us @ [?k])" using t by (auto simp: tally_def)
    show "\<forall>j. refs (m(?k \<mapsto> ch)) j = refs m0 j + (if j \<in> set (us @ [?k]) then 1 else 0)"
      using t fresh unfolding r by (auto simp: tally_def)
    show "\<forall>j. copies (m(?k \<mapsto> ch)) j = copies m0 j + of_nat (count_list (us @ [?k]) j)"
      using t unfolding c by (auto simp: tally_def)
    show "\<forall>j ch'. (m(?k \<mapsto> ch)) j = Some ch' \<longrightarrow> cd_hash ch' = j \<and> chunk_wf ch' \<and>
        (cd_zlen_flags ch' AND CHDATA_CTAPE \<noteq> 0) = (j \<in> set (us @ [?k]))"
      using t ch by (auto simp: tally_def)
    show "chunk_keeps m0 (m(?k \<mapsto> ch))"
      using t keeps chunk_keeps_trans by (auto simp: tally_def)
  qed
qed

text \<open>A new record.\<close>

lemma chunk_new_ok:
  assumes "length h = 32" "0 < buflen" "buflen \<le> UINT32_MAX" "0 < zlen" "zlen < 2 ^ 30"
  shows "chunk_wf (chunk_new h buflen zlen)" "cd_hash (chunk_new h buflen zlen) = h"
    "cd_zlen (chunk_new h buflen zlen) = of_nat zlen"
    "cd_nrefs (chunk_new h buflen zlen) = 1" "cd_ncopies (chunk_new h buflen zlen) = 1"
    "cd_zlen_flags (chunk_new h buflen zlen) AND CHDATA_CTAPE \<noteq> 0"
    "ucast (cd_len (chunk_new h buflen zlen)) = (of_nat buflen :: u64)"
    "ucast (cd_zlen (chunk_new h buflen zlen)) = (of_nat zlen :: u64)"
proof -
  have z: "unat (of_nat zlen :: u32) = zlen" using assms(5) by (simp add: unat_of_nat)
  have b: "unat (of_nat buflen :: u32) = buflen" using assms(3) by (simp add: unat_of_nat)
  show zl: "cd_zlen (chunk_new h buflen zlen) = of_nat zlen"
    using zlen_id [of "of_nat zlen"] z assms(5)
    by (simp add: chunk_new_def bit.conj_disj_distrib2)
  show "cd_hash (chunk_new h buflen zlen) = h" using assms(1) by (simp add: chunk_new_def)
  have "(of_nat zlen :: u32) \<noteq> 0" "(of_nat buflen :: u32) \<noteq> 0"
    using z b assms(2,4) by (metis less_irrefl unat_0)+
  then show "chunk_wf (chunk_new h buflen zlen)"
    using assms(1) zl by (simp add: chunk_wf_def chunk_new_def)
  show "cd_nrefs (chunk_new h buflen zlen) = 1" "cd_ncopies (chunk_new h buflen zlen) = 1"
    "cd_zlen_flags (chunk_new h buflen zlen) AND CHDATA_CTAPE \<noteq> 0"
    by (simp_all add: chunk_new_def bit.conj_disj_distrib2)
  show "ucast (cd_len (chunk_new h buflen zlen)) = (of_nat buflen :: u64)"
    using b by (simp add: chunk_new_def) (metis of_nat_unat)
  show "ucast (cd_zlen (chunk_new h buflen zlen)) = (of_nat zlen :: u64)"
    unfolding zl using z by (metis of_nat_unat)
qed

subsection \<open>The transaction invariant\<close>

definition write_inv :: "(bytes \<Rightarrow> bytes) \<Rightarrow> (bytes \<Rightarrow> chunkdata option) \<Rightarrow> bytes list \<Rightarrow> chunks_w \<Rightarrow> bool" where
  "write_inv hash m0 us C \<longleftrightarrow>
     dir_inv hash (cw_HT C) \<and> tally m0 us (dir_map (cw_HT C)) \<and>
     cw_stats_unique C = unique_of (dir_map (cw_HT C)) \<and>
     unique_of (dir_map (cw_HT C)) = chunks_stats_addstats (unique_of m0) (cw_stats_new C) \<and>
     cw_stats_tape C = use_stats (dir_map (cw_HT C)) us \<and>
     cw_stats_total C = chunks_stats_addstats (total_of m0) (cw_stats_tape C)"

text \<open>What the code relies on of zlib: the output is not empty and fits the buffer.\<close>

definition zlib_ok :: "compress2 \<Rightarrow> bool" where
  "zlib_ok compress2 \<longleftrightarrow> (\<forall>cap b out. compress2 cap b = Inr out \<longrightarrow> out \<noteq> [] \<and> length out \<le> cap)"

lemma addstats_add:
  "chunks_stats_add (chunks_stats_addstats a b) len zlen c = chunks_stats_addstats a (chunks_stats_add b len zlen c)"
  by (simp add: chunks_stats_add_def chunks_stats_addstats_def)

lemma addstats_zero [simp]: "chunks_stats_addstats a chunks_stats_zero = a"
  by (simp add: chunks_stats_addstats_def chunks_stats_zero_def)

lemma tally_dom: "tally m0 us m \<Longrightarrow> set us \<subseteq> dom m"
  by (simp add: tally_def)

lemma write_inv_use:
  assumes inv: "write_inv hash m0 us C" and ch: "dir_map (cw_HT C) h = Some ch"
  shows "write_inv hash m0 (us @ [h]) (chunks_write_use hash C ch)"
proof -
  let ?m = "dir_map (cw_HT C)" and ?C = "chunks_write_use hash C ch"
  have dir: "dir_inv hash (cw_HT C)" and t: "tally m0 us ?m" using inv by (simp_all add: write_inv_def)
  have key: "cd_hash ch = h" using ch t unfolding tally_def by blast
  have HT: "cw_HT ?C = rwhashtab_update hash cd_hash (cw_HT C) (chunk_use ch)"
    by (simp add: chunks_write_use_def)
  have dir': "dir_inv hash (cw_HT ?C)" and map': "dir_map (cw_HT ?C) = ?m(h \<mapsto> chunk_use ch)"
    using rwhashtab_update_spec(1,2) [OF dir, of "chunk_use ch" ch] ch key unfolding HT by simp_all
  have t': "tally m0 (us @ [h]) (?m(h \<mapsto> chunk_use ch))" and keeps: "chunk_keeps ?m (?m(h \<mapsto> chunk_use ch))"
    using tally_use [OF t ch] by blast+
  have tape: "use_stats (?m(h \<mapsto> chunk_use ch)) (us @ [h]) =
      chunks_stats_add (use_stats ?m us) (ucast (cd_len ch)) (ucast (cd_zlen ch)) 1"
    using use_stats_keeps [OF keeps tally_dom [OF t]] by (simp add: use_stats_snoc)
  have uniq: "unique_of (?m(h \<mapsto> chunk_use ch)) = unique_of ?m"
    using stats_of_update [of ?m h ch "chunk_use ch" 0 "\<lambda>_. 1"] ch
    by (simp add: chunks_stats_add_def)
  show ?thesis
    using inv dir' t' unfolding write_inv_def map'
    by (simp add: chunks_write_use_def tape uniq addstats_add)
qed

lemma write_inv_new:
  assumes inv: "write_inv hash m0 us C" and absent: "dir_map (cw_HT C) h = None"
    and zlib: "zlib_ok compress2" and h: "length h = 32" and buf: "buf \<noteq> []" "length buf \<le> UINT32_MAX"
    and zbuflen: "cw_zbuflen C < 2 ^ 30"
    and run: "chunks_write_new ma hash compress2 wfile C h buf s = Some (rc, C', s')"
  shows "rc = -1 \<and> C' = C \<or>
    0 \<le> rc \<and> write_inv hash m0 (us @ [h]) C' \<and> cw_zbuflen C' = cw_zbuflen C"
proof (cases "compress2 (cw_zbuflen C) buf")
  case (Inl e)
  then show ?thesis using run by (simp add: chunks_write_new_def)
next
  case (Inr z)
  let ?m = "dir_map (cw_HT C)"
  have z: "z \<noteq> []" "length z \<le> cw_zbuflen C" using zlib Inr by (auto simp: zlib_ok_def)
  define zb where "zb = z @ replicate (padme (length z) (cw_zbuflen C)) 0"
  have zl: "0 < length zb" "length zb < 2 ^ 30"
    using padme_le [OF z(2)] zbuflen z(1) by (simp_all add: zb_def)
  obtain rc1 s1 where st: "(if cw_S C then wfile s zb (CHR ''c'') h else (0, s)) = (rc1, s1)" by fastforce
  define ch where "ch = chunk_new h (length buf) (length zb)"
  note ch = chunk_new_ok [OF h _ buf(2) zl, folded ch_def]
  have buf0: "0 < length buf" using buf(1) by simp
  have dir: "dir_inv hash (cw_HT C)" and t: "tally m0 us ?m" using inv by (simp_all add: write_inv_def)
  obtain rc2 HT where ins: "rwhashtab_insert (ma 1) hash cd_hash (cw_HT C) ch = Some (rc2, HT)"
    and HT: "dir_inv hash HT"
    and cases: "rc2 = 0 \<and> ?m (cd_hash ch) = None \<and> dir_map HT = ?m(cd_hash ch \<mapsto> ch) \<or>
      rc2 = 1 \<and> ?m (cd_hash ch) \<noteq> None \<and> dir_map HT = ?m \<or> rc2 = -1 \<and> HT = cw_HT C"
    using ht.ins_result [OF dir, of "ma 1" ch] by blast
  have small: "\<not> SSIZE_MAX < length z" using z(2) zbuflen by simp
  note run' = run [unfolded chunks_write_new_def Inr sum.case Let_def if_not_P [OF small],
      folded zb_def, folded ch_def, unfolded st prod.case ins option.case]
  have key: "cd_hash ch = h" using ch(2) [OF buf0] .
  show ?thesis
  proof (cases "rc1 = 0 \<and> ma 0 \<and> rc2 = 0")
    case False
    have "HT = cw_HT C" if "rc2 \<noteq> 0" using cases that absent key by auto
    then show ?thesis using run' False by (auto split: if_splits)
  next
    case True
    then have map': "dir_map HT = ?m(h \<mapsto> ch)" using cases key by auto
    have C': "rc = int (length zb)"
      "C' = C\<lparr>cw_HT := HT,
                cw_stats_total := chunks_stats_add (cw_stats_total C) (ucast (cd_len ch)) (of_nat (length zb)) 1,
                cw_stats_unique := chunks_stats_add (cw_stats_unique C) (ucast (cd_len ch)) (of_nat (length zb)) 1,
                cw_stats_tape := chunks_stats_add (cw_stats_tape C) (ucast (cd_len ch)) (of_nat (length zb)) 1,
                cw_stats_new := chunks_stats_add (cw_stats_new C) (ucast (cd_len ch)) (of_nat (length zb)) 1\<rparr>"
      using run' True by simp_all
    have t': "tally m0 (us @ [h]) (?m(h \<mapsto> ch))" and keeps: "chunk_keeps ?m (?m(h \<mapsto> ch))"
      using tally_new [OF t, of ch] absent ch [OF buf0] key by simp_all
    have tape: "use_stats (?m(h \<mapsto> ch)) (us @ [h]) =
        chunks_stats_add (use_stats ?m us) (ucast (cd_len ch)) (of_nat (length zb)) 1"
      using use_stats_keeps [OF keeps tally_dom [OF t]] ch(8) [OF buf0] by (simp add: use_stats_snoc)
    have uniq: "unique_of (?m(h \<mapsto> ch)) =
        chunks_stats_add (unique_of ?m) (ucast (cd_len ch)) (of_nat (length zb)) 1"
      using stats_of_insert [of ?m h 1 "\<lambda>_. 1" ch] absent ch(8) [OF buf0] by simp
    have "write_inv hash m0 (us @ [h]) C'"
      using inv HT t' by (simp add: write_inv_def C'(2) map' tape uniq addstats_add)
    then show ?thesis using C' by simp
  qed
qed

lemma write_inv_chunk:
  assumes inv: "write_inv hash m0 us C"
    and zlib: "zlib_ok compress2" and h: "length h = 32" and buf: "buf \<noteq> []"
    and run: "chunks_write_chunk ma hash compress2 wfile C h buf s = Some (rc, C', s')"
  shows "rc = -1 \<and> C' = C \<or> 0 \<le> rc \<and> write_inv hash m0 (us @ [h]) C'"
proof -
  have asserts: "length buf \<le> UINT32_MAX" "cw_zbuflen C < 2 ^ 30"
    using run by (auto simp: chunks_write_chunk_def CHDATA_MALLOC_def split: if_splits)
  have read: "rwhashtab_read hash cd_hash (cw_HT C) h = Some (dir_map (cw_HT C) h)"
    using inv by (simp add: write_inv_def rwhashtab_read_spec)
  show ?thesis
  proof (cases "dir_map (cw_HT C) h")
    case None
    then have "chunks_write_new ma hash compress2 wfile C h buf s = Some (rc, C', s')"
      using run read by (simp add: chunks_write_chunk_def split: if_splits)
    from write_inv_new [OF inv None zlib h buf asserts this] show ?thesis by blast
  next
    case (Some ch)
    then have "C' = chunks_write_use hash C ch" "0 \<le> rc"
      using run read by (auto simp: chunks_write_chunk_def split: if_splits)
    then show ?thesis using write_inv_use [OF inv Some] by simp
  qed
qed

lemma write_inv_chunkref:
  assumes inv: "write_inv hash m0 us C"
    and run: "chunks_write_chunkref hash C h = Some (rc, C')"
  shows "rc = 1 \<and> C' = C \<and> dir_map (cw_HT C) h = None \<or> rc = 0 \<and> write_inv hash m0 (us @ [h]) C'"
proof -
  have read: "rwhashtab_read hash cd_hash (cw_HT C) h = Some (dir_map (cw_HT C) h)"
    using inv by (simp add: write_inv_def rwhashtab_read_spec)
  show ?thesis
    using run read write_inv_use [OF inv, of h]
    by (auto simp: chunks_write_chunkref_def split: option.splits)
qed

lemma write_inv_start:
  assumes "chunks_write_start flt hash entropy cachepath S maxchunksize fs = Some (Some C, fs')"
  shows "write_inv hash (dir_map (cw_HT C)) [] C" "directory_ok (dir_map (cw_HT C))"
proof -
  obtain fs1 HT uniq all extra fs2 where
    read: "chunks_directory_read flt hash entropy () cachepath False fs1 = Some (Some (HT, uniq, all, extra), fs2)"
    and C: "cw_HT C = HT" "cw_stats_unique C = uniq" "cw_stats_total C = all"
      "cw_stats_tape C = chunks_stats_zero" "cw_stats_new C = chunks_stats_zero"
    using assms by (auto simp: chunks_write_start_def split: if_splits prod.splits option.splits)
  have ok: "dir_inv hash HT" "directory_ok (dir_map HT)" "uniq = unique_of (dir_map HT)" "all = total_of (dir_map HT)"
    using chunks_directory_read_sound [of flt hash entropy "()" cachepath False fs1] read by auto
  have "use_stats (dir_map HT) [] = chunks_stats_zero"
    by (simp add: use_stats_def chunks_stats_zero_def)
  then show "write_inv hash (dir_map (cw_HT C)) [] C" "directory_ok (dir_map (cw_HT C))"
    using ok C tally_start by (simp_all add: write_inv_def)
qed

lemma write_inv_extrastats [inv_intros]:
  "write_inv hash m0 us C \<Longrightarrow> write_inv hash m0 us (chunks_write_extrastats C len)"
  "write_inv hash m0 us C \<Longrightarrow> write_inv hash m0 us (chunks_write_extrastats_copy C direction)"
  by (simp_all add: write_inv_def chunks_write_extrastats_def chunks_write_extrastats_copy_def)

text \<open>
  The sessions of the layer above: any sequence of calls between the start of the transaction and
  its end.  \<open>us\<close> lists the chunks whose writes or references succeeded.
\<close>

inductive write_session :: "(bytes \<Rightarrow> bytes) \<Rightarrow> compress2 \<Rightarrow> 's wfile \<Rightarrow> chunks_w \<Rightarrow> 's
    \<Rightarrow> bytes list \<Rightarrow> chunks_w \<Rightarrow> 's \<Rightarrow> bool"
  for hash compress2 wfile C0 s0 where
  start: "write_session hash compress2 wfile C0 s0 [] C0 s0"
| chunk: "write_session hash compress2 wfile C0 s0 us C s \<Longrightarrow> length h = 32 \<Longrightarrow> buf \<noteq> [] \<Longrightarrow>
    chunks_write_chunk ma hash compress2 wfile C h buf s = Some (rc, C', s') \<Longrightarrow>
    write_session hash compress2 wfile C0 s0 (if rc = -1 then us else us @ [h]) C' s'"
| chunkref: "write_session hash compress2 wfile C0 s0 us C s \<Longrightarrow>
    chunks_write_chunkref hash C h = Some (rc, C') \<Longrightarrow>
    write_session hash compress2 wfile C0 s0 (if rc = 0 then us @ [h] else us) C' s"
| extra: "write_session hash compress2 wfile C0 s0 us C s \<Longrightarrow>
    write_session hash compress2 wfile C0 s0 us (chunks_write_extrastats C len) s"
| extra_copy: "write_session hash compress2 wfile C0 s0 us C s \<Longrightarrow>
    write_session hash compress2 wfile C0 s0 us (chunks_write_extrastats_copy C direction) s"

lemma write_session_inv:
  assumes "write_session hash compress2 wfile C0 s0 us C s"
    and "write_inv hash m0 [] C0" "zlib_ok compress2"
  shows "write_inv hash m0 us C"
  using assms
proof (induction rule: write_session.induct)
  case (chunk us C s h buf ma rc C' s')
  then show ?case using write_inv_chunk [of hash m0 us C compress2 h buf ma wfile s rc C' s'] by auto
next
  case (chunkref us C s h rc C')
  then show ?case using write_inv_chunkref [of hash m0 us C h rc C'] by auto
qed (auto intro: inv_intros)

section \<open>Properties\<close>

text \<open>C16: Reference counting of an archive: after any sequence of chunk writes and references,
  with failures anywhere, the directory of the transaction is the one it started from with, for
  every chunk, one more reference if the archive uses the chunk at all and one more copy for every
  use; chunks that were there keep their lengths, and exactly the chunks of the archive carry the
  mark \<^verbatim>\<open>CHDATA_CTAPE\<close>.\<close>

theorem write_counts_uses:
  assumes "chunks_write_start flt hash entropy cachepath S maxchunksize fs = Some (Some C0, fs')"
    and "zlib_ok compress2" and "write_session hash compress2 wfile C0 s0 us C s"
  shows "ht_inv hash cd_hash (cw_HT C) \<and> tally (ht_map cd_hash (cw_HT C0)) us (ht_map cd_hash (cw_HT C))"
  using write_session_inv [OF assms(3) write_inv_start(1) [OF assms(1)] assms(2)]
  by (simp add: write_inv_def)

text \<open>C17: The statistics a transaction reports are exact modulo \<open>2 ^ 64\<close>: the statistics of this
  archive are the sums over its uses of chunks, those of all archives grow by them, and the unique
  data is the sum over the directory and grows by the new chunks.\<close>

theorem write_statistics:
  assumes "chunks_write_start flt hash entropy cachepath S maxchunksize fs = Some (Some C0, fs')"
    and "zlib_ok compress2" and "write_session hash compress2 wfile C0 s0 us C s"
  shows "cw_stats_tape C = use_stats (ht_map cd_hash (cw_HT C)) us \<and>
    cw_stats_total C = chunks_stats_addstats (total_of (ht_map cd_hash (cw_HT C0))) (cw_stats_tape C) \<and>
    cw_stats_unique C = unique_of (ht_map cd_hash (cw_HT C)) \<and>
    cw_stats_unique C = chunks_stats_addstats (unique_of (ht_map cd_hash (cw_HT C0))) (cw_stats_new C)"
  using write_session_inv [OF assms(3) write_inv_start(1) [OF assms(1)] assms(2)]
  by (simp add: write_inv_def)

text \<open>An archive that writes one chunk of one byte and uses it a second time.\<close>

definition sample_zlib :: compress2 where
  "sample_zlib cap b = (if b = [] \<or> cap < length b then Inl (-5) else Inr b)"

definition sample_wfile :: "nat wfile" where
  "sample_wfile n b c h = (0, Suc n)"

lemma sample_zlib_ok: "zlib_ok sample_zlib"
  by (simp add: zlib_ok_def sample_zlib_def)

definition sample_w :: chunks_w where
  "sample_w = \<lparr>cw_maxlen = 100, cw_zbuflen = 113,
     cw_HT = \<lparr>ht_cursize = 4, ht_numentries = 0, ht_ht = replicate 4 None, ht_randbuf = [7]\<rparr>,
     cw_path = Some ''c'', cw_S = True, cw_stats_total = chunks_stats_zero, cw_stats_unique = chunks_stats_zero,
     cw_stats_extra = chunks_stats_zero, cw_stats_extra_copy = chunks_stats_zero,
     cw_stats_tape = chunks_stats_zero, cw_stats_new = chunks_stats_zero,
     cw_stats_tapee = chunks_stats_zero\<rparr>"

lemma sample_start: "chunks_write_start no_fault sample_hash (Some [7]) (Some ''c'') True 100 empty_fs =
    Some (Some sample_w, empty_fs\<lparr>fs_calls := 7\<rparr>)"
  by (simp add: chunks_write_start_def mem_call_def plain_call_def call_def chunks_directory_read_def
      rwhashtab_init_def sample_w_def empty_fs_def stat_size_def fs_names_def)

lemma sample_session:
  obtains C where "write_session sample_hash sample_zlib sample_wfile sample_w 0
      [replicate 32 3, replicate 32 3] C 1" "cw_stats_tape C = \<lparr>st_nchunks = 2, st_len = 2, st_zlen = 2\<rparr>"
proof -
  let ?h = "replicate 32 3 :: bytes"
  have "\<exists>C1. chunks_write_chunk mem_ok sample_hash sample_zlib sample_wfile sample_w ?h [9] 0 = Some (1, C1, 1)
      \<and> ht_ht (cw_HT C1) = [Some (chunk_new ?h 1 1), None, None, None] \<and> ht_cursize (cw_HT C1) = 4
      \<and> cw_stats_tape C1 = chunks_stats_add chunks_stats_zero 1 1 1"
    by (simp add: chunks_write_chunk_def chunks_write_new_def sample_w_def CHDATA_MALLOC_def
        rwhashtab_read_def rwhashtab_search_def rwhashtab_insert_def rwhashtab_insert_nogrow_def
        replicate_4_None drop_bit_eq_div sample_zlib_def sample_wfile_def padme_def chunk_new_def)
  then obtain C1 where C1: "chunks_write_chunk mem_ok sample_hash sample_zlib sample_wfile sample_w ?h [9] 0 =
      Some (1, C1, 1)" "ht_ht (cw_HT C1) = [Some (chunk_new ?h 1 1), None, None, None]"
      "ht_cursize (cw_HT C1) = 4" "cw_stats_tape C1 = chunks_stats_add chunks_stats_zero 1 1 1" by blast
  have s1: "write_session sample_hash sample_zlib sample_wfile sample_w 0 [?h] C1 1"
    using write_session.chunk [OF write_session.start _ _ C1(1)] by simp
  note new = chunk_new_ok [of ?h 1 1]
  have ref: "chunks_write_chunkref sample_hash C1 ?h = Some (0, chunks_write_use sample_hash C1 (chunk_new ?h 1 1))"
    using C1(2,3) new(2) by (simp add: chunks_write_chunkref_def rwhashtab_read_def rwhashtab_search_def)
  have "cw_stats_tape (chunks_write_use sample_hash C1 (chunk_new ?h 1 1)) = \<lparr>st_nchunks = 2, st_len = 2, st_zlen = 2\<rparr>"
    using C1(4) new(7,8) by (simp add: chunks_write_use_def chunks_stats_add_def chunks_stats_zero_def)
  moreover have "write_session sample_hash sample_zlib sample_wfile sample_w 0 [?h, ?h]
      (chunks_write_use sample_hash C1 (chunk_new ?h 1 1)) 1"
    using write_session.chunkref [OF s1 ref] by simp
  ultimately show thesis using that by blast
qed

theorem write_counts_uses_witness:
  "\<exists>C. write_session sample_hash sample_zlib sample_wfile sample_w 0 [replicate 32 3, replicate 32 3] C 1 \<and>
     refs (ht_map cd_hash (cw_HT C)) (replicate 32 3) = 1 \<and>
     copies (ht_map cd_hash (cw_HT C)) (replicate 32 3) = 2"
proof -
  obtain C where s: "write_session sample_hash sample_zlib sample_wfile sample_w 0
      [replicate 32 3, replicate 32 3] C 1" by (rule sample_session)
  have "ht_map cd_hash (cw_HT sample_w) = Map.empty" by (simp add: sample_w_def ht_map_def)
  then show ?thesis
    using write_counts_uses [OF sample_start sample_zlib_ok s] s
    by (auto simp: tally_def refs_def [of Map.empty] copies_def [of Map.empty] intro!: exI [of _ C])
qed

theorem write_statistics_witness:
  "\<exists>C. write_session sample_hash sample_zlib sample_wfile sample_w 0 [replicate 32 3, replicate 32 3] C 1 \<and>
     st_len (cw_stats_total C) = 2"
proof -
  obtain C where s: "write_session sample_hash sample_zlib sample_wfile sample_w 0
      [replicate 32 3, replicate 32 3] C 1" "cw_stats_tape C = \<lparr>st_nchunks = 2, st_len = 2, st_zlen = 2\<rparr>"
    by (rule sample_session)
  have "total_of (ht_map cd_hash (cw_HT sample_w)) = chunks_stats_zero" by (simp add: sample_w_def ht_map_def)
  moreover have "cw_stats_total C =
      chunks_stats_addstats (total_of (ht_map cd_hash (cw_HT sample_w))) (cw_stats_tape C)"
    using write_statistics [OF sample_start sample_zlib_ok s(1)] by blast
  ultimately have "st_len (cw_stats_total C) = 2"
    unfolding s(2) by (simp add: chunks_stats_addstats_def chunks_stats_zero_def)
  then show ?thesis using s(1) by blast
qed

end
