(* ===== verification/Chunks_Delete.thy ===== *)
theory Chunks_Delete
  imports Chunks_Write
begin

text \<open>
  \<^verbatim>\<open>tar/chunks/chunks_delete.c\<close>: delete transactions of the chunk layer.  The parameter \<open>dfile\<close> is
  \<^verbatim>\<open>storage_delete_file\<close> on the state of the storage layer.
\<close>

record chunks_d =
  cdl_HT :: "chunkdata rwhashtab"
  cdl_path :: string
  cdl_stats_total :: chunkstats
  cdl_stats_unique :: chunkstats
  cdl_stats_extra :: chunkstats
  cdl_stats_tape :: chunkstats
  cdl_stats_freed :: chunkstats
  cdl_stats_tapee :: chunkstats

type_synonym 's dfile = "'s \<Rightarrow> char \<Rightarrow> bytes \<Rightarrow> int \<times> 's"

definition chunks_delete_start :: "fault \<Rightarrow> (bytes \<Rightarrow> bytes) \<Rightarrow> bytes option \<Rightarrow> string \<Rightarrow> fs
    \<Rightarrow> (chunks_d option \<times> fs) option" where
  "chunks_delete_start flt hash entropy cachepath fs =
     (case mem_call flt fs of (m0, fs) \<Rightarrow>
      if \<not> m0 then Some (None, fs)
      else case mem_call flt fs of (m1, fs) \<Rightarrow>
      if \<not> m1 then Some (None, fs)
      else case chunks_directory_read flt hash entropy () (Some cachepath) False fs of
             None \<Rightarrow> None
           | Some (None, fs) \<Rightarrow> Some (None, fs)
           | Some (Some (HT, uniq, all, extra), fs) \<Rightarrow>
               Some (Some \<lparr>cdl_HT = HT, cdl_path = cachepath, cdl_stats_total = all,
                 cdl_stats_unique = uniq, cdl_stats_extra = extra,
                 cdl_stats_tape = chunks_stats_zero, cdl_stats_freed = chunks_stats_zero,
                 cdl_stats_tapee = chunks_stats_zero\<rparr>, fs))"

definition chunks_delete_getdirsz :: "chunks_d \<Rightarrow> nat" where
  "chunks_delete_getdirsz C = rwhashtab_getsize (cdl_HT C)"

text \<open>The record after one use of the chunk is taken back.\<close>

definition chunk_unuse :: "chunkdata \<Rightarrow> chunkdata" where
  "chunk_unuse ch =
     (let ch = ch\<lparr>cd_ncopies := cd_ncopies ch - 1\<rparr>
      in if cd_zlen_flags ch AND CHDATA_CTAPE = 0
         then ch\<lparr>cd_zlen_flags := cd_zlen_flags ch OR CHDATA_CTAPE, cd_nrefs := cd_nrefs ch - 1\<rparr>
         else ch)"

definition chunks_delete_chunk :: "(bytes \<Rightarrow> bytes) \<Rightarrow> 's dfile \<Rightarrow> chunks_d \<Rightarrow> bytes \<Rightarrow> 's
    \<Rightarrow> (int \<times> chunks_d \<times> 's) option" where
  "chunks_delete_chunk hash dfile C h s =
     (case rwhashtab_read hash cd_hash (cdl_HT C) h of
        None \<Rightarrow> None
      | Some None \<Rightarrow> Some (-1, C, s)
      | Some (Some ch) \<Rightarrow>
          let len = ucast (cd_len ch); zlen = ucast (cd_zlen ch);
              ch' = chunk_unuse ch;
              C' = C\<lparr>cdl_stats_total := chunks_stats_add (cdl_stats_total C) len zlen (-1),
                     cdl_stats_tape := chunks_stats_add (cdl_stats_tape C) len zlen 1,
                     cdl_HT := rwhashtab_update hash cd_hash (cdl_HT C) ch'\<rparr>
          in if cd_zlen_flags ch AND CHDATA_CTAPE = 0 \<and> cd_nrefs ch' = 0
             then let C' = C'\<lparr>cdl_stats_unique := chunks_stats_add (cdl_stats_unique C') len zlen (-1),
                             cdl_stats_freed := chunks_stats_add (cdl_stats_freed C') len zlen 1\<rparr>
                  in (case dfile s (CHR ''c'') h of (rc, s') \<Rightarrow>
                        if rc \<noteq> 0 then Some (-1, C', s') else Some (0, C', s'))
             else Some (0, C', s))"

definition chunks_delete_extrastats :: "chunks_d \<Rightarrow> nat \<Rightarrow> chunks_d" where
  "chunks_delete_extrastats C len =
     C\<lparr>cdl_stats_extra := chunks_stats_add (cdl_stats_extra C) (of_nat len) (of_nat len) (-1),
       cdl_stats_tapee := chunks_stats_add (cdl_stats_tapee C) (of_nat len) (of_nat len) 1\<rparr>"

definition chunks_delete_end :: "fault \<Rightarrow> chunks_d \<Rightarrow> fs \<Rightarrow> int \<times> fs" where
  "chunks_delete_end flt C fs =
     (case chunks_directory_write flt (cdl_path C) (cdl_HT C) (cdl_stats_extra C) ''.tmp'' fs of
        (rc, fs) \<Rightarrow> if rc \<noteq> 0 then (-1, fs) else (0, fs))"

subsection \<open>Counting the uses taken back\<close>

definition untally :: "(bytes \<Rightarrow> chunkdata option) \<Rightarrow> bytes list \<Rightarrow> (bytes \<Rightarrow> chunkdata option) \<Rightarrow> bool" where
  "untally m0 us m \<longleftrightarrow>
     dom m = dom m0 \<and> set us \<subseteq> dom m0 \<and>
     (\<forall>k. refs m k = refs m0 k - (if k \<in> set us then 1 else 0)) \<and>
     (\<forall>k. copies m k = copies m0 k - of_nat (count_list us k)) \<and>
     (\<forall>k ch. m k = Some ch \<longrightarrow> cd_hash ch = k \<and> chunk_wf ch \<and>
        (cd_zlen_flags ch AND CHDATA_CTAPE \<noteq> 0 \<longleftrightarrow> k \<in> set us)) \<and>
     chunk_keeps m0 m"

lemma untally_start: "directory_ok m0 \<Longrightarrow> untally m0 [] m0"
  by (auto simp: untally_def directory_ok_def no_flags_no_ctape)

lemma chunk_unuse_simps [simp]:
  "cd_hash (chunk_unuse ch) = cd_hash ch" "cd_len (chunk_unuse ch) = cd_len ch"
  "cd_zlen (chunk_unuse ch) = cd_zlen ch" "cd_ncopies (chunk_unuse ch) = cd_ncopies ch - 1"
  "cd_nrefs (chunk_unuse ch) =
     cd_nrefs ch - (if cd_zlen_flags ch AND CHDATA_CTAPE = 0 then 1 else 0)"
  "cd_zlen_flags (chunk_unuse ch) AND CHDATA_CTAPE \<noteq> 0"
  by (simp_all add: chunk_unuse_def Let_def)

lemma untally_unuse:
  assumes t: "untally m0 us m" and k: "m k = Some ch"
  shows "untally m0 (us @ [k]) (m(k \<mapsto> chunk_unuse ch))" "chunk_keeps m (m(k \<mapsto> chunk_unuse ch))"
proof -
  show keeps: "chunk_keeps m (m(k \<mapsto> chunk_unuse ch))" using k by (auto simp: chunk_keeps_def)
  have flag: "cd_zlen_flags ch AND CHDATA_CTAPE = 0 \<longleftrightarrow> k \<notin> set us"
    using t k unfolding untally_def by blast
  have r: "refs (m(k \<mapsto> chunk_unuse ch)) j = refs m j - (if j = k \<and> k \<notin> set us then 1 else 0)" for j
    using k flag by (simp add: refs_def)
  have c: "copies (m(k \<mapsto> chunk_unuse ch)) j = copies m j - (if j = k then 1 else 0)" for j
    using k by (simp add: copies_def)
  have kd: "k \<in> dom m0" using t k by (auto simp: untally_def)
  show "untally m0 (us @ [k]) (m(k \<mapsto> chunk_unuse ch))"
    unfolding untally_def
  proof (intro conjI)
    show "dom (m(k \<mapsto> chunk_unuse ch)) = dom m0" "set (us @ [k]) \<subseteq> dom m0"
      using t kd by (auto simp: untally_def)
    show "\<forall>j. refs (m(k \<mapsto> chunk_unuse ch)) j = refs m0 j - (if j \<in> set (us @ [k]) then 1 else 0)"
      using t unfolding r by (auto simp: untally_def)
    show "\<forall>j. copies (m(k \<mapsto> chunk_unuse ch)) j = copies m0 j - of_nat (count_list (us @ [k]) j)"
      using t unfolding c by (auto simp: untally_def)
    show "\<forall>j ch'. (m(k \<mapsto> chunk_unuse ch)) j = Some ch' \<longrightarrow> cd_hash ch' = j \<and> chunk_wf ch' \<and>
        (cd_zlen_flags ch' AND CHDATA_CTAPE \<noteq> 0) = (j \<in> set (us @ [k]))"
      using t k by (auto simp: untally_def chunk_wf_def)
    show "chunk_keeps m0 (m(k \<mapsto> chunk_unuse ch))"
      using t keeps chunk_keeps_trans by (auto simp: untally_def)
  qed
qed

subsection \<open>The transaction invariant\<close>

text \<open>
  The statistics of all archives are the old ones less this archive's; the unique data is the sum
  over the chunks that are still referenced, and what is freed is the rest.  \<open>dead\<close> are the chunks
  whose last reference went: these have been handed to the storage layer, each once.
\<close>

definition dead :: "bytes list \<Rightarrow> (bytes \<Rightarrow> chunkdata option) \<Rightarrow> bytes set" where
  "dead us m = {k \<in> set us. refs m k = 0}"

definition delete_inv :: "(bytes \<Rightarrow> bytes) \<Rightarrow> 's dfile \<Rightarrow> (bytes \<Rightarrow> chunkdata option) \<Rightarrow> 's
    \<Rightarrow> bytes list \<Rightarrow> chunks_d \<Rightarrow> 's \<Rightarrow> bool" where
  "delete_inv hash dfile m0 s0 us C s \<longleftrightarrow>
     dir_inv hash (cdl_HT C) \<and> untally m0 us (dir_map (cdl_HT C)) \<and>
     cdl_stats_tape C = use_stats (dir_map (cdl_HT C)) us \<and>
     chunks_stats_addstats (cdl_stats_total C) (use_stats (dir_map (cdl_HT C)) us) = total_of m0 \<and>
     chunks_stats_addstats (cdl_stats_unique C) (cdl_stats_freed C) = unique_of m0 \<and>
     (\<exists>ds. distinct ds \<and> set ds = dead us (dir_map (cdl_HT C)) \<and>
        cdl_stats_freed C = use_stats (dir_map (cdl_HT C)) ds \<and>
        s = fold (\<lambda>k s. snd (dfile s (CHR ''c'') k)) ds s0)"

lemma delete_invI:
  assumes "dir_inv hash (cdl_HT C)" "untally m0 us (dir_map (cdl_HT C))"
    "cdl_stats_tape C = use_stats (dir_map (cdl_HT C)) us"
    "chunks_stats_addstats (cdl_stats_total C) (use_stats (dir_map (cdl_HT C)) us) = total_of m0"
    "chunks_stats_addstats (cdl_stats_unique C) (cdl_stats_freed C) = unique_of m0"
    "distinct ds" "set ds = dead us (dir_map (cdl_HT C))"
    "cdl_stats_freed C = use_stats (dir_map (cdl_HT C)) ds"
    "s = fold (\<lambda>k s. snd (dfile s (CHR ''c'') k)) ds s0"
  shows "delete_inv hash dfile m0 s0 us C s"
  using assms unfolding delete_inv_def by blast

lemma delete_inv_chunk:
  assumes inv: "delete_inv hash dfile m0 s0 us C s"
    and run: "chunks_delete_chunk hash dfile C h s = Some (rc, C', s')"
  shows "rc = -1 \<and> C' = C \<and> s' = s \<and> dir_map (cdl_HT C) h = None \<or>
    dir_map (cdl_HT C) h \<noteq> None \<and> delete_inv hash dfile m0 s0 (us @ [h]) C' s'"
proof (cases "dir_map (cdl_HT C) h")
  case None
  then show ?thesis
    using run inv by (auto simp: chunks_delete_chunk_def delete_inv_def rwhashtab_read_spec)
next
  case (Some ch)
  let ?m = "dir_map (cdl_HT C)"
  let ?m' = "?m(h \<mapsto> chunk_unuse ch)"
  have dir: "dir_inv hash (cdl_HT C)" and t: "untally m0 us ?m" using inv by (simp_all add: delete_inv_def)
  obtain ds where ds: "distinct ds" "set ds = dead us ?m" "cdl_stats_freed C = use_stats ?m ds"
    "s = fold (\<lambda>k s. snd (dfile s (CHR ''c'') k)) ds s0"
    using inv unfolding delete_inv_def by blast
  have key: "cd_hash ch = h" using Some t unfolding untally_def by blast
  have read: "rwhashtab_read hash cd_hash (cdl_HT C) h = Some (Some ch)"
    using Some dir by (simp add: rwhashtab_read_spec)
  have dir': "dir_inv hash (rwhashtab_update hash cd_hash (cdl_HT C) (chunk_unuse ch))"
    and map': "dir_map (rwhashtab_update hash cd_hash (cdl_HT C) (chunk_unuse ch)) = ?m'"
    using rwhashtab_update_spec(1,2) [OF dir, of "chunk_unuse ch" ch] Some key by simp_all
  have t': "untally m0 (us @ [h]) ?m'" and keeps: "chunk_keeps ?m ?m'"
    using untally_unuse [OF t Some] by blast+
  have flag: "cd_zlen_flags ch AND CHDATA_CTAPE = 0 \<longleftrightarrow> h \<notin> set us"
    using t Some unfolding untally_def by blast
  have us_dom: "set us \<subseteq> dom ?m" "set ds \<subseteq> dom ?m" using t ds(2) by (auto simp: untally_def dead_def)
  have tape: "use_stats ?m' (us @ [h]) =
      chunks_stats_add (use_stats ?m us) (ucast (cd_len ch)) (ucast (cd_zlen ch)) 1"
    using use_stats_keeps [OF keeps us_dom(1)] by (simp add: use_stats_snoc)
  have freed: "use_stats ?m' ds = use_stats ?m ds"
    "use_stats ?m' (ds @ [h]) = chunks_stats_add (use_stats ?m ds) (ucast (cd_len ch)) (ucast (cd_zlen ch)) 1"
    using use_stats_keeps [OF keeps us_dom(2)] by (simp_all add: use_stats_snoc)
  have refs': "refs ?m' j = (if j = h then cd_nrefs (chunk_unuse ch) else refs ?m j)" for j
    by (simp add: refs_def)
  have refs_h: "refs ?m h = cd_nrefs ch" using Some by (simp add: refs_def)
  have dead': "dead (us @ [h]) ?m' =
      (if cd_zlen_flags ch AND CHDATA_CTAPE = 0 \<and> cd_nrefs (chunk_unuse ch) = 0
       then insert h (dead us ?m) else dead us ?m)"
    using flag refs_h unfolding dead_def refs' by (auto split: if_splits)
  have shift: "chunks_stats_addstats (chunks_stats_add a len zlen (- 1)) (chunks_stats_add b len zlen 1) =
      chunks_stats_addstats a b" for a b len zlen
    by (simp add: chunks_stats_addstats_def chunks_stats_add_def)
  have sums: "chunks_stats_addstats (cdl_stats_total C) (use_stats ?m us) = total_of m0"
    "chunks_stats_addstats (cdl_stats_unique C) (cdl_stats_freed C) = unique_of m0"
    "cdl_stats_tape C = use_stats ?m us"
    using inv unfolding delete_inv_def by blast+
  note run' = run [unfolded chunks_delete_chunk_def read option.case Let_def]
  show ?thesis
  proof (cases "cd_zlen_flags ch AND CHDATA_CTAPE = 0 \<and> cd_nrefs (chunk_unuse ch) = 0")
    case False
    have C': "C' = C\<lparr>cdl_stats_total := chunks_stats_add (cdl_stats_total C) (ucast (cd_len ch)) (ucast (cd_zlen ch)) (-1),
                     cdl_stats_tape := chunks_stats_add (cdl_stats_tape C) (ucast (cd_len ch)) (ucast (cd_zlen ch)) 1,
                     cdl_HT := rwhashtab_update hash cd_hash (cdl_HT C) (chunk_unuse ch)\<rparr>" "s' = s"
      using run' [unfolded if_not_P [OF False]] by auto
    have "set ds = dead (us @ [h]) ?m'" using ds(2) dead' False by simp
    then have "delete_inv hash dfile m0 s0 (us @ [h]) C' s'"
      using dir' t' sums ds
      by (intro delete_invI [where ds = ds]) (simp_all add: C' map' tape freed(1) shift)
    then show ?thesis using Some by simp
  next
    case True
    have new: "h \<notin> set ds" using True flag ds(2) by (auto simp: dead_def)
    obtain rcd sd where d: "dfile s (CHR ''c'') h = (rcd, sd)" by fastforce
    have s': "s' = fold (\<lambda>k s. snd (dfile s (CHR ''c'') k)) (ds @ [h]) s0"
      using run' [unfolded if_P [OF True]] d ds(4) by (auto split: if_splits)
    have C': "C' = C\<lparr>cdl_stats_total := chunks_stats_add (cdl_stats_total C) (ucast (cd_len ch)) (ucast (cd_zlen ch)) (-1),
                     cdl_stats_tape := chunks_stats_add (cdl_stats_tape C) (ucast (cd_len ch)) (ucast (cd_zlen ch)) 1,
                     cdl_HT := rwhashtab_update hash cd_hash (cdl_HT C) (chunk_unuse ch),
        cdl_stats_unique := chunks_stats_add (cdl_stats_unique C) (ucast (cd_len ch)) (ucast (cd_zlen ch)) (-1),
        cdl_stats_freed := chunks_stats_add (cdl_stats_freed C) (ucast (cd_len ch)) (ucast (cd_zlen ch)) 1\<rparr>"
      using run' [unfolded if_P [OF True]] d by (auto split: if_splits)
    have "distinct (ds @ [h])" "set (ds @ [h]) = dead (us @ [h]) ?m'"
      using new ds(1,2) dead' True by auto
    then have "delete_inv hash dfile m0 s0 (us @ [h]) C' s'"
      using dir' t' sums ds(3) s'
      by (intro delete_invI [where ds = "ds @ [h]"]) (simp_all add: C' map' tape freed(2) shift)
    then show ?thesis using Some by simp
  qed
qed


lemma addstats_zero_right [simp]: "chunks_stats_addstats chunks_stats_zero a = a"
  by (simp add: chunks_stats_addstats_def chunks_stats_zero_def)

lemma delete_inv_start:
  assumes "chunks_delete_start flt hash entropy cachepath fs = Some (Some C, fs')"
  shows "delete_inv hash dfile (dir_map (cdl_HT C)) s0 [] C s0" "directory_ok (dir_map (cdl_HT C))"
proof -
  obtain fs1 HT uniq all extra fs2 where
    read: "chunks_directory_read flt hash entropy () (Some cachepath) False fs1 = Some (Some (HT, uniq, all, extra), fs2)"
    and C: "cdl_HT C = HT" "cdl_stats_unique C = uniq" "cdl_stats_total C = all"
      "cdl_stats_tape C = chunks_stats_zero" "cdl_stats_freed C = chunks_stats_zero"
    using assms by (auto simp: chunks_delete_start_def split: if_splits prod.splits option.splits)
  have ok: "dir_inv hash HT" "directory_ok (dir_map HT)" "uniq = unique_of (dir_map HT)" "all = total_of (dir_map HT)"
    using chunks_directory_read_sound [of flt hash entropy "()" "Some cachepath" False fs1] read by auto
  have "use_stats (dir_map HT) [] = chunks_stats_zero" "dead [] (dir_map HT) = {}"
    by (simp_all add: use_stats_def chunks_stats_zero_def dead_def)
  then show "delete_inv hash dfile (dir_map (cdl_HT C)) s0 [] C s0" "directory_ok (dir_map (cdl_HT C))"
    using ok C untally_start by (simp_all add: delete_inv_def exI [of _ "[]"])
qed

text \<open>Any sequence of calls; \<open>us\<close> lists the chunks that were found, whatever the storage layer said.\<close>

inductive delete_session :: "(bytes \<Rightarrow> bytes) \<Rightarrow> 's dfile \<Rightarrow> chunks_d \<Rightarrow> 's
    \<Rightarrow> bytes list \<Rightarrow> chunks_d \<Rightarrow> 's \<Rightarrow> bool"
  for hash dfile C0 s0 where
  start: "delete_session hash dfile C0 s0 [] C0 s0"
| chunk: "delete_session hash dfile C0 s0 us C s \<Longrightarrow>
    chunks_delete_chunk hash dfile C h s = Some (rc, C', s') \<Longrightarrow>
    delete_session hash dfile C0 s0 (if ht_map cd_hash (cdl_HT C) h = None then us else us @ [h]) C' s'"
| extra: "delete_session hash dfile C0 s0 us C s \<Longrightarrow>
    delete_session hash dfile C0 s0 us (chunks_delete_extrastats C len) s"

lemma delete_session_inv:
  assumes "delete_session hash dfile C0 s0 us C s" "delete_inv hash dfile m0 s0 [] C0 s0"
  shows "delete_inv hash dfile m0 s0 us C s"
  using assms
proof (induction rule: delete_session.induct)
  case (chunk us C s h rc C' s')
  then show ?case using delete_inv_chunk [of hash dfile m0 s0 us C s h rc C' s'] by auto
next
  case (extra us C s len)
  then have inv: "delete_inv hash dfile m0 s0 us C s" by blast
  then show ?case unfolding delete_inv_def chunks_delete_extrastats_def by simp
qed

text \<open>A chunk that is there is always deleted from the counts, and the call returns.\<close>

lemma chunks_delete_chunk_returns:
  assumes "delete_inv hash dfile m0 s0 us C s"
  obtains rc C' s' where "chunks_delete_chunk hash dfile C h s = Some (rc, C', s')"
proof -
  have "rwhashtab_read hash cd_hash (cdl_HT C) h = Some (dir_map (cdl_HT C) h)"
    using assms by (simp add: delete_inv_def rwhashtab_read_spec)
  then have "\<exists>rc C' s'. chunks_delete_chunk hash dfile C h s = Some (rc, C', s')"
    by (auto simp: chunks_delete_chunk_def Let_def split: option.splits prod.splits)
  with that show thesis by blast
qed

subsection \<open>Deleting what was written\<close>

lemma reloaded_ok:
  assumes "tally m0 us m" "directory_ok m0" "\<forall>k\<in>set us. refs m0 k \<noteq> - 1"
  shows "refs (reloaded () m) = refs m" "copies (reloaded () m) = copies m" "dom (reloaded () m) = dom m"
proof -
  have live: "cd_nrefs ch \<noteq> 0" if "m k = Some ch" for k ch
  proof -
    have r: "cd_nrefs ch = refs m0 k + (if k \<in> set us then 1 else 0)"
    proof -
      have "refs m k = cd_nrefs ch" using that by (simp add: refs_def)
      moreover have "refs m k = refs m0 k + (if k \<in> set us then 1 else 0)"
        using assms(1) unfolding tally_def by blast
      ultimately show ?thesis by simp
    qed
    show ?thesis
    proof (cases "k \<in> set us")
      case True
      then have "refs m0 k \<noteq> - 1" using assms(3) by blast
      then show ?thesis using r True by (simp add: add_eq_0_iff2)
    next
      case False
      then have "k \<in> dom m0" using assms(1) that by (auto simp: tally_def)
      then show ?thesis using r False assms(2) by (auto simp: refs_def directory_ok_def)
    qed
  qed
  have look: "reloaded () m k = map_option (stored ()) (m k)" for k
    using live [of k] by (cases "m k") (simp_all add: reloaded_def)
  show "refs (reloaded () m) = refs m" "copies (reloaded () m) = copies m"
    by (rule ext, simp add: refs_def copies_def look split: option.split)+
  show "dom (reloaded () m) = dom m" by (simp add: dom_def look)
qed

lemma reloaded_directory_ok:
  assumes "\<forall>k ch. m k = Some ch \<longrightarrow> cd_hash ch = k \<and> chunk_wf ch"
  shows "directory_ok (reloaded () m)"
  using assms by (auto simp: directory_ok_def reloaded_def chunk_wf_def and.assoc split: option.splits if_splits)

lemma chunkdata_eqI:
  "cd_hash a = cd_hash b \<Longrightarrow> cd_len a = cd_len b \<Longrightarrow> cd_zlen_flags a = cd_zlen_flags b \<Longrightarrow>
     cd_nrefs a = cd_nrefs b \<Longrightarrow> cd_ncopies a = cd_ncopies b \<Longrightarrow> (a :: chunkdata) = b"
  by simp

lemma delete_inverts_tally:
  assumes m0: "directory_ok m0" and w: "tally m0 us m" and d: "untally (reloaded () m) vs m2"
    and same: "mset vs = mset us" and bound: "\<forall>k\<in>set us. refs m0 k \<noteq> - 1"
  shows "reloaded () m2 = m0" "dead vs m2 = set us - dom m0"
proof -
  note r = reloaded_ok [OF w m0 bound]
  have sets: "set vs = set us" using same by (rule mset_eq_setD)
  have counts: "count_list vs k = count_list us k" for k using same by (simp flip: count_mset)
  have refs2: "refs m2 k = refs m0 k" for k
    using d w sets unfolding untally_def tally_def r by simp
  have copies2: "copies m2 k = copies m0 k" for k
    using d w unfolding untally_def tally_def r counts by simp
  have dom2: "dom m2 = dom m0 \<union> set us" using d w r(3) by (simp add: untally_def tally_def)
  show "dead vs m2 = set us - dom m0"
    unfolding dead_def refs2 sets using m0 by (auto simp: refs_def directory_ok_def split: option.splits)
  show "reloaded () m2 = m0"
  proof
    fix k
    show "reloaded () m2 k = m0 k"
    proof (cases "m0 k")
      case None
      then have "refs m2 k = 0" unfolding refs2 by (simp add: refs_def)
      then show ?thesis using None by (auto simp: reloaded_def refs_def split: option.splits)
    next
      case (Some ch0)
      then have ok0: "cd_hash ch0 = k" "cd_nrefs ch0 \<noteq> 0" "cd_zlen ch0 = cd_zlen_flags ch0"
        using m0 flags_zero_zlen by (auto simp: directory_ok_def)
      obtain ch1 where ch1: "m k = Some ch1" "cd_len ch1 = cd_len ch0" "cd_zlen ch1 = cd_zlen ch0"
        using w Some unfolding tally_def chunk_keeps_def by blast
      have "k \<in> dom (reloaded () m)" using r(3) ch1(1) by auto
      then have "reloaded () m k = Some (stored () ch1)"
        using ch1(1) by (auto simp: reloaded_def split: if_splits)
      moreover have "cd_len (stored () ch1) = cd_len ch0" "cd_zlen (stored () ch1) = cd_zlen ch0"
        using ch1 by (simp_all add: and.assoc)
      moreover have "chunk_keeps (reloaded () m) m2" using d by (simp add: untally_def)
      ultimately obtain ch2 where ch2: "m2 k = Some ch2" "cd_len ch2 = cd_len ch0" "cd_zlen ch2 = cd_zlen ch0"
        unfolding chunk_keeps_def by metis
      have "cd_hash ch2 = k" using d ch2(1) unfolding untally_def by blast
      moreover have "cd_nrefs ch2 = cd_nrefs ch0" "cd_ncopies ch2 = cd_ncopies ch0"
        using refs2 [of k] copies2 [of k] ch2(1) Some by (simp_all add: refs_def copies_def)
      ultimately have "stored () ch2 = ch0" "cd_nrefs ch2 \<noteq> 0"
        using ok0 ch2(2,3) by (auto intro!: chunkdata_eqI)
      then show ?thesis using ch2(1) Some by (simp add: reloaded_def)
    qed
  qed
qed

end
