(* ===== verification/Chunk_Lifecycle.thy ===== *)
theory Chunk_Lifecycle
  imports Chunks_Delete
begin

text \<open>
  The chunk layer as a whole: an archive is written, checkpointed and committed, and deleted and
  committed again, with the chunk directory on disk in between.
\<close>

lemma directory_bound:
  assumes "ht_inv hash cd_hash HT" "dom (dir_map HT) \<subseteq> dom m" "finite (dom m)" "card (dom m) \<le> n"
  shows "ht_numentries HT \<le> n"
  using ht_numentries_card [OF assms(1)] card_mono [OF assms(3,2)] assms(4) by simp

text \<open>What a directory written under a temporary name, moved and read is.\<close>

lemma read_live_directory:
  fixes HT :: "'a chunkdata_scheme rwhashtab"
  assumes "ht_inv hash cd_hash HT" "\<forall>k ch. dir_map HT k = Some ch \<longrightarrow> cd_nrefs ch \<noteq> 0 \<longrightarrow> chunk_wf ch"
    and "ht_numentries HT \<le> 2 ^ 48" "fs_names fs (directory_path path []) = Some f"
    and "fs_node fs f = Some (Regular (directory_file st (live (somes (ht_ht HT)))) s)"
  shows "\<exists>HT' fs'. chunks_directory_read no_fault hash2 (Some randbuf) ext (Some path) mustexist fs =
      Some (Some (HT', unique_of (dir_map HT'), total_of (dir_map HT'), st), fs') \<and>
    dir_inv hash2 HT' \<and> directory_ok (dir_map HT') \<and> dir_map HT' = reloaded ext (dir_map HT)"
proof -
  let ?rs = "live (somes (ht_ht HT))"
  have keys: "distinct (map cd_hash (somes (ht_ht HT)))"
    using assms(1) by (simp add: ht_inv_def tab_ok_def)
  have "\<forall>r\<in>set ?rs. chunk_wf r \<and> cd_nrefs r \<noteq> 0"
    using assms(2) ht_map_Some [OF assms(1)] by auto
  moreover have "distinct (map cd_hash ?rs)" using keys by (rule distinct_map_filter)
  moreover have "length ?rs \<le> 2 ^ 48"
    using assms(1,3) by (intro order_trans [OF length_filter_le]) (simp add: ht_inv_def)
  ultimately show ?thesis
    using read_of_directory_file [OF assms(4,5), of hash2 randbuf ext mustexist] map_of_live [OF assms(1), of ext]
    by auto
qed

lemma read_moved_directory:
  fixes HT :: "'a chunkdata_scheme rwhashtab"
  assumes "ht_inv hash cd_hash HT" "\<forall>k ch. dir_map HT k = Some ch \<longrightarrow> chunk_wf ch" "ht_numentries HT \<le> 2 ^ 48"
    and "fs_names fs (directory_path path []) = Some f"
    and "fs_node fs f = Some (Regular (directory_file st (live (somes (ht_ht HT)))) s)"
  shows "\<exists>HT' fs'. chunks_directory_read no_fault hash2 (Some randbuf) ext (Some path) mustexist fs =
      Some (Some (HT', unique_of (dir_map HT'), total_of (dir_map HT'), st), fs') \<and>
    dir_inv hash2 HT' \<and> directory_ok (dir_map HT') \<and> dir_map HT' = reloaded ext (dir_map HT)"
  by (rule read_live_directory [OF assms(1) _ assms(3-5)]) (use assms(2) in blast)

text \<open>The directory a delete transaction starts from when no call fails.\<close>

lemma delete_start_map:
  assumes "chunks_delete_start no_fault hash2 (Some randbuf) path fs = Some (Some D0, fs')"
    and "\<And>fs1. same_dir fs fs1 \<Longrightarrow> \<exists>HT' fs'. chunks_directory_read no_fault hash2 (Some randbuf) () (Some path) False fs1 =
      Some (Some (HT', unique_of (dir_map HT'), total_of (dir_map HT'), st), fs') \<and> dir_map HT' = m"
  shows "dir_map (cdl_HT D0) = m" "cdl_stats_extra D0 = st" "cdl_path D0 = path"
proof -
  obtain m0 fs1 where m0: "mem_call no_fault fs = (m0, fs1)" by fastforce
  obtain m1 fs2 where m1: "mem_call no_fault fs1 = (m1, fs2)" by fastforce
  have "same_dir fs fs2" using same_dir_trans [OF mem_call_result(1) [OF m0] mem_call_result(1) [OF m1]] .
  from assms(2) [OF this] show "dir_map (cdl_HT D0) = m" "cdl_stats_extra D0 = st" "cdl_path D0 = path"
    using assms(1) m0 m1 mem_call_result(2) [OF m0] mem_call_result(2) [OF m1]
    by (auto simp: chunks_delete_start_def)
qed

text \<open>A directory is published when it is in place on disk.\<close>

definition published :: "string \<Rightarrow> string \<Rightarrow> chunkstats \<Rightarrow> chunkdata rwhashtab \<Rightarrow> fs \<Rightarrow> bool" where
  "published path suff st HT fs \<longleftrightarrow>
     (\<exists>f. let d = directory_file st (live (somes (ht_ht HT))) in
        fs_names fs (directory_path path suff) = Some f \<and> fs_node fs f = Some (Regular d d) \<and>
        crash_views fs = {fs_names fs})"

lemma published_write:
  "chunks_directory_write flt path HT st suff fs = (0, fs') \<Longrightarrow> published path suff st HT fs'"
  using chunks_directory_write_spec [of flt path HT st suff fs fs'] by (auto simp: published_def Let_def)

lemma published_commit:
  assumes "published path osuff st HT fs" "osuff \<noteq> nsuff"
    "chunks_directory_commit flt path osuff nsuff fs = (0, fs')"
  shows "published path nsuff st HT fs'"
  using assms commit_moves [OF _ _ _ assms(2,3)] unfolding published_def Let_def by metis

lemma published_read:
  assumes "published path [] st HT fs" "same_dir fs fs1"
    "ht_inv hash cd_hash HT" "\<forall>k ch. dir_map HT k = Some ch \<longrightarrow> chunk_wf ch" "ht_numentries HT \<le> 2 ^ 48"
  shows "\<exists>HT' fs'. chunks_directory_read no_fault hash2 (Some randbuf) () (Some path) mustexist fs1 =
      Some (Some (HT', unique_of (dir_map HT'), total_of (dir_map HT'), st), fs') \<and>
    dir_map HT' = reloaded () (dir_map HT)"
proof -
  obtain f where "fs_names fs1 (directory_path path []) = Some f"
    "fs_node fs1 f = Some (Regular (directory_file st (live (somes (ht_ht HT))))
       (directory_file st (live (somes (ht_ht HT)))))"
    using assms(1) same_dirD [OF assms(2)] by (auto simp: published_def Let_def)
  from read_moved_directory [OF assms(3-5) this, of hash2 randbuf "()" mustexist] show ?thesis by auto
qed

lemma write_session_frame:
  "write_session hash compress2 wfile C0 s0 us C s \<Longrightarrow> cw_path C = cw_path C0 \<and> cw_S C = cw_S C0"
proof (induction rule: write_session.induct)
  case (chunk us C s h buf ma rc C' s')
  then show ?case
    by (auto simp: chunks_write_chunk_def chunks_write_new_def chunks_write_use_def Let_def
        split: if_splits option.splits sum.splits prod.splits)
next
  case (chunkref us C s h rc C')
  then show ?case by (auto simp: chunks_write_chunkref_def chunks_write_use_def split: option.splits)
qed (simp_all add: chunks_write_extrastats_def chunks_write_extrastats_copy_def)

lemma write_start_frame:
  "chunks_write_start flt hash entropy path S maxchunksize fs = Some (Some C0, fs') \<Longrightarrow>
     cw_path C0 = path \<and> cw_S C0 = S"
  by (auto simp: chunks_write_start_def split: if_splits option.splits prod.splits)

lemma delete_session_frame:
  "delete_session hash dfile D0 t0 vs D t \<Longrightarrow> cdl_path D = cdl_path D0"
proof (induction rule: delete_session.induct)
  case (chunk us C s h rc C' s')
  then show ?case
    by (auto simp: chunks_delete_chunk_def Let_def split: if_splits option.splits prod.splits)
qed (simp_all add: chunks_delete_extrastats_def)


text \<open>An archive that was checkpointed and committed is published, and so is one deleted.\<close>

lemma write_publishes:
  assumes started: "chunks_write_start flt hash entropy (Some path) True maxchunksize fs0 = Some (Some C0, fs1)"
    and written: "write_session hash compress2 wfile C0 s0 us C s"
    and ckpt: "chunks_write_checkpoint flt2 C fs1 = Some (0, fs2)"
    and committed: "chunks_transaction_checkpoint flt3 path fs2 = (0, fs3)"
      "chunks_transaction_commit flt4 path fs3 = (0, fs4)"
  shows "published path [] (cw_stats_extra C) (cw_HT C) fs4"
proof -
  have "cw_path C = Some path" "cw_S C"
    using write_session_frame [OF written] write_start_frame [OF started] by simp_all
  then have wr: "chunks_directory_write flt2 path (cw_HT C) (cw_stats_extra C) ''.ckpt'' fs1 = (0, fs2)"
    using ckpt by (auto simp: chunks_write_checkpoint_def split: prod.splits if_splits)
  have c3: "chunks_directory_commit flt3 path ''.ckpt'' ''.tmp'' fs2 = (0, fs3)"
    using committed(1) by (auto simp: chunks_transaction_checkpoint_def split: prod.splits if_splits)
  have c4: "chunks_directory_commit flt4 path ''.tmp'' [] fs3 = (0, fs4)"
    using committed(2) by (auto simp: chunks_transaction_commit_def split: prod.splits if_splits)
  have pub4: "published path [] (cw_stats_extra C) (cw_HT C) fs4"
    using published_commit [OF published_commit [OF published_write [OF wr] _ c3] _ c4] by simp
  then show ?thesis .
qed

lemma delete_publishes:
  assumes "delete_session hash2 dfile D0 t0 vs D t" "cdl_path D0 = path"
    and ended: "chunks_delete_end flt5 D fs5 = (0, fs6)"
    and committed: "chunks_transaction_commit flt6 path fs6 = (0, fs7)"
  shows "published path [] (cdl_stats_extra D) (cdl_HT D) fs7"
proof -
  have "cdl_path D = path" using delete_session_frame [OF assms(1)] assms(2) by simp
  then have "chunks_directory_write flt5 path (cdl_HT D) (cdl_stats_extra D) ''.tmp'' fs5 = (0, fs6)"
    using ended by (auto simp: chunks_delete_end_def split: prod.splits if_splits)
  moreover have "chunks_directory_commit flt6 path ''.tmp'' [] fs6 = (0, fs7)"
    using committed by (auto simp: chunks_transaction_commit_def split: prod.splits if_splits)
  ultimately show ?thesis using published_commit [OF published_write] by simp
qed

subsection \<open>Nothing blocks a life cycle in which no call fails\<close>

lemma publish_again_succeeds:
  assumes "\<And>i. fs_names fs (directory_path path suff) = Some i \<Longrightarrow> \<exists>d s. fs_node fs i = Some (Regular d s)"
  obtains fs' where "chunks_directory_write no_fault path HT st suff fs = (0, fs')"
    "\<And>q. q \<noteq> directory_path path suff \<Longrightarrow> fs_names fs' q = fs_names fs q"
proof -
  obtain rc fs' where w: "chunks_directory_write no_fault path HT st suff fs = (rc, fs')" by fastforce
  have "fst (chunks_directory_write no_fault path HT st suff fs) = 0"
    using assms by (intro chunks_directory_write_succeeds) simp
  with w have w0: "chunks_directory_write no_fault path HT st suff fs = (0, fs')" by simp
  moreover have "fs_names fs' q = fs_names fs q" if "q \<noteq> directory_path path suff" for q
    using chunks_directory_write_spec [OF w0] that by (auto simp: Let_def)
  ultimately show thesis using that by blast
qed

lemma publish_succeeds:
  assumes "fs_names fs (directory_path path suff) = None"
  obtains fs' where "chunks_directory_write no_fault path HT st suff fs = (0, fs')"
    "\<And>q. q \<noteq> directory_path path suff \<Longrightarrow> fs_names fs' q = fs_names fs q"
  using publish_again_succeeds [of fs path suff HT st] assms by auto

lemma commit_succeeds:
  assumes "published path osuff st HT fs" "osuff \<noteq> nsuff"
  obtains fs' where "chunks_directory_commit no_fault path osuff nsuff fs = (0, fs')"
    "published path nsuff st HT fs'" "fs_names fs' (directory_path path osuff) = None"
    "\<And>q. q \<noteq> directory_path path osuff \<Longrightarrow> q \<noteq> directory_path path nsuff \<Longrightarrow> fs_names fs' q = fs_names fs q"
proof -
  obtain f where "fs_names fs (directory_path path osuff) = Some f" "crash_views fs = {fs_names fs}"
    using assms(1) by (auto simp: published_def Let_def)
  then have "commit_inv (directory_path path nsuff) (directory_path path osuff) f fs"
    by (simp add: commit_inv_def phase_tmp_def)
  from chunks_directory_commit_ok [OF this assms(2), of no_fault]
  obtain fs' where c: "chunks_directory_commit no_fault path osuff nsuff fs = (0, fs')"
    "fs_names fs' (directory_path path osuff) = None"
    "\<And>q. q \<noteq> directory_path path osuff \<Longrightarrow> q \<noteq> directory_path path nsuff \<Longrightarrow> fs_names fs' q = fs_names fs q"
    by (auto simp: commit_step_ok_def split: prod.splits)
  show thesis using that [OF c(1) published_commit [OF assms c(1)] c(2,3)] .
qed

lemma delete_start_succeeds:
  assumes "published path [] st HT fs" "ht_inv hash cd_hash HT"
    "\<forall>k ch. dir_map HT k = Some ch \<longrightarrow> chunk_wf ch" "ht_numentries HT \<le> 2 ^ 48"
  obtains D0 fs' where "chunks_delete_start no_fault hash2 (Some randbuf) path fs = Some (Some D0, fs')"
    "same_dir fs fs'" "dir_map (cdl_HT D0) = reloaded () (dir_map HT)"
proof -
  obtain m0 fs1 where m0: "mem_call no_fault fs = (m0, fs1)" by fastforce
  obtain m1 fs2 where m1: "mem_call no_fault fs1 = (m1, fs2)" by fastforce
  note same = same_dir_trans [OF mem_call_result(1) [OF m0] mem_call_result(1) [OF m1]]
  obtain HT' fs' where r: "chunks_directory_read no_fault hash2 (Some randbuf) () (Some path) False fs2 =
      Some (Some (HT', unique_of (dir_map HT'), total_of (dir_map HT'), st), fs')"
    "dir_map HT' = reloaded () (dir_map HT)"
    using published_read [OF assms(1) same assms(2-4)] by blast
  have "same_dir fs fs'"
    using same_dir_trans [OF same]
      chunks_directory_read_sound [of no_fault hash2 "Some randbuf" "()" "Some path" False fs2] r(1) by auto
  then show thesis
    using that m0 m1 r mem_call_result(2) [OF m0] mem_call_result(2) [OF m1]
    by (simp add: chunks_delete_start_def)
qed

lemma delete_session_possible:
  assumes "delete_inv hash dfile m0 t0 [] D0 t0" "set vs \<subseteq> dom m0"
  obtains D t where "delete_session hash dfile D0 t0 vs D t"
proof -
  have "\<exists>D t. delete_session hash dfile D0 t0 vs D t"
    using assms(2)
  proof (induction vs rule: rev_induct)
    case Nil
    show ?case by (intro exI, rule delete_session.start)
  next
    case (snoc v vs)
    then obtain D t where s: "delete_session hash dfile D0 t0 vs D t" by auto
    have inv: "delete_inv hash dfile m0 t0 vs D t" using delete_session_inv [OF s assms(1)] .
    obtain rc D' t' where call: "chunks_delete_chunk hash dfile D v t = Some (rc, D', t')"
      using chunks_delete_chunk_returns [OF inv] .
    have "dir_map (cdl_HT D) v \<noteq> None"
      using inv snoc.prems by (auto simp: delete_inv_def untally_def)
    then have "delete_session hash dfile D0 t0 (vs @ [v]) D' t'"
      using delete_session.chunk [OF s call] by (simp only: if_False)
    then show ?case by (intro exI)
  qed
  then show thesis using that by (elim exE)
qed

lemma delete_start_frame:
  "chunks_delete_start flt hash entropy path fs = Some (Some D0, fs') \<Longrightarrow> cdl_path D0 = path"
  by (auto simp: chunks_delete_start_def split: if_splits option.splits prod.splits)

subsection \<open>A sample run\<close>

lemma sample_life:
  obtains C fs2 fs3 fs4 D0 fs5 D t where
    "write_session sample_hash sample_zlib sample_wfile sample_w 0 [replicate 32 3, replicate 32 3] C 1"
    "ht_numentries (cw_HT C) \<le> 2 ^ 48"
    "chunks_write_checkpoint no_fault C (empty_fs\<lparr>fs_calls := 7\<rparr>) = Some (0, fs2)"
    "chunks_transaction_checkpoint no_fault ''c'' fs2 = (0, fs3)"
    "chunks_transaction_commit no_fault ''c'' fs3 = (0, fs4)"
    "chunks_delete_start no_fault sample_hash (Some [7]) ''c'' fs4 = Some (Some D0, fs5)"
    "refs (dir_map (cdl_HT D0)) (replicate 32 3) = 1"
    "delete_session sample_hash (\<lambda>n c h. (0, Suc n)) D0 (0::nat) [replicate 32 3, replicate 32 3] D t"
    "fs_names fs5 (directory_path ''c'' ''.tmp'') = None"
proof -
  let ?h = "replicate 32 3 :: bytes"
  let ?fs1 = "empty_fs\<lparr>fs_calls := 7\<rparr>"
  obtain C where C: "write_session sample_hash sample_zlib sample_wfile sample_w 0 [?h, ?h] C 1"
    by (rule sample_session)
  have empty: "dir_map (cw_HT sample_w) = Map.empty" by (simp add: sample_w_def ht_map_def)
  have inv: "write_inv sample_hash Map.empty [?h, ?h] C"
    using write_session_inv [OF C write_inv_start(1) [OF sample_start] sample_zlib_ok] by (simp add: empty)
  then have dir: "dir_inv sample_hash (cw_HT C)" and tally: "tally Map.empty [?h, ?h] (dir_map (cw_HT C))"
    by (simp_all add: write_inv_def)
  have dom: "dom (dir_map (cw_HT C)) = {?h}" using tally by (simp add: tally_def)
  then have small: "ht_numentries (cw_HT C) \<le> 2 ^ 48" using ht_numentries_card [OF dir] by simp
  have wf: "\<forall>k ch. dir_map (cw_HT C) k = Some ch \<longrightarrow> chunk_wf ch" using tally unfolding tally_def by blast
  have frame: "cw_path C = Some ''c''" "cw_S C"
    using write_session_frame [OF C] by (simp_all add: sample_w_def)
  have none: "fs_names ?fs1 q = None" for q by (simp add: empty_fs_def fs_names_def)
  obtain fs2 where wr: "chunks_directory_write no_fault ''c'' (cw_HT C) (cw_stats_extra C) ''.ckpt'' ?fs1 = (0, fs2)"
    by (rule publish_succeeds [of ?fs1 "''c''" "''.ckpt''" "cw_HT C" "cw_stats_extra C", OF none])
  then have ckpt: "chunks_write_checkpoint no_fault C ?fs1 = Some (0, fs2)"
    using frame by (simp add: chunks_write_checkpoint_def)
  obtain fs3 where c3: "chunks_directory_commit no_fault ''c'' ''.ckpt'' ''.tmp'' fs2 = (0, fs3)"
    "published ''c'' ''.tmp'' (cw_stats_extra C) (cw_HT C) fs3"
    by (rule commit_succeeds [OF published_write [OF wr], of "''.tmp''"]) simp
  obtain fs4 where c4: "chunks_directory_commit no_fault ''c'' ''.tmp'' [] fs3 = (0, fs4)"
    "published ''c'' [] (cw_stats_extra C) (cw_HT C) fs4" "fs_names fs4 (directory_path ''c'' ''.tmp'') = None"
    by (rule commit_succeeds [OF c3(2), of "[]"]) simp
  have committed: "chunks_transaction_checkpoint no_fault ''c'' fs2 = (0, fs3)"
    "chunks_transaction_commit no_fault ''c'' fs3 = (0, fs4)"
    using c3(1) c4(1) by (simp_all add: chunks_transaction_checkpoint_def chunks_transaction_commit_def)
  obtain D0 fs5 where d0: "chunks_delete_start no_fault sample_hash (Some [7]) ''c'' fs4 = Some (Some D0, fs5)"
    "same_dir fs4 fs5" "dir_map (cdl_HT D0) = reloaded () (dir_map (cw_HT C))"
    using delete_start_succeeds [OF c4(2) dir wf small] .
  note again = reloaded_ok [OF tally directory_ok_empty]
  have ref: "refs (dir_map (cdl_HT D0)) ?h = 1"
    unfolding d0(3) using again(1) tally by (simp add: refs_def [of Map.empty] tally_def)
  have "dom (dir_map (cdl_HT D0)) = {?h}"
    unfolding d0(3) using again(3) dom by (simp add: refs_def)
  then have "set [?h, ?h] \<subseteq> dom (dir_map (cdl_HT D0))" by simp
  from delete_session_possible [OF delete_inv_start(1) [OF d0(1)] this]
  obtain D t where ds: "delete_session sample_hash (\<lambda>n c h. (0, Suc n)) D0 (0::nat) [?h, ?h] D t" .
  have "fs_names fs5 (directory_path ''c'' ''.tmp'') = None" using c4(3) same_dirD [OF d0(2)] by simp
  with that C small ckpt committed d0(1) ref ds show thesis by blast
qed

section \<open>Properties\<close>

text \<open>C12: Deleting an archive undoes writing it, on disk.  An archive that uses the chunks \<open>us\<close> is
  written, its directory checkpointed and committed; a later run deletes the same chunks in any
  order and commits.  Then the chunk directory of the cache reads back as it was before the
  archive, and the chunk files handed to the storage layer for deletion are exactly those the
  archive had added, each once.  (No chunk may be referenced by \<open>2 ^ 32 - 1\<close> archives already.)\<close>

theorem delete_undoes_write:
  assumes started: "chunks_write_start flt hash entropy (Some path) True maxchunksize fs0 = Some (Some C0, fs1)"
    and written: "zlib_ok compress2" "write_session hash compress2 wfile C0 s0 us C s"
    and small: "ht_numentries (cw_HT C) \<le> 2 ^ 48" "\<forall>k\<in>set us. refs (ht_map cd_hash (cw_HT C0)) k \<noteq> - 1"
    and ckpt: "chunks_write_checkpoint flt2 C fs1 = Some (0, fs2)"
    and committed: "chunks_transaction_checkpoint flt3 path fs2 = (0, fs3)"
      "chunks_transaction_commit flt4 path fs3 = (0, fs4)"
    and dstarted: "chunks_delete_start no_fault hash2 (Some randbuf) path fs4 = Some (Some D0, fs5)"
    and deleted: "delete_session hash2 dfile D0 t0 vs D t" "mset vs = mset us"
    and dcommitted: "chunks_delete_end flt5 D fs5 = (0, fs6)" "chunks_transaction_commit flt6 path fs6 = (0, fs7)"
  shows "\<exists>HT uniq all extra fs8 ds.
    chunks_directory_read no_fault hash3 (Some randbuf3) () (Some path) mustexist fs7 =
      Some (Some (HT, uniq, all, extra), fs8) \<and>
    ht_map cd_hash HT = ht_map cd_hash (cw_HT C0) \<and>
    t = fold (\<lambda>k s. snd (dfile s (CHR ''c'') k)) ds t0 \<and> distinct ds \<and>
    set ds = set us - dom (ht_map cd_hash (cw_HT C0))"
proof -
  let ?old = "dir_map (cw_HT C0)" and ?new = "dir_map (cw_HT C)" and ?fin = "dir_map (cdl_HT D)"
  note inv0 = write_inv_start [OF started]
  have inv: "write_inv hash ?old us C" by (rule write_session_inv [OF written(2) inv0(1) written(1)])
  then have dir: "dir_inv hash (cw_HT C)" and tally: "tally ?old us ?new" by (simp_all add: write_inv_def)
  have wf: "\<forall>k ch. ?new k = Some ch \<longrightarrow> chunk_wf ch" using tally unfolding tally_def by blast
  have pub4: "published path [] (cw_stats_extra C) (cw_HT C) fs4"
    using write_publishes [OF started written(2) ckpt committed] .
  have rd: "\<exists>HT' fs'. chunks_directory_read no_fault hash2 (Some randbuf) () (Some path) False fs1 =
      Some (Some (HT', unique_of (dir_map HT'), total_of (dir_map HT'), cw_stats_extra C), fs') \<and>
      dir_map HT' = reloaded () ?new" if "same_dir fs4 fs1" for fs1
    using published_read [OF pub4 that dir wf small(1)] .
  have d0: "dir_map (cdl_HT D0) = reloaded () ?new" "cdl_path D0 = path"
    using delete_start_map [OF dstarted rd] by blast+
  note dinv0 = delete_inv_start(1) [OF dstarted, of dfile t0]
  have "delete_inv hash2 dfile (reloaded () ?new) t0 vs D t"
    using delete_session_inv [OF deleted(1) dinv0] unfolding d0(1) .
  then have dir2: "dir_inv hash2 (cdl_HT D)" and untally: "untally (reloaded () ?new) vs ?fin"
    and files: "\<exists>ds. t = fold (\<lambda>k s. snd (dfile s (CHR ''c'') k)) ds t0 \<and> distinct ds \<and> set ds = dead vs ?fin"
    unfolding delete_inv_def by blast+
  note inverse = delete_inverts_tally [OF inv0(2) tally untally deleted(2) small(2)]
  have wf2: "\<forall>k ch. ?fin k = Some ch \<longrightarrow> chunk_wf ch" using untally unfolding untally_def by blast
  have "dom ?fin \<subseteq> dom ?new" using untally by (auto simp: untally_def reloaded_def split: option.splits)
  moreover have "card (dom ?new) \<le> 2 ^ 48" using ht_numentries_card [OF dir] small(1) by simp
  ultimately have small2: "ht_numentries (cdl_HT D) \<le> 2 ^ 48"
    using directory_bound [OF dir2, of ?new] by simp
  have "published path [] (cdl_stats_extra D) (cdl_HT D) fs7"
    using delete_publishes [OF deleted(1) d0(2) dcommitted] .
  from published_read [OF this same_dir_refl dir2 wf2 small2, of hash3 randbuf3 mustexist]
  obtain HT' fs' where "chunks_directory_read no_fault hash3 (Some randbuf3) () (Some path) mustexist fs7 =
      Some (Some (HT', unique_of (dir_map HT'), total_of (dir_map HT'), cdl_stats_extra D), fs')"
    "dir_map HT' = reloaded () ?fin" by blast
  then show ?thesis using inverse files by metis
qed


text \<open>C18: A delete transaction takes back exactly what it deletes.  Whatever the storage layer
  answers, after the calls that deleted \<open>us\<close> each chunk has one reference less if it was used at
  all and one copy less per use, nothing else about a chunk has changed, and the chunk files
  handed to the storage layer are those whose last reference went, each exactly once.\<close>

theorem delete_counts_uses:
  assumes "chunks_delete_start flt hash entropy path fs = Some (Some D0, fs')"
    and "delete_session hash dfile D0 t0 us D t"
  shows "\<exists>m0 m ds. m0 = ht_map cd_hash (cdl_HT D0) \<and> m = ht_map cd_hash (cdl_HT D) \<and>
    dom m = dom m0 \<and> chunk_keeps m0 m \<and>
    (\<forall>k. refs m k = refs m0 k - (if k \<in> set us then 1 else 0) \<and>
         copies m k = copies m0 k - of_nat (count_list us k)) \<and>
    distinct ds \<and> set ds = {k \<in> set us. refs m0 k = 1} \<and>
    t = fold (\<lambda>k s. snd (dfile s (CHR ''c'') k)) ds t0"
proof -
  let ?old = "dir_map (cdl_HT D0)" and ?new = "dir_map (cdl_HT D)"
  have inv: "delete_inv hash dfile ?old t0 us D t"
    using delete_session_inv [OF assms(2) delete_inv_start(1) [OF assms(1)]] .
  then have u: "untally ?old us ?new" by (simp add: delete_inv_def)
  then have "dead us ?new = {k \<in> set us. refs ?old k = 1}" by (auto simp: dead_def untally_def)
  then obtain ds where "distinct ds" "set ds = {k \<in> set us. refs ?old k = 1}"
    "t = fold (\<lambda>k s. snd (dfile s (CHR ''c'') k)) ds t0"
    using inv by (auto simp: delete_inv_def)
  then show ?thesis
    using u by (intro exI [of _ ?old] exI [of _ ?new] exI [of _ ds]) (simp add: untally_def)
qed

theorem delete_counts_uses_witness:
  "\<exists>D0 D t. delete_session sample_hash (\<lambda>n c h. (0, Suc n)) D0 (0::nat) [replicate 32 3, replicate 32 3] D t \<and>
     refs (ht_map cd_hash (cdl_HT D0)) (replicate 32 3) = 1 \<and>
     refs (ht_map cd_hash (cdl_HT D)) (replicate 32 3) = 0"
proof (rule sample_life)
  fix C fs2 fs3 fs4 D0 fs5 D t
  assume d: "chunks_delete_start no_fault sample_hash (Some [7]) ''c'' fs4 = Some (Some D0, fs5)"
    "refs (dir_map (cdl_HT D0)) (replicate 32 3) = 1"
    "delete_session sample_hash (\<lambda>n c h. (0, Suc n)) D0 (0::nat) [replicate 32 3, replicate 32 3] D t"
  have "refs (ht_map cd_hash (cdl_HT D)) (replicate 32 3) = 0"
    using delete_counts_uses [OF d(1,3)] d(2) by auto
  with d(2,3) show ?thesis by blast
qed

text \<open>C19: The statistics of a delete transaction are exact: the archive's own are the sizes of the
  chunks as they are deleted, with repetitions; the total is the sum over the directory less
  those; and the unique total is the sum over the directory less the chunks that were freed, which
  are those whose last reference went.\<close>

theorem delete_statistics:
  assumes "chunks_delete_start flt hash entropy path fs = Some (Some D0, fs')"
    and "delete_session hash dfile D0 t0 us D t"
  shows "\<exists>m ds. m = ht_map cd_hash (cdl_HT D0) \<and>
    cdl_stats_tape D = use_stats m us \<and>
    chunks_stats_addstats (cdl_stats_total D) (use_stats m us) = total_of m \<and>
    distinct ds \<and> set ds = {k \<in> set us. refs (ht_map cd_hash (cdl_HT D)) k = 0} \<and>
    cdl_stats_freed D = use_stats m ds \<and>
    chunks_stats_addstats (cdl_stats_unique D) (use_stats m ds) = unique_of m"
proof -
  let ?m = "dir_map (cdl_HT D0)"
  have inv: "delete_inv hash dfile ?m t0 us D t"
    using delete_session_inv [OF assms(2) delete_inv_start(1) [OF assms(1)]] .
  then have u: "untally ?m us (dir_map (cdl_HT D))" by (simp add: delete_inv_def)
  then have "chunk_keeps ?m (dir_map (cdl_HT D))" "set us \<subseteq> dom ?m" by (simp_all add: untally_def)
  note same = use_stats_keeps [OF this(1)] this(2)
  obtain ds where ds: "distinct ds" "set ds = dead us (dir_map (cdl_HT D))"
    "cdl_stats_freed D = use_stats (dir_map (cdl_HT D)) ds"
    using inv by (auto simp: delete_inv_def)
  then have "set ds \<subseteq> dom ?m" using same(2) by (auto simp: dead_def)
  then show ?thesis
    using inv ds same by (intro exI [of _ ?m] exI [of _ ds]) (simp add: delete_inv_def dead_def)
qed

theorem delete_statistics_witness:
  "\<exists>D0 D t. delete_session sample_hash (\<lambda>n c h. (0, Suc n)) D0 (0::nat) [replicate 32 3, replicate 32 3] D t \<and>
     cdl_stats_tape D = use_stats (ht_map cd_hash (cdl_HT D0)) [replicate 32 3, replicate 32 3]"
proof (rule sample_life)
  fix C fs2 fs3 fs4 D0 fs5 D t
  assume d: "chunks_delete_start no_fault sample_hash (Some [7]) ''c'' fs4 = Some (Some D0, fs5)"
    "delete_session sample_hash (\<lambda>n c h. (0, Suc n)) D0 (0::nat) [replicate 32 3, replicate 32 3] D t"
  with delete_statistics [OF this] show ?thesis by blast
qed

theorem delete_undoes_write_witness:
  "\<exists>C fs7 HT uniq all extra fs8 ds.
     write_session sample_hash sample_zlib sample_wfile sample_w 0 [replicate 32 3, replicate 32 3] C 1 \<and>
     chunks_directory_read no_fault sample_hash (Some [7]) () (Some ''c'') True fs7 =
       Some (Some (HT, uniq, all, extra), fs8) \<and>
     ht_map cd_hash HT = Map.empty \<and> set ds = {replicate 32 (3::u8)}"
proof (rule sample_life)
  fix C fs2 fs3 fs4 D0 fs5 D t
  let ?h = "replicate 32 3 :: bytes"
  assume run: "write_session sample_hash sample_zlib sample_wfile sample_w 0 [?h, ?h] C 1"
    "ht_numentries (cw_HT C) \<le> 2 ^ 48"
    "chunks_write_checkpoint no_fault C (empty_fs\<lparr>fs_calls := 7\<rparr>) = Some (0, fs2)"
    "chunks_transaction_checkpoint no_fault ''c'' fs2 = (0, fs3)"
    "chunks_transaction_commit no_fault ''c'' fs3 = (0, fs4)"
    "chunks_delete_start no_fault sample_hash (Some [7]) ''c'' fs4 = Some (Some D0, fs5)"
    "delete_session sample_hash (\<lambda>n c h. (0, Suc n)) D0 (0::nat) [?h, ?h] D t"
    "fs_names fs5 (directory_path ''c'' ''.tmp'') = None"
  have empty: "dir_map (cw_HT sample_w) = Map.empty" by (simp add: sample_w_def ht_map_def)
  have bound: "\<forall>k\<in>set [?h, ?h]. refs (ht_map cd_hash (cw_HT sample_w)) k \<noteq> - 1"
    by (simp add: empty refs_def)
  have path: "cdl_path D = ''c''"
    using delete_session_frame [OF run(7)] delete_start_frame [OF run(6)] by simp
  obtain fs6 where wr6: "chunks_directory_write no_fault ''c'' (cdl_HT D) (cdl_stats_extra D) ''.tmp'' fs5 = (0, fs6)"
    by (rule publish_succeeds [OF run(8)])
  obtain fs7 where c7: "chunks_directory_commit no_fault ''c'' ''.tmp'' [] fs6 = (0, fs7)"
    by (rule commit_succeeds [OF published_write [OF wr6], of "[]"]) simp
  have fin: "chunks_delete_end no_fault D fs5 = (0, fs6)" "chunks_transaction_commit no_fault ''c'' fs6 = (0, fs7)"
    using wr6 c7 path by (simp_all add: chunks_delete_end_def chunks_transaction_commit_def)
  from delete_undoes_write [OF sample_start sample_zlib_ok run(1,2) bound run(3-7) refl fin,
      of sample_hash "[7]" True]
  obtain HT uniq all extra fs8 ds' where
    "chunks_directory_read no_fault sample_hash (Some [7]) () (Some ''c'') True fs7 =
       Some (Some (HT, uniq, all, extra), fs8)"
    "ht_map cd_hash HT = Map.empty" "set ds' = {?h}"
    by (auto simp: empty)
  with run(1) show ?thesis by blast
qed

end
