(* ===== verification/Hexify.thy ===== *)
theory Hexify
  imports Prelude
begin

text \<open>
  \<^verbatim>\<open>libcperciva/util/hexify.c\<close>: hexadecimal text of byte buffers.  A C string is the list of
  its characters before the terminating NUL; reading at its end gives the NUL.
\<close>

definition cstr_at :: "string \<Rightarrow> nat \<Rightarrow> char" where
  "cstr_at s i = (if i < length s then s ! i else CHR 0x00)"

fun strchr :: "string \<Rightarrow> char \<Rightarrow> nat option" where
  "strchr [] c = None"
| "strchr (x # xs) c = (if x = c then Some 0 else map_option Suc (strchr xs c))"

definition hexchars :: string where
  "hexchars = ''0123456789abcdef0123456789ABCDEF''"

fun hexify :: "bytes \<Rightarrow> string" where
  "hexify [] = []"
| "hexify (b # bs) =
     hexchars ! unat (drop_bit 4 b) # hexchars ! unat (b AND 0x0f) # hexify bs"

text \<open>The first loop: \<^verbatim>\<open>2 * len\<close> characters, none of them NUL, all of the alphabet.\<close>

fun hex_check :: "string \<Rightarrow> nat \<Rightarrow> nat \<Rightarrow> bool" where
  "hex_check s i 0 = True"
| "hex_check s i (Suc n) =
     (if cstr_at s i = CHR 0x00 \<or> strchr hexchars (cstr_at s i) = None then False
      else hex_check s (i + 1) n)"

definition hex_pos :: "string \<Rightarrow> nat \<Rightarrow> nat" where
  "hex_pos s i = the (strchr hexchars (cstr_at s i))"

text \<open>The second loop: two characters to one byte.\<close>

fun hex_bytes :: "string \<Rightarrow> nat \<Rightarrow> nat \<Rightarrow> bytes" where
  "hex_bytes s i 0 = []"
| "hex_bytes s i (Suc n) =
     (of_nat (push_bit 4 (hex_pos s (2 * i) AND 0x0f)) +
      of_nat (hex_pos s (2 * i + 1) AND 0x0f)) # hex_bytes s (i + 1) n"

definition unhexify :: "string \<Rightarrow> nat \<Rightarrow> bytes option" where
  "unhexify s len = (if hex_check s 0 (2 * len) then Some (hex_bytes s 0 len) else None)"

subsection \<open>Lemmas\<close>

lemma length_hexify [simp, length_simps]: "length (hexify bs) = 2 * length bs"
  by (induction bs rule: hexify.induct) auto

lemma less_16_cases:
  assumes "(n::nat) < 16"
  obtains "n = 0" | "n = 1" | "n = 2" | "n = 3" | "n = 4" | "n = 5" | "n = 6" | "n = 7"
    | "n = 8" | "n = 9" | "n = 10" | "n = 11" | "n = 12" | "n = 13" | "n = 14" | "n = 15"
  using assms by (auto simp: less_Suc_eq numeral_eq_Suc)

lemma strchr_hexchars: "n < 16 \<Longrightarrow> strchr hexchars (hexchars ! n) = Some n"
  by (erule less_16_cases) (simp_all add: hexchars_def)

lemma hexchars_not_NUL: "n < 16 \<Longrightarrow> hexchars ! n \<noteq> CHR 0x00"
  by (erule less_16_cases) (simp_all add: hexchars_def)

lemma unat_high_nibble: "unat (drop_bit 4 (b :: u8)) = unat b div 16"
  by (simp only: unat_drop_bit_eq) (simp add: drop_bit_eq_div)

lemma unat_low_nibble: "unat ((b :: u8) AND 0x0f) = unat b mod 16"
proof -
  have "(0x0f :: u8) = mask 4" by (simp add: mask_eq_exp_minus_1)
  then have "b AND 0x0f = take_bit 4 b" by (simp only: take_bit_eq_mask)
  then show ?thesis by (simp only: unsigned_take_bit_eq) (simp add: take_bit_eq_mod)
qed

lemma nibbles_less: "unat (drop_bit 4 (b :: u8)) < 16" "unat ((b :: u8) AND 0x0f) < 16"
  using unat_u8_less [of b] by (simp_all add: unat_high_nibble unat_low_nibble less_mult_imp_div_less)

lemma nat_and_15: "(n::nat) < 16 \<Longrightarrow> n AND 15 = n"
  using nat_and_mask [of n 4] by simp

lemma nibbles_join:
  "of_nat (push_bit 4 (unat (drop_bit 4 b))) + of_nat (unat (b AND 0x0f)) = (b :: u8)"
proof -
  have "push_bit 4 (unat (drop_bit 4 b)) + unat (b AND 0x0f) = unat b"
    by (simp add: unat_high_nibble unat_low_nibble push_bit_eq_mult)
  then show ?thesis by (metis of_nat_add word_of_nat_eq_iff of_nat_unat ucast_id)
qed

lemma cstr_at_append [simp]: "cstr_at (s @ r) (length s + i) = cstr_at r i"
  by (simp add: cstr_at_def nth_append)

lemma hex_check_all:
  "hex_check s i n \<longleftrightarrow> (\<forall>j<n. cstr_at s (i + j) \<noteq> CHR 0x00 \<and> strchr hexchars (cstr_at s (i + j)) \<noteq> None)"
proof (induction n arbitrary: i)
  case (Suc n)
  then show ?case by (auto simp: All_less_Suc2)
qed simp

lemma hexify_nth:
  "i < length bs \<Longrightarrow> hexify bs ! (2 * i) = hexchars ! unat (drop_bit 4 (bs ! i))"
  "i < length bs \<Longrightarrow> hexify bs ! (2 * i + 1) = hexchars ! unat (bs ! i AND 0x0f)"
  by (induction bs arbitrary: i rule: hexify.induct) (auto simp: nth_Cons split: nat.splits)

lemma hex_check_hexify: "hex_check (hexify bs @ r) 0 (2 * length bs)"
  unfolding hex_check_all
proof (intro allI impI)
  fix j assume j: "j < 2 * length bs"
  then have at: "cstr_at (hexify bs @ r) (0 + j) = hexify bs ! j"
    by (simp add: cstr_at_def nth_append)
  obtain n where "n < 16" "hexify bs ! j = hexchars ! n"
  proof (cases "even j")
    case True
    then obtain i where "j = 2 * i" by (rule evenE)
    with j that show thesis using hexify_nth(1) [of i bs] nibbles_less(1) by auto
  next
    case False
    then obtain i where "j = 2 * i + 1" by (rule oddE)
    with j that show thesis using hexify_nth(2) [of i bs] nibbles_less(2) by auto
  qed
  with at show "cstr_at (hexify bs @ r) (0 + j) \<noteq> CHR 0x00 \<and>
      strchr hexchars (cstr_at (hexify bs @ r) (0 + j)) \<noteq> None"
    by (simp add: strchr_hexchars hexchars_not_NUL)
qed

lemma hex_bytes_hexify:
  "i + n = length bs \<Longrightarrow> hex_bytes (hexify bs @ r) i n = drop i bs"
proof (induction n arbitrary: i)
  case (Suc n)
  then have i: "i < length bs" by simp
  have "hex_pos (hexify bs @ r) (2 * i) = unat (drop_bit 4 (bs ! i))"
    "hex_pos (hexify bs @ r) (2 * i + 1) = unat (bs ! i AND 0x0f)"
    using i hexify_nth [OF i] nibbles_less [of "bs ! i"]
    by (simp_all add: hex_pos_def cstr_at_def nth_append strchr_hexchars)
  then show ?case
    using Suc.IH [of "i + 1"] Suc.prems i nibbles_less [of "bs ! i"] nibbles_join [of "bs ! i"]
    by (simp add: nat_and_15 Cons_nth_drop_Suc)
qed simp

lemma unhexify_hexify [codec_simps]: "unhexify (hexify bs @ r) (length bs) = Some bs"
  using hex_check_hexify hex_bytes_hexify [of 0 "length bs" bs r] by (simp add: unhexify_def)

lemma unhexify_length: "unhexify s n = Some bs \<Longrightarrow> length bs = n"
proof -
  have "length (hex_bytes s i n) = n" for i by (induction n arbitrary: i) auto
  then show "unhexify s n = Some bs \<Longrightarrow> length bs = n" by (auto simp: unhexify_def split: if_splits)
qed

lemma unhexify_short: "length s < 2 * n \<Longrightarrow> unhexify s n = None"
  by (auto simp: unhexify_def hex_check_all cstr_at_def)

section \<open>Properties\<close>

text \<open>Decoding the hexadecimal text of a buffer gives the buffer back, whatever follows the
  text in memory.\<close>

theorem hexify_roundtrip: "unhexify (hexify bs @ r) (length bs) = Some bs"
  by (rule unhexify_hexify)

end
