(* ===== verification/Hexlink.thy ===== *)
theory Hexlink
  imports Hexify Posix_Dir
begin

text \<open>
  \<^verbatim>\<open>lib/util/hexlink.c\<close>: small records (sequence numbers, nonces) kept as the targets of
  symbolic links, in hexadecimal.  The reader returns its data or the \<^verbatim>\<open>errno\<close> it leaves.
\<close>

definition hexlink_write :: "fault \<Rightarrow> string \<Rightarrow> bytes \<Rightarrow> fs \<Rightarrow> int \<times> fs" where
  "hexlink_write flt path buf fs =
     (case plain_call flt fs of
        (Inl e, fs) \<Rightarrow> (-1, fs)
      | (Inr _, fs) \<Rightarrow>
          (case symlink flt (hexify buf) path fs of
             (Inl e, fs) \<Rightarrow> (-1, fs)
           | (Inr _, fs) \<Rightarrow> (0, fs)))"

definition hexlink_read :: "fault \<Rightarrow> string \<Rightarrow> nat \<Rightarrow> fs \<Rightarrow> (errno + bytes) \<times> fs" where
  "hexlink_read flt path buflen fs =
     (case plain_call flt fs of
        (Inl e, fs) \<Rightarrow> (Inl e, fs)
      | (Inr _, fs) \<Rightarrow>
          (case readlink flt path (buflen * 2) fs of
             (Inl e, fs) \<Rightarrow> (Inl e, fs)
           | (Inr hexbuf, fs) \<Rightarrow>
               if length hexbuf \<noteq> buflen * 2 then (Inl E0, fs)
               else (case unhexify hexbuf buflen of
                       None \<Rightarrow> (Inl E0, fs)
                     | Some buf \<Rightarrow> (Inr buf, fs))))"

subsection \<open>Lemmas\<close>

lemma symlink_result:
  assumes "symlink flt tgt p fs = (r, fs')"
  shows "r = Inl e \<Longrightarrow> same_dir fs fs'"
    "r = Inr u \<Longrightarrow> fs_names fs p = None \<and> fs_names fs' = (fs_names fs)(p \<mapsto> fs_next fs) \<and>
       crash_views fs' = crash_views fs \<union> (\<lambda>v. v(p \<mapsto> fs_next fs)) ` crash_views fs \<and>
       fs_node fs' = (fs_node fs)(fs_next fs \<mapsto> Symlink tgt) \<and> fs_next fs' = Suc (fs_next fs) \<and>
       fs_atomic_rename fs' = fs_atomic_rename fs"
    "flt = no_fault \<Longrightarrow> fs_names fs p = None \<Longrightarrow> r = Inr ()"
  by (rule call_result [OF assms [unfolded symlink_def]]; auto split: if_splits)+

lemma readlink_result:
  assumes "readlink flt p n fs = (r, fs')"
  shows "same_dir fs fs'" "r = Inl ENOENT \<Longrightarrow> fs_names fs p = None"
    "r = Inr tgt \<Longrightarrow> \<exists>i s. fs_names fs p = Some i \<and> fs_node fs i = Some (Symlink s) \<and> tgt = take n s"
    "flt = no_fault \<Longrightarrow> fs_names fs p = None \<Longrightarrow> r = Inl ENOENT"
    "flt = no_fault \<Longrightarrow> fs_names fs p = Some i \<Longrightarrow> fs_node fs i = Some (Symlink s) \<Longrightarrow>
       r = Inr (take n s)"
  by (rule call_result [OF assms [unfolded readlink_def]]; auto split: option.splits fnode.splits)+

lemma hexlink_write_result:
  assumes "hexlink_write flt p buf fs = (rc, fs')"
  shows "rc = 0 \<or> rc = -1 \<and> same_dir fs fs'"
    "rc = 0 \<Longrightarrow> fs_names fs p = None \<and> fs_names fs' = (fs_names fs)(p \<mapsto> fs_next fs) \<and>
       crash_views fs' = crash_views fs \<union> (\<lambda>v. v(p \<mapsto> fs_next fs)) ` crash_views fs \<and>
       fs_node fs' = (fs_node fs)(fs_next fs \<mapsto> Symlink (hexify buf)) \<and>
       fs_next fs' = Suc (fs_next fs) \<and> fs_atomic_rename fs' = fs_atomic_rename fs"
    "flt = no_fault \<Longrightarrow> fs_names fs p = None \<Longrightarrow> rc = 0"
proof -
  obtain r1 fs1 where r1: "plain_call flt fs = (r1, fs1)" by fastforce
  obtain r2 fs2 where r2: "symlink flt (hexify buf) p fs1 = (r2, fs2)" by fastforce
  note same = plain_call_result(1) [OF r1] same_dirD [OF plain_call_result(1) [OF r1]]
  note run = assms [unfolded hexlink_write_def r1 prod.case]
  show "rc = 0 \<or> rc = -1 \<and> same_dir fs fs'"
    using run r2 symlink_result(1) [OF r2] same(1) same_dir_trans [OF same(1)]
    by (auto split: sum.splits)
  show "flt = no_fault \<Longrightarrow> fs_names fs p = None \<Longrightarrow> rc = 0"
    using run r2 symlink_result(3) [OF r2] plain_call_result(2) [OF r1] same(2) by auto
  assume "rc = 0"
  then obtain u where "r1 = Inr ()" "r2 = Inr u" "fs' = fs2"
    using run r2 by (auto split: sum.splits)
  then show "fs_names fs p = None \<and> fs_names fs' = (fs_names fs)(p \<mapsto> fs_next fs) \<and>
       crash_views fs' = crash_views fs \<union> (\<lambda>v. v(p \<mapsto> fs_next fs)) ` crash_views fs \<and>
       fs_node fs' = (fs_node fs)(fs_next fs \<mapsto> Symlink (hexify buf)) \<and>
       fs_next fs' = Suc (fs_next fs) \<and> fs_atomic_rename fs' = fs_atomic_rename fs"
    using symlink_result(2) [OF r2] same by simp
qed

lemma hexlink_read_result:
  assumes "hexlink_read flt p n fs = (r, fs')"
  shows "same_dir fs fs'" "r = Inl ENOENT \<Longrightarrow> fs_names fs p = None"
    "r = Inr buf \<Longrightarrow> \<exists>i s. fs_names fs p = Some i \<and> fs_node fs i = Some (Symlink s) \<and>
       unhexify (take (n * 2) s) n = Some buf"
    "flt = no_fault \<Longrightarrow> fs_names fs p = None \<Longrightarrow> r = Inl ENOENT"
    "flt = no_fault \<Longrightarrow> fs_names fs p = Some i \<Longrightarrow> fs_node fs i = Some (Symlink (hexify b)) \<Longrightarrow>
       length b = n \<Longrightarrow> r = Inr b"
    "fs_names fs p = Some i \<Longrightarrow> fs_node fs i = Some (Symlink (hexify b)) \<Longrightarrow> length b = n \<Longrightarrow>
       r = Inr c \<Longrightarrow> c = b"
proof -
  obtain r1 fs1 where r1: "plain_call flt fs = (r1, fs1)" by fastforce
  obtain r2 fs2 where r2: "readlink flt p (n * 2) fs1 = (r2, fs2)" by fastforce
  note same1 = plain_call_result(1) [OF r1]
  note same2 = same_dir_trans [OF same1 readlink_result(1) [OF r2]]
  note run = assms [unfolded hexlink_read_def r1 prod.case]
  have noent: "r1 \<noteq> Inl ENOENT"
    by (rule call_result [OF r1 [unfolded plain_call_def]]) auto
  show "same_dir fs fs'"
    using run r2 same1 same2 by (auto split: sum.splits if_splits option.splits)
  show "r = Inl ENOENT \<Longrightarrow> fs_names fs p = None"
    using run r2 readlink_result(2) [OF r2] noent same_dirD(1) [OF same1]
    by (auto split: sum.splits if_splits option.splits)
  show buf: "r = Inr buf \<Longrightarrow> \<exists>i s. fs_names fs p = Some i \<and> fs_node fs i = Some (Symlink s) \<and>
       unhexify (take (n * 2) s) n = Some buf" for buf
    using run r2 readlink_result(3) [OF r2] same_dirD [OF same1]
    by (fastforce split: sum.splits if_splits option.splits)
  show "flt = no_fault \<Longrightarrow> fs_names fs p = None \<Longrightarrow> r = Inl ENOENT"
    using run r2 readlink_result(4) [OF r2] plain_call_result(2) [OF r1] same_dirD [OF same1] by auto
  have hex: "unhexify (take (n * 2) (hexify b)) n = Some b" if "length b = n"
    using unhexify_hexify [of b "[]"] that by simp
  show "flt = no_fault \<Longrightarrow> fs_names fs p = Some i \<Longrightarrow> fs_node fs i = Some (Symlink (hexify b)) \<Longrightarrow>
       length b = n \<Longrightarrow> r = Inr b"
    using run r2 readlink_result(5) [OF r2] plain_call_result(2) [OF r1] same_dirD [OF same1] hex
    by auto
  show "fs_names fs p = Some i \<Longrightarrow> fs_node fs i = Some (Symlink (hexify b)) \<Longrightarrow> length b = n \<Longrightarrow>
       r = Inr c \<Longrightarrow> c = b"
    using buf [of c] hex by auto
qed

section \<open>Properties\<close>

text \<open>C40: What \<^verbatim>\<open>hexlink_write\<close> stores under a name, \<^verbatim>\<open>hexlink_read\<close> of the same length
  returns; it stores it only under a name that was not in use, and no other name changes.\<close>

theorem hexlink_roundtrip:
  assumes "hexlink_write flt p buf fs = (0, fs1)"
  shows "fst (hexlink_read no_fault p (length buf) fs1) = Inr buf \<and>
    fs_names fs p = None \<and> (\<forall>q. q \<noteq> p \<longrightarrow> fs_names fs1 q = fs_names fs q)"
proof -
  note w = hexlink_write_result(2) [OF assms refl]
  obtain r fs2 where r: "hexlink_read no_fault p (length buf) fs1 = (r, fs2)" by fastforce
  have "r = Inr buf" using hexlink_read_result(5) [OF r refl] w by simp
  then show ?thesis using r w by simp
qed

theorem hexlink_roundtrip_witness:
  "fst (hexlink_read no_fault ''c/cseq'' 2 (snd (hexlink_write no_fault ''c/cseq'' [255, 16] empty_fs)))
     = Inr [255, 16]"
proof -
  obtain rc fs1 where w: "hexlink_write no_fault ''c/cseq'' [255, 16] empty_fs = (rc, fs1)" by fastforce
  have "rc = 0" using hexlink_write_result(3) [OF w] by (simp add: empty_fs_def fs_names_def)
  with hexlink_roundtrip [of no_fault "''c/cseq''" "[255, 16]" empty_fs fs1] w show ?thesis
    by (simp add: numeral_2_eq_2)
qed

text \<open>The length check of \<^verbatim>\<open>hexlink_read\<close> rejects exactly the links that are too short:
  the link is read into a buffer of \<^verbatim>\<open>2 * buflen\<close> characters, so that a link that is too long
  is cut off to the right length and then accepted when that part is hexadecimal.\<close>

theorem hexlink_read_length_check:
  assumes "fs_names fs p = Some i" "fs_node fs i = Some (Symlink s)"
  shows "fst (hexlink_read no_fault p n fs) =
    (if length s < n * 2 then Inl E0
     else case unhexify (take (n * 2) s) n of None \<Rightarrow> Inl E0 | Some buf \<Rightarrow> Inr buf)"
proof -
  obtain r1 fs1 where r1: "plain_call no_fault fs = (r1, fs1)" by fastforce
  obtain r2 fs2 where r2: "readlink no_fault p (n * 2) fs1 = (r2, fs2)" by fastforce
  have "r1 = Inr ()" "r2 = Inr (take (n * 2) s)"
    using plain_call_result(2) [OF r1] readlink_result(5) [OF r2] assms
      same_dirD [OF plain_call_result(1) [OF r1]] by simp_all
  then show ?thesis
    using r1 r2 by (auto simp: hexlink_read_def min_def split: option.splits)
qed

theorem hexlink_read_length_check_witness:
  "fst (hexlink_read no_fault ''c/cseq'' 1
     (empty_fs\<lparr>fs_dur := [''c/cseq'' \<mapsto> 0], fs_node := [0 \<mapsto> Symlink ''01garbage'']\<rparr>)) = Inr [1]"
proof -
  have "hexify [1] = ''01''" by (simp add: hexchars_def)
  then have "unhexify ''01'' 1 = Some [1]" using unhexify_hexify [of "[1]" "[]"] by simp
  then show ?thesis
    by (subst hexlink_read_length_check [where i = 0 and s = "''01garbage''"])
      (simp_all add: empty_fs_def fs_names_def numeral_2_eq_2)
qed

end
