(* ===== verification/Multitape_Transaction.thy ===== *)
theory Multitape_Transaction
  imports Chunks_Commit Hexlink
begin

text \<open>
  \<^verbatim>\<open>tar/multitape/multitape_transaction.c\<close>: checkpoints and commits of a transaction, and the
  recovery that completes them after a crash.  The cache directory holds three markers, all
  hexadecimal links: \<^verbatim>\<open>ckpt_m\<close> (a checkpoint of the given transaction and nonce is under
  way), \<^verbatim>\<open>commit_m\<close> (the transaction is to be committed) and \<^verbatim>\<open>cseq\<close> (the last
  committed transaction).  The storage layer is a parameter: its answer may depend on all the
  calls it has got, and the calls and answers are recorded.
\<close>

subsection \<open>The code\<close>

datatype storage_call =
    Checkpoint_call u64 bytes bytes u8
  | Commit_call u64 bytes u8
  | Commit_from_checkpoint_call u64 u8

type_synonym storage_log = "(storage_call \<times> int) list"

text \<open>The answer to a call, and whether the data on the server has been modified.\<close>

type_synonym storage = "storage_log \<Rightarrow> storage_call \<Rightarrow> int \<times> bool"

definition cache_name :: "string \<Rightarrow> string \<Rightarrow> string" where
  "cache_name cachedir nm = cachedir @ ''/'' @ nm"

text \<open>The end of a step: the marker \<open>t\<close> is replaced, and made durable before \<open>s\<close> is removed.\<close>

definition move_marker :: "fault \<Rightarrow> string \<Rightarrow> string \<Rightarrow> bytes \<Rightarrow> fs \<Rightarrow> int \<times> fs" where
  "move_marker flt s t seqnum fs =
     (case plain_call flt fs of
        (Inl e, fs) \<Rightarrow> (-1, fs)
      | (Inr _, fs) \<Rightarrow>
     (case unlink flt t fs of (r, fs) \<Rightarrow>
        if r \<noteq> Inr () \<and> r \<noteq> Inl ENOENT then (-1, fs)
        else (case hexlink_write flt t seqnum fs of (rc, fs) \<Rightarrow>
          if rc \<noteq> 0 then (-1, fs)
          else (case dirutil_fsyncdir flt fs of (rc, fs) \<Rightarrow>
            if rc \<noteq> 0 then (-1, fs)
            else (case unlink flt s fs of
                    (Inl e, fs) \<Rightarrow> (-1, fs)
                  | (Inr _, fs) \<Rightarrow>
                      (case dirutil_fsyncdir flt fs of (rc, fs) \<Rightarrow>
                         if rc \<noteq> 0 then (-1, fs) else (0, fs)))))))"

text \<open>
  What \<^verbatim>\<open>multitape_docheckpoint\<close> and \<^verbatim>\<open>multitape_docommit\<close> do once they have read
  their marker \<open>s\<close>: the chunk layer moves its directory, the storage layer is asked, and the
  marker is replaced by \<open>t\<close>.
\<close>

definition complete_step :: "fault \<Rightarrow> storage \<Rightarrow> (fs \<Rightarrow> int \<times> fs) \<Rightarrow> storage_call \<Rightarrow> string \<Rightarrow> string
    \<Rightarrow> bytes \<Rightarrow> fs \<Rightarrow> storage_log \<Rightarrow> int \<times> fs \<times> storage_log \<times> bool" where
  "complete_step flt srv chunks_transaction rq s t seqnum fs log =
     (case chunks_transaction fs of (rc, fs) \<Rightarrow>
        if rc \<noteq> 0 then (-1, fs, log, False)
        else let ans = srv log rq; log = log @ [(rq, fst ans)]
             in if fst ans \<noteq> 0 then (-1, fs, log, snd ans)
                else case move_marker flt s t seqnum fs of (rc, fs) \<Rightarrow> (rc, fs, log, snd ans))"

definition multitape_docheckpoint :: "fault \<Rightarrow> storage \<Rightarrow> string \<Rightarrow> u64 \<Rightarrow> u8 \<Rightarrow> fs \<Rightarrow> storage_log
    \<Rightarrow> int \<times> fs \<times> storage_log" where
  "multitape_docheckpoint flt srv cachedir machinenum key fs log =
     (case dirutil_fsyncdir flt fs of (rc, fs) \<Rightarrow>
      if rc \<noteq> 0 then (-1, fs, log)
      else case plain_call flt fs of
        (Inl e, fs) \<Rightarrow> (-1, fs, log)
      | (Inr _, fs) \<Rightarrow>
      (case hexlink_read flt (cache_name cachedir ''ckpt_m'') 64 fs of
        (Inl e, fs) \<Rightarrow> if e \<noteq> ENOENT then (-1, fs, log) else (0, fs, log)
      | (Inr seqnum_ckptnonce, fs) \<Rightarrow>
          let seqnum = take 32 seqnum_ckptnonce; ckptnonce = drop 32 seqnum_ckptnonce
          in case complete_step flt srv (chunks_transaction_checkpoint flt cachedir)
                    (Checkpoint_call machinenum seqnum ckptnonce key)
                    (cache_name cachedir ''ckpt_m'') (cache_name cachedir ''commit_m'') seqnum fs log of
               (rc, fs, log, _) \<Rightarrow> (rc, fs, log)))"

definition multitape_checkpoint :: "fault \<Rightarrow> storage \<Rightarrow> bytes option \<Rightarrow> string \<Rightarrow> u64 \<Rightarrow> bytes \<Rightarrow> fs
    \<Rightarrow> storage_log \<Rightarrow> int \<times> fs \<times> storage_log" where
  "multitape_checkpoint flt srv entropy cachedir machinenum seqnum fs log =
     (case entropy of
        None \<Rightarrow> (-1, fs, log)
      | Some ckptnonce \<Rightarrow>
          (case plain_call flt fs of
             (Inl e, fs) \<Rightarrow> (-1, fs, log)
           | (Inr _, fs) \<Rightarrow>
               (case hexlink_write flt (cache_name cachedir ''ckpt_m'') (seqnum @ ckptnonce) fs of (rc, fs) \<Rightarrow>
                  if rc \<noteq> 0 then (-1, fs, log)
                  else case multitape_docheckpoint flt srv cachedir machinenum 0 fs log of
                    (rc, fs, log) \<Rightarrow> if rc \<noteq> 0 then (-1, fs, log) else (0, fs, log))))"

definition multitape_docommit :: "fault \<Rightarrow> storage \<Rightarrow> string \<Rightarrow> u64 \<Rightarrow> u8 \<Rightarrow> fs \<Rightarrow> storage_log \<Rightarrow> bool
    \<Rightarrow> int \<times> fs \<times> storage_log \<times> bool" where
  "multitape_docommit flt srv cachedir machinenum key fs log modified =
     (case dirutil_fsyncdir flt fs of (rc, fs) \<Rightarrow>
      if rc \<noteq> 0 then (-1, fs, log, modified)
      else case plain_call flt fs of
        (Inl e, fs) \<Rightarrow> (-1, fs, log, modified)
      | (Inr _, fs) \<Rightarrow>
      (case hexlink_read flt (cache_name cachedir ''commit_m'') 32 fs of
        (Inl e, fs) \<Rightarrow> if e \<noteq> ENOENT then (-1, fs, log, modified) else (0, fs, log, modified)
      | (Inr seqnum, fs) \<Rightarrow>
          (case complete_step flt srv (chunks_transaction_commit flt cachedir)
                  (Commit_call machinenum seqnum key)
                  (cache_name cachedir ''commit_m'') (cache_name cachedir ''cseq'') seqnum fs log of
             (rc, fs, log, m) \<Rightarrow> (rc, fs, log, modified \<or> m))))"

definition multitape_commit :: "fault \<Rightarrow> storage \<Rightarrow> string \<Rightarrow> u64 \<Rightarrow> bytes \<Rightarrow> u8 \<Rightarrow> fs \<Rightarrow> storage_log \<Rightarrow> bool
    \<Rightarrow> int \<times> fs \<times> storage_log \<times> bool" where
  "multitape_commit flt srv cachedir machinenum seqnum key fs log modified =
     (case plain_call flt fs of
        (Inl e, fs) \<Rightarrow> (-1, fs, log, modified)
      | (Inr _, fs) \<Rightarrow>
          (case hexlink_write flt (cache_name cachedir ''commit_m'') seqnum fs of (rc, fs) \<Rightarrow>
             if rc \<noteq> 0 then (-1, fs, log, modified)
             else case multitape_docommit flt srv cachedir machinenum key fs log modified of
               (rc, fs, log, modified) \<Rightarrow>
                  if rc \<noteq> 0 then (-1, fs, log, modified) else (0, fs, log, modified)))"

definition multitape_cleanstate :: "fault \<Rightarrow> storage \<Rightarrow> string \<Rightarrow> u64 \<Rightarrow> u8 \<Rightarrow> fs \<Rightarrow> storage_log \<Rightarrow> bool
    \<Rightarrow> int \<times> fs \<times> storage_log \<times> bool" where
  "multitape_cleanstate flt srv cachedir machinenum key fs log modified =
     (case multitape_docheckpoint flt srv cachedir machinenum key fs log of (rc, fs, log) \<Rightarrow>
      if rc \<noteq> 0 then (-1, fs, log, modified)
      else case multitape_docommit flt srv cachedir machinenum key fs log modified of
        (rc, fs, log, modified) \<Rightarrow>
          if rc \<noteq> 0 then (-1, fs, log, modified) else (0, fs, log, modified))"

definition multitape_sequence :: "fault \<Rightarrow> string \<Rightarrow> fs \<Rightarrow> bytes option \<times> fs" where
  "multitape_sequence flt cachedir fs =
     (case plain_call flt fs of
        (Inl e, fs) \<Rightarrow> (None, fs)
      | (Inr _, fs) \<Rightarrow>
          (case hexlink_read flt (cache_name cachedir ''cseq'') 32 fs of
             (Inl e, fs) \<Rightarrow> if e \<noteq> ENOENT then (None, fs) else (Some (replicate 32 0), fs)
           | (Inr seqnum, fs) \<Rightarrow> (Some seqnum, fs)))"

subsection \<open>What a step leaves alone\<close>

text \<open>\<open>dir_step P\<close>: only names in \<open>P\<close> may change, whatever a power failure leaves, and
  inodes only come to be.\<close>

definition dir_step :: "string set \<Rightarrow> fs \<Rightarrow> fs \<Rightarrow> bool" where
  "dir_step P fs fs' \<longleftrightarrow>
     fs_atomic_rename fs' = fs_atomic_rename fs \<and> fs_next fs \<le> fs_next fs' \<and> (\<forall>k<fs_next fs. fs_node fs' k = fs_node fs k) \<and>
     (\<forall>p. p \<notin> P \<longrightarrow> fs_names fs' p = fs_names fs p) \<and>
     (\<forall>v'\<in>crash_views fs'. \<exists>v\<in>crash_views fs. \<forall>p. p \<notin> P \<longrightarrow> v' p = v p)"

lemma dir_step_refl: "dir_step P fs fs"
  by (auto simp: dir_step_def)

lemma dir_stepD:
  assumes "dir_step P fs fs'" "v' \<in> crash_views fs'"
  obtains v where "v \<in> crash_views fs" "\<And>p. p \<notin> P \<Longrightarrow> v' p = v p"
  using assms unfolding dir_step_def by blast

lemma dir_step_names: "dir_step P fs fs' \<Longrightarrow> p \<notin> P \<Longrightarrow> fs_names fs' p = fs_names fs p"
  by (simp add: dir_step_def)

lemma dir_step_node:
  "dir_step P fs fs' \<Longrightarrow> k < fs_next fs \<Longrightarrow> k < fs_next fs' \<and> fs_node fs' k = fs_node fs k"
  by (auto simp: dir_step_def)

lemma dir_step_rename_safe: "dir_step P fs fs' \<Longrightarrow> rename_safe flt fs' = rename_safe flt fs"
  by (simp add: dir_step_def rename_safe_def)

lemma dir_stepI:
  assumes "fs_atomic_rename fs' = fs_atomic_rename fs" "fs_next fs \<le> fs_next fs'" "\<And>k. k < fs_next fs \<Longrightarrow> fs_node fs' k = fs_node fs k"
    and "\<And>p. p \<notin> P \<Longrightarrow> fs_names fs' p = fs_names fs p"
    and "\<And>v'. v' \<in> crash_views fs' \<Longrightarrow> \<exists>v\<in>crash_views fs. \<forall>p. p \<notin> P \<longrightarrow> v' p = v p"
  shows "dir_step P fs fs'"
  using assms by (simp add: dir_step_def)

lemma dir_step_trans [trans]:
  assumes "dir_step P a b" "dir_step Q b c"
  shows "dir_step (P \<union> Q) a c"
proof (rule dir_stepI)
  show "fs_atomic_rename c = fs_atomic_rename a" using assms by (simp add: dir_step_def)
  show "fs_next a \<le> fs_next c" using assms by (simp add: dir_step_def)
  show "fs_node c k = fs_node a k" if "k < fs_next a" for k
  proof -
    have "k < fs_next b" using that assms(1) by (simp add: dir_step_def)
    then show ?thesis using that assms by (simp add: dir_step_def)
  qed
  show "fs_names c p = fs_names a p" if "p \<notin> P \<union> Q" for p
    using that dir_step_names [OF assms(1)] dir_step_names [OF assms(2)] by simp
  show "\<exists>v\<in>crash_views a. \<forall>p. p \<notin> P \<union> Q \<longrightarrow> v' p = v p" if v': "v' \<in> crash_views c" for v'
  proof -
    obtain w where w: "w \<in> crash_views b" "\<And>p. p \<notin> Q \<Longrightarrow> v' p = w p"
      using dir_stepD [OF assms(2) v'] by blast
    obtain v where v: "v \<in> crash_views a" "\<And>p. p \<notin> P \<Longrightarrow> w p = v p"
      using dir_stepD [OF assms(1) w(1)] by blast
    show ?thesis using w(2) v(2) by (intro bexI [OF _ v(1)]) simp
  qed
qed

lemma dir_step_mono: "dir_step P a b \<Longrightarrow> P \<subseteq> Q \<Longrightarrow> dir_step Q a b"
  using dir_step_trans [of P a b Q b] dir_step_refl [of Q b] by (simp add: subset_Un_eq)

lemma dir_step_then: "dir_step P a b \<Longrightarrow> dir_step P b c \<Longrightarrow> dir_step P a c"
  using dir_step_trans [of P a b P c] by simp

lemma dir_step_same: "same_dir a b \<Longrightarrow> dir_step P a b"
  by (auto simp: dir_step_def same_dirD)

text \<open>Every call is such a step.\<close>

lemma dir_step_call:
  assumes "call flt fs op = (r, fs')"
    and "\<And>fs1. fs1 = fs\<lparr>fs_calls := Suc (fs_calls fs)\<rparr> \<Longrightarrow> op fs1 = (r, fs') \<Longrightarrow> dir_step P fs1 fs'"
  shows "dir_step P fs fs'"
proof (rule call_result [OF assms(1)])
  assume "op (fs\<lparr>fs_calls := Suc (fs_calls fs)\<rparr>) = (r, fs')"
  from assms(2) [OF refl this] show ?thesis
    by (rule dir_step_then [OF dir_step_same [OF same_dir_calls]])
qed (simp add: dir_step_same)

lemma dir_step_change: "fst ` set u \<subseteq> P \<Longrightarrow> dir_step P fs (fs_change u fs)"
proof -
  have other: "apply_update u v p = v p" if "p \<notin> fst ` set u" for v :: "string \<Rightarrow> nat option" and p
    using that by (induction u arbitrary: v) auto
  assume "fst ` set u \<subseteq> P"
  then show ?thesis using other unfolding dir_step_def by (auto; blast)
qed

lemma dir_step_unlink: "unlink flt p fs = (r, fs') \<Longrightarrow> p \<in> P \<Longrightarrow> dir_step P fs fs'"
  unfolding unlink_def
  by (erule dir_step_call) (auto intro: dir_step_change dir_step_refl split: option.splits)

lemma dir_step_link: "link_file flt t s fs = (r, fs') \<Longrightarrow> s \<in> P \<Longrightarrow> dir_step P fs fs'"
  unfolding link_file_def
  by (erule dir_step_call) (auto intro: dir_step_change dir_step_refl split: option.splits if_splits)

lemma dir_step_rename: "rename_file flt t s fs = (r, fs') \<Longrightarrow> s \<in> P \<Longrightarrow> t \<in> P \<Longrightarrow> dir_step P fs fs'"
  unfolding rename_file_def
  by (erule dir_step_call)
    (auto intro: dir_step_change dir_step_refl dir_step_then [OF dir_step_change dir_step_change] split: option.splits if_splits)

lemma dir_step_fsync_dir: "fsync_dir flt fs = (r, fs') \<Longrightarrow> dir_step P fs fs'"
  unfolding fsync_dir_def
  by (erule dir_step_call) (auto simp: dir_step_def intro!: bexI [OF _ fs_names_in_crash_views])

lemma dir_step_fsyncdir: "dirutil_fsyncdir flt fs = (rc, fs') \<Longrightarrow> dir_step P fs fs'"
  by (auto simp: dirutil_fsyncdir_def split: prod.splits sum.splits
      dest!: plain_call_result(1) dir_step_fsync_dir [of _ _ _ _ P] dir_step_same [of _ _ P]
      intro: dir_step_then)

lemma dir_step_hexlink: 
  assumes "hexlink_write flt p b fs = (rc, fs')" "p \<in> P"
  shows "dir_step P fs fs'"
proof (cases "rc = 0")
  case True
  from hexlink_write_result(2) [OF assms(1) this] assms(2) show ?thesis by (auto simp: dir_step_def)
next
  case False
  then show ?thesis using hexlink_write_result(1) [OF assms(1)] dir_step_same by blast
qed

lemma dir_step_commit_sync: "commit_sync flt fs = (rc, fs') \<Longrightarrow> dir_step P fs fs'"
  by (auto simp: commit_sync_def split: prod.splits if_splits dest: dir_step_fsyncdir)

lemma dir_step_linkdone: "commit_linkdone flt t fs = (rc, fs') \<Longrightarrow> t \<in> P \<Longrightarrow> dir_step P fs fs'"
  by (auto simp: commit_linkdone_def split: prod.splits if_splits sum.splits
      dest!: dir_step_fsyncdir [of _ _ _ _ P] dir_step_unlink [of _ _ _ _ _ P] dir_step_commit_sync [of _ _ _ _ P]
      intro: dir_step_then)

lemma dir_step_commit_link:
  "commit_link flt s t fs = (rc, fs') \<Longrightarrow> s \<in> P \<Longrightarrow> t \<in> P \<Longrightarrow> dir_step P fs fs'"
  by (auto simp: commit_link_def split: prod.splits if_splits sum.splits
      dest!: dir_step_link [of _ _ _ _ _ _ P] dir_step_rename [of _ _ _ _ _ _ P]
        dir_step_linkdone [of _ _ _ _ _ P] dir_step_commit_sync [of _ _ _ _ P]
      intro: dir_step_then)

lemma dir_step_lstat: "lstat flt p fs = (r, fs') \<Longrightarrow> dir_step P fs fs'"
  by (intro dir_step_same lstat_result(1))

lemma dir_step_plain: "plain_call flt fs = (r, fs') \<Longrightarrow> dir_step P fs fs'"
  by (intro dir_step_same plain_call_result(1))

lemma dir_step_commit_paths:
  "commit_paths flt s t fs = (rc, fs') \<Longrightarrow> s \<in> P \<Longrightarrow> t \<in> P \<Longrightarrow> dir_step P fs fs'"
  by (auto simp: commit_paths_def split: prod.splits if_splits sum.splits
      dest!: dir_step_lstat [of _ _ _ _ _ P] dir_step_unlink [of _ _ _ _ _ P]
        dir_step_linkdone [of _ _ _ _ _ P] dir_step_commit_link [of _ _ _ _ _ _ P]
      intro: dir_step_then)

lemma dir_step_directory_commit:
  assumes "chunks_directory_commit flt c osuff nsuff fs = (rc, fs')"
    and "directory_path c nsuff \<in> P" "directory_path c osuff \<in> P"
  shows "dir_step P fs fs'"
  using assms
  by (auto simp: chunks_directory_commit_def split: prod.splits sum.splits
      dest!: dir_step_plain [of _ _ _ _ P] dir_step_commit_paths [of _ _ _ _ _ _ P]
      intro: dir_step_then)


text \<open>A marker is a link to the hexadecimal text of its contents.\<close>

definition marker :: "fs \<Rightarrow> (string \<Rightarrow> nat option) \<Rightarrow> string \<Rightarrow> bytes \<Rightarrow> bool" where
  "marker fs v p b \<longleftrightarrow> (\<exists>j<fs_next fs. v p = Some j \<and> fs_node fs j = Some (Symlink (hexify b)))"

lemma marker_step: "marker fs v p b \<Longrightarrow> dir_step P fs fs' \<Longrightarrow> v' p = v p \<Longrightarrow> marker fs' v' p b"
  unfolding marker_def dir_step_def by (metis order_less_le_trans)

lemma marker_views_step:
  assumes "\<forall>v\<in>crash_views fs. marker fs v p b" "dir_step P fs fs'" "p \<notin> P"
  shows "\<forall>v\<in>crash_views fs'. marker fs' v p b"
  using assms marker_step dir_stepD [OF assms(2)] by metis

lemma view_step:
  assumes "\<forall>v\<in>crash_views fs. Q (v p)" "dir_step P fs fs'" "p \<notin> P"
  shows "\<forall>v\<in>crash_views fs'. Q (v p)"
  using assms dir_stepD [OF assms(2)] by metis

lemma hexlink_write_marker:
  "hexlink_write flt p b fs = (0, fs') \<Longrightarrow> marker fs' (fs_names fs') p b"
  using hexlink_write_result(2) [of flt p b fs 0 fs'] by (auto simp: marker_def)

lemma hexlink_read_marker:
  assumes "hexlink_read flt p n fs = (r, fs')" "marker fs (fs_names fs) p b" "length b = n"
  shows "r = Inr b \<or> (\<exists>e. r = Inl e \<and> e \<noteq> ENOENT \<and> flt \<noteq> no_fault)"
proof -
  obtain i where i: "fs_names fs p = Some i" "fs_node fs i = Some (Symlink (hexify b))"
    using assms(2) by (auto simp: marker_def)
  note hexlink_read_result(2,5,6) [OF assms(1)]
  then show ?thesis using i assms(3) by (cases r) force+
qed

subsection \<open>Replacing a marker\<close>

text \<open>\<open>marked s t b\<close>: the old marker \<open>s\<close> may go, now that the new one \<open>t\<close> is durable.\<close>

definition marked :: "string \<Rightarrow> string \<Rightarrow> bytes \<Rightarrow> nat \<Rightarrow> fs \<Rightarrow> bool" where
  "marked s t b i fs \<longleftrightarrow> (\<forall>v\<in>crash_views fs. marker fs v t b \<and> (v s = None \<or> v s = Some i))"

lemma marked_step:
  assumes "marked s t b i fs" "dir_step {} fs fs'"
  shows "marked s t b i fs'"
  unfolding marked_def
proof
  fix v' assume "v' \<in> crash_views fs'"
  from dir_stepD [OF assms(2) this] obtain v where "v \<in> crash_views fs" "\<And>p. v' p = v p" by auto
  then show "marker fs' v' t b \<and> (v' s = None \<or> v' s = Some i)"
    using assms marker_step [OF _ assms(2), of v t b v'] by (simp add: marked_def)
qed

lemma move_marker_tail:
  assumes marker: "marker fs (fs_names fs) t b" and s: "fs_names fs s = Some i" and st: "s \<noteq> t"
    and sync: "dirutil_fsyncdir flt fs = (0, fs1)"
    and rm: "unlink flt s fs1 = (r2, fs2)"
  shows "marked s t b i fs2" "flt = no_fault \<Longrightarrow> r2 = Inr ()"
    "r2 = Inr () \<Longrightarrow> fs_names fs2 = (fs_names fs)(s := None)"
proof -
  note f1 = fsyncdir_result [OF sync]
  note f2 = unlink_result [OF rm]
  have step: "dir_step {s} fs fs2"
    using dir_step_then [OF dir_step_fsyncdir [OF sync] dir_step_unlink [OF rm]] by blast
  show "r2 = Inr () \<Longrightarrow> fs_names fs2 = (fs_names fs)(s := None)" using f2(2) f1(1) by simp
  show "flt = no_fault \<Longrightarrow> r2 = Inr ()" using f2(4) s f1(1) by simp
  have "crash_views fs2 \<subseteq> {fs_names fs, (fs_names fs)(s := None)}"
    using f1(4) f2(1,2) same_dirD(2) by (cases r2) auto
  moreover have "marker fs2 v t b \<and> (v s = None \<or> v s = Some i)"
    if "v \<in> {fs_names fs, (fs_names fs)(s := None)}" for v
    using that s st marker_step [OF marker step, of v] by auto
  ultimately show "marked s t b i fs2" unfolding marked_def by blast
qed

lemma no_fault_unlink: "unlink no_fault p fs = (r, fs') \<Longrightarrow> r = Inr () \<or> r = Inl ENOENT"
  by (auto simp: unlink_def call_def Let_def split: option.splits)

lemma move_marker_spec:
  assumes run: "move_marker flt s t b fs = (rc, fs')" and st: "s \<noteq> t"
    and s: "\<forall>v\<in>crash_views fs. v s = Some i"
  shows "dir_step {s, t} fs fs'"
    "(\<forall>v\<in>crash_views fs'. v s = Some i) \<or> marked s t b i fs'"
    "rc = 0 \<or> rc = -1" "flt = no_fault \<Longrightarrow> rc = 0"
    "rc = 0 \<Longrightarrow> crash_views fs' = {fs_names fs'} \<and> fs_names fs' s = None \<and> marked s t b i fs'"
proof -
  obtain r1 fs1 where r1: "plain_call flt fs = (r1, fs1)" by fastforce
  obtain r2 fs2 where r2: "unlink flt t fs1 = (r2, fs2)" by fastforce
  obtain rc3 fs3 where r3: "hexlink_write flt t b fs2 = (rc3, fs3)" by fastforce
  obtain rc4 fs4 where r4: "dirutil_fsyncdir flt fs3 = (rc4, fs4)" by fastforce
  obtain r5 fs5 where r5: "unlink flt s fs4 = (r5, fs5)" by fastforce
  obtain rc6 fs6 where r6: "dirutil_fsyncdir flt fs5 = (rc6, fs6)" by fastforce
  have d1: "dir_step {t} fs fs1" by (rule dir_step_plain [OF r1])
  have d2: "dir_step {t} fs fs2" using dir_step_then [OF d1 dir_step_unlink [OF r2]] by simp
  have d3: "dir_step {t} fs fs3" using dir_step_then [OF d2 dir_step_hexlink [OF r3]] by simp
  have d4: "dir_step {t} fs fs4" using dir_step_then [OF d3 dir_step_fsyncdir [OF r4]] .
  have wide: "dir_step {s, t} a c" if "dir_step {t} a c" for a c
    using dir_step_mono [OF that] by simp
  have d5: "dir_step {s, t} fs fs5" using dir_step_then [OF wide [OF d4] dir_step_unlink [OF r5]] by simp
  have d6: "dir_step {s, t} fs fs6" using dir_step_then [OF d5 dir_step_fsyncdir [OF r6]] .
  note keep = view_step [OF s, where P = "{t}"]
  note run' = run [unfolded move_marker_def r1 prod.case]
  have absent: "fs_names fs2 t = None" if "r2 = Inr () \<or> r2 = Inl ENOENT"
    using that unlink_result(1,2,5) [OF r2] same_dirD(1) [of fs1 fs2] by auto
  have free: "flt = no_fault \<Longrightarrow> r1 = Inr ()" "flt = no_fault \<Longrightarrow> r2 = Inr () \<or> r2 = Inl ENOENT"
    "flt = no_fault \<Longrightarrow> rc4 = 0" "flt = no_fault \<Longrightarrow> rc6 = 0"
    "flt = no_fault \<Longrightarrow> r2 = Inr () \<or> r2 = Inl ENOENT \<Longrightarrow> rc3 = 0"
    using plain_call_result(2) [OF r1] no_fault_unlink [of t fs1 r2 fs2] r2
      fsyncdir_result(5) [OF r4] fsyncdir_result(5) [OF r6] hexlink_write_result(3) [OF r3] absent by auto
  have rc: "rc3 = 0 \<or> rc3 = -1" "rc4 = 0 \<or> rc4 = -1" "rc6 = 0 \<or> rc6 = -1"
    using hexlink_write_result(1) [OF r3] fsyncdir_result(6) [OF r4] fsyncdir_result(6) [OF r6] by auto
  have tail: "marked s t b i fs5" "flt = no_fault \<Longrightarrow> r5 = Inr ()"
      "r5 = Inr () \<Longrightarrow> fs_names fs5 s = None" if "rc3 = 0" "rc4 = 0"
  proof -
    have "fs_names fs3 s = Some i" using keep [OF d3] st fs_names_in_crash_views by auto
    note t = move_marker_tail [OF hexlink_write_marker [OF r3 [unfolded that(1)]] this st r4 [unfolded that(2)] r5]
    then show "marked s t b i fs5" "flt = no_fault \<Longrightarrow> r5 = Inr ()"
      "r5 = Inr () \<Longrightarrow> fs_names fs5 s = None" by auto
  qed
  have final: "marked s t b i fs6" "crash_views fs6 = {fs_names fs6} \<and> fs_names fs6 s = None \<or> rc6 \<noteq> 0"
    if "rc3 = 0" "rc4 = 0" "r5 = Inr ()"
    using marked_step [OF tail(1) [OF that(1,2)] dir_step_fsyncdir [OF r6]] tail(3) [OF that]
      fsyncdir_result(1,4) [OF r6] by auto
  consider "fs' \<in> {fs1, fs2, fs3, fs4}" "rc = -1" "flt \<noteq> no_fault"
    | "fs' = fs5" "rc = -1" "flt \<noteq> no_fault" "rc3 = 0" "rc4 = 0"
    | "fs' = fs6" "rc = rc6" "rc3 = 0" "rc4 = 0" "r5 = Inr ()"
    using run' r2 r3 r4 r5 r6 free rc tail(2) by (auto split: sum.splits if_splits)
  note cases = this
  show "dir_step {s, t} fs fs'"
    using wide [OF d1] wide [OF d2] wide [OF d3] wide [OF d4] d5 d6 by (cases rule: cases) auto
  show "(\<forall>v\<in>crash_views fs'. v s = Some i) \<or> marked s t b i fs'"
  proof (cases rule: cases)
    case 1
    then show ?thesis using keep [OF d1] keep [OF d2] keep [OF d3] keep [OF d4] st by auto
  qed (use tail final in auto)
  show "rc = 0 \<or> rc = -1" using rc by (cases rule: cases) auto
  show "flt = no_fault \<Longrightarrow> rc = 0" using free by (cases rule: cases) auto
  show "rc = 0 \<Longrightarrow> crash_views fs' = {fs_names fs'} \<and> fs_names fs' s = None \<and> marked s t b i fs'"
    using final by (cases rule: cases) auto
qed

subsection \<open>The phases of a transaction\<close>

text \<open>
  A transaction as recovery sees it: its sequence number and checkpoint nonce, and the inode of
  its chunk directory.
\<close>

record txn =
  tx_cache :: string
  tx_machine :: u64
  tx_seqnum :: bytes
  tx_nonce :: bytes
  tx_inode :: nat
  tx_has_ckpt :: bool   \<comment> \<open>whether it has a checkpoint: a deletion has none\<close>

abbreviation "ckpt_m x \<equiv> cache_name (tx_cache x) ''ckpt_m''"
abbreviation "commit_m x \<equiv> cache_name (tx_cache x) ''commit_m''"
abbreviation "cseq x \<equiv> cache_name (tx_cache x) ''cseq''"
abbreviation "dir_ckpt x \<equiv> directory_path (tx_cache x) ''.ckpt''"
abbreviation "dir_tmp x \<equiv> directory_path (tx_cache x) ''.tmp''"
abbreviation "dir_final x \<equiv> directory_path (tx_cache x) []"

lemma cache_names [simp]:
  "cache_name c ''ckpt_m'' \<noteq> cache_name c ''commit_m''" "cache_name c ''commit_m'' \<noteq> cache_name c ''ckpt_m''"
  "cache_name c ''ckpt_m'' \<noteq> cache_name c ''cseq''" "cache_name c ''cseq'' \<noteq> cache_name c ''ckpt_m''"
  "cache_name c ''commit_m'' \<noteq> cache_name c ''cseq''" "cache_name c ''cseq'' \<noteq> cache_name c ''commit_m''"
  "cache_name c ''ckpt_m'' \<noteq> directory_path c suff" "directory_path c suff \<noteq> cache_name c ''ckpt_m''"
  "cache_name c ''commit_m'' \<noteq> directory_path c suff" "directory_path c suff \<noteq> cache_name c ''commit_m''"
  "cache_name c ''cseq'' \<noteq> directory_path c suff" "directory_path c suff \<noteq> cache_name c ''cseq''"
  by (simp_all add: cache_name_def directory_path_def)

text \<open>What the storage layer has acknowledged: the checkpoint; the checkpoint, then the commit.\<close>

definition checkpointed :: "txn \<Rightarrow> storage_log \<Rightarrow> bool" where
  "checkpointed x log \<longleftrightarrow> (tx_has_ckpt x \<longrightarrow>
     (\<exists>key. (Checkpoint_call (tx_machine x) (tx_seqnum x) (tx_nonce x) key, 0) \<in> set log))"

definition committed :: "txn \<Rightarrow> storage_log \<Rightarrow> bool" where
  "committed x log \<longleftrightarrow>
     (\<exists>xs key ys. log = xs @ (Commit_call (tx_machine x) (tx_seqnum x) key, 0) # ys \<and> checkpointed x xs)"

lemma acknowledged_append:
  "checkpointed x log \<Longrightarrow> checkpointed x (log @ more_calls)"
  "committed x log \<Longrightarrow> committed x (log @ more_calls)"
  unfolding checkpointed_def committed_def by (fastforce, metis append.assoc append_Cons)

lemma acknowledged_call:
  "checkpointed x (log @ [(Checkpoint_call (tx_machine x) (tx_seqnum x) (tx_nonce x) key, 0)])"
  "checkpointed x log \<Longrightarrow> committed x (log @ [(Commit_call (tx_machine x) (tx_seqnum x) key, 0)])"
  by (auto simp: checkpointed_def committed_def)

definition phase_ckpt :: "txn \<Rightarrow> fs \<Rightarrow> bool" where
  "phase_ckpt x fs \<longleftrightarrow> commit_inv (dir_tmp x) (dir_ckpt x) (tx_inode x) fs \<and>
     (\<forall>v\<in>crash_views fs. marker fs v (ckpt_m x) (tx_seqnum x @ tx_nonce x))"

definition phase_ckpted :: "txn \<Rightarrow> fs \<Rightarrow> bool" where
  "phase_ckpted x fs \<longleftrightarrow>
     (\<forall>v\<in>crash_views fs. v (dir_tmp x) = Some (tx_inode x) \<and> v (dir_ckpt x) = None \<and>
        marker fs v (commit_m x) (tx_seqnum x) \<and>
        (v (ckpt_m x) = None \<or> marker fs v (ckpt_m x) (tx_seqnum x @ tx_nonce x)))"

definition phase_commit :: "txn \<Rightarrow> fs \<Rightarrow> bool" where
  "phase_commit x fs \<longleftrightarrow> commit_inv (dir_final x) (dir_tmp x) (tx_inode x) fs \<and>
     (\<forall>v\<in>crash_views fs. v (ckpt_m x) = None \<and> v (dir_ckpt x) = None \<and>
        marker fs v (commit_m x) (tx_seqnum x))"

definition phase_committed :: "txn \<Rightarrow> fs \<Rightarrow> bool" where
  "phase_committed x fs \<longleftrightarrow>
     (\<forall>v\<in>crash_views fs. v (dir_final x) = Some (tx_inode x) \<and> v (dir_tmp x) = None \<and>
        v (ckpt_m x) = None \<and> v (dir_ckpt x) = None \<and> marker fs v (cseq x) (tx_seqnum x) \<and>
        (v (commit_m x) = None \<or> marker fs v (commit_m x) (tx_seqnum x)))"

lemmas phase_defs = phase_ckpt_def phase_ckpted_def phase_commit_def phase_committed_def

text \<open>Steps elsewhere keep a phase.\<close>

lemma commit_inv_step:
  assumes "commit_inv s t i fs" "dir_step P fs fs'" "s \<notin> P" "t \<notin> P"
  shows "commit_inv s t i fs'"
proof -
  have names: "fs_names fs' s = fs_names fs s" "fs_names fs' t = fs_names fs t"
    using assms(2-4) unfolding dir_step_def by blast+
  have view: "\<exists>v\<in>crash_views fs. v' s = v s \<and> v' t = v t" if "v' \<in> crash_views fs'" for v'
    using dir_stepD [OF assms(2) that] assms(3,4) by metis
  show ?thesis
    using assms(1) view unfolding commit_inv_def phase_tmp_def phase_done_def phase_moved_def names
    by (metis (no_types, lifting))
qed

lemma quiet_view:
  assumes "dir_step {} fs fs'" "v' \<in> crash_views fs'"
  shows "v' \<in> crash_views fs"
proof -
  obtain v where "v \<in> crash_views fs" "\<And>p. v' p = v p" using dir_stepD [OF assms] by auto
  then show ?thesis by (metis ext)
qed

lemma synced_viewsI: "crash_views fs \<subseteq> {m} \<Longrightarrow> crash_views fs = {fs_names fs}"
  using fs_names_in_crash_views [of fs] by (metis singletonD subset_singletonD empty_iff)

lemma phases_mono:
  assumes inv: "\<And>s t i. commit_inv s t i fs \<Longrightarrow> commit_inv s t i fs'"
    and m: "\<And>v p b. marker fs v p b \<Longrightarrow> marker fs' v p b"
    and v: "\<And>v. v \<in> crash_views fs' \<Longrightarrow> v \<in> crash_views fs"
  shows "phase_ckpt x fs \<Longrightarrow> phase_ckpt x fs'" "phase_ckpted x fs \<Longrightarrow> phase_ckpted x fs'"
    "phase_commit x fs \<Longrightarrow> phase_commit x fs'" "phase_committed x fs \<Longrightarrow> phase_committed x fs'"
proof -
  show "phase_ckpt x fs \<Longrightarrow> phase_ckpt x fs'" "phase_commit x fs \<Longrightarrow> phase_commit x fs'"
    unfolding phase_ckpt_def phase_commit_def using inv v m by auto
  have "w (p x) = None \<or> marker fs w (p x) b \<Longrightarrow> w (p x) = None \<or> marker fs' w (p x) b" for w p b
    using m by blast
  note m2 = m [of _ "commit_m x" "tx_seqnum x"] m [of _ "cseq x" "tx_seqnum x"]
    this [of _ commit_m "tx_seqnum x"] this [of _ ckpt_m "tx_seqnum x @ tx_nonce x"]
  show "phase_ckpted x fs \<Longrightarrow> phase_ckpted x fs'" "phase_committed x fs \<Longrightarrow> phase_committed x fs'"
    unfolding phase_ckpted_def phase_committed_def by (meson v m2)+
qed

lemma phases_quiet:
  assumes step: "dir_step {} fs fs'"
  shows "phase_ckpt x fs \<Longrightarrow> phase_ckpt x fs'" "phase_ckpted x fs \<Longrightarrow> phase_ckpted x fs'"
    "phase_commit x fs \<Longrightarrow> phase_commit x fs'" "phase_committed x fs \<Longrightarrow> phase_committed x fs'"
proof -
  have inv: "commit_inv s t i fs \<Longrightarrow> commit_inv s t i fs'" for s t i using commit_inv_step [OF _ step] by simp
  have m: "marker fs v p b \<Longrightarrow> marker fs' v p b" for v p b by (rule marker_step [OF _ step refl])
  show "phase_ckpt x fs \<Longrightarrow> phase_ckpt x fs'" "phase_ckpted x fs \<Longrightarrow> phase_ckpted x fs'"
    "phase_commit x fs \<Longrightarrow> phase_commit x fs'" "phase_committed x fs \<Longrightarrow> phase_committed x fs'"
    using phases_mono [OF inv m quiet_view [OF step]] by blast+
qed

subsection \<open>A checkpoint is completed\<close>

lemma transaction_checkpoint_result:
  assumes "chunks_transaction_checkpoint flt c fs = (rc, fs')"
  obtains rc' where "chunks_directory_commit flt c ''.ckpt'' ''.tmp'' fs = (rc', fs')"
    "rc = (if rc' = 0 then 0 else -1)"
  using assms by (auto simp: chunks_transaction_checkpoint_def split: prod.splits if_splits)

lemma transaction_commit_result:
  assumes "chunks_transaction_commit flt c fs = (rc, fs')"
  obtains rc' where "chunks_directory_commit flt c ''.tmp'' [] fs = (rc', fs')"
    "rc = (if rc' = 0 then 0 else -1)"
  using assms by (auto simp: chunks_transaction_commit_def split: prod.splits if_splits)

text \<open>A commit of the chunk directory that starts and ends well leaves nothing pending.\<close>

lemma directory_commit_done:
  assumes run: "chunks_directory_commit flt c osuff nsuff fs = (0, fs')" and "osuff \<noteq> nsuff"
    and inv: "commit_inv (directory_path c nsuff) (directory_path c osuff) i fs"
    and synced: "crash_views fs = {fs_names fs}"
  shows "crash_views fs' = {fs_names fs'}" "fs_names fs' (directory_path c nsuff) = Some i"
    "fs_names fs' (directory_path c osuff) = None"
proof -
  have ok: "commit_step_ok (directory_path c nsuff) (directory_path c osuff) i flt fs (0, fs')"
    using chunks_directory_commit_ok [OF inv assms(2), of flt] unfolding run .
  then show "fs_names fs' (directory_path c nsuff) = Some i" "fs_names fs' (directory_path c osuff) = None"
    by (simp_all add: commit_step_ok_def)
  show "crash_views fs' = {fs_names fs'}"
  proof (cases "fs_names fs (directory_path c osuff)")
    case None
    then show ?thesis using commit_without_tmp(1) [OF None run] synced by (simp add: same_dirD)
  next
    case (Some j)
    then show ?thesis using ok by (simp add: commit_step_ok_def)
  qed
qed

text \<open>The server's part in success: it acknowledges every call.\<close>

definition server_up :: "storage \<Rightarrow> bool" where
  "server_up srv \<longleftrightarrow> (\<forall>log call. fst (srv log call) = 0)"

text \<open>
  The step with marker \<open>s\<close> (contents \<open>b\<close>) and chunk directory \<open>i\<close>: it is either still to be
  done, or done but for the removal of the marker.
\<close>

definition step_open :: "string \<Rightarrow> bytes \<Rightarrow> string \<Rightarrow> string \<Rightarrow> nat \<Rightarrow> fs \<Rightarrow> bool" where
  "step_open s b nd od i fs \<longleftrightarrow> commit_inv nd od i fs \<and> (\<forall>v\<in>crash_views fs. marker fs v s b)"

definition step_done :: "string \<Rightarrow> bytes \<Rightarrow> string \<Rightarrow> bytes \<Rightarrow> string \<Rightarrow> string \<Rightarrow> nat \<Rightarrow> fs \<Rightarrow> bool" where
  "step_done s b t c nd od i fs \<longleftrightarrow>
     (\<forall>v\<in>crash_views fs. v nd = Some i \<and> v od = None \<and> marker fs v t c \<and>
        (v s = None \<or> marker fs v s b))"

lemma step_replaced:
  assumes run: "move_marker flt s t c fs = (rc, fs')" and names: "s \<noteq> t" "nd \<notin> {s, t}" "od \<notin> {s, t}"
    and synced: "crash_views fs = {fs_names fs}" "fs_names fs nd = Some i" "fs_names fs od = None"
    and mk: "marker fs (fs_names fs) s b"
  shows "step_open s b nd od i fs' \<or> step_done s b t c nd od i fs'"
    "rc = 0 \<Longrightarrow> step_done s b t c nd od i fs' \<and> crash_views fs' = {fs_names fs'} \<and> fs_names fs' s = None"
    "flt = no_fault \<Longrightarrow> rc = 0"
proof -
  obtain j where j: "fs_names fs s = Some j" using mk by (auto simp: marker_def)
  then have "\<forall>v\<in>crash_views fs. v s = Some j" using synced(1) by simp
  note spec = move_marker_spec [OF run names(1) this]
  have dirs: "\<forall>v\<in>crash_views fs'. v nd = Some i \<and> v od = None"
    using view_step [of fs "\<lambda>y. y = Some i" nd, OF _ spec(1)] view_step [of fs "\<lambda>y. y = None" od, OF _ spec(1)]
      synced names by simp
  have mk': "marker fs' v s b" if "v s = Some j" for v
    using marker_step [OF mk spec(1), of v] that j by simp
  have fin: "step_done s b t c nd od i fs'" if "marked s t c j fs'"
    using that dirs mk' by (auto simp: marked_def step_done_def)
  have "step_open s b nd od i fs'" if "\<forall>v\<in>crash_views fs'. v s = Some j"
    using that mk' dirs by (auto simp: step_open_def commit_inv_def phase_done_def)
  then show "step_open s b nd od i fs' \<or> step_done s b t c nd od i fs'" using spec(2) fin by blast
  show "rc = 0 \<Longrightarrow> step_done s b t c nd od i fs' \<and> crash_views fs' = {fs_names fs'} \<and> fs_names fs' s = None"
    using spec(5) fin by blast
  show "flt = no_fault \<Longrightarrow> rc = 0" by (rule spec(4))
qed

text \<open>The chunk layer's part is one commit of its directory.\<close>

definition moves_directory :: "fault \<Rightarrow> string \<Rightarrow> string \<Rightarrow> string \<Rightarrow> (fs \<Rightarrow> int \<times> fs) \<Rightarrow> bool" where
  "moves_directory flt c osuff nsuff op \<longleftrightarrow> osuff \<noteq> nsuff \<and>
     (\<forall>fs. op fs = (case chunks_directory_commit flt c osuff nsuff fs of (rc, fs) \<Rightarrow>
        if rc \<noteq> 0 then (-1, fs) else (0, fs)))"

lemma transactions_move [simp]:
  "moves_directory flt c ''.ckpt'' ''.tmp'' (chunks_transaction_checkpoint flt c)"
  "moves_directory flt c ''.tmp'' [] (chunks_transaction_commit flt c)"
  by (simp_all add: moves_directory_def chunks_transaction_checkpoint_def chunks_transaction_commit_def)

lemma moves_directory_ok:
  assumes op: "moves_directory flt c osuff nsuff op" "op fs = (rc, fs')"
    and nm: "nd = directory_path c nsuff" "od = directory_path c osuff" "s \<notin> {nd, od}"
    and start: "step_open s b nd od i fs" "crash_views fs = {fs_names fs}"
  shows "rc = 0 \<or> rename_safe flt fs \<Longrightarrow> step_open s b nd od i fs'" "dir_step {nd, od} fs fs'" "flt = no_fault \<Longrightarrow> rc = 0"
    "rc = 0 \<Longrightarrow> crash_views fs' = {fs_names fs'} \<and> fs_names fs' nd = Some i \<and> fs_names fs' od = None"
proof -
  obtain rc' where r: "chunks_directory_commit flt c osuff nsuff fs = (rc', fs')" "rc = 0 \<longrightarrow> rc' = 0"
      "rc' = 0 \<longrightarrow> rc = 0"
    using op unfolding moves_directory_def by (auto split: prod.splits if_splits)
  have ne: "osuff \<noteq> nsuff" using op(1) by (simp add: moves_directory_def)
  have inv: "commit_inv nd od i fs" using start(1) by (simp add: step_open_def)
  have ok: "commit_step_ok nd od i flt fs (rc', fs')"
    using chunks_directory_commit_ok [OF inv [unfolded nm(1,2)] ne, of flt] unfolding r(1) nm(1,2) .
  show d: "dir_step {nd, od} fs fs'" using dir_step_directory_commit [OF r(1)] nm by simp
  show "rc = 0 \<or> rename_safe flt fs \<Longrightarrow> step_open s b nd od i fs'"
    using r(2) ok marker_views_step [OF _ d, of s] start(1) nm(3) by (auto simp: step_open_def commit_step_ok_def)
  show "flt = no_fault \<Longrightarrow> rc = 0" using ok r(3) by (simp add: commit_step_ok_def)
  show "rc = 0 \<Longrightarrow> crash_views fs' = {fs_names fs'} \<and> fs_names fs' nd = Some i \<and> fs_names fs' od = None"
    using directory_commit_done [OF _ ne inv [unfolded nm(1,2)] start(2), of flt fs'] r nm by auto
qed

lemma complete_step_spec:
  assumes op: "moves_directory flt c osuff nsuff op"
    and nm: "nd = directory_path c nsuff" "od = directory_path c osuff" "s \<noteq> t" "s \<notin> {nd, od}" "t \<notin> {nd, od}"
    and start: "step_open s b nd od i fs" "crash_views fs = {fs_names fs}"
    and run: "complete_step flt srv op rq s t d fs log = (rc, fs', log', m)"
  shows "rc = 0 \<or> rename_safe flt fs \<Longrightarrow> step_open s b nd od i fs' \<or> step_done s b t d nd od i fs' \<and> log' = log @ [(rq, 0)]"
    "rc = 0 \<Longrightarrow> step_done s b t d nd od i fs' \<and> log' = log @ [(rq, 0)] \<and>
       crash_views fs' = {fs_names fs'} \<and> fs_names fs' s = None"
    "flt = no_fault \<Longrightarrow> server_up srv \<Longrightarrow> rc = 0"
    "dir_step {nd, od, s, t} fs fs'" "log' = log \<or> (\<exists>a. log' = log @ [(rq, a)])"
proof -
  obtain rc1 fs1 where r1: "op fs = (rc1, fs1)" by fastforce
  obtain rc2 fs2 where r2: "move_marker flt s t d fs1 = (rc2, fs2)" by fastforce
  note ok = moves_directory_ok [OF op r1 nm(1,2,4) start]
  have mk: "marker fs1 (fs_names fs1) s b" if "rc1 = 0"
    using ok(1) that fs_names_in_crash_views by (auto simp: step_open_def)
  have names: "nd \<notin> {s, t}" "od \<notin> {s, t}" using nm by auto
  have last: "step_open s b nd od i fs2 \<or> step_done s b t d nd od i fs2"
    "rc2 = 0 \<Longrightarrow> step_done s b t d nd od i fs2 \<and> crash_views fs2 = {fs_names fs2} \<and> fs_names fs2 s = None"
    "flt = no_fault \<Longrightarrow> rc2 = 0" "dir_step {nd, od, s, t} fs fs2" if rc1: "rc1 = 0"
  proof -
    note ok4 = ok(4) [OF rc1]
    note mv = step_replaced [OF r2 nm(3) names ok4 [THEN conjunct1] ok4 [THEN conjunct2, THEN conjunct1]
      ok4 [THEN conjunct2, THEN conjunct2] mk [OF rc1]]
    show "step_open s b nd od i fs2 \<or> step_done s b t d nd od i fs2"
      "rc2 = 0 \<Longrightarrow> step_done s b t d nd od i fs2 \<and> crash_views fs2 = {fs_names fs2} \<and> fs_names fs2 s = None"
      "flt = no_fault \<Longrightarrow> rc2 = 0" by (fact mv)+
    obtain j where "\<forall>v\<in>crash_views fs1. v s = Some j" using mk [OF rc1] ok4 by (auto simp: marker_def)
    from dir_step_trans [OF ok(2) move_marker_spec(1) [OF r2 nm(3) this]]
    show "dir_step {nd, od, s, t} fs fs2" by (rule dir_step_mono) auto
  qed
  have d1: "dir_step {nd, od, s, t} fs fs1" by (rule dir_step_mono [OF ok(2)]) auto
  consider (chunks) "rc1 \<noteq> 0" "(rc, fs', log') = (-1, fs1, log)"
    | (server) "rc1 = 0" "fst (srv log rq) \<noteq> 0" "(rc, fs', log') = (-1, fs1, log @ [(rq, fst (srv log rq))])"
    | (marker) "rc1 = 0" "fst (srv log rq) = 0" "(rc, fs', log') = (rc2, fs2, log @ [(rq, 0)])"
    using run by (auto simp: complete_step_def Let_def r1 r2 split: if_splits)
  note outcome = this
  show "step_open s b nd od i fs' \<or> step_done s b t d nd od i fs' \<and> log' = log @ [(rq, 0)]"
    if "rc = 0 \<or> rename_safe flt fs"
    using ok(1) last(1) that by (cases rule: outcome) auto
  show "rc = 0 \<Longrightarrow> step_done s b t d nd od i fs' \<and> log' = log @ [(rq, 0)] \<and>
       crash_views fs' = {fs_names fs'} \<and> fs_names fs' s = None"
    using last(2) by (cases rule: outcome) auto
  show "flt = no_fault \<Longrightarrow> server_up srv \<Longrightarrow> rc = 0"
    using ok(3) last(3) by (cases rule: outcome) (auto simp: server_up_def)
  show "dir_step {nd, od, s, t} fs fs'" using d1 last(4) by (cases rule: outcome) auto
  show "log' = log \<or> (\<exists>a. log' = log @ [(rq, a)])" by (cases rule: outcome) auto
qed

text \<open>Up to there both functions make sure that the marker they read is on disk.\<close>

definition read_marker :: "fault \<Rightarrow> string \<Rightarrow> nat \<Rightarrow> fs \<Rightarrow> (errno + bytes) \<times> fs" where
  "read_marker flt s n fs =
     (case dirutil_fsyncdir flt fs of (rc, fs) \<Rightarrow>
      if rc \<noteq> 0 then (Inl E0, fs)
      else case plain_call flt fs of (Inl e, fs) \<Rightarrow> (Inl E0, fs)
         | (Inr _, fs) \<Rightarrow> hexlink_read flt s n fs)"

lemma docheckpoint_read:
  "multitape_docheckpoint flt srv c machinenum key fs log =
     (case read_marker flt (cache_name c ''ckpt_m'') 64 fs of
        (Inl e, fs) \<Rightarrow> if e \<noteq> ENOENT then (-1, fs, log) else (0, fs, log)
      | (Inr d, fs) \<Rightarrow>
          (case complete_step flt srv (chunks_transaction_checkpoint flt c)
                  (Checkpoint_call machinenum (take 32 d) (drop 32 d) key)
                  (cache_name c ''ckpt_m'') (cache_name c ''commit_m'') (take 32 d) fs log of
             (rc, fs, log, _) \<Rightarrow> (rc, fs, log)))"
  by (simp add: multitape_docheckpoint_def read_marker_def Let_def split: prod.splits sum.splits)

lemma docommit_read:
  "multitape_docommit flt srv c machinenum key fs log modified =
     (case read_marker flt (cache_name c ''commit_m'') 32 fs of
        (Inl e, fs) \<Rightarrow> if e \<noteq> ENOENT then (-1, fs, log, modified) else (0, fs, log, modified)
      | (Inr d, fs) \<Rightarrow>
          (case complete_step flt srv (chunks_transaction_commit flt c) (Commit_call machinenum d key)
                  (cache_name c ''commit_m'') (cache_name c ''cseq'') d fs log of
             (rc, fs, log, m) \<Rightarrow> (rc, fs, log, modified \<or> m)))"
  by (simp add: multitape_docommit_def read_marker_def split: prod.splits sum.splits)

lemma read_marker_result:
  assumes "read_marker flt s n fs = (r, fs')"
  shows "dir_step {} fs fs'"
    "r = Inr d \<or> r = Inl ENOENT \<Longrightarrow> crash_views fs' = {fs_names fs'}"
    "r = Inl ENOENT \<Longrightarrow> fs_names fs' s = None"
    "fs_names fs s = None \<Longrightarrow> r = Inl ENOENT \<or> (\<exists>e. r = Inl e \<and> e \<noteq> ENOENT \<and> flt \<noteq> no_fault)"
    "marker fs (fs_names fs) s b \<Longrightarrow> length b = n \<Longrightarrow>
       r = Inr b \<or> (\<exists>e. r = Inl e \<and> e \<noteq> ENOENT \<and> flt \<noteq> no_fault)"
proof -
  obtain rc1 fs1 where r1: "dirutil_fsyncdir flt fs = (rc1, fs1)" by fastforce
  obtain r2 fs2 where r2: "plain_call flt fs1 = (r2, fs2)" by fastforce
  obtain r3 fs3 where r3: "hexlink_read flt s n fs2 = (r3, fs3)" by fastforce
  note f1 = fsyncdir_result [OF r1] and f2 = plain_call_result [OF r2] and f3 = hexlink_read_result [OF r3]
  have d1: "dir_step {} fs fs1" by (rule dir_step_fsyncdir [OF r1])
  have d2: "dir_step {} fs fs2" using dir_step_then [OF d1 dir_step_same [OF f2(1)]] .
  have d3: "dir_step {} fs fs3" using dir_step_then [OF d2 dir_step_same [OF f3(1)]] .
  consider (fsync) "rc1 \<noteq> 0" "r = Inl E0" "fs' = fs1"
    | (name) "rc1 = 0" "\<exists>e. r2 = Inl e" "r = Inl E0" "fs' = fs2"
    | (read) "rc1 = 0" "r2 = Inr ()" "r = r3" "fs' = fs3"
    using assms by (auto simp: read_marker_def r1 r2 r3 split: sum.splits if_splits)
  note outcome = this
  have synced: "crash_views fs3 = {fs_names fs3}" if "rc1 = 0"
    using f1(1) f1(4) [OF that] same_dirD(1,2) [OF f2(1)] same_dirD(1,2) [OF f3(1)] by simp
  have names: "fs_names fs2 = fs_names fs" "fs_names fs3 = fs_names fs"
    using f1(1) same_dirD(1) [OF f2(1)] same_dirD(1) [OF f3(1)] by simp_all
  show "dir_step {} fs fs'" using d1 d2 d3 by (cases rule: outcome) auto
  show "r = Inr d \<or> r = Inl ENOENT \<Longrightarrow> crash_views fs' = {fs_names fs'}"
    using synced by (cases rule: outcome) auto
  show "r = Inl ENOENT \<Longrightarrow> fs_names fs' s = None"
    using f3(2) names by (cases rule: outcome) auto
  show "fs_names fs s = None \<Longrightarrow> r = Inl ENOENT \<or> (\<exists>e. r = Inl e \<and> e \<noteq> ENOENT \<and> flt \<noteq> no_fault)"
    using f1(5) f2(2) f3(2-4) names by (cases rule: outcome) (cases r3; fastforce)+
  show "r = Inr b \<or> (\<exists>e. r = Inl e \<and> e \<noteq> ENOENT \<and> flt \<noteq> no_fault)"
    if "marker fs (fs_names fs) s b" "length b = n"
  proof -
    have "marker fs2 (fs_names fs2) s b" using marker_step [OF that(1) d2] names by simp
    note hexlink_read_marker [OF r3 this that(2)]
    then show ?thesis using f1(5) f2(2) by (cases rule: outcome) auto
  qed
qed

subsection \<open>Recovery\<close>

lemma phases_steps:
  "phase_ckpt x fs = step_open (ckpt_m x) (tx_seqnum x @ tx_nonce x) (dir_tmp x) (dir_ckpt x) (tx_inode x) fs"
  "phase_ckpted x fs = step_done (ckpt_m x) (tx_seqnum x @ tx_nonce x) (commit_m x) (tx_seqnum x)
     (dir_tmp x) (dir_ckpt x) (tx_inode x) fs"
  "phase_commit x fs \<longleftrightarrow> step_open (commit_m x) (tx_seqnum x) (dir_final x) (dir_tmp x) (tx_inode x) fs \<and>
     (\<forall>v\<in>crash_views fs. v (ckpt_m x) = None \<and> v (dir_ckpt x) = None)"
  "phase_committed x fs \<longleftrightarrow> step_done (commit_m x) (tx_seqnum x) (cseq x) (tx_seqnum x)
     (dir_final x) (dir_tmp x) (tx_inode x) fs \<and>
     (\<forall>v\<in>crash_views fs. v (ckpt_m x) = None \<and> v (dir_ckpt x) = None)"
  by (auto simp: phase_defs step_open_def step_done_def)

definition recoverable :: "txn \<Rightarrow> fs \<Rightarrow> storage_log \<Rightarrow> bool" where
  "recoverable x fs log \<longleftrightarrow>
     phase_ckpt x fs \<or> phase_ckpted x fs \<and> checkpointed x log \<or>
     phase_commit x fs \<and> checkpointed x log \<or> phase_committed x fs \<and> committed x log"

text \<open>The checkpoint is done with.\<close>

definition past_checkpoint :: "txn \<Rightarrow> fs \<Rightarrow> storage_log \<Rightarrow> bool" where
  "past_checkpoint x fs log \<longleftrightarrow>
     phase_commit x fs \<and> checkpointed x log \<or> phase_committed x fs \<and> committed x log"

lemma committed_checkpointed: "committed x log \<Longrightarrow> checkpointed x log"
  by (auto simp: committed_def checkpointed_def)

lemma past_checkpoint_recoverable: "past_checkpoint x fs log \<Longrightarrow> recoverable x fs log"
  by (auto simp: past_checkpoint_def recoverable_def)

lemma recoverable_quiet:
  assumes "dir_step {} fs fs'"
  shows "recoverable x fs log \<Longrightarrow> recoverable x fs' log" "past_checkpoint x fs log \<Longrightarrow> past_checkpoint x fs' log"
  unfolding recoverable_def past_checkpoint_def using phases_quiet [OF assms] by blast+

text \<open>With nothing pending, the first marker tells the phases apart.\<close>

lemma recoverable_marker:
  assumes "recoverable x fs log"
  shows "fs_names fs (ckpt_m x) = None \<Longrightarrow> crash_views fs = {fs_names fs} \<Longrightarrow> past_checkpoint x fs log"
    "fs_names fs (ckpt_m x) \<noteq> None \<Longrightarrow> marker fs (fs_names fs) (ckpt_m x) (tx_seqnum x @ tx_nonce x)"
    "fs_names fs (ckpt_m x) \<noteq> None \<Longrightarrow> crash_views fs = {fs_names fs} \<Longrightarrow> phase_ckpt x fs"
  using assms fs_names_in_crash_views [of fs]
  by (auto simp: recoverable_def past_checkpoint_def phase_defs commit_inv_def phase_tmp_def phase_done_def marker_def)

lemma past_checkpoint_marker:
  assumes "past_checkpoint x fs log"
  shows "fs_names fs (commit_m x) = None \<Longrightarrow> phase_committed x fs \<and> committed x log"
    "fs_names fs (commit_m x) \<noteq> None \<Longrightarrow> marker fs (fs_names fs) (commit_m x) (tx_seqnum x)"
    "fs_names fs (commit_m x) \<noteq> None \<Longrightarrow> crash_views fs = {fs_names fs} \<Longrightarrow>
       phase_commit x fs \<and> checkpointed x log"
  using assms fs_names_in_crash_views [of fs] committed_checkpointed [of x log]
  by (auto simp: past_checkpoint_def phase_defs commit_inv_def phase_done_def marker_def)

lemma checkpoint_completes:
  assumes ckpt: "phase_ckpt x fs" and sync: "crash_views fs = {fs_names fs}"
    and run: "complete_step flt srv (chunks_transaction_checkpoint flt (tx_cache x))
        (Checkpoint_call (tx_machine x) (tx_seqnum x) (tx_nonce x) key) (ckpt_m x) (commit_m x) (tx_seqnum x) fs log =
        (rc, fs', log', m)"
  shows "(rc = 0 \<or> rename_safe flt fs \<longrightarrow> recoverable x fs' log') \<and> dir_step UNIV fs fs' \<and> (rc = 0 \<longrightarrow> past_checkpoint x fs' log') \<and>
    (flt = no_fault \<longrightarrow> server_up srv \<longrightarrow> rc = 0)"
proof -
  note spec = complete_step_spec [OF transactions_move(1) refl refl _ _ _ ckpt [unfolded phases_steps] sync run,
      folded phases_steps]
  have log: "checkpointed x log'" if "log' = log @ [(Checkpoint_call (tx_machine x) (tx_seqnum x) (tx_nonce x) key, 0)]"
    using that acknowledged_call(1) by simp
  have "past_checkpoint x fs' log'" if "rc = 0"
    using recoverable_marker(1) [of x fs' log'] spec(2) that log by (simp add: recoverable_def)
  then show ?thesis
    using spec(1,3) log dir_step_mono [OF spec(4)] by (auto simp: recoverable_def)
qed

lemma docheckpoint_recovers:
  assumes inv: "recoverable x fs log" and len: "length (tx_seqnum x) = 32" "length (tx_nonce x) = 32"
    and run: "multitape_docheckpoint flt srv (tx_cache x) (tx_machine x) key fs log = (rc, fs', log')"
  shows "(rc = 0 \<or> rename_safe flt fs \<longrightarrow> recoverable x fs' log') \<and> dir_step UNIV fs fs' \<and> (rc = 0 \<longrightarrow> past_checkpoint x fs' log') \<and>
    (flt = no_fault \<longrightarrow> server_up srv \<longrightarrow> rc = 0)"
proof -
  obtain r fs1 where r: "read_marker flt (ckpt_m x) 64 fs = (r, fs1)" by fastforce
  note rd = read_marker_result [OF r]
  note inv1 = recoverable_quiet(1) [OF rd(1) inv]
  have names: "fs_names fs1 = fs_names fs" using dir_step_names [OF rd(1)] by auto
  show ?thesis
  proof (cases r)
    case (Inl e)
    then have out: "(rc, fs', log') = (if e \<noteq> ENOENT then -1 else 0, fs1, log)"
      using run by (simp add: docheckpoint_read r split: if_splits)
    have "e = ENOENT" if "flt = no_fault"
      using rd(4) rd(5) [OF recoverable_marker(2) [OF inv]] len Inl that by fastforce
    moreover have "past_checkpoint x fs1 log" if "e = ENOENT"
      using recoverable_marker(1) [OF inv1] rd(2,3) Inl that by simp
    ultimately show ?thesis using out inv1 dir_step_mono [OF rd(1)] by auto
  next
    case (Inr d)
    have there: "fs_names fs (ckpt_m x) \<noteq> None" using rd(4) Inr by auto
    have d: "d = tx_seqnum x @ tx_nonce x"
      using rd(5) [OF recoverable_marker(2) [OF inv there]] len Inr by auto
    have sync: "crash_views fs1 = {fs_names fs1}" using rd(2) Inr by simp
    then have "phase_ckpt x fs1" using recoverable_marker(3) [OF inv1] there names by simp
    moreover obtain m where "complete_step flt srv (chunks_transaction_checkpoint flt (tx_cache x))
        (Checkpoint_call (tx_machine x) (tx_seqnum x) (tx_nonce x) key) (ckpt_m x) (commit_m x) (tx_seqnum x) fs1 log =
        (rc, fs', log', m)"
      using run Inr d len by (auto simp: docheckpoint_read r split: prod.splits)
    ultimately show ?thesis
      using checkpoint_completes [OF _ sync] dir_step_then [OF dir_step_mono [OF rd(1)], of UNIV]
        dir_step_rename_safe [OF rd(1), of flt] by simp
  qed
qed

lemma docommit_recovers:
  assumes inv: "past_checkpoint x fs log" and len: "length (tx_seqnum x) = 32"
    and run: "multitape_docommit flt srv (tx_cache x) (tx_machine x) key fs log modified = (rc, fs', log', m)"
  shows "(rc = 0 \<or> rename_safe flt fs \<longrightarrow> past_checkpoint x fs' log') \<and> dir_step UNIV fs fs' \<and>
    (rc = 0 \<longrightarrow> phase_committed x fs' \<and> committed x log' \<and> fs_names fs' (commit_m x) = None \<and>
       crash_views fs' = {fs_names fs'}) \<and>
    (flt = no_fault \<longrightarrow> server_up srv \<longrightarrow> rc = 0)"
proof -
  obtain r fs1 where r: "read_marker flt (commit_m x) 32 fs = (r, fs1)" by fastforce
  note rd = read_marker_result [OF r]
  note inv1 = recoverable_quiet(2) [OF rd(1) inv]
  have names: "fs_names fs1 = fs_names fs" using dir_step_names [OF rd(1)] by auto
  show ?thesis
  proof (cases r)
    case (Inl e)
    then have out: "(rc, fs', log') = (if e \<noteq> ENOENT then -1 else 0, fs1, log)"
      using run by (simp add: docommit_read r split: if_splits)
    have "e = ENOENT" if "flt = no_fault"
      using rd(4) rd(5) [OF past_checkpoint_marker(2) [OF inv]] len Inl that by fastforce
    moreover have "fs_names fs1 (commit_m x) = None \<and> crash_views fs1 = {fs_names fs1}" if "e = ENOENT"
      using rd(2,3) Inl that by simp
    ultimately show ?thesis using out inv1 past_checkpoint_marker(1) [OF inv1] dir_step_mono [OF rd(1)] by auto
  next
    case (Inr d)
    have there: "fs_names fs (commit_m x) \<noteq> None" using rd(4) Inr by auto
    have d: "d = tx_seqnum x" using rd(5) [OF past_checkpoint_marker(2) [OF inv there]] len Inr by auto
    have sync: "crash_views fs1 = {fs_names fs1}" using rd(2) Inr by simp
    have ph: "phase_commit x fs1" and acked: "checkpointed x log"
      using past_checkpoint_marker(3) [OF inv1] there names sync by simp_all
    note start = ph [unfolded phases_steps, THEN conjunct1]
    obtain m' where c: "complete_step flt srv (chunks_transaction_commit flt (tx_cache x))
        (Commit_call (tx_machine x) (tx_seqnum x) key) (commit_m x) (cseq x) (tx_seqnum x) fs1 log =
        (rc, fs', log', m')"
      using run Inr d by (auto simp: docommit_read r split: prod.splits)
    note spec = complete_step_spec [OF transactions_move(2) refl refl _ _ _ start sync c]
    have gone: "\<forall>v\<in>crash_views fs'. v (ckpt_m x) = None" "\<forall>v\<in>crash_views fs'. v (dir_ckpt x) = None"
      using view_step [of fs1 "\<lambda>y. y = None", OF _ spec(4)] ph by (simp_all add: phase_commit_def)
    have log: "committed x log'" if "log' = log @ [(Commit_call (tx_machine x) (tx_seqnum x) key, 0)]"
      using that acknowledged_call(2) [OF acked] by simp
    have "checkpointed x log'" using spec(5) acked acknowledged_append(1) [OF acked] by auto
    then have past: "past_checkpoint x fs' log'" if "rc = 0 \<or> rename_safe flt fs"
    proof -
      have "rc = 0 \<or> rename_safe flt fs1" using that dir_step_rename_safe [OF rd(1)] by simp
      then have "step_open (commit_m x) (tx_seqnum x) (dir_final x) (dir_tmp x) (tx_inode x) fs' \<or>
          step_done (commit_m x) (tx_seqnum x) (cseq x) (tx_seqnum x) (dir_final x) (dir_tmp x) (tx_inode x) fs' \<and>
          log' = log @ [(Commit_call (tx_machine x) (tx_seqnum x) key, 0)]"
        using spec(1) by simp
      then show ?thesis
        using gone log \<open>checkpointed x log'\<close> by (elim disjE) (simp_all add: past_checkpoint_def phases_steps(3,4))
    qed
    moreover have "phase_committed x fs' \<and> committed x log' \<and> fs_names fs' (commit_m x) = None \<and> crash_views fs' = {fs_names fs'}"
      if "rc = 0"
      using spec(2) that gone log by (simp add: phases_steps(4))
    moreover have "dir_step UNIV fs fs'"
      using dir_step_then [OF dir_step_mono [OF rd(1)] dir_step_mono [OF spec(4)], of UNIV] by simp
    moreover have "flt = no_fault \<longrightarrow> server_up srv \<longrightarrow> rc = 0" using spec(3) by simp
    ultimately show ?thesis using past by blast
  qed
qed

lemma cleanstate_recovers:
  assumes inv: "recoverable x fs log" and len: "length (tx_seqnum x) = 32" "length (tx_nonce x) = 32"
    and run: "multitape_cleanstate flt srv (tx_cache x) (tx_machine x) key fs log modified = (rc, fs', log', m)"
  shows "(rc = 0 \<or> rename_safe flt fs \<longrightarrow> recoverable x fs' log') \<and> dir_step UNIV fs fs' \<and>
    (rc = 0 \<longrightarrow> phase_committed x fs' \<and> committed x log' \<and> fs_names fs' (commit_m x) = None \<and>
       crash_views fs' = {fs_names fs'}) \<and>
    (flt = no_fault \<longrightarrow> server_up srv \<longrightarrow> rc = 0)"
proof -
  obtain rc1 fs1 log1 where r1: "multitape_docheckpoint flt srv (tx_cache x) (tx_machine x) key fs log = (rc1, fs1, log1)"
    by (metis prod_cases3)
  note c = docheckpoint_recovers [OF inv len r1]
  show ?thesis
  proof (cases "rc1 = 0")
    case False
    then have "fs' = fs1" "log' = log1" "rc \<noteq> 0" using run by (auto simp: multitape_cleanstate_def r1)
    then show ?thesis using c False by blast
  next
    case True
    obtain rc2 fs2 log2 m2 where r2: "multitape_docommit flt srv (tx_cache x) (tx_machine x) key fs1 log1 modified =
        (rc2, fs2, log2, m2)" by (metis prod_cases4)
    have "past_checkpoint x fs1 log1" using c True by blast
    note d = docommit_recovers [OF this len(1) r2]
    have "fs' = fs2" "log' = log2" "rc = 0 \<longleftrightarrow> rc2 = 0"
      using run True by (auto simp: multitape_cleanstate_def r1 r2 split: if_splits)
    moreover have "rename_safe flt fs1 = rename_safe flt fs" using c dir_step_rename_safe by blast
    moreover have "dir_step UNIV fs fs2" using dir_step_then c d by blast
    ultimately show ?thesis using d c True past_checkpoint_recoverable [of x fs2 log2] by simp
  qed
qed

lemma marker_power_loss:
  assumes "marker fs v p b" "power_loss fs fs'"
  shows "marker fs' v p b"
proof -
  obtain j where j: "j < fs_next fs" "v p = Some j" "fs_node fs j = Some (Symlink (hexify b))"
    using assms(1) by (auto simp: marker_def)
  have "node_after_crash (fs_node fs j) (fs_node fs' j)" "fs_next fs' = fs_next fs"
    using assms(2) by (simp_all add: power_loss_def)
  then show ?thesis using j by (auto simp: node_after_crash_def marker_def)
qed

lemma recoverable_power_loss:
  assumes "recoverable x fs log" and loss: "power_loss fs fs'"
  shows "recoverable x fs' log"
proof -
  have "crash_views fs' = {fs_names fs'}" using loss by (simp add: power_loss_def crash_views_synced)
  then have view: "v \<in> crash_views fs" if "v \<in> crash_views fs'" for v
    using power_loss_names [OF loss] that by simp
  show ?thesis
    using assms(1) phases_mono [OF commit_inv_power_loss [OF _ loss] marker_power_loss [OF _ loss] view, of x]
    unfolding recoverable_def by simp blast
qed

text \<open>Attempts to recover that may fail at any call, and power failures, in any number and order.  Where hard links are
  refused, the file system has to rename atomically.\<close>

inductive recovery :: "string \<Rightarrow> u64 \<Rightarrow> fs \<Rightarrow> storage_log \<Rightarrow> fs \<Rightarrow> storage_log \<Rightarrow> bool"
  for cachedir machinenum fs0 log0 where
  start: "recovery cachedir machinenum fs0 log0 fs0 log0"
| attempt: "recovery cachedir machinenum fs0 log0 fs log \<Longrightarrow>
    rename_safe flt fs \<Longrightarrow>
    multitape_cleanstate flt srv cachedir machinenum key fs log modified = (rc, fs', log', m) \<Longrightarrow>
    recovery cachedir machinenum fs0 log0 fs' log'"
| power: "recovery cachedir machinenum fs0 log0 fs log \<Longrightarrow> power_loss fs fs' \<Longrightarrow>
    recovery cachedir machinenum fs0 log0 fs' log"

lemma recovery_inv:
  assumes "recovery (tx_cache x) (tx_machine x) fs0 log0 fs log" "recoverable x fs0 log0"
    and "length (tx_seqnum x) = 32" "length (tx_nonce x) = 32"
    and "tx_inode x < fs_next fs0" "fs_node fs0 (tx_inode x) = Some (Regular d d)"
  shows "recoverable x fs log \<and> tx_inode x < fs_next fs \<and> fs_node fs (tx_inode x) = Some (Regular d d)"
  using assms
proof (induction rule: recovery.induct)
  case (attempt fs log flt srv key modified rc fs' log' m)
  then have "recoverable x fs log" by blast
  note cleanstate_recovers [OF this attempt.prems(2,3) attempt.hyps(3)]
  then have "recoverable x fs' log'" "dir_step UNIV fs fs'" using attempt.hyps(2) by blast+
  moreover have "tx_inode x < fs_next fs" "fs_node fs (tx_inode x) = Some (Regular d d)"
    using attempt by blast+
  ultimately show ?case using dir_step_node by metis
next
  case (power fs log fs')
  then have "recoverable x fs' log" "fs_node fs' (tx_inode x) = Some (Regular d d)"
    using recoverable_power_loss power_loss_synced by blast+
  moreover have "tx_inode x < fs_next fs'" using power by (simp add: power_loss_def)
  ultimately show ?case by blast
qed simp_all

text \<open>What any view of the directory shows of the transaction: one of its three steps.\<close>

definition transaction_safe :: "txn \<Rightarrow> storage_log \<Rightarrow> fs \<Rightarrow> (string \<Rightarrow> nat option) \<Rightarrow> bool" where
  "transaction_safe x log fs v \<longleftrightarrow>
     marker fs v (ckpt_m x) (tx_seqnum x @ tx_nonce x) \<and>
       (v (dir_ckpt x) = Some (tx_inode x) \<or> v (dir_tmp x) = Some (tx_inode x)) \<or>
     marker fs v (commit_m x) (tx_seqnum x) \<and> checkpointed x log \<and>
       (v (dir_tmp x) = Some (tx_inode x) \<or> v (dir_final x) = Some (tx_inode x)) \<or>
     marker fs v (cseq x) (tx_seqnum x) \<and> committed x log \<and> v (dir_final x) = Some (tx_inode x)"

definition transaction_complete :: "txn \<Rightarrow> storage_log \<Rightarrow> fs \<Rightarrow> bool" where
  "transaction_complete x log fs \<longleftrightarrow> committed x log \<and>
     (\<forall>v\<in>crash_views fs. v (dir_final x) = Some (tx_inode x) \<and> v (dir_tmp x) = None \<and> v (dir_ckpt x) = None \<and>
        v (ckpt_m x) = None \<and> v (commit_m x) = None \<and> marker fs v (cseq x) (tx_seqnum x))"

text \<open>The same without the claim that no chunk directory of an earlier transaction is left over.\<close>

definition commit_complete :: "txn \<Rightarrow> storage_log \<Rightarrow> fs \<Rightarrow> bool" where
  "commit_complete x log fs \<longleftrightarrow> committed x log \<and>
     (\<forall>v\<in>crash_views fs. v (dir_final x) = Some (tx_inode x) \<and> v (dir_tmp x) = None \<and>
        v (ckpt_m x) = None \<and> v (commit_m x) = None \<and> marker fs v (cseq x) (tx_seqnum x))"

lemma transaction_complete_iff:
  "transaction_complete x log fs \<longleftrightarrow> commit_complete x log fs \<and> (\<forall>v\<in>crash_views fs. v (dir_ckpt x) = None)"
  by (auto simp: transaction_complete_def commit_complete_def)

lemma recoverable_safe: "recoverable x fs log \<Longrightarrow> v \<in> crash_views fs \<Longrightarrow> transaction_safe x log fs v"
  by (auto simp: recoverable_def transaction_safe_def phase_defs commit_inv_def phase_tmp_def phase_done_def
      phase_moved_def)

lemma sequence_reads_marker:
  assumes "marker fs (fs_names fs) (cache_name c ''cseq'') b" "length b = 32"
  shows "fst (multitape_sequence flt c fs) = None \<or> fst (multitape_sequence flt c fs) = Some b"
proof -
  obtain r1 fs1 where r1: "plain_call flt fs = (r1, fs1)" by fastforce
  obtain r2 fs2 where r2: "hexlink_read flt (cache_name c ''cseq'') 32 fs1 = (r2, fs2)" by fastforce
  have "marker fs1 (fs_names fs1) (cache_name c ''cseq'') b"
    using marker_step [OF assms(1) dir_step_plain [OF r1, of "{}"]] same_dirD [OF plain_call_result(1) [OF r1]] by simp
  from hexlink_read_marker [OF r2 this assms(2)] show ?thesis
    by (auto simp: multitape_sequence_def r1 r2 split: sum.splits)
qed

lemma recovery_outcome:
  assumes "recovery (tx_cache x) (tx_machine x) fs0 log0 fs log" "recoverable x fs0 log0"
    and "length (tx_seqnum x) = 32" "length (tx_nonce x) = 32"
    and "tx_inode x < fs_next fs0" "fs_node fs0 (tx_inode x) = Some (Regular d d)"
  shows "(\<forall>v\<in>crash_views fs. transaction_safe x log fs v) \<and> fs_node fs (tx_inode x) = Some (Regular d d) \<and>
    (\<forall>flt srv key modified. case multitape_cleanstate flt srv (tx_cache x) (tx_machine x) key fs log modified of
       (rc, fs', log', _) \<Rightarrow> (rc = 0 \<longrightarrow> transaction_complete x log' fs' \<and>
           (\<forall>flt2. fst (multitape_sequence flt2 (tx_cache x) fs') \<in> {None, Some (tx_seqnum x)})) \<and>
         (flt = no_fault \<longrightarrow> server_up srv \<longrightarrow> rc = 0))"
proof -
  have inv: "recoverable x fs log" "fs_node fs (tx_inode x) = Some (Regular d d)"
    using recovery_inv [OF assms] by blast+
  have "(rc = 0 \<longrightarrow> transaction_complete x log' fs' \<and>
      (\<forall>flt2. fst (multitape_sequence flt2 (tx_cache x) fs') \<in> {None, Some (tx_seqnum x)})) \<and> (flt = no_fault \<longrightarrow> server_up srv \<longrightarrow> rc = 0)"
    if "multitape_cleanstate flt srv (tx_cache x) (tx_machine x) key fs log modified = (rc, fs', log', m)"
    for flt srv key modified rc fs' log' m
  proof -
    note c = cleanstate_recovers [OF inv(1) assms(3,4) that]
    have "transaction_complete x log' fs'" if "rc = 0"
      using c that by (auto simp: transaction_complete_def phase_committed_def)
    moreover have "fst (multitape_sequence flt2 (tx_cache x) fs') \<in> {None, Some (tx_seqnum x)}"
      if "transaction_complete x log' fs'" for flt2
      using sequence_reads_marker that fs_names_in_crash_views assms(3)
      by (auto simp: transaction_complete_def)
    ultimately show ?thesis using c by blast
  qed
  then show ?thesis using recoverable_safe [OF inv(1)] inv(2) by (auto split: prod.splits)
qed

text \<open>A checkpoint that begins with a marker just written, and not yet on disk.\<close>

lemma fresh_checkpoint:
  assumes wr: "hexlink_write flt (ckpt_m x) (tx_seqnum x @ tx_nonce x) fs = (0, fs1)"
    and sync: "crash_views fs = {fs_names fs}" and dir: "fs_names fs (dir_ckpt x) = Some (tx_inode x)"
    and len: "length (tx_seqnum x) = 32 \<and> length (tx_nonce x) = 32"
    and run: "multitape_docheckpoint flt srv (tx_cache x) (tx_machine x) key fs1 log = (rc, fs', log')"
  shows "(rename_safe flt fs \<longrightarrow> (\<forall>v\<in>crash_views fs'. v = fs_names fs \<or> transaction_safe x log' fs' v)) \<and>
    (rc = 0 \<longrightarrow> dir_step UNIV fs1 fs' \<and> past_checkpoint x fs' log' \<and> checkpointed x log' \<and>
       (\<forall>v\<in>crash_views fs'. v (ckpt_m x) = None \<and> transaction_safe x log' fs' v)) \<and>
    (flt = no_fault \<longrightarrow> server_up srv \<longrightarrow> rc = 0)"
proof -
  note w = hexlink_write_result(2) [OF wr refl]
  have mk: "marker fs1 (fs_names fs1) (ckpt_m x) (tx_seqnum x @ tx_nonce x)" by (rule hexlink_write_marker [OF wr])
  obtain r fs2 where r: "read_marker flt (ckpt_m x) 64 fs1 = (r, fs2)" by fastforce
  note rd = read_marker_result [OF r]
  have names: "fs_names fs2 = fs_names fs1" using dir_step_names [OF rd(1)] by auto
  have mk2: "marker fs2 (fs_names fs1) (ckpt_m x) (tx_seqnum x @ tx_nonce x)"
    using marker_step [OF mk rd(1), of "fs_names fs1"] by simp
  have "r = Inr (tx_seqnum x @ tx_nonce x) \<or> (\<exists>e. r = Inl e \<and> e \<noteq> ENOENT \<and> flt \<noteq> no_fault)"
    using rd(5) [OF mk] len by simp
  then show ?thesis
  proof
    assume "\<exists>e. r = Inl e \<and> e \<noteq> ENOENT \<and> flt \<noteq> no_fault"
    then have out: "rc = -1" "fs' = fs2" "flt \<noteq> no_fault" using run by (auto simp: docheckpoint_read r)
    have "v = fs_names fs \<or> transaction_safe x log' fs2 v" if "v \<in> crash_views fs2" for v
    proof -
      have "v \<in> crash_views fs1" using quiet_view [OF rd(1) that] .
      then have "v = fs_names fs \<or> v = fs_names fs1" using w sync by auto
      moreover have "transaction_safe x log' fs2 (fs_names fs1)"
        using mk2 w dir by (simp add: transaction_safe_def)
      ultimately show ?thesis by blast
    qed
    then show ?thesis using out by simp
  next
    assume "r = Inr (tx_seqnum x @ tx_nonce x)"
    moreover from this have sync2: "crash_views fs2 = {fs_names fs2}" using rd(2) by simp
    moreover obtain m where "complete_step flt srv (chunks_transaction_checkpoint flt (tx_cache x))
        (Checkpoint_call (tx_machine x) (tx_seqnum x) (tx_nonce x) key) (ckpt_m x) (commit_m x) (tx_seqnum x) fs2 log =
        (rc, fs', log', m)"
      using run calculation len by (auto simp: docheckpoint_read r split: prod.splits)
    moreover have "phase_ckpt x fs2"
      using mk2 names w dir sync2 by (simp add: phase_ckpt_def commit_inv_def phase_tmp_def)
    ultimately have fin: "rc = 0 \<or> rename_safe flt fs2 \<longrightarrow> recoverable x fs' log'" "rc = 0 \<longrightarrow> past_checkpoint x fs' log'"
      "flt = no_fault \<longrightarrow> server_up srv \<longrightarrow> rc = 0" "dir_step UNIV fs2 fs'"
      using checkpoint_completes by blast+
    moreover have "dir_step UNIV fs1 fs'"
      using dir_step_then [OF dir_step_mono [OF rd(1)] fin(4)] by simp
    moreover have "checkpointed x log' \<and> (\<forall>v\<in>crash_views fs'. v (ckpt_m x) = None)" if "past_checkpoint x fs' log'"
      using that committed_checkpointed by (auto simp: past_checkpoint_def phase_commit_def phase_committed_def)
    moreover have "rename_safe flt fs2 = rename_safe flt fs"
      using w dir_step_rename_safe [OF rd(1)] by (simp add: rename_safe_def)
    ultimately show ?thesis using recoverable_safe by blast
  qed
qed

text \<open>The checkpoint of a transaction, from the nonce on.\<close>

lemma fresh_checkpoint_spec:
  assumes "crash_views fs = {fs_names fs}" "fs_names fs (ckpt_m x) = None" "fs_names fs (dir_ckpt x) = Some (tx_inode x)"
    and "length (tx_seqnum x) = 32" "length (tx_nonce x) = 32"
    and run: "multitape_checkpoint flt srv (Some (tx_nonce x)) (tx_cache x) (tx_machine x) (tx_seqnum x) fs log =
      (rc, fs', log')"
  shows "(rename_safe flt fs \<longrightarrow> (\<forall>v\<in>crash_views fs'. v = fs_names fs \<or> transaction_safe x log' fs' v)) \<and>
    (rc = 0 \<longrightarrow> dir_step UNIV fs fs' \<and> past_checkpoint x fs' log' \<and> checkpointed x log' \<and>
       (\<forall>v\<in>crash_views fs'. v (ckpt_m x) = None \<and> transaction_safe x log' fs' v)) \<and>
    (flt = no_fault \<longrightarrow> server_up srv \<longrightarrow> rc = 0)"
proof -
  note sync = assms(1)
  obtain r1 fs1 where r1: "plain_call flt fs = (r1, fs1)" by fastforce
  obtain rc2 fs2 where r2: "hexlink_write flt (ckpt_m x) (tx_seqnum x @ tx_nonce x) fs1 = (rc2, fs2)" by fastforce
  obtain rc3 fs3 log3 where r3: "multitape_docheckpoint flt srv (tx_cache x) (tx_machine x) 0 fs2 log = (rc3, fs3, log3)"
    by (metis prod_cases3)
  note same1 = same_dirD [OF plain_call_result(1) [OF r1]] and w = hexlink_write_result [OF r2]
  note unfold = multitape_checkpoint_def r1 r2 r3
  consider (early) "rc \<noteq> 0" "log' = log" "same_dir fs fs'" "flt \<noteq> no_fault"
    | (written) "rc2 = 0" "rc = 0 \<longleftrightarrow> rc3 = 0" "fs' = fs3" "log' = log3"
  proof (cases r1)
    case (Inl e)
    then show ?thesis using early run plain_call_result [OF r1] by (auto simp: unfold)
  next
    case (Inr u)
    show ?thesis
    proof (cases "rc2 = 0")
      case True
      then show ?thesis using written run Inr by (auto simp: unfold split: if_splits)
    next
      case False
      then have "same_dir fs1 fs2" using w(1) by blast
      then have "same_dir fs fs2" using same_dir_trans [OF plain_call_result(1) [OF r1]] by blast
      then show ?thesis using early run Inr False w(3) same1 assms(2) by (auto simp: unfold)
    qed
  qed
  then show ?thesis
  proof cases
    case early
    then show ?thesis using same_dirD(2) [OF early(3)] sync by simp
  next
    case written
    show ?thesis
      using fresh_checkpoint [OF r2 [unfolded written(1)] _ _ _ r3] same1 rename_safe_cong [OF same1(5), of flt] sync assms(2-5) written
        dir_step_then [OF dir_step_plain [OF r1] dir_step_then [OF dir_step_hexlink [OF r2]]] by simp
  qed
qed

text \<open>A commit that begins with a marker just written.\<close>

lemma fresh_commit_ok:
  assumes sync: "crash_views fs = {fs_names fs}" and dir: "fs_names fs (dir_tmp x) = Some (tx_inode x)"
    and free: "fs_names fs (ckpt_m x) = None"
    and acked: "checkpointed x log" and len: "length (tx_seqnum x) = 32"
    and run: "multitape_commit flt srv (tx_cache x) (tx_machine x) (tx_seqnum x) key fs log modified = (0, fs', log', m)"
  shows "commit_complete x log' fs' \<and> dir_step UNIV fs fs' \<and>
    (fs_names fs (dir_ckpt x) = None \<longrightarrow> transaction_complete x log' fs')"
proof -
  obtain u fs1 where r1: "plain_call flt fs = (Inr u, fs1)"
    using run by (auto simp: multitape_commit_def split: prod.splits sum.splits)
  obtain fs2 where r2: "hexlink_write flt (commit_m x) (tx_seqnum x) fs1 = (0, fs2)"
    using run r1 by (auto simp: multitape_commit_def split: prod.splits if_splits)
  have r3: "multitape_docommit flt srv (tx_cache x) (tx_machine x) key fs2 log modified = (0, fs', log', m)"
    using run r1 r2 by (auto simp: multitape_commit_def split: prod.splits if_splits)
  note same1 = same_dirD [OF plain_call_result(1) [OF r1]]
  note w = hexlink_write_result(2) [OF r2 refl]
  have mk: "marker fs2 (fs_names fs2) (commit_m x) (tx_seqnum x)" by (rule hexlink_write_marker [OF r2])
  obtain r fs3 where r: "read_marker flt (commit_m x) 32 fs2 = (r, fs3)" by fastforce
  note rd = read_marker_result [OF r]
  have names: "fs_names fs3 = fs_names fs2" using dir_step_names [OF rd(1)] by auto
  have mk3: "marker fs3 (fs_names fs3) (commit_m x) (tx_seqnum x)"
    using marker_step [OF mk rd(1), of "fs_names fs2"] by (simp add: names)
  have "r = Inr (tx_seqnum x) \<or> (\<exists>e. r = Inl e \<and> e \<noteq> ENOENT \<and> flt \<noteq> no_fault)"
    using rd(5) [OF mk] len by simp
  then have d: "r = Inr (tx_seqnum x)" using r3 by (auto simp: docommit_read r)
  have sync3: "crash_views fs3 = {fs_names fs3}" using rd(2) d by simp
  have start: "step_open (commit_m x) (tx_seqnum x) (dir_final x) (dir_tmp x) (tx_inode x) fs3"
    using mk3 names w same1 dir sync3 by (simp add: step_open_def commit_inv_def phase_tmp_def)
  obtain m' where c: "complete_step flt srv (chunks_transaction_commit flt (tx_cache x))
      (Commit_call (tx_machine x) (tx_seqnum x) key) (commit_m x) (cseq x) (tx_seqnum x) fs3 log = (0, fs', log', m')"
    using r3 d by (auto simp: docommit_read r split: prod.splits)
  note spec = complete_step_spec [OF transactions_move(2) refl refl _ _ _ start sync3 c]
  have gone: "\<forall>v\<in>crash_views fs'. v (ckpt_m x) = None"
    using view_step [of fs3 "\<lambda>y. y = None", OF _ spec(4)] sync3 names w same1 free by simp
  have left: "\<forall>v\<in>crash_views fs'. v (dir_ckpt x) = None" if "fs_names fs (dir_ckpt x) = None"
    using view_step [of fs3 "\<lambda>y. y = None", OF _ spec(4)] sync3 names w same1 that by simp
  have "step_done (commit_m x) (tx_seqnum x) (cseq x) (tx_seqnum x) (dir_final x) (dir_tmp x) (tx_inode x) fs'"
      "fs_names fs' (commit_m x) = None" "crash_views fs' = {fs_names fs'}"
    using spec(2) by simp_all
  moreover have "committed x log'" using spec(2,5) acknowledged_call(2) [OF acked] by auto
  ultimately have fin: "commit_complete x log' fs'" using gone by (auto simp: commit_complete_def step_done_def)
  then have "fs_names fs (dir_ckpt x) = None \<longrightarrow> transaction_complete x log' fs'"
    using left by (simp add: transaction_complete_iff)
  moreover have "dir_step UNIV fs fs'"
    using dir_step_then [OF dir_step_plain [OF r1] dir_step_then [OF dir_step_hexlink [OF r2]
        dir_step_then [OF dir_step_mono [OF rd(1)] dir_step_mono [OF spec(4)]]]] by simp
  ultimately show ?thesis using fin by blast
qed

text \<open>The sequence number is read: nothing changes.\<close>

lemma sequence_same_dir:
  assumes "multitape_sequence flt c fs = (r, fs')"
  shows "same_dir fs fs'"
proof -
  obtain a fs1 where 1: "plain_call flt fs = (a, fs1)" by fastforce
  obtain b fs2 where 2: "hexlink_read flt (cache_name c ''cseq'') 32 fs1 = (b, fs2)" by fastforce
  have "fs' = fs1 \<or> fs' = fs2" using assms 1 2 by (auto simp: multitape_sequence_def split: sum.splits if_splits)
  then show ?thesis
    using plain_call_result(1) [OF 1] hexlink_read_result(1) [OF 2] same_dir_trans by blast
qed

lemma sequence_succeeds:
  assumes "marker fs (fs_names fs) (cache_name c ''cseq'') b" "length b = 32"
  shows "\<exists>fs'. multitape_sequence no_fault c fs = (Some b, fs')"
proof -
  obtain a fs1 where 1: "plain_call no_fault fs = (a, fs1)" by fastforce
  have a: "a = Inr ()" using plain_call_result(2) [OF 1] by auto
  obtain r fs2 where 2: "hexlink_read no_fault (cache_name c ''cseq'') 32 fs1 = (r, fs2)" by fastforce
  have "r = Inr b"
    using assms same_dirD [OF plain_call_result(1) [OF 1]] hexlink_read_result(5) [OF 2 refl] by (auto simp: marker_def)
  then show ?thesis using 1 2 a by (simp add: multitape_sequence_def)
qed

lemma fresh_commit_succeeds:
  fixes x :: txn
  assumes sync: "crash_views fs = {fs_names fs}" and dir: "fs_names fs (dir_tmp x) = Some (tx_inode x)"
    and free: "fs_names fs (commit_m x) = None"
    and len: "length (tx_seqnum x) = 32" and srv: "server_up srv"
  shows "fst (multitape_commit no_fault srv (tx_cache x) (tx_machine x) (tx_seqnum x) key fs log modified) = 0"
proof -
  obtain a fs1 where r1: "plain_call no_fault fs = (a, fs1)" by fastforce
  have a: "a = Inr ()" using plain_call_result(2) [OF r1] by auto
  note same1 = same_dirD [OF plain_call_result(1) [OF r1]]
  obtain rc2 fs2 where r2: "hexlink_write no_fault (commit_m x) (tx_seqnum x) fs1 = (rc2, fs2)" by fastforce
  have rc2: "rc2 = 0" using hexlink_write_result(3) [OF r2 refl] free by (simp add: same1)
  note w = hexlink_write_result(2) [OF r2 rc2] and mk = hexlink_write_marker [OF r2 [unfolded rc2]]
  obtain r fs3 where r: "read_marker no_fault (commit_m x) 32 fs2 = (r, fs3)" by fastforce
  note rd = read_marker_result [OF r]
  have names: "fs_names fs3 = fs_names fs2" using dir_step_names [OF rd(1)] by auto
  have mk3: "marker fs3 (fs_names fs3) (commit_m x) (tx_seqnum x)"
    using marker_step [OF mk rd(1), of "fs_names fs2"] by (simp add: names)
  have d: "r = Inr (tx_seqnum x)" using rd(5) [OF mk] len by auto
  have sync3: "crash_views fs3 = {fs_names fs3}" using rd(2) d by simp
  have start: "step_open (commit_m x) (tx_seqnum x) (dir_final x) (dir_tmp x) (tx_inode x) fs3"
    using mk3 names w same1 dir sync3 by (simp add: step_open_def commit_inv_def phase_tmp_def)
  obtain rc fs4 log4 m4 where c: "complete_step no_fault srv (chunks_transaction_commit no_fault (tx_cache x))
      (Commit_call (tx_machine x) (tx_seqnum x) key) (commit_m x) (cseq x) (tx_seqnum x) fs3 log = (rc, fs4, log4, m4)"
    by (metis prod_cases4)
  have "rc = 0" using complete_step_spec(3) [OF transactions_move(2) refl refl _ _ _ start sync3 c] srv by simp
  then show ?thesis using r1 a r2 rc2 d c by (simp add: multitape_commit_def docommit_read r)
qed

section \<open>Properties\<close>

text \<open>C10: Once a checkpoint marker is on disk, the transaction is never lost, where the file system has hard links or
  renames atomically.  After any history of
  recovery attempts that fail at any call or are refused by the server, and of power failures
  that keep any of the unsynced directory changes: whatever the next power failure leaves, one of
  the three markers names the transaction and the new chunk directory is under a name that
  belongs to that step, with its contents; the commit marker is there only if the server has
  acknowledged the checkpoint, and the final one only if it has acknowledged checkpoint and then
  commit.  An attempt that returns 0 has completed the transaction durably, and an attempt in
  which no call fails and the server acknowledges does return 0.\<close>

theorem checkpoint_is_recovered:
  assumes "recovery (tx_cache x) (tx_machine x) fs0 log0 fs log"
    and "fs_pend fs0 = []" "marker fs0 (fs_names fs0) (ckpt_m x) (tx_seqnum x @ tx_nonce x)"
    and "fs_names fs0 (dir_ckpt x) = Some (tx_inode x)"
    and "length (tx_seqnum x) = 32" "length (tx_nonce x) = 32"
    and "tx_inode x < fs_next fs0" "fs_node fs0 (tx_inode x) = Some (Regular d d)"
  shows "(\<forall>v\<in>crash_views fs. transaction_safe x log fs v) \<and> fs_node fs (tx_inode x) = Some (Regular d d) \<and>
    (\<forall>flt srv key modified. case multitape_cleanstate flt srv (tx_cache x) (tx_machine x) key fs log modified of
       (rc, fs', log', _) \<Rightarrow> (rc = 0 \<longrightarrow> transaction_complete x log' fs' \<and>
           (\<forall>flt2. fst (multitape_sequence flt2 (tx_cache x) fs') \<in> {None, Some (tx_seqnum x)})) \<and>
         (flt = no_fault \<longrightarrow> server_up srv \<longrightarrow> rc = 0))"
proof -
  have "recoverable x fs0 log0"
    using commit_inv_start [OF assms(2,4)] assms(3) crash_views_synced [OF assms(2)]
    by (simp add: recoverable_def phase_ckpt_def)
  from recovery_outcome [OF assms(1) this assms(5-8)] show ?thesis .
qed

text \<open>C20: A commit marker on disk is enough as well, whether the transaction had a checkpoint or
  (like a deletion) none: where the file system has hard links or renames atomically, it is never lost and always
  completed, in the same sense.\<close>

theorem commit_is_recovered:
  assumes "recovery (tx_cache x) (tx_machine x) fs0 log0 fs log"
    and "fs_pend fs0 = []" "marker fs0 (fs_names fs0) (commit_m x) (tx_seqnum x)"
    and "fs_names fs0 (dir_tmp x) = Some (tx_inode x)"
    and "fs_names fs0 (ckpt_m x) = None" "fs_names fs0 (dir_ckpt x) = None" "checkpointed x log0"
    and "length (tx_seqnum x) = 32" "length (tx_nonce x) = 32"
    and "tx_inode x < fs_next fs0" "fs_node fs0 (tx_inode x) = Some (Regular d d)"
  shows "(\<forall>v\<in>crash_views fs. transaction_safe x log fs v) \<and> fs_node fs (tx_inode x) = Some (Regular d d) \<and>
    (\<forall>flt srv key modified. case multitape_cleanstate flt srv (tx_cache x) (tx_machine x) key fs log modified of
       (rc, fs', log', _) \<Rightarrow> (rc = 0 \<longrightarrow> transaction_complete x log' fs' \<and>
           (\<forall>flt2. fst (multitape_sequence flt2 (tx_cache x) fs') \<in> {None, Some (tx_seqnum x)})) \<and>
         (flt = no_fault \<longrightarrow> server_up srv \<longrightarrow> rc = 0))"
proof -
  have "recoverable x fs0 log0"
    using commit_inv_start [OF assms(2,4)] assms(3,5-7) crash_views_synced [OF assms(2)]
    by (simp add: recoverable_def phase_commit_def)
  from recovery_outcome [OF assms(1) this assms(8-11)] show ?thesis .
qed

text \<open>C21: Taking a checkpoint is all or nothing.  When the new chunk directory is on disk and no
  marker is, \<^verbatim>\<open>multitape_checkpoint\<close> leaves, whatever call fails and whatever the next
  power failure keeps, either the directory as it was or a recoverable transaction, where the file system has
  hard links or renames atomically; on any file system it returns 0
  only when the commit marker and the chunk directory are on disk and the server has acknowledged
  the checkpoint; and it does so when nothing fails.\<close>

theorem checkpoint_all_or_nothing:
  assumes "fs_pend fs = []" "fs_names fs (ckpt_m x) = None" "fs_names fs (dir_ckpt x) = Some (tx_inode x)"
    and "length (tx_seqnum x) = 32" "length (tx_nonce x) = 32"
    and run: "multitape_checkpoint flt srv (Some (tx_nonce x)) (tx_cache x) (tx_machine x) (tx_seqnum x) fs log =
      (rc, fs', log')"
  shows "(rename_safe flt fs \<longrightarrow> (\<forall>v\<in>crash_views fs'. v = fs_names fs \<or> transaction_safe x log' fs' v)) \<and>
    (rc = 0 \<longrightarrow> checkpointed x log' \<and>
       (\<forall>v\<in>crash_views fs'. v (ckpt_m x) = None \<and> transaction_safe x log' fs' v)) \<and>
    (flt = no_fault \<longrightarrow> server_up srv \<longrightarrow> rc = 0)"
  using fresh_checkpoint_spec [OF crash_views_synced [OF assms(1)] assms(2-)] by blast

subsection \<open>Sample transactions\<close>

definition sample_tx :: "bool \<Rightarrow> txn" where
  "sample_tx ckpt = \<lparr>tx_cache = ''c'', tx_machine = 1, tx_seqnum = replicate 32 1, tx_nonce = replicate 32 2,
     tx_inode = 0, tx_has_ckpt = ckpt\<rparr>"

definition sample_server :: storage where
  "sample_server log rq = (0, True)"

definition sample_cache :: "(string \<times> nat) list \<Rightarrow> bytes \<Rightarrow> fs" where
  "sample_cache names b = \<lparr>fs_dur = map_of names, fs_pend = [],
     fs_node = [0 \<mapsto> Regular [1] [1], 1 \<mapsto> Symlink (hexify b)], fs_next = 2, fs_calls = 0, fs_atomic_rename = False\<rparr>"

lemma sample_cache_names [simp]: "fs_names (sample_cache names b) = map_of names" "fs_pend (sample_cache names b) = []"
    "fs_node (sample_cache names b) 0 = Some (Regular [1] [1])" "fs_next (sample_cache names b) = 2"
    "marker (sample_cache names b) v p b \<longleftrightarrow> v p = Some 1"
  by (auto simp: sample_cache_def fs_names_def marker_def less_2_cases_iff numeral_2_eq_2 less_Suc_eq)

lemma sample_tx_names [simp]:
  "ckpt_m (sample_tx k) = ''c/ckpt_m''" "commit_m (sample_tx k) = ''c/commit_m''"
  "dir_ckpt (sample_tx k) = ''c/directory.ckpt''" "dir_tmp (sample_tx k) = ''c/directory.tmp''"
  "tx_seqnum (sample_tx k) = replicate 32 1" "tx_nonce (sample_tx k) = replicate 32 2"
  "tx_inode (sample_tx k) = 0"
  by (simp_all add: sample_tx_def cache_name_def directory_path_def)

lemma sample_server_up: "server_up sample_server"
  by (simp add: server_up_def sample_server_def)

theorem checkpoint_is_recovered_witness:
  "\<exists>fs log m. multitape_cleanstate no_fault sample_server (tx_cache (sample_tx True)) (tx_machine (sample_tx True)) 0
       (sample_cache [(''c/ckpt_m'', 1), (''c/directory.ckpt'', 0)] (replicate 32 1 @ replicate 32 2)) [] False =
       (0, fs, log, m) \<and> transaction_complete (sample_tx True) log fs"
proof -
  let ?x = "sample_tx True"
  let ?fs = "sample_cache [(''c/ckpt_m'', 1), (''c/directory.ckpt'', 0)] (replicate 32 1 @ replicate 32 2)"
  obtain rc fs log m where run:
    "multitape_cleanstate no_fault sample_server (tx_cache ?x) (tx_machine ?x) 0 ?fs [] False = (rc, fs, log, m)"
    by (metis prod_cases4)
  from checkpoint_is_recovered [of ?x ?fs "[]" ?fs "[]" "[1]", OF recovery.start]
  have "case multitape_cleanstate no_fault sample_server (tx_cache ?x) (tx_machine ?x) 0 ?fs [] False of
       (rc, fs', log', _) \<Rightarrow> rc = 0 \<and> transaction_complete ?x log' fs'"
    using sample_server_up by (fastforce split: prod.splits)
  then show ?thesis using run by auto
qed

theorem commit_is_recovered_witness:
  "\<exists>fs log m. multitape_cleanstate no_fault sample_server (tx_cache (sample_tx False)) (tx_machine (sample_tx False)) 0
       (sample_cache [(''c/commit_m'', 1), (''c/directory.tmp'', 0)] (replicate 32 1)) [] False =
       (0, fs, log, m) \<and> transaction_complete (sample_tx False) log fs"
proof -
  let ?x = "sample_tx False"
  let ?fs = "sample_cache [(''c/commit_m'', 1), (''c/directory.tmp'', 0)] (replicate 32 1)"
  obtain rc fs log m where run:
    "multitape_cleanstate no_fault sample_server (tx_cache ?x) (tx_machine ?x) 0 ?fs [] False = (rc, fs, log, m)"
    by (metis prod_cases4)
  have "checkpointed ?x []" by (simp add: checkpointed_def sample_tx_def)
  from commit_is_recovered [of ?x ?fs "[]" ?fs "[]" "[1]", OF recovery.start] this
  have "case multitape_cleanstate no_fault sample_server (tx_cache ?x) (tx_machine ?x) 0 ?fs [] False of
       (rc, fs', log', _) \<Rightarrow> rc = 0 \<and> transaction_complete ?x log' fs'"
    using sample_server_up by (fastforce split: prod.splits)
  then show ?thesis using run by auto
qed

theorem checkpoint_all_or_nothing_witness:
  "\<exists>fs log. multitape_checkpoint no_fault sample_server (Some (tx_nonce (sample_tx True))) (tx_cache (sample_tx True))
       (tx_machine (sample_tx True)) (tx_seqnum (sample_tx True)) (sample_cache [(''c/directory.ckpt'', 0)] []) [] =
       (0, fs, log) \<and> checkpointed (sample_tx True) log"
proof -
  let ?x = "sample_tx True" and ?fs = "sample_cache [(''c/directory.ckpt'', 0)] []"
  obtain rc fs log where run: "multitape_checkpoint no_fault sample_server (Some (tx_nonce ?x)) (tx_cache ?x)
       (tx_machine ?x) (tx_seqnum ?x) ?fs [] = (rc, fs, log)"
    by (metis prod_cases3)
  from checkpoint_all_or_nothing [OF _ _ _ _ _ run] show ?thesis
    using sample_server_up run by auto
qed

end
