(* ===== verification/Chunkify_Params.thy ===== *)
theory Chunkify_Params
  imports Prelude
begin

text \<open>
  The arithmetic of \<^verbatim>\<open>tar/multitape/chunkify.c\<close>: primes, Montgomery multiplication, square
  roots, and the choice of the parameters.
\<close>

unbundle bit_operations_syntax

function isprime_loop :: "u32 \<Rightarrow> u32 \<Rightarrow> bool" where
  "isprime_loop n x =
     (if x * x \<le> n \<and> x < 65536 then (if n mod x = 0 then False else isprime_loop n (x + 1))
      else n > 1)"
  by auto
termination
proof (relation "measure (\<lambda>(n, x). 65536 - unat x)")
  fix n x :: u32
  assume "x * x \<le> n \<and> x < 65536"
  then have "unat x < 65536" by (simp add: word_less_nat_alt)
  moreover from this have "unat (x + 1) = unat x + 1" by (simp add: unat_word_ariths)
  ultimately show "((n, x + 1), (n, x)) \<in> measure (\<lambda>(n, x). 65536 - unat x)" by simp
qed simp

declare isprime_loop.simps [simp del]

definition isprime :: "u32 \<Rightarrow> bool" where
  "isprime n = isprime_loop n 2"

function nextprime :: "u32 \<Rightarrow> u32" where
  "nextprime p = (if p = 0 then 0 else if isprime p then p else nextprime (p + 1))"
  by auto
termination
proof (relation "measure (\<lambda>p. if p = 0 then 0 else 4294967296 - unat p)")
  fix p :: u32
  assume "p \<noteq> 0"
  moreover have "unat (p + 1) = Suc (unat p)" if "p + 1 \<noteq> 0"
    using that unatSuc [of p] by (simp add: add.commute)
  ultimately show "(p + 1, p) \<in> measure (\<lambda>p. if p = 0 then 0 else 4294967296 - unat p)"
    using unat_u32_less [of p] by (simp del: unat_u32_less) arith
qed simp

declare nextprime.simps [simp del]

definition mmul :: "u32 \<Rightarrow> u32 \<Rightarrow> u32 \<Rightarrow> u32 \<Rightarrow> u32" where
  "mmul a b p pp =
     (let ab = (ucast a :: u64) * ucast b;
          abpp = (ucast ab :: u32) * pp;
          ab = ab + ucast abpp * ucast p
      in ucast (drop_bit 32 ab))"

fun minorder_loop :: "nat \<Rightarrow> u32 \<Rightarrow> u32 \<Rightarrow> u32 \<Rightarrow> u32 \<Rightarrow> u32 \<Rightarrow> bool" where
  "minorder_loop 0 akr akr0 ar p pp = True"
| "minorder_loop (Suc n) akr akr0 ar p pp =
     (let akr = mmul akr ar p pp mod p in if akr = akr0 then False else minorder_loop n akr akr0 ar p pp)"

definition minorder :: "u32 \<Rightarrow> u32 \<Rightarrow> u32 \<Rightarrow> u32 \<Rightarrow> bool" where
  "minorder ar ord p pp = (let akr0 = (- p) mod p in minorder_loop (unat ord) akr0 akr0 ar p pp)"

function isqrt_loop :: "u32 \<Rightarrow> u32 \<Rightarrow> u32" where
  "isqrt_loop y x = (if y < 65536 \<and> \<not> y * y > x then isqrt_loop (y + 1) x else y - 1)"
  by auto
termination
proof (relation "measure (\<lambda>(y, x). 65536 - unat y)")
  fix x y :: u32
  assume "y < 65536 \<and> \<not> x < y * y"
  then have "unat y < 65536" by (simp add: word_less_nat_alt)
  moreover from this have "unat (y + 1) = unat y + 1" by (simp add: unat_word_ariths)
  ultimately show "((y + 1, x), (y, x)) \<in> measure (\<lambda>(y, x). 65536 - unat y)" by simp
qed simp

declare isqrt_loop.simps [simp del]

definition isqrt :: "u32 \<Rightarrow> u32" where
  "isqrt x = isqrt_loop 1 x"

subsection \<open>Primes\<close>

definition prime_nat :: "nat \<Rightarrow> bool" where
  "prime_nat n \<longleftrightarrow> 1 < n \<and> (\<forall>d. d dvd n \<longrightarrow> d = 1 \<or> d = n)"

lemma unat_square: "unat x < 65536 \<Longrightarrow> unat (x * x) = unat x * unat (x :: u32)"
proof -
  assume "unat x < 65536"
  then have "unat x * unat x < 65536 * 65536" by (intro mult_strict_mono) auto
  then show ?thesis by (simp add: unat_word_ariths)
qed

lemma isprime_loop_spec:
  "unat x \<le> 65536 \<Longrightarrow> 0 < unat x \<Longrightarrow>
     isprime_loop n x \<longleftrightarrow> 1 < unat n \<and> (\<forall>d\<ge>unat x. d < 65536 \<longrightarrow> d * d \<le> unat n \<longrightarrow> \<not> d dvd unat n)"
proof (induction n x rule: isprime_loop.induct)
  case (1 n x)
  show ?case
  proof (cases "x * x \<le> n \<and> x < 65536")
    case True
    then have x: "unat x < 65536" "unat x * unat x \<le> unat n"
      using unat_square [of x] by (auto simp: word_less_nat_alt word_le_nat_alt)
    then have Suc: "unat (x + 1) = Suc (unat x)" by (simp add: unat_word_ariths)
    show ?thesis
    proof (cases "n mod x = 0")
      case True
      then have "unat x dvd unat n" by (simp add: unat_mod [symmetric] dvd_eq_mod_eq_0)
      then show ?thesis using True x \<open>x * x \<le> n \<and> x < 65536\<close> by (subst isprime_loop.simps) auto
    next
      case False
      then have nd: "\<not> unat x dvd unat n"
        by (metis dvd_imp_mod_0 unat_mod unsigned_0 unsigned_word_eqI)
      have "isprime_loop n (x + 1) \<longleftrightarrow>
          1 < unat n \<and> (\<forall>d\<ge>Suc (unat x). d < 65536 \<longrightarrow> d * d \<le> unat n \<longrightarrow> \<not> d dvd unat n)"
        using "1.IH" [OF True False] Suc x by simp
      moreover have "isprime_loop n x = isprime_loop n (x + 1)"
        using True False by (subst isprime_loop.simps) simp
      ultimately show ?thesis using nd by (metis Suc_le_eq le_eq_less_or_eq)
    qed
  next
    case False
    have "\<not> (d < 65536 \<and> d * d \<le> unat n)" if "unat x \<le> d" for d
    proof
      assume d: "d < 65536 \<and> d * d \<le> unat n"
      then have "unat x < 65536" "unat x * unat x \<le> unat n"
        using that mult_le_mono [OF that that] by auto
      then show False using False unat_square by (simp add: word_less_nat_alt word_le_nat_alt)
    qed
    then show ?thesis using False by (subst isprime_loop.simps) (auto simp: word_less_nat_alt)
  qed
qed

lemma isprime_spec: "isprime n \<longleftrightarrow> prime_nat (unat n)"
proof -
  have loop: "isprime n \<longleftrightarrow> 1 < unat n \<and> (\<forall>d\<ge>2. d < 65536 \<longrightarrow> d * d \<le> unat n \<longrightarrow> \<not> d dvd unat n)"
    by (simp add: isprime_def isprime_loop_spec)
  have small: "d = 1 \<or> d = unat n"
    if nodiv: "\<forall>d\<ge>2. d < 65536 \<longrightarrow> d * d \<le> unat n \<longrightarrow> \<not> d dvd unat n" and n: "1 < unat n" and d: "d dvd unat n" for d
  proof (rule ccontr)
    assume neq: "\<not> (d = 1 \<or> d = unat n)"
    obtain e where e: "unat n = d * e" using d by (elim dvdE)
    have pos: "0 < d" "0 < e" using e n by (auto intro: Nat.gr0I)
    have ge: "2 \<le> d" "2 \<le> e" using neq e n pos by (auto simp: Suc_le_eq numeral_2_eq_2)
    define m where "m = min d e"
    have m: "m * m \<le> unat n" "m dvd unat n" "2 \<le> m"
      unfolding e m_def using ge by (auto simp: min_def intro: mult_le_mono)
    have "m < 65536"
    proof (rule ccontr)
      assume "\<not> m < 65536"
      then have "65536 * 65536 \<le> m * m" by (intro mult_le_mono) auto
      then show False using m(1) unat_u32_less [of n] by linarith
    qed
    then show False using nodiv m by blast
  qed
  show ?thesis
  proof
    assume "isprime n"
    then show "prime_nat (unat n)" using small unfolding loop prime_nat_def by blast
  next
    assume p: "prime_nat (unat n)"
    have "\<not> d dvd unat n" if "2 \<le> d" "d * d \<le> unat n" for d
    proof
      assume "d dvd unat n"
      then have "d = unat n" using p that unfolding prime_nat_def by auto
      then have "d * d \<le> d * 1" using that by simp
      then show False using that(1) by (auto simp del: mult_1_right)
    qed
    then show "isprime n" using p unfolding loop prime_nat_def by blast
  qed
qed

lemma nextprime_spec:
  "nextprime n = p \<Longrightarrow>
     p = 0 \<and> (\<forall>q. n \<noteq> 0 \<longrightarrow> unat n \<le> q \<longrightarrow> q < 4294967296 \<longrightarrow> \<not> prime_nat q) \<or>
     prime_nat (unat p) \<and> unat n \<le> unat p \<and> (\<forall>q. unat n \<le> q \<longrightarrow> q < unat p \<longrightarrow> \<not> prime_nat q)"
proof (induction n rule: nextprime.induct)
  case (1 n)
  consider "n = 0" | "n \<noteq> 0" "isprime n" | "n \<noteq> 0" "\<not> isprime n" by blast
  then show ?case
  proof cases
    case 1
    then show ?thesis using "1.prems" by (subst (asm) nextprime.simps) simp
  next
    case 2
    then show ?thesis using "1.prems" isprime_spec by (subst (asm) nextprime.simps) auto
  next
    case 3
    then have next_p: "nextprime (n + 1) = p" using "1.prems" by (subst (asm) nextprime.simps) simp
    have np: "\<not> prime_nat (unat n)" using 3 isprime_spec by blast
    show ?thesis
    proof (cases "n + 1 = 0")
      case True
      then have "n = - 1" by (simp add: eq_neg_iff_add_eq_0)
      then have "unat n = 4294967295" by (simp add: unsigned_minus_1_eq_mask mask_eq_exp_minus_1)
      moreover have "p = 0" using next_p True by (subst (asm) nextprime.simps) simp
      moreover have "\<not> prime_nat q" if "unat n \<le> q" "q < 4294967296" "unat n = 4294967295" for q
      proof -
        have "q = unat n" using that by linarith
        then show ?thesis using np by simp
      qed
      ultimately show ?thesis by blast
    next
      case False
      then have "unat (n + 1) = Suc (unat n)" using unatSuc [of n] by (simp add: add.commute)
      then show ?thesis
        using "1.IH" [OF 3 next_p] False np by (metis Suc_leI le_eq_less_or_eq Suc_le_lessD order.strict_iff_order)
    qed
  qed
qed

lemma isqrt_loop_spec:
  "0 < unat y \<Longrightarrow> unat y \<le> 65536 \<Longrightarrow> (unat y - 1) * (unat y - 1) \<le> unat x \<Longrightarrow>
     unat (isqrt_loop y x) * unat (isqrt_loop y x) \<le> unat x \<and>
     unat x < (unat (isqrt_loop y x) + 1) * (unat (isqrt_loop y x) + 1)"
proof (induction y x rule: isqrt_loop.induct)
  case (1 y x)
  have y1: "unat (y - 1) = unat y - 1" using "1.prems"(1) by (simp add: unat_sub word_le_nat_alt)
  show ?case
  proof (cases "y < 65536")
    case False
    then have "unat y = 65536" using "1.prems" by (simp add: word_less_nat_alt)
    moreover have "isqrt_loop y x = y - 1" using False by (subst isqrt_loop.simps) simp
    ultimately show ?thesis using "1.prems"(3) y1 unat_u32_less [of x] by simp
  next
    case True
    then have y: "unat y < 65536" by (simp add: word_less_nat_alt)
    note sq = unat_square [OF this]
    show ?thesis
    proof (cases "y * y > x")
      case gt: True
      have "isqrt_loop y x = y - 1" using gt by (subst isqrt_loop.simps) simp
      then show ?thesis using gt "1.prems"(1,3) y1 sq by (simp add: word_less_nat_alt)
    next
      case False
      have eq: "isqrt_loop y x = isqrt_loop (y + 1) x" using False True by (subst isqrt_loop.simps) simp
      have "unat (y + 1) = Suc (unat y)" using y by (simp add: unat_word_ariths)
      then show ?thesis
        unfolding eq using "1.IH" True False y sq by (simp add: word_less_nat_alt not_less)
    qed
  qed
qed

lemma isqrt_spec:
  "unat (isqrt x) * unat (isqrt x) \<le> unat x" "unat x < (unat (isqrt x) + 1) * (unat (isqrt x) + 1)"
  using isqrt_loop_spec [of 1 x] by (simp_all add: isqrt_def)

subsection \<open>Montgomery multiplication\<close>

lemma unat_ucast_32_64: "unat (ucast (x :: u32) :: u64) = unat x"
  using unat_u32_less [of x] by (simp add: unsigned_ucast_eq take_bit_eq_mod del: unat_u32_less)

lemma unat_ucast_64_32: "unat (ucast (x :: u64) :: u32) = unat x mod 4294967296"
  by (simp add: unsigned_ucast_eq take_bit_eq_mod)

lemma word_32_eq_0_iff: "(of_nat n :: u32) = 0 \<longleftrightarrow> 4294967296 dvd n"
  by (simp add: word_of_nat_eq_0_iff)

lemma mmul_spec:
  assumes pp: "p * pp = - 1" and bound: "unat a * unat b + 4294967295 * unat p < 18446744073709551616"
  obtains m where "m < 4294967296"
    "4294967296 * unat (mmul a b p pp) = unat a * unat b + m * unat p"
proof -
  define ab :: u64 where "ab = ucast a * ucast b"
  define m where "m = unat ((ucast ab :: u32) * pp)"
  have m: "m < 4294967296" by (simp add: m_def)
  then have "m * unat p \<le> 4294967295 * unat p" by (intro mult_right_mono) auto
  then have total: "unat a * unat b + m * unat p < 18446744073709551616" using bound by linarith
  let ?n = "unat a * unat b + m * unat p"
  have ab: "unat ab = unat a * unat b"
    using total by (simp add: ab_def unat_word_ariths unat_ucast_32_64)
  define s where "s = ab + ucast ((ucast ab :: u32) * pp) * ucast p"
  have s: "unat s = ?n"
    using total ab by (simp add: s_def unat_word_ariths(1,2) unat_ucast_32_64 m_def)
  have "mmul a b p pp = ucast (drop_bit 32 s)" by (simp add: mmul_def Let_def ab_def s_def)
  moreover have "unat (drop_bit 32 s) = ?n div 4294967296"
    using total by (simp add: unsigned_drop_bit_eq drop_bit_eq_div [where 'a = nat] s take_bit_eq_mod)
  moreover have "?n div 4294967296 < 4294967296" using total by (intro less_mult_imp_div_less) simp
  ultimately have out: "unat (mmul a b p pp) = ?n div 4294967296" by (simp add: unat_ucast_64_32)
  have low: "(ucast ab :: u32) = a * b"
    by (rule unsigned_word_eqI [where 'a = nat]) (simp add: unat_ucast_64_32 ab unat_word_ariths)
  have "(of_nat ?n :: u32) = a * b + (a * b * pp) * p" by (simp add: m_def low)
  also have "\<dots> = a * b * (1 + p * pp)" by (simp add: algebra_simps)
  also have "\<dots> = 0" using pp by simp
  finally have "4294967296 dvd ?n" using word_32_eq_0_iff by blast
  then show thesis using that [OF m] out by simp
qed

text \<open>As the code's comment has it: the product is at most \<open>p * (1 + a / 2 ^ 32)\<close> for a factor
  below \<open>2 ^ 32\<close>.\<close>

lemma mmul_bound:
  assumes "p * pp = - 1" "unat a * unat b + 4294967295 * unat p < 18446744073709551616" "0 < unat p"
  shows "4294967296 * unat (mmul a b p pp) < unat a * unat b + 4294967296 * unat p"
proof -
  obtain m where m: "m < 4294967296" "4294967296 * unat (mmul a b p pp) = unat a * unat b + m * unat p"
    by (rule mmul_spec [OF assms(1,2)])
  then show ?thesis using assms(3) by simp
qed

subsection \<open>The inverse of the modulus\<close>

definition neg_inverse :: "u32 \<Rightarrow> u32" where
  "neg_inverse p =
     (let pp = ((2 * p + 4) AND 8) - p;
          pp = pp * (2 + p * pp);
          pp = pp * (2 + p * pp)
      in pp * (2 + p * pp))"

lemma neg_inverse_start:
  assumes "odd (unat p)"
  shows "\<exists>c. p * (((2 * p + 4) AND 8) - p) + 1 = 16 * (c :: u32)"
proof -
  define m j where "m = unat p div 16" and "j = unat p mod 16"
  have up: "unat p = 16 * m + j" by (simp add: m_def j_def)
  then have "(of_nat (unat p) :: u32) = of_nat (16 * m + j)" by simp
  then have p: "p = 16 * of_nat m + of_nat j" by simp
  have "odd j" using assms up by simp
  moreover have "j < 16" by (simp add: j_def)
  ultimately have "j = 1 \<or> j = 3 \<or> j = 5 \<or> j = 7 \<or> j = 9 \<or> j = 11 \<or> j = 13 \<or> j = 15" by presburger
  then have j: "j \<in> {1, 3, 5, 7, 9, 11, 13, 15}" by simp
  have and8: "n AND 8 = (n mod 16) AND 8" for n :: nat
  proof -
    have "bit (8 :: nat) k \<longleftrightarrow> k = 3" for k using bit_exp_iff [where 'a = nat, of 3 k] by auto
    then have "n AND 8 = take_bit 4 n AND 8"
      by (intro bit_eqI) (auto simp: bit_and_iff bit_take_bit_iff)
    then show ?thesis by (simp add: take_bit_eq_mod)
  qed
  have "unat (2 * p + 4) mod 16 = (2 * j + 4) mod 16"
  proof -
    have "unat (2 * p + 4) mod 16 = (2 * unat p + 4) mod 16"
      by (simp add: unat_word_ariths mod_mod_cancel mod_add_left_eq)
    also have "\<dots> = (2 * j + 4 + 16 * (2 * m)) mod 16" by (simp add: up ac_simps)
    finally show ?thesis by (simp only: mod_mult_self2)
  qed
  then have k: "unat ((2 * p + 4) AND 8) = ((2 * j + 4) mod 16) AND 8"
    by (simp add: unsigned_and_eq and8 [of "unat (2 * p + 4)"])
  define kk :: u32 where "kk = (2 * p + 4) AND 8"
  have kk: "kk = of_nat (((2 * j + 4) mod 16) AND 8)"
    unfolding kk_def k [symmetric] by simp
  have split: "p * (kk - p) + 1 = 16 * (of_nat m * (kk - p) - of_nat j * of_nat m) + (of_nat j * (kk - of_nat j) + 1)"
    by (simp add: p algebra_simps)
  have "\<exists>d. of_nat j * (kk - of_nat j) + 1 = 16 * (d :: u32)"
  proof (rule exI [of _ "if j = 3 \<or> j = 5 then 1 else if j = 7 then - 3 else if j = 9 then - 5 else
      if j = 11 then - 2 else if j = 13 then - 4 else if j = 15 then - 14 else 0"])
    show "of_nat j * (kk - of_nat j) + 1 = 16 * (if j = 3 \<or> j = 5 then 1 else if j = 7 then - 3 else if j = 9 then - 5 else
      if j = 11 then - 2 else if j = 13 then - 4 else if j = 15 then - 14 else (0 :: u32))"
      using j unfolding kk insert_iff empty_iff by (elim disjE) simp_all
  qed
  then obtain d where "of_nat j * (kk - of_nat j) + 1 = 16 * (d :: u32)" by blast
  then have "p * (kk - p) + 1 = 16 * ((of_nat m * (kk - p) - of_nat j * of_nat m) + d)"
    unfolding split by (simp add: algebra_simps)
  then show ?thesis unfolding kk_def by blast
qed

lemma neg_inverse_spec:
  assumes "odd (unat p)"
  shows "p * neg_inverse p = - 1"
proof -
  define e where "e pp = p * pp + 1" for pp :: u32
  have step: "e (pp * (2 + p * pp)) = e pp * e pp" for pp by (simp add: e_def algebra_simps)
  obtain c where c: "e (((2 * p + 4) AND 8) - p) = 16 * c"
    using neg_inverse_start [OF assms] by (auto simp: e_def)
  have "(16 * c * (16 * c)) * (16 * c * (16 * c)) * ((16 * c * (16 * c)) * (16 * c * (16 * c))) =
      4294967296 * (c * c * c * c * c * c * c * c)" by (simp add: algebra_simps)
  also have "(4294967296 :: u32) = of_nat 4294967296" by simp
  also have "(of_nat 4294967296 :: u32) = 0" by (subst word_of_nat_eq_0_iff) simp
  finally have "e (neg_inverse p) = 0"
    unfolding neg_inverse_def Let_def step c by (simp only: mult_zero_left)
  then show ?thesis by (simp add: e_def eq_neg_iff_add_eq_0)
qed

subsection \<open>Properties\<close>

text \<open>C34: \<^verbatim>\<open>nextprime\<close> gives the least prime number that is at least its argument and
  below \<open>2 ^ 32\<close>, or zero when there is none (or the argument is zero).\<close>

theorem nextprime_least:
  "if nextprime n = 0 then n = 0 \<or> (\<forall>q. unat n \<le> q \<longrightarrow> q < 4294967296 \<longrightarrow> \<not> prime_nat q)
   else prime_nat (unat (nextprime n)) \<and> unat n \<le> unat (nextprime n) \<and>
     (\<forall>q. unat n \<le> q \<longrightarrow> q < unat (nextprime n) \<longrightarrow> \<not> prime_nat q)"
  using nextprime_spec [OF refl, of n] by (auto simp: prime_nat_def)

text \<open>Its witness: the search from 24 ends at 29.\<close>

lemma nextprime_least_witness:
  "nextprime 24 = 29 \<and> prime_nat (unat (nextprime 24)) \<and> \<not> prime_nat 27"
proof -
  have "nextprime 24 = 29" by code_simp
  then show ?thesis using nextprime_least [of 24] by simp
qed

text \<open>C33: With the constant that \<^verbatim>\<open>chunkify_init\<close> computes by four Newton steps,
  \<^verbatim>\<open>mmul\<close> is a product modulo \<open>p\<close>, divided by \<open>2 ^ 32\<close>, and is below the bound of its
  comment, \<open>a b / 2 ^ 32 + p\<close>.  The modulus is odd, and the 64-bit sum does not overflow.\<close>

theorem montgomery_product:
  assumes "odd (unat p)" "unat a * unat b + 4294967295 * unat p < 18446744073709551616"
  shows "(4294967296 * unat (mmul a b p (neg_inverse p))) mod unat p = (unat a * unat b) mod unat p \<and>
    4294967296 * unat (mmul a b p (neg_inverse p)) < unat a * unat b + 4294967296 * unat p"
proof -
  have p: "0 < unat p" using assms(1) by (intro gr0I) simp
  obtain m where m: "4294967296 * unat (mmul a b p (neg_inverse p)) = unat a * unat b + m * unat p"
    by (rule mmul_spec [OF neg_inverse_spec [OF assms(1)] assms(2)])
  have "(4294967296 * unat (mmul a b p (neg_inverse p))) mod unat p = (unat a * unat b) mod unat p"
    unfolding m by simp
  then show ?thesis
    using mmul_bound [OF neg_inverse_spec [OF assms(1)] assms(2) p] by blast
qed

lemma montgomery_product_witness:
  "(4294967296 * unat (mmul 12 14 29 (neg_inverse 29))) mod 29 = (168 :: nat) mod 29"
  using montgomery_product [of 29 12 14] by simp

end
