(* ===== verification/Chunkify.thy ===== *)
theory Chunkify
  imports Chunkify_Params Sysendian "HOL-Library.Sublist"
begin

text \<open>
  \<^verbatim>\<open>tar/multitape/chunkify.c\<close>: a stream of bytes is cut into chunks where its content
  repeats.  The key-dependent parameters come from \<open>hmac\<close>, which is \<^verbatim>\<open>crypto_hash_data\<close>
  with the chunking key; the callback is a parameter with a state of its own.  A loop that does
  not end is the result \<^const>\<open>None\<close>.
\<close>

record chunkifier =
  ck_mu :: u32       \<comment> \<open>desired mean chunk length\<close>
  ck_p :: u32        \<comment> \<open>modulus\<close>
  ck_pp :: u32       \<comment> \<open>\<open>- p ^ (- 1) mod 2 ^ 32\<close>\<close>
  ck_ar :: u32
  ck_cm :: "u32 list"
  ck_htlen :: u32
  ck_blen :: u32
  ck_w :: u32
  ck_k :: u32        \<comment> \<open>bytes in the chunk so far\<close>
  ck_r :: u32
  ck_rs :: u32
  ck_akr :: u32
  ck_yka :: u32
  ck_b :: "u32 list" \<comment> \<open>values waiting to be added to the table\<close>
  ck_ht :: "u32 list" \<comment> \<open>pairs of a position and a value\<close>
  ck_buf :: bytes

definition chunkify_start :: "chunkifier \<Rightarrow> chunkifier" where
  "chunkify_start c =
     c\<lparr>ck_ht := replicate (2 * unat (ck_htlen c)) (- ck_htlen c),
       ck_b := replicate (unat (ck_w c)) (ck_p c),
       ck_akr := (- ck_p c) mod ck_p c, ck_yka := 0, ck_k := 0, ck_r := 0, ck_rs := 1 + ck_mu c\<rparr>"

subsection \<open>Initialisation\<close>

function htlen_loop :: "u32 \<Rightarrow> u32 \<Rightarrow> u32" where
  "htlen_loop i htlen = (if i > 0 then htlen_loop (drop_bit 2 i) (push_bit 1 htlen) else htlen)"
  by auto
termination
proof (relation "measure (\<lambda>(i, htlen). unat i)")
  fix i htlen :: u32
  assume "0 < i"
  then have "0 < unat i" by (simp add: word_less_nat_alt)
  then show "((drop_bit 2 i, push_bit 1 htlen), (i, htlen)) \<in> measure (\<lambda>(i, htlen). unat i)"
    by (simp add: unsigned_drop_bit_eq drop_bit_eq_div [where 'a = nat] take_bit_eq_mod)
qed simp

declare htlen_loop.simps [simp del]

text \<open>\<open>host\<close> reads the four bytes that \<^verbatim>\<open>memcpy\<close> puts into an integer, in the byte order of the host.\<close>

definition hmac_word :: "(bytes \<Rightarrow> u32) \<Rightarrow> (bytes \<Rightarrow> bytes option) \<Rightarrow> bytes \<Rightarrow> u32 option" where
  "hmac_word host hmac pbuf = map_option (\<lambda>h. host (take 4 h)) (hmac pbuf)"

fun hmac_map :: "(bytes \<Rightarrow> u32) \<Rightarrow> (bytes \<Rightarrow> bytes option) \<Rightarrow> u8 list \<Rightarrow> u32 list option" where
  "hmac_map host hmac [] = Some []"
| "hmac_map host hmac (i # is) =
     (case hmac_word host hmac [0x78, i] of
        None \<Rightarrow> None
      | Some x \<Rightarrow> (case hmac_map host hmac is of None \<Rightarrow> None | Some xs \<Rightarrow> Some (x # xs)))"

partial_function (option) find_ar :: "u32 \<Rightarrow> u32 \<Rightarrow> u32 \<Rightarrow> u32 \<Rightarrow> u32 option" where
  "find_ar ar mu p pp =
     (if minorder ar mu p pp then Some ar
      else find_ar (if ar + 1 = p then 2 else ar + 1) mu p pp)"

text \<open>
  \<open>ma\<close> is the outcome of the five allocations.  The outer \<^const>\<open>None\<close> is a call that does not return: the
  search for \<open>ar\<close> does not end, or the code divides by zero.  It does so for a mean length of 0, whose root is 0,
  and for the modulus 3, which the mean length 3 can give.
\<close>

definition chunkify_init :: "mem \<Rightarrow> (bytes \<Rightarrow> u32) \<Rightarrow> (bytes \<Rightarrow> bytes option) \<Rightarrow> u32 \<Rightarrow> u32 \<Rightarrow> chunkifier option option" where
  "chunkify_init ma host hmac meanlen maxlen =
     (if meanlen > 1262226 \<or> maxlen \<le> meanlen then Some None
      else if \<not> ma 0 then Some None
      else let htlen = htlen_loop (maxlen - meanlen div 4) 8 in
        if \<not> ma 1 \<or> \<not> ma 2 \<or> \<not> ma 3 \<or> \<not> ma 4 then Some None
        else case hmac_word host hmac [0x70, 0] of None \<Rightarrow> Some None | Some p0 \<Rightarrow>
          (case hmac_word host hmac [0x61, 0] of None \<Rightarrow> Some None | Some ar0 \<Rightarrow>
            (case hmac_map host hmac (map of_nat [0..<256]) of None \<Rightarrow> Some None | Some cm \<Rightarrow>
              let pmin = meanlen * isqrt meanlen;
                  pmin = pmin + pmin div 100
              in if isqrt meanlen = 0 then None
              else let p = nextprime (pmin + p0 mod isqrt meanlen);
                  pp = neg_inverse p
              in if p - 3 = 0 then None
              else case find_ar (2 + ar0 mod (p - 3)) meanlen p pp of
                   None \<Rightarrow> None
                 | Some ar \<Rightarrow>
                     Some (Some (chunkify_start
                       \<lparr>ck_mu = meanlen, ck_p = p, ck_pp = pp, ck_ar = ar, ck_cm = cm, ck_htlen = htlen,
                        ck_blen = maxlen, ck_w = 32, ck_k = 0, ck_r = 0, ck_rs = 0, ck_akr = 0, ck_yka = 0,
                        ck_b = [], ck_ht = [], ck_buf = replicate (unat maxlen) 0\<rparr>)))))"

subsection \<open>One byte\<close>

definition validcycle :: "bytes \<Rightarrow> nat \<Rightarrow> nat \<Rightarrow> bool" where
  "validcycle buf start stop = (length (remdups (take (stop - start) (drop start buf))) \<ge> 8)"

partial_function (option) advance_r :: "u32 \<Rightarrow> u32 \<Rightarrow> (u32 \<times> u32) option" where
  "advance_r rs r = (if rs \<le> 4 then advance_r (rs + (2 * r + 1)) (r + 1) else Some (rs, r))"

abbreviation ht_pos :: "chunkifier \<Rightarrow> u32 \<Rightarrow> u32" where
  "ht_pos c htpos \<equiv> ck_ht c ! (2 * unat htpos)"

abbreviation ht_val :: "chunkifier \<Rightarrow> u32 \<Rightarrow> u32" where
  "ht_val c htpos \<equiv> ck_ht c ! (2 * unat htpos + 1)"

text \<open>
  The two probe loops.  The table does not change inside them, so that a probe that has seen
  all \<open>htlen\<close> positions goes on for ever.
\<close>

fun find_cycle :: "nat \<Rightarrow> chunkifier \<Rightarrow> u32 \<Rightarrow> bool option" where
  "find_cycle 0 c htpos = None"
| "find_cycle (Suc n) c htpos =
     (if ht_val c htpos = ck_yka c \<and> ck_k c - ht_pos c htpos - 1 < ck_r c \<and>
         validcycle (ck_buf c) (unat (ht_pos c htpos - ck_w c)) (unat (ck_k c))
      then Some True
      else if ck_k c - ht_pos c htpos - 1 \<ge> 2 * ck_r c then Some False
      else find_cycle n c ((htpos + 1) AND (ck_htlen c - 1)))"

fun find_slot :: "nat \<Rightarrow> chunkifier \<Rightarrow> u32 \<Rightarrow> u32 option" where
  "find_slot 0 c htpos = None"
| "find_slot (Suc n) c htpos =
     (if ck_k c - ht_pos c htpos - 1 \<ge> ck_r c then Some htpos
      else find_slot n c ((htpos + 1) AND (ck_htlen c - 1)))"

definition reduce_once :: "u32 \<Rightarrow> u32 \<Rightarrow> u32" where
  "reduce_once yka p = yka - (p AND (drop_bit 31 (yka - p) - 1))"

definition add_character :: "chunkifier \<Rightarrow> u8 \<Rightarrow> chunkifier" where
  "add_character c x =
     (let yka = ck_yka c + mmul (ck_akr c) (ck_cm c ! unat x) (ck_p c) (ck_pp c);
          yka = reduce_once yka (ck_p c);
          yka = reduce_once yka (ck_p c)
      in c\<lparr>ck_yka := yka, ck_akr := mmul (ck_akr c) (ck_ar c) (ck_p c) (ck_pp c)\<rparr>)"

definition insert_queued :: "chunkifier \<Rightarrow> chunkifier option" where
  "insert_queued c =
     (let q = unat (ck_k c AND (ck_w c - 1)); yka_tmp = ck_b c ! q
      in case find_slot (unat (ck_htlen c)) c (yka_tmp AND (ck_htlen c - 1)) of
           None \<Rightarrow> None
         | Some htpos \<Rightarrow>
             Some (c\<lparr>ck_ht := (ck_ht c)[2 * unat htpos := ck_k c, 2 * unat htpos + 1 := yka_tmp],
                     ck_b := (ck_b c)[q := ck_yka c]\<rparr>))"

text \<open>The body of the loop of \<^verbatim>\<open>chunkify_write\<close>; the flag says that the chunk ends here.\<close>

definition chunkify_byte :: "chunkifier \<Rightarrow> u8 \<Rightarrow> (bool \<times> chunkifier) option" where
  "chunkify_byte c x =
     (let c = c\<lparr>ck_buf := (ck_buf c)[unat (ck_k c) := x], ck_k := ck_k c + 1\<rparr>
      in case advance_r (ck_rs c) (ck_r c) of
           None \<Rightarrow> None
         | Some (rs, r) \<Rightarrow>
             let c = c\<lparr>ck_rs := rs - 4, ck_r := r\<rparr>
             in if ck_k c = ck_blen c then Some (True, c)
                else if ck_r c = 0 then Some (False, c)
                else let c = add_character c x
                     in case find_cycle (unat (ck_htlen c)) c (ck_yka c AND (ck_htlen c - 1)) of
                          None \<Rightarrow> None
                        | Some True \<Rightarrow> Some (True, c)
                        | Some False \<Rightarrow> map_option (\<lambda>c. (False, c)) (insert_queued c))"

type_synonym 's chunkdone = "'s \<Rightarrow> bytes \<Rightarrow> int \<times> 's"

definition chunkify_end :: "'s chunkdone \<Rightarrow> chunkifier \<Rightarrow> 's \<Rightarrow> int \<times> chunkifier \<times> 's" where
  "chunkify_end chunkdone c s =
     (if ck_k c = 0 then (0, c, s)
      else case chunkdone s (take (unat (ck_k c)) (ck_buf c)) of (rc, s) \<Rightarrow>
        if rc \<noteq> 0 then (rc, c, s) else (0, chunkify_start c, s))"

fun chunkify_write :: "'s chunkdone \<Rightarrow> chunkifier \<Rightarrow> bytes \<Rightarrow> 's \<Rightarrow> (int \<times> chunkifier \<times> 's) option" where
  "chunkify_write chunkdone c [] s = Some (0, c, s)"
| "chunkify_write chunkdone c (x # buf) s =
     (case chunkify_byte c x of
        None \<Rightarrow> None
      | Some (False, c) \<Rightarrow> chunkify_write chunkdone c buf s
      | Some (True, c) \<Rightarrow>
          (case chunkify_end chunkdone c s of (rc, c, s) \<Rightarrow>
             if rc \<noteq> 0 then Some (rc, c, s) else chunkify_write chunkdone c buf s))"

subsection \<open>The parameters\<close>

lemma htlen_loop_spec:
  "unat i < 4 ^ m \<Longrightarrow> unat h * 2 ^ m < 4294967296 \<Longrightarrow>
     \<exists>d\<le>m. unat (htlen_loop i h) = unat h * 2 ^ d \<and> unat i < 4 ^ d"
proof (induction m arbitrary: i h)
  case 0
  then have "i = 0" by (simp add: unat_eq_0)
  then show ?case by (subst htlen_loop.simps) simp
next
  case (Suc m)
  show ?case
  proof (cases "i = 0")
    case True
    then show ?thesis by (subst htlen_loop.simps) (auto intro!: exI [of _ 0])
  next
    case False
    then have loop: "htlen_loop i h = htlen_loop (drop_bit 2 i) (push_bit 1 h)"
      by (subst htlen_loop.simps) (simp add: word_gt_0)
    have i: "unat (drop_bit 2 i) = unat i div 4"
      by (simp add: unsigned_drop_bit_eq drop_bit_eq_div [where 'a = nat] take_bit_eq_mod)
    have "unat h * 2 < 4294967296"
      using Suc.prems(2) order_le_less_trans [of "unat h * 2" "unat h * 2 ^ Suc m"] by simp
    then have h: "unat (push_bit 1 h) = unat h * 2"
      by (simp add: push_bit_eq_mult unat_word_ariths)
    have "unat (drop_bit 2 i) < 4 ^ m" unfolding i using Suc.prems(1) by (intro less_mult_imp_div_less) simp
    moreover have "unat (push_bit 1 h) * 2 ^ m < 4294967296" unfolding h using Suc.prems(2) by simp
    ultimately obtain d where d: "d \<le> m" "unat (htlen_loop (drop_bit 2 i) (push_bit 1 h)) = unat h * 2 * 2 ^ d"
        "unat i div 4 < 4 ^ d"
      using Suc.IH [of "drop_bit 2 i" "push_bit 1 h"] i h by auto
    have "unat i < 4 ^ Suc d" using d(3) by (simp add: div_less_iff_less_mult mult.commute)
    then show ?thesis unfolding loop using d by (intro exI [of _ "Suc d"]) simp
  qed
qed

text \<open>What the operations need of the parameters.\<close>

definition chunk_params :: "chunkifier \<Rightarrow> bool" where
  "chunk_params c \<longleftrightarrow>
     (\<exists>n\<le>20. unat (ck_htlen c) = 2 ^ n) \<and> 8 \<le> unat (ck_htlen c) \<and>
     64 * (unat (ck_blen c) - unat (ck_mu c) div 4) < unat (ck_htlen c) * unat (ck_htlen c) \<and>
     ck_w c = 32 \<and> unat (ck_mu c) < unat (ck_blen c) \<and> unat (ck_blen c) \<le> 268435456 \<and>
     length (ck_cm c) = 256 \<and> length (ck_buf c) = unat (ck_blen c)"

lemma hmac_map_length: "hmac_map host hmac is = Some xs \<Longrightarrow> length xs = length is"
  by (induction "is" arbitrary: xs) (auto split: option.splits)

lemma chunkify_init_params:
  assumes "chunkify_init ma host hmac meanlen maxlen = Some (Some c)" "unat maxlen \<le> 268435456"
  shows "chunk_params c" "\<exists>c0. c = chunkify_start c0" "ck_mu c = meanlen" "ck_blen c = maxlen"
    "ck_pp c = neg_inverse (ck_p c)" "\<exists>n. ck_p c = nextprime n"
proof -
  obtain ar p0 cm where c: "c = chunkify_start
       \<lparr>ck_mu = meanlen, ck_p = nextprime p0, ck_pp = neg_inverse (nextprime p0), ck_ar = ar, ck_cm = cm,
        ck_htlen = htlen_loop (maxlen - meanlen div 4) 8,
        ck_blen = maxlen, ck_w = 32, ck_k = 0, ck_r = 0, ck_rs = 0, ck_akr = 0, ck_yka = 0,
        ck_b = [], ck_ht = [], ck_buf = replicate (unat maxlen) 0\<rparr>"
    and cm: "hmac_map host hmac (map of_nat [0..<256]) = Some cm" and le: "\<not> maxlen \<le> meanlen"
    using assms(1) by (auto simp: chunkify_init_def Let_def split: if_splits option.splits)
  have le': "unat meanlen < unat maxlen" using le by (simp add: word_less_nat_alt not_le)
  have "unat (meanlen div 4) = unat meanlen div 4" by (simp add: unat_div)
  then have i: "unat (maxlen - meanlen div 4) = unat maxlen - unat meanlen div 4"
    using le' by (subst unat_sub) (auto simp: word_le_nat_alt)
  then have "unat (maxlen - meanlen div 4) < 4 ^ 15" using assms(2) by simp
  from htlen_loop_spec [OF this, of 8] obtain d where d: "d \<le> 15"
      "unat (htlen_loop (maxlen - meanlen div 4) 8) = 8 * 2 ^ d" "unat maxlen - unat meanlen div 4 < 4 ^ d"
    using i by auto
  have "8 * 2 ^ d * (8 * 2 ^ d) = 64 * (4 ^ d :: nat)" by (simp add: power_mult_distrib [symmetric])
  then show "chunk_params c"
    using d assms(2) le' hmac_map_length [OF cm]
    by (auto simp: c chunk_params_def chunkify_start_def power_add intro!: exI [of _ "d + 3"])
  show "\<exists>c0. c = chunkify_start c0" using c by blast
  show "ck_mu c = meanlen" "ck_blen c = maxlen"
    "ck_pp c = neg_inverse (ck_p c)" "\<exists>n. ck_p c = nextprime n"
    by (auto simp: c chunkify_start_def)
qed

subsection \<open>The length of the window\<close>

text \<open>\<open>r\<close> is the square root of \<open>4 k - mu\<close>, rounded up, and \<open>rs\<close> what is left.\<close>

definition window_inv :: "nat \<Rightarrow> chunkifier \<Rightarrow> bool" where
  "window_inv k c \<longleftrightarrow>
     int (unat (ck_rs c)) = (int (unat (ck_r c)))\<^sup>2 + 1 + int (unat (ck_mu c)) - 4 * int k \<and>
     1 \<le> unat (ck_rs c) \<and>
     (ck_r c = 0 \<or> (int (unat (ck_r c)) - 1)\<^sup>2 < 4 * int k - int (unat (ck_mu c)))"

lemma advance_r_spec:
  "unat r + (5 - unat rs) < 65536 \<Longrightarrow> unat rs < 4294000000 \<Longrightarrow>
     \<exists>rs' r'. advance_r rs r = Some (rs', r') \<and> 4 < unat rs' \<and>
       int (unat rs') - (int (unat r'))\<^sup>2 = int (unat rs) - (int (unat r))\<^sup>2 \<and>
       (r' = r \<or> 0 < unat r' \<and> int (unat rs') - (2 * int (unat r') - 1) \<le> 4)"
proof (induction "5 - unat rs" arbitrary: rs r rule: less_induct)
  case less
  show ?case
  proof (cases "rs \<le> 4")
    case False
    then show ?thesis by (subst advance_r.simps) (simp add: word_le_nat_alt)
  next
    case True
    then have rs: "unat rs \<le> 4" by (simp add: word_le_nat_alt)
    let ?rs = "rs + (2 * r + 1)"
    have r1: "unat (r + 1) = unat r + 1" using less.prems(1) by (simp add: unat_word_ariths)
    have "unat (2 * r + 1) = 2 * unat r + 1" using less.prems(1) by (simp add: unat_word_ariths)
    then have rs1: "unat ?rs = unat rs + (2 * unat r + 1)" using less.prems(1) rs by (simp add: unat_word_ariths)
    have "\<exists>rs' r'. advance_r ?rs (r + 1) = Some (rs', r') \<and> 4 < unat rs' \<and>
       int (unat rs') - (int (unat r'))\<^sup>2 = int (unat ?rs) - (int (unat (r + 1)))\<^sup>2 \<and>
       (r' = r + 1 \<or> 0 < unat r' \<and> int (unat rs') - (2 * int (unat r') - 1) \<le> 4)"
      using rs1 r1 rs less.prems by (intro less.hyps) auto
    then obtain rs' r' where out: "advance_r ?rs (r + 1) = Some (rs', r')" "4 < unat rs'"
       "int (unat rs') - (int (unat r'))\<^sup>2 = int (unat ?rs) - (int (unat (r + 1)))\<^sup>2"
       "r' = r + 1 \<or> 0 < unat r' \<and> int (unat rs') - (2 * int (unat r') - 1) \<le> 4"
      by blast
    have "int (unat ?rs) - (int (unat (r + 1)))\<^sup>2 = int (unat rs) - (int (unat r))\<^sup>2"
      unfolding rs1 r1 by (simp add: power2_eq_square algebra_simps)
    moreover have "0 < unat r' \<and> int (unat rs') - (2 * int (unat r') - 1) \<le> 4"
    proof (cases "r' = r + 1")
      case True
      then have "int (unat rs') = int (unat ?rs)" using out(3) by simp
      moreover have "unat r' = unat r + 1" using True r1 by simp
      ultimately show ?thesis using rs1 rs by linarith
    next
      case False
      then show ?thesis using out(4) by blast
    qed
    ultimately show ?thesis using out True by (subst advance_r.simps) auto
  qed
qed

lemma window_inv_bounds:
  assumes "window_inv k c" "4 * k \<le> 1073741824" "unat (ck_mu c) \<le> 268435456"
  shows "unat (ck_r c) \<le> 32769" "unat (ck_rs c) < 4294000000"
proof -
  let ?r = "int (unat (ck_r c))"
  have "?r \<le> 32769"
  proof (rule ccontr)
    assume big: "\<not> ?r \<le> 32769"
    then have "ck_r c \<noteq> 0" by auto
    then have "(?r - 1)\<^sup>2 < 4 * int k - int (unat (ck_mu c))" using assms(1) unfolding window_inv_def by blast
    then have "(?r - 1)\<^sup>2 < 1073741825" using assms(2) by linarith
    moreover have "32769\<^sup>2 \<le> (?r - 1)\<^sup>2" using big by (intro power_mono) auto
    ultimately show False by simp
  qed
  then show r: "unat (ck_r c) \<le> 32769" by linarith
  have "?r\<^sup>2 \<le> 32769\<^sup>2" using \<open>?r \<le> 32769\<close> by (intro power_mono) auto
  then have "?r\<^sup>2 \<le> 1073807361" by simp
  moreover have "int (unat (ck_rs c)) = ?r\<^sup>2 + 1 + int (unat (ck_mu c)) - 4 * int k"
    using assms(1) unfolding window_inv_def by blast
  ultimately have "int (unat (ck_rs c)) < 4294000000" using assms(3) by linarith
  then show "unat (ck_rs c) < 4294000000" by linarith
qed

lemma window_step:
  assumes inv: "window_inv k c" and k: "4 * k \<le> 1073741824" and mu: "unat (ck_mu c) \<le> 268435456"
  shows "\<exists>rs r. advance_r (ck_rs c) (ck_r c) = Some (rs, r) \<and>
    (\<forall>c'. ck_rs c' = rs - 4 \<longrightarrow> ck_r c' = r \<longrightarrow> ck_mu c' = ck_mu c \<longrightarrow> window_inv (Suc k) c')"
proof -
  note b = window_inv_bounds [OF assms]
  have "unat (ck_r c) + (5 - unat (ck_rs c)) < 65536" using b(1) by arith
  from advance_r_spec [OF this b(2)] obtain rs r where step: "advance_r (ck_rs c) (ck_r c) = Some (rs, r)"
      "4 < unat rs" "int (unat rs) - (int (unat r))\<^sup>2 = int (unat (ck_rs c)) - (int (unat (ck_r c)))\<^sup>2"
      "r = ck_r c \<or> 0 < unat r \<and> int (unat rs) - (2 * int (unat r) - 1) \<le> 4"
    by blast
  have sub: "unat (rs - 4) = unat rs - 4" using step(2) by (simp add: unat_sub word_le_nat_alt)
  have rs: "int (unat (rs - 4)) = (int (unat r))\<^sup>2 + 1 + int (unat (ck_mu c)) - 4 * int (Suc k)"
    using step(2,3) inv unfolding sub window_inv_def by (simp add: of_nat_diff)
  have "r = 0 \<or> (int (unat r) - 1)\<^sup>2 < 4 * int (Suc k) - int (unat (ck_mu c))"
  proof (cases "r = ck_r c")
    case True
    then show ?thesis using inv by (auto simp: window_inv_def)
  next
    case False
    then have "int (unat rs) - (2 * int (unat r) - 1) \<le> 4" using step(4) by blast
    moreover have "int (unat rs) = (int (unat r))\<^sup>2 + 1 + int (unat (ck_mu c)) - 4 * int k"
      using step(3) inv unfolding window_inv_def by linarith
    moreover have "(int (unat r) - 1)\<^sup>2 = (int (unat r))\<^sup>2 - (2 * int (unat r) - 1)"
      by (simp add: power2_eq_square algebra_simps)
    ultimately show ?thesis by simp
  qed
  then show ?thesis
    using step(1) rs step(2) sub by (intro exI [of _ rs] exI [of _ r]) (auto simp: window_inv_def)
qed

subsection \<open>Probing\<close>

text \<open>
  The positions in the table: those of a fresh table are \<open>- htlen\<close>, the others are different
  positions of the chunk, at most \<open>k\<close>.
\<close>

definition table_inv :: "nat \<Rightarrow> chunkifier \<Rightarrow> bool" where
  "table_inv k c \<longleftrightarrow> length (ck_ht c) = 2 * unat (ck_htlen c) \<and>
     (\<forall>i<unat (ck_htlen c). ck_ht c ! (2 * i) = - ck_htlen c \<or>
        1 \<le> unat (ck_ht c ! (2 * i)) \<and> unat (ck_ht c ! (2 * i)) \<le> k) \<and>
     (\<forall>i<unat (ck_htlen c). \<forall>j<unat (ck_htlen c). i \<noteq> j \<longrightarrow> ck_ht c ! (2 * i) = ck_ht c ! (2 * j) \<longrightarrow>
        ck_ht c ! (2 * i) = - ck_htlen c)"

lemma age_of_fresh:
  "unat k + unat h < 4294967296 \<Longrightarrow> 1 \<le> unat k \<Longrightarrow> unat (k - - h - 1 :: u32) = unat k + unat h - 1"
proof -
  assume a: "unat k + unat h < 4294967296" "1 \<le> unat k"
  then have "unat (k + h) = unat k + unat h" by (simp add: unat_word_ariths)
  moreover have "k - - h - 1 = k + h - 1" by simp
  ultimately show ?thesis using a by (simp add: unat_sub word_le_nat_alt)
qed

lemma age_of_entry:
  "unat t < unat k \<Longrightarrow> unat (k - t - 1 :: u32) = unat k - unat t - 1"
proof -
  assume a: "unat t < unat k"
  then have "unat (k - t) = unat k - unat t" by (simp add: unat_sub word_le_nat_alt)
  then show ?thesis using a by (simp add: unat_sub word_le_nat_alt)
qed

text \<open>An old enough entry exists: fewer than \<open>2 r\<close> positions are recent.\<close>

lemma old_entry:
  assumes inv: "table_inv k c" and K: "unat K = Suc k" "k < 1073741824"
    and size: "m < unat (ck_htlen c)" "unat (ck_htlen c) \<le> 1048576"
  obtains (old) i where "i < unat (ck_htlen c)" "m \<le> unat (K - ck_ht c ! (2 * i) - 1)"
proof (rule ccontr)
  let ?n = "unat (ck_htlen c)" and ?t = "\<lambda>i. unat (ck_ht c ! (2 * i))"
  assume no: "\<not> thesis"
  have young: "unat (K - ck_ht c ! (2 * i) - 1) < m" if "i < ?n" for i
  proof (rule ccontr)
    assume "\<not> unat (K - ck_ht c ! (2 * i) - 1) < m"
    then show False using no old [OF \<open>i < ?n\<close>] by simp
  qed
  have entry: "1 \<le> ?t i \<and> ?t i \<le> k" "ck_ht c ! (2 * i) \<noteq> - ck_htlen c" if "i < ?n" for i
  proof -
    show "ck_ht c ! (2 * i) \<noteq> - ck_htlen c"
    proof
      assume "ck_ht c ! (2 * i) = - ck_htlen c"
      then have "unat K + ?n - 1 < m"
        using young [OF that] age_of_fresh [of K "ck_htlen c"] K size(2) by simp
      then show False using size(1) K(1) by simp
    qed
    then show "1 \<le> ?t i \<and> ?t i \<le> k" using inv that by (auto simp: table_inv_def)
  qed
  have "?t ` {..<?n} \<subseteq> {k - m <.. k} \<inter> {1..}"
  proof
    fix x assume "x \<in> ?t ` {..<?n}"
    then obtain i where i: "i < ?n" "x = ?t i" by auto
    then have "unat K - ?t i - 1 < m"
      using young [OF i(1)] age_of_entry [of "ck_ht c ! (2 * i)" K] entry(1) [OF i(1)] K(1) by simp
    then show "x \<in> {k - m <.. k} \<inter> {1..}" using entry(1) [OF i(1)] K(1) i(2) by auto
  qed
  then have "card (?t ` {..<?n}) \<le> card {k - m <.. k}"
    by (intro card_mono) auto
  moreover have "inj_on ?t {..<?n}"
  proof (rule inj_onI)
    fix i j assume ij: "i \<in> {..<?n}" "j \<in> {..<?n}" "?t i = ?t j"
    then have "ck_ht c ! (2 * i) = ck_ht c ! (2 * j)" by (simp add: unsigned_word_eqI)
    then show "i = j" using inv ij entry(2) unfolding table_inv_def by auto
  qed
  ultimately show False using size(1) by (simp add: card_image)
qed

lemma next_position:
  fixes x h :: u32
  assumes "unat h = 2 ^ n" "n \<le> 20"
  shows "unat ((x + 1) AND (h - 1)) = (unat x + 1) mod unat h" "unat (x AND (h - 1)) < unat h"
proof -
  have h: "unat (h - 1) = 2 ^ n - 1"
    using assms(1) by (simp add: unat_sub word_le_nat_alt)
  have dvd: "(2 :: nat) ^ n dvd 2 ^ 32" using assms(2) by (intro le_imp_power_dvd) simp
  have "unat (x + 1) mod 2 ^ n = (unat x + 1) mod 2 ^ n"
    using mod_mod_cancel [OF dvd] by (simp add: unat_word_ariths)
  then show "unat ((x + 1) AND (h - 1)) = (unat x + 1) mod unat h"
    by (simp only: unsigned_and_eq h nat_and_mask assms(1))
  show "unat (x AND (h - 1)) < unat h" by (simp only: unsigned_and_eq h nat_and_mask assms(1)) simp
qed

lemma find_slot_ends:
  assumes h: "unat (ck_htlen c) = 2 ^ n" "n \<le> 20" and x: "unat x < unat (ck_htlen c)"
    and i: "\<exists>j<m. ck_r c \<le> ck_k c - ck_ht c ! (2 * ((unat x + j) mod unat (ck_htlen c))) - 1"
  shows "\<exists>p. find_slot m c x = Some p \<and> unat p < unat (ck_htlen c)"
  using x i
proof (induction m arbitrary: x)
  case (Suc m)
  let ?y = "(x + 1) AND (ck_htlen c - 1)"
  show ?case
  proof (cases "ck_r c \<le> ck_k c - ht_pos c x - 1")
    case True
    then show ?thesis using Suc.prems by simp
  next
    case False
    obtain j where j: "j < Suc m" "ck_r c \<le> ck_k c - ck_ht c ! (2 * ((unat x + j) mod unat (ck_htlen c))) - 1"
      using Suc.prems(2) by blast
    have "j \<noteq> 0" using j(2) False Suc.prems(1) by (intro notI) simp
    then obtain j' where j': "j = Suc j'" by (cases j) auto
    have y: "unat ?y = (unat x + 1) mod unat (ck_htlen c)" "unat ?y < unat (ck_htlen c)"
      using next_position [OF h] by blast+
    have "(unat ?y + j') mod unat (ck_htlen c) = (unat x + j) mod unat (ck_htlen c)"
      unfolding y(1) j' by (simp add: mod_add_left_eq)
    then have "\<exists>j<m. ck_r c \<le> ck_k c - ck_ht c ! (2 * ((unat ?y + j) mod unat (ck_htlen c))) - 1"
      using j j' by (intro exI [of _ j']) simp
    then show ?thesis using Suc.IH [OF y(2)] False by simp
  qed
qed simp

lemma find_cycle_ends:
  assumes h: "unat (ck_htlen c) = 2 ^ n" "n \<le> 20" and x: "unat x < unat (ck_htlen c)"
    and i: "\<exists>j<m. 2 * ck_r c \<le> ck_k c - ck_ht c ! (2 * ((unat x + j) mod unat (ck_htlen c))) - 1"
  shows "\<exists>b. find_cycle m c x = Some b"
  using x i
proof (induction m arbitrary: x)
  case (Suc m)
  let ?y = "(x + 1) AND (ck_htlen c - 1)"
  show ?case
  proof (cases "2 * ck_r c \<le> ck_k c - ht_pos c x - 1")
    case True
    then show ?thesis by auto
  next
    case False
    obtain j where j: "j < Suc m" "2 * ck_r c \<le> ck_k c - ck_ht c ! (2 * ((unat x + j) mod unat (ck_htlen c))) - 1"
      using Suc.prems(2) by blast
    have "j \<noteq> 0" using j(2) False Suc.prems(1) by (intro notI) simp
    then obtain j' where j': "j = Suc j'" by (cases j) auto
    have y: "unat ?y = (unat x + 1) mod unat (ck_htlen c)" "unat ?y < unat (ck_htlen c)"
      using next_position [OF h] by blast+
    have "(unat ?y + j') mod unat (ck_htlen c) = (unat x + j) mod unat (ck_htlen c)"
      unfolding y(1) j' by (simp add: mod_add_left_eq)
    then have "\<exists>j<m. 2 * ck_r c \<le> ck_k c - ck_ht c ! (2 * ((unat ?y + j) mod unat (ck_htlen c))) - 1"
      using j j' by (intro exI [of _ j']) simp
    then show ?thesis using Suc.IH [OF y(2)] by auto
  qed
qed simp

subsection \<open>The state between two bytes\<close>

definition chunk_inv :: "chunkifier \<Rightarrow> bool" where
  "chunk_inv c \<longleftrightarrow> chunk_params c \<and> unat (ck_k c) < unat (ck_blen c) \<and> length (ck_b c) = 32 \<and>
     table_inv (unat (ck_k c)) c \<and> window_inv (unat (ck_k c)) c"

abbreviation pending :: "chunkifier \<Rightarrow> bytes" where
  "pending c \<equiv> take (unat (ck_k c)) (ck_buf c)"

lemma chunkify_start_inv:
  assumes "chunk_params c"
  shows "chunk_inv (chunkify_start c)" "pending (chunkify_start c) = []"
proof -
  have mu: "unat (1 + ck_mu c) = 1 + unat (ck_mu c)"
    using assms by (simp add: chunk_params_def unat_word_ariths)
  have "table_inv 0 (chunkify_start c)" by (auto simp: table_inv_def chunkify_start_def)
  moreover have "window_inv 0 (chunkify_start c)"
    using mu by (simp add: window_inv_def chunkify_start_def del: of_nat_unat)
  moreover have "chunk_params (chunkify_start c)"
    using assms by (simp add: chunk_params_def chunkify_start_def)
  ultimately show "chunk_inv (chunkify_start c)"
    using assms by (auto simp: chunk_inv_def chunk_params_def chunkify_start_def)
  show "pending (chunkify_start c) = []" by (simp add: chunkify_start_def)
qed

text \<open>The comment on the size of the table: the window takes at most a quarter of it.\<close>

lemma window_in_table:
  assumes p: "chunk_params c" and w: "window_inv k c" and k: "k \<le> unat (ck_blen c)"
  shows "4 * unat (ck_r c) \<le> unat (ck_htlen c)"
proof (cases "ck_r c = 0")
  case False
  let ?r = "int (unat (ck_r c))" and ?h = "int (unat (ck_htlen c))"
  obtain n where n: "unat (ck_htlen c) = 2 ^ n" "8 \<le> unat (ck_htlen c)" using p by (auto simp: chunk_params_def)
  have "2 \<le> n"
  proof (rule ccontr)
    assume "\<not> 2 \<le> n"
    then have "(2 :: nat) ^ n \<le> 2 ^ 1" by (intro power_increasing) auto
    then show False using n by simp
  qed
  then have dvd: "4 dvd unat (ck_htlen c)"
    unfolding n(1) using le_imp_power_dvd [of 2 n "2 :: nat"] by simp
  have "(?r - 1)\<^sup>2 < 4 * int k - int (unat (ck_mu c))"
    using w False unfolding window_inv_def by blast
  moreover have "int k \<le> int (unat (ck_blen c))" using k unfolding of_nat_le_iff .
  moreover have "4 * (unat (ck_mu c) div 4) \<le> unat (ck_mu c)" by simp
  moreover have "unat (ck_mu c) < unat (ck_blen c)" using p by (simp add: chunk_params_def)
  then have "int (unat (ck_blen c) - unat (ck_mu c) div 4) = int (unat (ck_blen c)) - int (unat (ck_mu c) div 4)"
    by (intro of_nat_diff) auto
  ultimately have "(?r - 1)\<^sup>2 < 4 * int (unat (ck_blen c) - unat (ck_mu c) div 4)" by linarith
  moreover have "int (64 * (unat (ck_blen c) - unat (ck_mu c) div 4)) < int (unat (ck_htlen c) * unat (ck_htlen c))"
    using p unfolding chunk_params_def by (intro iffD2 [OF of_nat_less_iff]) blast
  ultimately have "(4 * (?r - 1))\<^sup>2 < ?h\<^sup>2"
    unfolding power_mult_distrib by (simp add: power2_eq_square del: of_nat_unat)
  then have "4 * (?r - 1) < ?h" by (rule power2_less_imp_less) simp
  moreover have "4 * a < b + 4" if "4 * (int a - 1) < int b" for a b using that by presburger
  ultimately have "4 * unat (ck_r c) < unat (ck_htlen c) + 4" by blast
  then show ?thesis using dvd by (auto elim!: dvdE)
qed simp

text \<open>Both probes find an end in a table with an old entry.\<close>

lemma probe_offset:
  assumes "i < n" "x < (n :: nat)"
  shows "\<exists>j<n. (x + j) mod n = i"
  using assms by (intro exI [of _ "(i + n - x) mod n"]) (auto simp: mod_simps)

lemma probes_end:
  assumes p: "chunk_params c" and t: "table_inv k c" and w: "window_inv (Suc k) c"
    and k: "unat (ck_k c) = Suc k" "Suc k \<le> unat (ck_blen c)" and r: "ck_r c \<noteq> 0"
  shows "\<exists>b. find_cycle (unat (ck_htlen c)) c (x AND (ck_htlen c - 1)) = Some b"
    "\<exists>q. find_slot (unat (ck_htlen c)) c (x AND (ck_htlen c - 1)) = Some q \<and> unat q < unat (ck_htlen c)"
proof -
  obtain n where n: "unat (ck_htlen c) = 2 ^ n" "n \<le> 20" using p by (auto simp: chunk_params_def)
  have h: "unat (ck_htlen c) \<le> 1048576" unfolding n(1) using power_increasing [OF n(2), of "2 :: nat"] by simp
  have r4: "4 * unat (ck_r c) \<le> unat (ck_htlen c)" using window_in_table [OF p w k(2)] .
  have r0: "0 < unat (ck_r c)" using r by (simp add: unat_gt_0)
  have r2: "unat (2 * ck_r c) = 2 * unat (ck_r c)" using r4 h by (simp add: unat_word_ariths)
  have blen: "unat (ck_blen c) \<le> 268435456" using p by (simp add: chunk_params_def)
  have size: "2 * unat (ck_r c) < unat (ck_htlen c)" "k < 1073741824" using r4 r0 blen k by linarith+
  obtain i where i: "i < unat (ck_htlen c)" "2 * unat (ck_r c) \<le> unat (ck_k c - ck_ht c ! (2 * i) - 1)"
    using old_entry [OF t k(1) size(2) size(1) h] .
  have x: "unat (x AND (ck_htlen c - 1)) < unat (ck_htlen c)" using next_position(2) [OF n] .
  obtain j where j: "j < unat (ck_htlen c)" "(unat (x AND (ck_htlen c - 1)) + j) mod unat (ck_htlen c) = i"
    using probe_offset [OF i(1) x] by blast
  have le2: "2 * ck_r c \<le> ck_k c - ck_ht c ! (2 * i) - 1" using i(2) r2 by (simp add: word_le_nat_alt)
  have le1: "ck_r c \<le> ck_k c - ck_ht c ! (2 * i) - 1" using i(2) by (simp add: word_le_nat_alt)
  show "\<exists>b. find_cycle (unat (ck_htlen c)) c (x AND (ck_htlen c - 1)) = Some b"
    using find_cycle_ends [OF n x] j le2 by metis
  show "\<exists>q. find_slot (unat (ck_htlen c)) c (x AND (ck_htlen c - 1)) = Some q \<and> unat q < unat (ck_htlen c)"
    using find_slot_ends [OF n x] j le1 by metis
qed

lemma table_inv_mono: "table_inv k c \<Longrightarrow> table_inv (Suc k) c"
  unfolding table_inv_def using le_Suc_eq by blast

lemma insert_queued_inv:
  assumes p: "chunk_params c" and t: "table_inv k c" and w: "window_inv (Suc k) c"
    and k: "unat (ck_k c) = Suc k" "Suc k \<le> unat (ck_blen c)" and r: "ck_r c \<noteq> 0"
  shows "\<exists>q v ht. insert_queued c = Some (c\<lparr>ck_ht := ht, ck_b := (ck_b c)[q := v]\<rparr>) \<and>
    table_inv (Suc k) (c\<lparr>ck_ht := ht, ck_b := (ck_b c)[q := v]\<rparr>)"
proof -
  let ?q = "unat (ck_k c AND (ck_w c - 1))"
  obtain y where y: "find_slot (unat (ck_htlen c)) c ((ck_b c ! ?q) AND (ck_htlen c - 1)) = Some y"
      "unat y < unat (ck_htlen c)"
    using probes_end(2) [OF assms] by blast
  let ?ht = "(ck_ht c)[2 * unat y := ck_k c, 2 * unat y + 1 := ck_b c ! ?q]"
  let ?c = "c\<lparr>ck_ht := ?ht, ck_b := (ck_b c)[?q := ck_yka c]\<rparr>"
  have len: "length (ck_ht c) = 2 * unat (ck_htlen c)" using t by (simp add: table_inv_def)
  have pos: "?ht ! (2 * i) = (if i = unat y then ck_k c else ck_ht c ! (2 * i))" if "i < unat (ck_htlen c)" for i
  proof -
    have "2 * unat y + 1 \<noteq> 2 * i" by presburger
    then show ?thesis using that len y(2) by (simp add: nth_list_update)
  qed
  have old: "ck_ht c ! (2 * i) \<noteq> ck_k c \<or> ck_ht c ! (2 * i) = - ck_htlen c" if "i < unat (ck_htlen c)" for i
  proof -
    have "ck_ht c ! (2 * i) = - ck_htlen c \<or> unat (ck_ht c ! (2 * i)) \<le> k"
      using t that unfolding table_inv_def by blast
    then show ?thesis using k(1) by auto
  qed
  have "table_inv (Suc k) ?c"
    unfolding table_inv_def
  proof (intro conjI allI impI)
    show "length (ck_ht ?c) = 2 * unat (ck_htlen ?c)" using len by simp
  next
    fix i assume "i < unat (ck_htlen ?c)"
    then have i: "i < unat (ck_htlen c)" by simp
    have "ck_ht c ! (2 * i) = - ck_htlen c \<or> 1 \<le> unat (ck_ht c ! (2 * i)) \<and> unat (ck_ht c ! (2 * i)) \<le> k"
      using t i unfolding table_inv_def by blast
    then show "ck_ht ?c ! (2 * i) = - ck_htlen ?c \<or> 1 \<le> unat (ck_ht ?c ! (2 * i)) \<and> unat (ck_ht ?c ! (2 * i)) \<le> Suc k"
      using pos [OF i] k(1) by auto
  next
    fix i j assume "i < unat (ck_htlen ?c)" "j < unat (ck_htlen ?c)" and ne: "i \<noteq> j"
      and eq: "ck_ht ?c ! (2 * i) = ck_ht ?c ! (2 * j)"
    then have i: "i < unat (ck_htlen c)" and j: "j < unat (ck_htlen c)" by simp_all
    have dist: "ck_ht c ! (2 * i) = ck_ht c ! (2 * j) \<longrightarrow> ck_ht c ! (2 * i) = - ck_htlen c"
      using t i j ne unfolding table_inv_def by blast
    show "ck_ht ?c ! (2 * i) = - ck_htlen ?c"
      using eq ne dist old [OF i] old [OF j] pos [OF i] pos [OF j] by (auto split: if_splits)
  qed
  then show ?thesis using y(1) unfolding insert_queued_def Let_def by auto
qed

subsection \<open>A byte, a stream\<close>

lemma add_character_keeps:
  "\<exists>yka akr. add_character c x = c\<lparr>ck_yka := yka, ck_akr := akr\<rparr>"
  by (auto simp: add_character_def Let_def)

lemma inv_cong:
  assumes "ck_htlen c' = ck_htlen c" "ck_ht c' = ck_ht c"
  shows "table_inv k c' = table_inv k c"
  using assms by (simp add: table_inv_def)

lemma params_cong:
  assumes "ck_htlen c' = ck_htlen c" "ck_blen c' = ck_blen c" "ck_mu c' = ck_mu c" "ck_w c' = ck_w c"
    "ck_cm c' = ck_cm c" "length (ck_buf c') = length (ck_buf c)"
  shows "chunk_params c' = chunk_params c"
  using assms by (simp add: chunk_params_def)

lemma window_cong:
  assumes "ck_mu c' = ck_mu c" "ck_r c' = ck_r c" "ck_rs c' = ck_rs c"
  shows "window_inv k c' = window_inv k c"
  using assms by (simp add: window_inv_def)

text \<open>There is a window from a quarter of the mean length on.\<close>

lemma window_open:
  assumes "window_inv k c" "ck_r c \<noteq> 0" shows "unat (ck_mu c) < 4 * k"
proof -
  have less: "(x - 1)\<^sup>2 < 4 * int k - int m \<Longrightarrow> m < 4 * k" for x and m :: nat
    using zero_le_power2 [of "x - 1"] by linarith
  show ?thesis using assms unfolding window_inv_def by (intro less [of "int (unat (ck_r c))"]) blast
qed

text \<open>One byte goes to the end of the chunk, and the loops of its body end.\<close>

lemma chunkify_byte_inv:
  assumes inv: "chunk_inv c"
  shows "\<exists>e c'. chunkify_byte c x = Some (e, c') \<and> chunk_params c' \<and>
    unat (ck_k c') = Suc (unat (ck_k c)) \<and> unat (ck_k c') \<le> unat (ck_blen c') \<and>
    ck_blen c' = ck_blen c \<and> ck_mu c' = ck_mu c \<and> ck_buf c' = (ck_buf c)[unat (ck_k c) := x] \<and>
    (\<not> e \<longrightarrow> chunk_inv c') \<and> window_inv (unat (ck_k c')) c' \<and>
    (e \<longrightarrow> unat (ck_mu c) < 4 * unat (ck_k c'))"
proof -
  let ?k = "unat (ck_k c)"
  have p: "chunk_params c" and k: "?k < unat (ck_blen c)" and b: "length (ck_b c) = 32"
    and t: "table_inv ?k c" and w: "window_inv ?k c"
    using inv by (auto simp: chunk_inv_def)
  have sizes: "unat (ck_blen c) \<le> 268435456" "unat (ck_mu c) < unat (ck_blen c)"
    using p by (auto simp: chunk_params_def)
  have k1: "unat (ck_k c + 1) = Suc ?k" using k sizes by (simp add: unat_word_ariths)
  obtain rs r where step: "advance_r (ck_rs c) (ck_r c) = Some (rs, r)"
    "\<And>c'. ck_rs c' = rs - 4 \<Longrightarrow> ck_r c' = r \<Longrightarrow> ck_mu c' = ck_mu c \<Longrightarrow> window_inv (Suc ?k) c'"
    using window_step [OF w] k sizes by auto
  let ?c1 = "c\<lparr>ck_buf := (ck_buf c)[?k := x], ck_k := ck_k c + 1, ck_rs := rs - 4, ck_r := r\<rparr>"
  have p1: "chunk_params ?c1" using p by (subst params_cong [of _ c]) auto
  have t1: "table_inv ?k ?c1" using t by (subst inv_cong [of _ c]) auto
  have w1: "window_inv (Suc ?k) ?c1" by (rule step(2)) simp_all
  show ?thesis
  proof (cases "ck_k c + 1 = ck_blen c")
    case True
    then have "unat (ck_mu c) < Suc ?k" using k1 sizes(2) by simp
    then have "unat (ck_mu c) < 4 * Suc ?k" by (rule less_le_trans) simp
    then show ?thesis
      using True step(1) p1 k1 k w1 by (intro exI [of _ True] exI [of _ ?c1]) (simp add: chunkify_byte_def)
  next
    case blen: False
    then have k2: "Suc ?k < unat (ck_blen c)" using k k1 by (metis Suc_lessI unsigned_word_eqI)
    show ?thesis
    proof (cases "r = 0")
      case True
      then show ?thesis
        using step(1) p1 k1 k2 blen b table_inv_mono [OF t1] w1
        by (intro exI [of _ False] exI [of _ ?c1]) (simp add: chunkify_byte_def chunk_inv_def)
    next
      case r: False
      obtain yka akr where add: "add_character ?c1 x = ?c1\<lparr>ck_yka := yka, ck_akr := akr\<rparr>"
        using add_character_keeps by blast
      let ?c2 = "?c1\<lparr>ck_yka := yka, ck_akr := akr\<rparr>"
      have p2: "chunk_params ?c2" using p1 by (subst params_cong [of _ ?c1]) auto
      have t2: "table_inv ?k ?c2" using t1 by (subst inv_cong [of _ ?c1]) auto
      have w2: "window_inv (Suc ?k) ?c2" using w1 by (subst window_cong [of _ ?c1]) auto
      have k': "unat (ck_k ?c2) = Suc ?k" "Suc ?k \<le> unat (ck_blen ?c2)" "ck_r ?c2 \<noteq> 0"
        using k1 k2 r by auto
      obtain e where e: "find_cycle (unat (ck_htlen ?c2)) ?c2 (ck_yka ?c2 AND (ck_htlen ?c2 - 1)) = Some e"
        using probes_end(1) [OF p2 t2 w2 k'] by blast
      obtain q v ht where ins: "insert_queued ?c2 = Some (?c2\<lparr>ck_ht := ht, ck_b := (ck_b ?c2)[q := v]\<rparr>)"
        "table_inv (Suc ?k) (?c2\<lparr>ck_ht := ht, ck_b := (ck_b ?c2)[q := v]\<rparr>)"
        using insert_queued_inv [OF p2 t2 w2 k'] by blast
      let ?c3 = "?c2\<lparr>ck_ht := ht, ck_b := (ck_b ?c2)[q := v]\<rparr>"
      have p3: "chunk_params ?c3" using p2 by (subst params_cong [of _ ?c2]) auto
      have w3: "window_inv (Suc ?k) ?c3" using w2 by (subst window_cong [of _ ?c2]) auto
      have inv3: "chunk_inv ?c3" using p3 w3 ins(2) k1 k2 b unfolding chunk_inv_def by simp
      have byte: "chunkify_byte c x = (if e then Some (True, ?c2) else Some (False, ?c3))"
        using step(1) blen r add e ins(1) unfolding chunkify_byte_def Let_def
        by (cases e) simp_all
      have "unat (ck_mu c) < 4 * Suc ?k" using window_open [OF w2 k'(3)] by simp
      then show ?thesis
        using byte p2 p3 inv3 k1 k2 w2 w3
        by (cases e) (intro exI [of _ True] exI [of _ ?c2], simp, intro exI [of _ False] exI [of _ ?c3], simp)
    qed
  qed
qed

text \<open>What the callback has been given, in order; it stops the stream with a nonzero value.\<close>

fun hand_over :: "'s chunkdone \<Rightarrow> bytes list \<Rightarrow> 's \<Rightarrow> int \<times> 's" where
  "hand_over chunkdone [] s = (0, s)"
| "hand_over chunkdone (ch # chs) s =
     (case chunkdone s ch of (rc, s) \<Rightarrow> if rc \<noteq> 0 then (rc, s) else hand_over chunkdone chs s)"

lemma pending_byte:
  assumes "k < length b" shows "take (Suc k) (b[k := x]) = take k b @ [x]"
  using assms by (simp add: take_Suc_conv_app_nth)

lemma chunkify_write_spec:
  "chunk_inv c \<Longrightarrow> \<exists>rc c' s' chs.
     chunkify_write chunkdone c buf s = Some (rc, c', s') \<and> hand_over chunkdone chs s = (rc, s') \<and>
     (\<forall>ch\<in>set chs. unat (ck_mu c) < 4 * length ch \<and> length ch \<le> unat (ck_blen c)) \<and>
     (if rc = 0 then chunk_inv c' \<and> ck_blen c' = ck_blen c \<and> ck_mu c' = ck_mu c \<and> concat chs @ pending c' = pending c @ buf
      else chs \<noteq> [] \<and> fst (hand_over chunkdone (butlast chs) s) = 0 \<and> prefix (concat chs) (pending c @ buf))"
proof (induction buf arbitrary: c s)
  case Nil
  then show ?case by (intro exI [of _ 0] exI [of _ c] exI [of _ s] exI [of _ "[]"]) simp
next
  case (Cons x buf)
  have len: "unat (ck_k c) < length (ck_buf c)"
    using Cons.prems by (auto simp: chunk_inv_def chunk_params_def)
  obtain e c1 where byte: "chunkify_byte c x = Some (e, c1)" "chunk_params c1"
    "unat (ck_k c1) = Suc (unat (ck_k c))" "unat (ck_k c1) \<le> unat (ck_blen c1)"
    "ck_blen c1 = ck_blen c" "ck_buf c1 = (ck_buf c)[unat (ck_k c) := x]" "\<not> e \<longrightarrow> chunk_inv c1"
    "ck_mu c1 = ck_mu c" "e \<longrightarrow> unat (ck_mu c) < 4 * unat (ck_k c1)"
    using chunkify_byte_inv [OF Cons.prems] by blast
  have pend: "pending c1 = pending c @ [x]" unfolding byte(3,6) by (rule pending_byte [OF len])
  show ?case
  proof (cases e)
    case False
    then have "chunk_inv c1" using byte(7) by blast
    from Cons.IH [OF this, of s] obtain rc c' s' chs where out:
      "chunkify_write chunkdone c1 buf s = Some (rc, c', s')" "hand_over chunkdone chs s = (rc, s')"
      "\<forall>ch\<in>set chs. unat (ck_mu c1) < 4 * length ch \<and> length ch \<le> unat (ck_blen c1)"
      "if rc = 0 then chunk_inv c' \<and> ck_blen c' = ck_blen c1 \<and> ck_mu c' = ck_mu c1 \<and> concat chs @ pending c' = pending c1 @ buf
       else chs \<noteq> [] \<and> fst (hand_over chunkdone (butlast chs) s) = 0 \<and> prefix (concat chs) (pending c1 @ buf)"
      by blast
    have "chunkify_write chunkdone c (x # buf) s = Some (rc, c', s')" using False byte(1) out(1) by simp
    then show ?thesis
      using out(2-4) unfolding byte(5,8) pend append_assoc append_Cons append_Nil
      by (intro exI [of _ rc] exI [of _ c'] exI [of _ s'] exI [of _ chs]) simp
  next
    case True
    obtain rc s1 where d: "chunkdone s (pending c1) = (rc, s1)" by fastforce
    have k0: "ck_k c1 \<noteq> 0" using byte(3) by auto
    have plen: "unat (ck_mu c) < 4 * length (pending c1)" "length (pending c1) \<le> unat (ck_blen c)"
    proof -
      have "length (pending c1) = unat (ck_k c1)" using pend byte(3) len by simp
      then show "unat (ck_mu c) < 4 * length (pending c1)" "length (pending c1) \<le> unat (ck_blen c)"
        using byte(4,5,9) True by simp_all
    qed
    show ?thesis
    proof (cases "rc = 0")
      case False
      then show ?thesis
        using True byte(1) d k0 plen pend
        by (intro exI [of _ rc] exI [of _ c1] exI [of _ s1] exI [of _ "[pending c1]"])
          (simp add: chunkify_end_def prefix_def)
    next
      case rc0: True
      let ?c2 = "chunkify_start c1"
      have c2: "chunk_inv ?c2" "pending ?c2 = []" "ck_blen ?c2 = ck_blen c" "ck_mu ?c2 = ck_mu c"
        using chunkify_start_inv [OF byte(2)] byte(5,8) by (auto simp: chunkify_start_def)
      obtain rc' c' s' chs where out: "chunkify_write chunkdone ?c2 buf s1 = Some (rc', c', s')"
        "hand_over chunkdone chs s1 = (rc', s')"
        "\<forall>ch\<in>set chs. unat (ck_mu ?c2) < 4 * length ch \<and> length ch \<le> unat (ck_blen ?c2)"
        "if rc' = 0 then chunk_inv c' \<and> ck_blen c' = ck_blen ?c2 \<and> ck_mu c' = ck_mu ?c2 \<and> concat chs @ pending c' = pending ?c2 @ buf
         else chs \<noteq> [] \<and> fst (hand_over chunkdone (butlast chs) s1) = 0 \<and> prefix (concat chs) (pending ?c2 @ buf)"
        using Cons.IH [OF c2(1), of s1] by blast
      show ?thesis
      proof (intro exI conjI)
        show "chunkify_write chunkdone c (x # buf) s = Some (rc', c', s')"
          using True byte(1) d k0 rc0 out(1) by (simp add: chunkify_end_def)
        show "hand_over chunkdone (pending c1 # chs) s = (rc', s')" using d rc0 out(2) by simp
        show "\<forall>ch\<in>set (pending c1 # chs). unat (ck_mu c) < 4 * length ch \<and> length ch \<le> unat (ck_blen c)"
          using plen out(3) unfolding c2(3,4) by simp
        show "if rc' = 0 then chunk_inv c' \<and> ck_blen c' = ck_blen c \<and> ck_mu c' = ck_mu c \<and>
             concat (pending c1 # chs) @ pending c' = pending c @ x # buf
           else pending c1 # chs \<noteq> [] \<and> fst (hand_over chunkdone (butlast (pending c1 # chs)) s) = 0 \<and>
             prefix (concat (pending c1 # chs)) (pending c @ x # buf)"
          using out(4) pend d rc0 unfolding c2(2-4) by (simp split: if_splits)
      qed
    qed
  qed
qed

subsection \<open>The hash of a chunk\<close>





subsection \<open>Properties\<close>

text \<open>C30: A chunker that \<^verbatim>\<open>chunkify_init\<close> returns is at the start of a chunk: its table has
  room for the window and one entry more at every later byte, and its buffer is a chunk of the
  maximum length.  The program asks for \<^verbatim>\<open>MAXCHUNK\<close> (261120) bytes; the search for the
  parameters may only fail to end.\<close>

theorem chunkify_init_inv:
  assumes "chunkify_init ma host hmac meanlen maxlen = Some (Some c)" "unat maxlen \<le> 268435456"
  shows "chunk_inv c \<and> pending c = [] \<and> ck_mu c = meanlen \<and> ck_blen c = maxlen"
proof -
  obtain c0 where c0: "c = chunkify_start c0" using chunkify_init_params(2) [OF assms] by blast
  have "chunk_params c = chunk_params c0" by (rule params_cong) (simp_all add: c0 chunkify_start_def)
  then show ?thesis
    using chunkify_init_params [OF assms] chunkify_start_inv [of c0] c0 by metis
qed

lemma hmac_map_constant: "hmac_map host (\<lambda>_. Some h) is = Some (map (\<lambda>_. host (take 4 h)) is)"
  by (induction "is") (simp_all add: hmac_word_def)

lemma chunkify_init_inv_witness:
  "\<exists>c. chunkify_init (\<lambda>_. True) le32dec (\<lambda>_. Some [7, 0, 0, 0]) 9 40 = Some (Some c) \<and> chunk_inv c"
proof -
  have root: "isqrt 9 = 3" by code_simp
  have prime: "nextprime 28 = 29" by code_simp
  have "minorder 9 9 29 (neg_inverse 29)" by code_simp
  then have ar: "find_ar 9 9 29 (neg_inverse 29) = Some 9" by (subst find_ar.simps) simp
  have "le32dec [7, 0, 0, 0] = 7" by (simp add: le32dec_def)
  then have "\<exists>c. chunkify_init (\<lambda>_. True) le32dec (\<lambda>_. Some [7, 0, 0, 0]) 9 40 = Some (Some c)"
    by (simp add: chunkify_init_def Let_def hmac_map_constant hmac_word_def root prime ar)
  then obtain c where c: "chunkify_init (\<lambda>_. True) le32dec (\<lambda>_. Some [7, 0, 0, 0]) 9 40 = Some (Some c)" by blast
  have "chunk_inv c" using chunkify_init_inv [OF c] by simp
  then show ?thesis using c by blast
qed

text \<open>C29: \<^verbatim>\<open>chunkify_write\<close> always returns, and loses nothing: what it hands to the
  callback, followed by what waits in the buffer, is what waited before followed by the input.
  Every chunk is longer than a quarter of the mean length, and at most the maximum.  A nonzero value of the callback ends the call
  with that value: it was given for the last chunk handed over, and the chunks are a prefix of the
  stream.\<close>

theorem chunkify_write_lossless:
  assumes "chunk_inv c"
  shows "\<exists>rc c' s' chs.
     chunkify_write chunkdone c buf s = Some (rc, c', s') \<and> hand_over chunkdone chs s = (rc, s') \<and>
     (\<forall>ch\<in>set chs. unat (ck_mu c) < 4 * length ch \<and> length ch \<le> unat (ck_blen c)) \<and>
     (if rc = 0 then chunk_inv c' \<and> ck_blen c' = ck_blen c \<and> ck_mu c' = ck_mu c \<and> concat chs @ pending c' = pending c @ buf
      else chs \<noteq> [] \<and> fst (hand_over chunkdone (butlast chs) s) = 0 \<and> prefix (concat chs) (pending c @ buf))"
  using assms by (rule chunkify_write_spec)

text \<open>A chunker with room for three bytes.\<close>

definition small_chunker :: chunkifier where
  "small_chunker = chunkify_start
     \<lparr>ck_mu = 2, ck_p = 29, ck_pp = neg_inverse 29, ck_ar = 3, ck_cm = replicate 256 5, ck_htlen = 16,
      ck_blen = 3, ck_w = 32, ck_k = 0, ck_r = 0, ck_rs = 0, ck_akr = 0, ck_yka = 0, ck_b = [], ck_ht = [],
      ck_buf = replicate 3 0\<rparr>"

lemma small_chunker_inv: "chunk_inv small_chunker"
  unfolding small_chunker_def
  by (rule chunkify_start_inv(1)) (auto simp: chunk_params_def intro!: exI [of _ 4])

lemma chunkify_write_lossless_witness:
  "\<exists>rc c' s' chs.
     chunkify_write (\<lambda>n ch. (if n = 1 then - 1 else 0, n + 1 :: nat)) small_chunker [1, 2, 3, 4, 5, 6, 7] 0 =
       Some (rc, c', s') \<and>
     hand_over (\<lambda>n ch. (if n = 1 then - 1 else 0, n + 1)) chs 0 = (rc, s')"
  using chunkify_write_lossless [OF small_chunker_inv, of "\<lambda>n ch. (if n = 1 then - 1 else 0, n + 1)"] by blast

text \<open>C32: After each byte the window \<open>r\<close> is the square root of \<open>4 k - mu\<close>, rounded up: it is
  zero for the first quarter of the mean length.  (The comments in the record
  \<^verbatim>\<open>chunkifier_internal\<close> have the root rounded down, and the remainder of the next square.)\<close>

theorem chunkify_byte_window:
  assumes "chunk_inv c" "chunkify_byte c x = Some (e, c')"
  shows "4 * unat (ck_k c') \<le> unat (ck_mu c') + n\<^sup>2 \<longleftrightarrow> unat (ck_r c') \<le> n"
proof -
  let ?r = "int (unat (ck_r c'))" and ?d = "4 * int (unat (ck_k c')) - int (unat (ck_mu c'))"
  have "window_inv (unat (ck_k c')) c'" using chunkify_byte_inv [OF assms(1), of x] assms(2) by auto
  then have w: "int (unat (ck_rs c')) = ?r\<^sup>2 + 1 + int (unat (ck_mu c')) - 4 * int (unat (ck_k c'))"
      "1 \<le> unat (ck_rs c')" "ck_r c' = 0 \<or> (?r - 1)\<^sup>2 < ?d"
    unfolding window_inv_def by blast+
  have up: "?d \<le> ?r\<^sup>2" using w(1,2) by linarith
  have "?d \<le> (int n)\<^sup>2 \<longleftrightarrow> unat (ck_r c') \<le> n"
  proof
    assume le: "?d \<le> (int n)\<^sup>2"
    show "unat (ck_r c') \<le> n"
    proof (rule ccontr)
      assume "\<not> unat (ck_r c') \<le> n"
      then have n: "n < unat (ck_r c')" by simp
      then have "(?r - 1)\<^sup>2 < (int n)\<^sup>2" using w(3) le by auto
      then have "?r - 1 < int n" by (rule power2_less_imp_less) simp
      then show False using n by linarith
    qed
  next
    assume "unat (ck_r c') \<le> n"
    then have "?r\<^sup>2 \<le> (int n)\<^sup>2" by (intro power_mono) (simp_all only: of_nat_le_iff of_nat_0_le_iff)
    then show "?d \<le> (int n)\<^sup>2" using up by linarith
  qed
  moreover have "?d \<le> (int n)\<^sup>2 \<longleftrightarrow> int (4 * unat (ck_k c')) \<le> int (unat (ck_mu c') + n\<^sup>2)"
    unfolding of_nat_add of_nat_mult of_nat_power by auto
  ultimately show ?thesis unfolding of_nat_le_iff by blast
qed

lemma chunkify_byte_window_witness:
  "\<exists>e c'. chunkify_byte small_chunker 1 = Some (e, c') \<and>
     (4 * unat (ck_k c') \<le> unat (ck_mu c') + 2\<^sup>2 \<longleftrightarrow> unat (ck_r c') \<le> 2)"
  using chunkify_byte_inv [OF small_chunker_inv, of 1] chunkify_byte_window [OF small_chunker_inv] by blast



end
