(* ===== verification/Crypto_Hash.thy ===== *)
theory Crypto_Hash
  imports Prelude
begin

text \<open>
  \<^verbatim>\<open>lib/crypto/crypto_hash.c\<close> and \<^verbatim>\<open>libcperciva/crypto/crypto_verify_bytes.c\<close>.  The functions
  below them are parameters, held by the record \<open>crypto\<close>: SHA-256, HMAC-SHA256, the keys that are
  loaded, RSA signatures.
\<close>

record crypto =
  cr_sha256 :: "bytes \<Rightarrow> bytes"
  cr_hmac :: "bytes \<Rightarrow> bytes \<Rightarrow> bytes"         \<comment> \<open>key, data\<close>
  cr_keys :: "int \<Rightarrow> bytes option"            \<comment> \<open>\<^verbatim>\<open>crypto_keys_lookup_HMAC\<close>\<close>
  cr_sign :: "bytes \<Rightarrow> bytes option"          \<comment> \<open>\<^verbatim>\<open>crypto_rsa_sign\<close> with the signing key\<close>
  cr_verify :: "bytes \<Rightarrow> bytes \<Rightarrow> int"        \<comment> \<open>\<^verbatim>\<open>crypto_rsa_verify\<close>: data, signature\<close>

definition CRYPTO_KEY_HMAC_CHUNK :: int where "CRYPTO_KEY_HMAC_CHUNK = 5"
definition CRYPTO_KEY_HMAC_NAME :: int where "CRYPTO_KEY_HMAC_NAME = 6"
definition CRYPTO_KEY_HMAC_SHA256 :: int where "CRYPTO_KEY_HMAC_SHA256 = -1"

definition crypto_hash_data_key_2 :: "crypto \<Rightarrow> bytes \<Rightarrow> bytes \<Rightarrow> bytes \<Rightarrow> bytes" where
  "crypto_hash_data_key_2 cr key data0 data1 = cr_hmac cr key (data0 @ data1)"

definition crypto_hash_data_key :: "crypto \<Rightarrow> bytes \<Rightarrow> bytes \<Rightarrow> bytes" where
  "crypto_hash_data_key cr key data = crypto_hash_data_key_2 cr key data []"

definition crypto_hash_data_2 :: "crypto \<Rightarrow> int \<Rightarrow> bytes \<Rightarrow> bytes \<Rightarrow> bytes option" where
  "crypto_hash_data_2 cr key data0 data1 =
     (if key = CRYPTO_KEY_HMAC_SHA256 then Some (cr_sha256 cr (data0 @ data1))
      else case cr_keys cr key of
             None \<Rightarrow> None
           | Some hkey \<Rightarrow> Some (crypto_hash_data_key_2 cr hkey data0 data1))"

definition crypto_hash_data :: "crypto \<Rightarrow> int \<Rightarrow> bytes \<Rightarrow> bytes option" where
  "crypto_hash_data cr key data = crypto_hash_data_2 cr key data []"

fun verify_loop :: "bytes \<Rightarrow> bytes \<Rightarrow> nat \<Rightarrow> nat \<Rightarrow> u8 \<Rightarrow> u8" where
  "verify_loop buf0 buf1 i 0 rc = rc"
| "verify_loop buf0 buf1 i (Suc n) rc = verify_loop buf0 buf1 (Suc i) n (rc OR (buf0 ! i XOR buf1 ! i))"

definition crypto_verify_bytes :: "bytes \<Rightarrow> bytes \<Rightarrow> nat \<Rightarrow> u8" where
  "crypto_verify_bytes buf0 buf1 len = verify_loop buf0 buf1 0 len 0"

lemma sha256_never_fails [simp]:
  "crypto_hash_data_2 cr CRYPTO_KEY_HMAC_SHA256 a b = Some (cr_sha256 cr (a @ b))"
  "crypto_hash_data cr CRYPTO_KEY_HMAC_SHA256 a = Some (cr_sha256 cr a)"
  by (simp_all add: crypto_hash_data_def crypto_hash_data_2_def)

lemma word_or_zero: "(a :: 'a :: len word) OR b = 0 \<longleftrightarrow> a = 0 \<and> b = 0"
  by (auto simp: bit_eq_iff bit_or_iff)

lemma word_xor_zero: "(a :: 'a :: len word) XOR b = 0 \<longleftrightarrow> a = b"
  by (auto simp: bit_eq_iff bit_xor_iff)

lemma verify_loop_zero:
  "i + n \<le> length a \<Longrightarrow> i + n \<le> length b \<Longrightarrow>
     verify_loop a b i n rc = 0 \<longleftrightarrow> rc = 0 \<and> take n (drop i a) = take n (drop i b)"
  by (induction a b i n rc rule: verify_loop.induct)
    (simp_all add: word_or_zero word_xor_zero Cons_nth_drop_Suc [symmetric])

text \<open>The comparison without branches is the comparison.\<close>

lemma crypto_verify_bytes_zero:
  "n \<le> length a \<Longrightarrow> n \<le> length b \<Longrightarrow> crypto_verify_bytes a b n = 0 \<longleftrightarrow> take n a = take n b"
  by (simp add: crypto_verify_bytes_def verify_loop_zero)

end
