(* ===== verification/Chunks_Fsck.thy ===== *)
theory Chunks_Fsck
  imports Chunks_Write
begin

text \<open>
  \<^verbatim>\<open>tar/chunks/chunks_stats.c\<close>: the statistics cookie, with which \<^verbatim>\<open>--fsck\<close> rebuilds the
  chunk directory from the archives.  Parameters: \<open>files\<close> is what \<^verbatim>\<open>storage_directory_read\<close>
  lists, \<open>dfile\<close> is \<^verbatim>\<open>storage_delete_file\<close>; \<open>junk\<close> stands for fields of fresh memory that the
  code does not set.
\<close>

record chunks_s =
  cs_HT :: "chunkdata_statstape rwhashtab"
  cs_path :: string
  cs_stats_total :: chunkstats
  cs_stats_unique :: chunkstats
  cs_stats_extra :: chunkstats
  cs_stats_tape :: chunkstats
  cs_stats_tapeu :: chunkstats
  cs_stats_tapee :: chunkstats

subsection \<open>Callbacks\<close>

definition callback_zero :: "chunkdata_statstape \<Rightarrow> 's \<Rightarrow> int \<times> chunkdata_statstape \<times> 's" where
  "callback_zero ch s =
     (0, ch\<lparr>cd_zlen_flags := cd_zlen_flags ch AND NOT CHDATA_CTAPE, cd_ncopies_ctape := 0\<rparr>, s)"

definition callback_add :: "chunkdata_statstape \<Rightarrow> 's \<Rightarrow> int \<times> chunkdata_statstape \<times> 's" where
  "callback_add ch s =
     (let ch = ch\<lparr>cd_ncopies := cd_ncopies ch + cd_ncopies_ctape ch\<rparr>
      in (0, if cd_zlen_flags ch AND CHDATA_CTAPE \<noteq> 0 then ch\<lparr>cd_nrefs := cd_nrefs ch + 1\<rparr> else ch, s))"

definition callback_delete :: "('s \<Rightarrow> char \<Rightarrow> bytes \<Rightarrow> int \<times> 's) \<Rightarrow> chunkdata_statstape \<Rightarrow> 's
    \<Rightarrow> int \<times> chunkdata_statstape \<times> 's" where
  "callback_delete dfile ch s =
     (if cd_nrefs ch \<noteq> 0 then (0, ch, s)
      else case dfile s (CHR ''c'') (cd_hash ch) of (rc, s) \<Rightarrow>
        if rc \<noteq> 0 then (-1, ch, s) else (0, ch, s))"

subsection \<open>The cookie\<close>

fun fsck_insert :: "mem \<Rightarrow> (bytes \<Rightarrow> bytes) \<Rightarrow> nat \<Rightarrow> chunkdata_statstape list
    \<Rightarrow> chunkdata_statstape rwhashtab \<Rightarrow> chunkdata_statstape rwhashtab option option" where
  "fsck_insert ma hash k [] HT = Some (Some HT)"
| "fsck_insert ma hash k (ch # chs) HT =
     (case rwhashtab_insert (ma k) hash cd_hash HT ch of
        None \<Rightarrow> None
      | Some (rc, HT) \<Rightarrow> if rc \<noteq> 0 then Some None else fsck_insert ma hash (Suc k) chs HT)"

definition fsck_entry :: "u32 \<Rightarrow> bytes \<Rightarrow> chunkdata_statstape" where
  "fsck_entry junk h =
     \<lparr>cd_hash = h, cd_len = 0, cd_zlen_flags = 0, cd_nrefs = 0, cd_ncopies = 0, cd_ncopies_ctape = junk\<rparr>"

text \<open>52 is the size of a \<^verbatim>\<open>struct chunkdata_statstape\<close>.\<close>

definition chunks_fsck_start :: "mem \<Rightarrow> (bytes \<Rightarrow> bytes) \<Rightarrow> bytes option \<Rightarrow> u32 \<Rightarrow> chunkstats
    \<Rightarrow> bytes list option \<Rightarrow> string \<Rightarrow> chunks_s option option" where
  "chunks_fsck_start ma hash entropy junk junks files cachepath =
     (if \<not> ma 0 \<or> \<not> ma 1 then Some None
      else case files of None \<Rightarrow> Some None | Some flist \<Rightarrow>
        if length flist > SIZE_MAX div 52 then Some None
        else if \<not> ma 2 then Some None
        else case rwhashtab_init (\<lambda>k. ma (3 + k)) entropy 32 of None \<Rightarrow> Some None | Some HT \<Rightarrow>
          (case fsck_insert ma hash 5 (map (fsck_entry junk) flist) HT of
             None \<Rightarrow> None
           | Some None \<Rightarrow> Some None
           | Some (Some HT) \<Rightarrow>
               Some (Some \<lparr>cs_HT = HT, cs_path = cachepath, cs_stats_total = chunks_stats_zero,
                 cs_stats_unique = chunks_stats_zero, cs_stats_extra = chunks_stats_zero,
                 cs_stats_tape = junks, cs_stats_tapeu = junks, cs_stats_tapee = junks\<rparr>)))"

definition chunks_fsck_archive_add :: "chunks_s \<Rightarrow> int \<times> chunks_s" where
  "chunks_fsck_archive_add C =
     (let C = C\<lparr>cs_stats_total := chunks_stats_addstats (cs_stats_total C) (cs_stats_tape C),
                cs_stats_unique := chunks_stats_addstats (cs_stats_unique C) (cs_stats_tapeu C),
                cs_stats_extra := chunks_stats_addstats (cs_stats_extra C) (cs_stats_tapee C)\<rparr>
      in case rwhashtab_foreach callback_add (cs_HT C) () of (rc, HT, _) \<Rightarrow> (rc, C\<lparr>cs_HT := HT\<rparr>))"

definition chunks_fsck_deletechunks :: "('s \<Rightarrow> char \<Rightarrow> bytes \<Rightarrow> int \<times> 's) \<Rightarrow> chunks_s \<Rightarrow> 's
    \<Rightarrow> int \<times> chunks_s \<times> 's" where
  "chunks_fsck_deletechunks dfile C s =
     (case rwhashtab_foreach (callback_delete dfile) (cs_HT C) s of (rc, HT, s) \<Rightarrow> (rc, C\<lparr>cs_HT := HT\<rparr>, s))"

definition chunks_fsck_end :: "fault \<Rightarrow> chunks_s \<Rightarrow> fs \<Rightarrow> int \<times> fs" where
  "chunks_fsck_end flt C fs =
     (case chunks_directory_write flt (cs_path C) (cs_HT C) (cs_stats_extra C) ''.tmp'' fs of
        (rc, fs) \<Rightarrow> if rc \<noteq> 0 then (-1, fs) else (0, fs))"

definition chunks_stats_init :: "fault \<Rightarrow> (bytes \<Rightarrow> bytes) \<Rightarrow> bytes option \<Rightarrow> u32 \<Rightarrow> chunkstats
    \<Rightarrow> string \<Rightarrow> fs \<Rightarrow> (chunks_s option \<times> fs) option" where
  "chunks_stats_init flt hash entropy junk junks cachepath fs =
     (case mem_call flt fs of (m0, fs) \<Rightarrow>
      if \<not> m0 then Some (None, fs)
      else case mem_call flt fs of (m1, fs) \<Rightarrow>
      if \<not> m1 then Some (None, fs)
      else case chunks_directory_read flt hash entropy \<lparr>cd_ncopies_ctape = junk\<rparr> (Some cachepath) True fs of
             None \<Rightarrow> None
           | Some (None, fs) \<Rightarrow> Some (None, fs)
           | Some (Some (HT, uniq, all, extra), fs) \<Rightarrow>
               Some (Some \<lparr>cs_HT = HT, cs_path = cachepath, cs_stats_total = all,
                 cs_stats_unique = uniq, cs_stats_extra = extra,
                 cs_stats_tape = junks, cs_stats_tapeu = junks, cs_stats_tapee = junks\<rparr>, fs))"

definition chunks_stats_getdirsz :: "chunks_s \<Rightarrow> nat" where
  "chunks_stats_getdirsz C = rwhashtab_getsize (cs_HT C)"

definition chunks_stats_zeroarchive :: "chunks_s \<Rightarrow> chunks_s" where
  "chunks_stats_zeroarchive C =
     (case rwhashtab_foreach callback_zero (cs_HT C) () of (_, HT, _) \<Rightarrow>
        C\<lparr>cs_stats_tape := chunks_stats_zero, cs_stats_tapeu := chunks_stats_zero,
          cs_stats_tapee := chunks_stats_zero, cs_HT := HT\<rparr>)"

text \<open>The record after one more use in the current archive.\<close>

definition chunk_count :: "chunkdata_statstape \<Rightarrow> nat \<Rightarrow> nat \<Rightarrow> chunkdata_statstape" where
  "chunk_count ch len zlen =
     (let ch = (if cd_nrefs ch = 0 \<and> cd_ncopies_ctape ch = 0
                then ch\<lparr>cd_len := of_nat len,
                        cd_zlen_flags := of_nat zlen OR (cd_zlen_flags ch AND CHDATA_FLAGS)\<rparr>
                else ch)
      in ch\<lparr>cd_ncopies_ctape := cd_ncopies_ctape ch + 1,
            cd_zlen_flags := cd_zlen_flags ch OR CHDATA_CTAPE\<rparr>)"

definition chunks_stats_addchunk :: "(bytes \<Rightarrow> bytes) \<Rightarrow> chunks_s \<Rightarrow> bytes \<Rightarrow> nat \<Rightarrow> nat
    \<Rightarrow> (int \<times> chunks_s) option" where
  "chunks_stats_addchunk hash C h len zlen =
     (case rwhashtab_read hash cd_hash (cs_HT C) h of
        None \<Rightarrow> None
      | Some None \<Rightarrow> Some (1, C)
      | Some (Some ch) \<Rightarrow>
          let flags = (if cd_nrefs ch = 0 \<and> cd_ncopies_ctape ch = 0
                       then of_nat zlen OR (cd_zlen_flags ch AND CHDATA_FLAGS) else cd_zlen_flags ch)
          in Some (0, C\<lparr>cs_stats_tape := chunks_stats_add (cs_stats_tape C) (of_nat len) (of_nat zlen) 1,
               cs_stats_tapeu :=
                 (if unat (cd_nrefs ch) \<le> 1 \<and> flags AND CHDATA_CTAPE = 0
                  then chunks_stats_add (cs_stats_tapeu C) (of_nat len) (of_nat zlen) 1
                  else cs_stats_tapeu C),
               cs_HT := rwhashtab_update hash cd_hash (cs_HT C) (chunk_count ch len zlen)\<rparr>))"

definition chunks_stats_extrastats :: "chunks_s \<Rightarrow> nat \<Rightarrow> chunks_s" where
  "chunks_stats_extrastats C len =
     C\<lparr>cs_stats_tapee := chunks_stats_add (cs_stats_tapee C) (of_nat len) (of_nat len) 1\<rparr>"

definition chunks_initialize :: "fault \<Rightarrow> bytes option \<Rightarrow> string \<Rightarrow> fs \<Rightarrow> int \<times> fs" where
  "chunks_initialize flt entropy cachepath fs =
     (case chunks_directory_exists flt cachepath fs of (e, fs) \<Rightarrow>
      if e = 1 then (1, fs)
      else if e \<noteq> 0 then (-1, fs)
      else case mem_call flt fs of (m0, fs) \<Rightarrow>
           case mem_call flt fs of (m1, fs) \<Rightarrow>
           (case rwhashtab_init (\<lambda>k. if k = 0 then m0 else m1) entropy 1 of
              None \<Rightarrow> (-1, fs)
            | Some HT \<Rightarrow>
                (case chunks_directory_write flt cachepath (HT :: chunkdata rwhashtab) chunks_stats_zero [] fs of
                   (rc, fs) \<Rightarrow> if rc \<noteq> 0 then (-1, fs) else (0, fs))))"

subsection \<open>Iterations that only change records\<close>

lemma foreach_recs_pure:
  "(\<And>r s. func r s = (0, f r, s)) \<Longrightarrow> foreach_recs func rs s = (0, map f rs, s)"
  by (induction rs) simp_all

lemma foreach_pure:
  assumes inv: "ht_inv hash keyof H" and f: "\<And>r s. func r s = (0, f r, s)" and key: "\<And>r. keyof (f r) = keyof r"
  obtains H' where "rwhashtab_foreach func H s = (0, H', s)" "ht_inv hash keyof H'"
    "\<And>k. ht_map keyof H' k = map_option f (ht_map keyof H k)"
proof -
  obtain rc H' s' where run: "rwhashtab_foreach func H s = (rc, H', s')" by (metis prod_cases3)
  have k: "keyof (fst (snd (func r s))) = keyof r" for r s by (simp add: f key)
  note spec = rwhashtab_foreach_spec [where func = func, OF inv k run]
  have eqs: "rc = 0" "somes (ht_ht H') = map f (somes (ht_ht H))" "s' = s"
    using spec(2) foreach_recs_pure [where func = func and f = f, OF f] by simp_all
  have "map_of (map (\<lambda>r. (keyof (f r), f r)) rs) k = map_option f (map_of (map (\<lambda>r. (keyof r, r)) rs) k)" for rs k
    by (induction rs) (simp_all add: key)
  then have "ht_map keyof H' k = map_option f (ht_map keyof H k)" for k
    unfolding ht_map_def eqs by (simp add: comp_def)
  then show thesis using that run spec(1) eqs by blast
qed

subsection \<open>Counting\<close>

text \<open>A use of a chunk by an archive: its hash, length and compressed length.\<close>

type_synonym chunk_use = "bytes \<times> nat \<times> nat"

abbreviation uses :: "chunk_use list \<Rightarrow> bytes \<Rightarrow> nat" where
  "uses us h \<equiv> count_list (map fst us) h"

definition archives_using :: "chunk_use list list \<Rightarrow> bytes \<Rightarrow> nat" where
  "archives_using as h = length (filter (\<lambda>us. h \<in> fst ` set us) as)"

definition triples_stats :: "chunk_use list \<Rightarrow> chunkstats" where
  "triples_stats us =
     \<lparr>st_nchunks = of_nat (length us), st_len = (\<Sum>(h, len, zlen)\<leftarrow>us. of_nat len),
      st_zlen = (\<Sum>(h, len, zlen)\<leftarrow>us. of_nat zlen)\<rparr>"

lemma triples_stats_append:
  "triples_stats (us @ vs) = chunks_stats_addstats (triples_stats us) (triples_stats vs)"
  by (simp add: triples_stats_def chunks_stats_addstats_def)

lemma triples_stats_snoc:
  "triples_stats (us @ [(h, len, zlen)]) = chunks_stats_add (triples_stats us) (of_nat len) (of_nat zlen) 1"
  by (simp add: triples_stats_def chunks_stats_add_def)

lemma triples_stats_Nil [simp]: "triples_stats [] = chunks_stats_zero"
  by (simp add: triples_stats_def chunks_stats_zero_def)

text \<open>
  What the record of the chunk \<open>h\<close> has to say when the archives \<open>done\<close> are counted in and the
  current archive has the uses \<open>cur\<close>: lengths are those of the first use.
\<close>

definition settled :: "chunk_use list list \<Rightarrow> chunk_use list \<Rightarrow> bytes \<Rightarrow> chunkdata_statstape \<Rightarrow> bool" where
  "settled as cur h ch \<longleftrightarrow>
     cd_hash ch = h \<and> cd_nrefs ch = of_nat (archives_using as h) \<and>
     cd_ncopies ch = of_nat (uses (concat as) h) \<and> cd_zlen_flags ch AND CHDATA_MALLOC = 0 \<and>
     (\<forall>len zlen. map_of (concat as @ cur) h = Some (len, zlen) \<longrightarrow>
        cd_len ch = of_nat len \<and> cd_zlen ch = of_nat zlen)"

definition counted :: "chunk_use list list \<Rightarrow> chunk_use list \<Rightarrow> bytes \<Rightarrow> chunkdata_statstape \<Rightarrow> bool" where
  "counted as cur h ch \<longleftrightarrow> settled as cur h ch \<and> cd_ncopies_ctape ch = of_nat (uses cur h) \<and>
     (cd_zlen_flags ch AND CHDATA_CTAPE \<noteq> 0 \<longleftrightarrow> h \<in> fst ` set cur)"

definition fsck_inv :: "(bytes \<Rightarrow> bytes) \<Rightarrow> bytes set \<Rightarrow> (bytes \<Rightarrow> chunkdata_statstape \<Rightarrow> bool) \<Rightarrow> chunks_s \<Rightarrow> bool" where
  "fsck_inv hash D P C \<longleftrightarrow>
     dir_inv hash (cs_HT C) \<and> dom (dir_map (cs_HT C)) = D \<and>
     (\<forall>h ch. dir_map (cs_HT C) h = Some ch \<longrightarrow> P h ch)"

lemma zlen_masks:
  "(z AND NOT CHDATA_CTAPE) AND CHDATA_ZLEN = z AND CHDATA_ZLEN"
  "(z OR CHDATA_CTAPE) AND CHDATA_ZLEN = z AND CHDATA_ZLEN"
  "(z AND NOT CHDATA_CTAPE) AND CHDATA_CTAPE = 0"
  "(z OR CHDATA_CTAPE) AND CHDATA_CTAPE \<noteq> 0"
  "(z AND NOT CHDATA_CTAPE) AND CHDATA_MALLOC = z AND CHDATA_MALLOC"
  "(z OR CHDATA_CTAPE) AND CHDATA_MALLOC = z AND CHDATA_MALLOC"
proof -
  have m: "NOT CHDATA_CTAPE AND CHDATA_ZLEN = CHDATA_ZLEN" "CHDATA_CTAPE AND CHDATA_ZLEN = 0"
    "NOT CHDATA_CTAPE AND CHDATA_CTAPE = 0" "CHDATA_CTAPE AND CHDATA_CTAPE \<noteq> 0"
    "NOT CHDATA_CTAPE AND CHDATA_MALLOC = CHDATA_MALLOC" "CHDATA_CTAPE AND CHDATA_MALLOC = 0"
    by (simp_all add: CHDATA_CTAPE_def CHDATA_ZLEN_def CHDATA_FLAGS_def CHDATA_MALLOC_def)
  show "(z AND NOT CHDATA_CTAPE) AND CHDATA_ZLEN = z AND CHDATA_ZLEN"
    "(z AND NOT CHDATA_CTAPE) AND CHDATA_CTAPE = 0"
    "(z AND NOT CHDATA_CTAPE) AND CHDATA_MALLOC = z AND CHDATA_MALLOC"
    by (simp_all only: and.assoc m and_zero_eq)
  show "(z OR CHDATA_CTAPE) AND CHDATA_ZLEN = z AND CHDATA_ZLEN"
    "(z OR CHDATA_CTAPE) AND CHDATA_MALLOC = z AND CHDATA_MALLOC"
    by (simp_all only: bit.conj_disj_distrib2 m or.right_neutral)
  show "(z OR CHDATA_CTAPE) AND CHDATA_CTAPE \<noteq> 0"
    by (simp only: bit.conj_disj_distrib2 m(4) and.idem) (metis m(4) and.idem and.commute bit.conj_disj_distrib or_eq_0_iff)
qed

lemma zeroarchive_inv:
  assumes "fsck_inv hash D (settled as []) C" "cs_stats_total C = triples_stats (concat as)"
  shows "fsck_inv hash D (counted as []) (chunks_stats_zeroarchive C) \<and>
    cs_stats_total (chunks_stats_zeroarchive C) = triples_stats (concat as) \<and>
    cs_stats_tape (chunks_stats_zeroarchive C) = triples_stats [] \<and>
    cs_path (chunks_stats_zeroarchive C) = cs_path C"
proof -
  let ?f = "\<lambda>ch. ch\<lparr>cd_zlen_flags := cd_zlen_flags ch AND NOT CHDATA_CTAPE, cd_ncopies_ctape := 0\<rparr>"
  have inv: "dir_inv hash (cs_HT C)" using assms(1) by (simp add: fsck_inv_def)
  obtain H' where H': "rwhashtab_foreach callback_zero (cs_HT C) () = (0, H', ())" "dir_inv hash H'"
    "\<And>k. dir_map H' k = map_option ?f (dir_map (cs_HT C) k)"
    by (rule foreach_pure [OF inv, of callback_zero ?f "()"]) (auto simp: callback_zero_def)
  have "dom (dir_map H') = dom (dir_map (cs_HT C))" unfolding dom_def H'(3) by auto
  moreover have "counted as [] h (?f ch)" if "settled as [] h ch" for h ch
    using that by (simp add: counted_def settled_def zlen_masks)
  ultimately show ?thesis
    using assms H' by (auto simp: chunks_stats_zeroarchive_def fsck_inv_def)
qed

lemma archive_add_inv:
  assumes "fsck_inv hash D (counted as cur) C" "cs_stats_total C = triples_stats (concat as)"
    "cs_stats_tape C = triples_stats cur"
  shows "\<exists>C'. chunks_fsck_archive_add C = (0, C') \<and> fsck_inv hash D (settled (as @ [cur]) []) C' \<and>
    cs_stats_total C' = triples_stats (concat (as @ [cur])) \<and> cs_path C' = cs_path C"
proof -
  let ?f = "\<lambda>ch. fst (snd (callback_add ch ()))"
  have inv: "dir_inv hash (cs_HT C)" using assms(1) by (simp add: fsck_inv_def)
  obtain H' where H': "rwhashtab_foreach callback_add (cs_HT C) () = (0, H', ())" "dir_inv hash H'"
    "\<And>k. dir_map H' k = map_option ?f (dir_map (cs_HT C) k)"
    by (rule foreach_pure [OF inv, of callback_add ?f "()"]) (auto simp: callback_add_def Let_def)
  have "dom (dir_map H') = dom (dir_map (cs_HT C))" unfolding dom_def H'(3) by auto
  moreover have "settled (as @ [cur]) [] h (?f ch)" if "counted as cur h ch" for h ch
    using that by (auto simp: counted_def settled_def callback_add_def Let_def archives_using_def)
  ultimately show ?thesis
    using assms H' by (auto simp: chunks_fsck_archive_add_def Let_def fsck_inv_def triples_stats_append)
qed

lemma addchunk_inv:
  assumes inv: "fsck_inv hash D (counted as cur) C" "cs_stats_tape C = triples_stats cur"
    and D: "h \<in> D" and z: "zlen < 2 ^ 30" and sizes: "length as < 4294967296" "length cur < 4294967296"
  shows "\<exists>C'. chunks_stats_addchunk hash C h len zlen = Some (0, C') \<and>
    fsck_inv hash D (counted as (cur @ [(h, len, zlen)])) C' \<and>
    cs_stats_tape C' = triples_stats (cur @ [(h, len, zlen)]) \<and>
    cs_stats_total C' = cs_stats_total C \<and> cs_path C' = cs_path C"
proof -
  let ?m = "dir_map (cs_HT C)"
  have dir: "dir_inv hash (cs_HT C)" and dom: "dom ?m = D"
    and all: "\<And>k ch. ?m k = Some ch \<Longrightarrow> counted as cur k ch"
    using inv by (auto simp: fsck_inv_def)
  obtain ch where ch: "?m h = Some ch" using D dom by blast
  have c: "counted as cur h ch" using all [OF ch] .
  let ?ch = "chunk_count ch len zlen" and ?cur = "cur @ [(h, len, zlen)]"
  have "archives_using as h \<le> length as" by (simp add: archives_using_def)
  moreover have "uses cur h \<le> length cur" using count_le_length [of "map fst cur" h] by simp
  ultimately have small: "archives_using as h < 4294967296" "uses cur h < 4294967296"
    using sizes by (blast intro: order_le_less_trans)+
  have zero: "(of_nat n :: u32) = 0 \<longleftrightarrow> n = 0" if "n < 4294967296" for n
    using that by (auto simp: word_of_nat_eq_0_iff dest: dvd_imp_le)
  have zl: "(of_nat zlen :: u32) AND CHDATA_ZLEN = of_nat zlen"
    using z by (intro zlen_id) (simp add: unat_of_nat)
  have zf: "(of_nat zlen :: u32) AND CHDATA_CTAPE = 0" "(of_nat zlen :: u32) AND CHDATA_MALLOC = 0"
  proof -
    have m: "CHDATA_ZLEN AND CHDATA_CTAPE = 0" "CHDATA_ZLEN AND CHDATA_MALLOC = 0"
      by (simp_all add: CHDATA_CTAPE_def CHDATA_ZLEN_def CHDATA_FLAGS_def CHDATA_MALLOC_def)
    show "(of_nat zlen :: u32) AND CHDATA_CTAPE = 0" by (subst zl [symmetric]) (simp only: and.assoc m and_zero_eq)
    show "(of_nat zlen :: u32) AND CHDATA_MALLOC = 0" by (subst zl [symmetric]) (simp only: and.assoc m and_zero_eq)
  qed
  have "archives_using as h = 0 \<longleftrightarrow> h \<notin> fst ` set (concat as)" by (auto simp: archives_using_def filter_empty_conv)
  moreover have "uses cur h = 0 \<longleftrightarrow> h \<notin> fst ` set cur" by (simp add: count_list_0_iff)
  ultimately have first: "cd_nrefs ch = 0 \<and> cd_ncopies_ctape ch = 0 \<longleftrightarrow> map_of (concat as @ cur) h = None"
    using c small by (auto simp: counted_def settled_def zero map_of_eq_None_iff map_add_None)
  have flags: "(of_nat zlen OR (cd_zlen_flags ch AND CHDATA_FLAGS)) AND CHDATA_ZLEN = of_nat zlen"
    "(of_nat zlen OR (cd_zlen_flags ch AND CHDATA_FLAGS)) AND CHDATA_MALLOC = cd_zlen_flags ch AND CHDATA_MALLOC"
  proof -
    have m: "CHDATA_FLAGS AND CHDATA_ZLEN = 0" "CHDATA_FLAGS AND CHDATA_MALLOC = CHDATA_MALLOC"
      by (simp_all add: CHDATA_CTAPE_def CHDATA_ZLEN_def CHDATA_FLAGS_def CHDATA_MALLOC_def)
    show "(of_nat zlen OR (cd_zlen_flags ch AND CHDATA_FLAGS)) AND CHDATA_ZLEN = of_nat zlen"
      "(of_nat zlen OR (cd_zlen_flags ch AND CHDATA_FLAGS)) AND CHDATA_MALLOC = cd_zlen_flags ch AND CHDATA_MALLOC"
      by (simp_all only: bit.conj_disj_distrib2 and.assoc m zl zf and_zero_eq or.right_neutral or.left_neutral)
  qed
  have cnt: "counted as ?cur h ?ch"
  proof (cases "map_of (concat as @ cur) h")
    case None
    then have new: "cd_nrefs ch = 0 \<and> cd_ncopies_ctape ch = 0" using first by blast
    then show ?thesis
      using c None unfolding chunk_count_def Let_def if_P [OF new] counted_def settled_def
      by (auto simp: zlen_masks flags map_add_None map_add_Some_iff)
  next
    case (Some lz)
    then have old: "\<not> (cd_nrefs ch = 0 \<and> cd_ncopies_ctape ch = 0)" using first by auto
    have "map_of (concat as @ ?cur) h = map_of (concat as @ cur) h"
      using Some by (auto simp: map_add_def split: option.splits)
    then show ?thesis
      using c unfolding chunk_count_def Let_def if_not_P [OF old] counted_def settled_def
      by (auto simp: zlen_masks)
  qed
  moreover have "counted as ?cur k ch'" if "k \<noteq> h" "?m k = Some ch'" for k ch'
  proof -
    have "map_of (concat as @ ?cur) k = map_of (concat as @ cur) k"
      using that(1) by (simp add: map_add_def split: option.splits)
    then show ?thesis using all [OF that(2)] that(1) by (auto simp: counted_def settled_def)
  qed
  moreover have key: "cd_hash ?ch = h" using cnt by (simp add: counted_def settled_def)
  have "dir_inv hash (rwhashtab_update hash cd_hash (cs_HT C) ?ch)"
    "dir_map (rwhashtab_update hash cd_hash (cs_HT C) ?ch) = ?m(h \<mapsto> ?ch)"
    using rwhashtab_update_spec(1,2) [OF dir, of ?ch ch] ch key by simp_all
  ultimately show ?thesis
    using cnt ch dom inv(2) rwhashtab_read_spec [OF dir, of h]
    by (auto simp: chunks_stats_addchunk_def Let_def fsck_inv_def triples_stats_snoc split: if_splits)
qed

subsection \<open>A whole run\<close>

lemma fsck_insert_spec:
  assumes "dir_inv hash HT" "\<forall>h ch. dir_map HT h = Some ch \<longrightarrow> ch = fsck_entry junk h"
  shows "\<exists>res. fsck_insert ma hash k (map (fsck_entry junk) files) HT = Some res \<and>
    (\<forall>HT'. res = Some HT' \<longrightarrow> dir_inv hash HT' \<and> dom (dir_map HT') = dom (dir_map HT) \<union> set files \<and>
      (\<forall>h ch. dir_map HT' h = Some ch \<longrightarrow> ch = fsck_entry junk h))"
  using assms
proof (induction files arbitrary: k HT)
  case (Cons h files)
  let ?ch = "fsck_entry junk h"
  have key: "cd_hash ?ch = h" by (simp add: fsck_entry_def)
  obtain rc HT1 where ins: "rwhashtab_insert (ma k) hash cd_hash HT ?ch = Some (rc, HT1)" "dir_inv hash HT1"
    "rc = 0 \<longrightarrow> dir_map HT1 = (dir_map HT)(h \<mapsto> ?ch)"
    using ht.ins_result [OF Cons.prems(1), of "ma k" ?ch] key by auto
  show ?case
  proof (cases "rc = 0")
    case True
    then have m: "dir_map HT1 = (dir_map HT)(h \<mapsto> ?ch)" using ins(3) by simp
    have "\<forall>h ch. dir_map HT1 h = Some ch \<longrightarrow> ch = fsck_entry junk h" using Cons.prems(2) unfolding m by simp
    from Cons.IH [OF ins(2) this, of "Suc k"] show ?thesis using ins(1) True by (auto simp: m)
  qed (use ins in simp)
qed simp

lemma fsck_start_inv:
  assumes "chunks_fsck_start ma hash entropy junk junks (Some files) path = Some (Some C)"
  shows "fsck_inv hash (set files) (settled [] []) C \<and> cs_stats_total C = triples_stats (concat [])"
proof -
  obtain HT0 where HT0: "rwhashtab_init (\<lambda>k. ma (3 + k)) entropy 32 = Some HT0"
    and C: "\<exists>HT. fsck_insert ma hash 5 (map (fsck_entry junk) files) HT0 = Some (Some HT) \<and> cs_HT C = HT"
      "cs_stats_total C = chunks_stats_zero"
    using assms by (auto simp: chunks_fsck_start_def split: if_splits option.splits)
  have i: "dir_inv hash HT0" "dir_map HT0 = Map.empty" using rwhashtab_init_inv [OF HT0] by auto
  have "dir_inv hash (cs_HT C)" "dom (dir_map (cs_HT C)) = set files"
    "\<And>h ch. dir_map (cs_HT C) h = Some ch \<Longrightarrow> ch = fsck_entry junk h"
    using fsck_insert_spec [OF i(1), of junk ma 5 files] C(1) i(2) by auto
  moreover have "settled [] [] h (fsck_entry junk h)" for h
    by (simp add: settled_def fsck_entry_def archives_using_def)
  ultimately show ?thesis using C(2) unfolding fsck_inv_def by auto
qed

text \<open>What \<^verbatim>\<open>--fsck\<close> asks of the cookie: the uses of each archive, one archive after the other.\<close>

fun count_uses :: "(bytes \<Rightarrow> bytes) \<Rightarrow> chunk_use list \<Rightarrow> chunks_s \<Rightarrow> (int \<times> chunks_s) option" where
  "count_uses hash [] C = Some (0, C)"
| "count_uses hash ((h, len, zlen) # us) C =
     (case chunks_stats_addchunk hash C h len zlen of
        None \<Rightarrow> None
      | Some (rc, C) \<Rightarrow> if rc \<noteq> 0 then Some (rc, C) else count_uses hash us C)"

fun count_archives :: "(bytes \<Rightarrow> bytes) \<Rightarrow> chunk_use list list \<Rightarrow> chunks_s \<Rightarrow> (int \<times> chunks_s) option" where
  "count_archives hash [] C = Some (0, C)"
| "count_archives hash (us # as) C =
     (case count_uses hash us (chunks_stats_zeroarchive C) of
        None \<Rightarrow> None
      | Some (rc, C) \<Rightarrow>
          if rc \<noteq> 0 then Some (rc, C)
          else case chunks_fsck_archive_add C of (rc, C) \<Rightarrow>
            if rc \<noteq> 0 then Some (rc, C) else count_archives hash as C)"

definition uses_ok :: "bytes set \<Rightarrow> chunk_use list \<Rightarrow> bool" where
  "uses_ok D us \<longleftrightarrow> (\<forall>(h, len, zlen)\<in>set us. h \<in> D \<and> zlen < 2 ^ 30)"

lemma count_uses_inv:
  assumes "fsck_inv hash D (counted as cur) C" "cs_stats_tape C = triples_stats cur"
    and "uses_ok D us" "length as < 4294967296" "length (cur @ us) < 4294967296"
  shows "\<exists>C'. count_uses hash us C = Some (0, C') \<and> fsck_inv hash D (counted as (cur @ us)) C' \<and>
    cs_stats_tape C' = triples_stats (cur @ us) \<and> cs_stats_total C' = cs_stats_total C"
  using assms
proof (induction us arbitrary: cur C)
  case (Cons u us)
  obtain h len zlen where u: "u = (h, len, zlen)" by (cases u)
  have ok: "h \<in> D" "zlen < 2 ^ 30" "uses_ok D us" using Cons.prems(3) by (auto simp: uses_ok_def u)
  obtain C1 where C1: "chunks_stats_addchunk hash C h len zlen = Some (0, C1)"
    "fsck_inv hash D (counted as (cur @ [u])) C1" "cs_stats_tape C1 = triples_stats (cur @ [u])"
    "cs_stats_total C1 = cs_stats_total C"
    using addchunk_inv [OF Cons.prems(1,2) ok(1,2) Cons.prems(4), of len] Cons.prems(5) by (auto simp: u)
  have len: "length ((cur @ [u]) @ us) < 4294967296" using Cons.prems(5) by simp
  from Cons.IH [OF C1(2,3) ok(3) Cons.prems(4) len] show ?case using C1(1,4) by (auto simp: u)
qed auto

lemma count_archives_inv:
  assumes "fsck_inv hash D (settled bs []) C" "cs_stats_total C = triples_stats (concat bs)"
    and "\<forall>us\<in>set as. uses_ok D us \<and> length us < 4294967296" "length (bs @ as) < 4294967296"
  shows "\<exists>C'. count_archives hash as C = Some (0, C') \<and> fsck_inv hash D (settled (bs @ as) []) C' \<and>
    cs_stats_total C' = triples_stats (concat (bs @ as))"
  using assms
proof (induction as arbitrary: bs C)
  case (Cons us as)
  let ?C = "chunks_stats_zeroarchive C"
  have z: "fsck_inv hash D (counted bs []) ?C" "cs_stats_total ?C = triples_stats (concat bs)"
    "cs_stats_tape ?C = triples_stats []"
    using zeroarchive_inv [OF Cons.prems(1,2)] by blast+
  have us: "uses_ok D us" "length bs < 4294967296" "length ([] @ us) < 4294967296"
    using Cons.prems(3,4) by simp_all
  obtain C1 where C1: "count_uses hash us ?C = Some (0, C1)" "fsck_inv hash D (counted bs us) C1"
    "cs_stats_tape C1 = triples_stats us" "cs_stats_total C1 = triples_stats (concat bs)"
    using count_uses_inv [OF z(1,3) us] z(2) by auto
  obtain C2 where C2: "chunks_fsck_archive_add C1 = (0, C2)" "fsck_inv hash D (settled (bs @ [us]) []) C2"
    "cs_stats_total C2 = triples_stats (concat (bs @ [us]))"
    using archive_add_inv [OF C1(2,4,3)] by blast
  have rest: "\<forall>us\<in>set as. uses_ok D us \<and> length us < 4294967296" "length ((bs @ [us]) @ as) < 4294967296"
    using Cons.prems(3,4) by simp_all
  from Cons.IH [OF C2(2,3) rest] show ?case using C1(1) C2(1) by auto
qed auto

lemma foreach_delete:
  "foreach_recs (callback_delete (\<lambda>s c h. (0, s @ [(c, h)]))) rs s =
     (0, rs, s @ map (\<lambda>ch. (CHR ''c'', cd_hash ch)) (filter (\<lambda>ch. cd_nrefs ch = 0) rs))"
  by (induction rs arbitrary: s) (simp_all add: callback_delete_def)

lemma deletechunks_spec:
  assumes inv: "dir_inv hash (cs_HT C)"
  shows "\<exists>C' dl. chunks_fsck_deletechunks (\<lambda>s c h. (0, s @ [(c, h)])) C [] = (0, C', dl) \<and>
    dir_map (cs_HT C') = dir_map (cs_HT C) \<and> distinct dl \<and>
    set dl = {(CHR ''c'', h) |h. \<exists>ch. dir_map (cs_HT C) h = Some ch \<and> cd_nrefs ch = 0}"
proof -
  let ?f = "callback_delete (\<lambda>s c h. (0, s @ [(c, h)]))" and ?rs = "somes (ht_ht (cs_HT C))"
  obtain rc H' dl where run: "rwhashtab_foreach ?f (cs_HT C) [] = (rc, H', dl)" by (metis prod_cases3)
  have key: "cd_hash (fst (snd (?f r s))) = cd_hash r" for r s by (simp add: callback_delete_def)
  have recs: "foreach_recs ?f ?rs [] = (rc, somes (ht_ht H'), dl)"
    using rwhashtab_foreach_spec(2) [where func = ?f, OF inv key run] .
  then have out: "rc = 0" "somes (ht_ht H') = ?rs"
    "dl = map (\<lambda>ch. (CHR ''c'', cd_hash ch)) (filter (\<lambda>ch. cd_nrefs ch = 0) ?rs)"
    by (auto simp: foreach_delete)
  have dist: "distinct (map cd_hash ?rs)" using inv by (simp add: ht_inv_def tab_ok_def)
  then have "distinct (map (\<lambda>ch. (CHR ''c'', cd_hash ch)) ?rs)"
    by (simp add: distinct_map inj_on_def)
  then have "distinct dl" unfolding out by (rule distinct_map_filter)
  moreover have "set dl = {(CHR ''c'', h) |h. \<exists>ch. dir_map (cs_HT C) h = Some ch \<and> cd_nrefs ch = 0}"
    unfolding out using ht_map_Some [OF inv] by auto
  ultimately show ?thesis using run out by (auto simp: chunks_fsck_deletechunks_def ht_map_def)
qed

subsection \<open>Properties\<close>

text \<open>\<^verbatim>\<open>--fsck\<close> rebuilds the chunk directory: from the list of the chunk files on the server
  and the uses of each archive, every record counts the archives that use its chunk and the uses,
  with the lengths of the first use, and the total statistics are the sums over all uses; then
  exactly the chunk files that no archive uses are deleted, once each, and the directory keeps its
  records.  The counters are exact up to \<open>2 ^ 32\<close>.\<close>

theorem fsck_rebuilds_directory:
  assumes "chunks_fsck_start ma hash entropy junk junks (Some files) path = Some (Some C0)"
    and "\<forall>us\<in>set as. uses_ok (set files) us \<and> length us < 4294967296" "length as < 4294967296"
  shows "\<exists>C C' dl. count_archives hash as C0 = Some (0, C) \<and>
    dom (ht_map cd_hash (cs_HT C)) = set files \<and>
    (\<forall>h\<in>set files. refs (ht_map cd_hash (cs_HT C)) h = of_nat (archives_using as h) \<and>
       copies (ht_map cd_hash (cs_HT C)) h = of_nat (uses (concat as) h)) \<and>
    (\<forall>h len zlen ch. map_of (concat as) h = Some (len, zlen) \<longrightarrow> ht_map cd_hash (cs_HT C) h = Some ch \<longrightarrow>
       cd_len ch = of_nat len \<and> cd_zlen ch = of_nat zlen) \<and>
    cs_stats_total C = triples_stats (concat as) \<and>
    chunks_fsck_deletechunks (\<lambda>s c h. (0, s @ [(c, h)])) C [] = (0, C', dl) \<and>
    ht_map cd_hash (cs_HT C') = ht_map cd_hash (cs_HT C) \<and> distinct dl \<and>
    set dl = {(CHR ''c'', h) |h. h \<in> set files \<and> h \<notin> fst ` set (concat as)}"
proof -
  obtain C where C: "count_archives hash as C0 = Some (0, C)" "fsck_inv hash (set files) (settled as []) C"
    "cs_stats_total C = triples_stats (concat as)"
    using count_archives_inv [of hash "set files" "[]" C0 as] fsck_start_inv [OF assms(1)] assms(2,3) by auto
  let ?m = "dir_map (cs_HT C)"
  have inv: "dir_inv hash (cs_HT C)" and dom: "dom ?m = set files"
    and rec: "\<And>h ch. ?m h = Some ch \<Longrightarrow> settled as [] h ch"
    using C(2) by (auto simp: fsck_inv_def)
  obtain C' dl where del: "chunks_fsck_deletechunks (\<lambda>s c h. (0, s @ [(c, h)])) C [] = (0, C', dl)"
    "dir_map (cs_HT C') = ?m" "distinct dl"
    "set dl = {(CHR ''c'', h) |h. \<exists>ch. ?m h = Some ch \<and> cd_nrefs ch = 0}"
    using deletechunks_spec [OF inv] by blast
  have "cd_nrefs ch = 0 \<longleftrightarrow> h \<notin> fst ` set (concat as)" if "?m h = Some ch" for h ch
  proof -
    have "archives_using as h \<le> length as" by (simp add: archives_using_def)
    then have "archives_using as h < 4294967296" using assms(3) by simp
    then have "(of_nat (archives_using as h) :: u32) = 0 \<longleftrightarrow> archives_using as h = 0"
      by (auto simp: word_of_nat_eq_0_iff dest: dvd_imp_le)
    then show ?thesis using rec [OF that] by (auto simp: settled_def archives_using_def filter_empty_conv)
  qed
  then have "(\<exists>ch. ?m h = Some ch \<and> cd_nrefs ch = 0) \<longleftrightarrow> h \<in> set files \<and> h \<notin> fst ` set (concat as)" for h
    using dom by blast
  then have "set dl = {(CHR ''c'', h) |h. h \<in> set files \<and> h \<notin> fst ` set (concat as)}" using del(4) by simp
  moreover have "\<forall>h\<in>set files. refs ?m h = of_nat (archives_using as h) \<and> copies ?m h = of_nat (uses (concat as) h)"
    using dom rec unfolding refs_def copies_def settled_def by (force split: option.splits)
  moreover have "\<forall>h len zlen ch. map_of (concat as) h = Some (len, zlen) \<longrightarrow> ?m h = Some ch \<longrightarrow>
       cd_len ch = of_nat len \<and> cd_zlen ch = of_nat zlen"
    using rec by (auto simp: settled_def)
  ultimately show ?thesis using C(1,3) dom del(1-3) by blast
qed

lemma sample_fsck_start:
  "a \<noteq> b \<Longrightarrow>
     \<exists>C0. chunks_fsck_start mem_ok sample_hash (Some e) 7 chunks_stats_zero (Some [a, b]) p = Some (Some C0)"
  by (simp add: chunks_fsck_start_def fsck_entry_def rwhashtab_init_def rwhashtab_insert_def
      rwhashtab_insert_nogrow_def rwhashtab_search_def replicate_4_None drop_bit_eq_div)

theorem fsck_rebuilds_directory_witness:
  "\<exists>C0 C dl C'. chunks_fsck_start mem_ok sample_hash (Some (replicate 32 0)) 7 chunks_stats_zero
      (Some [replicate 32 1, replicate 32 2]) ''c'' = Some (Some C0) \<and>
    count_archives sample_hash [[(replicate 32 1, 10, 5), (replicate 32 1, 10, 5)], [(replicate 32 1, 10, 5)]] C0 =
      Some (0, C) \<and>
    refs (ht_map cd_hash (cs_HT C)) (replicate 32 1) = 2 \<and> copies (ht_map cd_hash (cs_HT C)) (replicate 32 1) = 3 \<and>
    chunks_fsck_deletechunks (\<lambda>s c h. (0, s @ [(c, h)])) C [] = (0, C', dl) \<and>
    set dl = {(CHR ''c'', replicate 32 2)}"
proof -
  define a b :: bytes where "a = replicate 32 1" and "b = replicate 32 2"
  define as :: "chunk_use list list" where "as = [[(a, 10, 5), (a, 10, 5)], [(a, 10, 5)]]"
  have ne: "a \<noteq> b" by (simp add: a_def b_def)
  obtain C0 where C0: "chunks_fsck_start mem_ok sample_hash (Some (replicate 32 0)) 7 chunks_stats_zero
      (Some [a, b]) ''c'' = Some (Some C0)"
    using sample_fsck_start [OF ne] by blast
  have ok: "\<forall>us\<in>set as. uses_ok (set [a, b]) us \<and> length us < 4294967296" "length as < 4294967296"
    by (simp_all add: uses_ok_def as_def)
  have counts: "of_nat (archives_using as a) = (2 :: u32)" "of_nat (uses (concat as) a) = (3 :: u32)"
    by (simp_all add: archives_using_def as_def)
  have unused: "{(CHR ''c'', h) |h. h \<in> set [a, b] \<and> h \<notin> fst ` set (concat as)} = {(CHR ''c'', b)}"
    using ne by (auto simp: as_def)
  obtain C C' dl where C: "count_archives sample_hash as C0 = Some (0, C)"
    "\<forall>h\<in>set [a, b]. refs (ht_map cd_hash (cs_HT C)) h = of_nat (archives_using as h) \<and>
       copies (ht_map cd_hash (cs_HT C)) h = of_nat (uses (concat as) h)"
    "chunks_fsck_deletechunks (\<lambda>s c h. (0, s @ [(c, h)])) C [] = (0, C', dl)"
    "set dl = {(CHR ''c'', h) |h. h \<in> set [a, b] \<and> h \<notin> fst ` set (concat as)}"
    using fsck_rebuilds_directory [OF C0 ok] by (elim exE conjE) (rule that)
  have "refs (ht_map cd_hash (cs_HT C)) a = 2 \<and> copies (ht_map cd_hash (cs_HT C)) a = 3"
    using bspec [OF C(2), of a] counts by simp
  then show ?thesis
    unfolding a_def [symmetric] b_def [symmetric] as_def [symmetric]
    using C0 C(1,3) C(4) [unfolded unused] by (intro exI [of _ C0] exI [of _ C] exI [of _ dl] exI [of _ C']) simp
qed

end
