(* ===== verification/Tape_Metadata.thy ===== *)
theory Tape_Metadata
  imports Crypto_Hash Chunks_Fsck Chunks_Delete
begin

text \<open>
  \<^verbatim>\<open>tar/multitape/multitape_metadata.c\<close> with the structures of \<^verbatim>\<open>multitape_internal.h\<close>.
  Strings are byte lists without their NUL.  Parameters: \<open>wfile\<close>, \<open>dfile\<close>, \<open>fexist\<close> and \<open>rfile\<close> are
  the storage layer's operations on its state; \<open>rfile\<close> gives the data or the code 1 (no such file),
  2 (corrupt) or -1.  Results are \<^const>\<open>Inl\<close> of a nonzero code or \<^const>\<open>Inr\<close> of a value.
\<close>

record tapemetadata =
  tm_name :: bytes
  tm_ctime :: u64
  tm_argc :: int
  tm_argv :: "bytes list"
  tm_indexhash :: bytes
  tm_indexlen :: u64
  tm_metadatalen :: nat

type_synonym 'r rfile_alloc = "'r \<Rightarrow> char \<Rightarrow> bytes \<Rightarrow> (int + bytes) \<times> 'r"
type_synonym 'r rfile = "'r \<Rightarrow> nat \<Rightarrow> char \<Rightarrow> bytes \<Rightarrow> (int + bytes) \<times> 'r"

subsection \<open>Encoding and storing\<close>

definition multitape_metadata_ispresent :: "crypto \<Rightarrow> ('s \<Rightarrow> char \<Rightarrow> bytes \<Rightarrow> int \<times> 's) \<Rightarrow> 's \<Rightarrow> bytes
    \<Rightarrow> int \<times> 's" where
  "multitape_metadata_ispresent cr fexist S tapename =
     (case crypto_hash_data cr CRYPTO_KEY_HMAC_NAME tapename of
        None \<Rightarrow> (-1, S) | Some hbuf \<Rightarrow> fexist S (CHR ''m'') hbuf)"

text \<open>All the metadata before the signature.\<close>

definition metadata_body :: "tapemetadata \<Rightarrow> bytes" where
  "metadata_body mdat =
     tm_name mdat @ [0] @ le64enc (tm_ctime mdat) @ le32enc (of_int (tm_argc mdat)) @
     concat (map (\<lambda>a. a @ [0]) (take (nat (tm_argc mdat)) (tm_argv mdat))) @
     take 32 (tm_indexhash mdat) @ le64enc (tm_indexlen mdat)"

text \<open>The outer \<^const>\<open>None\<close> is the failed \<^verbatim>\<open>assert\<close>.\<close>

definition multitape_metadata_enc :: "bool \<Rightarrow> crypto \<Rightarrow> tapemetadata \<Rightarrow> bytes option option" where
  "multitape_metadata_enc ma cr mdat =
     (if tm_argc mdat < 0 \<or> tm_argc mdat > int UINT32_MAX then None
      else if \<not> ma then Some None
      else case cr_sign cr (metadata_body mdat) of
             None \<Rightarrow> Some None
           | Some sig \<Rightarrow> Some (Some (metadata_body mdat @ sig)))"

definition multitape_metadata_put :: "bool \<Rightarrow> crypto \<Rightarrow> 's wfile \<Rightarrow> 's \<Rightarrow> chunks_w \<Rightarrow> tapemetadata
    \<Rightarrow> (int \<times> 's \<times> chunks_w) option" where
  "multitape_metadata_put ma cr wfile S C mdat =
     (case multitape_metadata_enc ma cr mdat of
        None \<Rightarrow> None
      | Some None \<Rightarrow> Some (-1, S, C)
      | Some (Some buf) \<Rightarrow>
          (case crypto_hash_data cr CRYPTO_KEY_HMAC_NAME (tm_name mdat) of
             None \<Rightarrow> Some (-1, S, C)
           | Some hbuf \<Rightarrow>
               (case wfile S buf (CHR ''m'') hbuf of (rc, S) \<Rightarrow>
                  if rc \<noteq> 0 then Some (-1, S, C) else Some (0, S, chunks_write_extrastats C (length buf)))))"

subsection \<open>Parsing\<close>

text \<open>A NUL-terminated string at the start of a buffer, and the rest.\<close>

definition nul_string :: "bytes \<Rightarrow> (bytes \<times> bytes) option" where
  "nul_string p =
     (if 0 \<in> set p then Some (takeWhile (\<lambda>b. b \<noteq> 0) p, tl (dropWhile (\<lambda>b. b \<noteq> 0) p)) else None)"

fun parse_argv :: "mem \<Rightarrow> nat \<Rightarrow> nat \<Rightarrow> bytes \<Rightarrow> int + bytes list \<times> bytes" where
  "parse_argv ma k 0 p = Inr ([], p)"
| "parse_argv ma k (Suc n) p =
     (case nul_string p of
        None \<Rightarrow> Inl 1
      | Some (a, p) \<Rightarrow>
          if \<not> ma k then Inl (-1)
          else case parse_argv ma (Suc k) n p of
                 Inl rc \<Rightarrow> Inl rc | Inr (as, p) \<Rightarrow> Inr (a # as, p))"

text \<open>From the index hash on: \<open>buf\<close> is the whole file, \<open>p\<close> what is left of it.\<close>

definition metadata_dec_tail :: "crypto \<Rightarrow> tapemetadata \<Rightarrow> bytes \<Rightarrow> bytes \<Rightarrow> int + tapemetadata" where
  "metadata_dec_tail cr mdat buf p =
     (if length p < 32 then Inl 1
      else let mdat = mdat\<lparr>tm_indexhash := take 32 p\<rparr>; p = drop 32 p in
      if length p < 8 then Inl 1
      else let mdat = mdat\<lparr>tm_indexlen := le64dec p\<rparr>; p = drop 8 p in
      if length p < 256 then Inl 1
      else let v = cr_verify cr (take (length buf - length p) buf) (take 256 p) in
      if v = -1 then Inl (-1)
      else if v = 1 then Inl 1
      else if length (drop 256 p) \<noteq> 0 then Inl 1
      else Inr mdat)"

definition multitape_metadata_dec :: "mem \<Rightarrow> crypto \<Rightarrow> tapemetadata \<Rightarrow> bytes \<Rightarrow> int + tapemetadata" where
  "multitape_metadata_dec ma cr mdat buf =
     (case nul_string buf of
        None \<Rightarrow> Inl 1
      | Some (name, p) \<Rightarrow>
          if \<not> ma 0 then Inl (-1)
          else if length p < 8 then Inl 1
          else let ctime = le64dec p; p = drop 8 p in
          if length p < 4 then Inl 1
          else let argc = sint (le32dec p); p = drop 4 p in
          if argc < 0 \<or> argc > int (length p) then Inl 1
          else if \<not> ma 1 then Inl (-1)
          else case parse_argv ma 2 (nat argc) p of
                 Inl rc \<Rightarrow> Inl rc
               | Inr (argv, p) \<Rightarrow>
                   metadata_dec_tail cr (mdat\<lparr>tm_name := name, tm_ctime := ctime, tm_argc := argc,
                     tm_argv := argv\<rparr>) buf p)"

definition multitape_metadata_get :: "mem \<Rightarrow> crypto \<Rightarrow> 'r rfile_alloc \<Rightarrow> 'r \<Rightarrow> chunks_s option
    \<Rightarrow> tapemetadata \<Rightarrow> bytes \<Rightarrow> (int + tapemetadata) \<times> 'r \<times> chunks_s option" where
  "multitape_metadata_get ma cr rfile S C mdat tapehash =
     (case rfile S (CHR ''m'') tapehash of
        (Inl rc, S) \<Rightarrow> (Inl rc, S, C)
      | (Inr mbuf, S) \<Rightarrow>
          let C = map_option (\<lambda>C. chunks_stats_extrastats C (length mbuf)) C
          in (case multitape_metadata_dec ma cr mdat mbuf of
                Inl rc \<Rightarrow> (Inl (if rc = 1 then 2 else -1), S, C)
              | Inr mdat \<Rightarrow>
                  let mdat = mdat\<lparr>tm_metadatalen := length mbuf\<rparr>
                  in (case crypto_hash_data cr CRYPTO_KEY_HMAC_NAME (tm_name mdat) of
                        None \<Rightarrow> (Inl (-1), S, C)
                      | Some hbuf \<Rightarrow>
                          if crypto_verify_bytes tapehash hbuf 32 \<noteq> 0 then (Inl 2, S, C)
                          else (Inr mdat, S, C))))"

definition multitape_metadata_get_byhash :: "mem \<Rightarrow> crypto \<Rightarrow> 'r rfile_alloc \<Rightarrow> 'r \<Rightarrow> chunks_s option
    \<Rightarrow> tapemetadata \<Rightarrow> bytes \<Rightarrow> (int + tapemetadata) \<times> 'r \<times> chunks_s option" where
  "multitape_metadata_get_byhash ma cr rfile S C mdat tapehash =
     multitape_metadata_get ma cr rfile S C mdat tapehash"

definition multitape_metadata_get_byname :: "mem \<Rightarrow> crypto \<Rightarrow> 'r rfile_alloc \<Rightarrow> 'r \<Rightarrow> chunks_s option
    \<Rightarrow> tapemetadata \<Rightarrow> bytes \<Rightarrow> (int + tapemetadata) \<times> 'r \<times> chunks_s option" where
  "multitape_metadata_get_byname ma cr rfile S C mdat tapename =
     (case crypto_hash_data cr CRYPTO_KEY_HMAC_NAME tapename of
        None \<Rightarrow> (Inl (-1), S, C)
      | Some hbuf \<Rightarrow> multitape_metadata_get ma cr rfile S C mdat hbuf)"

definition multitape_metadata_recrypt :: "mem \<Rightarrow> crypto \<Rightarrow> tapemetadata \<Rightarrow> bytes \<Rightarrow> bytes option option" where
  "multitape_metadata_recrypt ma cr mdat obuf =
     (case multitape_metadata_dec (\<lambda>k. ma (Suc k)) cr mdat obuf of
        Inl rc \<Rightarrow> Some None
      | Inr mdat \<Rightarrow> multitape_metadata_enc (ma 0) cr mdat)"

definition multitape_metadata_delete :: "crypto \<Rightarrow> 's dfile \<Rightarrow> 's \<Rightarrow> chunks_d \<Rightarrow> tapemetadata
    \<Rightarrow> int \<times> 's \<times> chunks_d" where
  "multitape_metadata_delete cr dfile S C mdat =
     (case crypto_hash_data cr CRYPTO_KEY_HMAC_NAME (tm_name mdat) of
        None \<Rightarrow> (-1, S, C)
      | Some hbuf \<Rightarrow>
          (case dfile S (CHR ''m'') hbuf of (rc, S) \<Rightarrow>
             if rc \<noteq> 0 then (-1, S, C)
             else (0, S, chunks_delete_extrastats C (tm_metadatalen mdat))))"

subsection \<open>Parsing is exact\<close>

lemma nul_string_iff: "nul_string p = Some (a, r) \<longleftrightarrow> p = a @ 0 # r \<and> 0 \<notin> set a"
proof
  assume "nul_string p = Some (a, r)"
  then have 0: "0 \<in> set p" and a: "a = takeWhile (\<lambda>b. b \<noteq> 0) p" and r: "r = tl (dropWhile (\<lambda>b. b \<noteq> 0) p)"
    by (auto simp: nul_string_def split: if_splits)
  have "dropWhile (\<lambda>b. b \<noteq> 0) p \<noteq> []" using 0 by (auto simp: dropWhile_eq_Nil_conv)
  moreover from this have "hd (dropWhile (\<lambda>b. b \<noteq> 0) p) = 0" using hd_dropWhile by blast
  ultimately have "dropWhile (\<lambda>b. b \<noteq> 0) p = 0 # r" unfolding r by (metis list.collapse)
  then show "p = a @ 0 # r \<and> 0 \<notin> set a"
    unfolding a by (metis set_takeWhileD takeWhile_dropWhile_id)
next
  assume "p = a @ 0 # r \<and> 0 \<notin> set a"
  moreover from this have "\<forall>b\<in>set a. b \<noteq> 0" by auto
  ultimately show "nul_string p = Some (a, r)" by (simp add: nul_string_def takeWhile_append2 dropWhile_append2)
qed

abbreviation argv_enc :: "bytes list \<Rightarrow> bytes" where
  "argv_enc as \<equiv> concat (map (\<lambda>a. a @ [0]) as)"

lemma parse_argv_sound:
  "parse_argv ma k n p = Inr (as, r) \<Longrightarrow>
     length as = n \<and> p = argv_enc as @ r \<and> (\<forall>a\<in>set as. 0 \<notin> set a)"
  by (induction ma k n p arbitrary: as rule: parse_argv.induct)
    (auto simp: nul_string_iff split: option.splits if_splits sum.splits)

lemma parse_argv_complete:
  "\<forall>a\<in>set as. 0 \<notin> set a \<Longrightarrow> parse_argv mem_ok k (length as) (argv_enc as @ r) = Inr (as, r)"
proof (induction as arbitrary: k)
  case (Cons a as)
  have "nul_string (argv_enc (a # as) @ r) = Some (a, argv_enc as @ r)"
    using Cons.prems by (simp add: nul_string_iff)
  then show ?case using Cons by simp
qed simp

lemma length_argv_enc: "length as \<le> length (argv_enc as)"
  by (induction as) auto

text \<open>What can be stored: the lengths and the number of arguments fit their fields.\<close>

definition metadata_wf :: "tapemetadata \<Rightarrow> bool" where
  "metadata_wf mdat \<longleftrightarrow> 0 \<notin> set (tm_name mdat) \<and> 0 \<le> tm_argc mdat \<and> tm_argc mdat < 2147483648 \<and>
     nat (tm_argc mdat) \<le> length (tm_argv mdat) \<and>
     (\<forall>a\<in>set (take (nat (tm_argc mdat)) (tm_argv mdat)). 0 \<notin> set a) \<and> length (tm_indexhash mdat) = 32"

lemma sint_of_int_u32: "0 \<le> n \<Longrightarrow> n < 2147483648 \<Longrightarrow> sint (of_int n :: u32) = n"
  by (simp add: sint_sbintrunc' signed_take_bit_int_eq_self)

lemma metadata_dec_tail_iff:
  assumes "length sig = 256" "length h = 32"
    and "buf = b @ h @ le64enc n @ sig"
  shows "metadata_dec_tail cr mdat buf (h @ le64enc n @ sig) =
     (let v = cr_verify cr (b @ h @ le64enc n) sig
      in if v = -1 then Inl (-1) else if v = 1 then Inl 1
         else Inr (mdat\<lparr>tm_indexhash := h, tm_indexlen := n\<rparr>))"
  using assms by (simp add: metadata_dec_tail_def Let_def)

lemma metadata_dec_of_enc:
  assumes wf: "metadata_wf mdat" and sig: "length sig = 256"
  shows "multitape_metadata_dec mem_ok cr m0 (metadata_body mdat @ sig) =
     (let v = cr_verify cr (metadata_body mdat) sig
      in if v = -1 then Inl (-1) else if v = 1 then Inl 1
         else Inr (mdat\<lparr>tm_argv := take (nat (tm_argc mdat)) (tm_argv mdat), tm_metadatalen := tm_metadatalen m0\<rparr>))"
proof -
  let ?as = "take (nat (tm_argc mdat)) (tm_argv mdat)"
  let ?tail = "tm_indexhash mdat @ le64enc (tm_indexlen mdat) @ sig"
  let ?b = "tm_name mdat @ [0] @ le64enc (tm_ctime mdat) @ le32enc (of_int (tm_argc mdat)) @ argv_enc ?as"
  have h: "length (tm_indexhash mdat) = 32" "nat (tm_argc mdat) = length ?as"
    and n: "\<forall>a\<in>set ?as. 0 \<notin> set a" "0 \<notin> set (tm_name mdat)"
    and argc: "sint (of_int (tm_argc mdat) :: u32) = tm_argc mdat" "0 \<le> tm_argc mdat"
    using wf by (simp_all add: metadata_wf_def sint_of_int_u32)
  have buf: "metadata_body mdat @ sig = ?b @ ?tail" using h(1) by (simp add: metadata_body_def)
  have name: "nul_string (?b @ ?tail) = Some (tm_name mdat,
      le64enc (tm_ctime mdat) @ le32enc (of_int (tm_argc mdat)) @ argv_enc ?as @ ?tail)"
    using n(2) by (simp add: nul_string_iff)
  have argv: "parse_argv mem_ok 2 (nat (tm_argc mdat)) (argv_enc ?as @ ?tail) = Inr (?as, ?tail)"
    using parse_argv_complete [OF n(1), of 2 ?tail] h(2) by simp
  have fits: "\<not> (tm_argc mdat < 0 \<or> tm_argc mdat > int (length (argv_enc ?as @ ?tail)))"
    using length_argv_enc [of ?as] h(2) argc(2) by simp
  have tail: "metadata_dec_tail cr m (?b @ ?tail) ?tail =
     (let v = cr_verify cr (metadata_body mdat) sig
      in if v = -1 then Inl (-1) else if v = 1 then Inl 1
         else Inr (m\<lparr>tm_indexhash := tm_indexhash mdat, tm_indexlen := tm_indexlen mdat\<rparr>))" for m
    using metadata_dec_tail_iff [OF sig h(1), of "?b @ ?tail" ?b "tm_indexlen mdat" cr m] h(1)
    by (simp add: metadata_body_def)
  show ?thesis
    unfolding buf multitape_metadata_dec_def name option.case prod.case Let_def
    using argv fits tail by (simp add: argc(1))
qed

lemma metadata_dec_sound:
  assumes "multitape_metadata_dec ma cr m0 buf = Inr m"
  shows "\<exists>sig. length sig = 256 \<and> buf = metadata_body m @ sig \<and> metadata_wf m \<and>
    tm_argc m = int (length (tm_argv m)) \<and> cr_verify cr (metadata_body m) sig \<noteq> -1 \<and>
    cr_verify cr (metadata_body m) sig \<noteq> 1"
proof -
  obtain name p where name: "nul_string buf = Some (name, p)" "8 \<le> length p" "12 \<le> length p"
    using assms by (auto simp: multitape_metadata_dec_def Let_def split: option.splits if_splits)
  let ?argc = "sint (le32dec (drop 8 p))" and ?p = "drop 4 (drop 8 p)"
  obtain argv q where argc: "0 \<le> ?argc" and argv: "parse_argv ma 2 (nat ?argc) ?p = Inr (argv, q)"
    and tail: "metadata_dec_tail cr (m0\<lparr>tm_name := name, tm_ctime := le64dec p, tm_argc := ?argc,
                     tm_argv := argv\<rparr>) buf q = Inr m"
    using assms name
    by (auto simp: multitape_metadata_dec_def Let_def split: option.splits if_splits sum.splits)
  have a: "length argv = nat ?argc" "?p = argv_enc argv @ q" "\<forall>a\<in>set argv. 0 \<notin> set a"
    using parse_argv_sound [OF argv] by auto
  have n: "buf = name @ 0 # p" "0 \<notin> set name" using name(1) by (simp_all add: nul_string_iff)
  have q: "length q = 296" using tail by (auto simp: metadata_dec_tail_def Let_def split: if_splits)
  have m: "m = m0\<lparr>tm_name := name, tm_ctime := le64dec p, tm_argc := ?argc,
      tm_argv := argv, tm_indexhash := take 32 q, tm_indexlen := le64dec (drop 32 q)\<rparr>"
    and v: "cr_verify cr (take (length buf - 256) buf) (drop 40 q) \<notin> {-1, 1}"
    using tail q by (auto simp: metadata_dec_tail_def Let_def split: if_splits)
  have "p = take 8 p @ take 4 (drop 8 p) @ ?p" by (metis append_take_drop_id)
  also have "\<dots> = le64enc (le64dec p) @ le32enc (le32dec (drop 8 p)) @ argv_enc argv @ q"
    using name(3) a(2) by (simp add: le64enc_le64dec le32enc_le32dec)
  also have "le32dec (drop 8 p) = of_int ?argc" by simp
  finally have p: "p = le64enc (le64dec p) @ le32enc (of_int ?argc) @ argv_enc argv @ q" .
  have "q = take 32 q @ take 8 (drop 32 q) @ drop 8 (drop 32 q)" by (simp only: append_take_drop_id)
  then have q2: "q = take 32 q @ le64enc (le64dec (drop 32 q)) @ drop 40 q" using q by (simp add: le64enc_le64dec)
  have lt: "?argc < 2147483648" using sint_lt [of "le32dec (drop 8 p)"] by simp
  have body: "buf = metadata_body m @ drop 40 q"
    unfolding n(1) metadata_body_def m using a(1) q2 by (subst p) simp
  then have "take (length buf - 256) buf = metadata_body m" using q by simp
  then show ?thesis
    using body v q n(2) a(1,3) argc lt by (intro exI [of _ "drop 40 q"]) (auto simp: metadata_wf_def m)
qed

subsection \<open>Storing and reading back\<close>

text \<open>
  What the code relies on of the signatures, and of the storage layer: a file that was written
  with code 0 is read back as it was.  If calls may \<open>fail\<close>, they may also return -1.
\<close>

definition signatures_ok :: "bool \<Rightarrow> crypto \<Rightarrow> bool" where
  "signatures_ok fail cr \<longleftrightarrow>
     (\<forall>b sig. cr_sign cr b = Some sig \<longrightarrow>
        length sig = 256 \<and> (cr_verify cr b sig = 0 \<or> fail \<and> cr_verify cr b sig = -1))"

definition hmacs_ok :: "crypto \<Rightarrow> bool" where
  "hmacs_ok cr \<longleftrightarrow> (\<forall>key b. length (cr_hmac cr key b) = 32) \<and> (\<forall>b. length (cr_sha256 cr b) = 32)"

type_synonym files = "char \<times> bytes \<Rightarrow> bytes option"

definition wfile_ok :: "('s \<Rightarrow> files) \<Rightarrow> 's wfile \<Rightarrow> bool" where
  "wfile_ok files wfile \<longleftrightarrow>
     (\<forall>s buf c h s'. wfile s buf c h = (0, s') \<longrightarrow> files s' = (files s)((c, h) \<mapsto> buf))"

definition rfile_alloc_ok :: "bool \<Rightarrow> files \<Rightarrow> 'r rfile_alloc \<Rightarrow> bool" where
  "rfile_alloc_ok fail F rfile \<longleftrightarrow>
     (\<forall>r c h b. F (c, h) = Some b \<longrightarrow> fst (rfile r c h) = Inr b \<or> fail \<and> fst (rfile r c h) = Inl (-1))"

lemma hash_length:
  "hmacs_ok cr \<Longrightarrow> crypto_hash_data cr key b = Some h \<Longrightarrow> length h = 32"
  by (auto simp: hmacs_ok_def crypto_hash_data_def crypto_hash_data_2_def crypto_hash_data_key_2_def
      split: if_splits option.splits)

text \<open>The encoder asserts less than 2 ^ 32 arguments, the decoder takes a number from 2 ^ 31 on to be
  negative and the file to be corrupt, which \<^const>\<open>metadata_wf\<close> excludes.\<close>

lemma metadata_put_get:
  assumes put: "multitape_metadata_put ma cr wfile S C mdat = Some (0, S', C')"
    and cr: "signatures_ok fail cr" "hmacs_ok cr" and wf: "metadata_wf mdat"
    and store: "wfile_ok files wfile" "rfile_alloc_ok fail (files S') rfile"
  shows "\<exists>res r'. multitape_metadata_get_byname mem_ok cr rfile r None m0 (tm_name mdat) = (res, r', None) \<and>
    (fail \<and> res = Inl (-1) \<or>
     (\<exists>len. res = Inr (mdat\<lparr>tm_argv := take (nat (tm_argc mdat)) (tm_argv mdat), tm_metadatalen := len\<rparr>) \<and>
        C' = chunks_write_extrastats C len))"
proof -
  obtain sig h where enc: "multitape_metadata_enc ma cr mdat = Some (Some (metadata_body mdat @ sig))"
    and sig: "cr_sign cr (metadata_body mdat) = Some sig"
    and h: "crypto_hash_data cr CRYPTO_KEY_HMAC_NAME (tm_name mdat) = Some h"
    and w: "wfile S (metadata_body mdat @ sig) (CHR ''m'') h = (0, S')"
    and C': "C' = chunks_write_extrastats C (length (metadata_body mdat @ sig))"
    using put by (auto simp: multitape_metadata_put_def multitape_metadata_enc_def
        split: option.splits prod.splits if_splits)
  have s: "length sig = 256" "cr_verify cr (metadata_body mdat) sig = 0 \<or> fail \<and> cr_verify cr (metadata_body mdat) sig = -1"
    using cr(1) sig by (auto simp: signatures_ok_def)
  have "files S' (CHR ''m'', h) = Some (metadata_body mdat @ sig)" using store(1) w by (simp add: wfile_ok_def)
  then have r: "fst (rfile r (CHR ''m'') h) = Inr (metadata_body mdat @ sig) \<or> fail \<and> fst (rfile r (CHR ''m'') h) = Inl (-1)"
    using store(2) by (simp add: rfile_alloc_ok_def)
  obtain r' where r': "rfile r (CHR ''m'') h = (fst (rfile r (CHR ''m'') h), r')" by (metis prod.collapse)
  have v: "crypto_verify_bytes h h 32 = 0"
    using hash_length [OF cr(2) h] by (simp add: crypto_verify_bytes_zero)
  let ?m = "mdat\<lparr>tm_argv := take (nat (tm_argc mdat)) (tm_argv mdat), tm_metadatalen := tm_metadatalen m0\<rparr>"
  have dec: "multitape_metadata_dec mem_ok cr m0 (metadata_body mdat @ sig) = Inr ?m \<or>
      fail \<and> multitape_metadata_dec mem_ok cr m0 (metadata_body mdat @ sig) = Inl (-1)"
    using metadata_dec_of_enc [OF wf s(1)] s(2) by (auto simp: Let_def)
  have len: "C' = chunks_write_extrastats C (length (metadata_body mdat) + 256)" using C' s(1) by simp
  show ?thesis
    using r r' h v dec s(1) unfolding len
    by (auto simp: multitape_metadata_get_byname_def multitape_metadata_get_def Let_def
        intro!: exI [of _ "length (metadata_body mdat) + 256"])
qed

subsection \<open>Properties\<close>

text \<open>C23: Metadata are accepted only as they were signed: a file that the decoder accepts is, byte
  for byte, the encoding of what the decoder returns followed by a signature that was verified for
  exactly these bytes; the result is well formed, and has as many arguments as it says.\<close>

theorem metadata_dec_exact:
  assumes "multitape_metadata_dec ma cr m0 buf = Inr m"
  shows "\<exists>sig. length sig = 256 \<and> buf = metadata_body m @ sig \<and> metadata_wf m \<and>
    tm_argc m = int (length (tm_argv m)) \<and> cr_verify cr (metadata_body m) sig \<noteq> -1 \<and>
    cr_verify cr (metadata_body m) sig \<noteq> 1"
  using assms by (rule metadata_dec_sound)

text \<open>An instance: names hash to themselves padded with zeroes, signatures are constant.\<close>

definition toy_crypto :: crypto where
  "toy_crypto =
     \<lparr>cr_sha256 = \<lambda>b. take 32 (b @ replicate 32 0), cr_hmac = \<lambda>key b. take 32 (b @ replicate 32 0),
      cr_keys = \<lambda>_. Some [], cr_sign = \<lambda>b. Some (replicate 256 7),
      cr_verify = \<lambda>b sig. if sig = replicate 256 7 then 0 else 1\<rparr>"

definition toy_metadata :: tapemetadata where
  "toy_metadata =
     \<lparr>tm_name = [104, 105], tm_ctime = 5, tm_argc = 2, tm_argv = [[45, 99], [], [1]],
      tm_indexhash = replicate 32 3, tm_indexlen = 12, tm_metadatalen = 0\<rparr>"

lemma toy_crypto_ok: "signatures_ok fail toy_crypto" "hmacs_ok toy_crypto"
  by (auto simp: signatures_ok_def hmacs_ok_def toy_crypto_def)

lemma toy_metadata_wf: "metadata_wf toy_metadata"
  by (simp add: metadata_wf_def toy_metadata_def)

type_synonym toy_store = "((char \<times> bytes) \<times> bytes) list"

definition toy_wfile :: "toy_store wfile" where
  "toy_wfile s buf c h = (0, ((c, h), buf) # s)"

definition toy_rfile_alloc :: "toy_store rfile_alloc" where
  "toy_rfile_alloc s c h = (case map_of s (c, h) of None \<Rightarrow> (Inl 1, s) | Some b \<Rightarrow> (Inr b, s))"

lemma toy_wfile_ok: "wfile_ok map_of toy_wfile"
  by (simp add: wfile_ok_def toy_wfile_def)

lemma metadata_dec_exact_witness:
  "\<exists>m sig. multitape_metadata_dec mem_ok toy_crypto toy_metadata (metadata_body toy_metadata @ replicate 256 7) = Inr m \<and>
     metadata_body toy_metadata @ replicate 256 7 = metadata_body m @ sig \<and> length sig = 256"
proof -
  have "length (replicate 256 (7 :: u8)) = 256" by simp
  from metadata_dec_of_enc [OF toy_metadata_wf this, of toy_crypto toy_metadata]
  obtain m where m: "multitape_metadata_dec mem_ok toy_crypto toy_metadata (metadata_body toy_metadata @ replicate 256 7) = Inr m"
    by (auto simp: toy_crypto_def Let_def)
  from metadata_dec_exact [OF m] show ?thesis using m by blast
qed

end
