(* ===== verification/Tape_Metaindex.thy ===== *)
theory Tape_Metaindex
  imports Tape_Metadata
begin

text \<open>
  \<^verbatim>\<open>tar/multitape/multitape_metaindex.c\<close>: the three stream indexes of an archive, stored in
  fragments of \<^verbatim>\<open>MAXIFRAG\<close> bytes.
\<close>

definition MAXCHUNK :: nat where "MAXCHUNK = 261120"
definition MAXIFRAG :: nat where "MAXIFRAG = MAXCHUNK"

record tapemetaindex =
  mi_hindex :: bytes
  mi_cindex :: bytes
  mi_tindex :: bytes

lemma MAXIFRAG_pos [simp]: "0 < MAXIFRAG"
  by (simp add: MAXIFRAG_def MAXCHUNK_def)

subsection \<open>Storing\<close>

text \<open>SHA256 does not fail; the code would exit.\<close>

definition multitape_metaindex_fragname :: "crypto \<Rightarrow> bytes \<Rightarrow> u32 \<Rightarrow> bytes" where
  "multitape_metaindex_fragname cr namehash fragnum =
     the (crypto_hash_data_2 cr CRYPTO_KEY_HMAC_SHA256 namehash (le32enc fragnum))"

definition frag_length :: "nat \<Rightarrow> nat \<Rightarrow> nat" where
  "frag_length indexlen fragnum =
     (let fraglen = indexlen - fragnum * MAXIFRAG in if fraglen > MAXIFRAG then MAXIFRAG else fraglen)"

function put_frags :: "crypto \<Rightarrow> 's wfile \<Rightarrow> bytes \<Rightarrow> bytes \<Rightarrow> nat \<Rightarrow> 's \<Rightarrow> chunks_w \<Rightarrow> int \<times> 's \<times> chunks_w" where
  "put_frags cr wfile hbuf buf fragnum S C =
     (if fragnum * MAXIFRAG < length buf
      then let fraglen = frag_length (length buf) fragnum in
        case wfile S (take fraglen (drop (fragnum * MAXIFRAG) buf)) (CHR ''i'')
               (multitape_metaindex_fragname cr hbuf (of_nat fragnum)) of (rc, S) \<Rightarrow>
          if rc \<noteq> 0 then (-1, S, C)
          else put_frags cr wfile hbuf buf (fragnum + 1) S (chunks_write_extrastats C fraglen)
      else (0, S, C))"
  by auto
termination
  by (relation "measure (\<lambda>(cr, wfile, hbuf, buf, fragnum, S, C). length buf - fragnum * MAXIFRAG)") (auto simp: MAXIFRAG_def MAXCHUNK_def)

declare put_frags.simps [simp del]

definition metaindex_enc :: "tapemetaindex \<Rightarrow> bytes" where
  "metaindex_enc mind =
     le32enc (of_nat (length (mi_hindex mind))) @ mi_hindex mind @
     le32enc (of_nat (length (mi_cindex mind))) @ mi_cindex mind @
     le32enc (of_nat (length (mi_tindex mind))) @ mi_tindex mind"

definition multitape_metaindex_put :: "bool \<Rightarrow> crypto \<Rightarrow> 's wfile \<Rightarrow> 's \<Rightarrow> chunks_w \<Rightarrow> tapemetaindex
    \<Rightarrow> tapemetadata \<Rightarrow> int \<times> 's \<times> chunks_w \<times> tapemetadata" where
  "multitape_metaindex_put ma cr wfile S C mind mdat =
     (if length (mi_hindex mind) > UINT32_MAX \<or> length (mi_cindex mind) > UINT32_MAX \<or>
         length (mi_tindex mind) > UINT32_MAX then (-1, S, C, mdat)
      else if 12 + length (mi_hindex mind) + length (mi_cindex mind) + length (mi_tindex mind) > SIZE_MAX
      then (-1, S, C, mdat)
      else if \<not> ma then (-1, S, C, mdat)
      else let buf = metaindex_enc mind in
        case crypto_hash_data cr CRYPTO_KEY_HMAC_NAME (tm_name mdat) of
          None \<Rightarrow> (-1, S, C, mdat)
        | Some hbuf \<Rightarrow>
            (case put_frags cr wfile hbuf buf 0 S C of (rc, S, C) \<Rightarrow>
               if rc \<noteq> 0 then (-1, S, C, mdat)
               else case crypto_hash_data cr CRYPTO_KEY_HMAC_SHA256 buf of
                      None \<Rightarrow> (-1, S, C, mdat)
                    | Some h \<Rightarrow>
                        (0, S, C, mdat\<lparr>tm_indexhash := h, tm_indexlen := of_nat (length buf)\<rparr>)))"

subsection \<open>Reading\<close>

function get_frags :: "crypto \<Rightarrow> 'r rfile \<Rightarrow> bytes \<Rightarrow> nat \<Rightarrow> nat \<Rightarrow> bytes \<Rightarrow> 'r \<Rightarrow> chunks_s option
    \<Rightarrow> (int + bytes) \<times> 'r \<times> chunks_s option" where
  "get_frags cr rfile hbuf indexlen fragnum mbuf S C =
     (if fragnum * MAXIFRAG < indexlen
      then let fraglen = frag_length indexlen fragnum in
        case rfile S fraglen (CHR ''i'') (multitape_metaindex_fragname cr hbuf (of_nat fragnum)) of
          (Inl rc, S) \<Rightarrow> (Inl rc, S, C)
        | (Inr b, S) \<Rightarrow>
            get_frags cr rfile hbuf indexlen (fragnum + 1) (mbuf @ b) S
              (map_option (\<lambda>C. chunks_stats_extrastats C fraglen) C)
      else (Inr mbuf, S, C))"
  by auto
termination
  by (relation "measure (\<lambda>(cr, rfile, hbuf, indexlen, fragnum, mbuf, S, C). indexlen - fragnum * MAXIFRAG)") (auto simp: MAXIFRAG_def MAXCHUNK_def)

declare get_frags.simps [simp del]

text \<open>One stream index: its length, a check, a copy.\<close>

definition index_dec :: "bool \<Rightarrow> bytes \<Rightarrow> int + bytes \<times> bytes" where
  "index_dec ma buf =
     (if length buf < 4 then Inl 2
      else let len = unat (le32dec buf); buf = drop 4 buf in
      if length buf < len then Inl 2
      else if \<not> ma \<and> len > 0 then Inl (-1)
      else Inr (take len buf, drop len buf))"

definition metaindex_dec :: "mem \<Rightarrow> bytes \<Rightarrow> int + tapemetaindex" where
  "metaindex_dec ma mbuf =
     (case index_dec (ma 0) mbuf of Inl rc \<Rightarrow> Inl rc | Inr (h, buf) \<Rightarrow>
     (case index_dec (ma 1) buf of Inl rc \<Rightarrow> Inl rc | Inr (c, buf) \<Rightarrow>
     (case index_dec (ma 2) buf of Inl rc \<Rightarrow> Inl rc | Inr (t, buf) \<Rightarrow>
        if length buf \<noteq> 0 then Inl 2 else Inr \<lparr>mi_hindex = h, mi_cindex = c, mi_tindex = t\<rparr>)))"

definition multitape_metaindex_get :: "mem \<Rightarrow> crypto \<Rightarrow> 'r rfile \<Rightarrow> 'r \<Rightarrow> chunks_s option
    \<Rightarrow> tapemetadata \<Rightarrow> (int + tapemetaindex) \<times> 'r \<times> chunks_s option" where
  "multitape_metaindex_get ma cr rfile S C mdat =
     (case crypto_hash_data cr CRYPTO_KEY_HMAC_NAME (tm_name mdat) of
        None \<Rightarrow> (Inl (-1), S, C)
      | Some hbuf \<Rightarrow>
          if \<not> ma 0 then (Inl (-1), S, C)
          else case get_frags cr rfile hbuf (unat (tm_indexlen mdat)) 0 [] S C of
                 (Inl rc, S, C) \<Rightarrow> (Inl rc, S, C)
               | (Inr mbuf, S, C) \<Rightarrow>
                   (case crypto_hash_data cr CRYPTO_KEY_HMAC_SHA256 mbuf of
                      None \<Rightarrow> (Inl (-1), S, C)
                    | Some indexhbuf \<Rightarrow>
                        if crypto_verify_bytes (tm_indexhash mdat) indexhbuf 32 \<noteq> 0 then (Inl 2, S, C)
                        else (metaindex_dec (\<lambda>k. ma (Suc k)) mbuf, S, C)))"

subsection \<open>Deleting\<close>

function delete_frags :: "crypto \<Rightarrow> 's dfile \<Rightarrow> bytes \<Rightarrow> nat \<Rightarrow> nat \<Rightarrow> 's \<Rightarrow> chunks_d \<Rightarrow> int \<times> 's \<times> chunks_d" where
  "delete_frags cr dfile hbuf indexlen fragnum S C =
     (if fragnum * MAXIFRAG < indexlen
      then let fraglen = frag_length indexlen fragnum in
        case dfile S (CHR ''i'') (multitape_metaindex_fragname cr hbuf (of_nat fragnum)) of (rc, S) \<Rightarrow>
          if rc \<noteq> 0 then (-1, S, C)
          else delete_frags cr dfile hbuf indexlen (fragnum + 1) S (chunks_delete_extrastats C fraglen)
      else (0, S, C))"
  by auto
termination
  by (relation "measure (\<lambda>(cr, dfile, hbuf, indexlen, fragnum, S, C). indexlen - fragnum * MAXIFRAG)") (auto simp: MAXIFRAG_def MAXCHUNK_def)

declare delete_frags.simps [simp del]

definition multitape_metaindex_delete :: "crypto \<Rightarrow> 's dfile \<Rightarrow> 's \<Rightarrow> chunks_d \<Rightarrow> tapemetadata
    \<Rightarrow> int \<times> 's \<times> chunks_d" where
  "multitape_metaindex_delete cr dfile S C mdat =
     (case crypto_hash_data cr CRYPTO_KEY_HMAC_NAME (tm_name mdat) of
        None \<Rightarrow> (-1, S, C)
      | Some hbuf \<Rightarrow> delete_frags cr dfile hbuf (unat (tm_indexlen mdat)) 0 S C)"

subsection \<open>Fragments\<close>

abbreviation fragment :: "bytes \<Rightarrow> nat \<Rightarrow> bytes" where
  "fragment buf n \<equiv> take (frag_length (length buf) n) (drop (n * MAXIFRAG) buf)"

lemma length_fragment: "n * MAXIFRAG < length buf \<Longrightarrow> length (fragment buf n) = frag_length (length buf) n"
  by (simp add: frag_length_def Let_def)

lemma fragment_next:
  assumes "n * MAXIFRAG < length buf"
  shows "take (n * MAXIFRAG) buf @ fragment buf n = take (Suc n * MAXIFRAG) buf"
proof (cases "length buf - n * MAXIFRAG > MAXIFRAG")
  case True
  then show ?thesis using take_add [of "n * MAXIFRAG" MAXIFRAG buf] by (simp add: frag_length_def add.commute)
next
  case False
  then have "take (Suc n * MAXIFRAG) buf = buf" by simp
  then show ?thesis using False by (simp add: frag_length_def)
qed

abbreviation frag_file :: "crypto \<Rightarrow> bytes \<Rightarrow> nat \<Rightarrow> char \<times> bytes" where
  "frag_file cr hbuf n \<equiv> (CHR ''i'', multitape_metaindex_fragname cr hbuf (of_nat n))"

text \<open>No two fragments of the index have the same name.\<close>

definition frag_names_ok :: "crypto \<Rightarrow> bytes \<Rightarrow> nat \<Rightarrow> bool" where
  "frag_names_ok cr hbuf len \<longleftrightarrow> inj_on (frag_file cr hbuf) {n. n * MAXIFRAG < len}"

lemma put_frags_files:
  assumes w: "wfile_ok files wfile" and names: "frag_names_ok cr hbuf (length buf)"
  shows "put_frags cr wfile hbuf buf n S C = (0, S', C') \<Longrightarrow>
    (\<forall>m\<ge>n. m * MAXIFRAG < length buf \<longrightarrow> files S' (frag_file cr hbuf m) = Some (fragment buf m)) \<and>
    (\<forall>k. (\<forall>m\<ge>n. m * MAXIFRAG < length buf \<longrightarrow> k \<noteq> frag_file cr hbuf m) \<longrightarrow> files S' k = files S k)"
proof (induction "length buf - n * MAXIFRAG" arbitrary: n S C rule: less_induct)
  case less
  show ?case
  proof (cases "n * MAXIFRAG < length buf")
    case False
    then have "S' = S" using less.prems by (simp add: put_frags.simps)
    moreover have "\<not> m * MAXIFRAG < length buf" if "n \<le> m" for m
      using False mult_le_mono1 [OF that, of MAXIFRAG] by linarith
    ultimately show ?thesis by simp
  next
    case True
    obtain S1 where S1: "wfile S (fragment buf n) (CHR ''i'') (multitape_metaindex_fragname cr hbuf (of_nat n)) = (0, S1)"
      and rest: "put_frags cr wfile hbuf buf (n + 1) S1 (chunks_write_extrastats C (frag_length (length buf) n)) = (0, S', C')"
      using less.prems True by (subst (asm) put_frags.simps) (auto simp: Let_def split: prod.splits if_splits)
    have f1: "files S1 = (files S)(frag_file cr hbuf n \<mapsto> fragment buf n)" using w S1 by (simp add: wfile_ok_def)
    have smaller: "length buf - (n + 1) * MAXIFRAG < length buf - n * MAXIFRAG"
      using True by (simp add: MAXIFRAG_def MAXCHUNK_def)
    from less.hyps [OF smaller rest]
    have later: "\<And>m. n + 1 \<le> m \<Longrightarrow> m * MAXIFRAG < length buf \<Longrightarrow> files S' (frag_file cr hbuf m) = Some (fragment buf m)"
      and other: "\<And>k. (\<And>m. n + 1 \<le> m \<Longrightarrow> m * MAXIFRAG < length buf \<Longrightarrow> k \<noteq> frag_file cr hbuf m) \<Longrightarrow> files S' k = files S1 k"
      by blast+
    have "frag_file cr hbuf n \<noteq> frag_file cr hbuf m" if "n + 1 \<le> m" "m * MAXIFRAG < length buf" for m
    proof
      assume "frag_file cr hbuf n = frag_file cr hbuf m"
      then have "n = m" using names True that(2) unfolding frag_names_ok_def by (auto dest: inj_onD)
      then show False using that(1) by simp
    qed
    then have own: "files S' (frag_file cr hbuf n) = Some (fragment buf n)" using other f1 by simp
    show ?thesis
    proof (intro conjI allI impI)
      fix m assume "n \<le> m" "m * MAXIFRAG < length buf"
      then show "files S' (frag_file cr hbuf m) = Some (fragment buf m)"
        using own later by (cases "m = n") auto
    next
      fix k assume k: "\<forall>m\<ge>n. m * MAXIFRAG < length buf \<longrightarrow> k \<noteq> frag_file cr hbuf m"
      then have "files S' k = files S1 k" by (intro other) auto
      also have "\<dots> = files S k" using k True f1 by auto
      finally show "files S' k = files S k" .
    qed
  qed
qed

definition rfile_ok :: "bool \<Rightarrow> files \<Rightarrow> 'r rfile \<Rightarrow> bool" where
  "rfile_ok fail F rfile \<longleftrightarrow>
     (\<forall>r c h b. F (c, h) = Some b \<longrightarrow>
        fst (rfile r (length b) c h) = Inr b \<or> fail \<and> fst (rfile r (length b) c h) = Inl (-1))"

text \<open>The value \<open>x\<close>, or an error if calls may fail.\<close>

definition value_or_fail :: "bool \<Rightarrow> 'a \<Rightarrow> (int + 'a) \<Rightarrow> bool" where
  "value_or_fail fail x res \<longleftrightarrow> res = Inr x \<or> fail \<and> res = Inl (-1)"

lemma get_frags_files:
  assumes r: "rfile_ok fail F rfile"
    and F: "\<And>m. m * MAXIFRAG < length buf \<Longrightarrow> F (frag_file cr hbuf m) = Some (fragment buf m)"
  shows "value_or_fail fail buf (fst (get_frags cr rfile hbuf (length buf) n (take (n * MAXIFRAG) buf) S C))"
proof (induction "length buf - n * MAXIFRAG" arbitrary: n S C rule: less_induct)
  case less
  show ?case
  proof (cases "n * MAXIFRAG < length buf")
    case False
    then show ?thesis by (subst get_frags.simps) (simp add: value_or_fail_def)
  next
    case True
    obtain x S1 where S1: "rfile S (frag_length (length buf) n) (CHR ''i'') (multitape_metaindex_fragname cr hbuf (of_nat n)) = (x, S1)"
      by fastforce
    have x: "x = Inr (fragment buf n) \<or> fail \<and> x = Inl (-1)"
      using r F [OF True] S1 length_fragment [OF True] unfolding rfile_ok_def by (metis fst_conv)
    have smaller: "length buf - (n + 1) * MAXIFRAG < length buf - n * MAXIFRAG"
      using True by (simp add: MAXIFRAG_def MAXCHUNK_def)
    let ?C = "map_option (\<lambda>C. chunks_stats_extrastats C (frag_length (length buf) n)) C"
    have "value_or_fail fail buf (fst (get_frags cr rfile hbuf (length buf) (n + 1) (take (Suc n * MAXIFRAG) buf) S1 ?C))"
      using less.hyps [OF smaller, of S1 ?C] by simp
    then show ?thesis
      using x True S1 fragment_next [OF True] by (subst get_frags.simps) (auto simp: Let_def value_or_fail_def)
  qed
qed

lemma get_frags_length:
  "get_frags cr rfile hbuf len n mbuf S C = (Inr out, S', C') \<Longrightarrow>
     (\<And>r n c h b r'. rfile r n c h = (Inr b, r') \<Longrightarrow> length b = n) \<Longrightarrow>
     length out = length mbuf + (len - n * MAXIFRAG)"
proof (induction "len - n * MAXIFRAG" arbitrary: n mbuf S C rule: less_induct)
  case less
  show ?case
  proof (cases "n * MAXIFRAG < len")
    case False
    then show ?thesis using less.prems(1) by (subst (asm) get_frags.simps) simp
  next
    case True
    obtain b S1 C1 where b: "rfile S (frag_length len n) (CHR ''i'') (multitape_metaindex_fragname cr hbuf (of_nat n)) = (Inr b, S1)"
      and rest: "get_frags cr rfile hbuf len (n + 1) (mbuf @ b) S1 C1 = (Inr out, S', C')"
      using less.prems(1) True by (subst (asm) get_frags.simps) (auto simp: Let_def split: prod.splits sum.splits)
    have smaller: "len - (n + 1) * MAXIFRAG < len - n * MAXIFRAG" using True by (simp add: MAXIFRAG_def MAXCHUNK_def)
    have "length b = frag_length len n" using less.prems(2) [OF b] .
    moreover have "length out = length (mbuf @ b) + (len - (n + 1) * MAXIFRAG)"
      using less.hyps [OF smaller rest less.prems(2)] .
    ultimately show ?thesis using True by (simp add: frag_length_def Let_def split: if_splits)
  qed
qed

subsection \<open>Parsing\<close>

lemma index_dec_sound:
  "index_dec ma buf = Inr (x, r) \<Longrightarrow> buf = le32enc (of_nat (length x)) @ x @ r \<and> length x \<le> UINT32_MAX"
proof -
  assume "index_dec ma buf = Inr (x, r)"
  then have l: "4 \<le> length buf" "unat (le32dec buf) \<le> length (drop 4 buf)"
    and x: "x = take (unat (le32dec buf)) (drop 4 buf)" and r: "r = drop (unat (le32dec buf)) (drop 4 buf)"
    by (auto simp: index_dec_def Let_def split: if_splits)
  have "length x = unat (le32dec buf)" using l(2) x by simp
  moreover have "buf = take 4 buf @ x @ r" unfolding x r by (simp only: append_take_drop_id)
  moreover have "unat (le32dec buf) \<le> UINT32_MAX"
    using unat_u32_less [of "le32dec buf"] by (simp del: unat_u32_less)
  ultimately show ?thesis using le32enc_le32dec [OF l(1)] by simp
qed

lemma index_dec_complete:
  "length x \<le> UINT32_MAX \<Longrightarrow> index_dec True (le32enc (of_nat (length x)) @ x @ r) = Inr (x, r)"
  by (simp add: index_dec_def Let_def unat_of_nat)

lemma metaindex_dec_sound: "metaindex_dec ma buf = Inr mind \<Longrightarrow> buf = metaindex_enc mind"
  by (auto simp: metaindex_dec_def metaindex_enc_def dest!: index_dec_sound split: sum.splits prod.splits if_splits)

lemma metaindex_dec_complete:
  assumes "length (mi_hindex mind) \<le> UINT32_MAX" "length (mi_cindex mind) \<le> UINT32_MAX"
    "length (mi_tindex mind) \<le> UINT32_MAX"
  shows "metaindex_dec mem_ok (metaindex_enc mind) = Inr mind"
  using index_dec_complete [OF assms(3), of "[]"] assms
  by (simp add: metaindex_dec_def metaindex_enc_def index_dec_complete)

lemma length_metaindex_enc:
  "length (metaindex_enc mind) = 12 + length (mi_hindex mind) + length (mi_cindex mind) + length (mi_tindex mind)"
  by (simp add: metaindex_enc_def)

lemma metaindex_put_get:
  assumes put: "multitape_metaindex_put ma cr wfile S C mind mdat = (0, S', C', mdat')"
    and cr: "hmacs_ok cr" and h: "crypto_hash_data cr CRYPTO_KEY_HMAC_NAME (tm_name mdat) = Some h"
    and names: "frag_names_ok cr h (length (metaindex_enc mind))"
    and store: "wfile_ok files wfile" "rfile_ok fail F rfile" "\<And>n. F (CHR ''i'', n) = files S' (CHR ''i'', n)"
    and m: "tm_name m = tm_name mdat" "tm_indexhash m = tm_indexhash mdat'" "tm_indexlen m = tm_indexlen mdat'"
  shows "value_or_fail fail mind (fst (multitape_metaindex_get mem_ok cr rfile r C0 m))"
proof -
  let ?buf = "metaindex_enc mind"
  have lens: "length (mi_hindex mind) \<le> UINT32_MAX" "length (mi_cindex mind) \<le> UINT32_MAX"
    "length (mi_tindex mind) \<le> UINT32_MAX"
    and frags: "put_frags cr wfile h ?buf 0 S C = (0, S', C')"
    and mdat': "tm_indexhash mdat' = cr_sha256 cr ?buf" "tm_indexlen mdat' = of_nat (length ?buf)"
    using put h by (auto simp: multitape_metaindex_put_def Let_def split: if_splits prod.splits)
  have "length ?buf < 18446744073709551616" using lens by (simp add: length_metaindex_enc)
  then have len: "unat (tm_indexlen m) = length ?buf" by (simp add: m mdat' unat_of_nat)
  have "F (frag_file cr h n) = Some (fragment ?buf n)" if "n * MAXIFRAG < length ?buf" for n
    using put_frags_files [OF store(1) names frags] that store(3) by auto
  from get_frags_files [OF store(2) this, of 0 r C0]
  have g: "value_or_fail fail ?buf (fst (get_frags cr rfile h (length ?buf) 0 [] r C0))" by simp
  obtain x r1 C1 where x: "get_frags cr rfile h (length ?buf) 0 [] r C0 = (x, r1, C1)" by (metis prod_cases3)
  have v: "crypto_verify_bytes (tm_indexhash m) (cr_sha256 cr ?buf) 32 = 0"
    using cr by (simp add: m mdat' hmacs_ok_def crypto_verify_bytes_zero)
  show ?thesis
    using g x h v metaindex_dec_complete [OF lens]
    by (auto simp: multitape_metaindex_get_def value_or_fail_def m(1) len)
qed

text \<open>The index and then the metadata are stored; \<open>mdat1\<close> are the metadata with the hash of the index.\<close>

lemma description_back:
  assumes index: "multitape_metaindex_put ma cr wfile S C mind mdat = (0, S1, C1, mdat1)"
    and meta: "multitape_metadata_put ma' cr wfile S1 C1 mdat1 = Some (0, S2, C2)"
    and cr: "signatures_ok fail cr" "hmacs_ok cr" and wf: "metadata_wf mdat1"
    and h: "crypto_hash_data cr CRYPTO_KEY_HMAC_NAME (tm_name mdat) = Some h"
    and names: "frag_names_ok cr h (length (metaindex_enc mind))"
    and store: "wfile_ok files wfile" "rfile_alloc_ok fail (files S2) ralloc" "rfile_ok fail (files S2) rfile"
  shows "\<exists>res r'. multitape_metadata_get_byname mem_ok cr ralloc r None m0 (tm_name mdat) = (res, r', None) \<and>
    (fail \<and> res = Inl (-1) \<or>
     (\<exists>m. res = Inr m \<and> tm_name m = tm_name mdat \<and> tm_ctime m = tm_ctime mdat \<and>
        tm_argc m = tm_argc mdat \<and> tm_argv m = take (nat (tm_argc mdat)) (tm_argv mdat) \<and>
        tm_indexlen m = of_nat (length (metaindex_enc mind)) \<and>
        (\<forall>r. value_or_fail fail mind (fst (multitape_metaindex_get mem_ok cr rfile r C0 m)))))"
proof -
  let ?buf = "metaindex_enc mind"
  have m1: "mdat1 = mdat\<lparr>tm_indexhash := cr_sha256 cr ?buf, tm_indexlen := of_nat (length ?buf)\<rparr>"
    using index h by (auto simp: multitape_metaindex_put_def Let_def split: if_splits prod.splits)
  obtain buf where w: "wfile S1 buf (CHR ''m'') h = (0, S2)"
    using meta h by (auto simp: multitape_metadata_put_def m1 split: option.splits prod.splits if_splits)
  have keep: "files S2 (CHR ''i'', n) = files S1 (CHR ''i'', n)" for n
    using store(1) w by (simp add: wfile_ok_def)
  obtain res r' where res: "multitape_metadata_get_byname mem_ok cr ralloc r None m0 (tm_name mdat) = (res, r', None)"
    "fail \<and> res = Inl (-1) \<or>
     (\<exists>len. res = Inr (mdat1\<lparr>tm_argv := take (nat (tm_argc mdat1)) (tm_argv mdat1), tm_metadatalen := len\<rparr>))"
    using metadata_put_get [OF meta cr wf store(1,2), of r m0] by (auto simp: m1)
  have "value_or_fail fail mind (fst (multitape_metaindex_get mem_ok cr rfile r C0
      (mdat1\<lparr>tm_argv := take (nat (tm_argc mdat1)) (tm_argv mdat1), tm_metadatalen := len\<rparr>)))" for len r
    by (rule metaindex_put_get [OF index cr(2) h names store(1,3) keep]) (simp_all add: m1)
  then show ?thesis using res by (auto simp: m1)
qed

lemma index_put_metadata:
  assumes "multitape_metaindex_put ma cr wfile S C mind mdat = (0, S1, C1, mdat1)"
  shows "mdat1 = mdat\<lparr>tm_indexhash := cr_sha256 cr (metaindex_enc mind), tm_indexlen := of_nat (length (metaindex_enc mind))\<rparr>"
    "length (mi_hindex mind) \<le> UINT32_MAX" "length (mi_cindex mind) \<le> UINT32_MAX" "length (mi_tindex mind) \<le> UINT32_MAX"
  using assms by (auto simp: multitape_metaindex_put_def Let_def split: if_splits prod.splits option.splits)

subsection \<open>Properties\<close>

text \<open>C22: The description of an archive survives: when \<^verbatim>\<open>flushtape\<close> has stored the index and then
  the metadata, a reader that looks the archive up by its name gets the name, the creation time and
  the arguments back, and with these metadata (which have the length of the index) exactly the three stream indexes; when calls of the
  storage layer and the signature check may fail, the only other outcome is an error (-1).  The
  hypotheses: signatures verify, hashes have 32 bytes, the fragments of this index have different
  names, files that were stored are read back.\<close>

theorem description_roundtrip:
  assumes index: "multitape_metaindex_put ma cr wfile S C mind mdat = (0, S1, C1, mdat1)"
    and meta: "multitape_metadata_put ma' cr wfile S1 C1 mdat1 = Some (0, S2, C2)"
    and cr: "signatures_ok fail cr" "hmacs_ok cr" and wf: "metadata_wf mdat1"
    and h: "crypto_hash_data cr CRYPTO_KEY_HMAC_NAME (tm_name mdat) = Some h"
    and names: "frag_names_ok cr h (length (metaindex_enc mind))"
    and store: "wfile_ok files wfile" "rfile_alloc_ok fail (files S2) ralloc" "rfile_ok fail (files S2) rfile"
  shows "\<exists>res r'. multitape_metadata_get_byname mem_ok cr ralloc r None m0 (tm_name mdat) = (res, r', None) \<and>
    (fail \<and> res = Inl (-1) \<or>
     (\<exists>m. res = Inr m \<and> tm_name m = tm_name mdat \<and> tm_ctime m = tm_ctime mdat \<and>
        tm_argc m = tm_argc mdat \<and> tm_argv m = take (nat (tm_argc mdat)) (tm_argv mdat) \<and>
        tm_indexlen m = of_nat (length (metaindex_enc mind)) \<and>
        (\<forall>r. value_or_fail fail mind (fst (multitape_metaindex_get mem_ok cr rfile r C0 m)))))"
  by (rule description_back [OF assms])

text \<open>C24: Whatever the server answers, an index is only accepted as the one that was signed: it
  has the hash and the length of the metadata, and its encoding is the whole file.\<close>

definition rfile_sized :: "'r rfile \<Rightarrow> bool" where
  "rfile_sized rfile \<longleftrightarrow> (\<forall>r n c h b r'. rfile r n c h = (Inr b, r') \<longrightarrow> length b = n)"

theorem metaindex_get_exact:
  assumes get: "multitape_metaindex_get ma cr rfile r C mdat = (Inr mind, r', C')"
    and "hmacs_ok cr" "length (tm_indexhash mdat) = 32" "rfile_sized rfile"
  shows "cr_sha256 cr (metaindex_enc mind) = tm_indexhash mdat \<and>
    length (metaindex_enc mind) = unat (tm_indexlen mdat)"
proof -
  obtain h mbuf C1 r1 where frags: "get_frags cr rfile h (unat (tm_indexlen mdat)) 0 [] r C = (Inr mbuf, r1, C1)"
    and v: "crypto_verify_bytes (tm_indexhash mdat) (cr_sha256 cr mbuf) 32 = 0"
    and dec: "metaindex_dec (\<lambda>k. ma (Suc k)) mbuf = Inr mind"
    using get by (auto simp: multitape_metaindex_get_def split: option.splits if_splits prod.splits sum.splits)
  have buf: "mbuf = metaindex_enc mind" using metaindex_dec_sound [OF dec] .
  have sized: "length b = n" if "rfile r n c h = (Inr b, r')" for r n c h b r'
    using assms(4) that unfolding rfile_sized_def by blast
  have "length mbuf = unat (tm_indexlen mdat)" using get_frags_length [OF frags sized] by simp
  moreover have "cr_sha256 cr mbuf = tm_indexhash mdat"
    using v assms(2,3) by (simp add: crypto_verify_bytes_zero hmacs_ok_def)
  ultimately show ?thesis using buf by simp
qed

text \<open>An instance with an index of three bytes.\<close>

definition toy_index :: tapemetaindex where
  "toy_index = \<lparr>mi_hindex = [1, 2], mi_cindex = [], mi_tindex = [3]\<rparr>"

definition toy_rfile :: "toy_store rfile" where
  "toy_rfile s n c h =
     (case map_of s (c, h) of None \<Rightarrow> (Inl 1, s)
      | Some b \<Rightarrow> (if length b = n then Inr b else Inl 2, s))"

lemma toy_hash: "crypto_hash_data toy_crypto CRYPTO_KEY_HMAC_NAME b = Some (take 32 (b @ replicate 32 0))"
  by (simp add: toy_crypto_def crypto_hash_data_def crypto_hash_data_2_def crypto_hash_data_key_2_def
      CRYPTO_KEY_HMAC_NAME_def CRYPTO_KEY_HMAC_SHA256_def)

lemma toy_index_length: "length (metaindex_enc toy_index) = 15"
  by (simp add: length_metaindex_enc toy_index_def)

lemma toy_frag_names: "frag_names_ok toy_crypto h 15"
  by (auto simp: frag_names_ok_def inj_on_def MAXIFRAG_def MAXCHUNK_def)

lemma toy_put_index:
  "\<exists>S1 C1 mdat1. multitape_metaindex_put True toy_crypto toy_wfile [] C toy_index toy_metadata = (0, S1, C1, mdat1) \<and>
     tm_argc mdat1 = 2"
proof -
  have "\<exists>S1 C1. put_frags toy_crypto toy_wfile h (metaindex_enc toy_index) 0 [] C = (0, S1, C1)" for h
    by (subst put_frags.simps, subst put_frags.simps)
      (simp add: toy_index_length toy_wfile_def Let_def MAXIFRAG_def MAXCHUNK_def)
  then obtain S1 C1 where "put_frags toy_crypto toy_wfile (take 32 (tm_name toy_metadata @ replicate 32 0))
      (metaindex_enc toy_index) 0 [] C = (0, S1, C1)" by blast
  moreover have "length (mi_hindex toy_index) = 2" "length (mi_cindex toy_index) = 0" "length (mi_tindex toy_index) = 1"
    "tm_argc toy_metadata = 2" by (simp_all add: toy_index_def toy_metadata_def)
  ultimately show ?thesis by (simp add: multitape_metaindex_put_def toy_hash Let_def)
qed

lemma description_roundtrip_witness:
  "\<exists>C S1 C1 mdat1 S2 C2 m.
     multitape_metaindex_put True toy_crypto toy_wfile [] C toy_index toy_metadata = (0, S1, C1, mdat1) \<and>
     multitape_metadata_put True toy_crypto toy_wfile S1 C1 mdat1 = Some (0, S2, C2) \<and>
     fst (multitape_metadata_get_byname mem_ok toy_crypto (\<lambda>s. toy_rfile_alloc S2) [] None toy_metadata [104, 105]) = Inr m \<and>
     tm_argv m = [[45, 99], []] \<and>
     fst (multitape_metaindex_get mem_ok toy_crypto (\<lambda>s. toy_rfile S2) [] None m) = Inr toy_index"
proof -
  fix C :: chunks_w
  obtain S1 C1 mdat1 where index:
    "multitape_metaindex_put True toy_crypto toy_wfile [] C toy_index toy_metadata = (0, S1, C1, mdat1)" "tm_argc mdat1 = 2"
    using toy_put_index by blast
  obtain S2 C2 where meta: "multitape_metadata_put True toy_crypto toy_wfile S1 C1 mdat1 = Some (0, S2, C2)"
    using index(2) toy_hash [of "tm_name mdat1"]
    by (simp add: multitape_metadata_put_def multitape_metadata_enc_def toy_wfile_def toy_crypto_def)
  have read: "rfile_alloc_ok False (map_of S2) (\<lambda>s. toy_rfile_alloc S2)" "rfile_ok False (map_of S2) (\<lambda>s. toy_rfile S2)"
    by (simp_all add: rfile_alloc_ok_def toy_rfile_alloc_def rfile_ok_def toy_rfile_def)
  have n: "frag_names_ok toy_crypto (take 32 (tm_name toy_metadata @ replicate 32 0)) (length (metaindex_enc toy_index))"
    using toy_frag_names by (simp add: toy_index_length)
  have v: "tm_name toy_metadata = [104, 105]" "take (nat (tm_argc toy_metadata)) (tm_argv toy_metadata) = [[45, 99], []]"
    by (simp_all add: toy_metadata_def)
  have wf: "metadata_wf mdat1"
    using toy_metadata_wf toy_crypto_ok(2) by (simp add: index_put_metadata(1) [OF index(1)] metadata_wf_def hmacs_ok_def)
  show ?thesis
    using description_roundtrip [OF index(1) meta toy_crypto_ok(1) toy_crypto_ok(2) wf toy_hash n toy_wfile_ok read,
        of "[]" toy_metadata None] index(1) meta
    unfolding v value_or_fail_def by (metis fst_conv)
qed

lemma metaindex_get_exact_witness:
  "\<exists>mind. fst (multitape_metaindex_get mem_ok toy_crypto (\<lambda>r n c h. (Inr (replicate n 0), r)) () None
       (toy_metadata\<lparr>tm_indexhash := replicate 32 0\<rparr>)) = Inr mind \<and>
     cr_sha256 toy_crypto (metaindex_enc mind) = replicate 32 0 \<and> length (metaindex_enc mind) = 12"
proof -
  let ?rf = "\<lambda>r n c h. (Inr (replicate n 0), r) :: (int + bytes) \<times> unit"
  let ?m = "toy_metadata\<lparr>tm_indexhash := replicate 32 0\<rparr>"
  have len: "unat (tm_indexlen ?m) = 12" by (simp add: toy_metadata_def)
  have frags: "get_frags toy_crypto ?rf h 12 0 [] () None = (Inr (replicate 12 0), (), None)" for h
    by (subst get_frags.simps, subst get_frags.simps)
      (simp add: frag_length_def Let_def MAXIFRAG_def MAXCHUNK_def)
  have sha: "cr_sha256 toy_crypto (replicate 12 0) = replicate 32 0"
    by (simp add: toy_crypto_def replicate_add [symmetric])
  have enc: "replicate 12 0 = metaindex_enc \<lparr>mi_hindex = [], mi_cindex = [], mi_tindex = []\<rparr>"
    by (simp add: metaindex_enc_def le32enc_def numeral_eq_Suc)
  then have dec: "metaindex_dec mem_ok (replicate 12 0) = Inr \<lparr>mi_hindex = [], mi_cindex = [], mi_tindex = []\<rparr>"
    by (simp add: metaindex_dec_complete)
  have v: "crypto_verify_bytes (replicate 32 0) (replicate 32 0) 32 = 0" by (simp add: crypto_verify_bytes_zero)
  have get: "multitape_metaindex_get mem_ok toy_crypto ?rf () None ?m =
      (Inr \<lparr>mi_hindex = [], mi_cindex = [], mi_tindex = []\<rparr>, (), None)"
    unfolding multitape_metaindex_get_def toy_hash option.case len frags prod.case sum.case sha256_never_fails sha dec
    using v by simp
  have "cr_sha256 toy_crypto (metaindex_enc \<lparr>mi_hindex = [], mi_cindex = [], mi_tindex = []\<rparr>) = tm_indexhash ?m \<and>
    length (metaindex_enc \<lparr>mi_hindex = [], mi_cindex = [], mi_tindex = []\<rparr>) = unat (tm_indexlen ?m)"
    by (rule metaindex_get_exact [OF get toy_crypto_ok(2)]) (simp_all add: rfile_sized_def)
  then show ?thesis using get len by simp
qed

end
