(* ===== verification/Chunks_Read.thy ===== *)
theory Chunks_Read
  imports Tape_Metaindex
begin

text \<open>
  \<^verbatim>\<open>tar/chunks/chunks_read.c\<close> and \<^verbatim>\<open>tar/multitape/multitape_chunkiter.c\<close>: reading chunks,
  and iterating over all chunks of an archive.  Parameters: \<open>rfile\<close> is \<^verbatim>\<open>storage_read_file\<close>,
  \<open>addcache\<close> is \<^verbatim>\<open>storage_read_add_name_cache\<close>, \<open>uncompress\<close> is zlib's function (the capacity
  of the buffer and the input give an error code or the output).
\<close>

record chunks_r =
  crd_maxlen :: nat
  crd_zbuflen :: nat

type_synonym uncompress = "nat \<Rightarrow> bytes \<Rightarrow> int + bytes"
type_synonym 'r addcache = "'r \<Rightarrow> char \<Rightarrow> bytes \<Rightarrow> int \<times> 'r"

definition chunks_read_init :: "mem \<Rightarrow> nat \<Rightarrow> chunks_r option" where
  "chunks_read_init ma maxchunksize =
     (if maxchunksize = 0 \<or> maxchunksize > SIZE_MAX div 2 then None
      else if \<not> ma 0 then None
      else if \<not> ma 1 then None
      else Some \<lparr>crd_maxlen = maxchunksize, crd_zbuflen = maxchunksize + maxchunksize div 1000 + 13\<rparr>)"

definition chunks_read_cache :: "'r addcache \<Rightarrow> 'r \<Rightarrow> bytes \<Rightarrow> int \<times> 'r" where
  "chunks_read_cache addcache S hash = addcache S (CHR ''c'') hash"

definition chunks_read_chunk :: "crypto \<Rightarrow> 'r rfile \<Rightarrow> uncompress \<Rightarrow> chunks_r \<Rightarrow> 'r \<Rightarrow> bytes
    \<Rightarrow> nat \<Rightarrow> nat \<Rightarrow> (int + bytes) \<times> 'r" where
  "chunks_read_chunk cr rfile uncompress C S hash len zlen =
     (if len > crd_maxlen C \<or> zlen > crd_zbuflen C then (Inl 2, S)
      else case rfile S zlen (CHR ''c'') hash of
             (Inl rc, S) \<Rightarrow> (Inl rc, S)
           | (Inr zbuf, S) \<Rightarrow>
               (case uncompress len zbuf of
                  Inl rc \<Rightarrow> (Inl 2, S)
                | Inr buf \<Rightarrow>
                    if length buf \<noteq> len then (Inl 2, S)
                    else case crypto_hash_data cr CRYPTO_KEY_HMAC_CHUNK buf of
                           None \<Rightarrow> (Inl (-1), S)
                         | Some hash_actual \<Rightarrow>
                             if take 32 hash \<noteq> take 32 hash_actual then (Inl 2, S) else (Inr buf, S)))"

text \<open>A chunk that is accepted has the length and the keyed hash that were asked for.\<close>

lemma chunks_read_chunk_sound:
  assumes "chunks_read_chunk cr rfile uncompress C S hash len zlen = (Inr buf, S')"
  shows "length buf = len \<and> len \<le> crd_maxlen C \<and>
    (\<exists>h. crypto_hash_data cr CRYPTO_KEY_HMAC_CHUNK buf = Some h \<and> take 32 h = take 32 hash)"
  using assms
  by (auto simp: chunks_read_chunk_def split: if_splits prod.splits sum.splits option.splits)

subsection \<open>Chunk headers\<close>

text \<open>A \<^verbatim>\<open>struct chunkheader\<close> is 40 bytes: hash, length, compressed length.\<close>

abbreviation ch_hash :: "bytes \<Rightarrow> bytes" where "ch_hash ch \<equiv> take 32 ch"
abbreviation ch_len :: "bytes \<Rightarrow> nat" where "ch_len ch \<equiv> unat (le32dec (drop 32 ch))"
abbreviation ch_zlen :: "bytes \<Rightarrow> nat" where "ch_zlen ch \<equiv> unat (le32dec (drop 36 ch))"

function iter_headers :: "('s \<Rightarrow> bytes \<Rightarrow> int \<times> 's) \<Rightarrow> bytes \<Rightarrow> 's \<Rightarrow> int \<times> bytes \<times> 's" where
  "iter_headers func buf s =
     (if 40 \<le> length buf
      then case func s (take 40 buf) of (rc, s) \<Rightarrow>
        if rc \<noteq> 0 then (rc, buf, s) else iter_headers func (drop 40 buf) s
      else (0, buf, s))"
  by auto
termination
  by (relation "measure (\<lambda>(func, buf, s). length buf)") auto

declare iter_headers.simps [simp del]

text \<open>The iteration over the index of the chunk index; \<open>ibuf\<close> holds the bytes of the index that are
  not consumed yet.  \<^const>\<open>Inr\<close>: the loop is over; \<^const>\<open>Inl\<close>: a jump to the error exit, with the value that \<open>rc\<close>
  has there.  When a chunk cannot be added to the cache that is the 0 of the callback.\<close>

function iter_cindex :: "crypto \<Rightarrow> 'r rfile \<Rightarrow> 'r addcache \<Rightarrow> uncompress \<Rightarrow> chunks_r
    \<Rightarrow> ('s \<Rightarrow> bytes \<Rightarrow> int \<times> 's) \<Rightarrow> bytes \<Rightarrow> bytes \<Rightarrow> 'r \<Rightarrow> 's \<Rightarrow> (int \<times> 'r \<times> 's) + ('r \<times> 's)" where
  "iter_cindex cr rfile addcache uncompress CR func cindex ibuf S s =
     (if 40 \<le> length cindex
      then let ch = take 40 cindex in
        case func s ch of (rc, s) \<Rightarrow>
        if rc \<noteq> 0 then Inl (rc, S, s)
        else if ch_len ch > MAXCHUNK then Inl (2, S, s)
        else case chunks_read_cache addcache S (ch_hash ch) of (e, S) \<Rightarrow>
        if e \<noteq> 0 then Inl (rc, S, s)
        else case chunks_read_chunk cr rfile uncompress CR S (ch_hash ch) (ch_len ch) (ch_zlen ch) of
               (Inl rc, S) \<Rightarrow> Inl (rc, S, s)
             | (Inr b, S) \<Rightarrow>
                 (case iter_headers func (ibuf @ b) s of (rc, ibuf, s) \<Rightarrow>
                    if rc \<noteq> 0 then Inl (rc, S, s)
                    else iter_cindex cr rfile addcache uncompress CR func (drop 40 cindex) ibuf S s)
      else Inr (S, s))"
  by auto
termination
  by (relation "measure (\<lambda>(cr, rfile, addcache, uncompress, CR, func, cindex, ibuf, S, s). length cindex)") auto

declare iter_cindex.simps [simp del]

definition multitape_chunkiter_tmd :: "mem \<Rightarrow> crypto \<Rightarrow> 'r rfile \<Rightarrow> 'r addcache \<Rightarrow> uncompress
    \<Rightarrow> tapemetadata \<Rightarrow> ('s \<Rightarrow> bytes \<Rightarrow> int \<times> 's) \<Rightarrow> 'r \<Rightarrow> chunks_s option \<Rightarrow> (chunks_s option \<Rightarrow> 's)
    \<Rightarrow> int \<times> 'r \<times> 's" where
  "multitape_chunkiter_tmd ma cr rfile addcache uncompress tmd func S C start =
     (case chunks_read_init ma MAXCHUNK of
        None \<Rightarrow> (-1, S, start C)
      | Some CR \<Rightarrow>
          (case multitape_metaindex_get (\<lambda>k. ma (2 + k)) cr rfile S C tmd of
             (Inl rc, S, C) \<Rightarrow> (rc, S, start C)
           | (Inr tmi, S, C) \<Rightarrow>
               if \<not> ma 6 then (-1, S, start C)
               else case iter_headers func (mi_hindex tmi) (start C) of (rc, _, s) \<Rightarrow>
                 if rc \<noteq> 0 then (rc, S, s)
                 else (case iter_cindex cr rfile addcache uncompress CR func (mi_cindex tmi) [] S s of
                     Inl exit \<Rightarrow> exit
                   | Inr (S, s) \<Rightarrow>
                       (case iter_headers func (mi_tindex tmi) s of (rc, _, s) \<Rightarrow>
                          if rc \<noteq> 0 then (rc, S, s) else (0, S, s)))))"

subsection \<open>Bounds of the buffer\<close>

lemma iter_headers_rest: "iter_headers func buf s = (0, r, s') \<Longrightarrow> length r < 40"
proof (induction func buf s rule: iter_headers.induct)
  case (1 func buf s)
  show ?case
  proof (cases "40 \<le> length buf")
    case False
    then show ?thesis using "1.prems" by (subst (asm) iter_headers.simps) simp
  next
    case True
    obtain s1 where s1: "func s (take 40 buf) = (0, s1)" "iter_headers func (drop 40 buf) s1 = (0, r, s')"
      using "1.prems" True by (subst (asm) iter_headers.simps) (auto split: prod.splits if_splits)
    then show ?thesis using "1.IH" [OF True] by simp
  qed
qed

text \<open>The buffer for index chunks has \<^verbatim>\<open>MAXCHUNK + 40\<close> bytes: after the headers in it are
  consumed, one more chunk fits.\<close>

lemma index_buffer_fits:
  assumes "iter_headers func buf s = (0, r, s')"
    "chunks_read_chunk cr rfile uncompress C S hash len zlen = (Inr b, S')" "len \<le> MAXCHUNK"
  shows "length (r @ b) < MAXCHUNK + 40"
  using iter_headers_rest [OF assms(1)] chunks_read_chunk_sound [OF assms(2)] assms(3) by simp

subsection \<open>Properties\<close>

text \<open>C26: Whatever the server answers, the data that a chunk read accepts have the length and the
  keyed hash of the chunk asked for.\<close>

theorem chunks_read_exact:
  assumes "chunks_read_chunk cr rfile uncompress C S hash len zlen = (Inr buf, S')"
  shows "length buf = len \<and> (\<exists>h. crypto_hash_data cr CRYPTO_KEY_HMAC_CHUNK buf = Some h \<and> take 32 h = take 32 hash)"
  using chunks_read_chunk_sound [OF assms] by blast

lemma chunks_read_exact_witness:
  "\<exists>h. crypto_hash_data toy_crypto CRYPTO_KEY_HMAC_CHUNK [4, 5] = Some h \<and> take 32 h = take 32 ([4, 5] @ replicate 30 0)"
proof -
  have "chunks_read_chunk toy_crypto (\<lambda>r n c h. (Inr [4, 5], r)) (\<lambda>n z. Inr z) \<lparr>crd_maxlen = 9, crd_zbuflen = 9\<rparr> ()
      ([4, 5] @ replicate 30 0) 2 2 = (Inr [4, 5], ())"
    by (simp add: chunks_read_chunk_def toy_crypto_def crypto_hash_data_def crypto_hash_data_2_def
        crypto_hash_data_key_2_def CRYPTO_KEY_HMAC_CHUNK_def CRYPTO_KEY_HMAC_SHA256_def)
  from chunks_read_exact [OF this] show ?thesis by blast
qed

text \<open>The entries of an index before the one that fails.\<close>

lemma iter_cindex_fails_at:
  assumes "iter_cindex cr rfile addcache uncompress CR func xs ibuf S s = Inr (S1, s1)" "40 dvd length xs"
    and "40 \<le> length ys" "func s1 (take 40 ys) = (0, s2)" "ch_len (take 40 ys) \<le> MAXCHUNK"
    and "addcache S1 (CHR ''c'') (take 32 ys) = (e, S2)" "e \<noteq> 0"
  shows "iter_cindex cr rfile addcache uncompress CR func (xs @ ys) ibuf S s = Inl (0, S2, s2)"
  using assms(1,2)
proof (induction "length xs" arbitrary: xs ibuf S s rule: less_induct)
  case less
  show ?case
  proof (cases "xs = []")
    case True
    then have "S1 = S" "s1 = s" using less.prems(1) by (simp_all add: iter_cindex.simps [of _ _ _ _ _ _ "[]"])
    then show ?thesis
      using True assms(3-7) by (subst iter_cindex.simps) (simp add: chunks_read_cache_def Let_def min_def)
  next
    case False
    then have len: "40 \<le> length xs" using less.prems(2) by (intro dvd_imp_le) simp_all
    then have sub: "length (drop 40 xs) < length xs" "40 dvd length (drop 40 xs)" using less.prems(2) by (simp_all add: dvd_minus_self)
    note r = less.prems(1) [unfolded iter_cindex.simps [of cr rfile addcache uncompress CR func xs]]
    obtain s3 where f: "func s (take 40 xs) = (0, s3)" using r len by (auto simp: Let_def split: if_splits prod.splits)
    have small: "ch_len (take 40 xs) \<le> MAXCHUNK" using r len f by (auto simp: Let_def split: if_splits)
    obtain S3 where c: "chunks_read_cache addcache S (ch_hash (take 40 xs)) = (0, S3)"
      using r len f small by (auto simp: Let_def split: if_splits prod.splits)
    obtain b S4 where d: "chunks_read_chunk cr rfile uncompress CR S3 (ch_hash (take 40 xs)) (ch_len (take 40 xs)) (ch_zlen (take 40 xs)) = (Inr b, S4)"
      using r len f small c by (auto simp: Let_def split: if_splits prod.splits sum.splits)
    obtain ib s4 where h: "iter_headers func (ibuf @ b) s3 = (0, ib, s4)"
      using r len f small c d by (auto simp: Let_def split: if_splits prod.splits)
    have "iter_cindex cr rfile addcache uncompress CR func (drop 40 xs) ib S4 s4 = Inr (S1, s1)"
      using r len f small c d h by (simp add: Let_def)
    from less.hyps [OF sub(1) this sub(2)]
    have "iter_cindex cr rfile addcache uncompress CR func (drop 40 xs @ ys) ib S4 s4 = Inl (0, S2, s2)" .
    then show ?thesis using len f small c d h by (subst iter_cindex.simps) (simp add: Let_def)
  qed
qed

text \<open>C28: When a chunk of the index cannot be registered with the read cache (an allocation
  fails), the iteration over the chunks of an archive stops, and reports success: the code jumps to
  its error exit with the value 0 that the callback returned.  This can happen at any entry of the chunk index, here
  the one after the entries \<open>xs\<close>, which went well.  The chunks listed in the index chunk, the rest \<open>ys\<close> of the
  index and the trailers are not visited.  The callers take the iteration to
  be complete: \<^verbatim>\<open>--fsck\<close> then counts only the chunks seen so far as used, and deletion
  releases only these.\<close>

theorem chunkiter_cache_failure:
  assumes "chunks_read_init ma MAXCHUNK = Some CR" "ma 6"
    and "multitape_metaindex_get (\<lambda>k. ma (2 + k)) cr rfile S C tmd = (Inr tmi, S1, C1)"
    and "iter_headers func (mi_hindex tmi) (start C1) = (0, r, s1)"
    and "mi_cindex tmi = xs @ v @ ys" "40 dvd length xs" "length v = 40"
    and "iter_cindex cr rfile addcache uncompress CR func xs [] S1 s1 = Inr (S2, s2)"
    and "func s2 v = (0, s3)" "ch_len v \<le> MAXCHUNK" "addcache S2 (CHR ''c'') (ch_hash v) = (e, S3)" "e \<noteq> 0"
  shows "multitape_chunkiter_tmd ma cr rfile addcache uncompress tmd func S C start = (0, S3, s3)"
proof -
  have "iter_cindex cr rfile addcache uncompress CR func (mi_cindex tmi) [] S1 s1 = Inl (0, S3, s3)"
    using iter_cindex_fails_at [OF assms(8,6), of "v @ ys" s3 e S3] assms(5,7,9-12) by simp
  then show ?thesis using assms(1-4) by (simp add: multitape_chunkiter_tmd_def)
qed

text \<open>An index of two chunks, and a trailer: one chunk of the three is visited.\<close>

definition toy_headers :: tapemetaindex where
  "toy_headers = \<lparr>mi_hindex = [], mi_cindex = replicate 80 0, mi_tindex = replicate 40 0\<rparr>"

lemma chunkiter_cache_failure_witness:
  "multitape_chunkiter_tmd mem_ok toy_crypto (\<lambda>r n c h. (Inr (metaindex_enc toy_headers), r)) (\<lambda>S c h. (-1, S)) (\<lambda>n z. Inr z)
     (toy_metadata\<lparr>tm_indexhash := cr_sha256 toy_crypto (metaindex_enc toy_headers), tm_indexlen := 132\<rparr>)
     (\<lambda>n ch. (0, Suc n)) () None (\<lambda>_. 0) = (0, (), 1)"
proof -
  let ?rf = "\<lambda>r n c h. (Inr (metaindex_enc toy_headers), r) :: (int + bytes) \<times> unit"
  let ?m = "toy_metadata\<lparr>tm_indexhash := cr_sha256 toy_crypto (metaindex_enc toy_headers), tm_indexlen := 132\<rparr>"
  have frags: "get_frags toy_crypto ?rf h 132 0 [] () None = (Inr (metaindex_enc toy_headers), (), None)" for h
    by (subst get_frags.simps, subst get_frags.simps)
      (simp add: frag_length_def Let_def MAXIFRAG_def MAXCHUNK_def)
  have dec: "metaindex_dec mem_ok (metaindex_enc toy_headers) = Inr toy_headers"
    by (rule metaindex_dec_complete) (simp_all add: toy_headers_def)
  have v: "crypto_verify_bytes b b 32 = 0" if "length b = 32" for b using that by (simp add: crypto_verify_bytes_zero)
  have len: "unat (tm_indexlen ?m) = 132" by simp
  have get: "multitape_metaindex_get (\<lambda>k. mem_ok (2 + k)) toy_crypto ?rf () None ?m = (Inr toy_headers, (), None)"
    unfolding multitape_metaindex_get_def toy_hash option.case len frags prod.case sum.case sha256_never_fails dec
    using v toy_crypto_ok(2) by (simp add: hmacs_ok_def)
  have init: "chunks_read_init mem_ok MAXCHUNK = Some (the (chunks_read_init mem_ok MAXCHUNK))"
    by (simp add: chunks_read_init_def MAXCHUNK_def)
  have heads: "iter_headers (\<lambda>n ch. (0, Suc n)) (mi_hindex toy_headers) 0 = (0, [], 0)"
    by (subst iter_headers.simps) (simp add: toy_headers_def)
  have index: "mi_cindex toy_headers = [] @ replicate 40 0 @ replicate 40 0"
    by (simp add: toy_headers_def flip: replicate_add)
  have none: "iter_cindex toy_crypto ?rf (\<lambda>S c h. (-1, S)) (\<lambda>n z. Inr z) (the (chunks_read_init mem_ok MAXCHUNK)) (\<lambda>n ch. (0, Suc n)) [] [] () 0 = Inr ((), 0)"
    by (subst iter_cindex.simps) simp
  have "ch_len (replicate 40 0) \<le> MAXCHUNK"
    by (simp add: MAXCHUNK_def le32dec_def)
  from chunkiter_cache_failure [OF init _ get heads index _ _ none _ this, of "Suc 0" "-1" "()"]
  show ?thesis by simp
qed

end
