(* ===== verification/Tape_Read.thy ===== *)
theory Tape_Read
  imports Chunks_Read "HOL-Library.Sublist"
begin

text \<open>
  \<^verbatim>\<open>tar/multitape/multitape_read.c\<close>: reading an archive.  A stream reads its chunk headers from
  its index stream: the model of a stream is over the state \<open>'p\<close> of its index stream and the function
  \<open>pread\<close> that reads from it (\<^const>\<open>None\<close> for a stream without one, whose chunk is a stream index).
  The parameter \<open>rchunk\<close> is \<^const>\<open>chunks_read_chunk\<close> with its read cookie.  An \<^verbatim>\<open>off_t\<close> is an
  \<^typ>\<open>int\<close>; the outer \<^const>\<open>None\<close> is a loop that does not end, a failed \<^verbatim>\<open>assert\<close>,
  or an access outside the buffer of a chunk.
\<close>

record 'p rstream =
  rs_istr :: 'p
  rs_chunk :: bytes
  rs_chunklen :: nat
  rs_chunkpos :: nat
  rs_skiplen :: int
  rs_ch :: bytes
  rs_ch_valid :: bool

type_synonym 'r rchunk = "'r \<Rightarrow> bytes \<Rightarrow> nat \<Rightarrow> nat \<Rightarrow> (int + bytes) \<times> 'r"
type_synonym ('p, 'r) reader = "'p \<Rightarrow> nat \<Rightarrow> 'r \<Rightarrow> ((int + bytes) \<times> 'p \<times> 'r) option"

subsection \<open>Streams\<close>

partial_function (option) stream_get_chunkheader :: "('p, 'r) reader \<Rightarrow> 'p rstream \<Rightarrow> 'r
    \<Rightarrow> (int \<times> 'p rstream \<times> 'r) option" where
  "stream_get_chunkheader pread S r =
     (if rs_ch_valid S \<and> \<not> int (ch_len (rs_ch S)) \<le> rs_skiplen S then Some (0, S, r)
      else let S = (if rs_ch_valid S
                    then S\<lparr>rs_skiplen := rs_skiplen S - int (ch_len (rs_ch S)), rs_ch_valid := False\<rparr>
                    else S) in
        case pread (rs_istr S) 40 r of
          None \<Rightarrow> None
        | Some (Inl rc, p, r) \<Rightarrow> Some (-1, S\<lparr>rs_istr := p\<rparr>, r)
        | Some (Inr b, p, r) \<Rightarrow>
            if length b = 0 then Some (0, S\<lparr>rs_istr := p\<rparr>, r)
            else if length b = 40
            then stream_get_chunkheader pread (S\<lparr>rs_istr := p, rs_ch := b, rs_ch_valid := True\<rparr>) r
            else Some (-1, S\<lparr>rs_istr := p\<rparr>, r))"

definition stream_skip :: "'p rstream \<Rightarrow> 'p rstream" where
  "stream_skip S =
     (if rs_skiplen S \<noteq> 0
      then let skip = int (rs_chunklen S) - int (rs_chunkpos S);
               skip = (if skip > rs_skiplen S then rs_skiplen S else skip)
           in S\<lparr>rs_skiplen := rs_skiplen S - skip,
                rs_chunkpos := nat ((int (rs_chunkpos S) + skip) mod 18446744073709551616)\<rparr>
      else S)"

partial_function (option) stream_fill :: "'r rchunk \<Rightarrow> ('p, 'r) reader option \<Rightarrow> 'p rstream \<Rightarrow> 'r
    \<Rightarrow> ((int + bytes) \<times> 'p rstream \<times> 'r) option" where
  "stream_fill rchunk pread S r =
     (if rs_chunklen S = rs_chunkpos S \<and> pread \<noteq> None
      then case stream_get_chunkheader (the pread) S r of
             None \<Rightarrow> None
           | Some (rc, S, r) \<Rightarrow>
               if rc \<noteq> 0 then Some (Inl (-1), S, r)
               else if \<not> rs_ch_valid S then Some (Inr [], S, r)
               else let len = ch_len (rs_ch S); zlen = ch_zlen (rs_ch S) in
                 case rchunk r (ch_hash (rs_ch S)) len zlen of
                   (Inl rc, r) \<Rightarrow> Some (Inl (-1), S, r)
                 | (Inr b, r) \<Rightarrow>
                     stream_fill rchunk pread
                       (S\<lparr>rs_chunk := b, rs_chunklen := len, rs_chunkpos := nat (rs_skiplen S),
                          rs_skiplen := 0, rs_ch_valid := False\<rparr>) r
      else if rs_chunkpos S \<le> rs_chunklen S
      then Some (Inr (take (rs_chunklen S - rs_chunkpos S) (drop (rs_chunkpos S) (rs_chunk S))), S, r)
      else None)"

definition stream_get_chunk :: "'r rchunk \<Rightarrow> ('p, 'r) reader option \<Rightarrow> 'p rstream \<Rightarrow> 'r
    \<Rightarrow> ((int + bytes) \<times> 'p rstream \<times> 'r) option" where
  "stream_get_chunk rchunk pread S r = stream_fill rchunk pread (stream_skip S) r"

partial_function (option) stream_read_loop :: "'r rchunk \<Rightarrow> ('p, 'r) reader option \<Rightarrow> 'p rstream \<Rightarrow> nat \<Rightarrow> bytes \<Rightarrow> 'r
    \<Rightarrow> ((int + bytes) \<times> 'p rstream \<times> 'r) option" where
  "stream_read_loop rchunk pread S buflen buf r =
     (if length buf < buflen
      then case stream_get_chunk rchunk pread S r of
             None \<Rightarrow> None
           | Some (Inl rc, S, r) \<Rightarrow> Some (Inl (-1), S, r)
           | Some (Inr readbuf, S, r) \<Rightarrow>
               let readlen = min (length readbuf) (buflen - length buf) in
               if readlen = 0 then Some (Inr buf, S, r)
               else stream_read_loop rchunk pread (S\<lparr>rs_chunkpos := rs_chunkpos S + readlen\<rparr>) buflen
                      (buf @ take readlen readbuf) r
      else Some (Inr buf, S, r))"

definition stream_read :: "'r rchunk \<Rightarrow> ('p, 'r) reader option \<Rightarrow> ('p rstream, 'r) reader" where
  "stream_read rchunk pread S buflen r =
     (if buflen < SSIZE_MAX then stream_read_loop rchunk pread S buflen [] r else None)"

subsection \<open>The tape\<close>

text \<open>The streams \<^verbatim>\<open>hi\<close>, \<^verbatim>\<open>ti\<close> and \<^verbatim>\<open>cii\<close> hold stream indexes; \<^verbatim>\<open>ci\<close> is read from
  \<^verbatim>\<open>cii\<close>.\<close>

type_synonym index_stream = "unit rstream"
type_synonym chunk_stream = "index_stream rstream"

record tape_r =
  tr_h :: chunk_stream
  tr_c :: "chunk_stream rstream"
  tr_t :: chunk_stream
  tr_hlen :: int
  tr_clen :: int
  tr_tlen :: int

abbreviation read_index :: "'r rchunk \<Rightarrow> (index_stream, 'r) reader" where
  "read_index rchunk \<equiv> stream_read rchunk None"

abbreviation read_chunks_of :: "'r rchunk \<Rightarrow> (chunk_stream, 'r) reader" where
  "read_chunks_of rchunk \<equiv> stream_read rchunk (Some (read_index rchunk))"

definition get_entryheader :: "'r rchunk \<Rightarrow> tape_r \<Rightarrow> 'r \<Rightarrow> (int \<times> tape_r \<times> 'r) option" where
  "get_entryheader rchunk d r =
     (case read_chunks_of rchunk (tr_h d) 16 r of
        None \<Rightarrow> None
      | Some (Inl rc, h, r) \<Rightarrow> Some (-1, d\<lparr>tr_h := h\<rparr>, r)
      | Some (Inr eh, h, r) \<Rightarrow>
          if length eh = 0 then Some (0, d\<lparr>tr_h := h\<rparr>, r)
          else if length eh = 16
          then Some (1, d\<lparr>tr_h := h, tr_hlen := int (unat (le32dec eh)),
                 tr_clen := sint (le64dec (drop 4 eh)), tr_tlen := int (unat (le32dec (drop 12 eh)))\<rparr>, r)
          else Some (-1, d\<lparr>tr_h := h\<rparr>, r))"

definition index_stream :: "bytes \<Rightarrow> index_stream" where
  "index_stream index =
     \<lparr>rs_istr = (), rs_chunk = index, rs_chunklen = length index, rs_chunkpos = 0, rs_skiplen = 0,
      rs_ch = [], rs_ch_valid = False\<rparr>"

definition new_stream :: "'p \<Rightarrow> 'p rstream" where
  "new_stream istr =
     \<lparr>rs_istr = istr, rs_chunk = [], rs_chunklen = 0, rs_chunkpos = 0, rs_skiplen = 0,
      rs_ch = [], rs_ch_valid = False\<rparr>"

definition tape_of_index :: "tapemetaindex \<Rightarrow> tape_r" where
  "tape_of_index tmi =
     \<lparr>tr_h = new_stream (index_stream (mi_hindex tmi)),
      tr_c = new_stream (new_stream (index_stream (mi_cindex tmi))),
      tr_t = new_stream (index_stream (mi_tindex tmi)), tr_hlen = 0, tr_clen = 0, tr_tlen = 0\<rparr>"

text \<open>The result is the tape with the read cookie of the chunk layer; \<open>sread\<close> says whether
  \<^verbatim>\<open>storage_read_init\<close> succeeds.\<close>

definition readtape_open :: "mem \<Rightarrow> bool \<Rightarrow> crypto \<Rightarrow> 'r rfile_alloc \<Rightarrow> 'r rfile \<Rightarrow> tapemetadata \<Rightarrow> 'r \<Rightarrow> bytes
    \<Rightarrow> (tape_r \<times> chunks_r) option \<times> 'r" where
  "readtape_open ma sread cr ralloc rfile junk S tapename =
     (if \<not> ma 0 \<or> \<not> sread then (None, S)
      else case chunks_read_init (\<lambda>k. ma (1 + k)) MAXCHUNK of
        None \<Rightarrow> (None, S)
      | Some C \<Rightarrow>
          if \<not> ma 3 \<or> \<not> ma 4 \<or> \<not> ma 5 \<or> \<not> ma 6 then (None, S)
          else case multitape_metadata_get_byname (\<lambda>k. ma (11 + k)) cr ralloc S None junk tapename of
                 (Inl rc, S, _) \<Rightarrow> (None, S)
               | (Inr tmd, S, _) \<Rightarrow>
                   (case multitape_metaindex_get (\<lambda>k. ma (7 + k)) cr rfile S None tmd of
                      (Inl rc, S, _) \<Rightarrow> (None, S)
                    | (Inr tmi, S, _) \<Rightarrow> (Some (tape_of_index tmi, C), S)))"

text \<open>How much of the available data is taken, and what is left of the pending length; the
  arithmetic is that of \<^verbatim>\<open>off_t\<close> and \<^verbatim>\<open>size_t\<close>.\<close>

definition limit_read :: "nat \<Rightarrow> int \<Rightarrow> nat \<times> int" where
  "limit_read clen maxlen =
     (let clen = (if int clen > maxlen then unat (of_int maxlen :: u64) else clen)
      in (clen, sint (of_int maxlen - of_nat clen :: u64)))"

definition take_data :: "bytes \<Rightarrow> 'p rstream \<Rightarrow> int \<Rightarrow> (int + bytes) \<times> 'p rstream \<times> int" where
  "take_data buf S maxlen =
     (case limit_read (length buf) maxlen of (clen, maxlen) \<Rightarrow>
        let S = S\<lparr>rs_chunkpos := size_wrap (rs_chunkpos S + clen)\<rparr> in
        if clen = 0 then (Inl (-1), S, maxlen)
        else if clen > SSIZE_MAX then (Inl (-1), S, maxlen)
        else (Inr (take clen buf), S, maxlen))"

partial_function (option) readtape_read :: "'r rchunk \<Rightarrow> tape_r \<Rightarrow> 'r \<Rightarrow> ((int + bytes) \<times> tape_r \<times> 'r) option" where
  "readtape_read rchunk d r =
     (if tr_hlen d \<noteq> 0
      then case stream_get_chunk rchunk (Some (read_index rchunk)) (tr_h d) r of
             None \<Rightarrow> None
           | Some (Inl rc, S, r) \<Rightarrow> Some (Inl (-1), d\<lparr>tr_h := S\<rparr>, r)
           | Some (Inr buf, S, r) \<Rightarrow>
               (case take_data buf S (tr_hlen d) of (res, S, hlen) \<Rightarrow> Some (res, d\<lparr>tr_h := S, tr_hlen := hlen\<rparr>, r))
      else if tr_clen d \<noteq> 0
      then case stream_get_chunk rchunk (Some (read_chunks_of rchunk)) (tr_c d) r of
             None \<Rightarrow> None
           | Some (Inl rc, S, r) \<Rightarrow> Some (Inl (-1), d\<lparr>tr_c := S\<rparr>, r)
           | Some (Inr buf, S, r) \<Rightarrow>
               (case take_data buf S (tr_clen d) of (res, S, clen) \<Rightarrow> Some (res, d\<lparr>tr_c := S, tr_clen := clen\<rparr>, r))
      else if tr_tlen d \<noteq> 0
      then case stream_get_chunk rchunk (Some (read_index rchunk)) (tr_t d) r of
             None \<Rightarrow> None
           | Some (Inl rc, S, r) \<Rightarrow> Some (Inl (-1), d\<lparr>tr_t := S\<rparr>, r)
           | Some (Inr buf, S, r) \<Rightarrow>
               (case take_data buf S (tr_tlen d) of (res, S, tlen) \<Rightarrow> Some (res, d\<lparr>tr_t := S, tr_tlen := tlen\<rparr>, r))
      else case get_entryheader rchunk d r of
             None \<Rightarrow> None
           | Some (rc, d, r) \<Rightarrow>
               if rc = -1 then Some (Inl (-1), d, r)
               else if rc = 0 then Some (Inr [], d, r)
               else readtape_read rchunk d r)"

text \<open>A chunk header that can be copied to another archive, with its length; 0 if there is none.\<close>

definition readtape_readchunk :: "'r rchunk \<Rightarrow> tape_r \<Rightarrow> 'r \<Rightarrow> (int \<times> bytes \<times> tape_r \<times> 'r) option" where
  "readtape_readchunk rchunk d r =
     (case (if tr_hlen d = 0 \<and> tr_clen d = 0 \<and> tr_tlen d = 0 then get_entryheader rchunk d r
            else Some (1, d, r)) of
        None \<Rightarrow> None
      | Some (rc, d, r) \<Rightarrow>
          if rc = -1 then Some (-1, [], d, r)
          else if rc = 0 then Some (0, [], d, r)
          else if tr_hlen d \<noteq> 0 \<or> tr_clen d = 0 then Some (0, [], d, r)
          else if rs_chunkpos (tr_c d) \<noteq> rs_chunklen (tr_c d) then Some (-1, [], d, r)
          else case stream_get_chunkheader (read_chunks_of rchunk) (tr_c d) r of
                 None \<Rightarrow> None
               | Some (rc, S, r) \<Rightarrow>
                   let d = d\<lparr>tr_c := S\<rparr> in
                   if rc \<noteq> 0 then Some (-1, [], d, r)
                   else if \<not> rs_ch_valid S then Some (0, [], d, r)
                   else if rs_skiplen S \<noteq> 0 then Some (0, [], d, r)
                   else if ch_len (rs_ch S) > SSIZE_MAX then Some (-1, [], d, r)
                   else Some (int (ch_len (rs_ch S)), rs_ch S, d, r))"

abbreviation skip_part :: "int \<Rightarrow> int \<Rightarrow> int" where
  "skip_part request len \<equiv> (if request < len then request else len)"

partial_function (option) readtape_skip :: "'r rchunk \<Rightarrow> tape_r \<Rightarrow> int \<Rightarrow> int \<Rightarrow> 'r \<Rightarrow> (int \<times> tape_r \<times> 'r) option" where
  "readtape_skip rchunk d request skipped r =
     (if skipped < request
      then if tr_hlen d \<noteq> 0
           then let n = skip_part (request - skipped) (tr_hlen d); S = tr_h d in
             readtape_skip rchunk (d\<lparr>tr_hlen := tr_hlen d - n, tr_h := S\<lparr>rs_skiplen := rs_skiplen S + n\<rparr>\<rparr>)
               request (skipped + n) r
           else if tr_clen d \<noteq> 0
           then let n = skip_part (request - skipped) (tr_clen d); S = tr_c d in
             readtape_skip rchunk (d\<lparr>tr_clen := tr_clen d - n, tr_c := S\<lparr>rs_skiplen := rs_skiplen S + n\<rparr>\<rparr>)
               request (skipped + n) r
           else if tr_tlen d \<noteq> 0
           then let n = skip_part (request - skipped) (tr_tlen d); S = tr_t d in
             readtape_skip rchunk (d\<lparr>tr_tlen := tr_tlen d - n, tr_t := S\<lparr>rs_skiplen := rs_skiplen S + n\<rparr>\<rparr>)
               request (skipped + n) r
           else case get_entryheader rchunk d r of
                  None \<Rightarrow> None
                | Some (rc, d, r) \<Rightarrow>
                    if rc = -1 then Some (-1, d, r)
                    else if rc = 0 then Some (skipped, d, r)
                    else readtape_skip rchunk d request skipped r
      else Some (skipped, d, r))"


subsection \<open>What a stream holds\<close>

text \<open>A chunk header that can be read back: the read gives exactly the bytes \<open>buf\<close>, or (if the
  storage may fail) an error.\<close>

definition chunk_ok :: "'r rchunk \<Rightarrow> bool \<Rightarrow> bytes \<Rightarrow> bytes \<Rightarrow> bool" where
  "chunk_ok rchunk fail h buf \<longleftrightarrow>
     length h = 40 \<and> length buf = ch_len h \<and>
     (\<forall>r. \<exists>res r'. rchunk r (ch_hash h) (ch_len h) (ch_zlen h) = (res, r') \<and>
        (res = Inr buf \<or> fail \<and> (\<exists>rc. res = Inl rc)))"

definition parts_hold :: "'r rchunk \<Rightarrow> bool \<Rightarrow> ('p \<Rightarrow> bytes \<Rightarrow> bool) \<Rightarrow> 'p rstream \<Rightarrow> bytes list \<Rightarrow> bytes list \<Rightarrow> bool" where
  "parts_hold rchunk fail holds S hs bufs \<longleftrightarrow>
     list_all2 (chunk_ok rchunk fail) hs bufs \<and> 0 \<le> rs_skiplen S \<and>
     (if rs_ch_valid S then hs \<noteq> [] \<and> rs_ch S = hd hs \<and> holds (rs_istr S) (concat (tl hs))
      else holds (rs_istr S) (concat hs))"

text \<open>The bytes of a stream that are still to be read.\<close>

definition stream_holds :: "'r rchunk \<Rightarrow> bool \<Rightarrow> ('p \<Rightarrow> bytes \<Rightarrow> bool) \<Rightarrow> 'p rstream \<Rightarrow> bytes \<Rightarrow> bool" where
  "stream_holds rchunk fail holds S data \<longleftrightarrow>
     (\<exists>hs bufs. parts_hold rchunk fail holds S hs bufs \<and>
        rs_chunkpos S \<le> rs_chunklen S \<and> rs_chunklen S = length (rs_chunk S) \<and> rs_chunklen S < SSIZE_MAX \<and>
        data = drop (nat (rs_skiplen S)) (drop (rs_chunkpos S) (rs_chunk S) @ concat bufs))"

text \<open>The next available data: a prefix of what the stream holds, empty only at its end.\<close>

definition got_chunk :: "'r rchunk \<Rightarrow> bool \<Rightarrow> ('p \<Rightarrow> bytes \<Rightarrow> bool) \<Rightarrow> 'p rstream \<Rightarrow> bytes \<Rightarrow> bytes \<Rightarrow> bool" where
  "got_chunk rchunk fail holds S data buf \<longleftrightarrow>
     stream_holds rchunk fail holds S data \<and> prefix buf data \<and> (buf = [] \<longrightarrow> data = []) \<and>
     (buf \<noteq> [] \<longrightarrow> rs_skiplen S = 0 \<and> length buf = rs_chunklen S - rs_chunkpos S)"

text \<open>A source of bytes: a read gives the next bytes, fewer at the end; \<open>fail\<close> says whether it may
  fail.\<close>

locale byte_source =
  fixes rchunk :: "'r rchunk" and fail :: bool
    and holds :: "'p \<Rightarrow> bytes \<Rightarrow> bool" and rd :: "('p, 'r) reader"
  assumes read_ok: "holds p bs \<Longrightarrow> n < SSIZE_MAX \<Longrightarrow>
    \<exists>res p' r'. rd p n r = Some (res, p', r') \<and>
      (res = Inr (take n bs) \<and> holds p' (drop n bs) \<or> fail \<and> res = Inl (-1))"
begin

lemma next_header:
  assumes "list_all2 (chunk_ok rchunk fail) hs bufs" "holds p (concat hs)"
  shows "\<exists>res p' r'. rd p 40 r = Some (res, p', r') \<and>
    (fail \<and> res = Inl (-1) \<or> hs = [] \<and> res = Inr [] \<and> holds p' [] \<or>
     hs \<noteq> [] \<and> res = Inr (hd hs) \<and> length (hd hs) = 40 \<and> holds p' (concat (tl hs)))"
proof -
  have len: "length (hd hs) = 40" if "hs \<noteq> []"
    using assms(1) that by (cases hs) (auto simp: chunk_ok_def list_all2_Cons1)
  obtain res p' r' where rd: "rd p 40 r = Some (res, p', r')"
      "res = Inr (take 40 (concat hs)) \<and> holds p' (drop 40 (concat hs)) \<or> fail \<and> res = Inl (-1)"
    using read_ok [OF assms(2), of 40 r] by auto
  show ?thesis
  proof (cases hs)
    case Nil
    then show ?thesis using rd by auto
  next
    case (Cons h t)
    then have "take 40 (concat hs) = h" "drop 40 (concat hs) = concat t" using len by auto
    then show ?thesis using rd Cons len by auto
  qed
qed

lemma drop_pending_header:
  assumes P: "parts_hold rchunk fail holds S hs bufs"
    and skip: "rs_ch_valid S \<Longrightarrow> int (ch_len (rs_ch S)) \<le> rs_skiplen S"
    and S1: "S1 = (if rs_ch_valid S
        then S\<lparr>rs_skiplen := rs_skiplen S - int (ch_len (rs_ch S)), rs_ch_valid := False\<rparr> else S)"
    and hs1: "hs1 = (if rs_ch_valid S then tl hs else hs)"
    and bufs1: "bufs1 = (if rs_ch_valid S then tl bufs else bufs)"
  shows "parts_hold rchunk fail holds S1 hs1 bufs1 \<and>
    drop (nat (rs_skiplen S1)) (concat bufs1) = drop (nat (rs_skiplen S)) (concat bufs)"
proof (cases "rs_ch_valid S")
  case False
  then show ?thesis using P S1 hs1 bufs1 by simp
next
  case True
  then obtain h hs2 b bufs2 where hs: "hs = h # hs2" "bufs = b # bufs2"
    using P by (cases hs; cases bufs) (auto simp: parts_hold_def)
  then have len: "length b = ch_len (rs_ch S)"
    using P True by (simp add: parts_hold_def chunk_ok_def)
  define n where "n = ch_len (rs_ch S)"
  have n: "int n \<le> rs_skiplen S" "length b = n" using skip True len by (simp_all add: n_def)
  then have "drop (nat (rs_skiplen S)) (b @ concat bufs2) = drop (nat (rs_skiplen S - int n)) (concat bufs2)"
    by (simp add: nat_diff_distrib')
  moreover have "S1 = S\<lparr>rs_skiplen := rs_skiplen S - int n, rs_ch_valid := False\<rparr>"
    using S1 True unfolding n_def by simp
  ultimately show ?thesis using P hs True n hs1 bufs1 by (simp add: parts_hold_def)
qed

lemma get_chunkheader:
  assumes "parts_hold rchunk fail holds S hs bufs"
  shows "\<exists>rc S' r'. stream_get_chunkheader rd S r = Some (rc, S', r') \<and>
    rs_chunk S' = rs_chunk S \<and> rs_chunklen S' = rs_chunklen S \<and> rs_chunkpos S' = rs_chunkpos S \<and>
    (rc = -1 \<and> fail \<or>
     rc = 0 \<and> (\<exists>hs' bufs'. parts_hold rchunk fail holds S' hs' bufs' \<and>
        drop (nat (rs_skiplen S')) (concat bufs') = drop (nat (rs_skiplen S)) (concat bufs) \<and>
        (if rs_ch_valid S' then rs_skiplen S' < int (ch_len (rs_ch S')) else bufs' = [])))"
  using assms
proof (induction "2 * length hs + (if rs_ch_valid S then 0 else 1)" arbitrary: S hs bufs r rule: less_induct)
  case less
  note P = less.prems
  show ?case
  proof (cases "rs_ch_valid S \<and> \<not> int (ch_len (rs_ch S)) \<le> rs_skiplen S")
    case True
    then show ?thesis using P by (subst stream_get_chunkheader.simps) auto
  next
    case False
    define S1 where "S1 = (if rs_ch_valid S
      then S\<lparr>rs_skiplen := rs_skiplen S - int (ch_len (rs_ch S)), rs_ch_valid := False\<rparr> else S)"
    define hs1 where "hs1 = (if rs_ch_valid S then tl hs else hs)"
    define bufs1 where "bufs1 = (if rs_ch_valid S then tl bufs else bufs)"
    have fields: "rs_chunk S1 = rs_chunk S" "rs_chunklen S1 = rs_chunklen S" "rs_chunkpos S1 = rs_chunkpos S"
        "rs_istr S1 = rs_istr S" "\<not> rs_ch_valid S1"
      by (simp_all add: S1_def)
    have P1: "parts_hold rchunk fail holds S1 hs1 bufs1 \<and>
        drop (nat (rs_skiplen S1)) (concat bufs1) = drop (nat (rs_skiplen S)) (concat bufs)"
      using drop_pending_header [OF P _ S1_def hs1_def bufs1_def] False by blast
    have step: "stream_get_chunkheader rd S r = (case rd (rs_istr S1) 40 r of
          None \<Rightarrow> None
        | Some (Inl rc, p, r) \<Rightarrow> Some (-1, S1\<lparr>rs_istr := p\<rparr>, r)
        | Some (Inr b, p, r) \<Rightarrow>
            if length b = 0 then Some (0, S1\<lparr>rs_istr := p\<rparr>, r)
            else if length b = 40
            then stream_get_chunkheader rd (S1\<lparr>rs_istr := p, rs_ch := b, rs_ch_valid := True\<rparr>) r
            else Some (-1, S1\<lparr>rs_istr := p\<rparr>, r))"
      unfolding S1_def
      by (subst stream_get_chunkheader.simps, subst if_not_P [OF False]) (simp only: Let_def)
    obtain res p' r' where rd: "rd (rs_istr S1) 40 r = Some (res, p', r')"
      and res: "fail \<and> res = Inl (-1) \<or> hs1 = [] \<and> res = Inr [] \<and> holds p' [] \<or>
        hs1 \<noteq> [] \<and> res = Inr (hd hs1) \<and> length (hd hs1) = 40 \<and> holds p' (concat (tl hs1))"
      using next_header [of hs1 bufs1 "rs_istr S1" r] P1 fields(5) by (auto simp: parts_hold_def)
    from res consider (fail) "fail" "res = Inl (-1)" | (eof) "hs1 = []" "res = Inr []" "holds p' []"
      | (h) "hs1 \<noteq> []" "res = Inr (hd hs1)" "length (hd hs1) = 40" "holds p' (concat (tl hs1))"
      by blast
    then show ?thesis
    proof cases
      case fail
      then have "stream_get_chunkheader rd S r = Some (-1, S1\<lparr>rs_istr := p'\<rparr>, r')"
        using rd step by simp
      then show ?thesis using fail fields by simp
    next
      case eof
      have "parts_hold rchunk fail holds (S1\<lparr>rs_istr := p'\<rparr>) [] []" "bufs1 = []"
        using eof P1 fields by (auto simp: parts_hold_def)
      moreover have "stream_get_chunkheader rd S r = Some (0, S1\<lparr>rs_istr := p'\<rparr>, r')"
        using rd eof step by simp
      ultimately show ?thesis using P1 fields by (auto intro!: exI [of _ "[]"])
    next
      case h
      define S2 where "S2 = S1\<lparr>rs_istr := p', rs_ch := hd hs1, rs_ch_valid := True\<rparr>"
      have P2: "parts_hold rchunk fail holds S2 hs1 bufs1"
        using h P1 fields by (auto simp: parts_hold_def S2_def)
      have "2 * length hs1 + 0 < 2 * length hs + (if rs_ch_valid S then 0 else 1)"
        using h(1) by (cases hs) (auto simp: hs1_def split: if_splits)
      then have "\<exists>rc S' r''. stream_get_chunkheader rd S2 r' = Some (rc, S', r'') \<and>
        rs_chunk S' = rs_chunk S2 \<and> rs_chunklen S' = rs_chunklen S2 \<and> rs_chunkpos S' = rs_chunkpos S2 \<and>
        (rc = -1 \<and> fail \<or>
         rc = 0 \<and> (\<exists>hs' bufs'. parts_hold rchunk fail holds S' hs' bufs' \<and>
            drop (nat (rs_skiplen S')) (concat bufs') = drop (nat (rs_skiplen S2)) (concat bufs1) \<and>
            (if rs_ch_valid S' then rs_skiplen S' < int (ch_len (rs_ch S')) else bufs' = [])))"
        by (intro less.hyps [OF _ P2]) (simp add: S2_def)
      moreover have "stream_get_chunkheader rd S r = stream_get_chunkheader rd S2 r'"
        using rd h step unfolding S2_def by simp
      moreover have "rs_chunk S2 = rs_chunk S" "rs_chunklen S2 = rs_chunklen S" "rs_chunkpos S2 = rs_chunkpos S"
          "rs_skiplen S2 = rs_skiplen S1"
        using fields by (simp_all add: S2_def)
      ultimately show ?thesis using P1 by simp
    qed
  qed
qed

lemma skip_holds:
  assumes "stream_holds rchunk fail holds S data"
  shows "stream_holds rchunk fail holds (stream_skip S) data \<and>
    (rs_skiplen (stream_skip S) = 0 \<or> rs_chunkpos (stream_skip S) = rs_chunklen (stream_skip S))"
proof -
  obtain hs bufs where P: "parts_hold rchunk fail holds S hs bufs"
      "rs_chunkpos S \<le> rs_chunklen S" "rs_chunklen S = length (rs_chunk S)" "rs_chunklen S < SSIZE_MAX"
      "data = drop (nat (rs_skiplen S)) (drop (rs_chunkpos S) (rs_chunk S) @ concat bufs)"
    using assms by (auto simp: stream_holds_def)
  have skip: "0 \<le> rs_skiplen S" using P(1) by (simp add: parts_hold_def)
  define n where "n = min (rs_chunklen S - rs_chunkpos S) (nat (rs_skiplen S))"
  have eq: "stream_skip S = S\<lparr>rs_skiplen := rs_skiplen S - int n, rs_chunkpos := rs_chunkpos S + n\<rparr>"
    using P(2-4) skip
    by (cases S) (auto simp: stream_skip_def n_def Let_def min_def nat_add_distrib of_nat_diff nat_less_iff split: if_splits)
  have n: "rs_chunkpos S + n \<le> rs_chunklen S" "int n \<le> rs_skiplen S"
      "n = rs_chunklen S - rs_chunkpos S \<or> int n = rs_skiplen S"
    using P(2) skip by (auto simp: n_def min_def)
  have "drop (nat (rs_skiplen S - int n)) (drop (rs_chunkpos S + n) (rs_chunk S) @ concat bufs) = data"
  proof -
    have "nat (rs_skiplen S) = nat (rs_skiplen S - int n) + n" using n(2) by simp
    moreover have "drop n (drop (rs_chunkpos S) (rs_chunk S)) = drop (rs_chunkpos S + n) (rs_chunk S)"
      by (simp add: add.commute)
    ultimately show ?thesis using n(1) P(3,5) by (simp add: ac_simps)
  qed
  moreover have "parts_hold rchunk fail holds (stream_skip S) hs bufs"
    using P(1) n(2) by (simp add: eq parts_hold_def)
  ultimately have "stream_holds rchunk fail holds (stream_skip S) data"
    unfolding stream_holds_def using P n by (intro exI [of _ hs] exI [of _ bufs]) (simp add: eq)
  then show ?thesis using n P(2) by (auto simp: eq)
qed

lemma stream_holds_advance:
  assumes "stream_holds rchunk fail holds S data" "rs_skiplen S = 0" "rs_chunkpos S + n \<le> rs_chunklen S"
  shows "stream_holds rchunk fail holds (S\<lparr>rs_chunkpos := rs_chunkpos S + n\<rparr>) (drop n data)"
proof -
  obtain hs bufs where "parts_hold rchunk fail holds S hs bufs" "rs_chunklen S = length (rs_chunk S)"
      "rs_chunklen S < SSIZE_MAX" "data = drop (rs_chunkpos S) (rs_chunk S) @ concat bufs"
    using assms by (auto simp: stream_holds_def)
  then show ?thesis unfolding stream_holds_def using assms(2,3)
    by (intro exI [of _ hs] exI [of _ bufs]) (simp add: parts_hold_def add.commute)
qed

lemma got_chunk_advance:
  assumes "got_chunk rchunk fail holds S data buf" "0 < n" "n \<le> length buf"
  shows "stream_holds rchunk fail holds (S\<lparr>rs_chunkpos := rs_chunkpos S + n\<rparr>) (drop n data)"
  using assms by (auto simp: got_chunk_def intro!: stream_holds_advance)

lemma fill_holds:
  assumes "stream_holds rchunk fail holds S data"
    and "rs_skiplen S = 0 \<or> rs_chunkpos S = rs_chunklen S"
  shows "\<exists>res S' r'. stream_fill rchunk (Some rd) S r = Some (res, S', r') \<and>
    (fail \<and> res = Inl (-1) \<or> (\<exists>buf. res = Inr buf \<and> got_chunk rchunk fail holds S' data buf))"
proof (cases "rs_chunkpos S = rs_chunklen S")
  case False
  then have "stream_fill rchunk (Some rd) S r = Some (Inr (drop (rs_chunkpos S) (rs_chunk S)), S, r)"
    using assms(1) by (subst stream_fill.simps) (auto simp: stream_holds_def)
  then show ?thesis using assms False
    by (auto simp: got_chunk_def stream_holds_def)
next
  case True
  obtain hs bufs where P: "parts_hold rchunk fail holds S hs bufs"
      "rs_chunklen S = length (rs_chunk S)" "rs_chunklen S < SSIZE_MAX"
      "data = drop (nat (rs_skiplen S)) (concat bufs)"
    using assms(1) True by (auto simp: stream_holds_def)
  obtain rc S1 r1 where h: "stream_get_chunkheader rd S r = Some (rc, S1, r1)"
      "rs_chunk S1 = rs_chunk S" "rs_chunklen S1 = rs_chunklen S" "rs_chunkpos S1 = rs_chunkpos S"
    and rc: "rc = -1 \<and> fail \<or>
     rc = 0 \<and> (\<exists>hs' bufs'. parts_hold rchunk fail holds S1 hs' bufs' \<and>
        drop (nat (rs_skiplen S1)) (concat bufs') = drop (nat (rs_skiplen S)) (concat bufs) \<and>
        (if rs_ch_valid S1 then rs_skiplen S1 < int (ch_len (rs_ch S1)) else bufs' = []))"
    using get_chunkheader [OF P(1), of r] by (elim exE conjE) (rule that)
  from rc consider (fail) "rc = -1" "fail"
    | (ok) hs' bufs' where "rc = 0" "parts_hold rchunk fail holds S1 hs' bufs'"
        "drop (nat (rs_skiplen S1)) (concat bufs') = data"
        "if rs_ch_valid S1 then rs_skiplen S1 < int (ch_len (rs_ch S1)) else bufs' = []"
    using P(4) by metis
  then show ?thesis
  proof cases
    case fail
    then show ?thesis using True h by (subst stream_fill.simps) simp
  next
    case ok
    show ?thesis
    proof (cases "rs_ch_valid S1")
      case False
      then have "stream_fill rchunk (Some rd) S r = Some (Inr [], S1, r1)"
        using True h ok by (subst stream_fill.simps) simp
      moreover have "bufs' = []" "data = []" using ok(3,4) False by simp_all
      moreover have "stream_holds rchunk fail holds S1 []"
        unfolding stream_holds_def using ok(2) \<open>bufs' = []\<close> h True P
        by (intro exI [of _ hs'] exI [of _ "[]"]) simp
      ultimately show ?thesis by (simp add: got_chunk_def)
    next
      case valid: True
      then obtain ch hs2 b bufs2 where hs: "hs' = ch # hs2" "bufs' = b # bufs2" "rs_ch S1 = ch"
          "chunk_ok rchunk fail ch b" "holds (rs_istr S1) (concat hs2)" "0 \<le> rs_skiplen S1"
          "list_all2 (chunk_ok rchunk fail) hs2 bufs2"
        using ok(2) by (cases hs'; cases bufs') (auto simp: parts_hold_def)
      obtain res r2 where rd: "rchunk r1 (ch_hash ch) (ch_len ch) (ch_zlen ch) = (res, r2)"
          "res = Inr b \<or> fail \<and> (\<exists>rc. res = Inl rc)"
        using hs(4) unfolding chunk_ok_def by blast
      show ?thesis
      proof (cases res)
        case (Inl e)
        then show ?thesis using True h ok(1) valid rd hs(3)
          by (subst stream_fill.simps) (auto simp: Let_def)
      next
        case (Inr b')
        define len where "len = ch_len ch"
        have len: "length b = len" "rs_skiplen S1 < int len" "len < 4294967296"
          using hs(3,4) ok(4) valid by (simp_all add: chunk_ok_def len_def)
        define S2 where "S2 = S1\<lparr>rs_chunk := b, rs_chunklen := len,
          rs_chunkpos := nat (rs_skiplen S1), rs_skiplen := 0, rs_ch_valid := False\<rparr>"
        have pos: "rs_chunkpos S2 < rs_chunklen S2" "rs_skiplen S2 = 0"
          using len hs(6) by (simp_all add: S2_def nat_less_iff)
        have "stream_fill rchunk (Some rd) S r = stream_fill rchunk (Some rd) S2 r2"
          using True h ok(1) valid rd hs(3) Inr
          by (subst stream_fill.simps) (auto simp: Let_def S2_def len_def)
        also have "\<dots> = Some (Inr (drop (rs_chunkpos S2) b), S2, r2)"
          using pos len by (subst stream_fill.simps) (simp add: S2_def)
        finally have fill: "stream_fill rchunk (Some rd) S r = Some (Inr (drop (rs_chunkpos S2) b), S2, r2)" .
        have data: "data = drop (rs_chunkpos S2) b @ concat bufs2"
          using ok(3) hs(2,6) len by (simp add: S2_def nat_le_iff)
        have "stream_holds rchunk fail holds S2 data"
          unfolding stream_holds_def using pos len hs data
          by (intro exI [of _ hs2] exI [of _ bufs2]) (auto simp: S2_def parts_hold_def)
        then have "got_chunk rchunk fail holds S2 data (drop (rs_chunkpos S2) b)"
          using pos len data by (simp add: got_chunk_def S2_def)
        then show ?thesis using fill by blast
      qed
    qed
  qed
qed

lemma get_chunk_holds:
  assumes "stream_holds rchunk fail holds S data"
  shows "\<exists>res S' r'. stream_get_chunk rchunk (Some rd) S r = Some (res, S', r') \<and>
    (fail \<and> res = Inl (-1) \<or> (\<exists>buf. res = Inr buf \<and> got_chunk rchunk fail holds S' data buf))"
  unfolding stream_get_chunk_def using skip_holds [OF assms] by (intro fill_holds) auto

lemma read_loop_holds:
  assumes "stream_holds rchunk fail holds S data" "length buf \<le> n"
  shows "\<exists>res S' r'. stream_read_loop rchunk (Some rd) S n buf r = Some (res, S', r') \<and>
    (fail \<and> res = Inl (-1) \<or> res = Inr (buf @ take (n - length buf) data) \<and>
      stream_holds rchunk fail holds S' (drop (n - length buf) data))"
  using assms
proof (induction "n - length buf" arbitrary: S data buf r rule: less_induct)
  case less
  show ?case
  proof (cases "length buf < n")
    case False
    then show ?thesis using less.prems by (subst stream_read_loop.simps) simp
  next
    case True
    obtain res S' r' where c: "stream_get_chunk rchunk (Some rd) S r = Some (res, S', r')"
        "fail \<and> res = Inl (-1) \<or> (\<exists>b. res = Inr b \<and> got_chunk rchunk fail holds S' data b)"
      using get_chunk_holds [OF less.prems(1), of r] by (elim exE conjE) (rule that)
    from c(2) show ?thesis
    proof (elim disjE exE conjE)
      assume "fail" "res = Inl (-1)"
      then show ?thesis using True c(1) by (subst stream_read_loop.simps) simp
    next
      fix b assume b: "res = Inr b" "got_chunk rchunk fail holds S' data b"
      show ?thesis
      proof (cases "b = []")
        case True
        then have "data = []" "stream_holds rchunk fail holds S' data" using b(2) by (auto simp: got_chunk_def)
        then show ?thesis using b c(1) \<open>length buf < n\<close> True
          by (subst stream_read_loop.simps) simp
      next
        case False
        define k where "k = min (length b) (n - length buf)"
        have k: "0 < k" "k \<le> length b" "k \<le> n - length buf" using False True by (auto simp: k_def)
        define S2 where "S2 = S'\<lparr>rs_chunkpos := rs_chunkpos S' + k\<rparr>"
        have take: "take k b = take k data" using b(2) k(2) by (auto simp: got_chunk_def prefix_def)
        have len: "length (buf @ take k b) = length buf + k" using k by simp
        have "stream_holds rchunk fail holds S2 (drop k data)"
          using got_chunk_advance [OF b(2) k(1,2)] by (simp add: S2_def)
        then have "\<exists>res S' r''. stream_read_loop rchunk (Some rd) S2 n (buf @ take k b) r' = Some (res, S', r'') \<and>
            (fail \<and> res = Inl (-1) \<or> res = Inr ((buf @ take k b) @ take (n - length (buf @ take k b)) (drop k data)) \<and>
              stream_holds rchunk fail holds S' (drop (n - length (buf @ take k b)) (drop k data)))"
          using True k by (intro less.hyps) auto
        moreover have "stream_read_loop rchunk (Some rd) S n buf r = stream_read_loop rchunk (Some rd) S2 n (buf @ take k b) r'"
          using True c(1) b(1) k(1) by (subst stream_read_loop.simps) (simp add: S2_def Let_def flip: k_def)
        moreover have "(buf @ take k b) @ take (n - (length buf + k)) (drop k data) = buf @ take (n - length buf) data"
        proof -
          have "k + (n - (length buf + k)) = n - length buf" using k(3) by simp
          then show ?thesis using take by (metis append.assoc take_add)
        qed
        moreover have "drop (n - (length buf + k)) (drop k data) = drop (n - length buf) data"
        proof -
          have "n - (length buf + k) + k = n - length buf" using k(3) by arith
          then show ?thesis by simp
        qed
        ultimately show ?thesis unfolding len by simp
      qed
    qed
  qed
qed

lemma stream_read_holds:
  assumes "stream_holds rchunk fail holds S data" "n < SSIZE_MAX"
  shows "\<exists>res S' r'. stream_read rchunk (Some rd) S n r = Some (res, S', r') \<and>
    (res = Inr (take n data) \<and> stream_holds rchunk fail holds S' (drop n data) \<or> fail \<and> res = Inl (-1))"
  using read_loop_holds [OF assms(1), of "[]" n r] assms(2) by (auto simp: stream_read_def)

end

subsection \<open>The streams of a tape\<close>

text \<open>A stream index is held in memory; a chunk stream reads its headers from an index; the stream of
  file chunks reads its headers from a chunk stream.\<close>

definition index_holds :: "index_stream \<Rightarrow> bytes \<Rightarrow> bool" where
  "index_holds S data \<longleftrightarrow>
     rs_skiplen S = 0 \<and> rs_chunkpos S \<le> rs_chunklen S \<and> rs_chunklen S = length (rs_chunk S) \<and>
     rs_chunklen S < SSIZE_MAX \<and> data = drop (rs_chunkpos S) (rs_chunk S)"

lemma index_read_holds:
  assumes "index_holds S data" "n < SSIZE_MAX"
  shows "\<exists>S'. stream_read rchunk None S n r = Some (Inr (take n data), S', r) \<and> index_holds S' (drop n data)"
proof -
  have chunk: "stream_get_chunk rchunk None T r = Some (Inr bs, T, r)" if "index_holds T bs" for T bs
    using that unfolding stream_get_chunk_def
    by (subst stream_fill.simps) (auto simp: index_holds_def stream_skip_def)
  have loop: "\<exists>S'. stream_read_loop rchunk None T n buf r = Some (Inr (buf @ take (n - length buf) bs), S', r) \<and>
      index_holds S' (drop (n - length buf) bs)" if "index_holds T bs" "length buf \<le> n" for T bs buf
  proof (cases "length buf = n \<or> bs = []")
    case True
    then show ?thesis using that chunk [OF that(1)] by (subst stream_read_loop.simps) auto
  next
    case False
    define k where "k = min (length bs) (n - length buf)"
    define T2 where "T2 = T\<lparr>rs_chunkpos := rs_chunkpos T + k\<rparr>"
    have k: "0 < k" "take k bs = take (n - length buf) bs" "drop k bs = drop (n - length buf) bs"
        "length buf + k \<le> n"
      using False that(2) by (auto simp: k_def min_def)
    have T2: "index_holds T2 (drop (n - length buf) bs)"
      using that(1) unfolding k(3) [symmetric] by (auto simp: index_holds_def T2_def k_def add.commute)
    have fin: "length buf + k = n \<or> drop (n - length buf) bs = []"
      using that(2) by (auto simp: k_def min_def)
    have "stream_read_loop rchunk None T n buf r = stream_read_loop rchunk None T2 n (buf @ take k bs) r"
      using False that chunk [OF that(1)] k(1)
      by (subst stream_read_loop.simps) (simp add: T2_def Let_def flip: k_def)
    also have "\<dots> = Some (Inr (buf @ take k bs), T2, r)"
      using fin chunk [OF T2] k(4) by (subst stream_read_loop.simps) (auto simp: k_def)
    finally show ?thesis using T2 k(2) by simp
  qed
  show ?thesis using loop [OF assms(1), of "[]"] assms(2) by (simp add: stream_read_def)
qed

interpretation index: byte_source rchunk fail index_holds "stream_read rchunk None"
  for rchunk :: "'r rchunk" and fail
proof unfold_locales
  fix p bs n and r :: 'r
  assume "index_holds p bs" "n < SSIZE_MAX"
  from index_read_holds [OF this, where rchunk = rchunk and r = r]
  obtain S' where "stream_read rchunk None p n r = Some (Inr (take n bs), S', r)" "index_holds S' (drop n bs)"
    by (elim exE conjE) (rule that)
  then show "\<exists>res p' r'. stream_read rchunk None p n r = Some (res, p', r') \<and>
      (res = Inr (take n bs) \<and> index_holds p' (drop n bs) \<or> fail \<and> res = Inl (-1))"
    by simp
qed

abbreviation chunks_hold :: "'r rchunk \<Rightarrow> bool \<Rightarrow> chunk_stream \<Rightarrow> bytes \<Rightarrow> bool" where
  "chunks_hold rchunk fail \<equiv> stream_holds rchunk fail index_holds"

interpretation chunks: byte_source rchunk fail "chunks_hold rchunk fail" "read_chunks_of rchunk"
  for rchunk :: "'r rchunk" and fail
  by unfold_locales (rule index.stream_read_holds)

text \<open>An archive is a list of entries: a header, file data in chunks, and a trailer.\<close>

type_synonym entry = "bytes \<times> bytes \<times> bytes"

definition entry_header :: "nat \<Rightarrow> nat \<Rightarrow> nat \<Rightarrow> bytes" where
  "entry_header hlen clen tlen = le32enc (of_nat hlen) @ le64enc (of_nat clen) @ le32enc (of_nat tlen)"

fun header_bytes :: "entry \<Rightarrow> bytes" where
  "header_bytes (h, c, t) = entry_header (length h) (length c) (length t) @ h"

fun entry_bytes :: "entry \<Rightarrow> bytes" where
  "entry_bytes (h, c, t) = h @ c @ t"

abbreviation header_stream :: "entry list \<Rightarrow> bytes" where
  "header_stream es \<equiv> concat (map header_bytes es)"

abbreviation chunk_data :: "entry list \<Rightarrow> bytes" where
  "chunk_data es \<equiv> concat (map (\<lambda>(h, c, t). c) es)"

abbreviation trailer_data :: "entry list \<Rightarrow> bytes" where
  "trailer_data es \<equiv> concat (map (\<lambda>(h, c, t). t) es)"

definition archive_bytes :: "entry list \<Rightarrow> bytes" where
  "archive_bytes es = concat (map entry_bytes es)"

fun entry_ok :: "entry \<Rightarrow> bool" where
  "entry_ok (h, c, t) \<longleftrightarrow> length h < 4294967296 \<and> length c < SSIZE_MAX \<and> length t < 4294967296"

definition tape_parts :: "'r rchunk \<Rightarrow> bool \<Rightarrow> tape_r \<Rightarrow> entry \<Rightarrow> entry list \<Rightarrow> bool" where
  "tape_parts rchunk fail d e es \<longleftrightarrow>
     (case e of (a, b, c) \<Rightarrow>
        list_all entry_ok (e # es) \<and>
        tr_hlen d = int (length a) \<and> tr_clen d = int (length b) \<and> tr_tlen d = int (length c) \<and>
        chunks_hold rchunk fail (tr_h d) (a @ header_stream es) \<and>
        stream_holds rchunk fail (chunks_hold rchunk fail) (tr_c d) (b @ chunk_data es) \<and>
        chunks_hold rchunk fail (tr_t d) (c @ trailer_data es))"

definition tape_holds :: "'r rchunk \<Rightarrow> bool \<Rightarrow> tape_r \<Rightarrow> bytes \<Rightarrow> bool" where
  "tape_holds rchunk fail d content \<longleftrightarrow>
     (\<exists>e es. tape_parts rchunk fail d e es \<and> content = archive_bytes (e # es))"

lemma archive_bytes_simps [simp]:
  "archive_bytes [] = []" "archive_bytes (e # es) = entry_bytes e @ archive_bytes es"
  by (simp_all add: archive_bytes_def)

lemma sint_of_int_64: "0 \<le> k \<Longrightarrow> k < 9223372036854775808 \<Longrightarrow> sint (of_int k :: u64) = k"
  by (simp add: signed_of_int signed_take_bit_int_eq_self)

lemma limit_read_eq:
  assumes "0 \<le> maxlen" "maxlen < 9223372036854775808"
  shows "limit_read n maxlen = (min n (nat maxlen), maxlen - int (min n (nat maxlen)))"
proof -
  have "unat (of_int maxlen :: u64) = nat maxlen"
    using assms by (simp add: unsigned_of_int take_bit_int_eq_self)
  then have eq: "(if int n > maxlen then unat (of_int maxlen :: u64) else n) = min n (nat maxlen)"
    using assms(1) by (auto simp: min_def)
  define k where "k = min n (nat maxlen)"
  have "sint (of_int maxlen - of_nat k :: u64) = sint (of_int (maxlen - int k) :: u64)" by simp
  also have "\<dots> = maxlen - int k"
    using assms by (intro sint_of_int_64) (auto simp: k_def)
  finally show ?thesis unfolding limit_read_def eq Let_def k_def [symmetric] by simp
qed

lemma take_data_prefix:
  assumes "prefix buf (a @ rest)" "n = min (length buf) (length a)" "0 < n" "length a < SSIZE_MAX"
    "length buf < SSIZE_MAX" "rs_chunkpos S + length buf < SSIZE_MAX"
  shows "take_data buf S (int (length a)) =
    (Inr (take n a), S\<lparr>rs_chunkpos := rs_chunkpos S + n\<rparr>, int (length (drop n a)))"
proof -
  have "limit_read (length buf) (int (length a)) = (n, int (length (drop n a)))"
    using assms(2,4) limit_read_eq [of "int (length a)" "length buf"] by (simp add: of_nat_diff)
  moreover have "take n buf = take n a"
    using assms(1,2) by (auto simp: prefix_def append_eq_append_conv2 min_def)
  moreover have "n \<le> length buf" using assms(2) by simp
  ultimately show ?thesis using assms(3,5,6) by (simp add: take_data_def Let_def)
qed

lemma unat_of_nat_32: "n < 4294967296 \<Longrightarrow> unat (of_nat n :: u32) = n"
  by (simp add: unat_of_nat)

lemma entry_header_decode:
  assumes "entry_ok (h, c, t)"
  shows "unat (le32dec (entry_header (length h) (length c) (length t))) = length h"
    "sint (le64dec (drop 4 (entry_header (length h) (length c) (length t)))) = int (length c)"
    "unat (le32dec (drop 12 (entry_header (length h) (length c) (length t)))) = length t"
    "length (entry_header (length h) (length c) (length t)) = 16"
  using assms sint_of_int_64 [of "int (length c)"]
  by (simp_all add: entry_header_def unat_of_nat_32 del: unat_u32_less)

lemma entryheader_holds:
  assumes "tape_parts rchunk fail d ([], [], []) es"
  shows "\<exists>rc d' r'. get_entryheader rchunk d r = Some (rc, d', r') \<and>
    (rc = -1 \<and> fail \<or> rc = 0 \<and> es = [] \<and> tape_parts rchunk fail d' ([], [], []) [] \<or>
     rc = 1 \<and> es \<noteq> [] \<and> tape_parts rchunk fail d' (hd es) (tl es))"
proof -
  obtain res h' r' where rd: "read_chunks_of rchunk (tr_h d) 16 r = Some (res, h', r')"
      "res = Inr (take 16 (header_stream es)) \<and> chunks_hold rchunk fail h' (drop 16 (header_stream es)) \<or> fail \<and> res = Inl (-1)"
    using chunks.read_ok [of rchunk fail "tr_h d" "header_stream es" 16 r] assms
    by (auto simp: tape_parts_def)
  from rd(2) show ?thesis
  proof (elim disjE conjE)
    assume "fail" "res = Inl (-1)"
    then show ?thesis using rd(1) by (simp add: get_entryheader_def)
  next
    assume res: "res = Inr (take 16 (header_stream es))" and h': "chunks_hold rchunk fail h' (drop 16 (header_stream es))"
    show ?thesis
    proof (cases es)
      case Nil
      then show ?thesis using res h' rd(1) assms by (simp add: get_entryheader_def tape_parts_def)
    next
      case (Cons e es')
      obtain a b c where e: "e = (a, b, c)" by (cases e)
      have ok: "entry_ok (a, b, c)" using assms Cons e by (simp add: tape_parts_def)
      note dec = entry_header_decode [OF ok]
      have s: "take 16 (header_stream es) = entry_header (length a) (length b) (length c)"
          "drop 16 (header_stream es) = a @ header_stream es'"
        using dec(4) by (simp_all add: Cons e)
      have eh: "get_entryheader rchunk d r = Some (1, d\<lparr>tr_h := h', tr_hlen := int (length a),
          tr_clen := int (length b), tr_tlen := int (length c)\<rparr>, r')"
        using rd(1) dec unfolding res s get_entryheader_def by simp
      have "tape_parts rchunk fail (d\<lparr>tr_h := h', tr_hlen := int (length a),
          tr_clen := int (length b), tr_tlen := int (length c)\<rparr>) e es'"
        using assms h' unfolding s by (simp add: tape_parts_def Cons e)
      then show ?thesis using eh Cons by simp
    qed
  qed
qed

text \<open>A stream of which \<open>a\<close> is pending gives some of it.\<close>

context byte_source
begin

lemma pending_data:
  assumes "stream_holds rchunk fail holds S (a @ rest)" "a \<noteq> []" "length a < SSIZE_MAX"
  shows "\<exists>res S' r'. stream_get_chunk rchunk (Some rd) S r = Some (res, S', r') \<and>
    (fail \<and> res = Inl (-1) \<or>
     (\<exists>buf n. res = Inr buf \<and> 0 < n \<and> n \<le> length a \<and>
       take_data buf S' (int (length a)) =
         (Inr (take n a), S'\<lparr>rs_chunkpos := rs_chunkpos S' + n\<rparr>, int (length (drop n a))) \<and>
       stream_holds rchunk fail holds (S'\<lparr>rs_chunkpos := rs_chunkpos S' + n\<rparr>) (drop n a @ rest)))"
proof -
  obtain res S' r' where c: "stream_get_chunk rchunk (Some rd) S r = Some (res, S', r')"
      "fail \<and> res = Inl (-1) \<or> (\<exists>buf. res = Inr buf \<and> got_chunk rchunk fail holds S' (a @ rest) buf)"
    using get_chunk_holds [OF assms(1), of r] by (elim exE conjE) (rule that)
  show ?thesis
  proof (cases "fail \<and> res = Inl (-1)")
    case True
    then show ?thesis using c(1) by blast
  next
    case False
    then obtain buf where buf: "res = Inr buf" "got_chunk rchunk fail holds S' (a @ rest) buf"
      using c(2) by blast
    define n where "n = min (length buf) (length a)"
    have "buf \<noteq> []" using buf(2) assms(2) by (auto simp: got_chunk_def)
    then have n: "0 < n" "n \<le> length buf" "n \<le> length a" using assms(2) by (auto simp: n_def)
    have len: "rs_chunkpos S' + length buf < SSIZE_MAX" "prefix buf (a @ rest)"
      using buf(2) \<open>buf \<noteq> []\<close> by (auto simp: got_chunk_def stream_holds_def)
    then have "take_data buf S' (int (length a)) =
        (Inr (take n a), S'\<lparr>rs_chunkpos := rs_chunkpos S' + n\<rparr>, int (length (drop n a)))"
      using take_data_prefix [OF len(2) n_def n(1) assms(3) _ len(1)] by simp
    moreover have "stream_holds rchunk fail holds (S'\<lparr>rs_chunkpos := rs_chunkpos S' + n\<rparr>) (drop n a @ rest)"
      using got_chunk_advance [OF buf(2) n(1,2)] n(3) by simp
    ultimately show ?thesis using c(1) buf(1) n(1,3) by blast
  qed
qed

end

subsection \<open>Reading a tape\<close>

lemma entry_ok_drop:
  "entry_ok (a, b, c) \<Longrightarrow> entry_ok (drop n a, b, c)"
  "entry_ok (a, b, c) \<Longrightarrow> entry_ok (a, drop n b, c)"
  "entry_ok (a, b, c) \<Longrightarrow> entry_ok (a, b, drop n c)"
  by auto

text \<open>What a read gives: data that the archive has next, or the end of the archive.\<close>

definition read_result :: "'r rchunk \<Rightarrow> bool \<Rightarrow> bytes \<Rightarrow> (int + bytes) \<Rightarrow> tape_r \<Rightarrow> bool" where
  "read_result rchunk fail content res d' \<longleftrightarrow>
     fail \<and> res = Inl (-1) \<or>
     (\<exists>buf. res = Inr buf \<and> prefix buf content \<and> (buf = [] \<longrightarrow> content = []) \<and>
        tape_holds rchunk fail d' (drop (length buf) content))"

lemma read_result_part:
  assumes "content = x @ a @ y" "x = []" "0 < n" "n \<le> length a"
    and "tape_holds rchunk fail d' (drop n a @ y)"
  shows "read_result rchunk fail content (Inr (take n a)) d'"
proof -
  have "prefix (take n a) content" using assms(1,2) by (metis append_Nil prefix_append take_is_prefix)
  then show ?thesis using assms by (auto simp: read_result_def)
qed

lemma tape_holds_intro:
  "tape_parts rchunk fail d e es \<Longrightarrow> content = archive_bytes (e # es) \<Longrightarrow> tape_holds rchunk fail d content"
  unfolding tape_holds_def by blast

text \<open>A pending part gives some of its data.\<close>

lemma readtape_read_header:
  assumes P: "tape_parts rchunk fail d (a, b, c) es" and pending: "a \<noteq> []"
  shows "\<exists>res d' r'. readtape_read rchunk d r = Some (res, d', r') \<and>
    read_result rchunk fail (archive_bytes ((a, b, c) # es)) res d'"
proof -
  have ok: "entry_ok (a, b, c)" and len: "tr_hlen d = int (length a)" "tr_clen d = int (length b)" "tr_tlen d = int (length c)"
    and S: "chunks_hold rchunk fail (tr_h d) (a @ header_stream es)"
    using P by (simp_all add: tape_parts_def)
  have max: "length a < SSIZE_MAX" using ok by simp
  obtain res S' r' where g: "stream_get_chunk rchunk (Some (read_index rchunk)) (tr_h d) r = Some (res, S', r')"
      "fail \<and> res = Inl (-1) \<or>
       (\<exists>buf n. res = Inr buf \<and> 0 < n \<and> n \<le> length a \<and>
         take_data buf S' (int (length a)) =
           (Inr (take n a), S'\<lparr>rs_chunkpos := rs_chunkpos S' + n\<rparr>, int (length (drop n a))) \<and>
         chunks_hold rchunk fail (S'\<lparr>rs_chunkpos := rs_chunkpos S' + n\<rparr>) (drop n a @ header_stream es))"
    using index.pending_data [OF S _ max, of r] pending by blast
  from g(2) show ?thesis
  proof (elim disjE exE conjE)
    assume "fail" "res = Inl (-1)"
    then show ?thesis using g(1) pending len by (subst readtape_read.simps) (simp add: read_result_def)
  next
    fix buf n assume n: "res = Inr buf" "0 < n" "n \<le> length a"
        "take_data buf S' (int (length a)) =
           (Inr (take n a), S'\<lparr>rs_chunkpos := rs_chunkpos S' + n\<rparr>, int (length (drop n a)))"
        "chunks_hold rchunk fail (S'\<lparr>rs_chunkpos := rs_chunkpos S' + n\<rparr>) (drop n a @ header_stream es)"
    define d' where "d' = d\<lparr>tr_h := S'\<lparr>rs_chunkpos := rs_chunkpos S' + n\<rparr>, tr_hlen := int (length (drop n a))\<rparr>"
    have "tape_parts rchunk fail d' (drop n a, b, c) es"
      using P n(5) entry_ok_drop(1) [OF ok, of n] by (simp add: tape_parts_def d'_def)
    then have "tape_holds rchunk fail d' (drop n a @ b @ c @ archive_bytes es)"
      by (rule tape_holds_intro) (simp add: pending)
    then have "read_result rchunk fail (archive_bytes ((a, b, c) # es)) (Inr (take n a)) d'"
      by (intro read_result_part [where x = "[]", OF _ refl n(2,3)]) (simp_all add: pending)
    moreover have "readtape_read rchunk d r = Some (Inr (take n a), d', r')"
      using g(1) n(1,4) pending len unfolding d'_def by (subst readtape_read.simps) simp
    ultimately show ?thesis by blast
  qed
qed

lemma readtape_read_chunks:
  assumes P: "tape_parts rchunk fail d (a, b, c) es" and pending: "a = []" "b \<noteq> []"
  shows "\<exists>res d' r'. readtape_read rchunk d r = Some (res, d', r') \<and>
    read_result rchunk fail (archive_bytes ((a, b, c) # es)) res d'"
proof -
  have ok: "entry_ok (a, b, c)" and len: "tr_hlen d = int (length a)" "tr_clen d = int (length b)" "tr_tlen d = int (length c)"
    and S: "stream_holds rchunk fail (chunks_hold rchunk fail) (tr_c d) (b @ chunk_data es)"
    using P by (simp_all add: tape_parts_def)
  have max: "length b < SSIZE_MAX" using ok by simp
  obtain res S' r' where g: "stream_get_chunk rchunk (Some (read_chunks_of rchunk)) (tr_c d) r = Some (res, S', r')"
      "fail \<and> res = Inl (-1) \<or>
       (\<exists>buf n. res = Inr buf \<and> 0 < n \<and> n \<le> length b \<and>
         take_data buf S' (int (length b)) =
           (Inr (take n b), S'\<lparr>rs_chunkpos := rs_chunkpos S' + n\<rparr>, int (length (drop n b))) \<and>
         stream_holds rchunk fail (chunks_hold rchunk fail) (S'\<lparr>rs_chunkpos := rs_chunkpos S' + n\<rparr>) (drop n b @ chunk_data es))"
    using chunks.pending_data [OF S _ max, of r] pending by blast
  from g(2) show ?thesis
  proof (elim disjE exE conjE)
    assume "fail" "res = Inl (-1)"
    then show ?thesis using g(1) pending len by (subst readtape_read.simps) (simp add: read_result_def)
  next
    fix buf n assume n: "res = Inr buf" "0 < n" "n \<le> length b"
        "take_data buf S' (int (length b)) =
           (Inr (take n b), S'\<lparr>rs_chunkpos := rs_chunkpos S' + n\<rparr>, int (length (drop n b)))"
        "stream_holds rchunk fail (chunks_hold rchunk fail) (S'\<lparr>rs_chunkpos := rs_chunkpos S' + n\<rparr>) (drop n b @ chunk_data es)"
    define d' where "d' = d\<lparr>tr_c := S'\<lparr>rs_chunkpos := rs_chunkpos S' + n\<rparr>, tr_clen := int (length (drop n b))\<rparr>"
    have "tape_parts rchunk fail d' (a, drop n b, c) es"
      using P n(5) entry_ok_drop(2) [OF ok, of n] by (simp add: tape_parts_def d'_def)
    then have "tape_holds rchunk fail d' (drop n b @ c @ archive_bytes es)"
      by (rule tape_holds_intro) (simp add: pending)
    then have "read_result rchunk fail (archive_bytes ((a, b, c) # es)) (Inr (take n b)) d'"
      by (intro read_result_part [where x = "[]", OF _ refl n(2,3)]) (simp_all add: pending)
    moreover have "readtape_read rchunk d r = Some (Inr (take n b), d', r')"
      using g(1) n(1,4) pending len unfolding d'_def by (subst readtape_read.simps) simp
    ultimately show ?thesis by blast
  qed
qed

lemma readtape_read_trailer:
  assumes P: "tape_parts rchunk fail d (a, b, c) es" and pending: "a = []" "b = []" "c \<noteq> []"
  shows "\<exists>res d' r'. readtape_read rchunk d r = Some (res, d', r') \<and>
    read_result rchunk fail (archive_bytes ((a, b, c) # es)) res d'"
proof -
  have ok: "entry_ok (a, b, c)" and len: "tr_hlen d = int (length a)" "tr_clen d = int (length b)" "tr_tlen d = int (length c)"
    and S: "chunks_hold rchunk fail (tr_t d) (c @ trailer_data es)"
    using P by (simp_all add: tape_parts_def)
  have max: "length c < SSIZE_MAX" using ok by simp
  obtain res S' r' where g: "stream_get_chunk rchunk (Some (read_index rchunk)) (tr_t d) r = Some (res, S', r')"
      "fail \<and> res = Inl (-1) \<or>
       (\<exists>buf n. res = Inr buf \<and> 0 < n \<and> n \<le> length c \<and>
         take_data buf S' (int (length c)) =
           (Inr (take n c), S'\<lparr>rs_chunkpos := rs_chunkpos S' + n\<rparr>, int (length (drop n c))) \<and>
         chunks_hold rchunk fail (S'\<lparr>rs_chunkpos := rs_chunkpos S' + n\<rparr>) (drop n c @ trailer_data es))"
    using index.pending_data [OF S _ max, of r] pending by blast
  from g(2) show ?thesis
  proof (elim disjE exE conjE)
    assume "fail" "res = Inl (-1)"
    then show ?thesis using g(1) pending len by (subst readtape_read.simps) (simp add: read_result_def)
  next
    fix buf n assume n: "res = Inr buf" "0 < n" "n \<le> length c"
        "take_data buf S' (int (length c)) =
           (Inr (take n c), S'\<lparr>rs_chunkpos := rs_chunkpos S' + n\<rparr>, int (length (drop n c)))"
        "chunks_hold rchunk fail (S'\<lparr>rs_chunkpos := rs_chunkpos S' + n\<rparr>) (drop n c @ trailer_data es)"
    define d' where "d' = d\<lparr>tr_t := S'\<lparr>rs_chunkpos := rs_chunkpos S' + n\<rparr>, tr_tlen := int (length (drop n c))\<rparr>"
    have "tape_parts rchunk fail d' (a, b, drop n c) es"
      using P n(5) entry_ok_drop(3) [OF ok, of n] by (simp add: tape_parts_def d'_def)
    then have "tape_holds rchunk fail d' (drop n c @ archive_bytes es)"
      by (rule tape_holds_intro) (simp add: pending)
    then have "read_result rchunk fail (archive_bytes ((a, b, c) # es)) (Inr (take n c)) d'"
      by (intro read_result_part [where x = "[]", OF _ refl n(2,3)]) (simp_all add: pending)
    moreover have "readtape_read rchunk d r = Some (Inr (take n c), d', r')"
      using g(1) n(1,4) pending len unfolding d'_def by (subst readtape_read.simps) simp
    ultimately show ?thesis by blast
  qed
qed

lemma readtape_read_pending:
  assumes "tape_parts rchunk fail d (a, b, c) es" and "(a, b, c) \<noteq> ([], [], [])"
  shows "\<exists>res d' r'. readtape_read rchunk d r = Some (res, d', r') \<and>
    read_result rchunk fail (archive_bytes ((a, b, c) # es)) res d'"
proof -
  consider "a \<noteq> []" | "a = []" "b \<noteq> []" | "a = []" "b = []" "c \<noteq> []" using assms(2) by blast
  then show ?thesis
    by cases (rule readtape_read_header readtape_read_chunks readtape_read_trailer; use assms(1) in simp)+
qed

lemma readtape_read_parts:
  assumes "tape_parts rchunk fail d e es"
  shows "\<exists>res d' r'. readtape_read rchunk d r = Some (res, d', r') \<and>
    read_result rchunk fail (archive_bytes (e # es)) res d'"
  using assms
proof (induction es arbitrary: d e r)
  case base: Nil
  show ?case
  proof (cases "e = ([], [], [])")
    case False
    then show ?thesis using readtape_read_pending [of rchunk fail d "fst e" "fst (snd e)" "snd (snd e)" "[]" r] base
      by (cases e) auto
  next
    case True
    then have P: "tape_parts rchunk fail d ([], [], []) []" using base by simp
    then have z: "tr_hlen d = 0" "tr_clen d = 0" "tr_tlen d = 0" by (simp_all add: tape_parts_def)
    obtain rc d' r' where e: "get_entryheader rchunk d r = Some (rc, d', r')"
        "rc = -1 \<and> fail \<or> rc = 0 \<and> tape_parts rchunk fail d' ([], [], []) []"
      using entryheader_holds [OF P, of r] by auto
    have "tape_holds rchunk fail d' []" if "rc = 0"
      using e(2) that by (intro tape_holds_intro [of _ _ _ "([], [], [])" "[]"]) auto
    then show ?thesis using e z True
      by (subst readtape_read.simps) (auto simp: read_result_def)
  qed
next
  case (Cons e1 es)
  show ?case
  proof (cases "e = ([], [], [])")
    case False
    then show ?thesis using readtape_read_pending [of rchunk fail d "fst e" "fst (snd e)" "snd (snd e)" "e1 # es" r] Cons.prems
      by (cases e) auto
  next
    case True
    then have P: "tape_parts rchunk fail d ([], [], []) (e1 # es)" using Cons.prems by simp
    then have z: "tr_hlen d = 0" "tr_clen d = 0" "tr_tlen d = 0" by (simp_all add: tape_parts_def)
    obtain rc d' r' where e: "get_entryheader rchunk d r = Some (rc, d', r')"
        "rc = -1 \<and> fail \<or> rc = 1 \<and> tape_parts rchunk fail d' e1 es"
      using entryheader_holds [OF P, of r] by auto
    show ?thesis
    proof (cases "rc = 1")
      case False
      then show ?thesis using e z by (subst readtape_read.simps) (auto simp: read_result_def)
    next
      case rc: True
      then have "readtape_read rchunk d r = readtape_read rchunk d' r'"
        using e(1) z by (subst readtape_read.simps) simp
      moreover have "archive_bytes (e # e1 # es) = archive_bytes (e1 # es)" using True by simp
      ultimately show ?thesis using Cons.IH [of d' e1 r'] e(2) rc by auto
    qed
  qed
qed

lemma readtape_read_holds:
  assumes "tape_holds rchunk fail d content"
  shows "\<exists>res d' r'. readtape_read rchunk d r = Some (res, d', r') \<and> read_result rchunk fail content res d'"
proof -
  obtain e es where P: "tape_parts rchunk fail d e es" and c: "content = archive_bytes (e # es)"
    using assms unfolding tape_holds_def by blast
  show ?thesis unfolding c by (rule readtape_read_parts [OF P])
qed

subsection \<open>Skipping\<close>

lemma stream_holds_skip:
  assumes "stream_holds rchunk fail holds S data"
  shows "stream_holds rchunk fail holds (S\<lparr>rs_skiplen := rs_skiplen S + int k\<rparr>) (drop k data)"
proof -
  obtain hs bufs where P: "parts_hold rchunk fail holds S hs bufs" "rs_chunkpos S \<le> rs_chunklen S"
      "rs_chunklen S = length (rs_chunk S)" "rs_chunklen S < SSIZE_MAX"
      "data = drop (nat (rs_skiplen S)) (drop (rs_chunkpos S) (rs_chunk S) @ concat bufs)"
    using assms by (auto simp: stream_holds_def)
  define X where "X = drop (rs_chunkpos S) (rs_chunk S) @ concat bufs"
  have "0 \<le> rs_skiplen S" using P(1) by (simp add: parts_hold_def)
  then have "nat (rs_skiplen S + int k) = k + nat (rs_skiplen S)" by simp
  then have "drop k data = drop (nat (rs_skiplen S + int k)) X"
    using P(5) unfolding X_def [symmetric] by simp
  then show ?thesis unfolding stream_holds_def X_def using P(1-4) \<open>0 \<le> rs_skiplen S\<close>
    by (intro exI [of _ hs] exI [of _ bufs]) (simp add: parts_hold_def)
qed

text \<open>One round of the loop skips a pending part, or a piece of it.\<close>

lemma skip_pending:
  assumes P: "tape_parts rchunk fail d (a, b, c) es" and "(a, b, c) \<noteq> ([], [], [])" "skipped < request"
  shows "\<exists>d' n e'. readtape_skip rchunk d request skipped r = readtape_skip rchunk d' request (skipped + int n) r \<and>
    0 < n \<and> int n \<le> request - skipped \<and> n \<le> length (archive_bytes ((a, b, c) # es)) \<and>
    tape_parts rchunk fail d' e' es \<and> archive_bytes (e' # es) = drop n (archive_bytes ((a, b, c) # es))"
proof -
  have ok: "entry_ok (a, b, c)" and len: "tr_hlen d = int (length a)" "tr_clen d = int (length b)" "tr_tlen d = int (length c)"
    and h: "chunks_hold rchunk fail (tr_h d) (a @ header_stream es)"
    and s: "stream_holds rchunk fail (chunks_hold rchunk fail) (tr_c d) (b @ chunk_data es)"
    and t: "chunks_hold rchunk fail (tr_t d) (c @ trailer_data es)"
    using P by (simp_all add: tape_parts_def)
  have part: "\<exists>n. 0 < n \<and> n \<le> length x \<and> int n \<le> request - skipped \<and> skip_part (request - skipped) (int (length x)) = int n"
    if "x \<noteq> []" for x :: bytes
    using that assms(3) by (intro exI [of _ "nat (skip_part (request - skipped) (int (length x)))"]) auto
  consider (h) "a \<noteq> []" | (c) "a = []" "b \<noteq> []" | (t) "a = []" "b = []" "c \<noteq> []" using assms(2) by blast
  then show ?thesis
  proof cases
    case h
    then obtain n where n: "0 < n" "n \<le> length a" "int n \<le> request - skipped" "skip_part (request - skipped) (int (length a)) = int n"
      using part by blast
    define d' where "d' = d\<lparr>tr_hlen := tr_hlen d - int n, tr_h := (tr_h d)\<lparr>rs_skiplen := rs_skiplen (tr_h d) + int n\<rparr>\<rparr>"
    have "tape_parts rchunk fail d' (drop n a, b, c) es"
      using P entry_ok_drop(1) [OF ok] stream_holds_skip [OF \<open>chunks_hold rchunk fail (tr_h d) _\<close>, of n] n(2)
      by (simp add: tape_parts_def d'_def of_nat_diff)
    moreover have "readtape_skip rchunk d request skipped r = readtape_skip rchunk d' request (skipped + int n) r"
      unfolding d'_def n(4) [symmetric] len(1) [symmetric]
      using assms(3) h len by (subst readtape_skip.simps) (simp add: Let_def)
    ultimately show ?thesis using n by (intro exI [of _ d'] exI [of _ n] exI [of _ "(drop n a, b, c)"]) simp
  next
    case c
    then obtain n where n: "0 < n" "n \<le> length b" "int n \<le> request - skipped" "skip_part (request - skipped) (int (length b)) = int n"
      using part by blast
    define d' where "d' = d\<lparr>tr_clen := tr_clen d - int n, tr_c := (tr_c d)\<lparr>rs_skiplen := rs_skiplen (tr_c d) + int n\<rparr>\<rparr>"
    have "tape_parts rchunk fail d' (a, drop n b, c) es"
      using P entry_ok_drop(2) [OF ok] stream_holds_skip [OF s, of n] n(2)
      by (simp add: tape_parts_def d'_def of_nat_diff)
    moreover have "readtape_skip rchunk d request skipped r = readtape_skip rchunk d' request (skipped + int n) r"
      unfolding d'_def n(4) [symmetric] len(2) [symmetric]
      using assms(3) c len by (subst readtape_skip.simps) (simp add: Let_def)
    ultimately show ?thesis using n c(1) by (intro exI [of _ d'] exI [of _ n] exI [of _ "(a, drop n b, c)"]) simp
  next
    case t
    then obtain n where n: "0 < n" "n \<le> length c" "int n \<le> request - skipped" "skip_part (request - skipped) (int (length c)) = int n"
      using part by blast
    define d' where "d' = d\<lparr>tr_tlen := tr_tlen d - int n, tr_t := (tr_t d)\<lparr>rs_skiplen := rs_skiplen (tr_t d) + int n\<rparr>\<rparr>"
    have "tape_parts rchunk fail d' (a, b, drop n c) es"
      using P entry_ok_drop(3) [OF ok] stream_holds_skip [OF \<open>chunks_hold rchunk fail (tr_t d) _\<close>, of n] n(2)
      by (simp add: tape_parts_def d'_def of_nat_diff)
    moreover have "readtape_skip rchunk d request skipped r = readtape_skip rchunk d' request (skipped + int n) r"
      unfolding d'_def n(4) [symmetric] len(3) [symmetric]
      using assms(3) t len by (subst readtape_skip.simps) (simp add: Let_def)
    ultimately show ?thesis using n t(1,2) by (intro exI [of _ d'] exI [of _ n] exI [of _ "(a, b, drop n c)"]) simp
  qed
qed

definition skip_result :: "'r rchunk \<Rightarrow> bool \<Rightarrow> bytes \<Rightarrow> nat \<Rightarrow> int \<Rightarrow> int \<Rightarrow> tape_r \<Rightarrow> bool" where
  "skip_result rchunk fail content n skipped res d' \<longleftrightarrow>
     fail \<and> res = -1 \<or>
     res = skipped + int (min n (length content)) \<and> tape_holds rchunk fail d' (drop n content)"

lemma skip_result_add:
  assumes "skip_result rchunk fail (drop n content) m (skipped + int n) res d'" "n \<le> length content"
  shows "skip_result rchunk fail content (m + n) skipped res d'"
proof -
  have "int n + int (min m (length content - n)) = int (min (m + n) (length content))"
    unfolding of_nat_add [symmetric] of_nat_eq_iff using assms(2) by linarith
  then have "skipped + int n + int (min m (length content - n)) = skipped + int (min (m + n) (length content))"
    by linarith
  then show ?thesis using assms(1) unfolding skip_result_def by (simp only: drop_drop length_drop)
qed

lemma readtape_skip_parts:
  assumes "tape_parts rchunk fail d e es" "skipped \<le> request"
  shows "\<exists>res d' r'. readtape_skip rchunk d request skipped r = Some (res, d', r') \<and>
    skip_result rchunk fail (archive_bytes (e # es)) (nat (request - skipped)) skipped res d'"
  using assms
proof (induction "length es + nat (request - skipped)" arbitrary: d e es skipped r rule: less_induct)
  case less
  note P = less.prems(1)
  show ?case
  proof (cases "skipped < request")
    case False
    then show ?thesis using less.prems tape_holds_intro [OF P refl]
      by (subst readtape_skip.simps) (simp add: skip_result_def)
  next
    case True
    show ?thesis
    proof (cases "e = ([], [], [])")
      case False
      obtain a b c where e: "e = (a, b, c)" by (cases e)
      obtain d' n e' where s: "readtape_skip rchunk d request skipped r = readtape_skip rchunk d' request (skipped + int n) r"
          "0 < n" "int n \<le> request - skipped" "n \<le> length (archive_bytes (e # es))"
          "tape_parts rchunk fail d' e' es" "archive_bytes (e' # es) = drop n (archive_bytes (e # es))"
        using skip_pending [of rchunk fail d a b c es skipped request r] P False True unfolding e by blast
      obtain res d'' r' where "readtape_skip rchunk d' request (skipped + int n) r = Some (res, d'', r')"
        "skip_result rchunk fail (archive_bytes (e' # es)) (nat (request - (skipped + int n))) (skipped + int n) res d''"
        using less.hyps [OF _ s(5), of "skipped + int n" r] s(2,3) by auto
      moreover have "nat (request - (skipped + int n)) + n = nat (request - skipped)" using s(3) by simp
      ultimately show ?thesis
        using skip_result_add [of rchunk fail n "archive_bytes (e # es)" _ skipped res d''] s(1,4,6) by metis
    next
      case empty: True
      then have Pe: "tape_parts rchunk fail d ([], [], []) es" using P by simp
      then have z: "tr_hlen d = 0" "tr_clen d = 0" "tr_tlen d = 0" by (simp_all add: tape_parts_def)
      obtain rc d' r' where h: "get_entryheader rchunk d r = Some (rc, d', r')"
        "rc = -1 \<and> fail \<or> rc = 0 \<and> es = [] \<and> tape_parts rchunk fail d' ([], [], []) [] \<or>
         rc = 1 \<and> es \<noteq> [] \<and> tape_parts rchunk fail d' (hd es) (tl es)"
        using entryheader_holds [OF Pe, of r] by (elim exE conjE) (rule that)
      from h(2) show ?thesis
      proof (elim disjE conjE)
        assume "rc = -1" "fail"
        then show ?thesis using h(1) z True by (subst readtape_skip.simps) (simp add: skip_result_def)
      next
        assume "rc = 0" "es = []" "tape_parts rchunk fail d' ([], [], []) []"
        moreover from this(3) have "tape_holds rchunk fail d' []" by (rule tape_holds_intro) simp
        ultimately show ?thesis using h(1) z True empty
          by (subst readtape_skip.simps) (simp add: skip_result_def)
      next
        assume rc: "rc = 1" "es \<noteq> []" "tape_parts rchunk fail d' (hd es) (tl es)"
        have "\<exists>res d'' r''. readtape_skip rchunk d' request skipped r' = Some (res, d'', r'') \<and>
          skip_result rchunk fail (archive_bytes (hd es # tl es)) (nat (request - skipped)) skipped res d''"
          using rc True by (intro less.hyps [OF _ rc(3)]) (cases es, auto)
        moreover have "archive_bytes (hd es # tl es) = archive_bytes (e # es)" using rc(2) empty by (cases es) simp_all
        moreover have "readtape_skip rchunk d request skipped r = readtape_skip rchunk d' request skipped r'"
          using h(1) z True rc(1) by (subst readtape_skip.simps) simp
        ultimately show ?thesis by simp
      qed
    qed
  qed
qed

subsection \<open>Opening a tape, and reading it to its end\<close>

text \<open>The chunks of an archive with the entries \<open>es\<close>: those of the header and trailer streams, the
  chunks of file data with headers \<open>cs\<close>, and the chunks that store these headers.\<close>

definition archive_stored :: "'r rchunk \<Rightarrow> bool \<Rightarrow> tapemetaindex \<Rightarrow> entry list \<Rightarrow> bool" where
  "archive_stored rchunk fail tmi es \<longleftrightarrow>
     (\<exists>hs hbufs ih ibufs cs cbufs ts tbufs.
        mi_hindex tmi = concat hs \<and> list_all2 (chunk_ok rchunk fail) hs hbufs \<and> concat hbufs = header_stream es \<and>
        mi_cindex tmi = concat ih \<and> list_all2 (chunk_ok rchunk fail) ih ibufs \<and> concat ibufs = concat cs \<and>
        list_all2 (chunk_ok rchunk fail) cs cbufs \<and> concat cbufs = chunk_data es \<and>
        mi_tindex tmi = concat ts \<and> list_all2 (chunk_ok rchunk fail) ts tbufs \<and> concat tbufs = trailer_data es) \<and>
     list_all entry_ok es \<and>
     length (mi_hindex tmi) < SSIZE_MAX \<and> length (mi_cindex tmi) < SSIZE_MAX \<and> length (mi_tindex tmi) < SSIZE_MAX"

lemma archive_storedI:
  assumes "mi_hindex tmi = concat hs" "list_all2 (chunk_ok rchunk fail) hs hbufs" "concat hbufs = header_stream es"
    and "mi_cindex tmi = concat ih" "list_all2 (chunk_ok rchunk fail) ih ibufs" "concat ibufs = concat cs"
    and "list_all2 (chunk_ok rchunk fail) cs cbufs" "concat cbufs = chunk_data es"
    and "mi_tindex tmi = concat ts" "list_all2 (chunk_ok rchunk fail) ts tbufs" "concat tbufs = trailer_data es"
    and "list_all entry_ok es" "length (mi_hindex tmi) < SSIZE_MAX" "length (mi_cindex tmi) < SSIZE_MAX"
    and "length (mi_tindex tmi) < SSIZE_MAX"
  shows "archive_stored rchunk fail tmi es"
  unfolding archive_stored_def by (intro conjI exI) (rule assms)+

lemma tape_of_index_holds:
  assumes "archive_stored rchunk fail tmi es"
  shows "tape_holds rchunk fail (tape_of_index tmi) (archive_bytes es)"
proof -
  have new: "stream_holds rchunk fail holds (new_stream p) (concat bufs)"
    if "list_all2 (chunk_ok rchunk fail) xs bufs" "holds p (concat xs)"
    for holds and p :: 'p and xs bufs
    using that unfolding stream_holds_def
    by (intro exI [of _ xs] exI [of _ bufs]) (simp add: parts_hold_def new_stream_def)
  have index: "index_holds (index_stream x) x" if "length x < SSIZE_MAX" for x
    using that by (simp add: index_holds_def index_stream_def)
  obtain hs hbufs ih ibufs cs cbufs ts tbufs where A:
      "mi_hindex tmi = concat hs" "list_all2 (chunk_ok rchunk fail) hs hbufs" "concat hbufs = header_stream es"
      "mi_cindex tmi = concat ih" "list_all2 (chunk_ok rchunk fail) ih ibufs" "concat ibufs = concat cs"
      "list_all2 (chunk_ok rchunk fail) cs cbufs" "concat cbufs = chunk_data es"
      "mi_tindex tmi = concat ts" "list_all2 (chunk_ok rchunk fail) ts tbufs" "concat tbufs = trailer_data es"
    using assms unfolding archive_stored_def by (elim exE conjE) (rule that)
  have B': "list_all entry_ok es \<and> length (mi_hindex tmi) < SSIZE_MAX \<and> length (mi_cindex tmi) < SSIZE_MAX \<and>
      length (mi_tindex tmi) < SSIZE_MAX"
    using assms unfolding archive_stored_def by (rule conjunct2)
  then have B: "list_all entry_ok es" "length (mi_hindex tmi) < SSIZE_MAX" "length (mi_cindex tmi) < SSIZE_MAX"
      "length (mi_tindex tmi) < SSIZE_MAX"
    by simp_all
  have h: "chunks_hold rchunk fail (new_stream (index_stream (mi_hindex tmi))) (header_stream es)"
    using new [OF A(2)] index [OF B(2)] A(1,3) by metis
  have i: "chunks_hold rchunk fail (new_stream (index_stream (mi_cindex tmi))) (concat cs)"
    using new [OF A(5)] index [OF B(3)] A(4,6) by metis
  have c: "stream_holds rchunk fail (chunks_hold rchunk fail) (new_stream (new_stream (index_stream (mi_cindex tmi)))) (chunk_data es)"
    using new [OF A(7)] i A(8) by metis
  have t: "chunks_hold rchunk fail (new_stream (index_stream (mi_tindex tmi))) (trailer_data es)"
    using new [OF A(10)] index [OF B(4)] A(9,11) by metis
  have "tape_parts rchunk fail (tape_of_index tmi) ([], [], []) es"
    using h c t B(1) by (simp add: tape_parts_def tape_of_index_def)
  then show ?thesis by (rule tape_holds_intro) simp
qed

text \<open>A client reads until it gets no more data.\<close>

partial_function (option) read_archive :: "'r rchunk \<Rightarrow> tape_r \<Rightarrow> bytes \<Rightarrow> 'r \<Rightarrow> ((int + bytes) \<times> tape_r \<times> 'r) option" where
  "read_archive rchunk d acc r =
     (case readtape_read rchunk d r of
        None \<Rightarrow> None
      | Some (Inl rc, d, r) \<Rightarrow> Some (Inl rc, d, r)
      | Some (Inr buf, d, r) \<Rightarrow>
          if buf = [] then Some (Inr acc, d, r) else read_archive rchunk d (acc @ buf) r)"

lemma read_archive_holds:
  assumes "tape_holds rchunk fail d content"
  shows "\<exists>res d' r'. read_archive rchunk d acc r = Some (res, d', r') \<and>
    (res = Inr (acc @ content) \<or> fail \<and> res = Inl (-1))"
  using assms
proof (induction "length content" arbitrary: content d acc r rule: less_induct)
  case less
  obtain res d' r' where rd: "readtape_read rchunk d r = Some (res, d', r')" "read_result rchunk fail content res d'"
    using readtape_read_holds [OF less.prems, of r] by (elim exE conjE) (rule that)
  from rd(2) show ?case unfolding read_result_def
  proof (elim disjE exE conjE)
    assume "fail" "res = Inl (-1)"
    then show ?thesis using rd(1) by (subst read_archive.simps) simp
  next
    fix buf assume buf: "res = Inr buf" "prefix buf content" "buf = [] \<longrightarrow> content = []"
      "tape_holds rchunk fail d' (drop (length buf) content)"
    show ?thesis
    proof (cases "buf = []")
      case True
      then show ?thesis using rd(1) buf by (subst read_archive.simps) simp
    next
      case False
      have "content = buf @ drop (length buf) content" using buf(2) by (auto simp: prefix_def)
      moreover have "length (drop (length buf) content) < length content"
        using False buf(2) by (auto simp: prefix_def)
      from less.hyps [OF this buf(4), of "acc @ buf" r']
      have "\<exists>res d'' r''. read_archive rchunk d' (acc @ buf) r' = Some (res, d'', r'') \<and>
        (res = Inr ((acc @ buf) @ drop (length buf) content) \<or> fail \<and> res = Inl (-1))" .
      moreover have "read_archive rchunk d acc r = read_archive rchunk d' (acc @ buf) r'"
        using rd(1) buf(1) False by (subst read_archive.simps) simp
      ultimately show ?thesis by (metis append.assoc)
    qed
  qed
qed

lemma skip_then_read:
  assumes "tape_holds rchunk fail d content" "0 \<le> n"
  shows "\<exists>res d' r'. readtape_skip rchunk d n 0 r = Some (res, d', r') \<and>
    (fail \<and> res = -1 \<or>
     res = min n (int (length content)) \<and>
     (\<exists>res2 d2 r2. read_archive rchunk d' [] r' = Some (res2, d2, r2) \<and>
        (res2 = Inr (drop (nat n) content) \<or> fail \<and> res2 = Inl (-1))))"
proof -
  obtain e es where P: "tape_parts rchunk fail d e es" and c: "content = archive_bytes (e # es)"
    using assms unfolding tape_holds_def by blast
  obtain res d' r' where s: "readtape_skip rchunk d n 0 r = Some (res, d', r')"
      "skip_result rchunk fail content (nat n) 0 res d'"
    using readtape_skip_parts [OF P assms(2), of r] unfolding c by auto
  have "int (min (nat n) (length content)) = min n (int (length content))" using assms(2) by simp
  then show ?thesis using s read_archive_holds [of rchunk fail d' "drop (nat n) content" "[]" r']
    unfolding skip_result_def by auto
qed

subsection \<open>Properties\<close>

text \<open>A storage whose chunks are found by a hash that is their own beginning.\<close>

definition toy_rchunk :: "unit rchunk" where
  "toy_rchunk r hash len zlen = (Inr (take len hash), r)"

definition toy_header :: "bytes \<Rightarrow> bytes" where
  "toy_header b = b @ replicate (32 - length b) 0 @ le32enc (of_nat (length b)) @ le32enc 0"

lemma toy_header_ok: "length b \<le> 32 \<Longrightarrow> chunk_ok toy_rchunk False (toy_header b) b"
  by (simp add: chunk_ok_def toy_header_def toy_rchunk_def unat_of_nat_32 del: unat_u32_less)

lemma toy_headers_ok:
  "list_all (\<lambda>b. length b \<le> 32) bs \<Longrightarrow> list_all2 (chunk_ok toy_rchunk False) (map toy_header bs) bs"
  by (induction bs) (simp_all add: toy_header_ok)

lemma toy_stored:
  assumes "list_all (\<lambda>b. length b \<le> 32) (hb @ ib @ cb)"
    and "concat hb = header_stream es" "concat ib = concat (map toy_header cb)" "concat cb = chunk_data es"
    and "trailer_data es = []" "list_all entry_ok es"
    and "length (concat (map toy_header hb)) < SSIZE_MAX" "length (concat (map toy_header ib)) < SSIZE_MAX"
  shows "archive_stored toy_rchunk False
    \<lparr>mi_hindex = concat (map toy_header hb), mi_cindex = concat (map toy_header ib), mi_tindex = []\<rparr> es"
  using assms
  by (intro archive_storedI [OF _ toy_headers_ok [of hb] _ _ toy_headers_ok [of ib] _ toy_headers_ok [of cb], where ts = "[]" and tbufs = "[]"])
    simp_all

text \<open>An archive with one entry: a header of one byte, two bytes of chunked data, no trailer.\<close>

definition toy_tape :: tapemetaindex where
  "toy_tape = \<lparr>mi_hindex = concat (map toy_header [entry_header 1 2 0, [7]]),
     mi_cindex = concat (map toy_header [take 20 (toy_header [8, 9]), drop 20 (toy_header [8, 9])]), mi_tindex = []\<rparr>"

lemma toy_tape_stored: "archive_stored toy_rchunk False toy_tape [([7], [8, 9], [])]"
proof -
  have len: "length (entry_header 1 2 0) = 16" "length (toy_header b) = 40" if "length b \<le> 32" for b
    using that by (simp_all add: entry_header_def toy_header_def)
  define x where "x = toy_header [8, 9]"
  have x: "length x = 40" "concat [take 20 x, drop 20 x] = x" using len [of "[8, 9]"] by (simp_all add: x_def)
  show ?thesis unfolding toy_tape_def
  proof (rule toy_stored [where cb = "[[8, 9]]"], goal_cases)
    case 1 then show ?case using len [of "[]"] x(1) unfolding x_def [symmetric] by simp
  next
    case 2 then show ?case by (simp add: numeral_2_eq_2)
  next
    case 3 then show ?case using x(2) by (simp add: x_def)
  next
    case 7 then show ?case using len [of "[7]"] len [of "entry_header 1 2 0"] len(1) [of "[]"] by simp
  next
    case 8
    have "length (toy_header (take 20 x)) = 40" "length (toy_header (drop 20 x)) = 40"
      using x(1) by (simp_all add: len(2))
    then show ?case unfolding x_def [symmetric] by simp
  qed simp_all
qed

text \<open>C9: An archive is read exactly: when the index of a tape names chunks that hold the archive
  entries, reading until the end ends, and gives the bytes of the entries in their order (header,
  chunked data, trailer of each); if the storage fails or answers with forged data, the reader
  reports an error, and never other data or a shorter archive.\<close>

theorem archive_read_exact:
  assumes "archive_stored rchunk fail tmi es"
  shows "\<exists>res d' r'. read_archive rchunk (tape_of_index tmi) [] r = Some (res, d', r') \<and>
    (res = Inr (archive_bytes es) \<or> fail \<and> res = Inl (-1))"
  using read_archive_holds [OF tape_of_index_holds [OF assms], of "[]" r] by simp

lemma archive_read_exact_witness:
  "\<exists>d'. read_archive toy_rchunk (tape_of_index toy_tape) [] () = Some (Inr [7, 8, 9], d', ())"
  using archive_read_exact [OF toy_tape_stored, of "()"] by simp

text \<open>C25: Skipping \<open>n\<close> bytes of a tape skips exactly that many, or all that is left, at any position
  (in a header, in file data, across chunks and entries), and reading on gives the bytes after them.\<close>

theorem skip_read_exact:
  assumes "tape_holds rchunk fail d content" "0 \<le> n"
  shows "\<exists>res d' r'. readtape_skip rchunk d n 0 r = Some (res, d', r') \<and>
    (fail \<and> res = -1 \<or>
     res = min n (int (length content)) \<and>
     (\<exists>res2 d2 r2. read_archive rchunk d' [] r' = Some (res2, d2, r2) \<and>
        (res2 = Inr (drop (nat n) content) \<or> fail \<and> res2 = Inl (-1))))"
  by (rule skip_then_read [OF assms])

lemma skip_read_exact_witness:
  "\<exists>d1 d2. readtape_skip toy_rchunk (tape_of_index toy_tape) 2 0 () = Some (2, d1, ()) \<and>
     read_archive toy_rchunk d1 [] () = Some (Inr [9], d2, ())"
  using skip_read_exact [OF tape_of_index_holds [OF toy_tape_stored], of 2 "()"] by auto

end
