(* ===== verification/Tape_Delete.thy ===== *)
theory Tape_Delete
  imports Tape_Read Chunk_Lifecycle Multitape_Transaction
begin

text \<open>
  \<^verbatim>\<open>tar/multitape/multitape_delete.c\<close>: deleting an archive.  The keys, zlib and the storage layer,
  with its cookies \<open>'r\<close> for reading and \<open>'s\<close> for deleting, are the record \<open>delete_env\<close>; the cache, the
  log of the server and the cookie for reading are the record \<open>delete_world\<close>.  \<^const>\<open>None\<close> is a call
  that does not return.
\<close>

record ('r, 's) delete_env =
  de_cr :: crypto
  de_hash :: "bytes \<Rightarrow> bytes"                        \<comment> \<open>the keyed hash of the chunk table\<close>
  de_ralloc :: "'r rfile_alloc"
  de_rfile :: "'r rfile"
  de_addcache :: "'r addcache"
  de_uncompress :: uncompress
  de_set_limit :: "'r \<Rightarrow> nat \<Rightarrow> 'r"                   \<comment> \<open>\<^verbatim>\<open>storage_read_set_cache_limit\<close>\<close>
  de_start :: "u64 \<Rightarrow> bytes \<Rightarrow> ('s \<times> bytes) option"  \<comment> \<open>\<^verbatim>\<open>storage_delete_start\<close>: cookie, sequence number\<close>
  de_dfile :: "'s dfile"
  de_flush :: "'s \<Rightarrow> int \<times> 's"
  de_end :: "'s \<Rightarrow> int \<times> 's"
  de_flt :: fault
  de_srv :: storage
  de_printstats :: "chunks_d \<Rightarrow> bool"               \<comment> \<open>whether the statistics can be printed\<close>

record 'r delete_world =
  dw_R :: 'r
  dw_fs :: fs
  dw_log :: storage_log
  dw_modified :: bool

text \<open>The callback works on the cookies of the chunk layer and of the storage layer.\<close>

definition callback_delete_chunk :: "(bytes \<Rightarrow> bytes) \<Rightarrow> 's dfile \<Rightarrow> (chunks_d \<times> 's) option \<Rightarrow> bytes
    \<Rightarrow> int \<times> (chunks_d \<times> 's) option" where
  "callback_delete_chunk hash dfile CS ch =
     (case CS of
        None \<Rightarrow> (-1, None)
      | Some (C, S) \<Rightarrow>
          (case chunks_delete_chunk hash dfile C (ch_hash ch) S of
             None \<Rightarrow> (-1, None)
           | Some (rc, C, S) \<Rightarrow> (rc, Some (C, S))))"

definition deletetape_init :: "mem \<Rightarrow> (u64 \<Rightarrow> 'r option) \<Rightarrow> u64 \<Rightarrow> 'r option" where
  "deletetape_init ma storage_read_init machinenum = (if \<not> ma 0 then None else storage_read_init machinenum)"

text \<open>From the metadata to the flush: the return value, and the cookies.\<close>

definition delete_files :: "('r, 's) delete_env \<Rightarrow> (nat \<Rightarrow> mem) \<Rightarrow> tapemetadata \<Rightarrow> bytes \<Rightarrow> 'r \<Rightarrow> chunks_d \<Rightarrow> 's
    \<Rightarrow> (int \<times> 'r \<times> chunks_d \<times> 's) option" where
  "delete_files DE ma junk tapename SR C S =
     (case multitape_metadata_get_byname (ma 0) (de_cr DE) (de_ralloc DE) SR None junk tapename of
        (Inl rc, SR, _) \<Rightarrow> Some (if rc = 1 then 1 else -1, SR, C, S)
      | (Inr tmd, SR, _) \<Rightarrow>
          (case multitape_chunkiter_tmd (ma 1) (de_cr DE) (de_rfile DE) (de_addcache DE) (de_uncompress DE) tmd
                  (callback_delete_chunk (de_hash DE) (de_dfile DE)) SR None (\<lambda>_. Some (C, S)) of
             (rc, SR, None) \<Rightarrow> None
           | (rc, SR, Some (C, S)) \<Rightarrow>
               if rc \<noteq> 0 then Some (-1, SR, C, S)
               else case multitape_metaindex_delete (de_cr DE) (de_dfile DE) S C tmd of (rc, S, C) \<Rightarrow>
               if rc \<noteq> 0 then Some (-1, SR, C, S)
               else case multitape_metadata_delete (de_cr DE) (de_dfile DE) S C tmd of (rc, S, C) \<Rightarrow>
               if rc \<noteq> 0 then Some (-1, SR, C, S)
               else case de_flush DE S of (rc, S) \<Rightarrow> Some (if rc \<noteq> 0 then -1 else 0, SR, C, S)))"

text \<open>\<open>lock\<close> says whether the cache directory can be locked; the cookie of the deletion is returned with the
  result.\<close>

definition deletetape :: "('r, 's) delete_env \<Rightarrow> (nat \<Rightarrow> mem) \<Rightarrow> bytes option \<Rightarrow> tapemetadata \<Rightarrow> bool \<Rightarrow> u64
    \<Rightarrow> string \<Rightarrow> bytes \<Rightarrow> bool \<Rightarrow> 'r delete_world \<Rightarrow> (int \<times> 's option \<times> 'r delete_world) option" where
  "deletetape DE ma entropy junk lock machinenum cachedir tapename printstats w =
     (if \<not> lock then Some (-1, None, w)
      else case multitape_cleanstate (de_flt DE) (de_srv DE) cachedir machinenum 1 (dw_fs w) (dw_log w) (dw_modified w) of
             (rc, fs, log, modified) \<Rightarrow>
      let w = w\<lparr>dw_fs := fs, dw_log := log, dw_modified := modified\<rparr> in
      if rc \<noteq> 0 then Some (-1, None, w)
      else case multitape_sequence (de_flt DE) cachedir (dw_fs w) of
             (None, fs) \<Rightarrow> Some (-1, None, w\<lparr>dw_fs := fs\<rparr>)
           | (Some lastseq, fs) \<Rightarrow>
      let w = w\<lparr>dw_fs := fs\<rparr> in
      (case de_start DE machinenum lastseq of
         None \<Rightarrow> Some (-1, None, w)
       | Some (S, seqnum) \<Rightarrow>
      (case chunks_delete_start (de_flt DE) (de_hash DE) entropy cachedir (dw_fs w) of
         None \<Rightarrow> None
       | Some (None, fs) \<Rightarrow> Some (-1, Some S, w\<lparr>dw_fs := fs\<rparr>)
       | Some (Some C, fs) \<Rightarrow>
      (case delete_files DE ma junk tapename (de_set_limit DE (dw_R w) (100 * chunks_delete_getdirsz C)) C S of
         None \<Rightarrow> None
       | Some (rc, SR, C, S) \<Rightarrow>
      let w = w\<lparr>dw_fs := fs, dw_R := SR\<rparr> in
      if rc \<noteq> 0 then Some (rc, Some S, w)
      else if printstats \<and> \<not> de_printstats DE C then Some (-1, Some S, w)
      else case chunks_delete_end (de_flt DE) C (dw_fs w) of (rc, fs) \<Rightarrow>
      let w = w\<lparr>dw_fs := fs\<rparr> in
      if rc \<noteq> 0 then Some (-1, Some S, w)
      else case de_end DE S of (rc, S) \<Rightarrow>
      if rc \<noteq> 0 then Some (-1, Some S, w)
      else case multitape_commit (de_flt DE) (de_srv DE) cachedir machinenum seqnum 1 (dw_fs w) (dw_log w) (dw_modified w) of
             (rc, fs, log, modified) \<Rightarrow>
      Some (if rc \<noteq> 0 then -1 else 0, Some S, w\<lparr>dw_fs := fs, dw_log := log, dw_modified := modified\<rparr>)))))"

subsection \<open>The chunks of an archive, in some order\<close>

fun visit :: "('s \<Rightarrow> bytes \<Rightarrow> int \<times> 's) \<Rightarrow> bytes list \<Rightarrow> 's \<Rightarrow> int \<times> 's" where
  "visit func [] s = (0, s)"
| "visit func (v # vs) s = (case func s v of (rc, s) \<Rightarrow> if rc \<noteq> 0 then (rc, s) else visit func vs s)"

lemma visit_append:
  "visit func (us @ vs) s = (case visit func us s of (rc, s) \<Rightarrow> if rc \<noteq> 0 then (rc, s) else visit func vs s)"
  by (induction us arbitrary: s) (auto split: prod.splits)

lemma iter_headers_visit:
  assumes "\<forall>x\<in>set xs. length x = 40" "length r < 40" "iter_headers func (concat xs @ r) s = (rc, r', s')"
  shows "visit func xs s = (rc, s') \<and> (rc = 0 \<longrightarrow> r' = r)"
  using assms
proof (induction xs arbitrary: s)
  case Nil
  then show ?case by (subst (asm) iter_headers.simps) simp
next
  case (Cons x xs)
  have x: "length x = 40" using Cons.prems(1) by simp
  obtain rc1 s1 where f: "func s x = (rc1, s1)" by fastforce
  have td: "take 40 (concat (x # xs) @ r) = x" "drop 40 (concat (x # xs) @ r) = concat xs @ r" "40 \<le> length (concat (x # xs) @ r)"
    using x by simp_all
  have "iter_headers func (concat (x # xs) @ r) s =
      (if rc1 \<noteq> 0 then (rc1, concat (x # xs) @ r, s1) else iter_headers func (concat xs @ r) s1)"
    by (subst iter_headers.simps, unfold td) (use td(3) f in simp)
  then show ?case using Cons.IH [of s1] Cons.prems f by (cases "rc1 = 0") auto
qed

text \<open>A prefix of a list of headers.\<close>

lemma split_headers:
  assumes "\<forall>x\<in>set cs. length x = 40" "concat cs = a @ b"
  shows "\<exists>xs cs' r. cs = xs @ cs' \<and> a = concat xs @ r \<and> length r < 40 \<and> concat cs' = r @ b"
  using assms
proof (induction cs arbitrary: a)
  case Nil
  then show ?case by simp
next
  case (Cons x cs)
  show ?case
  proof (cases "length a < 40")
    case True
    then show ?thesis using Cons.prems(2) by (intro exI [of _ "[]"] exI [of _ "x # cs"] exI [of _ a]) simp
  next
    case False
    have x: "length x = 40" using Cons.prems(1) by simp
    have "take 40 (x @ concat cs) = take 40 (a @ b)" using Cons.prems(2) by simp
    then have "take 40 a = x" using x False by simp
    then have a: "a = x @ drop 40 a" by (metis append_take_drop_id)
    have "x @ concat cs = x @ drop 40 a @ b" using Cons.prems(2) a by (metis append.assoc concat.simps(2))
    then have "concat cs = drop 40 a @ b" by simp
    then obtain xs cs' r where r: "cs = xs @ cs'" "drop 40 a = concat xs @ r" "length r < 40" "concat cs' = r @ b"
      using Cons.IH [of "drop 40 a"] Cons.prems(1) by auto
    then show ?thesis using a by (intro exI [of _ "x # xs"] exI [of _ cs'] exI [of _ r]) simp
  qed
qed

lemma chunks_read_chunk_error:
  assumes "\<And>S n c h. fst (rfile S n c h) \<noteq> Inl 0"
  shows "fst (chunks_read_chunk cr rfile u CR S hash len zlen) \<noteq> Inl 0"
  using assms [of S zlen "CHR ''c''" hash]
  by (auto simp: chunks_read_chunk_def split: prod.splits sum.splits option.splits if_splits)

text \<open>Where the cache does not fail, a jump to the error exit is an error.\<close>

lemma iter_cindex_error:
  assumes cache: "\<And>S c h. fst (addcache S c h) = 0" and nz: "\<And>S n c h. fst (rfile S n c h) \<noteq> Inl 0"
  shows "iter_cindex cr rfile addcache u CR func cindex ibuf S s = Inl (rc, S', s') \<Longrightarrow> rc \<noteq> 0"
proof (induction "length cindex" arbitrary: cindex ibuf S s rule: less_induct)
  case less
  show ?case
  proof (cases "40 \<le> length cindex")
    case False
    then show ?thesis using less.prems by (subst (asm) iter_cindex.simps) simp
  next
    case True
    then have small: "length (drop 40 cindex) < length cindex" by simp
    let ?v = "take 40 cindex"
    obtain S1 where S1: "addcache S (CHR ''c'') (ch_hash ?v) = (0, S1)"
      using cache [of S "CHR ''c''" "ch_hash ?v"] by (metis prod.collapse)
    obtain x S2 where x: "chunks_read_chunk cr rfile u CR S1 (ch_hash ?v) (ch_len ?v) (ch_zlen ?v) = (x, S2)" by fastforce
    have "x \<noteq> Inl 0" using chunks_read_chunk_error [of rfile cr u CR S1 "ch_hash ?v" "ch_len ?v" "ch_zlen ?v", OF nz] x by simp
    then show ?thesis
      using less.prems less.hyps [OF small] True S1 x
      by (subst (asm) iter_cindex.simps)
        (auto simp: chunks_read_cache_def Let_def split: prod.splits if_splits sum.splits)
  qed
qed

text \<open>The index of the chunk index: what is read are the chunks \<open>ibufs\<close>, or there is an error.\<close>

lemma iter_cindex_visit:
  assumes cache: "\<And>S c h. fst (addcache S c h) = 0"
    and ok: "list_all2 (chunk_ok (chunks_read_chunk cr rfile u CR) True) ih ibufs"
    and cs: "\<forall>x\<in>set cs. length x = 40" "concat cs = ibuf @ concat ibufs" "length ibuf < 40"
    and run: "iter_cindex cr rfile addcache u CR func (concat ih) ibuf S s = Inr (S', s')"
  shows "\<exists>vs. mset vs = mset (ih @ cs) \<and> visit func vs s = (0, s')"
  using ok cs run
proof (induction ih arbitrary: ibufs cs ibuf S s)
  case Nil
  then have "ibufs = []" by simp
  then have "concat cs = ibuf" using Nil.prems(3) by simp
  then have "cs = []" using Nil.prems(2,4) by (cases cs) auto
  then show ?case using Nil.prems(5) by (subst (asm) iter_cindex.simps) simp
next
  case (Cons i ih)
  obtain b ibufs' where b: "ibufs = b # ibufs'" "chunk_ok (chunks_read_chunk cr rfile u CR) True i b"
      "list_all2 (chunk_ok (chunks_read_chunk cr rfile u CR) True) ih ibufs'"
    using Cons.prems(1) by (auto simp: list_all2_Cons1)
  have i: "length i = 40" using b(2) by (simp add: chunk_ok_def)
  obtain s1 where s1: "func s i = (0, s1)"
    using Cons.prems(5) i by (subst (asm) iter_cindex.simps) (auto simp: Let_def split: prod.splits if_splits)
  obtain e S1 where S1: "addcache S (CHR ''c'') (ch_hash i) = (0, S1)"
    using cache [of S "CHR ''c''" "ch_hash i"] by (metis prod.collapse)
  obtain res S2 where r: "chunks_read_chunk cr rfile u CR S1 (ch_hash i) (ch_len i) (ch_zlen i) = (res, S2)"
      "res = Inr b \<or> (\<exists>rc. res = Inl rc)"
    using b(2) unfolding chunk_ok_def by blast
  have step: "iter_cindex cr rfile addcache u CR func (concat (i # ih)) ibuf S s =
      (if ch_len i > MAXCHUNK then Inl (2, S, s1)
       else case res of
         Inl rc \<Rightarrow> Inl (rc, S2, s1)
       | Inr b \<Rightarrow> (case iter_headers func (ibuf @ b) s1 of (rc, ibuf, s) \<Rightarrow>
           if rc \<noteq> 0 then Inl (rc, S2, s) else iter_cindex cr rfile addcache u CR func (concat ih) ibuf S2 s))"
  proof -
    have td: "take 40 (concat (i # ih)) = i" "drop 40 (concat (i # ih)) = concat ih" "40 \<le> length (concat (i # ih))"
      using i by simp_all
    show ?thesis
      by (subst iter_cindex.simps, unfold td) (use td(3) s1 S1 r(1) in \<open>simp add: chunks_read_cache_def min_def\<close>)
  qed
  obtain xs cs' ibuf' where x: "cs = xs @ cs'" "ibuf @ b = concat xs @ ibuf'" "length ibuf' < 40" "concat cs' = ibuf' @ concat ibufs'"
    using split_headers [OF Cons.prems(2), of "ibuf @ b" "concat ibufs'"] Cons.prems(3) by (auto simp: b(1))
  have len: "\<forall>x\<in>set xs. length x = 40" "\<forall>x\<in>set cs'. length x = 40" using Cons.prems(2) by (simp_all add: x(1))
  obtain rc r' s2 where h: "iter_headers func (ibuf @ b) s1 = (rc, r', s2)" by (metis prod_cases3)
  have v: "visit func xs s1 = (rc, s2)" "rc = 0 \<longrightarrow> r' = ibuf'"
    using iter_headers_visit [OF len(1) x(3), of func s1 rc r' s2] h by (simp_all add: x(2))
  have "res = Inr b" "rc = 0" "iter_cindex cr rfile addcache u CR func (concat ih) ibuf' S2 s2 = Inr (S', s')"
    using Cons.prems(5) r(2) h v unfolding step by (auto split: if_splits)
  then obtain vs where vs: "mset vs = mset (ih @ cs')" "visit func vs s2 = (0, s')"
    using Cons.IH [OF b(3) len(2) x(4,3)] by blast
  then show ?case
    using s1 v \<open>rc = 0\<close> by (intro exI [of _ "i # xs @ vs"]) (simp add: x(1) visit_append)
qed


subsection \<open>Allocations that succeed\<close>

lemma parse_argv_mem: "parse_argv ma k n p = Inr x \<Longrightarrow> parse_argv mem_ok k' n p = Inr x"
proof (induction n arbitrary: k k' p x)
  case (Suc n)
  obtain a q where q: "nul_string p = Some (a, q)" "ma k"
    using Suc.prems by (auto split: option.splits if_splits)
  obtain y where y: "parse_argv ma (Suc k) n q = Inr y" "x = (case y of (as, p) \<Rightarrow> (a # as, p))"
    using Suc.prems q by (auto split: sum.splits prod.splits)
  then show ?case using Suc.IH [OF y(1), of "Suc k'"] q by (simp split: prod.splits)
qed simp

lemma metadata_dec_mem:
  assumes "multitape_metadata_dec ma cr mdat buf = Inr m"
  shows "multitape_metadata_dec mem_ok cr mdat buf = Inr m"
proof -
  obtain name p where n: "nul_string buf = Some (name, p)"
    using assms by (cases "nul_string buf") (auto simp: multitape_metadata_dec_def)
  let ?argc = "sint (le32dec (drop 8 p))" and ?q = "drop 4 (drop 8 p)"
  have g: "ma 0" "\<not> length p < 8" "\<not> length (drop 8 p) < 4" "\<not> (?argc < 0 \<or> ?argc > int (length ?q))" "ma 1"
    using assms unfolding multitape_metadata_dec_def n option.case prod.case Let_def by (simp_all split: if_splits)
  obtain x where x: "parse_argv ma 2 (nat ?argc) ?q = Inr x"
    using assms g unfolding multitape_metadata_dec_def n option.case prod.case Let_def by (cases "parse_argv ma 2 (nat ?argc) ?q") simp_all
  note y = parse_argv_mem [OF x, of 2]
  show ?thesis
    using assms g unfolding multitape_metadata_dec_def n option.case prod.case Let_def x y by simp
qed

lemma metadata_get_byname_mem:
  assumes "multitape_metadata_get_byname ma cr ralloc S C junk name = (Inr m, S', C')"
  shows "multitape_metadata_get_byname mem_ok cr ralloc S C junk name = (Inr m, S', C')"
proof -
  obtain h where h: "crypto_hash_data cr CRYPTO_KEY_HMAC_NAME name = Some h"
    using assms by (cases "crypto_hash_data cr CRYPTO_KEY_HMAC_NAME name") (auto simp: multitape_metadata_get_byname_def)
  obtain b S1 where b: "ralloc S (CHR ''m'') h = (Inr b, S1)"
    using assms h by (cases "ralloc S (CHR ''m'') h")
      (auto simp: multitape_metadata_get_byname_def multitape_metadata_get_def split: sum.splits)
  obtain m1 where m1: "multitape_metadata_dec ma cr junk b = Inr m1"
    using assms h b by (cases "multitape_metadata_dec ma cr junk b")
      (auto simp: multitape_metadata_get_byname_def multitape_metadata_get_def Let_def)
  show ?thesis
    using assms unfolding multitape_metadata_get_byname_def multitape_metadata_get_def h option.case b prod.case sum.case
      Let_def m1 metadata_dec_mem [OF m1] .
qed

lemma index_dec_mem: "index_dec ma buf = Inr x \<Longrightarrow> index_dec True buf = Inr x"
  by (cases ma) (simp_all add: index_dec_def Let_def split: if_split_asm)

lemma metaindex_dec_mem: "metaindex_dec ma buf = Inr m \<Longrightarrow> metaindex_dec mem_ok buf = Inr m"
proof -
  assume a: "metaindex_dec ma buf = Inr m"
  obtain h r1 where h: "index_dec (ma 0) buf = Inr (h, r1)"
    using a by (cases "index_dec (ma 0) buf") (auto simp: metaindex_dec_def)
  obtain c r2 where c: "index_dec (ma 1) r1 = Inr (c, r2)"
    using a h by (cases "index_dec (ma 1) r1") (auto simp: metaindex_dec_def)
  obtain t r3 where t: "index_dec (ma 2) r2 = Inr (t, r3)"
    using a h c by (cases "index_dec (ma 2) r2") (auto simp: metaindex_dec_def)
  show ?thesis
    using a by (simp add: metaindex_dec_def h c t index_dec_mem [OF h] index_dec_mem [OF c] index_dec_mem [OF t] del: One_nat_def
        split: if_split_asm)
qed

lemma metaindex_get_mem:
  assumes "multitape_metaindex_get ma cr rfile S C m = (Inr tmi, S', C')"
  shows "multitape_metaindex_get mem_ok cr rfile S C m = (Inr tmi, S', C')"
proof -
  obtain h where h: "crypto_hash_data cr CRYPTO_KEY_HMAC_NAME (tm_name m) = Some h"
    using assms by (cases "crypto_hash_data cr CRYPTO_KEY_HMAC_NAME (tm_name m)") (auto simp: multitape_metaindex_get_def)
  obtain b S1 C1 where b: "get_frags cr rfile h (unat (tm_indexlen m)) 0 [] S C = (Inr b, S1, C1)"
    using assms h by (auto simp: multitape_metaindex_get_def split: if_splits sum.splits prod.splits)
  obtain h2 where h2: "crypto_hash_data cr CRYPTO_KEY_HMAC_SHA256 b = Some h2"
      "crypto_verify_bytes (tm_indexhash m) h2 32 = 0"
    using assms h b by (auto simp: multitape_metaindex_get_def split: if_splits option.splits)
  have "metaindex_dec (\<lambda>k. ma (Suc k)) b = Inr tmi" "S' = S1" "C' = C1"
    using assms h b h2 by (auto simp: multitape_metaindex_get_def split: if_splits)
  then show ?thesis using h b h2 metaindex_dec_mem by (auto simp: multitape_metaindex_get_def)
qed

lemma get_frags_error:
  assumes nz: "\<And>S n c h. fst (rfile S n c h) \<noteq> Inl 0"
  shows "fst (get_frags cr rfile h indexlen n mbuf S C) \<noteq> Inl 0"
proof (induction "indexlen - n * MAXIFRAG" arbitrary: n mbuf S C rule: less_induct)
  case less
  show ?case
  proof (cases "n * MAXIFRAG < indexlen")
    case True
    then have small: "indexlen - Suc n * MAXIFRAG < indexlen - n * MAXIFRAG"
      by (simp add: MAXIFRAG_def MAXCHUNK_def)
    let ?f = "rfile S (frag_length indexlen n) (CHR ''i'') (multitape_metaindex_fragname cr h (of_nat n))"
    obtain x S1 where x: "?f = (x, S1)" by fastforce
    have "x \<noteq> Inl 0" using nz [of S "frag_length indexlen n" "CHR ''i''" "multitape_metaindex_fragname cr h (of_nat n)"] x by simp
    then show ?thesis using True x less [of "Suc n", OF small] by (subst get_frags.simps) (auto simp: Let_def split: sum.splits)
  qed (subst get_frags.simps, simp)
qed

lemma metaindex_get_error:
  assumes "\<And>S n c h. fst (rfile S n c h) \<noteq> Inl 0"
  shows "fst (multitape_metaindex_get ma cr rfile S C m) \<noteq> Inl 0"
proof -
  have i: "index_dec ma b \<noteq> Inl 0" for ma b by (simp add: index_dec_def Let_def)
  have dec: "metaindex_dec ma b \<noteq> Inl 0" for ma b
    using i by (auto simp: metaindex_dec_def split: sum.splits prod.splits)
  show ?thesis
  proof (cases "crypto_hash_data cr CRYPTO_KEY_HMAC_NAME (tm_name m)")
    case (Some h)
    obtain x S1 C1 where x: "get_frags cr rfile h (unat (tm_indexlen m)) 0 [] S C = (x, S1, C1)" by (metis prod_cases3)
    have "x \<noteq> Inl 0" using get_frags_error [of rfile cr h "unat (tm_indexlen m)" 0 "[]" S C, OF assms] x by simp
    then show ?thesis using Some x dec by (auto simp: multitape_metaindex_get_def split: sum.splits option.splits)
  qed (simp add: multitape_metaindex_get_def)
qed

lemma chunkiter_visits:
  assumes cache: "\<And>S c h. fst (addcache S c h) = 0" and nz: "\<And>S n c h. fst (rfile S n c h) \<noteq> Inl 0"
    and CR: "chunks_read_init mem_ok MAXCHUNK = Some CR"
    and idx: "\<And>S. value_or_fail True tmi (fst (multitape_metaindex_get mem_ok cr rfile S None tmd))"
    and h: "mi_hindex tmi = concat hs" "\<forall>x\<in>set hs. length x = 40"
    and c: "mi_cindex tmi = concat ih" "list_all2 (chunk_ok (chunks_read_chunk cr rfile u CR) True) ih ibufs"
      "concat ibufs = concat cs" "\<forall>x\<in>set cs. length x = 40"
    and t: "mi_tindex tmi = concat ts" "\<forall>x\<in>set ts. length x = 40"
    and run: "multitape_chunkiter_tmd ma cr rfile addcache u tmd func S None (\<lambda>_. s) = (0, S', s')"
  shows "\<exists>vs. mset vs = mset (hs @ ih @ cs @ ts) \<and> visit func vs s = (0, s')"
proof -
  have CR': "chunks_read_init ma MAXCHUNK = Some CR \<or> chunks_read_init ma MAXCHUNK = None"
    using CR by (simp add: chunks_read_init_def split: if_splits)
  then have init: "chunks_read_init ma MAXCHUNK = Some CR" using run by (auto simp: multitape_chunkiter_tmd_def)
  obtain x S1 C1 where x: "multitape_metaindex_get (\<lambda>k. ma (2 + k)) cr rfile S None tmd = (x, S1, C1)" by (metis prod_cases3)
  have "x \<noteq> Inl 0" using metaindex_get_error [of rfile "\<lambda>k. ma (2 + k)" cr S None tmd, OF nz] x by simp
  then obtain y where y: "x = Inr y" using run init x by (cases x) (auto simp: multitape_chunkiter_tmd_def)
  have "multitape_metaindex_get mem_ok cr rfile S None tmd = (Inr y, S1, C1)" by (rule metaindex_get_mem [OF x [unfolded y]])
  then have y': "y = tmi" using idx [of S] by (simp add: value_or_fail_def)
  obtain r1 s1 where i1: "iter_headers func (mi_hindex tmi) s = (0, r1, s1)"
    using run init x y y' by (auto simp: multitape_chunkiter_tmd_def split: if_splits prod.splits)
  have noe: "iter_cindex cr rfile addcache u CR func (mi_cindex tmi) [] S1 s1 \<noteq> Inl (0, S', s')"
    using iter_cindex_error [of addcache rfile cr u CR func "mi_cindex tmi" "[]" S1 s1 0 S' s', OF cache nz] by blast
  obtain S2 s2 where i2: "iter_cindex cr rfile addcache u CR func (mi_cindex tmi) [] S1 s1 = Inr (S2, s2)"
    using run init x y y' i1 noe
    by (cases "iter_cindex cr rfile addcache u CR func (mi_cindex tmi) [] S1 s1") (auto simp: multitape_chunkiter_tmd_def split: if_splits)
  obtain r3 where i3: "iter_headers func (mi_tindex tmi) s2 = (0, r3, s')"
    using run init x y y' i1 i2 by (auto simp: multitape_chunkiter_tmd_def split: if_splits prod.splits)
  have v1: "visit func hs s = (0, s1)"
    using iter_headers_visit [OF h(2), of "[]" func s 0 r1 s1] i1 h(1) by simp
  obtain vs where v2: "mset vs = mset (ih @ cs)" "visit func vs s1 = (0, s2)"
    using iter_cindex_visit [OF cache c(2,4) _ _ i2 [unfolded c(1)]] c(3) by auto
  have v3: "visit func ts s2 = (0, s')"
    using iter_headers_visit [OF t(2), of "[]" func s2 0 r3 s'] i3 t(1) by simp
  have "visit func (hs @ vs @ ts) s = (0, s')" by (simp add: visit_append v1 v2(2) v3)
  moreover have "mset (hs @ vs @ ts) = mset (hs @ ih @ cs @ ts)" using v2(1) by (simp add: add_ac)
  ultimately show ?thesis by blast
qed


subsection \<open>The deletion\<close>

lemma callback_delete_Some:
  "callback_delete_chunk hash dfile (Some (C, S)) ch =
     (case chunks_delete_chunk hash dfile C (ch_hash ch) S of
        None \<Rightarrow> (-1, None) | Some (rc, C, S) \<Rightarrow> (rc, Some (C, S)))"
  by (simp add: callback_delete_chunk_def)

lemma upward_insert: "P n \<Longrightarrow> {m. n \<le> m \<and> P m} = insert n {m. Suc n \<le> m \<and> P m}" for P :: "nat \<Rightarrow> bool"
  by (auto simp: Suc_le_eq le_less)

text \<open>A run of the callback is a session of the chunk layer.\<close>

lemma visit_deletes:
  assumes "visit (callback_delete_chunk hash dfile) vs (Some (C, S)) = (0, CS)"
    and "delete_session hash dfile C0 S0 us C S" "delete_inv hash dfile m0 S0 [] C0 S0"
  shows "\<exists>C' S'. CS = Some (C', S') \<and> delete_session hash dfile C0 S0 (us @ map ch_hash vs) C' S'"
  using assms(1,2)
proof (induction vs arbitrary: us C S)
  case (Cons v vs)
  have inv: "delete_inv hash dfile m0 S0 us C S" by (rule delete_session_inv [OF Cons.prems(2) assms(3)])
  have read: "rwhashtab_read hash cd_hash (cdl_HT C) (ch_hash v) = Some (dir_map (cdl_HT C) (ch_hash v))"
    using inv by (simp add: delete_inv_def rwhashtab_read_spec)
  obtain C1 S1 where s1: "chunks_delete_chunk hash dfile C (ch_hash v) S = Some (0, C1, S1)"
      "visit (callback_delete_chunk hash dfile) vs (Some (C1, S1)) = (0, CS)"
    using Cons.prems(1) by (auto simp: callback_delete_Some split: option.splits prod.splits if_splits)
  have found: "dir_map (cdl_HT C) (ch_hash v) \<noteq> None"
  proof
    assume "dir_map (cdl_HT C) (ch_hash v) = None"
    then show False using s1(1) read by (simp add: chunks_delete_chunk_def)
  qed
  have "delete_session hash dfile C0 S0 (us @ [ch_hash v]) C1 S1"
    using delete_session.chunk [OF Cons.prems(2) s1(1)] found by simp
  from Cons.IH [OF s1(2) this] show ?case by simp
qed auto

text \<open>The storage layer: what it was asked to delete is recorded in its cookie.\<close>

definition deletes_logged :: "('s \<Rightarrow> (char \<times> bytes) list) \<Rightarrow> 's dfile \<Rightarrow> bool" where
  "deletes_logged reqs dfile \<longleftrightarrow> (\<forall>s c h. reqs (snd (dfile s c h)) = reqs s @ [(c, h)])"

lemma logged_chunks:
  assumes "deletes_logged reqs dfile"
  shows "reqs (fold (\<lambda>k s. snd (dfile s (CHR ''c'') k)) ds s) = reqs s @ map (Pair (CHR ''c'')) ds"
  using assms by (induction ds arbitrary: s) (simp_all add: deletes_logged_def)

lemma delete_frags_spec:
  assumes log: "deletes_logged reqs dfile" and run: "delete_frags cr dfile h len n S C = (0, S', C')"
    and ses: "delete_session hash dfile C0 S0 us C t"
  shows "delete_session hash dfile C0 S0 us C' t \<and> (\<exists>ns. set ns = {m. n \<le> m \<and> m * MAXIFRAG < len} \<and> distinct ns \<and>
    reqs S' = reqs S @ map (frag_file cr h) ns)"
  using run ses
proof (induction "len - n * MAXIFRAG" arbitrary: n S C rule: less_induct)
  case less
  show ?case
  proof (cases "n * MAXIFRAG < len")
    case False
    then have "{m. n \<le> m \<and> m * MAXIFRAG < len} = {}"
      by (auto simp: not_less) (meson le_less_trans mult_le_mono1 not_less)
    then show ?thesis using False less.prems by (subst (asm) delete_frags.simps) (auto intro!: exI [of _ "[]"])
  next
    case True
    obtain S1 where S1: "dfile S (CHR ''i'') (multitape_metaindex_fragname cr h (of_nat n)) = (0, S1)"
        "delete_frags cr dfile h len (Suc n) S1 (chunks_delete_extrastats C (frag_length len n)) = (0, S', C')"
      using less.prems(1) True by (subst (asm) delete_frags.simps) (auto simp: Let_def split: prod.splits if_splits)
    have r1: "reqs S1 = reqs S @ [frag_file cr h n]"
      using log S1(1) unfolding deletes_logged_def by (metis snd_conv)
    have small: "len - Suc n * MAXIFRAG < len - n * MAXIFRAG" using True by (simp add: MAXIFRAG_def MAXCHUNK_def)
    obtain ns where ns: "delete_session hash dfile C0 S0 us C' t" "set ns = {m. Suc n \<le> m \<and> m * MAXIFRAG < len}" "distinct ns"
        "reqs S' = reqs S1 @ map (frag_file cr h) ns"
      using less.hyps [OF small S1(2) delete_session.extra [OF less.prems(2)]] by blast
    have "set (n # ns) = {m. n \<le> m \<and> m * MAXIFRAG < len}"
      unfolding upward_insert [of "\<lambda>m. m * MAXIFRAG < len", OF True] list.set ns(2) ..
    moreover have "n \<notin> set ns" unfolding ns(2) by simp
    then have "distinct (n # ns)" using ns(3) by simp
    moreover have "reqs S' = reqs S @ map (frag_file cr h) (n # ns)" unfolding ns(4) r1 by simp
    ultimately show ?thesis using ns(1) by blast
  qed
qed


text \<open>The archive \<open>name\<close> is described by \<open>tmi\<close>; when \<open>fail\<close> is set, reading it may give an error.\<close>

definition archive_described :: "bool \<Rightarrow> ('r, 's) delete_env \<Rightarrow> tapemetadata \<Rightarrow> bytes \<Rightarrow> tapemetaindex \<Rightarrow> bool" where
  "archive_described fail DE junk name tmi \<longleftrightarrow>
     (\<forall>S. \<exists>res S'. multitape_metadata_get_byname mem_ok (de_cr DE) (de_ralloc DE) S None junk name = (res, S', None) \<and>
        (fail \<and> res = Inl (-1) \<or> (\<exists>m. res = Inr m \<and>
           tm_name m = name \<and> unat (tm_indexlen m) = length (metaindex_enc tmi) \<and>
           (\<forall>S. value_or_fail fail tmi (fst (multitape_metaindex_get mem_ok (de_cr DE) (de_rfile DE) S None m))))))"

lemma archive_describedD:
  assumes "archive_described fail DE junk name tmi"
    and "multitape_metadata_get_byname mem_ok (de_cr DE) (de_ralloc DE) S None junk name = (Inr m, S', C')"
  shows "C' = None" "tm_name m = name" "unat (tm_indexlen m) = length (metaindex_enc tmi)"
    "value_or_fail fail tmi (fst (multitape_metaindex_get mem_ok (de_cr DE) (de_rfile DE) S1 None m))"
proof -
  obtain res S2 where r: "multitape_metadata_get_byname mem_ok (de_cr DE) (de_ralloc DE) S None junk name = (res, S2, None)"
      "fail \<and> res = Inl (-1) \<or> (\<exists>m. res = Inr m \<and> tm_name m = name \<and> unat (tm_indexlen m) = length (metaindex_enc tmi) \<and>
         (\<forall>S. value_or_fail fail tmi (fst (multitape_metaindex_get mem_ok (de_cr DE) (de_rfile DE) S None m))))"
    using assms(1) unfolding archive_described_def by blast
  have eq: "res = Inr m" "C' = None" using r(1) assms(2) by simp_all
  then show "C' = None" "tm_name m = name" "unat (tm_indexlen m) = length (metaindex_enc tmi)"
    "value_or_fail fail tmi (fst (multitape_metaindex_get mem_ok (de_cr DE) (de_rfile DE) S1 None m))"
    using r(2) by auto
qed

text \<open>Its streams are the headers \<open>hs\<close>, \<open>ih\<close> and \<open>ts\<close>, and the headers \<open>cs\<close> in the chunks of \<open>ih\<close>.\<close>

definition archive_headers :: "bool \<Rightarrow> ('r, 's) delete_env \<Rightarrow> tapemetaindex \<Rightarrow> bytes list \<Rightarrow> bool" where
  "archive_headers fail DE tmi chs \<longleftrightarrow>
     (\<exists>hs ih cs ts ibufs CR. chs = hs @ ih @ cs @ ts \<and> chunks_read_init mem_ok MAXCHUNK = Some CR \<and>
        mi_hindex tmi = concat hs \<and> (\<forall>x\<in>set hs. length x = 40) \<and>
        mi_cindex tmi = concat ih \<and>
        list_all2 (chunk_ok (chunks_read_chunk (de_cr DE) (de_rfile DE) (de_uncompress DE) CR) fail) ih ibufs \<and>
        concat ibufs = concat cs \<and> (\<forall>x\<in>set cs. length x = 40) \<and> (\<forall>x\<in>set ih. ch_len x \<le> MAXCHUNK) \<and>
        mi_tindex tmi = concat ts \<and> (\<forall>x\<in>set ts. length x = 40))"

text \<open>The storage layer: reads that fail have an error code, names can be cached, the deletions are recorded, and
  nothing else is.\<close>

definition delete_env_ok :: "('s \<Rightarrow> (char \<times> bytes) list) \<Rightarrow> ('r, 's) delete_env \<Rightarrow> bool" where
  "delete_env_ok reqs DE \<longleftrightarrow>
     (\<forall>S c h. fst (de_addcache DE S c h) = 0) \<and> (\<forall>S n c h. fst (de_rfile DE S n c h) \<noteq> Inl 0) \<and>
     deletes_logged reqs (de_dfile DE) \<and> (\<forall>S. reqs (snd (de_flush DE S)) = reqs S) \<and> (\<forall>S. reqs (snd (de_end DE S)) = reqs S) \<and>
     (\<forall>m n S q. de_start DE m n = Some (S, q) \<longrightarrow> reqs S = [] \<and> length q = 32)"

lemma delete_files_spec:
  assumes env: "delete_env_ok reqs DE" and arch: "archive_described True DE junk name tmi" "archive_headers True DE tmi chs"
    and h: "crypto_hash_data (de_cr DE) CRYPTO_KEY_HMAC_NAME name = Some h"
    and inv: "delete_inv (de_hash DE) (de_dfile DE) m0 S0 [] C0 S0"
    and run: "delete_files DE ma junk name SR C0 S0 = Some (0, SR', C', S')"
  shows "\<exists>vs ns t. mset vs = mset (map ch_hash chs) \<and> delete_session (de_hash DE) (de_dfile DE) C0 S0 vs C' t \<and>
    set ns = {n. n * MAXIFRAG < length (metaindex_enc tmi)} \<and> distinct ns \<and>
    reqs S' = reqs t @ map (frag_file (de_cr DE) h) ns @ [(CHR ''m'', h)]"
proof -
  obtain x SR1 C1 where x: "multitape_metadata_get_byname (ma 0) (de_cr DE) (de_ralloc DE) SR None junk name = (x, SR1, C1)"
    by (metis prod_cases3)
  then obtain m where m: "x = Inr m" using run by (cases x) (auto simp: delete_files_def split: if_splits)
  note d = archive_describedD [OF arch(1) metadata_get_byname_mem [OF x [unfolded m]]]
  let ?f = "callback_delete_chunk (de_hash DE) (de_dfile DE)"
  obtain rc SR2 CS where it: "multitape_chunkiter_tmd (ma 1) (de_cr DE) (de_rfile DE) (de_addcache DE) (de_uncompress DE) m ?f SR1 None
      (\<lambda>_. Some (C0, S0)) = (rc, SR2, CS)"
    by (metis prod_cases3)
  obtain C2 S2 where CS: "CS = Some (C2, S2)" and rc: "rc = 0"
    using run x m it by (cases CS) (auto simp: delete_files_def split: if_splits)
  obtain hs ih cs ts ibufs CR where a: "chs = hs @ ih @ cs @ ts" "chunks_read_init mem_ok MAXCHUNK = Some CR"
      "mi_hindex tmi = concat hs" "\<forall>x\<in>set hs. length x = 40" "mi_cindex tmi = concat ih"
      "list_all2 (chunk_ok (chunks_read_chunk (de_cr DE) (de_rfile DE) (de_uncompress DE) CR) True) ih ibufs"
      "concat ibufs = concat cs" "\<forall>x\<in>set cs. length x = 40" "mi_tindex tmi = concat ts" "\<forall>x\<in>set ts. length x = 40"
    using arch(2) unfolding archive_headers_def by (elim exE conjE) (rule that)
  have env': "\<And>S c h. fst (de_addcache DE S c h) = 0" "\<And>S n c h. fst (de_rfile DE S n c h) \<noteq> Inl 0"
      "deletes_logged reqs (de_dfile DE)" "\<And>S. reqs (snd (de_flush DE S)) = reqs S"
    using env by (simp_all add: delete_env_ok_def)
  obtain vs where vs: "mset vs = mset chs" "visit ?f vs (Some (C0, S0)) = (0, Some (C2, S2))"
    using chunkiter_visits [OF env'(1,2) a(2) d(4) a(3-10) it [unfolded rc CS]] a(1) by blast
  have ses: "delete_session (de_hash DE) (de_dfile DE) C0 S0 (map ch_hash vs) C2 S2"
    using visit_deletes [OF vs(2) delete_session.start inv] by simp
  obtain S3 C3 where i: "delete_frags (de_cr DE) (de_dfile DE) h (length (metaindex_enc tmi)) 0 S2 C2 = (0, S3, C3)"
    using run x m it CS rc h d(2,3) by (auto simp: delete_files_def multitape_metaindex_delete_def split: prod.splits if_splits)
  obtain S4 where q: "de_dfile DE S3 (CHR ''m'') h = (0, S4)" "C' = chunks_delete_extrastats C3 (tm_metadatalen m)"
      "S' = snd (de_flush DE S4)"
    using run x m it CS rc h d(2,3) i
    by (auto simp: delete_files_def multitape_metaindex_delete_def multitape_metadata_delete_def split: prod.splits if_splits)
  obtain ns where ns: "delete_session (de_hash DE) (de_dfile DE) C0 S0 (map ch_hash vs) C3 S2"
      "set ns = {m. 0 \<le> m \<and> m * MAXIFRAG < length (metaindex_enc tmi)}" "distinct ns" "reqs S3 = reqs S2 @ map (frag_file (de_cr DE) h) ns"
    using delete_frags_spec [OF env'(3) i ses] by blast
  have "reqs S4 = reqs S3 @ [(CHR ''m'', h)]" using env'(3) q(1) unfolding deletes_logged_def by (metis snd_conv)
  then have "reqs S' = reqs S2 @ map (frag_file (de_cr DE) h) ns @ [(CHR ''m'', h)]" by (simp add: q(3) env'(4) ns(4))
  moreover have "delete_session (de_hash DE) (de_dfile DE) C0 S0 (map ch_hash vs) C' S2"
    unfolding q(2) by (rule delete_session.extra [OF ns(1)])
  moreover have "mset (map ch_hash vs) = mset (map ch_hash chs)" using vs(1) by simp
  ultimately show ?thesis using ns(2,3) by (intro exI [of _ "map ch_hash vs"] exI [of _ ns] exI [of _ S2]) simp
qed


text \<open>The steps of a deletion that returns 0.\<close>

lemma deletetape_steps:
  assumes "deletetape DE ma entropy junk lock machinenum cachedir name printstats w = Some (0, So, w')"
  shows "\<exists>fs1 log1 m1 lastseq fs2 S0 seqnum C0 fs3 SR C S fs4 m.
    multitape_cleanstate (de_flt DE) (de_srv DE) cachedir machinenum 1 (dw_fs w) (dw_log w) (dw_modified w) = (0, fs1, log1, m1) \<and>
    multitape_sequence (de_flt DE) cachedir fs1 = (Some lastseq, fs2) \<and>
    de_start DE machinenum lastseq = Some (S0, seqnum) \<and>
    chunks_delete_start (de_flt DE) (de_hash DE) entropy cachedir fs2 = Some (Some C0, fs3) \<and>
    delete_files DE ma junk name (de_set_limit DE (dw_R w) (100 * chunks_delete_getdirsz C0)) C0 S0 = Some (0, SR, C, S) \<and>
    chunks_delete_end (de_flt DE) C fs3 = (0, fs4) \<and> So = Some (snd (de_end DE S)) \<and>
    multitape_commit (de_flt DE) (de_srv DE) cachedir machinenum seqnum 1 fs4 log1 m1 = (0, dw_fs w', dw_log w', m)"
proof -
  obtain fs1 log1 m1 where 1: "multitape_cleanstate (de_flt DE) (de_srv DE) cachedir machinenum 1 (dw_fs w) (dw_log w) (dw_modified w) = (0, fs1, log1, m1)"
    using assms by (auto simp: deletetape_def Let_def split: prod.splits if_splits)
  obtain lastseq fs2 where 2: "multitape_sequence (de_flt DE) cachedir fs1 = (Some lastseq, fs2)"
    using assms 1 by (auto simp: deletetape_def Let_def split: prod.splits if_splits option.splits)
  obtain S0 seqnum where 3: "de_start DE machinenum lastseq = Some (S0, seqnum)"
    using assms 1 2 by (auto simp: deletetape_def Let_def split: if_splits option.splits)
  obtain C0 fs3 where 4: "chunks_delete_start (de_flt DE) (de_hash DE) entropy cachedir fs2 = Some (Some C0, fs3)"
    using assms 1 2 3 by (auto simp: deletetape_def Let_def split: if_splits option.splits)
  obtain SR C S where 5: "delete_files DE ma junk name (de_set_limit DE (dw_R w) (100 * chunks_delete_getdirsz C0)) C0 S0 = Some (0, SR, C, S)"
    using assms 1 2 3 4 by (auto simp: deletetape_def Let_def split: if_splits option.splits)
  obtain fs4 where 6: "chunks_delete_end (de_flt DE) C fs3 = (0, fs4)"
    using assms 1 2 3 4 5 by (auto simp: deletetape_def Let_def split: if_splits prod.splits)
  obtain m where 7: "multitape_commit (de_flt DE) (de_srv DE) cachedir machinenum seqnum 1 fs4 log1 m1 = (0, dw_fs w', dw_log w', m)"
      "So = Some (snd (de_end DE S))"
    using assms 1 2 3 4 5 6 by (auto simp: deletetape_def Let_def split: if_splits prod.splits)
  show ?thesis using 1 2 3 4 5 6 7 by blast
qed

subsection \<open>Nothing blocks a deletion in which no call fails\<close>

lemma iter_headers_progress:
  assumes "\<forall>x\<in>set xs. length x = 40" "length r < 40" "visit func xs s = (0, s')"
  shows "iter_headers func (concat xs @ r) s = (0, r, s')"
  using assms
proof (induction xs arbitrary: s)
  case Nil
  then show ?case by (subst iter_headers.simps) simp
next
  case (Cons x xs)
  have x: "length x = 40" using Cons.prems(1) by simp
  obtain s1 where f: "func s x = (0, s1)" "visit func xs s1 = (0, s')"
    using Cons.prems(3) by (auto split: prod.splits if_splits)
  have td: "take 40 (concat (x # xs) @ r) = x" "drop 40 (concat (x # xs) @ r) = concat xs @ r" "40 \<le> length (concat (x # xs) @ r)"
    using x by simp_all
  have "iter_headers func (concat xs @ r) s1 = (0, r, s')" using Cons.IH [OF _ Cons.prems(2) f(2)] Cons.prems(1) by simp
  then show ?case by (subst iter_headers.simps, unfold td) (use td(3) f in simp)
qed

text \<open>Calls that succeed on the headers in \<open>V\<close>, and keep \<open>P\<close>.\<close>

definition accepts :: "('s \<Rightarrow> bytes \<Rightarrow> int \<times> 's) \<Rightarrow> ('s \<Rightarrow> bool) \<Rightarrow> bytes set \<Rightarrow> bool" where
  "accepts func P V \<longleftrightarrow> (\<forall>s v. P s \<longrightarrow> v \<in> V \<longrightarrow> (\<exists>s'. func s v = (0, s') \<and> P s'))"

lemma visit_progress:
  assumes "accepts func P V"
  shows "set vs \<subseteq> V \<Longrightarrow> P s \<Longrightarrow> \<exists>s'. visit func vs s = (0, s') \<and> P s'"
proof (induction vs arbitrary: s)
  case (Cons v vs)
  then obtain s1 where "func s v = (0, s1)" "P s1" using assms unfolding accepts_def by fastforce
  then show ?case using Cons.IH [of s1] Cons.prems(1) by simp
qed simp

lemma iter_cindex_progress:
  assumes cache: "\<And>S c h. fst (addcache S c h) = 0" and P: "accepts func P V"
    and ok: "list_all2 (chunk_ok (chunks_read_chunk cr rfile u CR) False) ih ibufs" "\<forall>x\<in>set ih. ch_len x \<le> MAXCHUNK"
    and cs: "\<forall>x\<in>set cs. length x = 40" "concat cs = ibuf @ concat ibufs" "length ibuf < 40"
    and V: "set ih \<union> set cs \<subseteq> V" "P s"
  shows "\<exists>S' s'. iter_cindex cr rfile addcache u CR func (concat ih) ibuf S s = Inr (S', s') \<and> P s'"
  using ok cs V
proof (induction ih arbitrary: ibufs cs ibuf S s)
  case Nil
  then show ?case by (subst iter_cindex.simps) simp
next
  case (Cons i ih)
  obtain b ibufs' where b: "ibufs = b # ibufs'" "chunk_ok (chunks_read_chunk cr rfile u CR) False i b"
      "list_all2 (chunk_ok (chunks_read_chunk cr rfile u CR) False) ih ibufs'"
    using Cons.prems(1) by (auto simp: list_all2_Cons1)
  have i: "length i = 40" "ch_len i \<le> MAXCHUNK" using b(2) Cons.prems(2) by (simp_all add: chunk_ok_def)
  obtain s1 where s1: "func s i = (0, s1)" "P s1" using P Cons.prems(6,7) unfolding accepts_def by fastforce
  obtain S1 where S1: "addcache S (CHR ''c'') (ch_hash i) = (0, S1)"
    using cache [of S "CHR ''c''" "ch_hash i"] by (metis prod.collapse)
  obtain S2 where r: "chunks_read_chunk cr rfile u CR S1 (ch_hash i) (ch_len i) (ch_zlen i) = (Inr b, S2)"
    using b(2) unfolding chunk_ok_def by metis
  obtain xs cs' ibuf' where x: "cs = xs @ cs'" "ibuf @ b = concat xs @ ibuf'" "length ibuf' < 40" "concat cs' = ibuf' @ concat ibufs'"
    using split_headers [OF Cons.prems(3), of "ibuf @ b" "concat ibufs'"] Cons.prems(4) by (auto simp: b(1))
  have len: "\<forall>x\<in>set xs. length x = 40" "\<forall>x\<in>set cs'. length x = 40" "set xs \<subseteq> V" "set ih \<union> set cs' \<subseteq> V"
      "\<forall>x\<in>set ih. ch_len x \<le> MAXCHUNK"
    using Cons.prems(2,3,6) by (auto simp: x(1))
  obtain s2 where s2: "visit func xs s1 = (0, s2)" "P s2" using visit_progress [OF P len(3) s1(2)] by blast
  have h: "iter_headers func (ibuf @ b) s1 = (0, ibuf', s2)" unfolding x(2) by (rule iter_headers_progress [OF len(1) x(3) s2(1)])
  obtain S' s' where IH: "iter_cindex cr rfile addcache u CR func (concat ih) ibuf' S2 s2 = Inr (S', s')" "P s'"
    using Cons.IH [OF b(3) len(5,2) x(4,3) len(4) s2(2)] by blast
  have td: "take 40 (concat (i # ih)) = i" "drop 40 (concat (i # ih)) = concat ih" "40 \<le> length (concat (i # ih))"
    using i(1) by simp_all
  have "iter_cindex cr rfile addcache u CR func (concat (i # ih)) ibuf S s = Inr (S', s')"
    by (subst iter_cindex.simps, unfold td) (use td(3) s1(1) S1 r h IH(1) i(2) in \<open>simp add: chunks_read_cache_def min_def\<close>)
  then show ?case using IH(2) by blast
qed

lemma chunkiter_progress:
  assumes cache: "\<And>S c h. fst (addcache S c h) = 0" and P: "accepts func P V" and CR: "chunks_read_init mem_ok MAXCHUNK = Some CR"
    and idx: "\<And>S. value_or_fail False tmi (fst (multitape_metaindex_get mem_ok cr rfile S None tmd))"
    and h: "mi_hindex tmi = concat hs" "\<forall>x\<in>set hs. length x = 40"
    and c: "mi_cindex tmi = concat ih" "list_all2 (chunk_ok (chunks_read_chunk cr rfile u CR) False) ih ibufs"
      "concat ibufs = concat cs" "\<forall>x\<in>set cs. length x = 40" "\<forall>x\<in>set ih. ch_len x \<le> MAXCHUNK"
    and t: "mi_tindex tmi = concat ts" "\<forall>x\<in>set ts. length x = 40"
    and V: "set (hs @ ih @ cs @ ts) \<subseteq> V" "P s"
  shows "\<exists>S' s'. multitape_chunkiter_tmd mem_ok cr rfile addcache u tmd func S None (\<lambda>_. s) = (0, S', s') \<and> P s'"
proof -
  obtain x S1 C1 where x: "multitape_metaindex_get mem_ok cr rfile S None tmd = (x, S1, C1)" by (metis prod_cases3)
  then have y: "x = Inr tmi" using idx [of S] by (simp add: value_or_fail_def)
  have sub: "set hs \<subseteq> V" "set ih \<union> set cs \<subseteq> V" "set ts \<subseteq> V" using V(1) by auto
  obtain s1 where s1: "visit func hs s = (0, s1)" "P s1" using visit_progress [OF P sub(1) V(2)] by blast
  have i1: "iter_headers func (mi_hindex tmi) s = (0, [], s1)"
    using iter_headers_progress [OF h(2) _ s1(1), of "[]"] by (simp add: h(1))
  obtain S2 s2 where i2: "iter_cindex cr rfile addcache u CR func (mi_cindex tmi) [] S1 s1 = Inr (S2, s2)" "P s2"
  proof -
    have "\<exists>S2 s2. iter_cindex cr rfile addcache u CR func (concat ih) [] S1 s1 = Inr (S2, s2) \<and> P s2"
      by (rule iter_cindex_progress [OF cache P c(2,5,4) _ _ sub(2) s1(2)]) (simp_all add: c(3))
    then show ?thesis using that c(1) by auto
  qed
  obtain s3 where s3: "visit func ts s2 = (0, s3)" "P s3" using visit_progress [OF P sub(3) i2(2)] by blast
  have i3: "iter_headers func (mi_tindex tmi) s2 = (0, [], s3)"
    using iter_headers_progress [OF t(2) _ s3(1), of "[]"] by (simp add: t(1))
  show ?thesis using x y i1 i2(1) i3 s3(2) CR by (simp add: multitape_chunkiter_tmd_def)
qed

text \<open>The chunks of the directory can be deleted.\<close>

lemma delete_accepts:
  assumes up: "\<And>S c h. fst (dfile S c h) = 0"
  shows "accepts (callback_delete_chunk hash dfile) (\<lambda>CS. \<exists>C S us. CS = Some (C, S) \<and> delete_inv hash dfile m0 S0 us C S)
    {v. ch_hash v \<in> dom m0}"
  unfolding accepts_def
proof (intro allI impI)
  fix CS v
  assume "\<exists>C S us. CS = Some (C, S) \<and> delete_inv hash dfile m0 S0 us C S" "v \<in> {v. ch_hash v \<in> dom m0}"
  then obtain C S us where CS: "CS = Some (C, S)" and inv: "delete_inv hash dfile m0 S0 us C S" and v: "ch_hash v \<in> dom m0" by blast
  obtain rc C' S' where r: "chunks_delete_chunk hash dfile C (ch_hash v) S = Some (rc, C', S')"
    using chunks_delete_chunk_returns [OF inv] by blast
  have "dir_map (cdl_HT C) (ch_hash v) \<noteq> None" using inv v by (auto simp: delete_inv_def untally_def)
  moreover have read: "rwhashtab_read hash cd_hash (cdl_HT C) (ch_hash v) = Some (dir_map (cdl_HT C) (ch_hash v))"
    using inv by (simp add: delete_inv_def rwhashtab_read_spec)
  ultimately obtain ch where ch: "dir_map (cdl_HT C) (ch_hash v) = Some ch" by blast
  obtain S1 where "dfile S (CHR ''c'') (ch_hash v) = (0, S1)" using up by (metis prod.collapse)
  then have rc: "rc = 0" using r ch read by (auto simp: chunks_delete_chunk_def Let_def split: if_splits)
  have "\<exists>us'. delete_inv hash dfile m0 S0 us' C' S'" using delete_inv_chunk [OF inv r] ch by auto
  then show "\<exists>s'. callback_delete_chunk hash dfile CS v = (0, s') \<and>
      (\<exists>C S us. s' = Some (C, S) \<and> delete_inv hash dfile m0 S0 us C S)"
    using r rc by (auto simp: CS callback_delete_Some)
qed

lemma delete_frags_progress:
  assumes "\<And>S c h. fst (dfile S c h) = 0"
  shows "\<exists>S' C'. delete_frags cr dfile h len n S C = (0, S', C')"
proof (induction "len - n * MAXIFRAG" arbitrary: n S C rule: less_induct)
  case less
  show ?case
  proof (cases "n * MAXIFRAG < len")
    case False
    then show ?thesis by (subst delete_frags.simps) simp
  next
    case True
    obtain S1 where S1: "dfile S (CHR ''i'') (multitape_metaindex_fragname cr h (of_nat n)) = (0, S1)"
      using assms by (metis prod.collapse)
    have small: "len - (n + 1) * MAXIFRAG < len - n * MAXIFRAG" using True by (simp add: MAXIFRAG_def MAXCHUNK_def)
    show ?thesis using less.hyps [OF small, of S1 "chunks_delete_extrastats C (frag_length len n)"] True S1
      by (subst delete_frags.simps) (simp add: Let_def)
  qed
qed

text \<open>A storage layer and a server that answer.\<close>

definition delete_env_up :: "('r, 's) delete_env \<Rightarrow> bool" where
  "delete_env_up DE \<longleftrightarrow>
     (\<forall>S c h. fst (de_addcache DE S c h) = 0) \<and> (\<forall>S c h. fst (de_dfile DE S c h) = 0) \<and>
     (\<forall>S. fst (de_flush DE S) = 0) \<and> (\<forall>S. fst (de_end DE S) = 0) \<and> (\<forall>m n. de_start DE m n \<noteq> None) \<and>
     (\<forall>C. de_printstats DE C) \<and> de_flt DE = no_fault \<and> server_up (de_srv DE)"

lemma delete_files_progress:
  assumes up: "delete_env_up DE" and arch: "archive_described False DE junk name tmi" "archive_headers False DE tmi chs"
    and h: "crypto_hash_data (de_cr DE) CRYPTO_KEY_HMAC_NAME name = Some h"
    and inv: "delete_inv (de_hash DE) (de_dfile DE) m0 S0 [] C0 S0" and V: "set (map ch_hash chs) \<subseteq> dom m0"
  shows "\<exists>SR' C' S'. delete_files DE (\<lambda>_. mem_ok) junk name SR C0 S0 = Some (0, SR', C', S')"
proof -
  have up': "\<And>S c h. fst (de_addcache DE S c h) = 0" "\<And>S c h. fst (de_dfile DE S c h) = 0" "\<And>S. fst (de_flush DE S) = 0"
    using up by (simp_all add: delete_env_up_def)
  obtain m SR1 where m: "multitape_metadata_get_byname mem_ok (de_cr DE) (de_ralloc DE) SR None junk name = (Inr m, SR1, None)"
    using arch(1) [unfolded archive_described_def, rule_format, of SR] by auto
  note d = archive_describedD [OF arch(1) m]
  let ?f = "callback_delete_chunk (de_hash DE) (de_dfile DE)"
  obtain hs ih cs ts ibufs CR where a: "chs = hs @ ih @ cs @ ts" "chunks_read_init mem_ok MAXCHUNK = Some CR"
      "mi_hindex tmi = concat hs" "\<forall>x\<in>set hs. length x = 40" "mi_cindex tmi = concat ih"
      "list_all2 (chunk_ok (chunks_read_chunk (de_cr DE) (de_rfile DE) (de_uncompress DE) CR) False) ih ibufs"
      "concat ibufs = concat cs" "\<forall>x\<in>set cs. length x = 40" "\<forall>x\<in>set ih. ch_len x \<le> MAXCHUNK"
      "mi_tindex tmi = concat ts" "\<forall>x\<in>set ts. length x = 40"
    using arch(2) unfolding archive_headers_def by (elim exE conjE) (rule that)
  have sub: "set (hs @ ih @ cs @ ts) \<subseteq> {v. ch_hash v \<in> dom m0}" using V a(1) by auto
  obtain SR2 CS where it: "multitape_chunkiter_tmd mem_ok (de_cr DE) (de_rfile DE) (de_addcache DE) (de_uncompress DE) m ?f SR1 None
      (\<lambda>_. Some (C0, S0)) = (0, SR2, CS)" "\<exists>C S us. CS = Some (C, S) \<and> delete_inv (de_hash DE) (de_dfile DE) m0 S0 us C S"
  proof -
    have P0: "\<exists>C S us. Some (C0, S0) = Some (C, S) \<and> delete_inv (de_hash DE) (de_dfile DE) m0 S0 us C S" using inv by blast
    show ?thesis
      using chunkiter_progress [where S = SR1 and addcache = "de_addcache DE", OF up'(1) delete_accepts [of "de_dfile DE" "de_hash DE" m0 S0, OF up'(2)] a(2) d(4) a(3-11) sub P0]
      by (elim exE) (rule that, erule conjunct1, erule conjunct2)
  qed
  obtain C2 S2 where CS: "CS = Some (C2, S2)" using it(2) by blast
  obtain S3 C3 where i: "delete_frags (de_cr DE) (de_dfile DE) h (length (metaindex_enc tmi)) 0 S2 C2 = (0, S3, C3)"
    using delete_frags_progress [of "de_dfile DE", OF up'(2)] by blast
  obtain S4 where q: "de_dfile DE S3 (CHR ''m'') h = (0, S4)" using up'(2) by (metis prod.collapse)
  obtain S5 where f: "de_flush DE S4 = (0, S5)" using up'(3) by (metis prod.collapse)
  show ?thesis
    using m it(1) CS i q f d(2,3) h
    by (simp add: delete_files_def multitape_metaindex_delete_def multitape_metadata_delete_def)
qed

end
