(* ===== verification/Tape_Write.thy ===== *)
theory Tape_Write
  imports Chunk_Lifecycle Multitape_Transaction Chunkify Chunks_Read
begin

text \<open>
  \<^verbatim>\<open>tar/multitape/multitape_write.c\<close>: writing an archive.  A tape \<open>d\<close> has three streams of chunks,
  each with its list of chunk headers and its chunker, a chunker for the current file, and the
  cookies of the layers below.  \<open>tw_mem\<close> holds the outcomes of the allocations to come.  What is not
  in the repository, the keys and the storage layer, is the record \<open>tape_env\<close>.  Results are the return
  value with the new tape; \<^const>\<open>None\<close> is a call that does not return (a failed \<^verbatim>\<open>assert\<close>).
\<close>

definition MEANCHUNK :: nat where "MEANCHUNK = 65536"
definition MINCHUNK :: nat where "MINCHUNK = 4096"

record 's tape_env =
  te_cr :: crypto
  te_hash :: "bytes \<Rightarrow> bytes"                        \<comment> \<open>the keyed hash of the chunk table\<close>
  te_host :: "bytes \<Rightarrow> u32"                         \<comment> \<open>four bytes as an integer of the host\<close>
  te_compress2 :: compress2
  te_start :: "u64 \<Rightarrow> bytes \<Rightarrow> ('s \<times> bytes) option"  \<comment> \<open>\<^verbatim>\<open>storage_write_start\<close>: cookie, sequence number\<close>
  te_fexist :: "'s \<Rightarrow> char \<Rightarrow> bytes \<Rightarrow> int \<times> 's"
  te_wfile :: "'s wfile"
  te_flush :: "'s \<Rightarrow> int \<times> 's"
  te_end :: "'s \<Rightarrow> int \<times> 's"
  te_flt :: fault
  te_srv :: storage
  te_nonce :: "storage_log \<Rightarrow> bytes option"          \<comment> \<open>\<^verbatim>\<open>crypto_entropy_read\<close>\<close>
  te_printstats :: "chunks_w \<Rightarrow> bool"               \<comment> \<open>whether the statistics can be printed\<close>

datatype tape_stream = Headers | Chunks | Trailers

text \<open>A stream: its index and its chunker, which is missing in a dry run without chunkers.\<close>

record wstream =
  ws_index :: "bytes list"
  ws_c :: "chunkifier option"

type_synonym 'k tape_callback = "('k \<Rightarrow> bytes \<Rightarrow> int \<times> 'k) option"

record ('s, 'k) tape_w =
  tw_tapename :: bytes
  tw_machinenum :: u64
  tw_cachedir :: "string option"
  tw_ctime :: u64
  tw_argc :: int
  tw_argv :: "bytes list"
  tw_stats_enabled :: bool
  tw_eof :: bool
  tw_S :: 's                              \<comment> \<open>there is a cookie if \<open>cw_S (tw_C d)\<close>\<close>
  tw_C :: chunks_w
  tw_seqnum :: bytes
  tw_stream :: "tape_stream \<Rightarrow> wstream"   \<comment> \<open>\<^verbatim>\<open>h\<close>, \<^verbatim>\<open>c\<close> and \<^verbatim>\<open>t\<close>\<close>
  tw_c_file :: "chunkifier option"
  tw_c_file_in :: int
  tw_c_file_out :: int
  tw_mode :: int
  tw_hbuf :: bytes
  tw_clen :: int
  tw_tlen :: nat
  tw_callback_chunk :: "'k tape_callback"
  tw_callback_trailer :: "'k tape_callback"
  tw_cookie :: 'k
  tw_fs :: fs                             \<comment> \<open>the cache directory\<close>
  tw_log :: storage_log
  tw_modified :: bool
  tw_mem :: mem

definition mem_drop :: "nat \<Rightarrow> ('s, 'k) tape_w \<Rightarrow> ('s, 'k) tape_w" where
  "mem_drop n d = d\<lparr>tw_mem := \<lambda>k. tw_mem d (n + k)\<rparr>"

subsection \<open>Chunkers with callbacks on the tape\<close>

text \<open>The callback of a chunker works on the tape itself.  The chunker that calls it is not changed
  by it: it is taken out of the tape for the call and put back afterwards.\<close>

type_synonym ('s, 'k) tape_chunkdone = "('s, 'k) tape_w \<Rightarrow> bytes \<Rightarrow> (int \<times> ('s, 'k) tape_w) option"

definition on_tape :: "('s, 'k) tape_chunkdone \<Rightarrow> ('s, 'k) tape_w option chunkdone" where
  "on_tape f od buf =
     (case od of None \<Rightarrow> (-1, None)
      | Some d \<Rightarrow> (case f d buf of None \<Rightarrow> (-1, None) | Some (rc, d) \<Rightarrow> (rc, Some d)))"

definition chunker_write :: "('s, 'k) tape_chunkdone \<Rightarrow> chunkifier option \<Rightarrow> bytes \<Rightarrow> ('s, 'k) tape_w
    \<Rightarrow> (int \<times> chunkifier option \<times> ('s, 'k) tape_w) option" where
  "chunker_write f oc buf d =
     (case oc of None \<Rightarrow> Some (0, None, d)
      | Some c \<Rightarrow>
          (case chunkify_write (on_tape f) c buf (Some d) of
             Some (rc, c, Some d) \<Rightarrow> Some (rc, Some c, d)
           | _ \<Rightarrow> None))"

definition chunker_end :: "('s, 'k) tape_chunkdone \<Rightarrow> chunkifier option \<Rightarrow> ('s, 'k) tape_w
    \<Rightarrow> (int \<times> chunkifier option \<times> ('s, 'k) tape_w) option" where
  "chunker_end f oc d =
     (case oc of None \<Rightarrow> Some (0, None, d)
      | Some c \<Rightarrow>
          (case chunkify_end (on_tape f) c (Some d) of
             (rc, c, Some d) \<Rightarrow> Some (rc, Some c, d)
           | _ \<Rightarrow> None))"

subsection \<open>Chunks\<close>

definition store_chunk :: "'s tape_env \<Rightarrow> bytes \<Rightarrow> ('s, 'k) tape_w \<Rightarrow> ((int + bytes) \<times> ('s, 'k) tape_w) option" where
  "store_chunk E buf d =
     (case crypto_hash_data (te_cr E) CRYPTO_KEY_HMAC_CHUNK buf of
        None \<Rightarrow> Some (Inl (-1), d)
      | Some hash \<Rightarrow>
          (case chunks_write_chunk (tw_mem d) (te_hash E) (te_compress2 E) (te_wfile E) (tw_C d) hash buf (tw_S d) of
             None \<Rightarrow> None
           | Some (zlen, C, S) \<Rightarrow>
               let d = mem_drop 2 (d\<lparr>tw_C := C, tw_S := S\<rparr>) in
               if zlen = -1 then Some (Inl (-1), d)
               else Some (Inr (take 32 hash @ le32enc (of_nat (length buf)) @ le32enc (of_int zlen)), d)))"

definition handle_chunk :: "'s tape_env \<Rightarrow> bytes \<Rightarrow> wstream \<Rightarrow> ('s, 'k) tape_w
    \<Rightarrow> (int \<times> wstream \<times> ('s, 'k) tape_w) option" where
  "handle_chunk E buf S d =
     (case store_chunk E buf d of
        None \<Rightarrow> None
      | Some (Inl rc, d) \<Rightarrow> Some (-1, S, d)
      | Some (Inr ch, d) \<Rightarrow>
          if \<not> tw_mem d 0 then Some (-1, S, mem_drop 1 d)
          else Some (0, S\<lparr>ws_index := ws_index S @ [ch]\<rparr>, mem_drop 1 d))"

definition callback_stream :: "'s tape_env \<Rightarrow> tape_stream \<Rightarrow> ('s, 'k) tape_chunkdone" where
  "callback_stream E i d buf =
     (case handle_chunk E buf (tw_stream d i) d of
        None \<Rightarrow> None
      | Some (rc, S, d) \<Rightarrow> Some (rc, d\<lparr>tw_stream := (tw_stream d)(i := S)\<rparr>))"

definition put_chunker :: "tape_stream \<Rightarrow> chunkifier option \<Rightarrow> ('s, 'k) tape_w \<Rightarrow> ('s, 'k) tape_w" where
  "put_chunker i c d = d\<lparr>tw_stream := (tw_stream d)(i := (tw_stream d i)\<lparr>ws_c := c\<rparr>)\<rparr>"

definition stream_write :: "'s tape_env \<Rightarrow> tape_stream \<Rightarrow> bytes \<Rightarrow> ('s, 'k) tape_w \<Rightarrow> (int \<times> ('s, 'k) tape_w) option" where
  "stream_write E i buf d =
     map_option (\<lambda>(rc, c, d). (rc, put_chunker i c d)) (chunker_write (callback_stream E i) (ws_c (tw_stream d i)) buf d)"

definition stream_end :: "'s tape_env \<Rightarrow> tape_stream \<Rightarrow> ('s, 'k) tape_w \<Rightarrow> (int \<times> ('s, 'k) tape_w) option" where
  "stream_end E i d =
     map_option (\<lambda>(rc, c, d). (rc, put_chunker i c d)) (chunker_end (callback_stream E i) (ws_c (tw_stream d i)) d)"

definition run_callback :: "'k tape_callback \<Rightarrow> bytes \<Rightarrow> ('s, 'k) tape_w \<Rightarrow> int \<times> ('s, 'k) tape_w" where
  "run_callback cb x d =
     (case cb of None \<Rightarrow> (0, d)
      | Some f \<Rightarrow> (case f (tw_cookie d) x of (rc, k) \<Rightarrow> (if rc \<noteq> 0 then -1 else 0, d\<lparr>tw_cookie := k\<rparr>)))"

definition callback_file :: "'s tape_env \<Rightarrow> ('s, 'k) tape_chunkdone" where
  "callback_file E d buf =
     (let d = d\<lparr>tw_c_file_out := tw_c_file_out d + int (length buf)\<rparr> in
      if length buf < MINCHUNK
      then if tw_tlen d \<noteq> 0 then Some (-1, d)
           else case stream_write E Trailers buf d of
                  None \<Rightarrow> None
                | Some (rc, d) \<Rightarrow>
                    if rc \<noteq> 0 then Some (-1, d)
                    else Some (run_callback (tw_callback_trailer d) buf (d\<lparr>tw_tlen := length buf\<rparr>))
      else case store_chunk E buf d of
             None \<Rightarrow> None
           | Some (Inl rc, d) \<Rightarrow> Some (-1, d)
           | Some (Inr ch, d) \<Rightarrow>
               (case stream_write E Chunks ch d of
                  None \<Rightarrow> None
                | Some (rc, d) \<Rightarrow>
                    if rc \<noteq> 0 then Some (-1, d)
                    else Some (run_callback (tw_callback_chunk d) ch (d\<lparr>tw_clen := tw_clen d + int (length buf)\<rparr>))))"

definition file_write :: "'s tape_env \<Rightarrow> bytes \<Rightarrow> ('s, 'k) tape_w \<Rightarrow> (int \<times> ('s, 'k) tape_w) option" where
  "file_write E buf d =
     map_option (\<lambda>(rc, c, d). (rc, d\<lparr>tw_c_file := c\<rparr>)) (chunker_write (callback_file E) (tw_c_file d) buf d)"

definition file_end :: "'s tape_env \<Rightarrow> ('s, 'k) tape_w \<Rightarrow> (int \<times> ('s, 'k) tape_w) option" where
  "file_end E d =
     map_option (\<lambda>(rc, c, d). (rc, d\<lparr>tw_c_file := c\<rparr>)) (chunker_end (callback_file E) (tw_c_file d) d)"

subsection \<open>Entries\<close>

text \<open>The header buffer is exported (its array is freed) before a new one is made.\<close>

definition endentry :: "'s tape_env \<Rightarrow> ('s, 'k) tape_w \<Rightarrow> (int \<times> ('s, 'k) tape_w) option" where
  "endentry E d =
     (if \<not> tw_mem d 0 then Some (-1, mem_drop 2 d)
      else let hbuf = tw_hbuf d; ok = tw_mem d 1; d = mem_drop 2 (d\<lparr>tw_hbuf := []\<rparr>) in
      if \<not> length hbuf < UINT32_MAX \<or> \<not> (0 \<le> tw_clen d \<and> tw_clen d \<le> 18446744073709551615) then None
      else if \<not> ok then Some (-1, d)
      else let eh = le32enc (of_nat (length hbuf)) @ le64enc (of_int (tw_clen d)) @ le32enc (of_nat (tw_tlen d)) in
      case stream_write E Headers eh d of
        None \<Rightarrow> None
      | Some (rc, d) \<Rightarrow>
          if rc \<noteq> 0 then Some (-1, d)
          else case stream_write E Headers hbuf d of
                 None \<Rightarrow> None
               | Some (rc, d) \<Rightarrow>
                   if rc \<noteq> 0 then Some (-1, d) else Some (0, d\<lparr>tw_clen := 0, tw_tlen := 0\<rparr>))"

definition writetape_setcallback :: "('s, 'k) tape_w \<Rightarrow> 'k tape_callback \<Rightarrow> 'k tape_callback \<Rightarrow> 'k \<Rightarrow> ('s, 'k) tape_w" where
  "writetape_setcallback d callback_chunk callback_trailer callback_cookie =
     d\<lparr>tw_callback_chunk := callback_chunk, tw_callback_trailer := callback_trailer, tw_cookie := callback_cookie\<rparr>"

text \<open>The result of \<^verbatim>\<open>bytebuf_append\<close> is not looked at: if it fails, the data are not there.\<close>

definition append_header :: "bytes \<Rightarrow> ('s, 'k) tape_w \<Rightarrow> ('s, 'k) tape_w" where
  "append_header buf d = mem_drop 1 (if tw_mem d 0 then d\<lparr>tw_hbuf := tw_hbuf d @ buf\<rparr> else d)"

definition writetape_write :: "'s tape_env \<Rightarrow> ('s, 'k) tape_w \<Rightarrow> bytes \<Rightarrow> (int \<times> ('s, 'k) tape_w) option" where
  "writetape_write E d buf =
     (if length buf > SSIZE_MAX then None
      else if tw_eof d then Some (0, d)
      else if tw_mode d = 1
      then (case file_write E buf d of
              None \<Rightarrow> None
            | Some (rc, d) \<Rightarrow>
                if rc \<noteq> 0 then Some (-1, d)
                else Some (int (length buf), d\<lparr>tw_c_file_in := tw_c_file_in d + int (length buf)\<rparr>))
      else if tw_mode d = 2 \<or> tw_mode d = 3
      then Some (int (length buf), append_header buf (d\<lparr>tw_mode := 3\<rparr>))
      else if tw_mode d = 0 then Some (int (length buf), append_header buf d)
      else Some (int (length buf), d))"

definition writetape_ischunkpresent :: "'s tape_env \<Rightarrow> ('s, 'k) tape_w \<Rightarrow> bytes \<Rightarrow> int option" where
  "writetape_ischunkpresent E d ch =
     (case chunks_write_ispresent (te_hash E) (tw_C d) (ch_hash ch) of
        None \<Rightarrow> None
      | Some rc \<Rightarrow> Some (if rc = 0 then int (ch_len ch) else 0))"

definition writetape_writechunk :: "'s tape_env \<Rightarrow> ('s, 'k) tape_w \<Rightarrow> bytes \<Rightarrow> (int \<times> ('s, 'k) tape_w) option" where
  "writetape_writechunk E d ch =
     (if tw_mode d \<noteq> 1 then Some (0, d)
      else if tw_c_file_in d \<noteq> tw_c_file_out d then Some (0, d)
      else case chunks_write_chunkref (te_hash E) (tw_C d) (ch_hash ch) of
             None \<Rightarrow> None
           | Some (rc, C) \<Rightarrow>
               let d = d\<lparr>tw_C := C\<rparr> in
               if rc = -1 then Some (-1, d)
               else if rc = 1 then Some (0, d)
               else case stream_write E Chunks ch d of
                      None \<Rightarrow> None
                    | Some (rc, d) \<Rightarrow>
                        if rc \<noteq> 0 then Some (-1, d)
                        else Some (int (ch_len ch), d\<lparr>tw_clen := tw_clen d + int (ch_len ch)\<rparr>))"

definition writetape_setmode :: "'s tape_env \<Rightarrow> ('s, 'k) tape_w \<Rightarrow> int \<Rightarrow> (int \<times> ('s, 'k) tape_w) option" where
  "writetape_setmode E d mode =
     (if mode = tw_mode d then Some (0, d)
      else case (if tw_mode d = 1 then file_end E d else Some (0, d)) of
             None \<Rightarrow> None
           | Some (rc, d) \<Rightarrow>
               if rc \<noteq> 0 then Some (-1, d)
               else if tw_mode d = 3 then Some (-1, d)
               else case (if mode = 2 then endentry E d else Some (0, d)) of
                      None \<Rightarrow> None
                    | Some (rc, d) \<Rightarrow>
                        if rc \<noteq> 0 then Some (-1, d) else Some (0, d\<lparr>tw_mode := mode\<rparr>))"

definition writetape_truncate :: "('s, 'k) tape_w \<Rightarrow> ('s, 'k) tape_w" where
  "writetape_truncate d = d\<lparr>tw_eof := True\<rparr>"

subsection \<open>Storing the description\<close>

text \<open>The suffix \<^verbatim>\<open>.part\<close> of an archive that is not complete.\<close>

definition part_suffix :: bytes where "part_suffix = [46, 112, 97, 114, 116]"

definition flush_name :: "bool \<Rightarrow> bytes \<Rightarrow> bytes" where
  "flush_name isapart name = (if isapart then name @ part_suffix else name)"

text \<open>Without a storage layer cookie the storage layer does nothing.\<close>

definition tape_wfile :: "'s tape_env \<Rightarrow> ('s, 'k) tape_w \<Rightarrow> 's wfile" where
  "tape_wfile E d = (if cw_S (tw_C d) then te_wfile E else (\<lambda>S b c h. (0, S)))"

definition tape_storage :: "('s \<Rightarrow> int \<times> 's) \<Rightarrow> ('s, 'k) tape_w \<Rightarrow> int \<times> ('s, 'k) tape_w" where
  "tape_storage f d =
     (if cw_S (tw_C d) then case f (tw_S d) of (rc, S) \<Rightarrow> (rc, d\<lparr>tw_S := S\<rparr>) else (0, d))"

definition flush_streams :: "'s tape_env \<Rightarrow> ('s, 'k) tape_w \<Rightarrow> (int \<times> ('s, 'k) tape_w) option" where
  "flush_streams E d =
     (case file_end E d of None \<Rightarrow> None | Some (rc, d) \<Rightarrow> if rc \<noteq> 0 then Some (-1, d) else
      (case stream_end E Trailers d of None \<Rightarrow> None | Some (rc, d) \<Rightarrow> if rc \<noteq> 0 then Some (-1, d) else
      (case stream_end E Chunks d of None \<Rightarrow> None | Some (rc, d) \<Rightarrow> if rc \<noteq> 0 then Some (-1, d) else
      (case stream_end E Headers d of None \<Rightarrow> None | Some (rc, d) \<Rightarrow> if rc \<noteq> 0 then Some (-1, d) else
       Some (0, d)))))"

definition tape_index :: "('s, 'k) tape_w \<Rightarrow> tapemetaindex" where
  "tape_index d =
     \<lparr>mi_hindex = concat (ws_index (tw_stream d Headers)), mi_cindex = concat (ws_index (tw_stream d Chunks)),
      mi_tindex = concat (ws_index (tw_stream d Trailers))\<rparr>"

definition tape_metadata :: "('s, 'k) tape_w \<Rightarrow> bytes \<Rightarrow> tapemetadata" where
  "tape_metadata d tapename =
     \<lparr>tm_name = tapename, tm_ctime = tw_ctime d, tm_argc = tw_argc d, tm_argv = tw_argv d,
      tm_indexhash = [], tm_indexlen = 0, tm_metadatalen = 0\<rparr>"

text \<open>Allocations: the name, the three copies of the indexes, the encoded index and metadata.\<close>

definition flushtape :: "'s tape_env \<Rightarrow> ('s, 'k) tape_w \<Rightarrow> bool \<Rightarrow> (int \<times> ('s, 'k) tape_w) option" where
  "flushtape E d isapart =
     (case flush_streams E d of
        None \<Rightarrow> None
      | Some (rc, d) \<Rightarrow>
     (if rc \<noteq> 0 then Some (-1, d)
      else
     (if \<not> tw_mem d 0 \<or> \<not> tw_mem d 1 \<or> \<not> tw_mem d 2 \<or> \<not> tw_mem d 3 then Some (-1, mem_drop 6 d)
      else
     (case multitape_metaindex_put (tw_mem d 4) (te_cr E) (tape_wfile E d) (tw_S d) (tw_C d) (tape_index d)
             (tape_metadata d (flush_name isapart (tw_tapename d))) of (rc, S, C, tmd) \<Rightarrow>
      if rc \<noteq> 0 then Some (-1, mem_drop 6 (d\<lparr>tw_S := S, tw_C := C\<rparr>))
      else
     (case multitape_metadata_put (tw_mem d 5) (te_cr E) (tape_wfile E d) S C tmd of
        None \<Rightarrow> None
      | Some (rc, S, C) \<Rightarrow>
          let d = mem_drop 6 (d\<lparr>tw_S := S, tw_C := C\<rparr>) in
          if rc \<noteq> 0 then Some (-1, d)
          else case tape_storage (te_flush E) d of (rc, d) \<Rightarrow> if rc \<noteq> 0 then Some (-1, d) else Some (0, d))))))"

definition tape_chunks_checkpoint :: "'s tape_env \<Rightarrow> ('s, 'k) tape_w \<Rightarrow> (int \<times> ('s, 'k) tape_w) option" where
  "tape_chunks_checkpoint E d =
     map_option (\<lambda>(rc, fs). (rc, d\<lparr>tw_fs := fs\<rparr>)) (chunks_write_checkpoint (te_flt E) (tw_C d) (tw_fs d))"

text \<open>The transaction layer; it is only called with a storage layer cookie, and there is a cache
  directory then.\<close>

definition tape_checkpoint :: "'s tape_env \<Rightarrow> ('s, 'k) tape_w \<Rightarrow> (int \<times> ('s, 'k) tape_w) option" where
  "tape_checkpoint E d =
     (case tw_cachedir d of
        None \<Rightarrow> None
      | Some cachedir \<Rightarrow>
          (case multitape_checkpoint (te_flt E) (te_srv E) (te_nonce E (tw_log d)) cachedir (tw_machinenum d)
                  (tw_seqnum d) (tw_fs d) (tw_log d) of
             (rc, fs, log) \<Rightarrow> Some (rc, d\<lparr>tw_fs := fs, tw_log := log\<rparr>)))"

definition tape_cleanstate :: "'s tape_env \<Rightarrow> ('s, 'k) tape_w \<Rightarrow> (int \<times> ('s, 'k) tape_w) option" where
  "tape_cleanstate E d =
     (case tw_cachedir d of
        None \<Rightarrow> None
      | Some cachedir \<Rightarrow>
          (case multitape_cleanstate (te_flt E) (te_srv E) cachedir (tw_machinenum d) 0 (tw_fs d) (tw_log d)
                  (tw_modified d) of
             (rc, fs, log, modified) \<Rightarrow> Some (rc, d\<lparr>tw_fs := fs, tw_log := log, tw_modified := modified\<rparr>)))"

subsection \<open>Checkpoints and closing\<close>

definition extrastats_copy :: "nat \<Rightarrow> ('s, 'k) tape_w \<Rightarrow> ('s, 'k) tape_w" where
  "extrastats_copy direction d = d\<lparr>tw_C := chunks_write_extrastats_copy (tw_C d) direction\<rparr>"

text \<open>The part of \<^verbatim>\<open>writetape_checkpoint\<close> that runs between two entries.\<close>

definition checkpoint_flush :: "'s tape_env \<Rightarrow> ('s, 'k) tape_w \<Rightarrow> (int \<times> ('s, 'k) tape_w) option" where
  "checkpoint_flush E d =
     (case (if tw_mode d = 3 then endentry E d else Some (0, d)) of
        None \<Rightarrow> None
      | Some (rc, d) \<Rightarrow> if rc \<noteq> 0 then Some (-1, d) else
     (case flushtape E (extrastats_copy 0 d) True of
        None \<Rightarrow> None
      | Some (rc, d) \<Rightarrow> if rc \<noteq> 0 then Some (-1, d) else
     (case tape_chunks_checkpoint E d of
        None \<Rightarrow> None
      | Some (rc, d) \<Rightarrow> if rc \<noteq> 0 then Some (-1, d) else
        let d = extrastats_copy 1 d in
        if cw_S (tw_C d)
        then (case tape_checkpoint E d of
                None \<Rightarrow> None | Some (rc, d) \<Rightarrow> if rc \<noteq> 0 then Some (-1, d) else Some (0, d))
        else Some (0, d))))"

definition writetape_checkpoint :: "'s tape_env \<Rightarrow> ('s, 'k) tape_w \<Rightarrow> (int \<times> ('s, 'k) tape_w) option" where
  "writetape_checkpoint E d =
     (let mode_saved = tw_mode d in
      case (if mode_saved < 2 then writetape_setmode E d 2 else Some (0, d)) of
        None \<Rightarrow> None
      | Some (rc, d) \<Rightarrow> if rc \<noteq> 0 then Some (-1, d) else
     (case checkpoint_flush E d of
        None \<Rightarrow> None
      | Some (rc, d) \<Rightarrow> if rc \<noteq> 0 then Some (-1, d) else
     (case (if mode_saved < 2 then writetape_setmode E d mode_saved else Some (0, d)) of
        None \<Rightarrow> None
      | Some (rc, d) \<Rightarrow> if rc \<noteq> 0 then Some (-1, d) else Some (0, d))))"

text \<open>The last entry is ended: that of an archive that is truncated, or the end-of-archive marker.\<close>

definition close_entry :: "'s tape_env \<Rightarrow> ('s, 'k) tape_w \<Rightarrow> (int \<times> ('s, 'k) tape_w) option" where
  "close_entry E d =
     (case (if tw_eof d \<and> tw_mode d < 2 then writetape_setmode E d 2 else Some (0, d)) of
        None \<Rightarrow> None
      | Some (rc, d) \<Rightarrow> if rc \<noteq> 0 then Some (-1, d) else
     (case (if tw_mode d = 3 then endentry E d else Some (0, d)) of
        None \<Rightarrow> None
      | Some (rc, d) \<Rightarrow> if rc \<noteq> 0 then Some (-1, d) else
        if tw_mode d < 2 \<and> \<not> tw_eof d then Some (-1, d) else Some (0, d)))"

definition close_commit :: "'s tape_env \<Rightarrow> ('s, 'k) tape_w \<Rightarrow> (int \<times> ('s, 'k) tape_w) option" where
  "close_commit E d =
     (case tape_checkpoint E d of
        None \<Rightarrow> None
      | Some (rc, d) \<Rightarrow> if rc \<noteq> 0 then Some (-1, d) else
     (case tape_cleanstate E d of
        None \<Rightarrow> None | Some (rc, d) \<Rightarrow> if rc \<noteq> 0 then Some (-1, d) else Some (0, d)))"

definition writetape_close :: "'s tape_env \<Rightarrow> ('s, 'k) tape_w \<Rightarrow> (int \<times> ('s, 'k) tape_w) option" where
  "writetape_close E d =
     (case close_entry E d of
        None \<Rightarrow> None
      | Some (rc, d) \<Rightarrow> if rc \<noteq> 0 then Some (-1, d) else
     (case flushtape E d (tw_eof d) of
        None \<Rightarrow> None
      | Some (rc, d) \<Rightarrow> if rc \<noteq> 0 then Some (-1, d) else
        if tw_stats_enabled d \<and> \<not> te_printstats E (tw_C d) then Some (-1, d) else
     (case tape_chunks_checkpoint E d of
        None \<Rightarrow> None
      | Some (rc, d) \<Rightarrow> if rc \<noteq> 0 then Some (-1, d) else
     (case tape_storage (te_end E) d of
        (rc, d) \<Rightarrow> if rc \<noteq> 0 then Some (-1, d)
                   else if cw_S (tw_C d) then close_commit E d else Some (0, d)))))"

subsection \<open>Opening\<close>

text \<open>As many arguments as fit into 128 kB.\<close>

fun fitting_args :: "nat \<Rightarrow> bytes list \<Rightarrow> nat" where
  "fitting_args argvlen [] = 0"
| "fitting_args argvlen (a # argv) =
     (let argvlen = argvlen + length a + 1
      in if argvlen > 128000 then 0 else Suc (fitting_args argvlen argv))"

text \<open>\<^verbatim>\<open>storage_write_fexist\<close> answers 0 in a dry run, where the hash of the name is still computed.\<close>

definition storage_fexist :: "'s tape_env \<Rightarrow> ('s, 'k) tape_w \<Rightarrow> 's \<Rightarrow> char \<Rightarrow> bytes \<Rightarrow> int \<times> 's" where
  "storage_fexist E d S c h = (if cw_S (tw_C d) then te_fexist E S c h else (0, S))"

definition tapepresent :: "'s tape_env \<Rightarrow> ('s, 'k) tape_w \<Rightarrow> bytes \<Rightarrow> int \<times> ('s, 'k) tape_w" where
  "tapepresent E d tapename =
     (if \<not> tw_mem d 0 then (-1, mem_drop 1 d)
      else let d = mem_drop 1 d in
      case multitape_metadata_ispresent (te_cr E) (storage_fexist E d) (tw_S d) tapename of (rc, S) \<Rightarrow>
        (if rc = 1 then 1 else if rc = -1 then -1 else 0, d\<lparr>tw_S := S\<rparr>))"

text \<open>The chunking key; a chunker takes five allocations.\<close>

definition new_chunker :: "'s tape_env \<Rightarrow> (bytes \<Rightarrow> bytes option) \<Rightarrow> ('s, 'k) tape_w
    \<Rightarrow> (chunkifier option \<times> ('s, 'k) tape_w) option" where
  "new_chunker E hmac d =
     map_option (\<lambda>c. (c, mem_drop 5 d)) (chunkify_init (tw_mem d) (te_host E) hmac (of_nat MEANCHUNK) (of_nat MAXCHUNK))"

text \<open>The result \<^const>\<open>False\<close> is the return value -1.\<close>

definition stream_init :: "'s tape_env \<Rightarrow> (bytes \<Rightarrow> bytes option) \<Rightarrow> bool \<Rightarrow> tape_stream \<Rightarrow> ('s, 'k) tape_w
    \<Rightarrow> (bool \<times> ('s, 'k) tape_w) option" where
  "stream_init E hmac no_chunkifier i d =
     (case (if no_chunkifier then Some (None, d) else new_chunker E hmac d) of
        None \<Rightarrow> None
      | Some (c, d) \<Rightarrow>
          if c = None \<and> \<not> no_chunkifier then Some (False, d)
          else if \<not> tw_mem d 0 then Some (False, mem_drop 1 d)
          else Some (True, mem_drop 1 (d\<lparr>tw_stream := (tw_stream d)(i := \<lparr>ws_index = [], ws_c = c\<rparr>)\<rparr>)))"

definition open_chunkers :: "'s tape_env \<Rightarrow> (bytes \<Rightarrow> bytes option) \<Rightarrow> bool \<Rightarrow> ('s, 'k) tape_w
    \<Rightarrow> ('s, 'k) tape_w option option" where
  "open_chunkers E hmac no_chunkifiers d =
     (case stream_init E hmac no_chunkifiers Headers d of None \<Rightarrow> None | Some (ok, d) \<Rightarrow> if \<not> ok then Some None else
     (case stream_init E hmac no_chunkifiers Chunks d of None \<Rightarrow> None | Some (ok, d) \<Rightarrow> if \<not> ok then Some None else
     (case stream_init E hmac no_chunkifiers Trailers d of None \<Rightarrow> None | Some (ok, d) \<Rightarrow> if \<not> ok then Some None else
      if \<not> tw_mem d 0 then Some None
      else let d = mem_drop 1 d in
      if no_chunkifiers then Some (Some d)
      else case new_chunker E hmac d of
             None \<Rightarrow> None
           | Some (None, d) \<Rightarrow> Some None
           | Some (Some c, d) \<Rightarrow> Some (Some (d\<lparr>tw_c_file := Some c\<rparr>)))))"

text \<open>
  The parameters of the caller are fields of \<open>d0\<close>: the name, machine, cache directory, time, all
  arguments, and the state of the cache, of the server log and of the allocator.  \<open>lock\<close> says whether
  the cache directory can be locked, \<open>entropy\<close> is for the chunk table.  The result is \<^const>\<open>None\<close> inside
  when no tape is opened.
\<close>

definition open_transaction :: "'s tape_env \<Rightarrow> nat \<Rightarrow> ('s, 'k) tape_w \<Rightarrow> ('s, 'k) tape_w option option" where
  "open_transaction E dryrun d =
     (if dryrun \<noteq> 0 then Some (Some d)
      else case tape_cleanstate E d of
             None \<Rightarrow> None
           | Some (rc, d) \<Rightarrow>
               if rc \<noteq> 0 then Some None
               else case multitape_sequence (te_flt E) (the (tw_cachedir d)) (tw_fs d) of
                      (None, fs) \<Rightarrow> Some None
                    | (Some lastseq, fs) \<Rightarrow>
                        (case te_start E (tw_machinenum d) lastseq of
                           None \<Rightarrow> Some None
                         | Some (S, seqnum) \<Rightarrow> Some (Some (d\<lparr>tw_fs := fs, tw_S := S, tw_seqnum := seqnum\<rparr>))))"

definition writetape_open :: "'s tape_env \<Rightarrow> (bytes \<Rightarrow> bytes option) \<Rightarrow> bytes option \<Rightarrow> bool \<Rightarrow> nat
    \<Rightarrow> ('s, 'k) tape_w \<Rightarrow> ('s, 'k) tape_w option option" where
  "writetape_open E hmac entropy lock dryrun d0 =
     (if dryrun = 2 \<and> tw_stats_enabled d0 then None
      else if \<not> tw_mem d0 0 \<or> \<not> tw_mem d0 1 \<or> tw_cachedir d0 \<noteq> None \<and> \<not> tw_mem d0 2 then Some None
      else let d = mem_drop 3 (d0\<lparr>tw_argc := int (fitting_args 0 (tw_argv d0)), tw_mode := 2, tw_eof := False,
             tw_c_file := None, tw_c_file_in := 0, tw_c_file_out := 0, tw_hbuf := [], tw_clen := 0, tw_tlen := 0,
             tw_callback_chunk := None, tw_callback_trailer := None\<rparr>) in
      if tw_cachedir d \<noteq> None \<and> \<not> lock then Some None
      else case open_transaction E dryrun d of None \<Rightarrow> None | Some None \<Rightarrow> Some None | Some (Some d) \<Rightarrow>
     (case chunks_write_start (te_flt E) (te_hash E) entropy (tw_cachedir d) (dryrun = 0) MAXCHUNK (tw_fs d) of
        None \<Rightarrow> None | Some (None, fs) \<Rightarrow> Some None | Some (Some C, fs) \<Rightarrow>
     (case tapepresent E (d\<lparr>tw_C := C, tw_fs := fs\<rparr>) (tw_tapename d) of (rc, d) \<Rightarrow>
      if rc \<noteq> 0 then Some None else
     (case tapepresent E d (tw_tapename d @ part_suffix) of (rc, d) \<Rightarrow>
      if rc \<noteq> 0 then Some None else open_chunkers E hmac (dryrun = 2) d))))"

end
