(* ===== verification/Tape_Content.thy ===== *)
theory Tape_Content
  imports Tape_Write Tape_Read
begin

text \<open>
  What a tape that is being written contains.  Every operation of \<^verbatim>\<open>Tape_Write\<close> that reports success
  keeps the invariant \<open>tape_inv\<close>: the chunks that the three streams name, with what waits in the
  chunkers, are the streams of an archive in the format that \<^verbatim>\<open>Tape_Read\<close> reads, and the archive is
  what has been written.
\<close>

subsection \<open>Chunkers on a tape\<close>

fun tape_hand :: "('s, 'k) tape_chunkdone \<Rightarrow> bytes list \<Rightarrow> ('s, 'k) tape_w \<Rightarrow> (int \<times> ('s, 'k) tape_w) option" where
  "tape_hand f [] d = Some (0, d)"
| "tape_hand f (ch # chs) d =
     (case f d ch of None \<Rightarrow> None | Some (rc, d) \<Rightarrow> if rc \<noteq> 0 then Some (rc, d) else tape_hand f chs d)"

lemma hand_over_none: "hand_over (on_tape f) chs None = (0, od) \<Longrightarrow> od = None"
  by (cases chs) (auto simp: on_tape_def split: if_splits)

lemma hand_over_tape: "hand_over (on_tape f) chs (Some d) = (0, Some d') \<Longrightarrow> tape_hand f chs d = Some (0, d')"
proof (induction chs arbitrary: d)
  case (Cons ch chs)
  then show ?case
    by (cases "f d ch") (auto simp: on_tape_def split: prod.splits if_splits dest: hand_over_none)
qed simp

text \<open>A chunker as the tape uses it.\<close>

definition tape_chunker :: "chunkifier \<Rightarrow> bool" where
  "tape_chunker c \<longleftrightarrow> chunk_inv c \<and> ck_blen c = of_nat MAXCHUNK \<and> ck_mu c = of_nat MEANCHUNK"

lemma maxchunk_word [simp]: "unat (of_nat MAXCHUNK :: u32) = 261120" "unat (of_nat MEANCHUNK :: u32) = 65536"
  by (simp_all add: MAXCHUNK_def MEANCHUNK_def)

text \<open>Success of a chunker: chunks of at least a quarter of the mean length were handed over, and
  nothing is lost.\<close>

lemma chunker_write_ok:
  assumes run: "chunker_write f (Some c) buf d = Some (0, oc, d')" and c: "tape_chunker c"
  shows "\<exists>c' chs. oc = Some c' \<and> tape_hand f chs d = Some (0, d') \<and> tape_chunker c' \<and>
    concat chs @ pending c' = pending c @ buf \<and> (\<forall>ch\<in>set chs. 16384 < length ch \<and> length ch \<le> 261120)"
proof -
  have inv: "chunk_inv c" "ck_blen c = of_nat MAXCHUNK" "ck_mu c = of_nat MEANCHUNK"
    using c by (auto simp: tape_chunker_def)
  obtain rc c' s' chs where w: "chunkify_write (on_tape f) c buf (Some d) = Some (rc, c', s')"
      "hand_over (on_tape f) chs (Some d) = (rc, s')"
      "\<forall>ch\<in>set chs. unat (ck_mu c) < 4 * length ch \<and> length ch \<le> unat (ck_blen c)"
      "if rc = 0 then chunk_inv c' \<and> ck_blen c' = ck_blen c \<and> ck_mu c' = ck_mu c \<and> concat chs @ pending c' = pending c @ buf
       else chs \<noteq> [] \<and> fst (hand_over (on_tape f) (butlast chs) (Some d)) = 0 \<and> prefix (concat chs) (pending c @ buf)"
    using chunkify_write_spec [OF inv(1), of "on_tape f" buf "Some d"] by blast
  have r: "rc = 0" "oc = Some c'" "s' = Some d'"
    using run w(1) by (auto simp: chunker_write_def split: option.splits)
  have "\<forall>ch\<in>set chs. 16384 < length ch \<and> length ch \<le> 261120"
    using w(3) unfolding inv(2,3) maxchunk_word by auto
  then show ?thesis
    using r w(2,4) inv hand_over_tape [of f chs d d'] by (auto simp: tape_chunker_def)
qed

lemma pending_length: "tape_chunker c \<Longrightarrow> length (pending c) = unat (ck_k c) \<and> length (pending c) < 261120"
proof -
  assume "tape_chunker c"
  then have "unat (ck_k c) < unat (ck_blen c)" "length (ck_buf c) = unat (ck_blen c)" "ck_blen c = of_nat MAXCHUNK"
    by (auto simp: tape_chunker_def chunk_inv_def chunk_params_def)
  then show ?thesis by (simp only: maxchunk_word length_take) simp
qed

text \<open>The end of a chunk: what waits in the chunker is handed over, if there is any.\<close>

lemma chunker_end_ok:
  assumes run: "chunker_end f (Some c) d = Some (0, oc, d')" and c: "tape_chunker c"
  shows "\<exists>c' chs. oc = Some c' \<and> tape_hand f chs d = Some (0, d') \<and> tape_chunker c' \<and> pending c' = [] \<and>
    chs = (if pending c = [] then [] else [pending c])"
proof (cases "ck_k c = 0")
  case True
  then have "oc = Some c" "d' = d" using run by (auto simp: chunker_end_def chunkify_end_def)
  then show ?thesis using c True by (intro exI [of _ c] exI [of _ "[]"]) simp
next
  case False
  have p: "pending c \<noteq> []"
    using pending_length [OF c] False by (metis length_0_conv unat_eq_zero)
  have start: "tape_chunker (chunkify_start c)" "pending (chunkify_start c) = []"
    using c chunkify_start_inv [of c] by (auto simp: tape_chunker_def chunk_inv_def chunkify_start_def)
  obtain rc od where cb: "on_tape f (Some d) (pending c) = (rc, od)" by fastforce
  then have "rc = 0" "oc = Some (chunkify_start c)" "od = Some d'"
    using run False by (auto simp: chunker_end_def chunkify_end_def split: option.splits if_splits)
  moreover have "f d (pending c) = Some (0, d')"
    using cb calculation by (auto simp: on_tape_def split: option.splits prod.splits)
  ultimately show ?thesis using p start by (intro exI [of _ "chunkify_start c"] exI [of _ "[pending c]"]) simp
qed

text \<open>Rules for what is handed over.\<close>

lemma tape_hand_inv:
  assumes "tape_hand f chs d = Some (0, d')" "I acc d"
    and "\<And>acc ch d d'. I acc d \<Longrightarrow> ch \<in> set chs \<Longrightarrow> f d ch = Some (0, d') \<Longrightarrow> I (acc @ ch) d'"
  shows "I (acc @ concat chs) d'"
  using assms
proof (induction chs arbitrary: d acc)
  case (Cons ch chs)
  obtain d1 where d1: "f d ch = Some (0, d1)" "tape_hand f chs d1 = Some (0, d')"
    using Cons.prems(1) by (auto split: option.splits prod.splits if_splits)
  have "I ((acc @ ch) @ concat chs) d'"
    using Cons.prems(2) d1(1) by (intro Cons.IH [OF d1(2)] Cons.prems(3)) auto
  then show ?case by simp
qed simp

subsection \<open>Chunks on the server\<close>

abbreviation chunk_hash :: "'s tape_env \<Rightarrow> bytes \<Rightarrow> bytes option" where
  "chunk_hash E b \<equiv> crypto_hash_data (te_cr E) CRYPTO_KEY_HMAC_CHUNK b"

abbreviation chunk_table :: "('s, 'k) tape_w \<Rightarrow> bytes \<Rightarrow> chunkdata option" where
  "chunk_table d \<equiv> dir_map (cw_HT (tw_C d))"

definition ZBUFLEN :: nat where "ZBUFLEN = MAXCHUNK + MAXCHUNK div 1000 + 13"

lemma ZBUFLEN_value: "ZBUFLEN = 261394"
  by (simp add: ZBUFLEN_def MAXCHUNK_def)

text \<open>What the code relies on of zlib: data are decompressed, even when padding follows.\<close>

definition zlib_inverse :: "compress2 \<Rightarrow> uncompress \<Rightarrow> bool" where
  "zlib_inverse compress2 uncompress \<longleftrightarrow>
     (\<forall>cap b z n. compress2 cap b = Inr z \<longrightarrow> uncompress (length b) (z @ replicate n 0) = Inr b)"

definition env_ok :: "'s tape_env \<Rightarrow> ('s \<Rightarrow> files) \<Rightarrow> uncompress \<Rightarrow> bool" where
  "env_ok E files uncompress \<longleftrightarrow>
     hmacs_ok (te_cr E) \<and> zlib_ok (te_compress2 E) \<and> zlib_inverse (te_compress2 E) uncompress \<and>
     wfile_ok files (te_wfile E)"

text \<open>A file that holds the chunk \<open>b\<close> in compressed form.\<close>

definition holds_chunk :: "uncompress \<Rightarrow> files \<Rightarrow> bytes \<Rightarrow> chunkdata \<Rightarrow> bytes \<Rightarrow> bool" where
  "holds_chunk uncompress F h cd b \<longleftrightarrow>
     (\<exists>z. F (CHR ''c'', h) = Some z \<and> length z = unat (cd_zlen cd) \<and> length z \<le> ZBUFLEN \<and>
        length b = unat (cd_len cd) \<and> length b \<le> MAXCHUNK \<and> uncompress (length b) z = Inr b)"

text \<open>Every chunk of the directory is on the server, under its hash.\<close>

definition on_server :: "'s tape_env \<Rightarrow> uncompress \<Rightarrow> files \<Rightarrow> (bytes \<Rightarrow> chunkdata option) \<Rightarrow> bool" where
  "on_server E uncompress F m \<longleftrightarrow>
     (\<forall>h cd. m h = Some cd \<longrightarrow> (\<exists>b. chunk_hash E b = Some h \<and> holds_chunk uncompress F h cd b))"

text \<open>A chunk header names a chunk of the directory by the hash of \<open>b\<close>.\<close>

definition names_chunk :: "'s tape_env \<Rightarrow> (bytes \<Rightarrow> chunkdata option) \<Rightarrow> bytes \<Rightarrow> bytes \<Rightarrow> bool" where
  "names_chunk E m ch b \<longleftrightarrow> b \<noteq> [] \<and> length b \<le> MAXCHUNK \<and>
     (\<exists>h cd. chunk_hash E b = Some h \<and> length h = 32 \<and> m h = Some cd \<and>
        ch = h @ le32enc (of_nat (length b)) @ le32enc (cd_zlen cd))"

lemma names_chunk_keeps: "names_chunk E m ch b \<Longrightarrow> chunk_keeps m m' \<Longrightarrow> names_chunk E m' ch b"
  unfolding names_chunk_def chunk_keeps_def by metis

lemma all_names_keep:
  "list_all2 (names_chunk E m) chs bs \<Longrightarrow> chunk_keeps m m' \<Longrightarrow> list_all2 (names_chunk E m') chs bs"
  by (erule list.rel_mono_strong) (rule names_chunk_keeps)

text \<open>The layers below the tape: \<open>m0\<close> is the directory that the tape started from, and \<open>M\<close> are the uses of
  chunks that have been counted since.\<close>

definition base_ok :: "'s tape_env \<Rightarrow> ('s \<Rightarrow> files) \<Rightarrow> uncompress \<Rightarrow> (bytes \<Rightarrow> chunkdata option)
    \<Rightarrow> bytes multiset \<Rightarrow> ('s, 'k) tape_w \<Rightarrow> bool" where
  "base_ok E files uncompress m0 M d \<longleftrightarrow>
     (\<exists>us. mset us = M \<and> write_inv (te_hash E) m0 us (tw_C d)) \<and> cw_S (tw_C d) \<and> cw_zbuflen (tw_C d) = ZBUFLEN \<and>
     cw_path (tw_C d) = tw_cachedir d \<and> on_server E uncompress (files (tw_S d)) (chunk_table d)"

lemma on_server_cong: "on_server E u F m \<Longrightarrow> (\<And>h. F' (CHR ''c'', h) = F (CHR ''c'', h)) \<Longrightarrow> on_server E u F' m"
  by (simp add: on_server_def holds_chunk_def)

lemma on_server_use:
  assumes "on_server E u F m" "m h = Some cd"
  shows "on_server E u F (m(h \<mapsto> chunk_use cd))"
  unfolding on_server_def
proof (intro allI impI)
  fix h' cd' assume "(m(h \<mapsto> chunk_use cd)) h' = Some cd'"
  then obtain c where "m h' = Some c" "cd_zlen cd' = cd_zlen c" "cd_len cd' = cd_len c"
    using assms(2) by (auto split: if_splits)
  then show "\<exists>b. chunk_hash E b = Some h' \<and> holds_chunk u F h' cd' b"
    using assms(1) by (simp add: on_server_def holds_chunk_def)
qed

lemma unat_of_nat_u32: "n < 4294967296 \<Longrightarrow> unat (of_nat n :: u32) = n"
  by (simp add: unat_of_nat)

text \<open>A chunk that is written with success is in the directory and on the server afterwards.\<close>

lemma write_chunk_stored:
  assumes env: "env_ok E files u" and inv: "write_inv (te_hash E) m0 us C"
    and C: "cw_S C" "cw_zbuflen C = ZBUFLEN" and srv: "on_server E u (files s) (dir_map (cw_HT C))"
    and h: "chunk_hash E buf = Some h" and buf: "buf \<noteq> []" "length buf \<le> MAXCHUNK"
    and run: "chunks_write_chunk ma (te_hash E) (te_compress2 E) (te_wfile E) C h buf s = Some (zlen, C', s')"
    and ok: "zlen \<noteq> -1"
  shows "\<exists>cd. dir_map (cw_HT C') h = Some cd \<and> of_int zlen = cd_zlen cd \<and>
    chunk_keeps (dir_map (cw_HT C)) (dir_map (cw_HT C')) \<and> cw_S C' \<and> cw_zbuflen C' = ZBUFLEN \<and> cw_path C' = cw_path C \<and>
    on_server E u (files s') (dir_map (cw_HT C')) \<and> write_inv (te_hash E) m0 (us @ [h]) C'"
proof -
  let ?m = "dir_map (cw_HT C)"
  have e: "hmacs_ok (te_cr E)" "zlib_ok (te_compress2 E)" "zlib_inverse (te_compress2 E) u" "wfile_ok files (te_wfile E)"
    using env by (simp_all add: env_ok_def)
  have h32: "length h = 32" using hash_length [OF e(1) h] .
  have dir: "dir_inv (te_hash E) (cw_HT C)" and t: "tally m0 us ?m" using inv by (simp_all add: write_inv_def)
  have inv': "write_inv (te_hash E) m0 (us @ [h]) C'"
    using write_inv_chunk [OF inv e(2) h32 buf(1) run] ok by blast
  have small: "length buf \<le> UINT32_MAX" using buf(2) by (simp add: MAXCHUNK_def)
  have read: "rwhashtab_read (te_hash E) cd_hash (cw_HT C) h = Some (?m h)"
    using dir by (simp add: rwhashtab_read_spec)
  show ?thesis
  proof (cases "?m h")
    case (Some cd)
    then have r: "zlen = int (unat (cd_zlen cd))" "C' = chunks_write_use (te_hash E) C cd" "s' = s"
      using run read by (auto simp: chunks_write_chunk_def split: if_splits)
    have key: "cd_hash cd = h" using Some t unfolding tally_def by blast
    have map': "dir_map (cw_HT C') = ?m(h \<mapsto> chunk_use cd)"
      using rwhashtab_update_spec(2) [OF dir, of "chunk_use cd" cd] Some key by (simp add: r(2) chunks_write_use_def)
    have "chunk_keeps ?m (dir_map (cw_HT C'))" unfolding map' by (rule tally_use(2) [OF t Some])
    moreover have "on_server E u (files s') (dir_map (cw_HT C'))"
      unfolding map' r(3) by (rule on_server_use [OF srv Some])
    moreover have "cw_S C' \<and> cw_zbuflen C' = ZBUFLEN \<and> cw_path C' = cw_path C" using C by (simp add: r(2) chunks_write_use_def)
    ultimately show ?thesis using inv' r(1) by (simp add: map')
  next
    case None
    then have new: "chunks_write_new ma (te_hash E) (te_compress2 E) (te_wfile E) C h buf s = Some (zlen, C', s')"
      using run read by (simp add: chunks_write_chunk_def split: if_splits)
    obtain z where z: "te_compress2 E ZBUFLEN buf = Inr z"
      using new ok C(2) by (auto simp: chunks_write_new_def split: sum.splits)
    have zl: "z \<noteq> []" "length z \<le> ZBUFLEN" using e(2) z by (auto simp: zlib_ok_def)
    define zb where "zb = z @ replicate (padme (length z) ZBUFLEN) 0"
    define cd where "cd = chunk_new h (length buf) (length zb)"
    have zb: "0 < length zb" "length zb \<le> ZBUFLEN"
      using padme_le [OF zl(2)] zl(1) by (simp_all add: zb_def ZBUFLEN_value)
    have cdz: "cd_zlen cd = of_nat (length zb)" "cd_hash cd = h"
      using chunk_new_ok(2,3) [OF h32, of "length buf" "length zb"] buf small zb by (simp_all add: cd_def ZBUFLEN_value)
    obtain rc1 s1 where st: "te_wfile E s zb (CHR ''c'') h = (rc1, s1)" by fastforce
    obtain rc2 HT where ins: "rwhashtab_insert (ma 1) (te_hash E) cd_hash (cw_HT C) cd = Some (rc2, HT)"
      and cases: "rc2 = 0 \<and> ?m (cd_hash cd) = None \<and> dir_map HT = ?m(cd_hash cd \<mapsto> cd) \<or>
        rc2 = 1 \<and> ?m (cd_hash cd) \<noteq> None \<and> dir_map HT = ?m \<or> rc2 = -1 \<and> HT = cw_HT C"
      using ht.ins_result [OF dir, of "ma 1" cd] by blast
    have big: "\<not> SSIZE_MAX < length z" using zl(2) by (simp add: ZBUFLEN_value)
    note run' = new [unfolded chunks_write_new_def C(2) z sum.case Let_def if_not_P [OF big] if_P [OF C(1)],
        folded zb_def, folded cd_def, unfolded st prod.case ins option.case]
    have good: "rc1 = 0" "rc2 = 0" "s' = s1" "zlen = int (length zb)" "cw_HT C' = HT" "cw_S C'" "cw_zbuflen C' = ZBUFLEN"
        "cw_path C' = cw_path C"
      using run' ok C by (auto split: if_splits)
    have map': "dir_map (cw_HT C') = ?m(h \<mapsto> cd)" using cases good cdz by auto
    have files': "files s' = (files s)((CHR ''c'', h) \<mapsto> zb)" using e(4) st good by (simp add: wfile_ok_def)
    have un: "u (length buf) zb = Inr buf" using e(3) z by (simp add: zlib_inverse_def zb_def)
    have zbl: "unat (cd_zlen cd) = length zb" using cdz(1) zb by (simp add: unat_of_nat_u32 ZBUFLEN_value)
    have len: "unat (cd_len cd) = length buf" using buf(2) by (simp add: cd_def chunk_new_def unat_of_nat_u32 MAXCHUNK_def)
    have "chunk_keeps ?m (dir_map (cw_HT C'))" unfolding map' using None by (auto simp: chunk_keeps_def)
    moreover have "on_server E u (files s') (dir_map (cw_HT C'))"
      unfolding on_server_def map'
    proof (intro allI impI)
      fix h' cd' assume m: "(?m(h \<mapsto> cd)) h' = Some cd'"
      show "\<exists>b. chunk_hash E b = Some h' \<and> holds_chunk u (files s') h' cd' b"
      proof (cases "h' = h")
        case True
        then show ?thesis using m h zb zbl len un files' buf(2) by (intro exI [of _ buf]) (simp add: holds_chunk_def)
      next
        case False
        then show ?thesis using m srv files' by (auto simp: on_server_def holds_chunk_def)
      qed
    qed
    ultimately show ?thesis using inv' good cdz map' by simp
  qed
qed

lemma store_chunk_ok:
  assumes env: "env_ok E files u" and base: "base_ok E files u m0 M d" and buf: "buf \<noteq> []" "length buf \<le> MAXCHUNK"
    and run: "store_chunk E buf d = Some (Inr ch, d')"
  shows "base_ok E files u m0 (add_mset (ch_hash ch) M) d' \<and> names_chunk E (chunk_table d') ch buf \<and> chunk_keeps (chunk_table d) (chunk_table d') \<and>
    (\<exists>C S ma. d' = d\<lparr>tw_C := C, tw_S := S, tw_mem := ma\<rparr>)"
proof -
  obtain us where us: "mset us = M" and inv: "write_inv (te_hash E) m0 us (tw_C d)" and C: "cw_S (tw_C d)" "cw_zbuflen (tw_C d) = ZBUFLEN"
    and path: "cw_path (tw_C d) = tw_cachedir d" and srv: "on_server E u (files (tw_S d)) (chunk_table d)"
    using base by (auto simp: base_ok_def)
  obtain h zlen C' S' where h: "chunk_hash E buf = Some h"
    and w: "chunks_write_chunk (tw_mem d) (te_hash E) (te_compress2 E) (te_wfile E) (tw_C d) h buf (tw_S d) = Some (zlen, C', S')"
    and ok: "zlen \<noteq> -1" and ch: "ch = take 32 h @ le32enc (of_nat (length buf)) @ le32enc (of_int zlen)"
    and d': "d' = mem_drop 2 (d\<lparr>tw_C := C', tw_S := S'\<rparr>)"
    using run by (auto simp: store_chunk_def Let_def split: option.splits if_splits)
  have h32: "length h = 32" using hash_length [OF _ h] env by (simp add: env_ok_def)
  obtain cd where cd: "dir_map (cw_HT C') h = Some cd" "of_int zlen = cd_zlen cd"
      "chunk_keeps (chunk_table d) (dir_map (cw_HT C'))" "cw_S C'" "cw_zbuflen C' = ZBUFLEN" "cw_path C' = tw_cachedir d"
      "on_server E u (files S') (dir_map (cw_HT C'))" "write_inv (te_hash E) m0 (us @ [h]) C'"
    using write_chunk_stored [OF env inv C srv h buf w ok] unfolding path by blast
  have f: "tw_C d' = C'" "tw_S d' = S'" "tw_cachedir d' = tw_cachedir d" "\<exists>C S ma. d' = d\<lparr>tw_C := C, tw_S := S, tw_mem := ma\<rparr>"
    by (auto simp: d' mem_drop_def intro!: exI)
  have "names_chunk E (chunk_table d') ch buf"
    unfolding names_chunk_def f using buf h h32 cd(1,2) ch by auto
  moreover have "mset (us @ [h]) = add_mset (ch_hash ch) M" using us h32 by (simp add: ch)
  then have "base_ok E files u m0 (add_mset (ch_hash ch) M) d'" unfolding base_ok_def f using cd by blast
  ultimately show ?thesis using cd(3) f by simp
qed

subsection \<open>Streams\<close>

text \<open>A stream whose chunks, with what waits in its chunker, are \<open>data\<close>.\<close>

definition stream_inv :: "'s tape_env \<Rightarrow> (bytes \<Rightarrow> chunkdata option) \<Rightarrow> wstream \<Rightarrow> bytes \<Rightarrow> bool" where
  "stream_inv E m S data \<longleftrightarrow>
     (\<exists>bufs c. ws_c S = Some c \<and> tape_chunker c \<and> list_all2 (names_chunk E m) (ws_index S) bufs \<and>
        concat bufs @ pending c = data)"

text \<open>The fields that the callbacks of the streams change.\<close>

definition same_tape :: "('s, 'k) tape_w \<Rightarrow> ('s, 'k) tape_w \<Rightarrow> bool" where
  "same_tape d d' \<longleftrightarrow>
     d' = d\<lparr>tw_C := tw_C d', tw_S := tw_S d', tw_mem := tw_mem d', tw_stream := tw_stream d'\<rparr>"

lemma same_tape_refl [simp]: "same_tape d d"
  by (simp add: same_tape_def)

lemma same_tape_trans: "same_tape d d' \<Longrightarrow> same_tape d' d'' \<Longrightarrow> same_tape d d''"
  by (cases d; cases d'; cases d'') (simp add: same_tape_def)

lemma same_tape_fields:
  assumes "same_tape d d'"
  shows "tw_c_file d' = tw_c_file d" "tw_c_file_in d' = tw_c_file_in d" "tw_c_file_out d' = tw_c_file_out d"
    "tw_mode d' = tw_mode d" "tw_hbuf d' = tw_hbuf d" "tw_clen d' = tw_clen d" "tw_tlen d' = tw_tlen d"
    "tw_eof d' = tw_eof d" "tw_tapename d' = tw_tapename d" "tw_cachedir d' = tw_cachedir d"
    "tw_ctime d' = tw_ctime d" "tw_argc d' = tw_argc d" "tw_argv d' = tw_argv d"
    "tw_callback_chunk d' = tw_callback_chunk d" "tw_callback_trailer d' = tw_callback_trailer d"
    "tw_fs d' = tw_fs d" "tw_log d' = tw_log d" "tw_seqnum d' = tw_seqnum d" "tw_machinenum d' = tw_machinenum d"
    "tw_modified d' = tw_modified d"
  using assms by (cases d; cases d'; simp add: same_tape_def)+

text \<open>What a step of a stream keeps of the rest of the tape: the uses of chunks are those of its index,
  and \<open>N\<close>.\<close>

abbreviation index_uses :: "('s, 'k) tape_w \<Rightarrow> tape_stream \<Rightarrow> bytes multiset" where
  "index_uses d i \<equiv> mset (map ch_hash (ws_index (tw_stream d i)))"

definition stream_step :: "'s tape_env \<Rightarrow> ('s \<Rightarrow> files) \<Rightarrow> uncompress \<Rightarrow> (bytes \<Rightarrow> chunkdata option) \<Rightarrow> bytes multiset \<Rightarrow> tape_stream
    \<Rightarrow> ('s, 'k) tape_w \<Rightarrow> ('s, 'k) tape_w \<Rightarrow> bool" where
  "stream_step E files u m0 N i d d' \<longleftrightarrow>
     base_ok E files u m0 (N + index_uses d' i) d' \<and> same_tape d d' \<and> chunk_keeps (chunk_table d) (chunk_table d') \<and>
     (\<forall>j. j \<noteq> i \<longrightarrow> tw_stream d' j = tw_stream d j)"

lemma callback_stream_ok:
  assumes env: "env_ok E files u" and base: "base_ok E files u m0 (N + index_uses d i) d" and buf: "buf \<noteq> []" "length buf \<le> MAXCHUNK"
    and run: "callback_stream E i d buf = Some (0, d')"
  shows "stream_step E files u m0 N i d d' \<and>
    (\<exists>ch. names_chunk E (chunk_table d') ch buf \<and>
       tw_stream d' i = (tw_stream d i)\<lparr>ws_index := ws_index (tw_stream d i) @ [ch]\<rparr>)"
proof -
  obtain ch d1 where st: "store_chunk E buf d = Some (Inr ch, d1)"
    and d': "d' = (mem_drop 1 d1)\<lparr>tw_stream := (tw_stream d1)(i := (tw_stream d i)\<lparr>ws_index := ws_index (tw_stream d i) @ [ch]\<rparr>)\<rparr>"
    using run by (auto simp: callback_stream_def handle_chunk_def mem_drop_def split: option.splits sum.splits if_splits)
  obtain C S ma where s: "base_ok E files u m0 (add_mset (ch_hash ch) (N + index_uses d i)) d1" "names_chunk E (chunk_table d1) ch buf"
      "chunk_keeps (chunk_table d) (chunk_table d1)" "d1 = d\<lparr>tw_C := C, tw_S := S, tw_mem := ma\<rparr>"
    using store_chunk_ok [OF env base buf st] by blast
  have f: "tw_C d' = tw_C d1" "tw_S d' = tw_S d1" by (simp_all add: d' mem_drop_def)
  have "same_tape d d'" by (auto simp: same_tape_def d' s(4) mem_drop_def)
  moreover have i: "tw_stream d' i = (tw_stream d i)\<lparr>ws_index := ws_index (tw_stream d i) @ [ch]\<rparr>"
      "\<forall>j. j \<noteq> i \<longrightarrow> tw_stream d' j = tw_stream d j"
    by (simp_all add: d' s(4) mem_drop_def)
  moreover have same: "base_ok E files u m0 M d' = base_ok E files u m0 M d1" for M
    by (simp add: base_ok_def d' mem_drop_def)
  moreover have "N + index_uses d' i = add_mset (ch_hash ch) (N + index_uses d i)" by (simp add: i(1))
  ultimately show ?thesis using s(1-3) unfolding stream_step_def by (simp only: f) blast
qed

lemma stream_step_trans:
  "stream_step E files u m0 N i d d' \<Longrightarrow> stream_step E files u m0 N i d' d'' \<Longrightarrow> stream_step E files u m0 N i d d''"
  unfolding stream_step_def
  using same_tape_trans [of d d' d''] chunk_keeps_trans [of "chunk_table d" "chunk_table d'" "chunk_table d''"] by simp

lemma stream_hand_ok:
  assumes env: "env_ok E files u" and base: "base_ok E files u m0 (N + index_uses d i) d"
    and bufs: "list_all2 (names_chunk E (chunk_table d)) (ws_index (tw_stream d i)) bufs"
    and chs: "\<forall>ch\<in>set chs. ch \<noteq> [] \<and> length ch \<le> MAXCHUNK"
    and run: "tape_hand (callback_stream E i) chs d = Some (0, d')"
  shows "stream_step E files u m0 N i d d' \<and> ws_c (tw_stream d' i) = ws_c (tw_stream d i) \<and>
    list_all2 (names_chunk E (chunk_table d')) (ws_index (tw_stream d' i)) (bufs @ chs)"
  using run base bufs chs
proof (induction chs arbitrary: d bufs)
  case Nil
  then show ?case by (simp add: stream_step_def)
next
  case (Cons ch chs)
  obtain d1 where d1: "callback_stream E i d ch = Some (0, d1)" "tape_hand (callback_stream E i) chs d1 = Some (0, d')"
    using Cons.prems(1) by (auto split: option.splits prod.splits if_splits)
  have ch: "ch \<noteq> []" "length ch \<le> MAXCHUNK" using Cons.prems(4) by auto
  obtain x where s: "stream_step E files u m0 N i d d1" "names_chunk E (chunk_table d1) x ch"
      "tw_stream d1 i = (tw_stream d i)\<lparr>ws_index := ws_index (tw_stream d i) @ [x]\<rparr>"
    using callback_stream_ok [OF env Cons.prems(2) ch d1(1)] by blast
  have base1: "base_ok E files u m0 (N + index_uses d1 i) d1" using s(1) by (simp add: stream_step_def)
  have "list_all2 (names_chunk E (chunk_table d1)) (ws_index (tw_stream d i)) bufs"
    using all_names_keep [OF Cons.prems(3)] s(1) by (auto simp: stream_step_def)
  then have l: "list_all2 (names_chunk E (chunk_table d1)) (ws_index (tw_stream d1 i)) (bufs @ [ch])"
    using s(2,3) by (simp add: list_all2_appendI)
  have "\<forall>c\<in>set chs. c \<noteq> [] \<and> length c \<le> MAXCHUNK" using Cons.prems(4) by simp
  note IH = Cons.IH [OF d1(2) base1 l this]
  have "stream_step E files u m0 N i d d'" using stream_step_trans [OF s(1)] IH by blast
  moreover have "ws_c (tw_stream d' i) = ws_c (tw_stream d i)" using IH by (simp add: s(3))
  moreover have "list_all2 (names_chunk E (chunk_table d')) (ws_index (tw_stream d' i)) (bufs @ ch # chs)" using IH by simp
  ultimately show ?case by blast
qed

lemma put_chunker_step:
  assumes "stream_step E files u m0 N i d d1"
  shows "stream_step E files u m0 N i d (put_chunker i c d1)" "chunk_table (put_chunker i c d1) = chunk_table d1"
    "tw_stream (put_chunker i c d1) i = (tw_stream d1 i)\<lparr>ws_c := c\<rparr>"
proof -
  have "same_tape d1 (put_chunker i c d1)" by (simp add: same_tape_def put_chunker_def)
  then show "stream_step E files u m0 N i d (put_chunker i c d1)"
    using assms same_tape_trans unfolding stream_step_def base_ok_def put_chunker_def by auto
qed (simp_all add: put_chunker_def)

lemma chunk_sizes:
  assumes "\<forall>ch\<in>set chs. 16384 < length ch \<and> length ch \<le> 261120"
  shows "\<forall>ch\<in>set chs. ch \<noteq> [] \<and> length ch \<le> MAXCHUNK"
  using assms by (auto simp: MAXCHUNK_def)

lemma stream_write_ok:
  assumes env: "env_ok E files u" and base: "base_ok E files u m0 (N + index_uses d i) d"
    and inv: "stream_inv E (chunk_table d) (tw_stream d i) data"
    and run: "stream_write E i buf d = Some (0, d')"
  shows "stream_step E files u m0 N i d d' \<and> stream_inv E (chunk_table d') (tw_stream d' i) (data @ buf)"
proof -
  obtain bufs c where c: "ws_c (tw_stream d i) = Some c" "tape_chunker c"
      "list_all2 (names_chunk E (chunk_table d)) (ws_index (tw_stream d i)) bufs" "concat bufs @ pending c = data"
    using inv by (auto simp: stream_inv_def)
  obtain oc d1 where w: "chunker_write (callback_stream E i) (Some c) buf d = Some (0, oc, d1)" "d' = put_chunker i oc d1"
    using run c(1) by (auto simp: stream_write_def)
  obtain c' chs where r: "oc = Some c'" "tape_hand (callback_stream E i) chs d = Some (0, d1)" "tape_chunker c'"
      "concat chs @ pending c' = pending c @ buf" "\<forall>ch\<in>set chs. 16384 < length ch \<and> length ch \<le> 261120"
    using chunker_write_ok [OF w(1) c(2)] by blast
  have h: "stream_step E files u m0 N i d d1" "list_all2 (names_chunk E (chunk_table d1)) (ws_index (tw_stream d1 i)) (bufs @ chs)"
    using stream_hand_ok [OF env base c(3) chunk_sizes [OF r(5)] r(2)] by blast+
  have "concat (bufs @ chs) @ pending c' = data @ buf" using r(4) c(4) by auto
  then have "stream_inv E (chunk_table d') (tw_stream d' i) (data @ buf)"
    unfolding stream_inv_def w(2) put_chunker_step(2,3) [OF h(1)] using h(2) r(1,3) by auto
  then show ?thesis using put_chunker_step(1) [OF h(1)] w(2) by simp
qed

text \<open>At its end a stream is in its chunks.\<close>

lemma stream_end_ok:
  assumes env: "env_ok E files u" and base: "base_ok E files u m0 (N + index_uses d i) d"
    and inv: "stream_inv E (chunk_table d) (tw_stream d i) data"
    and run: "stream_end E i d = Some (0, d')"
  shows "stream_step E files u m0 N i d d' \<and> stream_inv E (chunk_table d') (tw_stream d' i) data \<and>
    (\<exists>bufs. list_all2 (names_chunk E (chunk_table d')) (ws_index (tw_stream d' i)) bufs \<and> concat bufs = data)"
proof -
  obtain bufs c where c: "ws_c (tw_stream d i) = Some c" "tape_chunker c"
      "list_all2 (names_chunk E (chunk_table d)) (ws_index (tw_stream d i)) bufs" "concat bufs @ pending c = data"
    using inv by (auto simp: stream_inv_def)
  obtain oc d1 where w: "chunker_end (callback_stream E i) (Some c) d = Some (0, oc, d1)" "d' = put_chunker i oc d1"
    using run c(1) by (auto simp: stream_end_def)
  obtain c' chs where r: "oc = Some c'" "tape_hand (callback_stream E i) chs d = Some (0, d1)" "tape_chunker c'"
      "pending c' = []" "chs = (if pending c = [] then [] else [pending c])"
    using chunker_end_ok [OF w(1) c(2)] by blast
  have "\<forall>ch\<in>set chs. ch \<noteq> [] \<and> length ch \<le> MAXCHUNK"
    using r(5) pending_length [OF c(2)] by (auto simp: MAXCHUNK_def)
  then have h: "stream_step E files u m0 N i d d1" "list_all2 (names_chunk E (chunk_table d1)) (ws_index (tw_stream d1 i)) (bufs @ chs)"
    using stream_hand_ok [OF env base c(3) _ r(2)] by blast+
  have cat: "concat (bufs @ chs) = data" using r(5) c(4) by auto
  have "stream_inv E (chunk_table d') (tw_stream d' i) data"
    unfolding stream_inv_def w(2) put_chunker_step(2,3) [OF h(1)] using h(2) r(1,3,4) cat
    by (intro exI [of _ "bufs @ chs"] exI [of _ c']) simp
  moreover have "list_all2 (names_chunk E (chunk_table d')) (ws_index (tw_stream d' i)) (bufs @ chs)"
    unfolding w(2) put_chunker_step(2,3) [OF h(1)] using h(2) by simp
  ultimately show ?thesis using put_chunker_step(1) [OF h(1)] w(2) cat by blast
qed

lemma stream_inv_keeps: "stream_inv E m S data \<Longrightarrow> chunk_keeps m m' \<Longrightarrow> stream_inv E m' S data"
  unfolding stream_inv_def by (metis all_names_keep)

subsection \<open>The file chunker\<close>

text \<open>
  The tape within an entry: \<open>es\<close> are the entries that ended, \<open>b\<close> is the chunked data of this
  entry and \<open>c\<close> its trailer.  The uses that were counted are those of the chunk headers of the tape,
  and \<open>K\<close>.
\<close>

abbreviation tape_uses :: "('s, 'k) tape_w \<Rightarrow> bytes list \<Rightarrow> bytes multiset" where
  "tape_uses d cs \<equiv> index_uses d Headers + index_uses d Trailers + index_uses d Chunks + mset (map ch_hash cs)"

definition entry_inv :: "'s tape_env \<Rightarrow> ('s \<Rightarrow> files) \<Rightarrow> uncompress \<Rightarrow> (bytes \<Rightarrow> chunkdata option) \<Rightarrow> bytes multiset \<Rightarrow> entry list \<Rightarrow> bytes \<Rightarrow> bytes
    \<Rightarrow> ('s, 'k) tape_w \<Rightarrow> bool" where
  "entry_inv E files u m0 K es b c d \<longleftrightarrow>
     stream_inv E (chunk_table d) (tw_stream d Headers) (header_stream es) \<and>
     stream_inv E (chunk_table d) (tw_stream d Trailers) (trailer_data es @ c) \<and>
     (\<exists>cs cbufs. stream_inv E (chunk_table d) (tw_stream d Chunks) (concat cs) \<and>
        list_all2 (names_chunk E (chunk_table d)) cs cbufs \<and> concat cbufs = chunk_data es @ b \<and>
        base_ok E files u m0 (K + tape_uses d cs) d) \<and>
     tw_clen d = int (length b) \<and> tw_tlen d = length c"

text \<open>The fields that the file chunker leaves alone.\<close>

definition same_entry :: "('s, 'k) tape_w \<Rightarrow> ('s, 'k) tape_w \<Rightarrow> bool" where
  "same_entry d d' \<longleftrightarrow>
     tw_c_file d' = tw_c_file d \<and> tw_c_file_in d' = tw_c_file_in d \<and> tw_mode d' = tw_mode d \<and>
     tw_hbuf d' = tw_hbuf d \<and> tw_eof d' = tw_eof d \<and> tw_tapename d' = tw_tapename d \<and>
     tw_ctime d' = tw_ctime d \<and> tw_argc d' = tw_argc d \<and> tw_argv d' = tw_argv d \<and>
     tw_cachedir d' = tw_cachedir d \<and> tw_fs d' = tw_fs d \<and> tw_log d' = tw_log d \<and> tw_seqnum d' = tw_seqnum d \<and>
     tw_machinenum d' = tw_machinenum d \<and> tw_modified d' = tw_modified d"

lemma same_tape_entry: "same_tape d d' \<Longrightarrow> same_entry d d'"
  by (simp add: same_entry_def same_tape_fields)

lemma run_callback_ok:
  "run_callback cb x d = (0, d') \<Longrightarrow> \<exists>k. d' = d\<lparr>tw_cookie := k\<rparr>"
  by (cases d) (auto simp: run_callback_def split: option.splits prod.splits if_splits)

lemma entry_inv_cookie [simp]: "entry_inv E files u m0 {#} es b c (d\<lparr>tw_cookie := k\<rparr>) = entry_inv E files u m0 {#} es b c d"
  by (simp add: entry_inv_def base_ok_def)

text \<open>A small chunk becomes the trailer; any other goes to the chunk stream.\<close>

lemma callback_trailer_ok:
  assumes env: "env_ok E files u" and inv: "entry_inv E files u m0 {#} es b [] d" and buf: "length buf < MINCHUNK"
    and run: "callback_file E d buf = Some (0, d')"
  shows "entry_inv E files u m0 {#} es b buf d' \<and> same_entry d d' \<and>
    tw_c_file_out d' = tw_c_file_out d + int (length buf)"
proof -
  define d0 where "d0 = d\<lparr>tw_c_file_out := tw_c_file_out d + int (length buf)\<rparr>"
  obtain d1 where w: "stream_write E Trailers buf d0 = Some (0, d1)"
    and d': "run_callback (tw_callback_trailer d1) buf (d1\<lparr>tw_tlen := length buf\<rparr>) = (0, d')"
    using run buf by (auto simp: callback_file_def Let_def d0_def split: if_splits option.splits)
  obtain cs cbufs where c: "stream_inv E (chunk_table d) (tw_stream d Chunks) (concat cs)"
      "list_all2 (names_chunk E (chunk_table d)) cs cbufs" "concat cbufs = chunk_data es @ b"
      "base_ok E files u m0 (tape_uses d cs) d"
    using inv unfolding entry_inv_def by auto
  let ?N = "index_uses d Headers + index_uses d Chunks + mset (map ch_hash cs)"
  have d0: "base_ok E files u m0 (?N + index_uses d0 Trailers) d0" "stream_inv E (chunk_table d0) (tw_stream d0 Trailers) (trailer_data es)"
    using inv c(4) by (simp_all add: entry_inv_def base_ok_def d0_def ac_simps)
  have s: "stream_step E files u m0 ?N Trailers d0 d1"
      "stream_inv E (chunk_table d1) (tw_stream d1 Trailers) (trailer_data es @ buf)"
    using stream_write_ok [OF env d0 w] by blast+
  have st: "base_ok E files u m0 (?N + index_uses d1 Trailers) d1" "same_tape d0 d1" "chunk_keeps (chunk_table d0) (chunk_table d1)"
      "tw_stream d1 Headers = tw_stream d Headers" "tw_stream d1 Chunks = tw_stream d Chunks"
    using s(1) by (auto simp: stream_step_def d0_def)
  have keep: "chunk_keeps (chunk_table d) (chunk_table d1)" using st(3) by (simp add: d0_def)
  obtain k where k: "d' = d1\<lparr>tw_tlen := length buf, tw_cookie := k\<rparr>"
    using run_callback_ok [OF d'] by auto
  have h: "stream_inv E (chunk_table d) (tw_stream d Headers) (header_stream es)" "tw_clen d = int (length b)"
    using inv by (simp_all add: entry_inv_def)
  have f: "chunk_table d' = chunk_table d1" "tw_stream d' = tw_stream d1" "tw_clen d' = tw_clen d1" "tw_tlen d' = length buf"
      "base_ok E files u m0 M d' = base_ok E files u m0 M d1" for M
    by (simp_all add: k base_ok_def)
  have "entry_inv E files u m0 {#} es b buf d'"
    unfolding entry_inv_def f st(4,5)
    using st(1) stream_inv_keeps [OF h(1) keep] s(2) stream_inv_keeps [OF c(1) keep] all_names_keep [OF c(2) keep]
      c(3) h(2) same_tape_fields(6) [OF st(2)]
    by (intro conjI exI [of _ cs] exI [of _ cbufs]) (simp_all add: d0_def ac_simps)
  then show ?thesis using same_tape_fields [OF st(2)] by (simp add: k same_entry_def d0_def)
qed

text \<open>The state under the streams changes, and the chunks that were there stay.\<close>

lemma entry_inv_step:
  assumes inv: "entry_inv E files u m0 K es b c d"
    and d': "\<And>M. base_ok E files u m0 M d \<Longrightarrow> base_ok E files u m0 (M + L) d'" "chunk_keeps (chunk_table d) (chunk_table d')" "tw_stream d' = tw_stream d"
      "tw_clen d' = tw_clen d" "tw_tlen d' = tw_tlen d"
  shows "entry_inv E files u m0 (K + L) es b c d'"
proof -
  obtain cs cbufs where c: "stream_inv E (chunk_table d) (tw_stream d Chunks) (concat cs)"
      "list_all2 (names_chunk E (chunk_table d)) cs cbufs" "concat cbufs = chunk_data es @ b"
      "base_ok E files u m0 (K + tape_uses d cs) d"
    using inv unfolding entry_inv_def by auto
  have i: "stream_inv E (chunk_table d) (tw_stream d Headers) (header_stream es)"
      "stream_inv E (chunk_table d) (tw_stream d Trailers) (trailer_data es @ c)"
      "tw_clen d = int (length b)" "tw_tlen d = length c"
    using inv by (simp_all add: entry_inv_def)
  show ?thesis unfolding entry_inv_def d'(3-5)
    using d'(1) [OF c(4)] i(3,4) stream_inv_keeps [OF i(1) d'(2)] stream_inv_keeps [OF i(2) d'(2)] stream_inv_keeps [OF c(1) d'(2)]
      all_names_keep [OF c(2) d'(2)] c(3)
    by (intro conjI exI [of _ cs] exI [of _ cbufs]) (simp_all add: ac_simps)
qed

text \<open>A chunk of file data: its header goes to the chunk stream.\<close>

lemma chunk_header_ok:
  assumes env: "env_ok E files u" and inv: "entry_inv E files u m0 {#ch_hash ch#} es b c d" and ch: "names_chunk E (chunk_table d) ch buf"
    and w: "stream_write E Chunks ch d = Some (0, d1)"
    and d': "d' = d1\<lparr>tw_clen := tw_clen d1 + int (length buf), tw_cookie := k\<rparr>"
  shows "entry_inv E files u m0 {#} es (b @ buf) c d' \<and> same_tape d d1"
proof -
  obtain cs cbufs where c: "stream_inv E (chunk_table d) (tw_stream d Chunks) (concat cs)"
      "list_all2 (names_chunk E (chunk_table d)) cs cbufs" "concat cbufs = chunk_data es @ b"
      "base_ok E files u m0 ({#ch_hash ch#} + tape_uses d cs) d"
    using inv unfolding entry_inv_def by auto
  have h: "stream_inv E (chunk_table d) (tw_stream d Headers) (header_stream es)"
      "stream_inv E (chunk_table d) (tw_stream d Trailers) (trailer_data es @ c)"
      "tw_clen d = int (length b)" "tw_tlen d = length c"
    using inv by (simp_all add: entry_inv_def)
  let ?N = "index_uses d Headers + index_uses d Trailers + mset (map ch_hash (cs @ [ch]))"
  have b: "base_ok E files u m0 (?N + index_uses d Chunks) d" using c(4) by (simp add: ac_simps)
  from stream_write_ok [OF env b c(1) w]
  have s: "stream_step E files u m0 ?N Chunks d d1"
      "stream_inv E (chunk_table d1) (tw_stream d1 Chunks) (concat (cs @ [ch]))" by simp_all
  have s1: "base_ok E files u m0 (?N + index_uses d1 Chunks) d1" "same_tape d d1" "chunk_keeps (chunk_table d) (chunk_table d1)"
      "tw_stream d1 Headers = tw_stream d Headers" "tw_stream d1 Trailers = tw_stream d Trailers"
    using s(1) by (auto simp: stream_step_def)
  have names: "list_all2 (names_chunk E (chunk_table d1)) (cs @ [ch]) (cbufs @ [buf])"
    using all_names_keep [OF c(2) s1(3)] names_chunk_keeps [OF ch s1(3)] by (simp add: list_all2_appendI)
  have f: "chunk_table d' = chunk_table d1" "tw_stream d' = tw_stream d1" "tw_clen d' = tw_clen d + int (length buf)" "tw_tlen d' = tw_tlen d"
      "base_ok E files u m0 M d' = base_ok E files u m0 M d1" for M
    using same_tape_fields [OF s1(2)] by (simp_all add: d' base_ok_def)
  have "entry_inv E files u m0 {#} es (b @ buf) c d'"
    unfolding entry_inv_def f s1(4,5)
    using s1(1) stream_inv_keeps [OF h(1) s1(3)] stream_inv_keeps [OF h(2) s1(3)] s(2) names c(3) h(3,4)
    by (intro conjI exI [of _ "cs @ [ch]"] exI [of _ "cbufs @ [buf]"]) (simp_all add: ac_simps)
  then show ?thesis using s1(2) by blast
qed

lemma callback_chunk_ok:
  assumes env: "env_ok E files u" and inv: "entry_inv E files u m0 {#} es b c d"
    and buf: "MINCHUNK \<le> length buf" "length buf \<le> MAXCHUNK"
    and run: "callback_file E d buf = Some (0, d')"
  shows "entry_inv E files u m0 {#} es (b @ buf) c d' \<and> same_entry d d' \<and>
    tw_c_file_out d' = tw_c_file_out d + int (length buf)"
proof -
  define d0 where "d0 = d\<lparr>tw_c_file_out := tw_c_file_out d + int (length buf)\<rparr>"
  obtain ch d1 d2 where st: "store_chunk E buf d0 = Some (Inr ch, d1)"
    and w: "stream_write E Chunks ch d1 = Some (0, d2)"
    and d': "run_callback (tw_callback_chunk d2) ch (d2\<lparr>tw_clen := tw_clen d2 + int (length buf)\<rparr>) = (0, d')"
    using run buf(1) by (auto simp: callback_file_def Let_def d0_def split: if_splits option.splits sum.splits)
  have inv0: "entry_inv E files u m0 {#} es b c d0"
    using inv by (simp_all add: entry_inv_def base_ok_def d0_def)
  have ne: "buf \<noteq> []" using buf(1) by (auto simp: MINCHUNK_def)
  have cnt: "base_ok E files u m0 (M + {#ch_hash ch#}) d1" if "base_ok E files u m0 M d0" for M
    using store_chunk_ok [OF env that ne buf(2) st] by simp
  obtain M where base: "base_ok E files u m0 M d0" using inv0 by (auto simp: entry_inv_def)
  obtain C S ma where s1: "names_chunk E (chunk_table d1) ch buf"
      "chunk_keeps (chunk_table d0) (chunk_table d1)" "d1 = d0\<lparr>tw_C := C, tw_S := S, tw_mem := ma\<rparr>"
    using store_chunk_ok [OF env base ne buf(2) st] by blast
  have "entry_inv E files u m0 ({#} + {#ch_hash ch#}) es b c d1"
    by (rule entry_inv_step [OF inv0 cnt s1(2)]) (simp_all add: s1(3))
  then have inv1: "entry_inv E files u m0 {#ch_hash ch#} es b c d1" by simp
  obtain k where k: "d' = d2\<lparr>tw_clen := tw_clen d2 + int (length buf), tw_cookie := k\<rparr>"
    using run_callback_ok [OF d'] by auto
  have r: "entry_inv E files u m0 {#} es (b @ buf) c d'" "same_tape d1 d2"
    using chunk_header_ok [OF env inv1 s1(1) w k] by blast+
  then show ?thesis using same_tape_fields [OF r(2)] by (simp add: k same_entry_def s1(3) d0_def)
qed

lemma same_entry_trans: "same_entry d d' \<Longrightarrow> same_entry d' d'' \<Longrightarrow> same_entry d d''"
  by (simp add: same_entry_def)

lemma same_entry_refl [simp]: "same_entry d d"
  by (simp add: same_entry_def)

text \<open>The file chunker with what waits in it.\<close>

definition file_inv :: "('s, 'k) tape_w \<Rightarrow> bytes \<Rightarrow> bool" where
  "file_inv d p \<longleftrightarrow> (\<exists>c. tw_c_file d = Some c \<and> tape_chunker c \<and> pending c = p)"

lemma file_write_ok:
  assumes env: "env_ok E files u" and inv: "entry_inv E files u m0 {#} es b c d" and fl: "file_inv d p"
    and run: "file_write E buf d = Some (0, d')"
  shows "\<exists>x p'. x @ p' = p @ buf \<and> entry_inv E files u m0 {#} es (b @ x) c d' \<and> file_inv d' p' \<and>
    tw_c_file_out d' = tw_c_file_out d + int (length x) \<and>
    same_entry d (d'\<lparr>tw_c_file := tw_c_file d\<rparr>)"
proof -
  obtain ck where ck: "tw_c_file d = Some ck" "tape_chunker ck" "pending ck = p"
    using fl by (auto simp: file_inv_def)
  obtain oc d1 where w: "chunker_write (callback_file E) (Some ck) buf d = Some (0, oc, d1)" "d' = d1\<lparr>tw_c_file := oc\<rparr>"
    using run ck(1) by (auto simp: file_write_def)
  obtain ck' chs where r: "oc = Some ck'" "tape_hand (callback_file E) chs d = Some (0, d1)" "tape_chunker ck'"
      "concat chs @ pending ck' = pending ck @ buf" "\<forall>ch\<in>set chs. 16384 < length ch \<and> length ch \<le> 261120"
    using chunker_write_ok [OF w(1) ck(2)] by blast
  let ?I = "\<lambda>x d2. entry_inv E files u m0 {#} es (b @ x) c d2 \<and> same_entry d d2 \<and>
    tw_c_file_out d2 = tw_c_file_out d + int (length x)"
  have "?I ([] @ concat chs) d1"
  proof (rule tape_hand_inv [OF r(2)])
    fix acc ch d2 d3
    assume I: "?I acc d2" and ch: "ch \<in> set chs" and cb: "callback_file E d2 ch = Some (0, d3)"
    have len: "MINCHUNK \<le> length ch" "length ch \<le> MAXCHUNK" using r(5) ch by (auto simp: MINCHUNK_def MAXCHUNK_def)
    from callback_chunk_ok [OF env conjunct1 [OF I] len cb] show "?I (acc @ ch) d3"
      using I same_entry_trans by auto
  qed (use inv in simp)
  then have I: "entry_inv E files u m0 {#} es (b @ concat chs) c d1" "same_entry d d1"
      "tw_c_file_out d1 = tw_c_file_out d + int (length (concat chs))" by simp_all
  have "entry_inv E files u m0 {#} es (b @ concat chs) c d'" using I(1) by (simp add: w(2) entry_inv_def base_ok_def)
  moreover have "file_inv d' (pending ck')" using r(1,3) by (simp add: w(2) file_inv_def)
  moreover have "same_entry d (d'\<lparr>tw_c_file := tw_c_file d\<rparr>)" using I(2) by (simp add: w(2) same_entry_def)
  ultimately show ?thesis using r(4) ck(3) I(3)
    by (intro exI [of _ "concat chs"] exI [of _ "pending ck'"]) (simp add: w(2))
qed

text \<open>The end of a file: what waits becomes the last chunk or the trailer.\<close>

lemma file_end_ok:
  assumes env: "env_ok E files u" and inv: "entry_inv E files u m0 {#} es b c d" and fl: "file_inv d p"
    and c: "p = [] \<or> c = []" and run: "file_end E d = Some (0, d')"
  shows "\<exists>b' c'. b' @ c' = b @ c @ p \<and> entry_inv E files u m0 {#} es b' c' d' \<and> file_inv d' [] \<and>
    (p = [] \<longrightarrow> b' = b \<and> c' = c) \<and> length c' \<le> max (length c) (length p) \<and>
    tw_c_file_out d' = tw_c_file_out d + int (length p) \<and> same_entry d (d'\<lparr>tw_c_file := tw_c_file d\<rparr>)"
proof -
  obtain ck where ck: "tw_c_file d = Some ck" "tape_chunker ck" "pending ck = p"
    using fl by (auto simp: file_inv_def)
  obtain oc d1 where w: "chunker_end (callback_file E) (Some ck) d = Some (0, oc, d1)" "d' = d1\<lparr>tw_c_file := oc\<rparr>"
    using run ck(1) by (auto simp: file_end_def)
  obtain ck' chs where r: "oc = Some ck'" "tape_hand (callback_file E) chs d = Some (0, d1)" "tape_chunker ck'"
      "pending ck' = []" "chs = (if p = [] then [] else [p])"
    using chunker_end_ok [OF w(1) ck(2)] unfolding ck(3) by blast
  have fl': "file_inv d' []" using r(1,3,4) by (simp add: w(2) file_inv_def)
  have lift: "entry_inv E files u m0 {#} es b' c' d1 \<Longrightarrow> entry_inv E files u m0 {#} es b' c' d'" for b' c'
    by (simp add: w(2) entry_inv_def base_ok_def)
  have same: "same_entry d d1 \<Longrightarrow> same_entry d (d'\<lparr>tw_c_file := tw_c_file d\<rparr>)" by (simp add: w(2) same_entry_def)
  have out: "tw_c_file_out d' = tw_c_file_out d1" by (simp add: w(2))
  show ?thesis
  proof (cases "p = []")
    case True
    then have "d1 = d" using r(2,5) by simp
    then show ?thesis using lift [of b c] inv fl' same True out by (intro exI [of _ b] exI [of _ c]) simp
  next
    case False
    then have c0: "c = []" and cb: "callback_file E d p = Some (0, d1)"
      using c r(2,5) by (auto split: option.splits prod.splits if_splits)
    show ?thesis
    proof (cases "length p < MINCHUNK")
      case True
      from callback_trailer_ok [OF env inv [unfolded c0] True cb]
      show ?thesis using lift [of b p] fl' same False c0 out by (intro exI [of _ b] exI [of _ p]) simp
    next
      case long: False
      have "MINCHUNK \<le> length p" "length p \<le> MAXCHUNK"
        using long pending_length [OF ck(2)] ck(3) by (auto simp: MAXCHUNK_def)
      from callback_chunk_ok [OF env inv this cb]
      show ?thesis using lift [of "b @ p" c] fl' same False c0 out by (intro exI [of _ "b @ p"] exI [of _ "[]"]) simp
    qed
  qed
qed

subsection \<open>Entries\<close>

text \<open>The fields that describe the archive.\<close>

definition same_label :: "('s, 'k) tape_w \<Rightarrow> ('s, 'k) tape_w \<Rightarrow> bool" where
  "same_label d d' \<longleftrightarrow>
     tw_eof d' = tw_eof d \<and> tw_tapename d' = tw_tapename d \<and> tw_ctime d' = tw_ctime d \<and>
     tw_argc d' = tw_argc d \<and> tw_argv d' = tw_argv d \<and> tw_cachedir d' = tw_cachedir d \<and>
     tw_seqnum d' = tw_seqnum d \<and> tw_machinenum d' = tw_machinenum d"

lemma same_label_refl [simp]: "same_label d d"
  by (simp add: same_label_def)

lemma same_label_trans: "same_label d d' \<Longrightarrow> same_label d' d'' \<Longrightarrow> same_label d d''"
  by (simp add: same_label_def)

text \<open>These, and the cache and the log of the server.\<close>

definition same_archive :: "('s, 'k) tape_w \<Rightarrow> ('s, 'k) tape_w \<Rightarrow> bool" where
  "same_archive d d' \<longleftrightarrow>
     tw_eof d' = tw_eof d \<and> tw_tapename d' = tw_tapename d \<and> tw_ctime d' = tw_ctime d \<and>
     tw_argc d' = tw_argc d \<and> tw_argv d' = tw_argv d \<and> tw_cachedir d' = tw_cachedir d \<and>
     tw_seqnum d' = tw_seqnum d \<and> tw_machinenum d' = tw_machinenum d \<and>
     tw_fs d' = tw_fs d \<and> tw_log d' = tw_log d \<and> tw_modified d' = tw_modified d"

lemma same_archive_label: "same_archive d d' \<Longrightarrow> same_label d d'"
  by (simp add: same_archive_def same_label_def)

lemma same_archive_refl [simp]: "same_archive d d"
  by (simp add: same_archive_def)

lemma same_archive_trans: "same_archive d d' \<Longrightarrow> same_archive d' d'' \<Longrightarrow> same_archive d d''"
  by (simp add: same_archive_def)

lemma same_entry_archive: "same_entry d d' \<Longrightarrow> same_archive d d'"
  by (simp add: same_entry_def same_archive_def)

text \<open>Everything but the entries.\<close>

definition same_file :: "('s, 'k) tape_w \<Rightarrow> ('s, 'k) tape_w \<Rightarrow> bool" where
  "same_file d d' \<longleftrightarrow> same_archive d d' \<and> tw_c_file d' = tw_c_file d \<and> tw_c_file_in d' = tw_c_file_in d \<and>
     tw_c_file_out d' = tw_c_file_out d \<and> tw_mode d' = tw_mode d"

lemma same_tape_file: "same_tape d d' \<Longrightarrow> same_file d d' \<and> tw_hbuf d' = tw_hbuf d"
  by (simp add: same_file_def same_archive_def same_tape_fields)

lemma same_file_trans: "same_file d d' \<Longrightarrow> same_file d' d'' \<Longrightarrow> same_file d d''"
  unfolding same_file_def using same_archive_trans by auto

text \<open>A write to the header stream leaves the rest of the entry as it was.\<close>

lemma header_write_ok:
  assumes env: "env_ok E files u" and base: "base_ok E files u m0 (tape_uses d cs) d"
    and inv: "stream_inv E (chunk_table d) (tw_stream d Headers) hs"
      "stream_inv E (chunk_table d) (tw_stream d Trailers) ts"
      "stream_inv E (chunk_table d) (tw_stream d Chunks) (concat cs)" "list_all2 (names_chunk E (chunk_table d)) cs cbufs"
    and run: "stream_write E Headers buf d = Some (0, d')"
  shows "base_ok E files u m0 (tape_uses d' cs) d' \<and> same_tape d d' \<and>
    stream_inv E (chunk_table d') (tw_stream d' Headers) (hs @ buf) \<and>
    stream_inv E (chunk_table d') (tw_stream d' Trailers) ts \<and>
    stream_inv E (chunk_table d') (tw_stream d' Chunks) (concat cs) \<and>
    list_all2 (names_chunk E (chunk_table d')) cs cbufs"
proof -
  let ?N = "index_uses d Trailers + index_uses d Chunks + mset (map ch_hash cs)"
  have b: "base_ok E files u m0 (?N + index_uses d Headers) d" using base by (simp add: ac_simps)
  have s: "stream_step E files u m0 ?N Headers d d'" "stream_inv E (chunk_table d') (tw_stream d' Headers) (hs @ buf)"
    using stream_write_ok [OF env b inv(1) run] by blast+
  have st: "base_ok E files u m0 (?N + index_uses d' Headers) d'" "same_tape d d'" "chunk_keeps (chunk_table d) (chunk_table d')"
      "tw_stream d' Trailers = tw_stream d Trailers" "tw_stream d' Chunks = tw_stream d Chunks"
    using s(1) by (auto simp: stream_step_def)
  show ?thesis
    using st(1,2) s(2) stream_inv_keeps [OF inv(2) st(3)] stream_inv_keeps [OF inv(3) st(3)] all_names_keep [OF inv(4) st(3)]
    unfolding st(4,5) by (simp add: ac_simps)
qed

lemma endentry_ok:
  assumes env: "env_ok E files u" and inv: "entry_inv E files u m0 {#} es b c d"
    and run: "endentry E d = Some (0, d')"
  shows "entry_inv E files u m0 {#} (es @ [(tw_hbuf d, b, c)]) [] [] d' \<and> tw_hbuf d' = [] \<and> same_file d d' \<and>
    length (tw_hbuf d) < UINT32_MAX"
proof -
  define d0 where "d0 = mem_drop 2 (d\<lparr>tw_hbuf := []\<rparr>)"
  define eh where "eh = entry_header (length (tw_hbuf d)) (length b) (length c)"
  have len: "tw_clen d = int (length b)" "tw_tlen d = length c" using inv by (simp_all add: entry_inv_def)
  obtain d1 d2 where w: "stream_write E Headers eh d0 = Some (0, d1)" "stream_write E Headers (tw_hbuf d) d1 = Some (0, d2)"
    and d': "d' = d2\<lparr>tw_clen := 0, tw_tlen := 0\<rparr>" and h: "length (tw_hbuf d) < UINT32_MAX"
    using run by (auto simp: endentry_def Let_def d0_def eh_def entry_header_def mem_drop_def len split: if_splits option.splits)
  obtain cs cbufs where c: "stream_inv E (chunk_table d) (tw_stream d Chunks) (concat cs)"
      "list_all2 (names_chunk E (chunk_table d)) cs cbufs" "concat cbufs = chunk_data es @ b"
      "base_ok E files u m0 (tape_uses d cs) d"
    using inv unfolding entry_inv_def by auto
  have i: "stream_inv E (chunk_table d) (tw_stream d Headers) (header_stream es)"
      "stream_inv E (chunk_table d) (tw_stream d Trailers) (trailer_data es @ c)"
    using inv by (simp_all add: entry_inv_def)
  have d0: "base_ok E files u m0 (tape_uses d0 cs) d0" "chunk_table d0 = chunk_table d" "tw_stream d0 = tw_stream d" "same_file d d0" "tw_hbuf d0 = []"
    using c(4) by (simp_all add: d0_def mem_drop_def base_ok_def same_file_def same_archive_def)
  have s1: "base_ok E files u m0 (tape_uses d1 cs) d1 \<and> same_tape d0 d1 \<and>
      stream_inv E (chunk_table d1) (tw_stream d1 Headers) (header_stream es @ eh) \<and>
      stream_inv E (chunk_table d1) (tw_stream d1 Trailers) (trailer_data es @ c) \<and>
      stream_inv E (chunk_table d1) (tw_stream d1 Chunks) (concat cs) \<and> list_all2 (names_chunk E (chunk_table d1)) cs cbufs"
    by (rule header_write_ok [OF env d0(1) _ _ _ _ w(1)]) (use i c in \<open>simp_all add: d0\<close>)
  then have s2: "base_ok E files u m0 (tape_uses d2 cs) d2 \<and> same_tape d1 d2 \<and>
      stream_inv E (chunk_table d2) (tw_stream d2 Headers) ((header_stream es @ eh) @ tw_hbuf d) \<and>
      stream_inv E (chunk_table d2) (tw_stream d2 Trailers) (trailer_data es @ c) \<and>
      stream_inv E (chunk_table d2) (tw_stream d2 Chunks) (concat cs) \<and> list_all2 (names_chunk E (chunk_table d2)) cs cbufs"
    by (intro header_write_ok [OF env _ _ _ _ _ w(2)]) blast+
  have f: "chunk_table d' = chunk_table d2" "tw_stream d' = tw_stream d2"
      "tw_clen d' = 0" "tw_tlen d' = 0" "same_file d2 d'" "tw_hbuf d' = tw_hbuf d2"
      "base_ok E files u m0 M d' = base_ok E files u m0 M d2" for M
    by (simp_all add: d' base_ok_def same_file_def same_archive_def)
  have "entry_inv E files u m0 {#} (es @ [(tw_hbuf d, b, c)]) [] [] d'"
    unfolding entry_inv_def f using s2 c(3)
    by (intro conjI exI [of _ cs] exI [of _ cbufs]) (simp_all add: eh_def)
  moreover have "same_file d d'"
    using d0(4) s1 s2 f(5) same_tape_file same_file_trans by metis
  moreover have "tw_hbuf d' = []" using d0(5) s1 s2 f(6) same_tape_file by metis
  ultimately show ?thesis using h by blast
qed

subsection \<open>The content of a tape\<close>

text \<open>
  The archive that has been written: the entries that ended, the header \<open>a\<close>, data \<open>b\<close> and trailer
  \<open>c\<close> of the current entry, and what waits in the file chunker.
\<close>

definition tape_parts_inv :: "'s tape_env \<Rightarrow> ('s \<Rightarrow> files) \<Rightarrow> uncompress \<Rightarrow> (bytes \<Rightarrow> chunkdata option) \<Rightarrow> ('s, 'k) tape_w
    \<Rightarrow> entry list \<Rightarrow> bytes \<Rightarrow> bytes \<Rightarrow> bytes \<Rightarrow> bool" where
  "tape_parts_inv E files u m0 d es b c p \<longleftrightarrow>
     entry_inv E files u m0 {#} es b c d \<and> file_inv d p \<and> tw_c_file_in d = tw_c_file_out d + int (length p) \<and>
     (\<forall>e\<in>set es. length (fst e) < UINT32_MAX \<and> length (snd (snd e)) < MAXCHUNK)"

definition tape_inv :: "'s tape_env \<Rightarrow> ('s \<Rightarrow> files) \<Rightarrow> uncompress \<Rightarrow> (bytes \<Rightarrow> chunkdata option) \<Rightarrow> ('s, 'k) tape_w \<Rightarrow> bytes \<Rightarrow> bool" where
  "tape_inv E files u m0 d content \<longleftrightarrow>
     (\<exists>es b p. tape_parts_inv E files u m0 d es b [] p \<and> content = archive_bytes es @ tw_hbuf d @ b @ p \<and>
        (tw_mode d \<noteq> 1 \<longrightarrow> b = [] \<and> p = []) \<and> (tw_mode d = 2 \<longrightarrow> tw_hbuf d = []) \<and> tw_mode d \<in> {0, 1, 2, 3})"

lemma archive_bytes_append [simp]: "archive_bytes (es @ es') = archive_bytes es @ archive_bytes es'"
  by (simp add: archive_bytes_def)

lemma chunk_data_append [simp]: "chunk_data (es @ es') = chunk_data es @ chunk_data es'"
  by simp

text \<open>The end of an entry, with the file that is being written.\<close>

lemma end_entry_ok:
  assumes env: "env_ok E files u" and inv: "tape_parts_inv E files u m0 d es b c p" and c: "p = [] \<or> c = []" "length c < MAXCHUNK"
    and file_run: "(if tw_mode d = 1 then file_end E d else Some (0, d)) = Some (0, d1)"
    and p: "tw_mode d \<noteq> 1 \<Longrightarrow> p = []"
    and run: "endentry E d1 = Some (0, d2)"
  shows "\<exists>es'. tape_parts_inv E files u m0 d2 es' [] [] [] \<and> archive_bytes es' = archive_bytes es @ tw_hbuf d @ b @ c @ p \<and>
    tw_hbuf d2 = [] \<and> same_archive d d2 \<and> tw_mode d2 = tw_mode d"
proof -
  have i: "entry_inv E files u m0 {#} es b c d" "file_inv d p" "tw_c_file_in d = tw_c_file_out d + int (length p)"
      "\<forall>e\<in>set es. length (fst e) < UINT32_MAX \<and> length (snd (snd e)) < MAXCHUNK"
    using inv by (simp_all add: tape_parts_inv_def)
  have plen: "length p < MAXCHUNK"
    using i(2) pending_length unfolding file_inv_def MAXCHUNK_def by blast
  obtain b' c' where e: "b' @ c' = b @ c @ p" "entry_inv E files u m0 {#} es b' c' d1" "file_inv d1 []" "length c' < MAXCHUNK"
      "tw_c_file_in d1 = tw_c_file_out d1" "tw_hbuf d1 = tw_hbuf d" "same_archive d d1" "tw_mode d1 = tw_mode d"
  proof (cases "tw_mode d = 1")
    case True
    then have "file_end E d = Some (0, d1)" using file_run by simp
    from file_end_ok [OF env i(1,2) c(1) this] obtain b' c' where r: "b' @ c' = b @ c @ p" "entry_inv E files u m0 {#} es b' c' d1"
        "file_inv d1 []" "length c' \<le> max (length c) (length p)" "tw_c_file_out d1 = tw_c_file_out d + int (length p)"
        "same_entry d (d1\<lparr>tw_c_file := tw_c_file d\<rparr>)" by blast
    show ?thesis
      by (rule that [OF r(1-3)]) (use r(4-6) i(3) plen c(2) in \<open>simp_all add: same_entry_def same_archive_def\<close>)
  next
    case False
    then have "p = []" "d1 = d" using p file_run by simp_all
    then show ?thesis using i c(2) by (intro that [of b c]) simp_all
  qed
  from endentry_ok [OF env e(2) run]
  have f: "entry_inv E files u m0 {#} (es @ [(tw_hbuf d, b', c')]) [] [] d2" "tw_hbuf d2 = []" "same_file d1 d2"
      "length (tw_hbuf d) < UINT32_MAX" using e(6) by simp_all
  have "tape_parts_inv E files u m0 d2 (es @ [(tw_hbuf d, b', c')]) [] [] []"
    using f e(3,4,5) i(4) by (auto simp: tape_parts_inv_def same_file_def file_inv_def)
  moreover have "archive_bytes (es @ [(tw_hbuf d, b', c')]) = archive_bytes es @ tw_hbuf d @ b @ c @ p"
    using e(1) by simp
  moreover have "same_archive d d2" "tw_mode d2 = tw_mode d"
    using e(7,8) f(3) same_archive_trans by (auto simp: same_file_def)
  ultimately show ?thesis using f(2) by blast
qed

subsection \<open>The operations\<close>

lemma tape_invE:
  assumes "tape_inv E files u m0 d content"
  obtains es b p where "tape_parts_inv E files u m0 d es b [] p" "content = archive_bytes es @ tw_hbuf d @ b @ p"
    "tw_mode d \<noteq> 1 \<longrightarrow> b = [] \<and> p = []" "tw_mode d = 2 \<longrightarrow> tw_hbuf d = []" "tw_mode d \<in> {0, 1, 2, 3}"
  using assms unfolding tape_inv_def by blast

lemma tape_parts_cong:
  assumes "same_archive d d'" "tw_C d' = tw_C d" "tw_S d' = tw_S d" "tw_stream d' = tw_stream d" "tw_clen d' = tw_clen d"
    "tw_tlen d' = tw_tlen d" "tw_c_file d' = tw_c_file d" "tw_c_file_in d' = tw_c_file_in d" "tw_c_file_out d' = tw_c_file_out d"
  shows "tape_parts_inv E files u m0 d' es b c p = tape_parts_inv E files u m0 d es b c p"
  using assms by (simp add: tape_parts_inv_def entry_inv_def base_ok_def file_inv_def same_archive_def)

text \<open>The modes are header, data, end of entry; data are followed by the end of the entry.\<close>

lemma setmode_ok:
  assumes env: "env_ok E files u" and inv: "tape_inv E files u m0 d content"
    and mode: "mode \<in> {0, 1, 2}" "tw_mode d = 1 \<longrightarrow> mode \<noteq> 0"
    and run: "writetape_setmode E d mode = Some (0, d')"
  shows "tape_inv E files u m0 d' content \<and> tw_mode d' = mode \<and> same_archive d d'"
proof (cases "mode = tw_mode d")
  case True
  then show ?thesis using run inv by (simp add: writetape_setmode_def)
next
  case False
  obtain es b p where P: "tape_parts_inv E files u m0 d es b [] p" "content = archive_bytes es @ tw_hbuf d @ b @ p"
    "tw_mode d \<noteq> 1 \<longrightarrow> b = [] \<and> p = []" "tw_mode d = 2 \<longrightarrow> tw_hbuf d = []" "tw_mode d \<in> {0, 1, 2, 3}"
    using tape_invE [OF inv] by blast
  obtain d1 where d1: "(if tw_mode d = 1 then file_end E d else Some (0, d)) = Some (0, d1)"
    using run False by (auto simp: writetape_setmode_def split: option.splits prod.splits if_splits)
  show ?thesis
  proof (cases "mode = 2")
    case True
    then obtain d2 where d2: "endentry E d1 = Some (0, d2)" "d' = d2\<lparr>tw_mode := 2\<rparr>"
      using run False d1 by (auto simp: writetape_setmode_def split: option.splits prod.splits if_splits)
    obtain es' where e: "tape_parts_inv E files u m0 d2 es' [] [] []" "archive_bytes es' = archive_bytes es @ tw_hbuf d @ b @ [] @ p"
        "tw_hbuf d2 = []" "same_archive d d2"
      using end_entry_ok [OF env P(1) _ _ d1 _ d2(1)] P(3) by (auto simp: MAXCHUNK_def)
    have "same_archive d d'" using e(4) by (simp add: d2(2) same_archive_def)
    moreover have "tape_parts_inv E files u m0 d' es' [] [] []"
      using e(1) by (subst tape_parts_cong [of d2]) (simp_all add: d2(2) same_archive_def)
    ultimately show ?thesis unfolding tape_inv_def
      using e(2,3) P(2) True by (intro conjI exI [of _ es'] exI [of _ "[]"]) (simp_all add: d2(2))
  next
    case not_end: False
    then have m: "tw_mode d \<in> {0, 2}" "mode \<in> {0, 1}" using mode False P(5) run d1
      by (auto simp: writetape_setmode_def)
    then have d': "d' = d\<lparr>tw_mode := mode\<rparr>" using run False not_end by (auto simp: writetape_setmode_def)
    have "tape_parts_inv E files u m0 d' es b [] p"
      using P(1) by (subst tape_parts_cong [of d]) (simp_all add: d' same_archive_def)
    then show ?thesis unfolding tape_inv_def using P(2-5) m mode
      by (intro conjI exI [of _ es] exI [of _ b] exI [of _ p]) (auto simp: d' same_archive_def)
  qed
qed

lemma write_ok:
  assumes env: "env_ok E files u" and inv: "tape_inv E files u m0 d content" and eof: "\<not> tw_eof d"
    and append: "tw_mode d \<noteq> 1 \<Longrightarrow> tw_mem d 0"
    and run: "writetape_write E d buf = Some (n, d')" and n: "n \<noteq> -1"
  shows "n = int (length buf) \<and> tape_inv E files u m0 d' (content @ buf) \<and> same_archive d d'"
proof -
  obtain es b p where P: "tape_parts_inv E files u m0 d es b [] p" "content = archive_bytes es @ tw_hbuf d @ b @ p"
    "tw_mode d \<noteq> 1 \<longrightarrow> b = [] \<and> p = []" "tw_mode d = 2 \<longrightarrow> tw_hbuf d = []" "tw_mode d \<in> {0, 1, 2, 3}"
    using tape_invE [OF inv] by blast
  show ?thesis
  proof (cases "tw_mode d = 1")
    case True
    then obtain d1 where d1: "file_write E buf d = Some (0, d1)" "n = int (length buf)"
        "d' = d1\<lparr>tw_c_file_in := tw_c_file_in d1 + int (length buf)\<rparr>"
      using run eof n by (auto simp: writetape_write_def split: if_splits option.splits)
    have i: "entry_inv E files u m0 {#} es b [] d" "file_inv d p" "tw_c_file_in d = tw_c_file_out d + int (length p)"
      using P(1) by (simp_all add: tape_parts_inv_def)
    obtain x p' where x: "x @ p' = p @ buf" "entry_inv E files u m0 {#} es (b @ x) [] d1" "file_inv d1 p'"
        "tw_c_file_out d1 = tw_c_file_out d + int (length x)" "same_entry d (d1\<lparr>tw_c_file := tw_c_file d\<rparr>)"
      using file_write_ok [OF env i(1,2) d1(1)] by blast
    have len: "length x + length p' = length p + length buf" using x(1) by (metis length_append)
    have f: "tw_mode d' = 1" "tw_hbuf d' = tw_hbuf d" "same_archive d d'" "tw_c_file_in d1 = tw_c_file_in d"
      using x(5) True by (auto simp: d1(3) same_entry_def same_archive_def)
    have "tw_c_file_in d' = tw_c_file_out d' + int (length p')"
      using f(4) i(3) x(4) len by (simp add: d1(3))
    then have "tape_parts_inv E files u m0 d' es (b @ x) [] p'"
      using P(1) x(2,3) by (simp add: tape_parts_inv_def d1(3) entry_inv_def base_ok_def file_inv_def)
    then show ?thesis unfolding tape_inv_def using P(2) x(1) f d1(2)
      by (intro conjI exI [of _ es] exI [of _ "b @ x"] exI [of _ p']) simp_all
  next
    case False
    define m where "m = (if tw_mode d = 2 then 3 else tw_mode d)"
    have d': "d' = mem_drop 1 (d\<lparr>tw_mode := m, tw_hbuf := tw_hbuf d @ buf\<rparr>)" "n = int (length buf)"
      using run eof False append [OF False] P(5)
      by (cases d; auto simp: writetape_write_def append_header_def mem_drop_def m_def split: if_splits)+
    have "tape_parts_inv E files u m0 d' es b [] p"
      using P(1) by (subst tape_parts_cong [of d]) (simp_all add: d' mem_drop_def same_archive_def)
    then show ?thesis unfolding tape_inv_def using P False
      by (intro conjI exI [of _ es] exI [of _ b] exI [of _ p]) (auto simp: d' mem_drop_def m_def same_archive_def)
  qed
qed

text \<open>A chunk of another archive is referenced instead of written.  The caller has read its header
  from that archive: if the chunk is in the directory, it is the chunk with data \<open>x\<close>.\<close>

lemma writechunk_ok:
  assumes env: "env_ok E files u" and inv: "tape_inv E files u m0 d content"
    and ch: "chunk_table d (ch_hash ch) \<noteq> None \<Longrightarrow> names_chunk E (chunk_table d) ch x"
    and run: "writetape_writechunk E d ch = Some (n, d')" and n: "n \<noteq> -1"
  shows "(n = 0 \<and> tape_inv E files u m0 d' content \<or> n = int (length x) \<and> tape_inv E files u m0 d' (content @ x)) \<and>
    same_archive d d' \<and> tw_mode d' = tw_mode d"
proof (cases "d' = d \<and> n = 0")
  case True
  then show ?thesis using inv by simp
next
  case False
  obtain es b p where P: "tape_parts_inv E files u m0 d es b [] p" "content = archive_bytes es @ tw_hbuf d @ b @ p"
    "tw_mode d \<noteq> 1 \<longrightarrow> b = [] \<and> p = []" "tw_mode d = 2 \<longrightarrow> tw_hbuf d = []" "tw_mode d \<in> {0, 1, 2, 3}"
    using tape_invE [OF inv] by blast
  have i: "entry_inv E files u m0 {#} es b [] d" "file_inv d p" "tw_c_file_in d = tw_c_file_out d + int (length p)"
      "\<forall>e\<in>set es. length (fst e) < UINT32_MAX \<and> length (snd (snd e)) < MAXCHUNK"
    using P(1) by (simp_all add: tape_parts_inv_def)
  have mode: "tw_mode d = 1" "tw_c_file_in d = tw_c_file_out d"
    using run False by (auto simp: writetape_writechunk_def split: if_splits)
  have p: "p = []" using mode(2) i(3) by simp
  obtain us where W: "write_inv (te_hash E) m0 us (tw_C d)" and C: "cw_S (tw_C d)" "cw_zbuflen (tw_C d) = ZBUFLEN"
    and path: "cw_path (tw_C d) = tw_cachedir d" and srv: "on_server E u (files (tw_S d)) (chunk_table d)"
    using i(1) by (auto simp: entry_inv_def base_ok_def)
  have dir: "dir_inv (te_hash E) (cw_HT (tw_C d))" and t: "tally m0 us (chunk_table d)" using W by (simp_all add: write_inv_def)
  have read: "rwhashtab_read (te_hash E) cd_hash (cw_HT (tw_C d)) (ch_hash ch) = Some (chunk_table d (ch_hash ch))"
    using dir by (simp add: rwhashtab_read_spec)
  show ?thesis
  proof (cases "chunk_table d (ch_hash ch)")
    case None
    then have "n = 0" "d' = d" using run mode read by (cases d; auto simp: writetape_writechunk_def chunks_write_chunkref_def)+
    then show ?thesis using False by simp
  next
    case (Some cd)
    define C' where "C' = chunks_write_use (te_hash E) (tw_C d) cd"
    define d1 where "d1 = d\<lparr>tw_C := C'\<rparr>"
    have names: "names_chunk E (chunk_table d) ch x" using ch Some by simp
    obtain h where hx: "length h = 32" "ch = h @ le32enc (of_nat (length x)) @ le32enc (cd_zlen cd)" "x \<noteq> []" "length x \<le> MAXCHUNK"
      using names Some unfolding names_chunk_def by auto
    have len: "ch_len ch = length x" using hx by (simp add: unat_of_nat_u32 MAXCHUNK_def)
    obtain d2 where w: "stream_write E Chunks ch d1 = Some (0, d2)" and n': "n = int (length x)"
      and d': "d' = d2\<lparr>tw_clen := tw_clen d2 + int (length x)\<rparr>"
      using run mode read Some n len False
      by (auto simp: writetape_writechunk_def chunks_write_chunkref_def C'_def d1_def Let_def split: if_splits option.splits)
    have key: "cd_hash cd = ch_hash ch" using Some t unfolding tally_def by blast
    have map': "dir_map (cw_HT C') = (chunk_table d)(ch_hash ch \<mapsto> chunk_use cd)"
      using rwhashtab_update_spec(2) [OF dir, of "chunk_use cd" cd] Some key by (simp add: C'_def chunks_write_use_def)
    have keep: "chunk_keeps (chunk_table d) (chunk_table d1)"
      using tally_use(2) [OF t Some] map' by (simp add: d1_def)
    have "base_ok E files u m0 (M + {#ch_hash ch#}) d1" if M: "base_ok E files u m0 M d" for M
    proof -
      obtain vs where vs: "mset vs = M" "write_inv (te_hash E) m0 vs (tw_C d)" using M by (auto simp: base_ok_def)
      have "write_inv (te_hash E) m0 (vs @ [ch_hash ch]) (tw_C d1)" "mset (vs @ [ch_hash ch]) = M + {#ch_hash ch#}"
        using write_inv_use [OF vs(2) Some] vs(1) by (simp_all add: d1_def C'_def)
      then have "\<exists>us. mset us = M + {#ch_hash ch#} \<and> write_inv (te_hash E) m0 us (tw_C d1)" by blast
      then show ?thesis unfolding base_ok_def
        using on_server_use [OF srv Some] C path map' by (simp add: d1_def C'_def chunks_write_use_def)
    qed
    then have "entry_inv E files u m0 ({#} + {#ch_hash ch#}) es b [] d1"
      by (intro entry_inv_step [OF i(1) _ keep]) (simp_all add: d1_def)
    then have inv1: "entry_inv E files u m0 {#ch_hash ch#} es b [] d1" by simp
    have k: "d' = d2\<lparr>tw_clen := tw_clen d2 + int (length x), tw_cookie := tw_cookie d'\<rparr>" by (simp add: d')
    have r: "entry_inv E files u m0 {#} es (b @ x) [] d'" "same_tape d1 d2"
      using chunk_header_ok [OF env inv1 names_chunk_keeps [OF names keep] w k] by blast+
    have f: "same_archive d d'" "tw_mode d' = 1" "tw_hbuf d' = tw_hbuf d" "tw_c_file d' = tw_c_file d"
        "tw_c_file_in d' = tw_c_file_in d" "tw_c_file_out d' = tw_c_file_out d"
      using same_tape_fields [OF r(2)] mode by (simp_all add: d' d1_def same_archive_def)
    have "tape_parts_inv E files u m0 d' es (b @ x) [] []"
      using r(1) i p f by (simp add: tape_parts_inv_def file_inv_def)
    then have "tape_inv E files u m0 d' (content @ x)" unfolding tape_inv_def
      using P(2) p f by (intro exI [of _ es] exI [of _ "b @ x"] exI [of _ "[]"]) simp
    then show ?thesis using f n' mode by simp
  qed
qed

subsection \<open>Storing the archive\<close>

text \<open>A stream that ended: all of it is in chunks.\<close>

definition stream_done :: "'s tape_env \<Rightarrow> (bytes \<Rightarrow> chunkdata option) \<Rightarrow> wstream \<Rightarrow> bytes \<Rightarrow> bool" where
  "stream_done E m S data \<longleftrightarrow> (\<exists>bufs. list_all2 (names_chunk E m) (ws_index S) bufs \<and> concat bufs = data)"

lemma stream_done_keeps: "stream_done E m S data \<Longrightarrow> chunk_keeps m m' \<Longrightarrow> stream_done E m' S data"
  unfolding stream_done_def by (metis all_names_keep)

lemma entry_stream_end:
  assumes env: "env_ok E files u" and inv: "entry_inv E files u m0 {#} es b c d" and run: "stream_end E i d = Some (0, d')"
  shows "entry_inv E files u m0 {#} es b c d' \<and> same_tape d d' \<and> chunk_keeps (chunk_table d) (chunk_table d') \<and>
    (\<forall>j. j \<noteq> i \<longrightarrow> tw_stream d' j = tw_stream d j) \<and>
    (\<forall>data. stream_inv E (chunk_table d) (tw_stream d i) data \<longrightarrow> stream_done E (chunk_table d') (tw_stream d' i) data) \<and>
    (\<forall>cs. base_ok E files u m0 (tape_uses d cs) d \<longrightarrow> base_ok E files u m0 (tape_uses d' cs) d')"
proof -
  obtain cs cbufs where c: "stream_inv E (chunk_table d) (tw_stream d Chunks) (concat cs)"
      "list_all2 (names_chunk E (chunk_table d)) cs cbufs" "concat cbufs = chunk_data es @ b"
      "base_ok E files u m0 (tape_uses d cs) d"
    using inv unfolding entry_inv_def by auto
  have h: "stream_inv E (chunk_table d) (tw_stream d Headers) (header_stream es)"
      "stream_inv E (chunk_table d) (tw_stream d Trailers) (trailer_data es @ c)"
      "tw_clen d = int (length b)" "tw_tlen d = length c"
    using inv by (simp_all add: entry_inv_def)
  let ?N = "\<lambda>cs. (\<Sum>j\<in>{Headers, Trailers, Chunks} - {i}. index_uses d j) + mset (map ch_hash cs)"
  have sum: "tape_uses d cs = ?N cs + index_uses d i" for cs by (cases i) (simp_all add: insert_Diff_if ac_simps)
  have own: "stream_inv E (chunk_table d) (tw_stream d i) data \<Longrightarrow> base_ok E files u m0 (tape_uses d cs) d \<Longrightarrow>
      stream_step E files u m0 (?N cs) i d d' \<and>
      stream_inv E (chunk_table d') (tw_stream d' i) data \<and> stream_done E (chunk_table d') (tw_stream d' i) data" for data cs
    unfolding stream_done_def sum by (rule stream_end_ok [OF env _ _ run])
  have step: "stream_step E files u m0 (?N cs) i d d'" if "base_ok E files u m0 (tape_uses d cs) d" for cs
    using own [OF _ that] h(1,2) c(1) by (cases i) blast+
  have s: "same_tape d d'" "chunk_keeps (chunk_table d) (chunk_table d')"
      "\<forall>j. j \<noteq> i \<longrightarrow> tw_stream d' j = tw_stream d j"
    using step [OF c(4)] by (simp_all add: stream_step_def)
  have base: "base_ok E files u m0 (tape_uses d' cs) d'" if "base_ok E files u m0 (tape_uses d cs) d" for cs
    using step [OF that] by (cases i) (simp_all add: stream_step_def insert_Diff_if ac_simps)
  have keep: "stream_inv E (chunk_table d') (tw_stream d' j) data" if "stream_inv E (chunk_table d) (tw_stream d j) data" for j data
    using own [OF _ c(4), of data] stream_inv_keeps [OF that s(2)] s(3) that by (cases "j = i") auto
  have "entry_inv E files u m0 {#} es b c d'" unfolding entry_inv_def
    using base [OF c(4)] keep [OF h(1)] keep [OF h(2)] keep [OF c(1)] all_names_keep [OF c(2) s(2)] c(3) h(3,4) same_tape_fields(6,7) [OF s(1)]
    by (intro conjI exI [of _ cs] exI [of _ cbufs]) simp_all
  then show ?thesis using s own [OF _ c(4)] base by blast
qed

text \<open>The indexes of the tape name the chunks of an archive with the entries \<open>es\<close>, and the chunk directory
  counts them.\<close>

definition tape_named :: "'s tape_env \<Rightarrow> ('s \<Rightarrow> files) \<Rightarrow> uncompress \<Rightarrow> (bytes \<Rightarrow> chunkdata option)
    \<Rightarrow> ('s, 'k) tape_w \<Rightarrow> entry list \<Rightarrow> bool" where
  "tape_named E files u m0 d es \<longleftrightarrow>
     stream_done E (chunk_table d) (tw_stream d Headers) (header_stream es) \<and>
     stream_done E (chunk_table d) (tw_stream d Trailers) (trailer_data es) \<and>
     (\<exists>cs cbufs. stream_done E (chunk_table d) (tw_stream d Chunks) (concat cs) \<and>
        list_all2 (names_chunk E (chunk_table d)) cs cbufs \<and> concat cbufs = chunk_data es \<and>
        base_ok E files u m0 (tape_uses d cs) d)"

lemma flush_streams_ok:
  assumes env: "env_ok E files u" and inv: "tape_parts_inv E files u m0 d es [] [] []"
    and run: "flush_streams E d = Some (0, d')"
  shows "tape_parts_inv E files u m0 d' es [] [] [] \<and> tape_named E files u m0 d' es \<and> same_archive d d' \<and>
    tw_mode d' = tw_mode d \<and> tw_hbuf d' = tw_hbuf d"
proof -
  have i: "entry_inv E files u m0 {#} es [] [] d" "file_inv d []" "tw_c_file_in d = tw_c_file_out d"
    using inv by (simp_all add: tape_parts_inv_def)
  obtain d1 d2 d3 where f: "file_end E d = Some (0, d1)" "stream_end E Trailers d1 = Some (0, d2)"
      "stream_end E Chunks d2 = Some (0, d3)" "stream_end E Headers d3 = Some (0, d')"
    using run by (auto simp: flush_streams_def split: option.splits prod.splits if_splits)
  have e1: "entry_inv E files u m0 {#} es [] [] d1" "file_inv d1 []" "tw_c_file_out d1 = tw_c_file_out d"
      "same_entry d (d1\<lparr>tw_c_file := tw_c_file d\<rparr>)"
    using file_end_ok [OF env i(1,2) _ f(1)] by auto
  note s2 = entry_stream_end [OF env e1(1) f(2)]
  note s3 = entry_stream_end [OF env conjunct1 [OF s2] f(3)]
  note s4 = entry_stream_end [OF env conjunct1 [OF s3] f(4)]
  have e2: "entry_inv E files u m0 {#} es [] [] d2" and e3: "entry_inv E files u m0 {#} es [] [] d3" and e4: "entry_inv E files u m0 {#} es [] [] d'"
    using s2 s3 s4 by blast+
  have same: "same_tape d1 d'"
    using conjunct1 [OF conjunct2 [OF s2]] conjunct1 [OF conjunct2 [OF s3]] conjunct1 [OF conjunct2 [OF s4]] same_tape_trans by metis
  have "tape_parts_inv E files u m0 d' es [] [] []"
    using inv e4 e1(2-4) same_tape_fields(1-3) [OF same] i(3)
    by (simp add: tape_parts_inv_def file_inv_def same_entry_def)
  moreover have "same_archive d d'" "tw_mode d' = tw_mode d" "tw_hbuf d' = tw_hbuf d"
    using same_tape_fields [OF same] e1(4) by (simp_all add: same_entry_def same_archive_def)
  moreover have "tape_named E files u m0 d' es"
  proof -
    have T: "stream_done E (chunk_table d2) (tw_stream d2 Trailers) (trailer_data es)"
      using s2 e1(1) by (auto simp: entry_inv_def)
    obtain cs cbufs where c: "stream_inv E (chunk_table d2) (tw_stream d2 Chunks) (concat cs)"
        "list_all2 (names_chunk E (chunk_table d2)) cs cbufs" "concat cbufs = chunk_data es @ []"
        "base_ok E files u m0 (tape_uses d2 cs) d2"
      using e2 unfolding entry_inv_def by auto
    have C: "stream_done E (chunk_table d3) (tw_stream d3 Chunks) (concat cs)" using s3 c(1) by blast
    have H: "stream_done E (chunk_table d') (tw_stream d' Headers) (header_stream es)"
      using s4 e3 by (auto simp: entry_inv_def)
    have k: "chunk_keeps (chunk_table d2) (chunk_table d3)" "chunk_keeps (chunk_table d3) (chunk_table d')"
      using s3 s4 by blast+
    note k24 = chunk_keeps_trans [OF k]
    have tr: "tw_stream d' Trailers = tw_stream d2 Trailers" "tw_stream d' Chunks = tw_stream d3 Chunks"
      using s3 s4 by simp_all
    have "base_ok E files u m0 (tape_uses d' cs) d'" using c(4) s3 s4 by blast
    then show ?thesis unfolding tape_named_def tr
      using H stream_done_keeps [OF T k24] stream_done_keeps [OF C k(2)] all_names_keep [OF c(2) k24] c(3)
      by (intro conjI exI [of _ cs] exI [of _ cbufs]) simp_all
  qed
  ultimately show ?thesis by blast
qed

text \<open>The description goes to files that are not chunks, and to the statistics.\<close>

definition same_chunks :: "chunks_w \<Rightarrow> chunks_w \<Rightarrow> bool" where
  "same_chunks C C' \<longleftrightarrow> cw_HT C' = cw_HT C \<and> cw_S C' = cw_S C \<and> cw_zbuflen C' = cw_zbuflen C \<and> cw_path C' = cw_path C \<and>
     (\<forall>hash m0 us. write_inv hash m0 us C \<longrightarrow> write_inv hash m0 us C')"

lemma same_chunks_refl [simp]: "same_chunks C C"
  by (simp add: same_chunks_def)

lemma same_chunks_trans: "same_chunks C C' \<Longrightarrow> same_chunks C' C'' \<Longrightarrow> same_chunks C C''"
  by (simp add: same_chunks_def)

lemma same_chunks_extrastats [simp]:
  "same_chunks C (chunks_write_extrastats C n)" "same_chunks C (chunks_write_extrastats_copy C k)"
  using write_inv_extrastats
  by (simp_all add: same_chunks_def) (simp_all add: chunks_write_extrastats_def chunks_write_extrastats_copy_def)

definition same_chunk_files :: "files \<Rightarrow> files \<Rightarrow> bool" where
  "same_chunk_files F F' \<longleftrightarrow> (\<forall>h. F' (CHR ''c'', h) = F (CHR ''c'', h))"

lemma base_ok_same:
  assumes "base_ok E files u m0 M d" "same_chunks (tw_C d) (tw_C d')" "same_chunk_files (files (tw_S d)) (files (tw_S d'))"
    and "tw_cachedir d' = tw_cachedir d"
  shows "base_ok E files u m0 M d'"
proof -
  obtain us where us: "mset us = M" and b: "write_inv (te_hash E) m0 us (tw_C d)" "cw_S (tw_C d)" "cw_zbuflen (tw_C d) = ZBUFLEN"
      "cw_path (tw_C d) = tw_cachedir d" "on_server E u (files (tw_S d)) (chunk_table d)"
    using assms(1) unfolding base_ok_def by blast
  have "on_server E u (files (tw_S d')) (chunk_table d)"
    by (rule on_server_cong [OF b(5)]) (use assms(3) in \<open>simp add: same_chunk_files_def\<close>)
  moreover have "write_inv (te_hash E) m0 us (tw_C d')" using assms(2) b(1) unfolding same_chunks_def by blast
  moreover have "cw_HT (tw_C d') = cw_HT (tw_C d)" "cw_S (tw_C d')" "cw_zbuflen (tw_C d') = ZBUFLEN"
      "cw_path (tw_C d') = tw_cachedir d'"
    using assms(2,4) b(2-4) by (simp_all add: same_chunks_def)
  ultimately show ?thesis unfolding base_ok_def using us by auto
qed

lemma put_frags_same:
  assumes w: "wfile_ok files wfile"
  shows "put_frags cr wfile hbuf buf n S C = (0, S', C') \<Longrightarrow> same_chunks C C' \<and> same_chunk_files (files S) (files S')"
proof (induction "length buf - n * MAXIFRAG" arbitrary: n S C rule: less_induct)
  case less
  show ?case
  proof (cases "n * MAXIFRAG < length buf")
    case False
    then have "S' = S" "C' = C" using less.prems by (simp_all add: put_frags.simps)
    then show ?thesis by (simp add: same_chunk_files_def)
  next
    case True
    obtain S1 where S1: "wfile S (fragment buf n) (CHR ''i'') (multitape_metaindex_fragname cr hbuf (of_nat n)) = (0, S1)"
      and rest: "put_frags cr wfile hbuf buf (n + 1) S1 (chunks_write_extrastats C (frag_length (length buf) n)) = (0, S', C')"
      using less.prems True by (subst (asm) put_frags.simps) (auto simp: Let_def split: prod.splits if_splits)
    have smaller: "length buf - (n + 1) * MAXIFRAG < length buf - n * MAXIFRAG"
      using True by (simp add: MAXIFRAG_def MAXCHUNK_def)
    have "files S1 = (files S)(frag_file cr hbuf n \<mapsto> fragment buf n)" using w S1 by (simp add: wfile_ok_def)
    then show ?thesis using less.hyps [OF smaller rest] same_chunks_trans [OF same_chunks_extrastats(1)]
      by (auto simp: same_chunk_files_def)
  qed
qed

lemma description_put_same:
  assumes w: "wfile_ok files wfile"
    and index: "multitape_metaindex_put ma cr wfile S C mind mdat = (0, S1, C1, mdat1)"
    and meta: "multitape_metadata_put ma' cr wfile S1 C1 mdat1 = Some (0, S2, C2)"
  shows "same_chunks C C2 \<and> same_chunk_files (files S) (files S2)"
proof -
  obtain hbuf where f: "put_frags cr wfile hbuf (metaindex_enc mind) 0 S C = (0, S1, C1)"
    using index by (auto simp: multitape_metaindex_put_def Let_def split: if_splits prod.splits option.splits)
  obtain buf h where m: "wfile S1 buf (CHR ''m'') h = (0, S2)" "C2 = chunks_write_extrastats C1 (length buf)"
    using meta by (auto simp: multitape_metadata_put_def split: option.splits prod.splits if_splits)
  have "files S2 = (files S1)((CHR ''m'', h) \<mapsto> buf)" using w m(1) by (simp add: wfile_ok_def)
  then show ?thesis using put_frags_same [OF w f] m(2) same_chunks_trans [OF _ same_chunks_extrastats(1)]
    by (auto simp: same_chunk_files_def)
qed

text \<open>What the code relies on of the storage layer: the calls that complete a transaction leave the
  files as they were.\<close>

definition storage_ok :: "'s tape_env \<Rightarrow> ('s \<Rightarrow> files) \<Rightarrow> bool" where
  "storage_ok E files \<longleftrightarrow>
     (\<forall>s s'. te_flush E s = (0, s') \<longrightarrow> files s' = files s) \<and> (\<forall>s s'. te_end E s = (0, s') \<longrightarrow> files s' = files s)"

text \<open>The description of the tape \<open>d\<close> has been stored with the name \<open>name\<close>.\<close>

definition described :: "'s tape_env \<Rightarrow> ('s \<Rightarrow> files) \<Rightarrow> ('s, 'k) tape_w \<Rightarrow> bytes \<Rightarrow> bool" where
  "described E files d name \<longleftrightarrow>
     (\<exists>ma ma' S C S1 C1 mdat1 S2 C2.
        multitape_metaindex_put ma (te_cr E) (te_wfile E) S C (tape_index d) (tape_metadata d name) = (0, S1, C1, mdat1) \<and>
        multitape_metadata_put ma' (te_cr E) (te_wfile E) S1 C1 mdat1 = Some (0, S2, C2) \<and> files (tw_S d) = files S2)"

lemma describedI:
  assumes "multitape_metaindex_put ma (te_cr E) (te_wfile E) S C (tape_index d) (tape_metadata d name) = (0, S1, C1, mdat1)"
    and "multitape_metadata_put ma' (te_cr E) (te_wfile E) S1 C1 mdat1 = Some (0, S2, C2)" "files (tw_S d) = files S2"
  shows "described E files d name"
  unfolding described_def by (intro exI conjI) (rule assms)+

lemma flushtape_ok:
  assumes env: "env_ok E files u" and st: "storage_ok E files" and inv: "tape_parts_inv E files u m0 d es [] [] []"
    and run: "flushtape E d isapart = Some (0, d')"
  shows "tape_parts_inv E files u m0 d' es [] [] [] \<and> tape_named E files u m0 d' es \<and> same_archive d d' \<and>
    tw_mode d' = tw_mode d \<and> tw_hbuf d' = tw_hbuf d \<and>
    described E files d' (flush_name isapart (tw_tapename d))"
proof -
  obtain d1 where d1: "flush_streams E d = Some (0, d1)"
    using run by (auto simp: flushtape_def split: option.splits prod.splits if_splits)
  have f1: "tape_parts_inv E files u m0 d1 es [] [] []" "tape_named E files u m0 d1 es" "same_archive d d1"
      "tw_mode d1 = tw_mode d" "tw_hbuf d1 = tw_hbuf d"
    using flush_streams_ok [OF env inv d1] by blast+
  obtain M where base: "base_ok E files u m0 M d1" using f1(1) by (auto simp: tape_parts_inv_def entry_inv_def)
  then have S: "cw_S (tw_C d1)" by (simp add: base_ok_def)
  have name: "tw_tapename d1 = tw_tapename d" using f1(3) by (simp add: same_archive_def)
  let ?name = "flush_name isapart (tw_tapename d)"
  obtain S1 C1 tmd S2 C2 where
    index: "multitape_metaindex_put (tw_mem d1 4) (te_cr E) (te_wfile E) (tw_S d1) (tw_C d1) (tape_index d1) (tape_metadata d1 ?name) = (0, S1, C1, tmd)"
    and meta: "multitape_metadata_put (tw_mem d1 5) (te_cr E) (te_wfile E) S1 C1 tmd = Some (0, S2, C2)"
    and fl: "tape_storage (te_flush E) (mem_drop 6 (d1\<lparr>tw_S := S2, tw_C := C2\<rparr>)) = (0, d')"
    using run d1 S by (auto simp: flushtape_def tape_wfile_def name Let_def split: option.splits prod.splits if_splits)
  have sm: "same_chunks (tw_C d1) C2" "same_chunk_files (files (tw_S d1)) (files S2)"
    using description_put_same [OF _ index meta, of files] env by (simp_all add: env_ok_def)
  have S': "cw_S C2" using sm(1) S by (simp add: same_chunks_def)
  obtain S3 where d': "te_flush E S2 = (0, S3)" "d' = (mem_drop 6 (d1\<lparr>tw_S := S2, tw_C := C2\<rparr>))\<lparr>tw_S := S3\<rparr>"
    using fl S' by (auto simp: tape_storage_def mem_drop_def split: prod.splits)
  have files: "files S3 = files S2" using st d'(1) by (simp add: storage_ok_def)
  have f: "tw_C d' = C2" "files (tw_S d') = files S2" "tw_stream d' = tw_stream d1" "tw_clen d' = tw_clen d1"
      "tw_tlen d' = tw_tlen d1" "same_archive d1 d'" "tw_mode d' = tw_mode d1" "tw_hbuf d' = tw_hbuf d1"
      "tw_c_file d' = tw_c_file d1" "tw_c_file_in d' = tw_c_file_in d1" "tw_c_file_out d' = tw_c_file_out d1"
      "tape_index d' = tape_index d1" "tape_metadata d' ?name = tape_metadata d1 ?name"
    by (simp_all add: d'(2) files mem_drop_def same_archive_def tape_index_def tape_metadata_def)
  have table: "chunk_table d' = chunk_table d1" using sm(1) by (simp add: f(1) same_chunks_def)
  have base': "base_ok E files u m0 M d'" if "base_ok E files u m0 M d1" for M
    by (rule base_ok_same [OF that]) (use f(6) in \<open>simp_all add: f(1,2) sm same_archive_def\<close>)
  have "entry_inv E files u m0 ({#} + {#}) es [] [] d'"
    by (rule entry_inv_step [of E files u m0 "{#}" es "[]" "[]" d1])
      (use f1(1) base' table f(3-5) in \<open>simp_all add: tape_parts_inv_def\<close>)
  then have "tape_parts_inv E files u m0 d' es [] [] []" using f1(1) f(9-11) by (simp add: tape_parts_inv_def file_inv_def)
  moreover have "tape_named E files u m0 d' es" using f1(2) base' unfolding tape_named_def table f(3) by blast
  moreover have "described E files d' ?name"
    by (rule describedI [of _ _ "tw_S d1" "tw_C d1"]) (use index meta f(2,12,13) in simp_all)
  moreover have "same_archive d d'" using f1(3) f(6) same_archive_trans by blast
  ultimately show ?thesis using f1(4,5) f(7,8) by simp
qed

subsection \<open>Checkpoints and the end of an archive\<close>

text \<open>The tape has been stored as an archive with the name \<open>name\<close>.\<close>

definition tape_stored :: "'s tape_env \<Rightarrow> ('s \<Rightarrow> files) \<Rightarrow> uncompress \<Rightarrow> (bytes \<Rightarrow> chunkdata option) \<Rightarrow> ('s, 'k) tape_w \<Rightarrow> bytes \<Rightarrow> bytes \<Rightarrow> bool" where
  "tape_stored E files u m0 d name content \<longleftrightarrow>
     described E files d name \<and>
     (\<exists>es. tape_named E files u m0 d es \<and> content = archive_bytes es \<and>
        (\<forall>e\<in>set es. length (fst e) < UINT32_MAX \<and> length (snd (snd e)) < MAXCHUNK))"

lemma tape_storedI:
  assumes "tape_parts_inv E files u m0 d es [] [] []" "tape_named E files u m0 d es" "described E files d name"
  shows "tape_stored E files u m0 d name (archive_bytes es)"
  using assms unfolding tape_stored_def tape_parts_inv_def entry_inv_def by blast

lemma tape_stored_cong:
  assumes "tape_stored E files u m0 d name content" "\<And>M. base_ok E files u m0 M d \<Longrightarrow> base_ok E files u m0 M d'" "chunk_table d' = chunk_table d"
    "files (tw_S d') = files (tw_S d)" "tw_stream d' = tw_stream d" "same_label d d'"
  shows "tape_stored E files u m0 d' name content"
proof -
  have "tape_index d' = tape_index d" "tape_metadata d' name = tape_metadata d name"
    using assms(5,6) by (simp_all add: tape_index_def tape_metadata_def same_label_def)
  then have "described E files d' name" using assms(1,4) by (simp add: tape_stored_def described_def)
  moreover have "tape_named E files u m0 d es \<Longrightarrow> tape_named E files u m0 d' es" for es
    unfolding tape_named_def assms(3,5) using assms(2) by blast
  ultimately show ?thesis using assms(1) unfolding tape_stored_def by blast
qed

text \<open>Steps outside the streams: the cache directory, the log of the server, the statistics.\<close>

definition outside :: "('s \<Rightarrow> files) \<Rightarrow> ('s, 'k) tape_w \<Rightarrow> ('s, 'k) tape_w \<Rightarrow> bool" where
  "outside files d d' \<longleftrightarrow>
     same_chunks (tw_C d) (tw_C d') \<and> files (tw_S d') = files (tw_S d) \<and> tw_stream d' = tw_stream d \<and>
     same_label d d' \<and> tw_c_file d' = tw_c_file d \<and> tw_c_file_in d' = tw_c_file_in d \<and>
     tw_c_file_out d' = tw_c_file_out d \<and> tw_mode d' = tw_mode d \<and> tw_hbuf d' = tw_hbuf d \<and>
     tw_clen d' = tw_clen d \<and> tw_tlen d' = tw_tlen d"

lemma outside_refl [simp]: "outside files d d"
  by (simp add: outside_def)

lemma outside_trans: "outside files d d' \<Longrightarrow> outside files d' d'' \<Longrightarrow> outside files d d''"
  unfolding outside_def using same_chunks_trans same_label_trans by auto

lemma outside_parts:
  assumes "outside files d d'" "tape_parts_inv E files u m0 d es b c p"
  shows "tape_parts_inv E files u m0 d' es b c p"
proof -
  have o: "same_chunks (tw_C d) (tw_C d')" "files (tw_S d') = files (tw_S d)" "tw_stream d' = tw_stream d"
      "tw_clen d' = tw_clen d" "tw_tlen d' = tw_tlen d" "same_label d d'"
    using assms(1) by (simp_all add: outside_def)
  have inv: "entry_inv E files u m0 {#} es b c d" using assms(2) by (simp add: tape_parts_inv_def)
  have table: "chunk_table d' = chunk_table d" using o(1) by (simp add: same_chunks_def)
  have "base_ok E files u m0 M d'" if "base_ok E files u m0 M d" for M
    by (rule base_ok_same [OF that]) (use o in \<open>simp_all add: same_chunk_files_def same_label_def\<close>)
  then have "entry_inv E files u m0 ({#} + {#}) es b c d'"
    by (intro entry_inv_step [OF inv]) (simp_all add: table o(3-5))
  then show ?thesis using assms by (simp add: tape_parts_inv_def outside_def file_inv_def)
qed

lemma outside_stored:
  assumes "outside files d d'" "tape_stored E files u m0 d name content"
  shows "tape_stored E files u m0 d' name content"
proof (rule tape_stored_cong [OF assms(2)])
  show "base_ok E files u m0 M d'" if "base_ok E files u m0 M d" for M
    by (rule base_ok_same [OF that]) (use assms(1) in \<open>simp_all add: outside_def same_chunk_files_def same_label_def\<close>)
  show "chunk_table d' = chunk_table d" using assms(1) by (simp add: outside_def same_chunks_def)
qed (use assms(1) in \<open>simp_all add: outside_def\<close>)

lemma outside_steps:
  "tape_chunks_checkpoint E d = Some (rc, d') \<Longrightarrow> outside files d d'"
  "tape_checkpoint E d = Some (rc, d') \<Longrightarrow> outside files d d'"
  "tape_cleanstate E d = Some (rc, d') \<Longrightarrow> outside files d d'"
  "outside files d (extrastats_copy k d)"
  by (auto simp: tape_chunks_checkpoint_def tape_checkpoint_def tape_cleanstate_def extrastats_copy_def
      outside_def same_label_def split: option.splits prod.splits)

lemma last_entry_ok:
  assumes env: "env_ok E files u" and inv: "tape_inv E files u m0 d content" and mode: "tw_mode d \<noteq> 0" "tw_mode d \<noteq> 1"
    and run: "(if tw_mode d = 3 then endentry E d else Some (0, d)) = Some (0, d')"
  shows "\<exists>es. tape_parts_inv E files u m0 d' es [] [] [] \<and> archive_bytes es = content \<and> tw_hbuf d' = [] \<and>
    same_archive d d' \<and> tw_mode d' = tw_mode d"
proof -
  obtain es b p where P: "tape_parts_inv E files u m0 d es b [] p" "content = archive_bytes es @ tw_hbuf d @ b @ p"
    "tw_mode d \<noteq> 1 \<longrightarrow> b = [] \<and> p = []" "tw_mode d = 2 \<longrightarrow> tw_hbuf d = []" "tw_mode d \<in> {0, 1, 2, 3}"
    using tape_invE [OF inv] by blast
  show ?thesis
  proof (cases "tw_mode d = 3")
    case True
    then have "endentry E d = Some (0, d')" using run by simp
    from end_entry_ok [OF env P(1) _ _ _ _ this] show ?thesis using P(2,3) True by (auto simp: MAXCHUNK_def)
  next
    case False
    then have "d' = d" "tw_mode d = 2" using run mode P(5) by auto
    then show ?thesis using P by (intro exI [of _ es]) simp
  qed
qed

lemma ended_tape_inv:
  assumes "tape_parts_inv E files u m0 d es [] [] []" "tw_hbuf d = []" "tw_mode d \<in> {0, 1, 2, 3}"
  shows "tape_inv E files u m0 d (archive_bytes es)"
  unfolding tape_inv_def using assms by (intro exI [of _ es] exI [of _ "[]"]) simp

lemma checkpoint_flush_ok:
  assumes env: "env_ok E files u" "storage_ok E files" and inv: "tape_inv E files u m0 d content"
    and mode: "tw_mode d \<noteq> 0" "tw_mode d \<noteq> 1" and run: "checkpoint_flush E d = Some (0, d')"
  shows "tape_inv E files u m0 d' content \<and> tape_stored E files u m0 d' (tw_tapename d @ part_suffix) content \<and>
    same_label d d' \<and> tw_mode d' = tw_mode d"
proof -
  obtain d1 d2 d3 where r: "(if tw_mode d = 3 then endentry E d else Some (0, d)) = Some (0, d1)"
      "flushtape E (extrastats_copy 0 d1) True = Some (0, d2)" "tape_chunks_checkpoint E d2 = Some (0, d3)"
      "(if cw_S (tw_C (extrastats_copy 1 d3)) then tape_checkpoint E (extrastats_copy 1 d3)
        else Some (0, extrastats_copy 1 d3)) = Some (0, d')"
    using run by (auto simp: checkpoint_flush_def Let_def split: option.splits prod.splits if_splits)
  obtain es where e: "tape_parts_inv E files u m0 d1 es [] [] []" "archive_bytes es = content" "tw_hbuf d1 = []"
      "same_archive d d1" "tw_mode d1 = tw_mode d"
    using last_entry_ok [OF env(1) inv mode r(1)] by blast
  have o1: "outside files d1 (extrastats_copy 0 d1)" by (rule outside_steps(4))
  note f = flushtape_ok [OF env outside_parts [OF o1 e(1)] r(2)]
  have "outside files d3 (extrastats_copy 1 d3)" by (rule outside_steps(4))
  moreover have "outside files (extrastats_copy 1 d3) d'"
    using r(4) outside_steps(2) by (auto split: if_splits)
  ultimately have o2: "outside files d2 d'" using outside_steps(1) [OF r(3)] outside_trans by metis
  have same: "same_label d d'" "tw_mode d' = tw_mode d" "tw_hbuf d' = []" "tw_tapename (extrastats_copy 0 d1) = tw_tapename d"
    using e(3-5) o1 f o2 by (auto simp: outside_def same_label_def same_archive_def)
  have "tape_parts_inv E files u m0 d' es [] [] []" using f outside_parts [OF o2] by blast
  moreover have "tw_mode d' \<in> {0, 1, 2, 3}" using same(2) tape_invE [OF inv] by metis
  moreover have "tape_stored E files u m0 d2 (tw_tapename d @ part_suffix) content"
    using f e(2) same(4) tape_storedI [of E files u m0 d2 es] by (auto simp: flush_name_def)
  ultimately show ?thesis using same e(2) outside_stored [OF o2] ended_tape_inv [of E files u m0 d' es] by blast
qed

text \<open>A checkpoint stores what has been written so far as \<^verbatim>\<open>.part\<close>, and writing goes on where it was.\<close>

lemma checkpoint_ok:
  assumes env: "env_ok E files u" "storage_ok E files" and inv: "tape_inv E files u m0 d content"
    and run: "writetape_checkpoint E d = Some (0, d')"
  shows "tape_inv E files u m0 d' content \<and> tape_stored E files u m0 d' (tw_tapename d @ part_suffix) content \<and>
    same_label d d' \<and> tw_mode d' = tw_mode d"
proof -
  have modes: "tw_mode d \<in> {0, 1, 2, 3}" using tape_invE [OF inv] by metis
  obtain d1 d2 where r: "(if tw_mode d < 2 then writetape_setmode E d 2 else Some (0, d)) = Some (0, d1)"
      "checkpoint_flush E d1 = Some (0, d2)"
      "(if tw_mode d < 2 then writetape_setmode E d2 (tw_mode d) else Some (0, d2)) = Some (0, d')"
    using run by (auto simp: writetape_checkpoint_def Let_def split: option.splits prod.splits if_splits)
  show ?thesis
  proof (cases "tw_mode d < 2")
    case False
    then have "d1 = d" "d2 = d'" using r by simp_all
    then show ?thesis using checkpoint_flush_ok [OF env inv, of d'] r(2) False by simp
  next
    case True
    then have m: "tw_mode d = 0 \<or> tw_mode d = 1" and s: "writetape_setmode E d 2 = Some (0, d1)"
      using modes r(1) by auto
    have s1: "tape_inv E files u m0 d1 content" "tw_mode d1 = 2" "same_archive d d1"
      using setmode_ok [OF env(1) inv _ _ s] by auto
    have f: "tape_inv E files u m0 d2 content" "tape_stored E files u m0 d2 (tw_tapename d1 @ part_suffix) content"
        "same_label d1 d2" "tw_mode d2 = 2"
      using checkpoint_flush_ok [OF env s1(1) _ _ r(2)] s1(2) by auto
    have b: "writetape_setmode E d2 (tw_mode d) = Some (0, d')" using r(3) True by simp
    have g: "tape_inv E files u m0 d' content" "tw_mode d' = tw_mode d" "same_archive d2 d'"
      using setmode_ok [OF env(1) f(1) _ _ b] m f(4) by auto
    have d': "d' = d2\<lparr>tw_mode := tw_mode d\<rparr>" using b m f(4) by (auto simp: writetape_setmode_def)
    have "tape_stored E files u m0 d' (tw_tapename d1 @ part_suffix) content"
      by (rule tape_stored_cong [OF f(2)]) (use f(2) in \<open>simp_all add: d' tape_stored_def base_ok_def same_label_def\<close>)
    moreover have "tw_tapename d1 = tw_tapename d" using s1(3) by (simp add: same_archive_def)
    ultimately show ?thesis using g same_archive_label same_label_trans s1(3) f(3) by metis
  qed
qed

lemma close_entry_ok:
  assumes env: "env_ok E files u" and inv: "tape_inv E files u m0 d content" and run: "close_entry E d = Some (0, d')"
  shows "\<exists>es. tape_parts_inv E files u m0 d' es [] [] [] \<and> archive_bytes es = content \<and> same_archive d d'"
proof -
  have modes: "tw_mode d \<in> {0, 1, 2, 3}" using tape_invE [OF inv] by metis
  obtain d1 where r: "(if tw_eof d \<and> tw_mode d < 2 then writetape_setmode E d 2 else Some (0, d)) = Some (0, d1)"
      "(if tw_mode d1 = 3 then endentry E d1 else Some (0, d1)) = Some (0, d')" "\<not> (tw_mode d' < 2 \<and> \<not> tw_eof d')"
    using run by (auto simp: close_entry_def split: option.splits prod.splits if_splits)
  have d1: "tape_inv E files u m0 d1 content" "same_archive d d1" "tw_mode d1 \<noteq> 0" "tw_mode d1 \<noteq> 1"
  proof -
    have "tape_inv E files u m0 d1 content \<and> same_archive d d1 \<and> tw_mode d1 \<noteq> 0 \<and> tw_mode d1 \<noteq> 1"
    proof (cases "tw_eof d \<and> tw_mode d < 2")
      case True
      then have "writetape_setmode E d 2 = Some (0, d1)" using r(1) by simp
      then show ?thesis using setmode_ok [OF env inv, of 2 d1] by simp
    next
      case False
      then have d1: "d1 = d" using r(1) by (auto split: if_splits)
      have "tw_mode d \<noteq> 0 \<and> tw_mode d \<noteq> 1"
      proof (rule ccontr)
        assume m: "\<not> ?thesis"
        then have "d' = d" using r(2) d1 by auto
        then show False using r(3) False m by auto
      qed
      then show ?thesis using inv d1 by simp
    qed
    then show "tape_inv E files u m0 d1 content" "same_archive d d1" "tw_mode d1 \<noteq> 0" "tw_mode d1 \<noteq> 1" by blast+
  qed
  show ?thesis using last_entry_ok [OF env d1(1,3,4) r(2)] d1(2) same_archive_trans by blast
qed

text \<open>A tape that was closed has been stored: complete, or, if it was truncated, as \<^verbatim>\<open>.part\<close>.\<close>

lemma close_ok:
  assumes env: "env_ok E files u" "storage_ok E files" and inv: "tape_inv E files u m0 d content"
    and run: "writetape_close E d = Some (0, d')"
  shows "tape_stored E files u m0 d' (flush_name (tw_eof d) (tw_tapename d)) content \<and> same_label d d'"
proof -
  obtain d1 d2 d3 d4 where r: "close_entry E d = Some (0, d1)" "flushtape E d1 (tw_eof d1) = Some (0, d2)"
      "tape_chunks_checkpoint E d2 = Some (0, d3)" "tape_storage (te_end E) d3 = (0, d4)"
      "(if cw_S (tw_C d4) then close_commit E d4 else Some (0, d4)) = Some (0, d')"
    using run by (auto simp: writetape_close_def split: option.splits prod.splits if_splits)
  obtain es where e: "tape_parts_inv E files u m0 d1 es [] [] []" "archive_bytes es = content" "same_archive d d1"
    using close_entry_ok [OF env(1) inv r(1)] by blast
  note f = flushtape_ok [OF env e(1) r(2)]
  have names: "tw_eof d1 = tw_eof d" "tw_tapename d1 = tw_tapename d" using e(3) by (simp_all add: same_archive_def)
  have st: "tape_stored E files u m0 d2 (flush_name (tw_eof d) (tw_tapename d)) content"
    using f e(2) tape_storedI [of E files u m0 d2 es] unfolding names by blast
  have "outside files d3 d4"
  proof (cases "cw_S (tw_C d3)")
    case True
    then obtain S where "te_end E (tw_S d3) = (0, S)" "d4 = d3\<lparr>tw_S := S\<rparr>"
      using r(4) by (auto simp: tape_storage_def split: prod.splits)
    then show ?thesis using env(2) by (simp add: outside_def same_label_def storage_ok_def)
  qed (use r(4) in \<open>simp add: tape_storage_def\<close>)
  moreover have "outside files d4 d'"
    using r(5) outside_steps(2,3) outside_trans
    by (fastforce simp: close_commit_def split: if_splits option.splits prod.splits)
  ultimately have o: "outside files d2 d'" using outside_steps(1) [OF r(3)] outside_trans by metis
  have "same_label d2 d'" using o by (simp add: outside_def)
  then show ?thesis using outside_stored [OF o st] e(3) f same_archive_label same_label_trans by blast
qed

end
