(* ===== verification/Tape_Commit.thy ===== *)
theory Tape_Commit
  imports Tape_Content
begin

text \<open>
  A tape and the transaction layer: a checkpoint that succeeds is a transaction that will not be
  lost, and closing a tape completes it.
\<close>

text \<open>The cache between two checkpoints: there is no checkpoint marker.\<close>

definition cache_ready :: "string \<Rightarrow> ('s, 'k) tape_w \<Rightarrow> bool" where
  "cache_ready c d \<longleftrightarrow>
     tw_cachedir d = Some c \<and> fs_names (tw_fs d) (cache_name c ''ckpt_m'') = None \<and>
     (\<forall>i. fs_names (tw_fs d) (directory_path c ''.ckpt'') = Some i \<longrightarrow> i < fs_next (tw_fs d))"

text \<open>Sequence numbers and nonces have 32 bytes.\<close>

definition tokens_ok :: "'s tape_env \<Rightarrow> ('s, 'k) tape_w \<Rightarrow> bool" where
  "tokens_ok E d \<longleftrightarrow> length (tw_seqnum d) = 32 \<and> (\<forall>log n. te_nonce E log = Some n \<longrightarrow> length n = 32)"

text \<open>The transaction of a tape with the chunk directory that was written at inode \<open>tx_inode x\<close>.\<close>

definition tape_txn :: "('s, 'k) tape_w \<Rightarrow> txn \<Rightarrow> bool" where
  "tape_txn d x \<longleftrightarrow> tw_cachedir d = Some (tx_cache x) \<and> tx_machine x = tw_machinenum d \<and> tx_seqnum x = tw_seqnum d \<and>
     tx_has_ckpt x \<and> length (tx_seqnum x) = 32 \<and> length (tx_nonce x) = 32"

definition directory_at :: "chunks_w \<Rightarrow> nat \<Rightarrow> fs \<Rightarrow> bool" where
  "directory_at C i fs \<longleftrightarrow>
     (let f = directory_file (cw_stats_extra C) (live (somes (ht_ht (cw_HT C)))) in
      i < fs_next fs \<and> fs_node fs i = Some (Regular f f))"

lemma directory_at_step: "directory_at C i fs \<Longrightarrow> dir_step P fs fs' \<Longrightarrow> directory_at C i fs'"
  unfolding directory_at_def Let_def using dir_step_node by metis

lemma chunks_checkpoint_ready:
  assumes run: "tape_chunks_checkpoint E d = Some (0, d')" and ready: "cache_ready c d"
    and C: "cw_S (tw_C d)" "cw_path (tw_C d) = Some c"
  shows "\<exists>i. directory_at (tw_C d) i (tw_fs d') \<and> fs_names (tw_fs d') (directory_path c ''.ckpt'') = Some i \<and>
    crash_views (tw_fs d') = {fs_names (tw_fs d')} \<and> cache_ready c d' \<and> same_label d d'"
proof -
  obtain fs where w: "chunks_directory_write (te_flt E) c (cw_HT (tw_C d)) (cw_stats_extra (tw_C d)) ''.ckpt'' (tw_fs d) = (0, fs)"
    and d': "d' = d\<lparr>tw_fs := fs\<rparr>"
    using run C by (auto simp: tape_chunks_checkpoint_def chunks_write_checkpoint_def split: prod.splits if_splits)
  obtain i where i: "fs_names fs (directory_path c ''.ckpt'') = Some i" "crash_views fs = {fs_names fs}"
      "fs_node fs i = Some (Regular (directory_file (cw_stats_extra (tw_C d)) (live (somes (ht_ht (cw_HT (tw_C d))))))
         (directory_file (cw_stats_extra (tw_C d)) (live (somes (ht_ht (cw_HT (tw_C d)))))))"
      "\<forall>q. q \<noteq> directory_path c ''.ckpt'' \<longrightarrow> fs_names fs q = fs_names (tw_fs d) q"
      "fs_names (tw_fs d) (directory_path c ''.ckpt'') = Some i \<and> fs_next fs = fs_next (tw_fs d) \<or>
       fs_names (tw_fs d) (directory_path c ''.ckpt'') = None \<and> i = fs_next (tw_fs d) \<and> fs_next fs = Suc i"
    using chunks_directory_write_spec [OF w] unfolding Let_def by blast
  have small: "i < fs_next fs" using i(5) ready unfolding cache_ready_def by auto
  have other: "cache_name c ''ckpt_m'' \<noteq> directory_path c ''.ckpt''" by (simp add: cache_name_def directory_path_def)
  show ?thesis
    using i small ready other by (intro exI [of _ i]) (simp add: d' directory_at_def Let_def cache_ready_def same_label_def)
qed

text \<open>The chunk directory is written, then a checkpoint is taken.\<close>

lemma tape_commit_ok:
  assumes wr: "tape_chunks_checkpoint E d = Some (0, d1)" and ready: "cache_ready c d" and tok: "tokens_ok E d"
    and C: "cw_S (tw_C d)" "cw_path (tw_C d) = Some c"
    and d2: "tw_fs d2 = tw_fs d1" "same_label d1 d2"
    and ckpt: "tape_checkpoint E d2 = Some (0, d3)"
  shows "\<exists>x. tape_txn d x \<and> past_checkpoint x (tw_fs d3) (tw_log d3) \<and> directory_at (tw_C d) (tx_inode x) (tw_fs d3) \<and>
    cache_ready c d3"
proof -
  obtain i where i: "directory_at (tw_C d) i (tw_fs d1)" "fs_names (tw_fs d1) (directory_path c ''.ckpt'') = Some i"
      "crash_views (tw_fs d1) = {fs_names (tw_fs d1)}" "cache_ready c d1" "same_label d d1"
    using chunks_checkpoint_ready [OF wr ready C] by blast
  have label: "tw_cachedir d2 = Some c" "tw_seqnum d2 = tw_seqnum d" "tw_machinenum d2 = tw_machinenum d"
    using d2(2) i(5) ready by (simp_all add: same_label_def cache_ready_def)
  obtain nonce fs log where n: "te_nonce E (tw_log d2) = Some nonce"
    and run: "multitape_checkpoint (te_flt E) (te_srv E) (Some nonce) c (tw_machinenum d) (tw_seqnum d) (tw_fs d1) (tw_log d2) = (0, fs, log)"
    and d3: "d3 = d2\<lparr>tw_fs := fs, tw_log := log\<rparr>"
    using ckpt by (auto simp: tape_checkpoint_def label d2(1) multitape_checkpoint_def split: prod.splits option.splits if_splits)
  define x where "x = \<lparr>tx_cache = c, tx_machine = tw_machinenum d, tx_seqnum = tw_seqnum d, tx_nonce = nonce, tx_inode = i,
      tx_has_ckpt = True\<rparr>"
  have x: "tx_cache x = c" "tx_machine x = tw_machinenum d" "tx_seqnum x = tw_seqnum d" "tx_nonce x = nonce" "tx_inode x = i" "tx_has_ckpt x"
    by (simp_all add: x_def)
  have len: "length (tx_seqnum x) = 32" "length (tx_nonce x) = 32" using tok n by (auto simp: tokens_ok_def x)
  have r: "dir_step UNIV (tw_fs d1) fs" "past_checkpoint x fs log"
    using fresh_checkpoint_spec [of "tw_fs d1" x "te_flt E" "te_srv E" "tw_log d2" 0 fs log] i(2,3,4) len run
    by (simp_all add: x cache_ready_def)
  have v: "fs_names fs (cache_name c ''ckpt_m'') = None" "fs_names fs (directory_path c ''.ckpt'') = None"
    using r(2) fs_names_in_crash_views [of fs] by (auto simp: past_checkpoint_def phase_commit_def phase_committed_def x)
  have "tape_txn d x" using len ready by (simp add: tape_txn_def x cache_ready_def)
  moreover have "directory_at (tw_C d) (tx_inode x) fs" using directory_at_step [OF i(1) r(1)] by (simp add: x)
  moreover have "cache_ready c d3" using v label by (simp add: cache_ready_def d3)
  ultimately show ?thesis using r(2) by (intro exI [of _ x]) (simp add: d3)
qed

text \<open>The clean state completes it.\<close>

lemma tape_cleanstate_ok:
  assumes x: "tape_txn d x" "past_checkpoint x (tw_fs d) (tw_log d)" "directory_at C (tx_inode x) (tw_fs d)"
    and run: "tape_cleanstate E d = Some (0, d')"
  shows "transaction_complete x (tw_log d') (tw_fs d') \<and> directory_at C (tx_inode x) (tw_fs d')"
proof -
  have c: "tw_cachedir d = Some (tx_cache x)" "tx_machine x = tw_machinenum d" "length (tx_seqnum x) = 32" "length (tx_nonce x) = 32"
    using x(1) by (auto simp: tape_txn_def)
  obtain fs log m where r: "multitape_cleanstate (te_flt E) (te_srv E) (tx_cache x) (tx_machine x) 0 (tw_fs d) (tw_log d) (tw_modified d) =
      (0, fs, log, m)" and d': "tw_fs d' = fs" "tw_log d' = log"
    using run by (auto simp: tape_cleanstate_def c split: prod.splits)
  note rec = cleanstate_recovers [OF past_checkpoint_recoverable [OF x(2)] c(3,4) r]
  have "transaction_complete x log fs"
    using rec by (auto simp: transaction_complete_def phase_committed_def)
  then show ?thesis using directory_at_step [OF x(3)] rec by (auto simp: d')
qed

lemma same_archive_ready: "same_archive d d' \<Longrightarrow> cache_ready c d \<Longrightarrow> cache_ready c d'"
  by (simp add: same_archive_def cache_ready_def)

lemma same_label_tokens: "same_label d d' \<Longrightarrow> tokens_ok E d \<Longrightarrow> tokens_ok E d'"
  by (simp add: same_label_def tokens_ok_def)

lemma same_label_txn: "same_label d d' \<Longrightarrow> tape_txn d' x = tape_txn d x"
  by (simp add: same_label_def tape_txn_def)

lemma parts_cookie:
  assumes "tape_parts_inv E files u m0 d es b t p" "cache_ready c d"
  shows "cw_S (tw_C d)" "cw_path (tw_C d) = Some c"
  using assms by (auto simp: tape_parts_inv_def entry_inv_def base_ok_def cache_ready_def)

lemma close_committed:
  assumes env: "env_ok E files u" "storage_ok E files" and inv: "tape_inv E files u m0 d content"
    and ready: "cache_ready c d" and tok: "tokens_ok E d" and close: "writetape_close E d = Some (0, d')"
  shows "\<exists>x. tape_txn d x \<and> transaction_complete x (tw_log d') (tw_fs d') \<and> directory_at (tw_C d') (tx_inode x) (tw_fs d')"
proof -
  obtain d1 d2 d3 d4 where r: "close_entry E d = Some (0, d1)" "flushtape E d1 (tw_eof d1) = Some (0, d2)"
      "tape_chunks_checkpoint E d2 = Some (0, d3)" "tape_storage (te_end E) d3 = (0, d4)"
      "(if cw_S (tw_C d4) then close_commit E d4 else Some (0, d4)) = Some (0, d')"
    using close by (auto simp: writetape_close_def split: option.splits prod.splits if_splits)
  obtain es where e: "tape_parts_inv E files u m0 d1 es [] [] []" "same_archive d d1"
    using close_entry_ok [OF env(1) inv r(1)] by blast
  have f: "tape_parts_inv E files u m0 d2 es [] [] []" "same_archive d1 d2" using flushtape_ok [OF env e(1) r(2)] by blast+
  have same: "same_archive d d2" by (rule same_archive_trans [OF e(2) f(2)])
  note label = same_archive_label [OF same]
  have ready2: "cache_ready c d2" by (rule same_archive_ready [OF same ready])
  have tok2: "tokens_ok E d2" by (rule same_label_tokens [OF label tok])
  note C = parts_cookie [OF f(1) ready2]
  have C3: "tw_C d3 = tw_C d2" using r(3) by (auto simp: tape_chunks_checkpoint_def)
  obtain S where d4: "d4 = d3\<lparr>tw_S := S\<rparr>" using r(4) C C3 by (auto simp: tape_storage_def split: prod.splits)
  obtain d5 where k: "tape_checkpoint E d4 = Some (0, d5)" "tape_cleanstate E d5 = Some (0, d')"
    using r(5) C C3 d4 by (auto simp: close_commit_def split: option.splits prod.splits if_splits)
  obtain x where x: "tape_txn d2 x" "past_checkpoint x (tw_fs d5) (tw_log d5)" "directory_at (tw_C d2) (tx_inode x) (tw_fs d5)"
    using tape_commit_ok [OF r(3) ready2 tok2 C _ _ k(1)] by (auto simp: d4 same_label_def)
  have label5: "same_label d2 d5"
    using outside_steps(1) [OF r(3), of files] outside_steps(2) [OF k(1), of files] same_label_trans
    by (auto simp: outside_def d4 same_label_def)
  have "tw_C d' = tw_C d2"
    using k C3 d4 by (auto simp: tape_checkpoint_def tape_cleanstate_def split: option.splits prod.splits)
  moreover have "transaction_complete x (tw_log d') (tw_fs d') \<and> directory_at (tw_C d2) (tx_inode x) (tw_fs d')"
    using tape_cleanstate_ok [OF _ x(2,3) k(2)] x(1) same_label_txn [OF label5] by simp
  ultimately show ?thesis using x(1) same_label_txn [OF label] by auto
qed

lemma checkpoint_committed:
  assumes env: "env_ok E files u" "storage_ok E files" and inv: "tape_inv E files u m0 d content"
    and ready: "cache_ready c d" and tok: "tokens_ok E d" and run: "writetape_checkpoint E d = Some (0, d')"
  shows "\<exists>x stats. tape_txn d x \<and> past_checkpoint x (tw_fs d') (tw_log d') \<and>
    directory_at (tw_C d'\<lparr>cw_stats_extra := stats\<rparr>) (tx_inode x) (tw_fs d') \<and> cache_ready c d'"
proof -
  have modes: "tw_mode d \<in> {0, 1, 2, 3}" using tape_invE [OF inv] by metis
  obtain d1 d2 where r: "(if tw_mode d < 2 then writetape_setmode E d 2 else Some (0, d)) = Some (0, d1)"
      "checkpoint_flush E d1 = Some (0, d2)"
      "(if tw_mode d < 2 then writetape_setmode E d2 (tw_mode d) else Some (0, d2)) = Some (0, d')"
    using run by (auto simp: writetape_checkpoint_def Let_def split: option.splits prod.splits if_splits)
  have d1: "tape_inv E files u m0 d1 content" "same_archive d d1" "tw_mode d1 \<noteq> 0" "tw_mode d1 \<noteq> 1"
  proof -
    have "tape_inv E files u m0 d1 content \<and> same_archive d d1 \<and> tw_mode d1 \<noteq> 0 \<and> tw_mode d1 \<noteq> 1"
    proof (cases "tw_mode d < 2")
      case True
      then have "writetape_setmode E d 2 = Some (0, d1)" using r(1) by simp
      then show ?thesis using setmode_ok [OF env(1) inv, of 2 d1] by simp
    qed (use r(1) inv modes in auto)
    then show "tape_inv E files u m0 d1 content" "same_archive d d1" "tw_mode d1 \<noteq> 0" "tw_mode d1 \<noteq> 1" by blast+
  qed
  obtain e1 e2 e3 where f: "(if tw_mode d1 = 3 then endentry E d1 else Some (0, d1)) = Some (0, e1)"
      "flushtape E (extrastats_copy 0 e1) True = Some (0, e2)" "tape_chunks_checkpoint E e2 = Some (0, e3)"
      "(if cw_S (tw_C (extrastats_copy 1 e3)) then tape_checkpoint E (extrastats_copy 1 e3)
        else Some (0, extrastats_copy 1 e3)) = Some (0, d2)"
    using r(2) by (auto simp: checkpoint_flush_def Let_def split: option.splits prod.splits if_splits)
  obtain es where e: "tape_parts_inv E files u m0 e1 es [] [] []" "same_archive d1 e1" "tw_mode e1 = tw_mode d1"
    using last_entry_ok [OF env(1) d1(1,3,4) f(1)] by blast
  have o1: "outside files e1 (extrastats_copy 0 e1)" "same_archive e1 (extrastats_copy 0 e1)"
    by (rule outside_steps(4)) (simp add: extrastats_copy_def same_archive_def)
  have g: "tape_parts_inv E files u m0 e2 es [] [] []" "same_archive (extrastats_copy 0 e1) e2" "tw_mode e2 = tw_mode e1"
    using flushtape_ok [OF env outside_parts [OF o1(1) e(1)] f(2)] by (simp_all add: extrastats_copy_def)
  have same: "same_archive d e2" using d1(2) e(2) o1(2) g(2) same_archive_trans by blast
  have ready2: "cache_ready c e2" by (rule same_archive_ready [OF same ready])
  have tok2: "tokens_ok E e2" by (rule same_label_tokens [OF same_archive_label [OF same] tok])
  note C = parts_cookie [OF g(1) ready2]
  have C3: "tw_C e3 = tw_C e2" using f(3) by (auto simp: tape_chunks_checkpoint_def)
  have k: "tape_checkpoint E (extrastats_copy 1 e3) = Some (0, d2)"
    using f(4) C C3 by (auto simp: extrastats_copy_def chunks_write_extrastats_copy_def split: if_splits)
  have lab: "tw_fs (extrastats_copy 1 e3) = tw_fs e3" "same_label e3 (extrastats_copy 1 e3)"
    by (simp_all add: extrastats_copy_def same_label_def)
  obtain x where x: "tape_txn e2 x" "past_checkpoint x (tw_fs d2) (tw_log d2)" "directory_at (tw_C e2) (tx_inode x) (tw_fs d2)"
      "cache_ready c d2"
    using tape_commit_ok [OF f(3) ready2 tok2 C lab k] by blast
  have C2: "tw_C d2 = tw_C e2\<lparr>cw_stats_extra := cw_stats_extra_copy (tw_C e2)\<rparr>"
    using k C3 by (auto simp: tape_checkpoint_def extrastats_copy_def chunks_write_extrastats_copy_def split: option.splits prod.splits)
  have d': "tw_fs d' = tw_fs d2" "tw_log d' = tw_log d2" "tw_C d' = tw_C d2" "cache_ready c d' = cache_ready c d2"
  proof -
    have m: "tw_mode d2 = tw_mode d1"
      using outside_steps(1) [OF f(3), of files] outside_steps(2) [OF k, of files] g(3) e(3)
      by (simp add: outside_def extrastats_copy_def)
    have "d' = d2 \<or> d' = d2\<lparr>tw_mode := tw_mode d\<rparr>"
    proof (cases "tw_mode d < 2")
      case True
      then have "writetape_setmode E d 2 = Some (0, d1)" using r(1) by simp
      then have "tw_mode d2 = 2" using setmode_ok [OF env(1) inv, of 2 d1] m by simp
      moreover have "writetape_setmode E d2 (tw_mode d) = Some (0, d')" using r(3) True by simp
      ultimately show ?thesis using True by (simp add: writetape_setmode_def)
    qed (use r(3) in simp)
    then show "tw_fs d' = tw_fs d2" "tw_log d' = tw_log d2" "tw_C d' = tw_C d2" "cache_ready c d' = cache_ready c d2"
      by (auto simp: cache_ready_def)
  qed
  have "directory_at (tw_C d2\<lparr>cw_stats_extra := cw_stats_extra (tw_C e2)\<rparr>) (tx_inode x) (tw_fs d2)"
    using x(3) by (simp add: C2 directory_at_def)
  then show ?thesis using x same_label_txn [OF same_archive_label [OF same]] unfolding d' by blast
qed

end
