(* ===== verification/Tape_Session.thy ===== *)
theory Tape_Session
  imports Tape_Commit
begin

text \<open>
  Sessions of a tape: any sequence of operations between opening and closing.  A tape that was stored
  is read back by \<^const>\<open>readtape_open\<close> and \<^const>\<open>read_archive\<close>.
\<close>

subsection \<open>Reading the chunks of a tape\<close>

text \<open>The server does not hold other data under the hash of \<open>b\<close>.\<close>

definition collision_free :: "'s tape_env \<Rightarrow> uncompress \<Rightarrow> files \<Rightarrow> bytes \<Rightarrow> bool" where
  "collision_free E u F b \<longleftrightarrow>
     (\<forall>h z n b'. chunk_hash E b = Some h \<longrightarrow> F (CHR ''c'', h) = Some z \<longrightarrow> u n z = Inr b' \<longrightarrow>
        chunk_hash E b' = Some h \<longrightarrow> b' = b)"

text \<open>The cookie of \<^const>\<open>chunks_read_init\<close>.\<close>

definition tape_cookie :: chunks_r where
  "tape_cookie = \<lparr>crd_maxlen = MAXCHUNK, crd_zbuflen = ZBUFLEN\<rparr>"

abbreviation tape_rchunk :: "'s tape_env \<Rightarrow> uncompress \<Rightarrow> 'r rfile \<Rightarrow> 'r rchunk" where
  "tape_rchunk E u rfile \<equiv> chunks_read_chunk (te_cr E) rfile u tape_cookie"

lemma named_chunk_ok:
  assumes srv: "on_server E u F m" and ch: "names_chunk E m ch b" and free: "collision_free E u F b"
    and r: "rfile_ok fail F rfile"
  shows "chunk_ok (tape_rchunk E u rfile) fail ch b"
proof -
  obtain h cd where h: "chunk_hash E b = Some h" "length h = 32" "m h = Some cd" "length b \<le> MAXCHUNK"
      "ch = h @ le32enc (of_nat (length b)) @ le32enc (cd_zlen cd)"
    using ch unfolding names_chunk_def by blast
  obtain b' z where z: "chunk_hash E b' = Some h" "F (CHR ''c'', h) = Some z" "length z = unat (cd_zlen cd)"
      "length z \<le> ZBUFLEN" "u (length b') z = Inr b'"
    using srv h(3) unfolding on_server_def holds_chunk_def by blast
  have b: "b' = b" using free h(1) z(1,2,5) unfolding collision_free_def by blast
  have parts: "length ch = 40" "ch_hash ch = h" "ch_len ch = length b" "ch_zlen ch = length z"
    using h(2,4) z(3) by (simp_all add: h(5) unat_of_nat_u32 MAXCHUNK_def)
  have "\<exists>res r'. tape_rchunk E u rfile s h (length b) (length z) = (res, r') \<and>
      (res = Inr b \<or> fail \<and> (\<exists>rc. res = Inl rc))" for s
  proof -
    obtain x s' where s': "rfile s (length z) (CHR ''c'') h = (x, s')" by fastforce
    moreover have "x = Inr z \<or> fail \<and> x = Inl (-1)"
      using r z(2) s' unfolding rfile_ok_def by (metis fst_conv)
    ultimately show ?thesis
      using h(1,4) z(4,5) unfolding b chunks_read_chunk_def tape_cookie_def by auto
  qed
  then show ?thesis unfolding chunk_ok_def parts by simp
qed

text \<open>The chunks \<open>bufs\<close> into which the streams of a tape were cut.\<close>

definition tape_chunks :: "'s tape_env \<Rightarrow> ('s, 'k) tape_w \<Rightarrow> entry list \<Rightarrow> bytes list \<Rightarrow> bool" where
  "tape_chunks E d es bufs \<longleftrightarrow>
     (\<exists>hbufs ibufs cs cbufs tbufs. bufs = hbufs @ ibufs @ cbufs @ tbufs \<and>
        list_all2 (names_chunk E (chunk_table d)) (ws_index (tw_stream d Headers)) hbufs \<and> concat hbufs = header_stream es \<and>
        list_all2 (names_chunk E (chunk_table d)) (ws_index (tw_stream d Chunks)) ibufs \<and> concat ibufs = concat cs \<and>
        list_all2 (names_chunk E (chunk_table d)) cs cbufs \<and> concat cbufs = chunk_data es \<and>
        list_all2 (names_chunk E (chunk_table d)) (ws_index (tw_stream d Trailers)) tbufs \<and> concat tbufs = trailer_data es)"

lemma tape_named_chunks: "tape_named E files u m0 d es \<Longrightarrow> \<exists>bufs. tape_chunks E d es bufs"
  unfolding tape_named_def stream_done_def tape_chunks_def by blast

lemma named_chunks_ok:
  assumes "on_server E u F m" "rfile_ok fail F rfile" "list_all2 (names_chunk E m) hs bufs"
    and "\<forall>b\<in>set bufs. collision_free E u F b"
  shows "list_all2 (chunk_ok (tape_rchunk E u rfile) fail) hs bufs"
  using assms(3,4) by (induction rule: list_all2_induct) (simp_all add: named_chunk_ok [OF assms(1) _ _ assms(2)])

lemma tape_chunks_stored:
  assumes "on_server E u F (chunk_table d)" "rfile_ok fail F rfile" and ch: "tape_chunks E d es bufs"
    and "\<forall>b\<in>set bufs. collision_free E u F b" and "list_all entry_ok es"
    and "length (mi_hindex (tape_index d)) < SSIZE_MAX" "length (mi_cindex (tape_index d)) < SSIZE_MAX"
      "length (mi_tindex (tape_index d)) < SSIZE_MAX"
  shows "archive_stored (tape_rchunk E u rfile) fail (tape_index d) es"
proof -
  obtain hbufs ibufs cs cbufs tbufs where c: "bufs = hbufs @ ibufs @ cbufs @ tbufs"
      "list_all2 (names_chunk E (chunk_table d)) (ws_index (tw_stream d Headers)) hbufs" "concat hbufs = header_stream es"
      "list_all2 (names_chunk E (chunk_table d)) (ws_index (tw_stream d Chunks)) ibufs" "concat ibufs = concat cs"
      "list_all2 (names_chunk E (chunk_table d)) cs cbufs" "concat cbufs = chunk_data es"
      "list_all2 (names_chunk E (chunk_table d)) (ws_index (tw_stream d Trailers)) tbufs" "concat tbufs = trailer_data es"
    using ch unfolding tape_chunks_def by (elim exE conjE) (rule that)
  have free: "\<forall>b\<in>set hbufs. collision_free E u F b" "\<forall>b\<in>set ibufs. collision_free E u F b"
      "\<forall>b\<in>set cbufs. collision_free E u F b" "\<forall>b\<in>set tbufs. collision_free E u F b"
    using assms(4) by (auto simp: c(1))
  note ok = named_chunks_ok [OF assms(1,2)]
  show ?thesis
    by (rule archive_storedI [OF _ ok [OF c(2) free(1)] c(3) _ ok [OF c(4) free(2)] c(5) ok [OF c(6) free(3)] c(7)
          _ ok [OF c(8) free(4)] c(9) assms(5-8)]) (simp_all add: tape_index_def)
qed

subsection \<open>Reading an archive that was stored\<close>

text \<open>What can be described: names and arguments are strings, and their number fits its field.\<close>

definition describable :: "('s, 'k) tape_w \<Rightarrow> bytes \<Rightarrow> bool" where
  "describable d name \<longleftrightarrow> 0 \<notin> set name \<and> 0 \<le> tw_argc d \<and> tw_argc d < 2147483648 \<and>
     nat (tw_argc d) \<le> length (tw_argv d) \<and> (\<forall>a\<in>set (take (nat (tw_argc d)) (tw_argv d)). 0 \<notin> set a)"

text \<open>No two fragments of the index of the archive have the same name.\<close>

definition index_names_ok :: "'s tape_env \<Rightarrow> ('s, 'k) tape_w \<Rightarrow> bytes \<Rightarrow> bool" where
  "index_names_ok E d name \<longleftrightarrow>
     (\<forall>h. crypto_hash_data (te_cr E) CRYPTO_KEY_HMAC_NAME name = Some h \<longrightarrow>
        frag_names_ok (te_cr E) h (length (metaindex_enc (tape_index d))))"

text \<open>Opening the archive \<open>name\<close> and reading it to its end gives \<open>content\<close>, or an error.\<close>

definition reads_back :: "bool \<Rightarrow> 's tape_env \<Rightarrow> uncompress \<Rightarrow> 'r rfile_alloc \<Rightarrow> 'r rfile \<Rightarrow> tapemetadata \<Rightarrow> 'r
    \<Rightarrow> bytes \<Rightarrow> bytes \<Rightarrow> bool" where
  "reads_back fail E u ralloc rfile junk r name content \<longleftrightarrow>
     (case readtape_open mem_ok True (te_cr E) ralloc rfile junk r name of
        (None, r) \<Rightarrow> fail
      | (Some (t, C), r) \<Rightarrow>
          \<exists>res t' r'. read_archive (chunks_read_chunk (te_cr E) rfile u C) t [] r = Some (res, t', r') \<and>
            (res = Inr content \<or> fail \<and> res = Inl (-1)))"

lemma tape_cookie_init: "chunks_read_init mem_ok MAXCHUNK = Some tape_cookie"
  by (simp add: chunks_read_init_def tape_cookie_def ZBUFLEN_def MAXCHUNK_def)

lemma readtape_open_mem:
  "readtape_open mem_ok True cr ralloc rfile junk r name =
     (case multitape_metadata_get_byname mem_ok cr ralloc r None junk name of
        (Inl rc, r, _) \<Rightarrow> (None, r)
      | (Inr tmd, r, _) \<Rightarrow>
          (case multitape_metaindex_get mem_ok cr rfile r None tmd of
             (Inl rc, r, _) \<Rightarrow> (None, r)
           | (Inr tmi, r, _) \<Rightarrow> (Some (tape_of_index tmi, tape_cookie), r)))"
  unfolding readtape_open_def tape_cookie_init by simp

lemma entry_length: "e \<in> set es \<Longrightarrow> length (entry_bytes e) \<le> length (archive_bytes es)"
  by (induction es) auto

text \<open>The description of an archive that was stored is read back.\<close>

lemma stored_description:
  assumes env: "env_ok E files u" "signatures_ok fail (te_cr E)" and st: "tape_stored E files u m0 d name content"
    and name: "describable d name" "index_names_ok E d name"
    and r: "rfile_alloc_ok fail (files (tw_S d)) ralloc" "rfile_ok fail (files (tw_S d)) rfile"
  shows "(\<exists>h. crypto_hash_data (te_cr E) CRYPTO_KEY_HMAC_NAME name = Some h) \<and>
    length (mi_hindex (tape_index d)) \<le> UINT32_MAX \<and> length (mi_cindex (tape_index d)) \<le> UINT32_MAX \<and>
    length (mi_tindex (tape_index d)) \<le> UINT32_MAX \<and>
    (\<exists>res r1. multitape_metadata_get_byname mem_ok (te_cr E) ralloc r0 None junk name = (res, r1, None) \<and>
       (fail \<and> res = Inl (-1) \<or> (\<exists>m. res = Inr m \<and> tm_name m = name \<and>
          unat (tm_indexlen m) = length (metaindex_enc (tape_index d)) \<and>
          (\<forall>r. value_or_fail fail (tape_index d) (fst (multitape_metaindex_get mem_ok (te_cr E) rfile r None m))))))"
proof -
  obtain ma ma' S C S1 C1 mdat1 S2 C2 where
      index: "multitape_metaindex_put ma (te_cr E) (te_wfile E) S C (tape_index d) (tape_metadata d name) = (0, S1, C1, mdat1)"
      and meta: "multitape_metadata_put ma' (te_cr E) (te_wfile E) S1 C1 mdat1 = Some (0, S2, C2)"
      and files: "files (tw_S d) = files S2"
    using st unfolding tape_stored_def described_def by blast
  have e: "hmacs_ok (te_cr E)" "wfile_ok files (te_wfile E)" using env(1) by (simp_all add: env_ok_def)
  obtain h where h: "crypto_hash_data (te_cr E) CRYPTO_KEY_HMAC_NAME (tm_name (tape_metadata d name)) = Some h"
    using index by (auto simp: multitape_metaindex_put_def Let_def split: if_splits option.splits)
  have nm: "tm_name (tape_metadata d name) = name" by (simp add: tape_metadata_def)
  have wf: "metadata_wf mdat1"
    using name(1) e(1) by (simp add: index_put_metadata(1) [OF index] metadata_wf_def describable_def tape_metadata_def hmacs_ok_def)
  have names: "frag_names_ok (te_cr E) h (length (metaindex_enc (tape_index d)))"
    using name(2) h by (simp add: index_names_ok_def nm)
  note lens = index_put_metadata(2-4) [OF index]
  have "length (metaindex_enc (tape_index d)) < 18446744073709551616" using lens by (simp add: length_metaindex_enc)
  then have "unat (of_nat (length (metaindex_enc (tape_index d))) :: u64) = length (metaindex_enc (tape_index d))"
    by (simp add: unat_of_nat)
  moreover obtain res r1 where "multitape_metadata_get_byname mem_ok (te_cr E) ralloc r0 None junk name = (res, r1, None)"
      "fail \<and> res = Inl (-1) \<or> (\<exists>m. res = Inr m \<and> tm_name m = name \<and>
         tm_indexlen m = of_nat (length (metaindex_enc (tape_index d))) \<and>
         (\<forall>r. value_or_fail fail (tape_index d) (fst (multitape_metaindex_get mem_ok (te_cr E) rfile r None m))))"
    using description_back [OF index meta env(2) e(1) wf h names e(2) r [unfolded files], of r0 junk None] unfolding nm by blast
  ultimately show ?thesis using h lens unfolding nm by auto
qed

lemma stored_reads_back:
  assumes env: "env_ok E files u" "signatures_ok fail (te_cr E)"
    and st: "tape_stored E files u m0 d name content" and len: "length content < SSIZE_MAX"
    and name: "describable d name" "index_names_ok E d name"
    and r: "rfile_alloc_ok fail (files (tw_S d)) ralloc" "rfile_ok fail (files (tw_S d)) rfile"
  shows "\<exists>es bufs. tape_chunks E d es bufs \<and> archive_bytes es = content \<and>
    ((\<forall>b\<in>set bufs. collision_free E u (files (tw_S d)) b) \<longrightarrow> reads_back fail E u ralloc rfile junk r0 name content)"
proof -
  obtain es where es: "tape_named E files u m0 d es" "content = archive_bytes es"
      "\<forall>e\<in>set es. length (fst e) < UINT32_MAX \<and> length (snd (snd e)) < MAXCHUNK"
    using st unfolding tape_stored_def by blast
  obtain bufs where bufs: "tape_chunks E d es bufs" using tape_named_chunks [OF es(1)] by blast
  obtain res r1 where D: "multitape_metadata_get_byname mem_ok (te_cr E) ralloc r0 None junk name = (res, r1, None)"
      "fail \<and> res = Inl (-1) \<or> (\<exists>m. res = Inr m \<and>
         (\<forall>r. value_or_fail fail (tape_index d) (fst (multitape_metaindex_get mem_ok (te_cr E) rfile r None m))))"
    and lens: "length (mi_hindex (tape_index d)) \<le> UINT32_MAX" "length (mi_cindex (tape_index d)) \<le> UINT32_MAX"
      "length (mi_tindex (tape_index d)) \<le> UINT32_MAX"
    using stored_description [OF env st name r, of r0 junk] by blast
  have opened: "fail \<and> fst (readtape_open mem_ok True (te_cr E) ralloc rfile junk r0 name) = None \<or>
      fst (readtape_open mem_ok True (te_cr E) ralloc rfile junk r0 name) = Some (tape_of_index (tape_index d), tape_cookie)"
  proof (cases "fail \<and> res = Inl (-1)")
    case True
    then show ?thesis unfolding readtape_open_mem D(1) by simp
  next
    case False
    then obtain m where m: "res = Inr m"
        "value_or_fail fail (tape_index d) (fst (multitape_metaindex_get mem_ok (te_cr E) rfile r1 None m))"
      using D(2) by blast
    obtain y r2 C0 where y: "multitape_metaindex_get mem_ok (te_cr E) rfile r1 None m = (y, r2, C0)" by (metis prod_cases3)
    then show ?thesis using m(2) unfolding readtape_open_mem D(1) m(1) by (auto simp: value_or_fail_def)
  qed
  have ok: "list_all entry_ok es"
  proof (unfold list_all_iff, rule ballI)
    fix e assume e: "e \<in> set es"
    obtain a b c where abc: "e = (a, b, c)" by (cases e)
    have "length b < SSIZE_MAX" using entry_length [OF e] len abc by (simp add: es(2))
    moreover have "length a < UINT32_MAX" "length c < MAXCHUNK" using es(3) e abc by auto
    ultimately show "entry_ok e" unfolding abc by (simp add: MAXCHUNK_def)
  qed
  have small: "length (mi_hindex (tape_index d)) < SSIZE_MAX" "length (mi_cindex (tape_index d)) < SSIZE_MAX"
      "length (mi_tindex (tape_index d)) < SSIZE_MAX"
    using lens by simp_all
  have srv: "on_server E u (files (tw_S d)) (chunk_table d)" using es(1) unfolding tape_named_def base_ok_def by blast
  have "reads_back fail E u ralloc rfile junk r0 name content"
    if free: "\<forall>b\<in>set bufs. collision_free E u (files (tw_S d)) b"
  proof (cases "readtape_open mem_ok True (te_cr E) ralloc rfile junk r0 name")
    case (Pair o' r2)
    have "archive_stored (tape_rchunk E u rfile) fail (tape_index d) es"
      by (rule tape_chunks_stored [OF srv r(2) bufs free ok small])
    from read_archive_holds [OF tape_of_index_holds [OF this], of "[]" r2]
    show ?thesis using opened Pair es(2) by (auto simp: reads_back_def)
  qed
  then show ?thesis using bufs es(2) by blast
qed

subsection \<open>Sessions\<close>

text \<open>
  \<open>tape_run E d0 content d\<close>: calls that succeed take the tape from \<open>d0\<close> to \<open>d\<close>, and write \<open>content\<close>.
  The buffer of the header takes the data that are written to it (see \<^const>\<open>append_header\<close>); the mode
  changes from data to the end of an entry; a chunk that is referenced is the chunk that its header
  names.  After \<^const>\<open>writetape_truncate\<close> nothing is written.
\<close>

inductive tape_run :: "'s tape_env \<Rightarrow> ('s, 'k) tape_w \<Rightarrow> bytes \<Rightarrow> ('s, 'k) tape_w \<Rightarrow> bool"
  for E d0 where
  start: "tape_run E d0 [] d0"
| written: "tape_run E d0 content d \<Longrightarrow> \<not> tw_eof d \<Longrightarrow> tw_mode d = 1 \<or> tw_mem d 0 \<Longrightarrow>
    writetape_write E d buf = Some (n, d') \<Longrightarrow> n \<noteq> -1 \<Longrightarrow> tape_run E d0 (content @ buf) d'"
| dropped: "tape_run E d0 content d \<Longrightarrow> tw_eof d \<Longrightarrow>
    writetape_write E d buf = Some (n, d') \<Longrightarrow> tape_run E d0 content d'"
| setmode: "tape_run E d0 content d \<Longrightarrow> mode \<in> {0, 1, 2} \<Longrightarrow> \<not> (tw_mode d = 1 \<and> mode = 0) \<Longrightarrow>
    writetape_setmode E d mode = Some (0, d') \<Longrightarrow> tape_run E d0 content d'"
| writechunk: "tape_run E d0 content d \<Longrightarrow>
    chunk_table d (ch_hash ch) = None \<or> names_chunk E (chunk_table d) ch x \<Longrightarrow>
    writetape_writechunk E d ch = Some (n, d') \<Longrightarrow> n \<noteq> -1 \<Longrightarrow>
    tape_run E d0 (if n = 0 then content else content @ x) d'"
| checkpoint: "tape_run E d0 content d \<Longrightarrow> writetape_checkpoint E d = Some (0, d') \<Longrightarrow> tape_run E d0 content d'"
| setcallback: "tape_run E d0 content d \<Longrightarrow> tape_run E d0 content (writetape_setcallback d f g k)"
| truncate: "tape_run E d0 content d \<Longrightarrow> tape_run E d0 content (writetape_truncate d)"

text \<open>The fields that describe the archive stay.\<close>

definition same_heading :: "('s, 'k) tape_w \<Rightarrow> ('s, 'k) tape_w \<Rightarrow> bool" where
  "same_heading d d' \<longleftrightarrow>
     tw_tapename d' = tw_tapename d \<and> tw_ctime d' = tw_ctime d \<and> tw_argc d' = tw_argc d \<and> tw_argv d' = tw_argv d \<and>
     tw_cachedir d' = tw_cachedir d \<and> tw_seqnum d' = tw_seqnum d \<and> tw_machinenum d' = tw_machinenum d"

lemma same_heading_trans: "same_heading d d' \<Longrightarrow> same_heading d' d'' \<Longrightarrow> same_heading d d''"
  by (simp add: same_heading_def)

lemma same_label_heading: "same_label d d' \<Longrightarrow> same_heading d d'"
  by (simp add: same_heading_def same_label_def)

lemma same_archive_heading: "same_archive d d' \<Longrightarrow> same_heading d d'"
  by (simp add: same_heading_def same_archive_def)

lemma tape_inv_cong:
  assumes "tape_inv E files u m0 d content" "tw_C d' = tw_C d" "tw_S d' = tw_S d" "tw_stream d' = tw_stream d"
    "tw_clen d' = tw_clen d" "tw_tlen d' = tw_tlen d" "tw_c_file d' = tw_c_file d" "tw_c_file_in d' = tw_c_file_in d"
    "tw_c_file_out d' = tw_c_file_out d" "tw_hbuf d' = tw_hbuf d" "tw_mode d' = tw_mode d" "tw_cachedir d' = tw_cachedir d"
  shows "tape_inv E files u m0 d' content"
proof -
  have "tape_parts_inv E files u m0 d' es b c p = tape_parts_inv E files u m0 d es b c p" for es b c p
    using assms(2-9,12) by (simp add: tape_parts_inv_def entry_inv_def base_ok_def file_inv_def)
  then show ?thesis using assms(1,10,11) by (simp add: tape_inv_def)
qed

lemma tape_run_inv:
  assumes "tape_run E d0 content d" and env: "env_ok E files u" "storage_ok E files" and "tape_inv E files u m0 d0 []"
  shows "tape_inv E files u m0 d content \<and> same_heading d0 d"
  using assms(1)
proof (induction rule: tape_run.induct)
  case start
  then show ?case using assms(4) by (simp add: same_heading_def)
next
  case (written content d buf n d')
  then have "tape_inv E files u m0 d' (content @ buf) \<and> same_archive d d'"
    using write_ok [OF env(1), of m0 d content buf n d'] by blast
  then show ?case using written.IH same_heading_trans same_archive_heading by blast
next
  case (dropped content d buf n d')
  then show ?case by (auto simp: writetape_write_def split: if_splits)
next
  case (setmode content d mode d')
  then have "tape_inv E files u m0 d' content \<and> same_archive d d'"
    using setmode_ok [OF env(1), of m0 d content mode d'] by blast
  then show ?case using setmode.IH same_heading_trans same_archive_heading by blast
next
  case (writechunk content d ch x n d')
  have r: "(n = 0 \<and> tape_inv E files u m0 d' content \<or> n = int (length x) \<and> tape_inv E files u m0 d' (content @ x)) \<and> same_archive d d'"
    using writechunk_ok [OF env(1) conjunct1 [OF writechunk.IH] _ writechunk.hyps(3,4)] writechunk.hyps(2) by blast
  then have "tape_inv E files u m0 d' (if n = 0 then content else content @ x)" by (cases "n = 0") auto
  then show ?case using r writechunk.IH same_heading_trans same_archive_heading by blast
next
  case (checkpoint content d d')
  then show ?case using checkpoint_ok [OF env, of m0 d content d'] same_heading_trans same_label_heading by blast
next
  case (setcallback content d f g k)
  have "tape_inv E files u m0 (writetape_setcallback d f g k) content"
    by (rule tape_inv_cong [OF conjunct1 [OF setcallback.IH]]) (simp_all add: writetape_setcallback_def)
  then show ?case using setcallback.IH by (simp add: writetape_setcallback_def same_heading_def)
next
  case (truncate content d)
  have "tape_inv E files u m0 (writetape_truncate d) content"
    by (rule tape_inv_cong [OF conjunct1 [OF truncate.IH]]) (simp_all add: writetape_truncate_def)
  then show ?case using truncate.IH by (simp add: writetape_truncate_def same_heading_def)
qed

lemma describable_same: "same_heading d d' \<Longrightarrow> describable d' name = describable d name"
  by (simp add: describable_def same_heading_def)


text \<open>Between the calls the cache stays ready for a checkpoint.\<close>

lemma tape_run_ready:
  assumes "tape_run E d0 content d" and env: "env_ok E files u" "storage_ok E files" and start: "tape_inv E files u m0 d0 []"
    and ready: "cache_ready c d0" "tokens_ok E d0"
  shows "cache_ready c d \<and> tokens_ok E d"
proof -
  have tok: "tokens_ok E d" if "tape_run E d0 content d" for content d
    using tape_run_inv [OF that env start] ready(2) by (simp add: same_heading_def tokens_ok_def)
  have "cache_ready c d" using assms(1)
  proof (induction rule: tape_run.induct)
    case start
    then show ?case by (rule ready(1))
  next
    case (written content d buf n d')
    then show ?case
      using write_ok [OF env(1) conjunct1 [OF tape_run_inv [OF _ env start]], of content d buf n d'] same_archive_ready by blast
  next
    case (dropped content d buf n d')
    then show ?case by (auto simp: writetape_write_def split: if_splits)
  next
    case (setmode content d mode d')
    then show ?case
      using setmode_ok [OF env(1) conjunct1 [OF tape_run_inv [OF _ env start]], of content d mode d'] same_archive_ready by blast
  next
    case (writechunk content d ch x n d')
    have "same_archive d d'"
      using writechunk_ok [OF env(1) conjunct1 [OF tape_run_inv [OF writechunk.hyps(1) env start]] _ writechunk.hyps(3,4)]
        writechunk.hyps(2) by blast
    then show ?case using writechunk.IH same_archive_ready by blast
  next
    case (checkpoint content d d')
    then show ?case
      using checkpoint_committed [OF env conjunct1 [OF tape_run_inv [OF checkpoint.hyps(1) env start]] checkpoint.IH tok] by blast
  qed (simp_all add: writetape_setcallback_def writetape_truncate_def cache_ready_def)
  then show ?thesis using tok [OF assms(1)] by blast
qed

end
