(* ===== verification/Tape_Sample.thy ===== *)
theory Tape_Sample
  imports Tape_Session
begin

text \<open>
  A session that is evaluated: an archive with one entry, a header of one byte, is written, stored as
  a checkpoint or closed.  The hash tells short data apart, compression copies, the storage is a
  list, the disk and the server do not fail.
\<close>

lemma small_write:
  assumes c: "tape_chunker c" and len: "length (pending c) + length buf \<le> 16384"
  shows "\<exists>c'. chunker_write f (Some c) buf d = Some (0, Some c', d) \<and> tape_chunker c' \<and> pending c' = pending c @ buf"
proof -
  have inv: "chunk_inv c" "ck_mu c = of_nat MEANCHUNK" using c by (simp_all add: tape_chunker_def)
  obtain rc c' s' chs where w: "chunkify_write (on_tape f) c buf (Some d) = Some (rc, c', s')"
      "hand_over (on_tape f) chs (Some d) = (rc, s')"
      "\<forall>ch\<in>set chs. unat (ck_mu c) < 4 * length ch \<and> length ch \<le> unat (ck_blen c)"
      "if rc = 0 then chunk_inv c' \<and> ck_blen c' = ck_blen c \<and> ck_mu c' = ck_mu c \<and> concat chs @ pending c' = pending c @ buf
       else chs \<noteq> [] \<and> fst (hand_over (on_tape f) (butlast chs) (Some d)) = 0 \<and> prefix (concat chs) (pending c @ buf)"
    using chunkify_write_spec [OF inv(1), of "on_tape f" buf "Some d"] by blast
  have "prefix (concat chs) (pending c @ buf)"
  proof (cases "rc = 0")
    case True
    then have "concat chs @ pending c' = pending c @ buf" using w(4) by simp
    then show ?thesis by (metis prefixI)
  qed (use w(4) in simp)
  then have short: "length (concat chs) \<le> 16384" using len by (auto dest: prefix_length_le)
  have "chs = []"
  proof (cases chs)
    case (Cons ch chs')
    then have "16384 < length ch" using w(3) unfolding inv(2) maxchunk_word by simp
    then show ?thesis using short Cons by simp
  qed
  then show ?thesis using w c by (auto simp: chunker_write_def tape_chunker_def)
qed

text \<open>A tape with nothing in it, with chunkers that are at their start.\<close>

definition sample_chunker :: chunkifier where
  "sample_chunker = chunkify_start
     \<lparr>ck_mu = of_nat MEANCHUNK, ck_p = 16777259, ck_pp = 0, ck_ar = 2, ck_cm = replicate 256 0, ck_htlen = 4096,
      ck_blen = of_nat MAXCHUNK, ck_w = 32, ck_k = 0, ck_r = 0, ck_rs = 0, ck_akr = 0, ck_yka = 0,
      ck_b = [], ck_ht = [], ck_buf = replicate MAXCHUNK 0\<rparr>"

lemma sample_chunker_ok: "tape_chunker sample_chunker" "pending sample_chunker = []" "ck_k sample_chunker = 0"
proof -
  define c where "c =
     \<lparr>ck_mu = of_nat MEANCHUNK, ck_p = 16777259, ck_pp = 0, ck_ar = 2, ck_cm = replicate 256 0, ck_htlen = 4096,
      ck_blen = of_nat MAXCHUNK, ck_w = 32, ck_k = 0, ck_r = 0, ck_rs = 0, ck_akr = 0, ck_yka = 0,
      ck_b = [], ck_ht = [], ck_buf = replicate MAXCHUNK 0\<rparr>"
  have "chunk_params c"
    by (auto simp: chunk_params_def c_def MAXCHUNK_def MEANCHUNK_def intro!: exI [of _ 12])
  from chunkify_start_inv [OF this] show "tape_chunker sample_chunker" "pending sample_chunker = []"
    by (simp_all add: tape_chunker_def sample_chunker_def c_def chunkify_start_def)
  show "ck_k sample_chunker = 0" by (simp add: sample_chunker_def chunkify_start_def)
qed

definition length_byte :: "bytes \<Rightarrow> u8" where
  "length_byte b = (if length b < 32 then of_nat (length b) else 255)"

lemma unat_length_byte: "unat (length_byte b) = (if length b < 32 then length b else 255)"
  by (simp add: length_byte_def unat_of_nat)

definition sample_crypto :: crypto where
  "sample_crypto = toy_crypto\<lparr>cr_hmac := \<lambda>key b.
     length_byte b # take 31 (b @ replicate 31 0)\<rparr>"

definition sample_deflate :: compress2 where
  "sample_deflate cap b = (if b = [] \<or> 31 < length b \<or> cap < length b then Inl (-5) else Inr b)"

definition sample_inflate :: uncompress where
  "sample_inflate n z = (if 31 < n \<or> length z < n then Inl (-5) else Inr (take n z))"

definition sample_env :: "toy_store tape_env" where
  "sample_env = \<lparr>te_cr = sample_crypto, te_hash = sample_hash, te_host = le32dec, te_compress2 = sample_deflate,
     te_start = \<lambda>m n. None, te_fexist = \<lambda>s c h. (0, s), te_wfile = toy_wfile, te_flush = \<lambda>s. (0, s),
     te_end = \<lambda>s. (0, s), te_flt = no_fault, te_srv = sample_server, te_nonce = \<lambda>log. Some (replicate 32 2),
     te_printstats = \<lambda>C. True\<rparr>"

definition sample_wstream :: wstream where
  "sample_wstream = \<lparr>ws_index = [], ws_c = Some sample_chunker\<rparr>"

definition sample_tape :: "(toy_store, unit) tape_w" where
  "sample_tape = \<lparr>tw_tapename = [104, 105], tw_machinenum = 1, tw_cachedir = Some ''c'', tw_ctime = 5,
     tw_argc = 1, tw_argv = [[45, 99]], tw_stats_enabled = False, tw_eof = False, tw_S = [],
     tw_C = sample_w\<lparr>cw_zbuflen := ZBUFLEN\<rparr>, tw_seqnum = replicate 32 1, tw_stream = \<lambda>_. sample_wstream,
     tw_c_file = Some sample_chunker, tw_c_file_in = 0, tw_c_file_out = 0, tw_mode = 2, tw_hbuf = [], tw_clen = 0,
     tw_tlen = 0, tw_callback_chunk = None, tw_callback_trailer = None, tw_cookie = (), tw_fs = empty_fs,
     tw_log = [], tw_modified = False, tw_mem = mem_ok\<rparr>"

lemma sample_tape_fields [simp]:
  "tw_S sample_tape = []" "tw_C sample_tape = sample_w\<lparr>cw_zbuflen := ZBUFLEN\<rparr>" "tw_stream sample_tape = (\<lambda>_. sample_wstream)"
  "tw_c_file sample_tape = Some sample_chunker" "tw_c_file_in sample_tape = 0" "tw_c_file_out sample_tape = 0"
  "tw_mode sample_tape = 2" "tw_hbuf sample_tape = []" "tw_clen sample_tape = 0" "tw_tlen sample_tape = 0"
  "tw_mem sample_tape = mem_ok" "tw_eof sample_tape = False" "tw_tapename sample_tape = [104, 105]"
  "tw_cachedir sample_tape = Some ''c''" "tw_fs sample_tape = empty_fs" "tw_log sample_tape = []"
  by (simp_all add: sample_tape_def)

lemma sample_hash_data:
  "chunk_hash sample_env b = Some (length_byte b # take 31 (b @ replicate 31 0))"
  "crypto_hash_data (te_cr sample_env) CRYPTO_KEY_HMAC_NAME b =
     Some (length_byte b # take 31 (b @ replicate 31 0))"
  by (simp_all add: sample_env_def sample_crypto_def toy_crypto_def crypto_hash_data_def crypto_hash_data_2_def
      crypto_hash_data_key_2_def CRYPTO_KEY_HMAC_CHUNK_def CRYPTO_KEY_HMAC_NAME_def CRYPTO_KEY_HMAC_SHA256_def)

lemma sample_env_ok:
  "env_ok sample_env map_of sample_inflate" "storage_ok sample_env map_of" "signatures_ok fail (te_cr sample_env)"
proof -
  have "hmacs_ok (te_cr sample_env)" by (simp add: hmacs_ok_def sample_env_def sample_crypto_def toy_crypto_def min_def)
  moreover have "zlib_ok (te_compress2 sample_env)"
    by (simp add: zlib_ok_def sample_env_def sample_deflate_def)
  moreover have "zlib_inverse (te_compress2 sample_env) sample_inflate"
    by (auto simp: zlib_inverse_def sample_env_def sample_deflate_def sample_inflate_def split: if_splits)
  moreover have "wfile_ok map_of (te_wfile sample_env)" using toy_wfile_ok by (simp add: sample_env_def)
  ultimately show "env_ok sample_env map_of sample_inflate" by (simp add: env_ok_def)
  show "storage_ok sample_env map_of" by (simp add: storage_ok_def sample_env_def)
  show "signatures_ok fail (te_cr sample_env)"
    using toy_crypto_ok(1) by (simp add: signatures_ok_def sample_env_def sample_crypto_def)
qed

lemma padded_inj:
  assumes "take 31 (a @ replicate 31 0) = take 31 (b @ replicate 31 (0 :: u8))" "length a = length b" "length a < 32"
  shows "a = b"
proof -
  have "take (length a) (take 31 (a @ replicate 31 0)) = take (length a) (take 31 (b @ replicate 31 0))"
    using assms(1) by simp
  then show ?thesis using assms(2,3) by simp
qed

lemma sample_collision_free: "collision_free sample_env sample_inflate F b"
  unfolding collision_free_def sample_hash_data
proof (intro allI impI)
  fix h z n b'
  assume h: "Some (length_byte b # take 31 (b @ replicate 31 0)) = Some h"
    "Some (length_byte b' # take 31 (b' @ replicate 31 0)) = Some h"
    and "sample_inflate n z = Inr b'"
  then have b': "length b' < 32" by (auto simp: sample_inflate_def split: if_splits)
  have "length_byte b # take 31 (b @ replicate 31 0) = length_byte b' # take 31 (b' @ replicate 31 0)"
    by (rule option.inject [THEN iffD1, OF trans [OF h(1) h(2) [symmetric]]])
  then have eq: "length_byte b' = length_byte b" "take 31 (b' @ replicate 31 0) = take 31 (b @ replicate 31 0)"
    by (simp_all only: list.inject)
  have "unat (length_byte b) = unat (length_byte b')" using eq(1) by (rule arg_cong [OF sym])
  then have "length b' = length b" using b' unfolding unat_length_byte by (cases "length b < 32") simp_all
  then show "b' = b" by (rule padded_inj [OF eq(2) _ b'])
qed

lemma sample_w_table [simp]: "dir_map (cw_HT sample_w) = Map.empty" "cw_S sample_w" "cw_path sample_w = Some ''c''"
  by (simp_all add: sample_w_def ht_map_def)

lemma sample_tape_inv: "tape_inv sample_env map_of sample_inflate Map.empty sample_tape []"
proof -
  have "write_inv sample_hash Map.empty [] (sample_w\<lparr>cw_zbuflen := ZBUFLEN\<rparr>)"
    using write_inv_start [OF sample_start] by (simp add: write_inv_def)
  then have "base_ok sample_env map_of sample_inflate Map.empty {#} sample_tape"
    by (auto simp: base_ok_def sample_env_def on_server_def)
  moreover have "stream_inv sample_env Map.empty sample_wstream []"
    using sample_chunker_ok by (auto simp: stream_inv_def sample_wstream_def)
  ultimately have "tape_parts_inv sample_env map_of sample_inflate Map.empty sample_tape [] [] [] []"
    using sample_chunker_ok by (auto simp: tape_parts_inv_def entry_inv_def file_inv_def sample_wstream_def intro!: exI [of _ "[]"])
  then show ?thesis by (auto simp: tape_inv_def intro!: exI [of _ "[]"])
qed

lemma mem_drop_ok [simp]: "tw_mem d = mem_ok \<Longrightarrow> mem_drop n d = d"
  by (cases d) (simp add: mem_drop_def)

lemma sample_stream_write:
  assumes "tw_stream d i = \<lparr>ws_index = x, ws_c = Some c\<rparr>" "tape_chunker c" "length (pending c) + length buf \<le> 16384"
  shows "\<exists>c'. stream_write E i buf d = Some (0, d\<lparr>tw_stream := (tw_stream d)(i := \<lparr>ws_index = x, ws_c = Some c'\<rparr>)\<rparr>) \<and>
    tape_chunker c' \<and> pending c' = pending c @ buf"
proof -
  obtain c' where "chunker_write (callback_stream E i) (Some c) buf d = Some (0, Some c', d)"
      "tape_chunker c'" "pending c' = pending c @ buf"
    using small_write [OF assms(2,3), of "callback_stream E i" d] by blast
  then show ?thesis using assms(1) by (intro exI [of _ c']) (simp add: stream_write_def put_chunker_def)
qed

text \<open>An entry with a header of one byte is written.\<close>

definition sample_written :: "chunkifier \<Rightarrow> (toy_store, unit) tape_w" where
  "sample_written c = sample_tape\<lparr>tw_stream := (\<lambda>_. sample_wstream)(Headers := \<lparr>ws_index = [], ws_c = Some c\<rparr>)\<rparr>"

lemma sample_endentry:
  "\<exists>c. endentry sample_env (sample_tape\<lparr>tw_mode := 0, tw_hbuf := [7]\<rparr>) = Some (0, sample_written c\<lparr>tw_mode := 0\<rparr>) \<and>
     tape_chunker c \<and> pending c = entry_header 1 0 0 @ [7]"
proof -
  let ?d = "sample_tape\<lparr>tw_mode := 0\<rparr>"
  have st: "tw_stream ?d Headers = \<lparr>ws_index = [], ws_c = Some sample_chunker\<rparr>" by (simp add: sample_wstream_def)
  have eh: "le32enc (of_nat 1) @ le64enc (of_int 0) @ le32enc (of_nat 0) = entry_header 1 0 0" "length (entry_header 1 0 0) = 16"
    by (simp_all add: entry_header_def)
  obtain c1 where c1: "stream_write sample_env Headers (entry_header 1 0 0) ?d =
      Some (0, ?d\<lparr>tw_stream := (\<lambda>_. sample_wstream)(Headers := \<lparr>ws_index = [], ws_c = Some c1\<rparr>)\<rparr>)"
      "tape_chunker c1" "pending c1 = entry_header 1 0 0"
    using sample_stream_write [OF st sample_chunker_ok(1), of "entry_header 1 0 0" sample_env] sample_chunker_ok(2) eh(2) by auto
  let ?d1 = "?d\<lparr>tw_stream := (\<lambda>_. sample_wstream)(Headers := \<lparr>ws_index = [], ws_c = Some c1\<rparr>)\<rparr>"
  have st1: "tw_stream ?d1 Headers = \<lparr>ws_index = [], ws_c = Some c1\<rparr>" by simp
  obtain c2 where c2: "stream_write sample_env Headers [7] ?d1 =
      Some (0, ?d1\<lparr>tw_stream := (tw_stream ?d1)(Headers := \<lparr>ws_index = [], ws_c = Some c2\<rparr>)\<rparr>)"
      "tape_chunker c2" "pending c2 = entry_header 1 0 0 @ [7]"
    using sample_stream_write [OF st1 c1(2), of "[7]" sample_env] c1(3) eh(2) by auto
  have "endentry sample_env (sample_tape\<lparr>tw_mode := 0, tw_hbuf := [7]\<rparr>) = Some (0, sample_written c2\<lparr>tw_mode := 0\<rparr>)"
  proof -
    have d: "sample_tape\<lparr>tw_mode := 0, tw_hbuf := []\<rparr> = ?d" by (simp add: sample_tape_def)
    have e: "tw_clen ?d = 0" "tw_tlen ?d = 0" by simp_all
    have "endentry sample_env (sample_tape\<lparr>tw_mode := 0, tw_hbuf := [7]\<rparr>) =
        (case stream_write sample_env Headers (entry_header 1 0 0) ?d of
           None \<Rightarrow> None
         | Some (rc, d) \<Rightarrow>
             if rc \<noteq> 0 then Some (-1, d)
             else case stream_write sample_env Headers [7] d of
                    None \<Rightarrow> None
                  | Some (rc, d) \<Rightarrow> if rc \<noteq> 0 then Some (-1, d) else Some (0, d\<lparr>tw_clen := 0, tw_tlen := 0\<rparr>))"
      using eh(1) by (simp add: endentry_def Let_def d)
    also have "\<dots> = Some (0, ?d1\<lparr>tw_stream := (tw_stream ?d1)(Headers := \<lparr>ws_index = [], ws_c = Some c2\<rparr>)\<rparr>\<lparr>tw_clen := 0, tw_tlen := 0\<rparr>)"
      unfolding c1(1) c2(1) option.case prod.case by simp
    also have "\<dots> = Some (0, sample_written c2\<lparr>tw_mode := 0\<rparr>)" by (simp add: sample_written_def sample_tape_def)
    finally show ?thesis .
  qed
  then show ?thesis using c2 by blast
qed

definition sample_block :: bytes where
  "sample_block = entry_header 1 0 0 @ [7]"

definition sample_name :: bytes where
  "sample_name = 17 # take 31 (sample_block @ replicate 31 0)"

definition sample_stored_w :: chunks_w where
  "sample_stored_w = sample_w\<lparr>cw_zbuflen := ZBUFLEN,
     cw_HT := \<lparr>ht_cursize = 4, ht_numentries = 1, ht_ht = [Some (chunk_new sample_name 17 18), None, None, None], ht_randbuf = [7]\<rparr>,
     cw_stats_total := chunks_stats_add chunks_stats_zero 17 18 1, cw_stats_unique := chunks_stats_add chunks_stats_zero 17 18 1,
     cw_stats_tape := chunks_stats_add chunks_stats_zero 17 18 1, cw_stats_new := chunks_stats_add chunks_stats_zero 17 18 1\<rparr>"

lemma sample_block_length: "length sample_block = 17"
  by (simp add: sample_block_def entry_header_def)

lemma sample_name_hash: "chunk_hash sample_env sample_block = Some sample_name" "length sample_name = 32"
  by (simp_all add: sample_hash_data sample_name_def length_byte_def sample_block_length)

lemma sample_padme: "padme 17 ZBUFLEN = 1"
proof -
  have "padme_e 17 0 = 4" "padme_s 4 1 = 3" by (simp_all add: padme_e.simps padme_s.simps drop_bit_eq_div)
  then show ?thesis by (simp add: padme_def padme_bitmask_is_mask mask_eq_exp_minus_1 ZBUFLEN_value)
qed

lemma sample_new_chunk:
  "chunks_write_chunk mem_ok sample_hash sample_deflate toy_wfile (sample_w\<lparr>cw_zbuflen := ZBUFLEN\<rparr>) sample_name sample_block [] =
     Some (18, sample_stored_w, [((CHR ''c'', sample_name), sample_block @ [0])])"
proof -
  have ne: "sample_block \<noteq> []" using sample_block_length by auto
  have z: "sample_deflate ZBUFLEN sample_block = Inr sample_block"
    using ne by (simp add: sample_deflate_def sample_block_length ZBUFLEN_value)
  have n: "cd_hash (chunk_new sample_name 17 18) = sample_name" "cd_len (chunk_new sample_name 17 18) = 17"
    using sample_name_hash(2) by (simp_all add: chunk_new_def)
  show ?thesis
    using n z ZBUFLEN_value
    by (simp add: chunks_write_chunk_def chunks_write_new_def sample_w_def CHDATA_MALLOC_def sample_stored_w_def
        rwhashtab_read_def rwhashtab_search_def rwhashtab_insert_def rwhashtab_insert_nogrow_def sample_block_length sample_padme
        replicate_4_None drop_bit_eq_div toy_wfile_def Let_def)
qed

definition sample_header :: bytes where
  "sample_header = sample_name @ le32enc 17 @ le32enc 18"

definition sample_flushed :: "chunkifier \<Rightarrow> (toy_store, unit) tape_w" where
  "sample_flushed c = sample_tape\<lparr>tw_C := sample_stored_w, tw_S := [((CHR ''c'', sample_name), sample_block @ [0])],
     tw_stream := (\<lambda>_. sample_wstream)(Headers := \<lparr>ws_index = [sample_header], ws_c = Some (chunkify_start c)\<rparr>)\<rparr>"

lemma put_chunker_same: "ws_c (tw_stream d i) = c \<Longrightarrow> put_chunker i c d = d"
  by (cases d) (auto simp: put_chunker_def)

lemma stream_end_idle:
  assumes "ws_c (tw_stream d i) = Some c" "ck_k c = 0"
  shows "stream_end E i d = Some (0, d)"
  using assms by (simp add: stream_end_def chunker_end_def chunkify_end_def put_chunker_same)

lemma file_end_idle:
  assumes "tw_c_file d = Some c" "ck_k c = 0"
  shows "file_end E d = Some (0, d)"
  using assms by (cases d) (simp add: file_end_def chunker_end_def chunkify_end_def)

lemma sample_store:
  "store_chunk sample_env sample_block (sample_written c) = Some (Inr sample_header,
     sample_written c\<lparr>tw_C := sample_stored_w, tw_S := [((CHR ''c'', sample_name), sample_block @ [0])]\<rparr>)"
proof -
  have e: "te_hash sample_env = sample_hash" "te_compress2 sample_env = sample_deflate" "te_wfile sample_env = toy_wfile"
    by (simp_all add: sample_env_def)
  have t: "tw_mem (sample_written c) = mem_ok" "tw_C (sample_written c) = sample_w\<lparr>cw_zbuflen := ZBUFLEN\<rparr>" "tw_S (sample_written c) = []"
    by (simp_all add: sample_written_def)
  show ?thesis
    using sample_name_hash sample_block_length
    by (simp add: store_chunk_def e t sample_new_chunk Let_def sample_header_def)
qed

lemma sample_flush_streams:
  assumes c: "tape_chunker c" "pending c = sample_block"
  shows "flush_streams sample_env (sample_written c) = Some (0, sample_flushed c)"
proof -
  have k: "ck_k c \<noteq> 0" using pending_length [OF c(1)] c(2) sample_block_length by auto
  have f: "file_end sample_env (sample_written c) = Some (0, sample_written c)"
    by (rule file_end_idle [OF _ sample_chunker_ok(3)]) (simp add: sample_written_def)
  have t: "stream_end sample_env i (sample_written c) = Some (0, sample_written c)" if "i \<noteq> Headers" for i
    by (rule stream_end_idle [OF _ sample_chunker_ok(3)]) (use that in \<open>simp add: sample_written_def sample_wstream_def\<close>)
  have cb: "callback_stream sample_env Headers (sample_written c) sample_block = Some (0, sample_flushed c\<lparr>tw_stream :=
      (\<lambda>_. sample_wstream)(Headers := \<lparr>ws_index = [sample_header], ws_c = Some c\<rparr>)\<rparr>)"
    by (simp add: callback_stream_def handle_chunk_def sample_store) (simp add: sample_written_def sample_flushed_def)
  have h: "stream_end sample_env Headers (sample_written c) = Some (0, sample_flushed c)"
    using k cb c(2)
    by (simp add: stream_end_def chunker_end_def chunkify_end_def on_tape_def sample_written_def put_chunker_def sample_flushed_def)
  show ?thesis by (simp add: flush_streams_def f t h)
qed

text \<open>The description takes one fragment.\<close>

lemma sample_index: "tape_index (sample_flushed c) = \<lparr>mi_hindex = sample_header, mi_cindex = [], mi_tindex = []\<rparr>"
  "length sample_header = 40" "length (metaindex_enc (tape_index (sample_flushed c))) = 52"
proof -
  show i: "tape_index (sample_flushed c) = \<lparr>mi_hindex = sample_header, mi_cindex = [], mi_tindex = []\<rparr>"
    by (simp add: tape_index_def sample_flushed_def sample_wstream_def)
  show l: "length sample_header = 40" using sample_name_hash(2) by (simp add: sample_header_def)
  show "length (metaindex_enc (tape_index (sample_flushed c))) = 52" unfolding i by (simp add: length_metaindex_enc l)
qed

lemma one_fragment:
  assumes "length buf \<le> MAXIFRAG" "buf \<noteq> []"
  shows "put_frags cr toy_wfile h buf 0 S C =
    (0, ((CHR ''i'', multitape_metaindex_fragname cr h 0), buf) # S, chunks_write_extrastats C (length buf))"
  using assms by (subst put_frags.simps, subst put_frags.simps) (simp add: toy_wfile_def Let_def frag_length_def)

definition sample_described_w :: "bytes \<Rightarrow> chunks_w" where
  "sample_described_w name = chunks_write_extrastats (chunks_write_extrastats sample_stored_w 52) (length name + 312)"

lemma sample_put:
  assumes "tw_stream d = tw_stream (sample_flushed c)" "tw_argc d = 1" "tw_argv d = [[45, 99]]"
  shows "\<exists>S1 C1 tmd S2. multitape_metaindex_put True (te_cr sample_env) toy_wfile S sample_stored_w (tape_index d) (tape_metadata d name) =
      (0, S1, C1, tmd) \<and>
    multitape_metadata_put True (te_cr sample_env) toy_wfile S1 C1 tmd = Some (0, S2, sample_described_w name)"
proof -
  have i: "tape_index d = tape_index (sample_flushed c)" using assms(1) by (simp add: tape_index_def)
  let ?buf = "metaindex_enc (tape_index (sample_flushed c))"
  have buf: "length ?buf \<le> MAXIFRAG" "?buf \<noteq> []"
    using sample_index(3) [of c] by (auto simp: MAXIFRAG_def MAXCHUNK_def)
  obtain h where h: "crypto_hash_data (te_cr sample_env) CRYPTO_KEY_HMAC_NAME name = Some h" using sample_hash_data(2) by blast
  have lens: "length (mi_hindex (tape_index (sample_flushed c))) = 40" "length (mi_cindex (tape_index (sample_flushed c))) = 0"
      "length (mi_tindex (tape_index (sample_flushed c))) = 0"
    by (simp_all add: sample_index(1) sample_index(2))
  have nm: "tm_name (tape_metadata d name) = name" by (simp add: tape_metadata_def)
  let ?m = "(tape_metadata d name)\<lparr>tm_indexhash := cr_sha256 (te_cr sample_env) ?buf, tm_indexlen := of_nat (length ?buf)\<rparr>"
  define S1 where "S1 = ((CHR ''i'', multitape_metaindex_fragname (te_cr sample_env) h 0), ?buf) # S"
  have "multitape_metaindex_put True (te_cr sample_env) toy_wfile S sample_stored_w (tape_index d) (tape_metadata d name) =
      (0, S1, chunks_write_extrastats sample_stored_w 52, ?m)"
    unfolding multitape_metaindex_put_def i nm h lens one_fragment [OF buf] Let_def S1_def sample_index(3) by simp
  moreover have "\<exists>S2. multitape_metadata_put True (te_cr sample_env) toy_wfile S1 C ?m = Some (0, S2, chunks_write_extrastats C (length name + 312))" for C
  proof -
    have sg: "cr_sign (te_cr sample_env) b = Some (replicate 256 7)" for b
      by (simp add: sample_env_def sample_crypto_def toy_crypto_def)
    have "length (cr_sha256 (te_cr sample_env) ?buf) = 32" using sample_env_ok(1) by (simp add: env_ok_def hmacs_ok_def)
    then have "length (metadata_body ?m) = length name + 56"
      using assms(2,3) by (simp add: metadata_body_def tape_metadata_def)
    moreover have "tm_argc ?m = 1" "tm_name ?m = name" using assms(2) nm by (simp_all add: tape_metadata_def)
    ultimately show ?thesis by (simp add: multitape_metadata_put_def multitape_metadata_enc_def sg h toy_wfile_def add.commute)
  qed
  ultimately show ?thesis unfolding sample_described_w_def by blast
qed

lemma sample_flush:
  assumes c: "tape_chunker c" "pending c = sample_block"
  shows "\<exists>S. flushtape sample_env (sample_written c) isapart =
    Some (0, sample_flushed c\<lparr>tw_S := S, tw_C := sample_described_w (flush_name isapart [104, 105])\<rparr>)"
proof -
  let ?d = "sample_flushed c"
  have d: "tw_mem ?d = mem_ok" "tw_C ?d = sample_stored_w" "cw_S sample_stored_w" "tw_tapename ?d = [104, 105]"
      "tw_argc ?d = 1" "tw_argv ?d = [[45, 99]]" "cw_S (sample_described_w name)" for name
    by (simp_all add: sample_flushed_def sample_stored_w_def sample_tape_def sample_described_w_def chunks_write_extrastats_def)
  obtain S1 C1 tmd S2 where put: "multitape_metaindex_put True (te_cr sample_env) toy_wfile (tw_S ?d) sample_stored_w (tape_index ?d)
      (tape_metadata ?d (flush_name isapart [104, 105])) = (0, S1, C1, tmd)"
      "multitape_metadata_put True (te_cr sample_env) toy_wfile S1 C1 tmd = Some (0, S2, sample_described_w (flush_name isapart [104, 105]))"
    using sample_put [OF refl d(5,6), of "tw_S ?d" "flush_name isapart [104, 105]"] by blast
  have e: "te_wfile sample_env = toy_wfile" "te_flush sample_env = (\<lambda>s. (0, s))" by (simp_all add: sample_env_def)
  show ?thesis
    using put d by (intro exI [of _ S2])
      (simp add: flushtape_def sample_flush_streams [OF c] tape_wfile_def e Let_def tape_storage_def)
qed

text \<open>The cache directory when the archive is closed, and the transaction.\<close>

lemma sample_fs_names [simp]: "fs_names empty_fs = Map.empty" "fs_next empty_fs = 0"
  by (simp_all add: empty_fs_def fs_names_def)

lemma sample_transaction:
  "\<exists>fs1 fs2 log2. chunks_write_checkpoint no_fault (sample_described_w name) empty_fs = Some (0, fs1) \<and>
     multitape_checkpoint no_fault sample_server (Some (replicate 32 2)) ''c'' 1 (replicate 32 1) fs1 [] = (0, fs2, log2) \<and>
     fst (multitape_cleanstate no_fault sample_server ''c'' 1 0 fs2 log2 False) = 0"
proof -
  let ?C = "sample_described_w name" and ?x = "sample_tx True"
  have p: "cw_path ?C = Some ''c''" "cw_S ?C"
    by (simp_all add: sample_described_w_def chunks_write_extrastats_def sample_stored_w_def)
  have x: "tx_cache ?x = ''c''" "tx_machine ?x = 1" by (simp_all add: sample_tx_def)
  have "fst (chunks_directory_write no_fault ''c'' (cw_HT ?C) (cw_stats_extra ?C) ''.ckpt'' empty_fs) = 0"
    by (rule chunks_directory_write_succeeds) simp
  then obtain fs1 where w: "chunks_directory_write no_fault ''c'' (cw_HT ?C) (cw_stats_extra ?C) ''.ckpt'' empty_fs = (0, fs1)"
    by (metis prod.collapse)
  have "fs_names fs1 ''c/directory.ckpt'' = Some 0" "crash_views fs1 = {fs_names fs1}" "fs_names fs1 ''c/ckpt_m'' = None"
    using chunks_directory_write_spec [OF w] by (auto simp: directory_path_def)
  then have fs1: "crash_views fs1 = {fs_names fs1}" "fs_names fs1 (ckpt_m ?x) = None" "fs_names fs1 (dir_ckpt ?x) = Some (tx_inode ?x)"
    by simp_all
  obtain rc2 fs2 log2 where run2: "multitape_checkpoint no_fault sample_server (Some (tx_nonce ?x)) (tx_cache ?x) (tx_machine ?x)
      (tx_seqnum ?x) fs1 [] = (rc2, fs2, log2)"
    by (metis prod_cases3)
  have ck: "rc2 = 0" "past_checkpoint ?x fs2 log2"
    using fresh_checkpoint_spec [OF fs1 _ _ run2] sample_server_up by simp_all
  obtain rc3 fs3 log3 m where run3: "multitape_cleanstate no_fault sample_server (tx_cache ?x) (tx_machine ?x) 0 fs2 log2 False =
      (rc3, fs3, log3, m)"
    by (metis prod_cases4)
  have "rc3 = 0"
    using cleanstate_recovers [OF past_checkpoint_recoverable [OF ck(2)] _ _ run3] sample_server_up by simp
  then show ?thesis using w p run2 run3 ck(1) x by (auto simp: chunks_write_checkpoint_def)
qed

lemma sample_close:
  assumes c: "tape_chunker c" "pending c = sample_block"
  shows "\<exists>d'. writetape_close sample_env (sample_written c) = Some (0, d') \<and> tw_stream d' = tw_stream (sample_flushed c) \<and>
    cw_HT (tw_C d') = cw_HT sample_stored_w"
proof -
  obtain S where fl: "flushtape sample_env (sample_written c) False =
      Some (0, sample_flushed c\<lparr>tw_S := S, tw_C := sample_described_w [104, 105]\<rparr>)"
    using sample_flush [OF c, of False] by (auto simp: flush_name_def)
  obtain fs1 fs2 log2 where t: "chunks_write_checkpoint no_fault (sample_described_w [104, 105]) empty_fs = Some (0, fs1)"
      "multitape_checkpoint no_fault sample_server (Some (replicate 32 2)) ''c'' 1 (replicate 32 1) fs1 [] = (0, fs2, log2)"
      "fst (multitape_cleanstate no_fault sample_server ''c'' 1 0 fs2 log2 False) = 0"
    using sample_transaction by blast
  obtain fs3 log3 m where t3: "multitape_cleanstate no_fault sample_server ''c'' 1 0 fs2 log2 False = (0, fs3, log3, m)"
    using t(3) by (metis prod_cases4 fst_conv)
  have w: "tw_mode (sample_written c) = 2" "tw_eof (sample_written c) = False" by (simp_all add: sample_written_def)
  have C: "cw_S (sample_described_w [104, 105])" "cw_HT (sample_described_w [104, 105]) = cw_HT sample_stored_w"
    by (simp_all add: sample_described_w_def chunks_write_extrastats_def sample_stored_w_def)
  have d: "tw_stats_enabled sample_tape = False" "tw_machinenum sample_tape = 1" "tw_seqnum sample_tape = replicate 32 1" "tw_modified sample_tape = False"
    by (simp_all add: sample_tape_def)
  have e: "te_flt sample_env = no_fault" "te_end sample_env = (\<lambda>s. (0, s))" "te_srv sample_env = sample_server"
      "te_nonce sample_env = (\<lambda>log. Some (replicate 32 2))"
    by (simp_all add: sample_env_def)
  show ?thesis
    using fl t t3 C
    by (simp add: writetape_close_def close_entry_def w sample_flushed_def d e tape_chunks_checkpoint_def tape_storage_def
        close_commit_def tape_checkpoint_def tape_cleanstate_def)
qed

lemma sample_run:
  "\<exists>c. tape_run sample_env sample_tape [7] (sample_written c) \<and> tape_chunker c \<and> pending c = sample_block"
proof -
  obtain c where c: "endentry sample_env (sample_tape\<lparr>tw_mode := 0, tw_hbuf := [7]\<rparr>) = Some (0, sample_written c\<lparr>tw_mode := 0\<rparr>)"
      "tape_chunker c" "pending c = entry_header 1 0 0 @ [7]"
    using sample_endentry by blast
  have "writetape_setmode sample_env sample_tape 0 = Some (0, sample_tape\<lparr>tw_mode := 0\<rparr>)"
    by (simp add: writetape_setmode_def)
  then have 1: "tape_run sample_env sample_tape [] (sample_tape\<lparr>tw_mode := 0\<rparr>)"
    using tape_run.setmode [OF tape_run.start, of 0 sample_tape sample_env] by simp
  have "writetape_write sample_env (sample_tape\<lparr>tw_mode := 0\<rparr>) [7] = Some (1, sample_tape\<lparr>tw_mode := 0, tw_hbuf := [7]\<rparr>)"
    by (simp add: writetape_write_def append_header_def)
  then have 2: "tape_run sample_env sample_tape [7] (sample_tape\<lparr>tw_mode := 0, tw_hbuf := [7]\<rparr>)"
    using tape_run.written [OF 1, of "[7]"] by simp
  have "writetape_setmode sample_env (sample_tape\<lparr>tw_mode := 0, tw_hbuf := [7]\<rparr>) 2 = Some (0, sample_written c)"
    using c(1) by (simp add: writetape_setmode_def) (simp add: sample_written_def sample_tape_def)
  then have "tape_run sample_env sample_tape [7] (sample_written c)"
    using tape_run.setmode [OF 2, of 2] by simp
  then show ?thesis using c(2,3) by (auto simp: sample_block_def)
qed

end
