(* ===== verification/Tape_Roundtrip.thy ===== *)
theory Tape_Roundtrip
  imports Tape_Sample
begin

text \<open>
  The properties of whole sessions: an archive that was closed, or stored by a checkpoint, is read
  back, and its transaction is on disk.
\<close>

subsection \<open>Opening\<close>

lemma new_chunker_ok:
  assumes "new_chunker E hmac d = Some (Some c, d')"
  shows "tape_chunker c \<and> pending c = [] \<and> d' = mem_drop 5 d"
proof -
  obtain c' where c: "chunkify_init (tw_mem d) (te_host E) hmac (of_nat MEANCHUNK) (of_nat MAXCHUNK) = Some (Some c)" "d' = mem_drop 5 d"
    using assms by (auto simp: new_chunker_def)
  have max: "unat (of_nat MAXCHUNK :: u32) \<le> 268435456" by simp
  note p = chunkify_init_params [OF c(1) max]
  obtain c0 where c0: "c = chunkify_start c0" using p(2) by blast
  have "chunk_params c0" using p(1) by (simp add: c0 chunk_params_def chunkify_start_def)
  from chunkify_start_inv [OF this] show ?thesis using p(3,4) c(2) by (simp add: c0 [symmetric] tape_chunker_def)
qed

text \<open>Four chunkers that are at their start, and nothing else.\<close>

lemma stream_init_ok:
  assumes "stream_init E hmac False i d = Some (True, d')"
  shows "\<exists>c n. tape_chunker c \<and> pending c = [] \<and>
    d' = mem_drop n (d\<lparr>tw_stream := (tw_stream d)(i := \<lparr>ws_index = [], ws_c = Some c\<rparr>)\<rparr>)"
proof -
  obtain c d1 where c: "new_chunker E hmac d = Some (Some c, d1)"
      "d' = mem_drop 1 (d1\<lparr>tw_stream := (tw_stream d1)(i := \<lparr>ws_index = [], ws_c = Some c\<rparr>)\<rparr>)"
    using assms by (auto simp: stream_init_def split: option.splits if_splits)
  note n = new_chunker_ok [OF c(1)]
  then have "d' = mem_drop 6 (d\<lparr>tw_stream := (tw_stream d)(i := \<lparr>ws_index = [], ws_c = Some c\<rparr>)\<rparr>)"
    using c(2) by (simp add: mem_drop_def add.assoc [symmetric])
  then show ?thesis using n by blast
qed

lemma open_chunkers_ok:
  assumes "open_chunkers E hmac False d = Some (Some d')"
  shows "(\<forall>i. \<exists>c. tw_stream d' i = \<lparr>ws_index = [], ws_c = Some c\<rparr> \<and> tape_chunker c \<and> pending c = []) \<and>
    (\<exists>c. tw_c_file d' = Some c \<and> tape_chunker c \<and> pending c = []) \<and>
    d' = d\<lparr>tw_stream := tw_stream d', tw_c_file := tw_c_file d', tw_mem := tw_mem d'\<rparr>"
proof -
  obtain d1 d2 d3 c4 d4 where s: "stream_init E hmac False Headers d = Some (True, d1)"
      "stream_init E hmac False Chunks d1 = Some (True, d2)" "stream_init E hmac False Trailers d2 = Some (True, d3)"
      "new_chunker E hmac (mem_drop 1 d3) = Some (Some c4, d4)" "d' = d4\<lparr>tw_c_file := Some c4\<rparr>"
    using assms by (auto simp: open_chunkers_def Let_def split: option.splits prod.splits if_splits)
  obtain c1 n1 where 1: "tape_chunker c1" "pending c1 = []"
      "d1 = mem_drop n1 (d\<lparr>tw_stream := (tw_stream d)(Headers := \<lparr>ws_index = [], ws_c = Some c1\<rparr>)\<rparr>)"
    using stream_init_ok [OF s(1)] by blast
  obtain c2 n2 where 2: "tape_chunker c2" "pending c2 = []"
      "d2 = mem_drop n2 (d1\<lparr>tw_stream := (tw_stream d1)(Chunks := \<lparr>ws_index = [], ws_c = Some c2\<rparr>)\<rparr>)"
    using stream_init_ok [OF s(2)] by blast
  obtain c3 n3 where 3: "tape_chunker c3" "pending c3 = []"
      "d3 = mem_drop n3 (d2\<lparr>tw_stream := (tw_stream d2)(Trailers := \<lparr>ws_index = [], ws_c = Some c3\<rparr>)\<rparr>)"
    using stream_init_ok [OF s(3)] by blast
  have 4: "tape_chunker c4" "pending c4 = []" "d4 = mem_drop 5 (mem_drop 1 d3)"
    using new_chunker_ok [OF s(4)] by blast+
  have st: "tw_stream d' i = \<lparr>ws_index = [], ws_c = Some (case i of Headers \<Rightarrow> c1 | Chunks \<Rightarrow> c2 | Trailers \<Rightarrow> c3)\<rparr>" for i
    by (cases i) (simp_all add: s(5) 4(3) 3(3) 2(3) 1(3) mem_drop_def)
  have "d' = d\<lparr>tw_stream := tw_stream d', tw_c_file := tw_c_file d', tw_mem := tw_mem d'\<rparr>"
    by (cases d) (simp add: s(5) 4(3) 3(3) 2(3) 1(3) mem_drop_def)
  moreover have "tw_c_file d' = Some c4" by (simp add: s(5))
  moreover have "\<exists>c. tw_stream d' i = \<lparr>ws_index = [], ws_c = Some c\<rparr> \<and> tape_chunker c \<and> pending c = []" for i
    using 1(1,2) 2(1,2) 3(1,2) unfolding st by (cases i) auto
  ultimately show ?thesis using 4(1,2) by blast
qed

text \<open>The fields that are set before the transaction starts.\<close>

definition same_start :: "('s, 'k) tape_w \<Rightarrow> ('s, 'k) tape_w \<Rightarrow> bool" where
  "same_start d d' \<longleftrightarrow>
     tw_argc d' = tw_argc d \<and> tw_argv d' = tw_argv d \<and> tw_tapename d' = tw_tapename d \<and> tw_cachedir d' = tw_cachedir d \<and>
     tw_mode d' = tw_mode d \<and> tw_eof d' = tw_eof d \<and> tw_c_file_in d' = tw_c_file_in d \<and> tw_c_file_out d' = tw_c_file_out d \<and>
     tw_hbuf d' = tw_hbuf d \<and> tw_clen d' = tw_clen d \<and> tw_tlen d' = tw_tlen d"

lemma open_transaction_start: "open_transaction E 0 d = Some (Some d') \<Longrightarrow> same_start d d'"
  by (auto simp: open_transaction_def tape_cleanstate_def same_start_def split: option.splits prod.splits if_splits)

lemma tapepresent_start: "tapepresent E d name = (rc, d') \<Longrightarrow> same_start d d' \<and> tw_C d' = tw_C d"
  by (auto simp: tapepresent_def same_start_def mem_drop_def Let_def split: if_splits prod.splits)

text \<open>A tape that \<^verbatim>\<open>writetape_open\<close> returns holds nothing.\<close>

lemma open_ok:
  assumes run: "writetape_open E hmac entropy lock 0 d0 = Some (Some d)"
    and srv: "on_server E u (files (tw_S d)) (chunk_table d)"
  shows "tape_inv E files u (chunk_table d) d [] \<and> tw_mode d = 2 \<and> \<not> tw_eof d \<and> tw_tapename d = tw_tapename d0 \<and>
    tw_argv d = tw_argv d0 \<and> tw_argc d = int (fitting_args 0 (tw_argv d0))"
proof -
  let ?e = "mem_drop 3 (d0\<lparr>tw_argc := int (fitting_args 0 (tw_argv d0)), tw_mode := 2, tw_eof := False,
       tw_c_file := None, tw_c_file_in := 0, tw_c_file_out := 0, tw_hbuf := [], tw_clen := 0, tw_tlen := 0,
       tw_callback_chunk := None, tw_callback_trailer := None\<rparr>)"
  obtain d1 C fs d2 d3 where r: "open_transaction E 0 ?e = Some (Some d1)"
      "chunks_write_start (te_flt E) (te_hash E) entropy (tw_cachedir d1) True MAXCHUNK (tw_fs d1) = Some (Some C, fs)"
      "tapepresent E (d1\<lparr>tw_C := C, tw_fs := fs\<rparr>) (tw_tapename d1) = (0, d2)"
      "tapepresent E d2 (tw_tapename d2 @ part_suffix) = (0, d3)" "open_chunkers E hmac False d3 = Some (Some d)"
    using run by (auto simp: writetape_open_def Let_def split: if_splits option.splits prod.splits)
  have C: "write_inv (te_hash E) (dir_map (cw_HT C)) [] C" "cw_S C" "cw_zbuflen C = ZBUFLEN" "cw_path C = tw_cachedir d1"
    using r(2) write_inv_start(1) [OF r(2)]
    by (auto simp: chunks_write_start_def ZBUFLEN_def split: if_splits prod.splits option.splits)
  note t2 = tapepresent_start [OF r(3)] and t3 = tapepresent_start [OF r(4)] and k = open_chunkers_ok [OF r(5)]
  have d: "d = d3\<lparr>tw_stream := tw_stream d, tw_c_file := tw_c_file d, tw_mem := tw_mem d\<rparr>" using k by blast
  obtain st cf ma where d': "d = d3\<lparr>tw_stream := st, tw_c_file := cf, tw_mem := ma\<rparr>" using d by blast
  have f: "same_start d3 d \<and> tw_C d = tw_C d3" by (simp add: d' same_start_def)
  have s: "same_start ?e d" "tw_C d = C" "tw_cachedir d = tw_cachedir d1"
    using open_transaction_start [OF r(1)] t2 t3 f by (simp_all add: same_start_def)
  have base: "base_ok E files u (chunk_table d) {#} d" using C srv by (auto simp: base_ok_def s(2,3))
  have "stream_inv E (chunk_table d) (tw_stream d i) []" for i
  proof -
    obtain c where "tw_stream d i = \<lparr>ws_index = [], ws_c = Some c\<rparr>" "tape_chunker c" "pending c = []" using k by blast
    then show ?thesis by (simp add: stream_inv_def exI [of _ "[]"])
  qed
  moreover have "ws_index (tw_stream d i) = []" for i using k by (metis wstream.select_convs(1))
  ultimately have "entry_inv E files u (chunk_table d) {#} [] [] [] d"
    using base s(1) by (auto simp: entry_inv_def same_start_def mem_drop_def intro!: exI [of _ "[]"])
  then have "tape_parts_inv E files u (chunk_table d) d [] [] [] []"
    using k s(1) by (auto simp: tape_parts_inv_def file_inv_def same_start_def mem_drop_def)
  then show ?thesis using s(1) by (auto simp: tape_inv_def same_start_def mem_drop_def intro!: exI [of _ "[]"])
qed

lemma same_heading_txn: "same_heading d0 d \<Longrightarrow> tape_txn d x = tape_txn d0 x"
  by (simp add: tape_txn_def same_heading_def)

subsection \<open>Archives that were closed\<close>

text \<open>C3: An archive that was written is read back: any session of a tape that ends with a successful
  \<^verbatim>\<open>writetape_close\<close> leaves an archive under its name (with \<^verbatim>\<open>.part\<close> if it was truncated), whose entries
  are what was written.  Opening that archive and reading it to its end gives the content of the
  session, byte for byte, or, if the storage layer can fail, an error, if no two chunks have the same hash.\<close>

theorem archive_roundtrip:
  assumes env: "env_ok E files u" "storage_ok E files" "signatures_ok fail (te_cr E)"
    and start: "tape_inv E files u m0 d0 []" and run: "tape_run E d0 content d"
    and close: "writetape_close E d = Some (0, d')" and len: "length content < SSIZE_MAX"
    and name: "name = flush_name (tw_eof d) (tw_tapename d0)" "describable d0 name" "index_names_ok E d' name"
    and r: "rfile_alloc_ok fail (files (tw_S d')) ralloc" "rfile_ok fail (files (tw_S d')) rfile"
  shows "\<exists>es bufs. tape_chunks E d' es bufs \<and> archive_bytes es = content \<and>
    ((\<forall>b\<in>set bufs. collision_free E u (files (tw_S d')) b) \<longrightarrow> reads_back fail E u ralloc rfile junk r0 name content)"
proof -
  have inv: "tape_inv E files u m0 d content" "same_heading d0 d"
    using tape_run_inv [OF run env(1,2) start] by blast+
  note c = close_ok [OF env(1,2) inv(1) close]
  have nm: "flush_name (tw_eof d) (tw_tapename d) = name" using inv(2) name(1) by (simp add: same_heading_def)
  have "describable d' name"
    using name(2) describable_same inv(2) c same_label_heading same_heading_trans by blast
  then show ?thesis using stored_reads_back [OF env(1,3) conjunct1 [OF c] len _ _ r] name(3) unfolding nm by blast
qed

text \<open>Its witness: the sample archive, closed.\<close>

lemma sample_names_ok:
  assumes "tw_stream d' = tw_stream (sample_flushed c)"
  shows "index_names_ok sample_env d' name"
proof -
  have "tape_index d' = tape_index (sample_flushed c)" using assms by (simp add: tape_index_def)
  then show ?thesis
    using sample_index(3) [of c] by (auto simp: index_names_ok_def frag_names_ok_def inj_on_def MAXIFRAG_def MAXCHUNK_def)
qed

lemma sample_rfile:
  "rfile_alloc_ok False (map_of S) (\<lambda>r. toy_rfile_alloc S)" "rfile_ok False (map_of S) (\<lambda>r. toy_rfile S)"
  by (simp_all add: rfile_alloc_ok_def toy_rfile_alloc_def rfile_ok_def toy_rfile_def)

lemma archive_roundtrip_witness:
  "\<exists>d d'. tape_run sample_env sample_tape [7] d \<and> writetape_close sample_env d = Some (0, d') \<and>
     reads_back False sample_env sample_inflate (\<lambda>r. toy_rfile_alloc (tw_S d')) (\<lambda>r. toy_rfile (tw_S d')) toy_metadata []
       [104, 105] [7]"
proof -
  obtain c where c: "tape_run sample_env sample_tape [7] (sample_written c)" "tape_chunker c" "pending c = sample_block"
    using sample_run by blast
  obtain d' where d': "writetape_close sample_env (sample_written c) = Some (0, d')" "tw_stream d' = tw_stream (sample_flushed c)"
    using sample_close [OF c(2,3)] by blast
  have n: "[104, 105] = flush_name (tw_eof (sample_written c)) (tw_tapename sample_tape)"
    by (simp add: flush_name_def sample_written_def)
  have desc: "describable sample_tape [104, 105]" by (simp add: describable_def sample_tape_def)
  have "length [7 :: u8] < SSIZE_MAX" by simp
  from archive_roundtrip [OF sample_env_ok sample_tape_inv c(1) d'(1) this n desc sample_names_ok [OF d'(2)] sample_rfile,
      of toy_metadata "[]"]
  have "reads_back False sample_env sample_inflate (\<lambda>r. toy_rfile_alloc (tw_S d')) (\<lambda>r. toy_rfile (tw_S d')) toy_metadata []
       [104, 105] [7]"
    using sample_collision_free by blast
  then show ?thesis using c(1) d'(1) by blast
qed

text \<open>C8: Closing is durable: when \<^verbatim>\<open>writetape_close\<close> returns 0, the server has committed the
  transaction of the session, and whatever a crash of the machine loses, the cache has the sequence number
  of the transaction, no marker of a checkpoint or a commit that is pending, and as its chunk directory
  the file with the chunk table of the tape.\<close>

theorem close_durable:
  assumes env: "env_ok E files u" "storage_ok E files" and start: "tape_inv E files u m0 d0 []"
    and run: "tape_run E d0 content d" and ready: "cache_ready c d0" "tokens_ok E d0"
    and close: "writetape_close E d = Some (0, d')"
  shows "\<exists>x. tape_txn d0 x \<and> transaction_complete x (tw_log d') (tw_fs d') \<and> directory_at (tw_C d') (tx_inode x) (tw_fs d')"
proof -
  have inv: "tape_inv E files u m0 d content" "same_heading d0 d" using tape_run_inv [OF run env start] by blast+
  have rd: "cache_ready c d" "tokens_ok E d" using tape_run_ready [OF run env start ready] by blast+
  show ?thesis using close_committed [OF env inv(1) rd close] unfolding same_heading_txn [OF inv(2)] .
qed

lemma sample_ready: "cache_ready ''c'' sample_tape" "tokens_ok sample_env sample_tape"
  by (simp_all add: cache_ready_def tokens_ok_def sample_env_def) (simp add: sample_tape_def)

lemma close_durable_witness:
  "\<exists>d d' x. tape_run sample_env sample_tape [7] d \<and> writetape_close sample_env d = Some (0, d') \<and>
     transaction_complete x (tw_log d') (tw_fs d')"
proof -
  obtain c where c: "tape_run sample_env sample_tape [7] (sample_written c)" "tape_chunker c" "pending c = sample_block"
    using sample_run by blast
  obtain d' where d': "writetape_close sample_env (sample_written c) = Some (0, d')"
    using sample_close [OF c(2,3)] by blast
  show ?thesis
    using close_durable [OF sample_env_ok(1,2) sample_tape_inv c(1) sample_ready d'] c(1) d' by blast
qed

subsection \<open>Checkpoints\<close>

text \<open>C5: A checkpoint can be recovered: when \<^verbatim>\<open>writetape_checkpoint\<close> returns 0, everything that was written so
  far is an archive under the name with \<^verbatim>\<open>.part\<close>, which is read back; its transaction is safe in every
  state that a crash can leave, either its checkpoint or its commit can be taken up; and the session goes on.\<close>

theorem checkpoint_roundtrip:
  assumes env: "env_ok E files u" "storage_ok E files" "signatures_ok fail (te_cr E)"
    and start: "tape_inv E files u m0 d0 []" and run: "tape_run E d0 content d"
    and ready: "cache_ready c d0" "tokens_ok E d0"
    and ckpt: "writetape_checkpoint E d = Some (0, d')" and len: "length content < SSIZE_MAX"
    and name: "name = tw_tapename d0 @ part_suffix" "describable d0 name" "index_names_ok E d' name"
    and r: "rfile_alloc_ok fail (files (tw_S d')) ralloc" "rfile_ok fail (files (tw_S d')) rfile"
  shows "tape_run E d0 content d' \<and>
    (\<exists>x. tape_txn d0 x \<and> checkpointed x (tw_log d') \<and>
       (\<forall>v\<in>crash_views (tw_fs d'). transaction_safe x (tw_log d') (tw_fs d') v)) \<and>
    (\<exists>es bufs. tape_chunks E d' es bufs \<and> archive_bytes es = content \<and>
       ((\<forall>b\<in>set bufs. collision_free E u (files (tw_S d')) b) \<longrightarrow> reads_back fail E u ralloc rfile junk r0 name content))"
proof -
  have inv: "tape_inv E files u m0 d content" "same_heading d0 d" using tape_run_inv [OF run env(1,2) start] by blast+
  have rd: "cache_ready c d" "tokens_ok E d" using tape_run_ready [OF run env(1,2) start ready] by blast+
  note k = checkpoint_ok [OF env(1,2) inv(1) ckpt]
  have nm: "tw_tapename d @ part_suffix = name" using inv(2) name(1) by (simp add: same_heading_def)
  have desc: "describable d' name" using name(2) describable_same inv(2) k same_label_heading same_heading_trans by blast
  have st: "tape_stored E files u m0 d' name content" using k nm by simp
  obtain x where x: "tape_txn d x" "past_checkpoint x (tw_fs d') (tw_log d')"
    using checkpoint_committed [OF env(1,2) inv(1) rd ckpt] by blast
  have "\<exists>x. tape_txn d0 x \<and> checkpointed x (tw_log d') \<and>
      (\<forall>v\<in>crash_views (tw_fs d'). transaction_safe x (tw_log d') (tw_fs d') v)"
  proof (intro exI conjI ballI)
    show "tape_txn d0 x" using x(1) same_heading_txn [OF inv(2)] by simp
    show "checkpointed x (tw_log d')" using x(2) committed_checkpointed by (auto simp: past_checkpoint_def)
    show "transaction_safe x (tw_log d') (tw_fs d') v" if "v \<in> crash_views (tw_fs d')" for v
      by (rule recoverable_safe [OF past_checkpoint_recoverable [OF x(2)] that])
  qed
  then show ?thesis
    using tape_run.checkpoint [OF run ckpt] stored_reads_back [OF env(1,3) st len desc name(3) r] by blast
qed


lemma sample_checkpoint:
  assumes c: "tape_chunker c" "pending c = sample_block"
  shows "\<exists>d'. writetape_checkpoint sample_env (sample_written c) = Some (0, d') \<and> tw_stream d' = tw_stream (sample_flushed c)"
proof -
  obtain name where name: "name = [104, 105] @ part_suffix" by blast
  let ?C = "sample_described_w name"
  obtain S where fl: "flushtape sample_env (sample_written c) True = Some (0, sample_flushed c\<lparr>tw_S := S, tw_C := ?C\<rparr>)"
    using sample_flush [OF c, of True] by (auto simp: flush_name_def name)
  obtain fs1 fs2 log2 where t: "chunks_write_checkpoint no_fault ?C empty_fs = Some (0, fs1)"
      "multitape_checkpoint no_fault sample_server (Some (replicate 32 2)) ''c'' 1 (replicate 32 1) fs1 [] = (0, fs2, log2)"
    using sample_transaction by blast
  have copy: "extrastats_copy 0 (sample_written c) = sample_written c"
    by (simp add: extrastats_copy_def sample_written_def chunks_write_extrastats_copy_def sample_w_def sample_tape_def)
  have C: "cw_S (chunks_write_extrastats_copy ?C 1)"
    by (simp add: sample_described_w_def chunks_write_extrastats_def sample_stored_w_def chunks_write_extrastats_copy_def)
  have d: "tw_mode (sample_written c) = 2" "tw_machinenum sample_tape = 1" "tw_seqnum sample_tape = replicate 32 1"
    by (simp_all add: sample_written_def sample_tape_def)
  have e: "te_flt sample_env = no_fault" "te_srv sample_env = sample_server" "te_nonce sample_env = (\<lambda>log. Some (replicate 32 2))"
    by (simp_all add: sample_env_def)
  let ?d = "sample_flushed c\<lparr>tw_S := S, tw_C := chunks_write_extrastats_copy ?C 1\<rparr>"
  have dir: "tape_chunks_checkpoint sample_env (sample_flushed c\<lparr>tw_S := S, tw_C := ?C\<rparr>) =
      Some (0, sample_flushed c\<lparr>tw_S := S, tw_C := ?C, tw_fs := fs1\<rparr>)"
    using t(1) by (simp add: tape_chunks_checkpoint_def sample_flushed_def e)
  have ck: "tape_checkpoint sample_env (?d\<lparr>tw_fs := fs1\<rparr>) = Some (0, ?d\<lparr>tw_fs := fs2, tw_log := log2\<rparr>)"
    using t(2) by (simp add: tape_checkpoint_def e sample_flushed_def d(2,3))
  have "extrastats_copy 1 (sample_flushed c\<lparr>tw_S := S, tw_C := ?C, tw_fs := fs1\<rparr>) = ?d\<lparr>tw_fs := fs1\<rparr>"
    by (simp add: extrastats_copy_def)
  then have "checkpoint_flush sample_env (sample_written c) = Some (0, ?d\<lparr>tw_fs := fs2, tw_log := log2\<rparr>)"
    using C by (simp add: checkpoint_flush_def d copy fl dir ck del: One_nat_def)
  then show ?thesis by (simp add: writetape_checkpoint_def d)
qed

lemma checkpoint_roundtrip_witness:
  "\<exists>d d'. tape_run sample_env sample_tape [7] d \<and> writetape_checkpoint sample_env d = Some (0, d') \<and>
     reads_back False sample_env sample_inflate (\<lambda>r. toy_rfile_alloc (tw_S d')) (\<lambda>r. toy_rfile (tw_S d')) toy_metadata []
       ([104, 105] @ part_suffix) [7]"
proof -
  obtain c where c: "tape_run sample_env sample_tape [7] (sample_written c)" "tape_chunker c" "pending c = sample_block"
    using sample_run by blast
  obtain d' where d': "writetape_checkpoint sample_env (sample_written c) = Some (0, d')" "tw_stream d' = tw_stream (sample_flushed c)"
    using sample_checkpoint [OF c(2,3)] by blast
  have n: "[104, 105] @ part_suffix = tw_tapename sample_tape @ part_suffix" by simp
  have desc: "describable sample_tape ([104, 105] @ part_suffix)" by (simp add: describable_def sample_tape_def part_suffix_def)
  have "length [7 :: u8] < SSIZE_MAX" by simp
  from checkpoint_roundtrip [OF sample_env_ok sample_tape_inv c(1) sample_ready d'(1) this n desc sample_names_ok [OF d'(2)] sample_rfile,
      of toy_metadata "[]"]
  have "reads_back False sample_env sample_inflate (\<lambda>r. toy_rfile_alloc (tw_S d')) (\<lambda>r. toy_rfile (tw_S d')) toy_metadata []
       ([104, 105] @ part_suffix) [7]"
    using sample_collision_free by blast
  then show ?thesis using c(1) d'(1) by blast
qed

subsection \<open>Header data that are lost\<close>

text \<open>C27: \<^verbatim>\<open>writetape_write\<close> does not see that the buffer of the entry header could not be enlarged: it
  returns the length of the data, as if they had been written, and the tape is as it was, with the
  same header buffer, but for its mode.\<close>

theorem header_data_lost:
  assumes "\<not> tw_mem d 0" "tw_mode d \<in> {0, 2, 3}" "\<not> tw_eof d" "length buf \<le> SSIZE_MAX"
  shows "\<exists>mode. writetape_write E d buf = Some (int (length buf), mem_drop 1 (d\<lparr>tw_mode := mode\<rparr>)) \<and>
    (mode = 0 \<longleftrightarrow> tw_mode d = 0)"
proof -
  show ?thesis
  proof (cases "tw_mode d = 0")
    case True
    then have "d\<lparr>tw_mode := 0\<rparr> = d" by (cases d) simp
    then have "mem_drop 1 (d\<lparr>tw_mode := 0\<rparr>) = mem_drop 1 d" by (rule arg_cong)
    moreover have "writetape_write E d buf = Some (int (length buf), mem_drop 1 d)"
      using assms True by (simp add: writetape_write_def append_header_def)
    ultimately show ?thesis using True by metis
  next
    case False
    then show ?thesis using assms by (intro exI [of _ 3]) (auto simp: writetape_write_def append_header_def)
  qed
qed

lemma header_data_lost_witness:
  "\<exists>d. writetape_write sample_env (sample_tape\<lparr>tw_mem := \<lambda>_. False\<rparr>) [7] = Some (1, d) \<and> tw_hbuf d = []"
  using header_data_lost [of "sample_tape\<lparr>tw_mem := \<lambda>_. False\<rparr>" "[7]" sample_env] by (auto simp: mem_drop_def)

end
