(* ===== verification/Tape_Undo.thy ===== *)
theory Tape_Undo
  imports Tape_Delete Tape_Roundtrip
begin

text \<open>
  Deleting an archive, from the cache directory to the cache directory, and the archive that was
  written and closed by a session.
\<close>

subsection \<open>The directory\<close>

text \<open>The file at the inode \<open>i\<close> holds the chunk directory with the entries of \<open>HT\<close>.\<close>

definition directory_node :: "chunkstats \<Rightarrow> 'a chunkdata_scheme rwhashtab \<Rightarrow> nat \<Rightarrow> fs \<Rightarrow> bool" where
  "directory_node st HT i fs \<longleftrightarrow> i < fs_next fs \<and>
     fs_node fs i = Some (Regular (directory_file st (live (somes (ht_ht HT)))) (directory_file st (live (somes (ht_ht HT)))))"

lemma directory_node_step: "directory_node st HT i fs \<Longrightarrow> dir_step P fs fs' \<Longrightarrow> directory_node st HT i fs'"
  unfolding directory_node_def using dir_step_node by metis

lemma directory_at_node: "directory_at C i fs = directory_node (cw_stats_extra C) (cw_HT C) i fs"
  by (simp add: directory_at_def directory_node_def Let_def)

text \<open>A transaction without a checkpoint.\<close>

definition direct_txn :: "string \<Rightarrow> u64 \<Rightarrow> bytes \<Rightarrow> nat \<Rightarrow> txn" where
  "direct_txn c machine seq i =
     \<lparr>tx_cache = c, tx_machine = machine, tx_seqnum = seq, tx_nonce = [], tx_inode = i, tx_has_ckpt = False\<rparr>"

lemma direct_txn_simps [simp]:
  "tx_cache (direct_txn c machine seq i) = c" "tx_machine (direct_txn c machine seq i) = machine"
  "tx_seqnum (direct_txn c machine seq i) = seq" "tx_inode (direct_txn c machine seq i) = i"
  "checkpointed (direct_txn c machine seq i) log"
  by (simp_all add: direct_txn_def checkpointed_def)

text \<open>From a directory that is written under the temporary name to the end.\<close>

lemma written_commit_ok:
  assumes none: "\<And>j. fs_names fs3 (directory_path c ''.tmp'') = Some j \<Longrightarrow> j < fs_next fs3"
      "fs_names fs3 (cache_name c ''ckpt_m'') = None"
    and seq: "length seq = 32" and w: "chunks_directory_write flt c HT st ''.tmp'' fs3 = (0, fs4)"
    and com: "multitape_commit flt srv c machine seq key fs4 log modified = (0, fs', log', m)"
  shows "\<exists>i. commit_complete (direct_txn c machine seq i) log' fs' \<and>
    (fs_names fs3 (directory_path c ''.ckpt'') = None \<longrightarrow> transaction_complete (direct_txn c machine seq i) log' fs') \<and>
    fs_names fs' (directory_path c []) = Some i \<and> directory_node st HT i fs'"
proof -
  obtain i where i: "fs_names fs4 (directory_path c ''.tmp'') = Some i" "crash_views fs4 = {fs_names fs4}"
      "directory_node st HT i fs4"
      "\<forall>q. q \<noteq> directory_path c ''.tmp'' \<longrightarrow> fs_names fs4 q = fs_names fs3 q"
    using chunks_directory_write_spec [OF w] none(1) unfolding Let_def directory_node_def by auto
  let ?x = "direct_txn c machine seq i"
  have free: "fs_names fs4 (ckpt_m ?x) = None" and left: "fs_names fs4 (dir_ckpt ?x) = fs_names fs3 (directory_path c ''.ckpt'')"
    using i(4) none(2) by (simp_all add: directory_path_def cache_name_def)
  have "commit_complete ?x log' fs' \<and> dir_step UNIV fs4 fs' \<and> (fs_names fs4 (dir_ckpt ?x) = None \<longrightarrow> transaction_complete ?x log' fs')"
    using fresh_commit_ok [OF i(2) _ free] i(1) seq com by simp
  then show ?thesis
    using directory_node_step [OF i(3)] fs_names_in_crash_views [of fs'] left
    by (intro exI [of _ i]) (auto simp: commit_complete_def)
qed

lemma delete_commit_ok:
  assumes none: "fs_names fs3 (directory_path c ''.tmp'') = None"
      "fs_names fs3 (cache_name c ''ckpt_m'') = None" "fs_names fs3 (directory_path c ''.ckpt'') = None"
    and C: "cdl_path C = c" and seq: "length seq = 32"
    and fin: "chunks_delete_end flt C fs3 = (0, fs4)"
    and com: "multitape_commit flt srv c machine seq key fs4 log modified = (0, fs', log', m)"
  shows "\<exists>i. transaction_complete (direct_txn c machine seq i) log' fs' \<and>
    fs_names fs' (directory_path c []) = Some i \<and> directory_node (cdl_stats_extra C) (cdl_HT C) i fs'"
proof -
  have w: "chunks_directory_write flt c (cdl_HT C) (cdl_stats_extra C) ''.tmp'' fs3 = (0, fs4)"
    using fin by (auto simp: chunks_delete_end_def C split: prod.splits if_splits)
  show ?thesis using written_commit_ok [OF _ none(2) seq w com] none(1,3) by auto
qed

text \<open>A deletion that returns 0, with the archive that it deletes.\<close>

lemma deletetape_ok:
  fixes HT :: "chunkdata rwhashtab"
  assumes last_ok: "recoverable x0 (dw_fs w) (dw_log w)" "length (tx_seqnum x0) = 32" "length (tx_nonce x0) = 32"
    and dir: "directory_node st HT (tx_inode x0) (dw_fs w)"
      "ht_inv hash cd_hash HT" "\<forall>k ch. dir_map HT k = Some ch \<longrightarrow> chunk_wf ch" "ht_numentries HT \<le> 2 ^ 48"
    and env: "delete_env_ok reqs DE" "de_flt DE = no_fault"
    and arch: "archive_described True DE junk name tmi" "archive_headers True DE tmi chs"
    and h: "crypto_hash_data (de_cr DE) CRYPTO_KEY_HMAC_NAME name = Some h"
    and run: "deletetape DE ma (Some rb) junk lock (tx_machine x0) (tx_cache x0) name ps w = Some (0, Some S, w')"
  shows "\<exists>(C :: chunks_d) vs ds ns seq i. mset vs = mset (map ch_hash chs) \<and>
    dir_inv (de_hash DE) (cdl_HT C) \<and> untally (reloaded () (dir_map HT)) vs (dir_map (cdl_HT C)) \<and>
    transaction_complete (direct_txn (tx_cache x0) (tx_machine x0) seq i) (dw_log w') (dw_fs w') \<and>
    fs_names (dw_fs w') (directory_path (tx_cache x0) []) = Some i \<and>
    directory_node (cdl_stats_extra C) (cdl_HT C) i (dw_fs w') \<and>
    distinct ds \<and> set ds = dead vs (dir_map (cdl_HT C)) \<and>
    distinct ns \<and> set ns = {n. n * MAXIFRAG < length (metaindex_enc tmi)} \<and>
    reqs S = map (Pair (CHR ''c'')) ds @ map (frag_file (de_cr DE) h) ns @ [(CHR ''m'', h)]"
proof -
  let ?c = "tx_cache x0"
  obtain fs1 log1 m1 lastseq fs2 S0 seq C0 fs3 SR C S1 fs4 m where r:
      "multitape_cleanstate (de_flt DE) (de_srv DE) ?c (tx_machine x0) 1 (dw_fs w) (dw_log w) (dw_modified w) = (0, fs1, log1, m1)"
      "multitape_sequence (de_flt DE) ?c fs1 = (Some lastseq, fs2)"
      "de_start DE (tx_machine x0) lastseq = Some (S0, seq)"
      "chunks_delete_start (de_flt DE) (de_hash DE) (Some rb) ?c fs2 = Some (Some C0, fs3)"
      "delete_files DE ma junk name (de_set_limit DE (dw_R w) (100 * chunks_delete_getdirsz C0)) C0 S0 = Some (0, SR, C, S1)"
      "chunks_delete_end (de_flt DE) C fs3 = (0, fs4)" "Some S = Some (snd (de_end DE S1))"
      "multitape_commit (de_flt DE) (de_srv DE) ?c (tx_machine x0) seq 1 fs4 log1 m1 = (0, dw_fs w', dw_log w', m)"
    using deletetape_steps [OF run] by (elim exE conjE) (rule that)
  note clean = cleanstate_recovers [OF last_ok r(1)]
  have ph: "phase_committed x0 fs1" "crash_views fs1 = {fs_names fs1}" using clean by simp_all
  have names1: "fs_names fs1 (dir_final x0) = Some (tx_inode x0)" "fs_names fs1 (dir_tmp x0) = None"
      "fs_names fs1 (ckpt_m x0) = None" "fs_names fs1 (dir_ckpt x0) = None"
    using ph by (simp_all add: phase_committed_def)
  have node1: "directory_node st HT (tx_inode x0) fs1" using directory_node_step [OF dir(1)] clean by blast
  note same2 = sequence_same_dir [OF r(2)] and s2 = same_dirD [OF sequence_same_dir [OF r(2)]]
  have pub: "published ?c [] st HT fs2"
    using names1(1) node1 ph(2) by (auto simp: published_def directory_node_def Let_def s2)
  obtain D0 fs' where d0: "chunks_delete_start no_fault (de_hash DE) (Some rb) ?c fs2 = Some (Some D0, fs')"
      "same_dir fs2 fs'" "dir_map (cdl_HT D0) = reloaded () (dir_map HT)"
    by (rule delete_start_succeeds [OF pub dir(2-4)])
  have C0: "dir_map (cdl_HT C0) = reloaded () (dir_map HT)" and same3: "same_dir fs2 fs3"
    using d0 r(4) env(2) by auto
  note s3 = same_dirD [OF same_dir_trans [OF same2 same3]]
  have inv: "delete_inv (de_hash DE) (de_dfile DE) (dir_map (cdl_HT C0)) S0 [] C0 S0"
    by (rule delete_inv_start(1) [OF r(4)])
  obtain vs ns t where v: "mset vs = mset (map ch_hash chs)" "delete_session (de_hash DE) (de_dfile DE) C0 S0 vs C t"
      "set ns = {n. n * MAXIFRAG < length (metaindex_enc tmi)}" "distinct ns"
      "reqs S1 = reqs t @ map (frag_file (de_cr DE) h) ns @ [(CHR ''m'', h)]"
    using delete_files_spec [OF env(1) arch h inv r(5)] by blast
  have dinv: "delete_inv (de_hash DE) (de_dfile DE) (dir_map (cdl_HT C0)) S0 vs C t" by (rule delete_session_inv [OF v(2) inv])
  then obtain ds where ds: "distinct ds" "set ds = dead vs (dir_map (cdl_HT C))"
      "t = fold (\<lambda>k s. snd (de_dfile DE s (CHR ''c'') k)) ds S0"
    unfolding delete_inv_def by blast
  have e: "deletes_logged reqs (de_dfile DE)" "reqs S0 = []" "length seq = 32" "reqs S = reqs S1"
    using env(1) r(3,7) by (auto simp: delete_env_ok_def)
  have "reqs t = map (Pair (CHR ''c'')) ds" using logged_chunks [OF e(1), of ds S0] by (simp add: ds(3) e(2))
  then have log: "reqs S = map (Pair (CHR ''c'')) ds @ map (frag_file (de_cr DE) h) ns @ [(CHR ''m'', h)]"
    by (simp add: e(4) v(5))
  have path: "cdl_path C = ?c" using delete_session_frame [OF v(2)] delete_start_frame [OF r(4)] by simp
  have "fs_names fs3 (dir_tmp x0) = None" "fs_names fs3 (ckpt_m x0) = None"
      "fs_names fs3 (dir_ckpt x0) = None"
    using names1 by (simp_all add: s3)
  from delete_commit_ok [OF this path e(3) r(6,8)] obtain i where
    "transaction_complete (direct_txn ?c (tx_machine x0) seq i) (dw_log w') (dw_fs w')"
    "fs_names (dw_fs w') (directory_path ?c []) = Some i" "directory_node (cdl_stats_extra C) (cdl_HT C) i (dw_fs w')"
    by blast
  moreover have "dir_inv (de_hash DE) (cdl_HT C)" "untally (reloaded () (dir_map HT)) vs (dir_map (cdl_HT C))"
    using dinv by (simp_all add: delete_inv_def C0)
  ultimately show ?thesis using v(1,3,4) ds(1,2) log
    by (intro exI [of _ C] exI [of _ vs] exI [of _ ds] exI [of _ ns] exI [of _ seq] exI [of _ i]) simp
qed

subsection \<open>The archive of a session\<close>

lemma names_chunk_length:
  "list_all2 (names_chunk E m) chs bufs \<Longrightarrow> \<forall>x\<in>set chs. length x = 40 \<and> ch_len x \<le> MAXCHUNK \<and> ch_hash x \<in> dom m"
  by (induction rule: list_all2_induct) (auto simp: names_chunk_def unat_of_nat_u32 MAXCHUNK_def)

text \<open>The headers of an archive that was stored; \<open>ibufs\<close> are the chunks of its chunk index.\<close>

lemma stored_headers:
  assumes st: "tape_stored E files u m0 d name content"
    and DE: "de_cr DE = te_cr E" "de_uncompress DE = u" "rfile_ok fail (files (tw_S d)) (de_rfile DE)"
  shows "\<exists>chs us ibufs. set (map ch_hash chs) \<subseteq> dom (chunk_table d) \<and> mset us = mset (map ch_hash chs) \<and> write_inv (te_hash E) m0 us (tw_C d) \<and>
    list_all2 (names_chunk E (chunk_table d)) (ws_index (tw_stream d Chunks)) ibufs \<and>
    ((\<forall>b\<in>set ibufs. collision_free E u (files (tw_S d)) b) \<longrightarrow> archive_headers fail DE (tape_index d) chs)"
proof -
  obtain es where es: "tape_named E files u m0 d es" using st unfolding tape_stored_def by blast
  obtain hbufs ibufs cs cbufs tbufs where n:
      "list_all2 (names_chunk E (chunk_table d)) (ws_index (tw_stream d Headers)) hbufs"
      "list_all2 (names_chunk E (chunk_table d)) (ws_index (tw_stream d Chunks)) ibufs" "concat ibufs = concat cs"
      "list_all2 (names_chunk E (chunk_table d)) cs cbufs"
      "list_all2 (names_chunk E (chunk_table d)) (ws_index (tw_stream d Trailers)) tbufs"
      "base_ok E files u m0 (tape_uses d cs) d"
    using es unfolding tape_named_def stream_done_def by (elim exE conjE) (rule that)
  obtain us where us: "mset us = tape_uses d cs" "write_inv (te_hash E) m0 us (tw_C d)"
      "on_server E u (files (tw_S d)) (chunk_table d)"
    using n(6) unfolding base_ok_def by blast
  let ?chs = "ws_index (tw_stream d Headers) @ ws_index (tw_stream d Chunks) @ cs @ ws_index (tw_stream d Trailers)"
  have "archive_headers fail DE (tape_index d) ?chs" if free: "\<forall>b\<in>set ibufs. collision_free E u (files (tw_S d)) b"
  proof -
    have "list_all2 (chunk_ok (tape_rchunk E u (de_rfile DE)) fail) (ws_index (tw_stream d Chunks)) ibufs"
      by (rule named_chunks_ok [OF us(3) DE(3) n(2) free])
    then show ?thesis
      unfolding archive_headers_def
      using names_chunk_length [OF n(1)] names_chunk_length [OF n(2)] names_chunk_length [OF n(4)] names_chunk_length [OF n(5)] n(3)
      by (intro exI [of _ "ws_index (tw_stream d Headers)"] exI [of _ "ws_index (tw_stream d Chunks)"] exI [of _ cs]
          exI [of _ "ws_index (tw_stream d Trailers)"] exI [of _ ibufs] exI [of _ tape_cookie])
        (simp add: DE tape_cookie_init tape_index_def)
  qed
  moreover have "mset us = mset (map ch_hash ?chs)" using us(1) by (simp add: ac_simps)
  moreover have "set (map ch_hash ?chs) \<subseteq> dom (chunk_table d)"
    using names_chunk_length [OF n(1)] names_chunk_length [OF n(2)] names_chunk_length [OF n(4)] names_chunk_length [OF n(5)] by auto
  ultimately show ?thesis using us(2) n(2) by blast
qed

lemma stored_described:
  assumes env: "env_ok E files u" "signatures_ok fail (te_cr E)" and st: "tape_stored E files u m0 d name content"
    and name: "describable d name" "index_names_ok E d name"
    and DE: "de_cr DE = te_cr E" "rfile_alloc_ok fail (files (tw_S d)) (de_ralloc DE)" "rfile_ok fail (files (tw_S d)) (de_rfile DE)"
  shows "archive_described fail DE junk name (tape_index d)"
  unfolding archive_described_def DE(1) using stored_description [OF env st name DE(2,3)] by blast

text \<open>The directory after the deletion.\<close>

lemma undone_directory:
  assumes m0: "directory_ok m0" "\<forall>k. refs m0 k \<noteq> - 1" and w: "write_inv hash m0 us C"
    and D: "dir_inv hash2 (cdl_HT D)" "untally (reloaded () (dir_map (cw_HT C))) vs (dir_map (cdl_HT D))"
    and same: "mset vs = mset us" and small: "ht_numentries (cw_HT C) \<le> 2 ^ 48"
    and node: "fs_names fs (directory_path c []) = Some i" "directory_node st (cdl_HT D) i fs"
  shows "\<exists>HT' fs'. chunks_directory_read no_fault hash3 (Some rb) () (Some c) mustexist fs =
      Some (Some (HT', unique_of m0, total_of m0, st), fs') \<and> dir_map HT' = m0"
    "dead vs (dir_map (cdl_HT D)) = dom (dir_map (cw_HT C)) - dom m0"
proof -
  let ?new = "dir_map (cw_HT C)" and ?fin = "dir_map (cdl_HT D)"
  have t: "tally m0 us ?new" and dir: "dir_inv hash (cw_HT C)" using w by (simp_all add: write_inv_def)
  note inverse = delete_inverts_tally [OF m0(1) t D(2) same]
  have inv: "reloaded () ?fin = m0" "dead vs ?fin = set us - dom m0" using inverse m0(2) by blast+
  have wf: "\<forall>k ch. ?fin k = Some ch \<longrightarrow> chunk_wf ch" using D(2) unfolding untally_def by blast
  have "dom ?fin \<subseteq> dom ?new" using D(2) by (auto simp: untally_def reloaded_def split: option.splits)
  moreover have "card (dom ?new) \<le> 2 ^ 48" using ht_numentries_card [OF dir] small by simp
  ultimately have "ht_numentries (cdl_HT D) \<le> 2 ^ 48" using directory_bound [OF D(1), of ?new] by simp
  from read_moved_directory [OF D(1) wf this node(1) node(2) [unfolded directory_node_def, THEN conjunct2],
      of hash3 rb "()" mustexist]
  show "\<exists>HT' fs'. chunks_directory_read no_fault hash3 (Some rb) () (Some c) mustexist fs =
      Some (Some (HT', unique_of m0, total_of m0, st), fs') \<and> dir_map HT' = m0"
    unfolding inv(1) by metis
  have "dom ?new = dom m0 \<union> set us" using t by (simp add: tally_def)
  then show "dead vs ?fin = dom ?new - dom m0" unfolding inv(2) by blast
qed

text \<open>The cache directory and the server after a session that was closed.\<close>

lemma closed_transaction:
  assumes env: "env_ok E files u" "storage_ok E files"
    and start: "tape_inv E files u m0 d0 []" and run: "tape_run E d0 content d"
    and ready: "cache_ready c d0" "tokens_ok E d0" and close: "writetape_close E d = Some (0, d')"
    and name: "name = flush_name (tw_eof d) (tw_tapename d0)" "describable d0 name"
  obtains x0 where "tx_cache x0 = c" "tx_machine x0 = tw_machinenum d0" "length (tx_seqnum x0) = 32"
    "length (tx_nonce x0) = 32" "recoverable x0 (tw_fs d') (tw_log d')"
    "directory_node (cw_stats_extra (tw_C d')) (cw_HT (tw_C d')) (tx_inode x0) (tw_fs d')"
    "tape_stored E files u m0 d' name content" "describable d' name"
    "fs_names (tw_fs d') (directory_path c ''.ckpt'') = None"
proof -
  have inv: "tape_inv E files u m0 d content" "same_heading d0 d" using tape_run_inv [OF run env(1,2) start] by blast+
  have rd: "cache_ready c d" "tokens_ok E d" using tape_run_ready [OF run env(1,2) start ready] by blast+
  note cl = close_ok [OF env(1,2) inv(1) close]
  obtain x0 where x0: "tape_txn d0 x0" "transaction_complete x0 (tw_log d') (tw_fs d')" "directory_at (tw_C d') (tx_inode x0) (tw_fs d')"
    using close_committed [OF env(1,2) inv(1) rd close] unfolding same_heading_txn [OF inv(2)] by blast
  have x: "tx_cache x0 = c" "tx_machine x0 = tw_machinenum d0" "length (tx_seqnum x0) = 32" "length (tx_nonce x0) = 32"
    using x0(1) ready(1) by (auto simp: tape_txn_def cache_ready_def)
  have rec: "recoverable x0 (tw_fs d') (tw_log d')"
    using x0(2) by (auto simp: recoverable_def phase_committed_def transaction_complete_def)
  have "flush_name (tw_eof d) (tw_tapename d) = name" using inv(2) name(1) by (simp add: same_heading_def)
  then have st: "tape_stored E files u m0 d' name content" using cl by simp
  have desc: "describable d' name" using name(2) describable_same inv(2) cl same_label_heading same_heading_trans by blast
  have "fs_names (tw_fs d') (directory_path c ''.ckpt'') = None"
    using x0(2) x(1) fs_names_in_crash_views by (auto simp: transaction_complete_def)
  then show thesis by (rule that [OF x rec x0(3) [unfolded directory_at_node] st desc])
qed

lemma closed_for_deletion:
  assumes env: "env_ok E files u" "storage_ok E files" "signatures_ok fail (te_cr E)"
    and start: "tape_inv E files u m0 d0 []" and run: "tape_run E d0 content d"
    and ready: "cache_ready c d0" "tokens_ok E d0" and close: "writetape_close E d = Some (0, d')"
    and name: "name = flush_name (tw_eof d) (tw_tapename d0)" "describable d0 name" "index_names_ok E d' name"
    and DE: "de_cr DE = te_cr E" "de_uncompress DE = u"
      "rfile_alloc_ok fail (files (tw_S d')) (de_ralloc DE)" "rfile_ok fail (files (tw_S d')) (de_rfile DE)"
  obtains x0 h chs us ibufs where "tx_cache x0 = c" "tx_machine x0 = tw_machinenum d0" "length (tx_seqnum x0) = 32"
    "length (tx_nonce x0) = 32" "recoverable x0 (tw_fs d') (tw_log d')"
    "directory_node (cw_stats_extra (tw_C d')) (cw_HT (tw_C d')) (tx_inode x0) (tw_fs d')"
    "dir_inv (te_hash E) (cw_HT (tw_C d'))" "\<forall>k ch. chunk_table d' k = Some ch \<longrightarrow> chunk_wf ch"
    "crypto_hash_data (te_cr E) CRYPTO_KEY_HMAC_NAME name = Some h" "archive_described fail DE junk name (tape_index d')"
    "set (map ch_hash chs) \<subseteq> dom (chunk_table d')" "mset us = mset (map ch_hash chs)" "write_inv (te_hash E) m0 us (tw_C d')"
    "list_all2 (names_chunk E (chunk_table d')) (ws_index (tw_stream d' Chunks)) ibufs"
    "(\<forall>b\<in>set ibufs. collision_free E u (files (tw_S d')) b) \<longrightarrow> archive_headers fail DE (tape_index d') chs"
proof -
  obtain x0 where x: "tx_cache x0 = c" "tx_machine x0 = tw_machinenum d0" "length (tx_seqnum x0) = 32"
      "length (tx_nonce x0) = 32" "recoverable x0 (tw_fs d') (tw_log d')"
      "directory_node (cw_stats_extra (tw_C d')) (cw_HT (tw_C d')) (tx_inode x0) (tw_fs d')"
    and st: "tape_stored E files u m0 d' name content" and desc: "describable d' name"
    using closed_transaction [OF env(1,2) start run ready close name(1,2)] by metis
  note described = stored_described [OF env(1,3) st desc name(3) DE(1,3,4), of junk]
  obtain h where h: "crypto_hash_data (te_cr E) CRYPTO_KEY_HMAC_NAME name = Some h"
    using stored_description [OF env(1,3) st desc name(3) DE(3,4)] by blast
  obtain chs us ibufs where chs: "set (map ch_hash chs) \<subseteq> dom (chunk_table d')" "mset us = mset (map ch_hash chs)"
      "write_inv (te_hash E) m0 us (tw_C d')"
      "list_all2 (names_chunk E (chunk_table d')) (ws_index (tw_stream d' Chunks)) ibufs"
      "(\<forall>b\<in>set ibufs. collision_free E u (files (tw_S d')) b) \<longrightarrow> archive_headers fail DE (tape_index d') chs"
    using stored_headers [OF st DE(1,2,4)] by blast
  have t: "dir_inv (te_hash E) (cw_HT (tw_C d'))" "\<forall>k ch. chunk_table d' k = Some ch \<longrightarrow> chunk_wf ch"
    using chs(3) by (auto simp: write_inv_def tally_def)
  show thesis by (rule that [OF x t h described chs])
qed

text \<open>C1: Deleting undoes archiving.  A session is written and closed, and then the archive is deleted by its
  name from the cache directory that the session left.  If \<^verbatim>\<open>deletetape\<close> returns 0, the deletion has been
  committed as a transaction of its own, and the chunk directory that is read afterwards is the one
  from before the session; and the storage layer has been asked to delete exactly the chunks that
  the session added, each once, each fragment of the index once, and the metadata.  (The storage layer may
  fail, though not when a chunk is registered with the read cache: then another value is returned.  No two chunks of the chunk index may have the same hash as another,
  and no chunk may be referenced by \<open>2 ^ 32 - 1\<close> archives.)\<close>

theorem delete_undoes_archive:
  assumes env: "env_ok E files u" "storage_ok E files" "signatures_ok True (te_cr E)"
    and start: "tape_inv E files u m0 d0 []" "directory_ok m0" "\<forall>k. refs m0 k \<noteq> - 1" and run: "tape_run E d0 content d"
    and ready: "cache_ready c d0" "tokens_ok E d0"
    and close: "writetape_close E d = Some (0, d')" and small: "ht_numentries (cw_HT (tw_C d')) \<le> 2 ^ 48"
    and name: "name = flush_name (tw_eof d) (tw_tapename d0)" "describable d0 name" "index_names_ok E d' name"
    and DE: "de_cr DE = te_cr E" "de_uncompress DE = u" "de_flt DE = no_fault" "delete_env_ok reqs DE"
      "rfile_alloc_ok True (files (tw_S d')) (de_ralloc DE)" "rfile_ok True (files (tw_S d')) (de_rfile DE)"
    and w: "dw_fs w = tw_fs d'" "dw_log w = tw_log d'"
    and del: "deletetape DE ma (Some rb) junk lock (tw_machinenum d0) c name printstats w = Some (0, Some S, w')"
  shows "\<exists>ibufs. list_all2 (names_chunk E (chunk_table d')) (ws_index (tw_stream d' Chunks)) ibufs \<and>
    ((\<forall>b\<in>set ibufs. collision_free E u (files (tw_S d')) b) \<longrightarrow>
     (\<exists>ds ns h seq i HT st fs. 
        transaction_complete (direct_txn c (tw_machinenum d0) seq i) (dw_log w') (dw_fs w') \<and>
        chunks_directory_read no_fault hash3 (Some rb3) () (Some c) mustexist (dw_fs w') =
          Some (Some (HT, unique_of m0, total_of m0, st), fs) \<and> dir_map HT = m0 \<and>
        reqs S = map (Pair (CHR ''c'')) ds @ map (frag_file (te_cr E) h) ns @ [(CHR ''m'', h)] \<and>
        distinct ds \<and> set ds = dom (chunk_table d') - dom m0 \<and>
        distinct ns \<and> set ns = {n. n * MAXIFRAG < length (metaindex_enc (tape_index d'))} \<and>
        crypto_hash_data (te_cr E) CRYPTO_KEY_HMAC_NAME name = Some h))"
proof -
  obtain x0 h chs us ibufs where x: "tx_cache x0 = c" "tx_machine x0 = tw_machinenum d0" "length (tx_seqnum x0) = 32"
      "length (tx_nonce x0) = 32" and rec: "recoverable x0 (tw_fs d') (tw_log d')"
    and node: "directory_node (cw_stats_extra (tw_C d')) (cw_HT (tw_C d')) (tx_inode x0) (tw_fs d')"
    and t: "dir_inv (te_hash E) (cw_HT (tw_C d'))" "\<forall>k ch. chunk_table d' k = Some ch \<longrightarrow> chunk_wf ch"
    and h: "crypto_hash_data (te_cr E) CRYPTO_KEY_HMAC_NAME name = Some h"
    and described: "archive_described True DE junk name (tape_index d')"
    and chs: "set (map ch_hash chs) \<subseteq> dom (chunk_table d')" "mset us = mset (map ch_hash chs)" "write_inv (te_hash E) m0 us (tw_C d')"
      "list_all2 (names_chunk E (chunk_table d')) (ws_index (tw_stream d' Chunks)) ibufs"
      "(\<forall>b\<in>set ibufs. collision_free E u (files (tw_S d')) b) \<longrightarrow> archive_headers True DE (tape_index d') chs"
    by (rule closed_for_deletion [OF env start(1) run ready close name DE(1,2,5,6)])
  show ?thesis
  proof (rule exI [of _ ibufs], rule conjI [OF chs(4)], rule impI)
    assume free: "\<forall>b\<in>set ibufs. collision_free E u (files (tw_S d')) b"
    obtain D :: chunks_d and vs ds ns seq i where r: "mset vs = mset (map ch_hash chs)" "dir_inv (de_hash DE) (cdl_HT D)"
        "untally (reloaded () (chunk_table d')) vs (dir_map (cdl_HT D))"
        "transaction_complete (direct_txn c (tw_machinenum d0) seq i) (dw_log w') (dw_fs w')"
        "fs_names (dw_fs w') (directory_path c []) = Some i" "directory_node (cdl_stats_extra D) (cdl_HT D) i (dw_fs w')"
        "distinct ds" "set ds = dead vs (dir_map (cdl_HT D))" "distinct ns"
        "set ns = {n. n * MAXIFRAG < length (metaindex_enc (tape_index d'))}"
        "reqs S = map (Pair (CHR ''c'')) ds @ map (frag_file (de_cr DE) h) ns @ [(CHR ''m'', h)]"
      using deletetape_ok [OF rec [folded w] x(3,4) node [folded w] t small DE(4,3) described mp [OF chs(5) free] h [folded DE(1)]
          del [folded x(1,2)]] unfolding x(1,2) by blast
    have same: "mset vs = mset us" using r(1) chs(2) by simp
    note u = undone_directory [OF start(2,3) chs(3) r(2,3) same small r(5,6)]
    obtain HT fs where HT: "chunks_directory_read no_fault hash3 (Some rb3) () (Some c) mustexist (dw_fs w') =
        Some (Some (HT, unique_of m0, total_of m0, cdl_stats_extra D), fs)" "dir_map HT = m0"
      using u(1) by blast
    show "\<exists>ds ns h seq i HT st fs. 
        transaction_complete (direct_txn c (tw_machinenum d0) seq i) (dw_log w') (dw_fs w') \<and>
        chunks_directory_read no_fault hash3 (Some rb3) () (Some c) mustexist (dw_fs w') =
          Some (Some (HT, unique_of m0, total_of m0, st), fs) \<and> dir_map HT = m0 \<and>
        reqs S = map (Pair (CHR ''c'')) ds @ map (frag_file (te_cr E) h) ns @ [(CHR ''m'', h)] \<and>
        distinct ds \<and> set ds = dom (chunk_table d') - dom m0 \<and>
        distinct ns \<and> set ns = {n. n * MAXIFRAG < length (metaindex_enc (tape_index d'))} \<and>
        crypto_hash_data (te_cr E) CRYPTO_KEY_HMAC_NAME name = Some h"
      using r(4,7-11) u(2) HT h
      by (intro exI [of _ ds] exI [of _ ns] exI [of _ h] exI [of _ seq] exI [of _ i] exI [of _ HT]
          exI [of _ "cdl_stats_extra D"] exI [of _ fs]) (simp add: DE(1))
  qed
qed

subsection \<open>Nothing blocks the deletion of an archive\<close>

lemma archive_described_mono: "archive_described False DE junk name tmi \<Longrightarrow> archive_described True DE junk name tmi"
  unfolding archive_described_def value_or_fail_def by (meson)

lemma archive_headers_mono: "archive_headers False DE tmi chs \<Longrightarrow> archive_headers True DE tmi chs"
proof -
  have "chunk_ok rc False i b \<Longrightarrow> chunk_ok rc True i b" for rc :: "'x rchunk" and i b unfolding chunk_ok_def by metis
  then show "archive_headers False DE tmi chs \<Longrightarrow> archive_headers True DE tmi chs"
    unfolding archive_headers_def using list.rel_mono_strong by (metis (no_types, lifting))
qed

lemma deletetape_progress:
  fixes HT :: "chunkdata rwhashtab"
  assumes last_ok: "recoverable x0 (dw_fs w) (dw_log w)" "length (tx_seqnum x0) = 32" "length (tx_nonce x0) = 32"
    and dir: "directory_node st HT (tx_inode x0) (dw_fs w)"
      "ht_inv hash cd_hash HT" "\<forall>k ch. dir_map HT k = Some ch \<longrightarrow> chunk_wf ch" "ht_numentries HT \<le> 2 ^ 48"
    and env: "delete_env_ok reqs DE" "delete_env_up DE"
    and arch: "archive_described False DE junk name tmi" "archive_headers False DE tmi chs"
    and h: "crypto_hash_data (de_cr DE) CRYPTO_KEY_HMAC_NAME name = Some h"
    and V: "set (map ch_hash chs) \<subseteq> dom (reloaded () (dir_map HT))"
  shows "\<exists>S w'. deletetape DE (\<lambda>_. mem_ok) (Some rb) junk True (tx_machine x0) (tx_cache x0) name ps w = Some (0, Some S, w')"
proof -
  let ?c = "tx_cache x0" and ?m = "tx_machine x0"
  have flt: "de_flt DE = no_fault" and srv: "server_up (de_srv DE)" using env(2) by (simp_all add: delete_env_up_def)
  obtain rc1 fs1 log1 m1 where r1: "multitape_cleanstate no_fault (de_srv DE) ?c ?m 1 (dw_fs w) (dw_log w) (dw_modified w) =
      (rc1, fs1, log1, m1)" by (metis prod_cases4)
  note clean = cleanstate_recovers [OF last_ok r1]
  have rc1: "rc1 = 0" using clean srv by blast
  then have ph: "phase_committed x0 fs1" "fs_names fs1 (commit_m x0) = None" "crash_views fs1 = {fs_names fs1}" using clean by simp_all
  have names1: "fs_names fs1 (dir_final x0) = Some (tx_inode x0)" "fs_names fs1 (dir_tmp x0) = None"
      "fs_names fs1 (ckpt_m x0) = None" "fs_names fs1 (dir_ckpt x0) = None" "marker fs1 (fs_names fs1) (cseq x0) (tx_seqnum x0)"
    using ph by (simp_all add: phase_committed_def)
  have node1: "directory_node st HT (tx_inode x0) fs1" using directory_node_step [OF dir(1)] clean by blast
  obtain fs2 where r2: "multitape_sequence no_fault ?c fs1 = (Some (tx_seqnum x0), fs2)"
    using sequence_succeeds [OF names1(5) last_ok(2)] by blast
  note same2 = sequence_same_dir [OF r2] and s2 = same_dirD [OF sequence_same_dir [OF r2]]
  obtain S0 seq where r3: "de_start DE ?m (tx_seqnum x0) = Some (S0, seq)" using env(2) unfolding delete_env_up_def by (metis option.exhaust surj_pair)
  have seq: "length seq = 32" using env(1) r3 by (auto simp: delete_env_ok_def)
  have pub: "published ?c [] st HT fs2"
    using names1(1) node1 ph(3) by (auto simp: published_def directory_node_def Let_def s2)
  obtain C0 fs3 where r4: "chunks_delete_start no_fault (de_hash DE) (Some rb) ?c fs2 = Some (Some C0, fs3)"
      "same_dir fs2 fs3" "dir_map (cdl_HT C0) = reloaded () (dir_map HT)"
    by (rule delete_start_succeeds [OF pub dir(2-4)])
  note s3 = same_dirD [OF same_dir_trans [OF same2 r4(2)]]
  have inv: "delete_inv (de_hash DE) (de_dfile DE) (dir_map (cdl_HT C0)) S0 [] C0 S0" by (rule delete_inv_start(1) [OF r4(1)])
  obtain SR C S where r5: "delete_files DE (\<lambda>_. mem_ok) junk name (de_set_limit DE (dw_R w) (100 * chunks_delete_getdirsz C0)) C0 S0 =
      Some (0, SR, C, S)"
    using delete_files_progress [OF env(2) arch h inv] V r4(3) by metis
  obtain vs t where "delete_session (de_hash DE) (de_dfile DE) C0 S0 vs C t"
    using delete_files_spec [OF env(1) archive_described_mono [OF arch(1)] archive_headers_mono [OF arch(2)] h inv r5] by blast
  then have path: "cdl_path C = ?c" using delete_session_frame delete_start_frame [OF r4(1)] by metis
  have none3: "fs_names fs3 (directory_path ?c ''.tmp'') = None" using names1(2) by (simp add: s3)
  obtain fs4 where w4: "chunks_directory_write no_fault ?c (cdl_HT C) (cdl_stats_extra C) ''.tmp'' fs3 = (0, fs4)"
      "\<And>q. q \<noteq> directory_path ?c ''.tmp'' \<Longrightarrow> fs_names fs4 q = fs_names fs3 q"
    by (rule publish_succeeds [OF none3, of "cdl_HT C" "cdl_stats_extra C"], rule that)
  then have r6: "chunks_delete_end no_fault C fs3 = (0, fs4)" by (simp add: chunks_delete_end_def path)
  obtain S' where r7: "de_end DE S = (0, S')" using env(2) unfolding delete_env_up_def by (metis prod.collapse)
  obtain i where i: "fs_names fs4 (directory_path ?c ''.tmp'') = Some i" "crash_views fs4 = {fs_names fs4}"
    using chunks_directory_write_spec [OF w4(1)] unfolding Let_def by blast
  let ?x = "direct_txn ?c ?m seq i"
  have free: "fs_names fs4 (commit_m ?x) = None"
    using ph(2) w4(2) by (simp_all add: s3 directory_path_def cache_name_def)
  have "fst (multitape_commit no_fault (de_srv DE) ?c ?m seq 1 fs4 log1 m1) = 0"
    using fresh_commit_succeeds [OF i(2) _ free _ srv, of 1 log1 m1] i(1) seq by simp
  then obtain fs5 log5 m5 where r8: "multitape_commit no_fault (de_srv DE) ?c ?m seq 1 fs4 log1 m1 = (0, fs5, log5, m5)"
    by (metis prod_cases4 fst_conv)
  have stats: "de_printstats DE C" using env(2) by (simp add: delete_env_up_def)
  show ?thesis
    using r1 rc1 r2 r3 r4(1) r5 r6 r7 r8 stats by (simp add: deletetape_def flt Let_def)
qed

lemma deletion_succeeds:
  assumes env: "env_ok E files u" "storage_ok E files" "signatures_ok False (te_cr E)"
    and start: "tape_inv E files u m0 d0 []" "directory_ok m0" "\<forall>k. refs m0 k \<noteq> - 1" and run: "tape_run E d0 content d"
    and ready: "cache_ready c d0" "tokens_ok E d0"
    and close: "writetape_close E d = Some (0, d')" and small: "ht_numentries (cw_HT (tw_C d')) \<le> 2 ^ 48"
    and name: "name = flush_name (tw_eof d) (tw_tapename d0)" "describable d0 name" "index_names_ok E d' name"
    and DE: "de_cr DE = te_cr E" "de_uncompress DE = u" "delete_env_ok reqs DE" "delete_env_up DE"
      "rfile_alloc_ok False (files (tw_S d')) (de_ralloc DE)" "rfile_ok False (files (tw_S d')) (de_rfile DE)"
    and w: "dw_fs w = tw_fs d'" "dw_log w = tw_log d'"
  shows "\<exists>ibufs. list_all2 (names_chunk E (chunk_table d')) (ws_index (tw_stream d' Chunks)) ibufs \<and>
    ((\<forall>b\<in>set ibufs. collision_free E u (files (tw_S d')) b) \<longrightarrow>
     (\<exists>S w'. deletetape DE (\<lambda>_. mem_ok) (Some rb) junk True (tw_machinenum d0) c name printstats w = Some (0, Some S, w')))"
proof -
  obtain x0 h chs us ibufs where x: "tx_cache x0 = c" "tx_machine x0 = tw_machinenum d0" "length (tx_seqnum x0) = 32"
      "length (tx_nonce x0) = 32" and rec: "recoverable x0 (tw_fs d') (tw_log d')"
    and node: "directory_node (cw_stats_extra (tw_C d')) (cw_HT (tw_C d')) (tx_inode x0) (tw_fs d')"
    and t: "dir_inv (te_hash E) (cw_HT (tw_C d'))" "\<forall>k ch. chunk_table d' k = Some ch \<longrightarrow> chunk_wf ch"
    and h: "crypto_hash_data (te_cr E) CRYPTO_KEY_HMAC_NAME name = Some h"
    and described: "archive_described False DE junk name (tape_index d')"
    and chs: "set (map ch_hash chs) \<subseteq> dom (chunk_table d')" "mset us = mset (map ch_hash chs)" "write_inv (te_hash E) m0 us (tw_C d')"
      "list_all2 (names_chunk E (chunk_table d')) (ws_index (tw_stream d' Chunks)) ibufs"
      "(\<forall>b\<in>set ibufs. collision_free E u (files (tw_S d')) b) \<longrightarrow> archive_headers False DE (tape_index d') chs"
    by (rule closed_for_deletion [OF env start(1) run ready close name DE(1,2,5,6)])
  have "tally m0 us (chunk_table d')" using chs(3) by (simp add: write_inv_def)
  from reloaded_ok(3) [OF this start(2)] have V: "set (map ch_hash chs) \<subseteq> dom (reloaded () (chunk_table d'))"
    using start(3) chs(1) by simp
  have "\<exists>S w'. deletetape DE (\<lambda>_. mem_ok) (Some rb) junk True (tw_machinenum d0) c name printstats w = Some (0, Some S, w')"
    if free: "\<forall>b\<in>set ibufs. collision_free E u (files (tw_S d')) b"
    using deletetape_progress [OF rec [folded w] x(3,4) node [folded w] t small DE(3,4) described mp [OF chs(5) free]
        h [folded DE(1)] V] unfolding x(1,2) .
  then show ?thesis using chs(4) by blast
qed

text \<open>C6: An archive that was written and closed can be deleted: when no call of the operating system fails, the
  storage layer and the server answer, and files are read back as they were stored, \<^verbatim>\<open>deletetape\<close> with the
  name of the archive returns 0.\<close>

theorem delete_succeeds:
  assumes env: "env_ok E files u" "storage_ok E files" "signatures_ok False (te_cr E)"
    and start: "tape_inv E files u m0 d0 []" "directory_ok m0" "\<forall>k. refs m0 k \<noteq> - 1" and run: "tape_run E d0 content d"
    and ready: "cache_ready c d0" "tokens_ok E d0"
    and close: "writetape_close E d = Some (0, d')" and small: "ht_numentries (cw_HT (tw_C d')) \<le> 2 ^ 48"
    and name: "name = flush_name (tw_eof d) (tw_tapename d0)" "describable d0 name" "index_names_ok E d' name"
    and DE: "de_cr DE = te_cr E" "de_uncompress DE = u" "delete_env_ok reqs DE" "delete_env_up DE"
      "rfile_alloc_ok False (files (tw_S d')) (de_ralloc DE)" "rfile_ok False (files (tw_S d')) (de_rfile DE)"
    and w: "dw_fs w = tw_fs d'" "dw_log w = tw_log d'"
  shows "\<exists>ibufs. list_all2 (names_chunk E (chunk_table d')) (ws_index (tw_stream d' Chunks)) ibufs \<and>
    ((\<forall>b\<in>set ibufs. collision_free E u (files (tw_S d')) b) \<longrightarrow>
     (\<exists>S w'. deletetape DE (\<lambda>_. mem_ok) (Some rb) junk True (tw_machinenum d0) c name printstats w = Some (0, Some S, w')))"
  by (rule deletion_succeeds [OF assms])

subsection \<open>The sample archive\<close>

text \<open>The storage layer for the deletion: files are read from \<open>F\<close>, the cookie of the deletion is its log.\<close>

definition sample_delete_env :: "toy_store \<Rightarrow> (toy_store, (char \<times> bytes) list) delete_env" where
  "sample_delete_env F = \<lparr>de_cr = sample_crypto, de_hash = sample_hash, de_ralloc = \<lambda>r. toy_rfile_alloc F,
     de_rfile = \<lambda>r. toy_rfile F, de_addcache = \<lambda>r c h. (0, r), de_uncompress = sample_inflate, de_set_limit = \<lambda>r n. r,
     de_start = \<lambda>m n. Some ([], replicate 32 3), de_dfile = \<lambda>s c h. (0, s @ [(c, h)]), de_flush = \<lambda>s. (0, s), de_end = \<lambda>s. (0, s),
     de_flt = no_fault, de_srv = sample_server, de_printstats = \<lambda>C. True\<rparr>"

lemma sample_delete_simps:
  "de_cr (sample_delete_env F) = te_cr sample_env" "de_uncompress (sample_delete_env F) = sample_inflate"
  "de_flt (sample_delete_env F) = no_fault" "de_ralloc (sample_delete_env F) = (\<lambda>r. toy_rfile_alloc F)"
  "de_rfile (sample_delete_env F) = (\<lambda>r. toy_rfile F)"
  by (simp_all add: sample_delete_env_def sample_env_def)

lemma sample_delete_env_ok:
  "delete_env_ok (\<lambda>s. s) (sample_delete_env F)" "delete_env_up (sample_delete_env F)"
  using sample_server_up
  by (simp_all add: delete_env_ok_def delete_env_up_def sample_delete_env_def deletes_logged_def toy_rfile_def split: option.splits)

text \<open>The sample archive, deleted.\<close>

definition sample_delete_world :: "(toy_store, unit) tape_w \<Rightarrow> toy_store delete_world" where
  "sample_delete_world d = \<lparr>dw_R = [], dw_fs = tw_fs d, dw_log = tw_log d, dw_modified = False\<rparr>"

lemma sample_closed:
  obtains c d' where "tape_run sample_env sample_tape [7] (sample_written c)"
    "writetape_close sample_env (sample_written c) = Some (0, d')" "ht_numentries (cw_HT (tw_C d')) \<le> 2 ^ 48"
    "[104, 105] = flush_name (tw_eof (sample_written c)) (tw_tapename sample_tape)" "describable sample_tape [104, 105]"
    "index_names_ok sample_env d' [104, 105]"
proof -
  obtain c where c: "tape_run sample_env sample_tape [7] (sample_written c)" "tape_chunker c" "pending c = sample_block"
    using sample_run by blast
  obtain d' where d': "writetape_close sample_env (sample_written c) = Some (0, d')" "tw_stream d' = tw_stream (sample_flushed c)"
      "cw_HT (tw_C d') = cw_HT sample_stored_w"
    using sample_close [OF c(2,3)] by blast
  have small: "ht_numentries (cw_HT (tw_C d')) \<le> 2 ^ 48" by (simp add: d'(3) sample_stored_w_def)
  have n: "[104, 105] = flush_name (tw_eof (sample_written c)) (tw_tapename sample_tape)"
    by (simp add: flush_name_def sample_written_def)
  have desc: "describable sample_tape [104, 105]" by (simp add: describable_def sample_tape_def)
  show thesis by (rule that [OF c(1) d'(1) small n desc sample_names_ok [OF d'(2)]])
qed

lemma sample_no_archives: "directory_ok Map.empty" "\<forall>k. refs Map.empty k \<noteq> - 1"
  by (simp_all add: directory_ok_def refs_def)

lemma sample_machine: "tw_machinenum sample_tape = 1" by (simp add: sample_tape_def)

lemma sample_reads:
  "rfile_alloc_ok fail (map_of F) (de_ralloc (sample_delete_env F))" "rfile_ok fail (map_of F) (de_rfile (sample_delete_env F))"
  by (simp_all add: sample_delete_simps rfile_alloc_ok_def toy_rfile_alloc_def rfile_ok_def toy_rfile_def)

lemma sample_deletion:
  assumes "tape_run sample_env sample_tape [7] (sample_written c)"
    "writetape_close sample_env (sample_written c) = Some (0, d')" "ht_numentries (cw_HT (tw_C d')) \<le> 2 ^ 48"
    "[104, 105] = flush_name (tw_eof (sample_written c)) (tw_tapename sample_tape)" "describable sample_tape [104, 105]"
    "index_names_ok sample_env d' [104, 105]"
  shows "\<exists>S w'. deletetape (sample_delete_env (tw_S d')) (\<lambda>_. mem_ok) (Some [7]) toy_metadata True 1 ''c'' [104, 105] True
    (sample_delete_world d') = Some (0, Some S, w')"
  using deletion_succeeds [OF sample_env_ok sample_tape_inv sample_no_archives assms(1) sample_ready assms(2-6) sample_delete_simps(1,2)
      sample_delete_env_ok sample_reads, of "sample_delete_world d'" "[7]" toy_metadata True] sample_collision_free
  by (auto simp: sample_delete_world_def sample_machine)

lemma delete_succeeds_witness:
  "\<exists>d d' S w'. tape_run sample_env sample_tape [7] d \<and> writetape_close sample_env d = Some (0, d') \<and>
     deletetape (sample_delete_env (tw_S d')) (\<lambda>_. mem_ok) (Some [7]) toy_metadata True 1 ''c'' [104, 105] True
       (sample_delete_world d') = Some (0, Some S, w')"
proof -
  obtain c d' where c: "tape_run sample_env sample_tape [7] (sample_written c)"
      "writetape_close sample_env (sample_written c) = Some (0, d')" "ht_numentries (cw_HT (tw_C d')) \<le> 2 ^ 48"
      "[104, 105] = flush_name (tw_eof (sample_written c)) (tw_tapename sample_tape)" "describable sample_tape [104, 105]"
      "index_names_ok sample_env d' [104, 105]"
    by (rule sample_closed)
  have "\<exists>S w'. deletetape (sample_delete_env (tw_S d')) (\<lambda>_. mem_ok) (Some [7]) toy_metadata True 1 ''c'' [104, 105] True
      (sample_delete_world d') = Some (0, Some S, w')"
    using delete_succeeds [OF sample_env_ok sample_tape_inv sample_no_archives c(1) sample_ready c(2-6) sample_delete_simps(1,2)
        sample_delete_env_ok sample_reads, of "sample_delete_world d'" "[7]" toy_metadata True] sample_collision_free
    by (auto simp: sample_delete_world_def sample_machine)
  then show ?thesis using c(1,2) by blast
qed

lemma delete_undoes_archive_witness:
  "\<exists>d d' S w' HT uniq all st fs. tape_run sample_env sample_tape [7] d \<and> writetape_close sample_env d = Some (0, d') \<and>
     deletetape (sample_delete_env (tw_S d')) (\<lambda>_. mem_ok) (Some [7]) toy_metadata True 1 ''c'' [104, 105] True
       (sample_delete_world d') = Some (0, Some S, w') \<and>
     chunks_directory_read no_fault sample_hash (Some [7]) () (Some ''c'') True (dw_fs w') = Some (Some (HT, uniq, all, st), fs) \<and>
     dir_map HT = Map.empty"
proof -
  obtain c d' where c: "tape_run sample_env sample_tape [7] (sample_written c)"
      "writetape_close sample_env (sample_written c) = Some (0, d')" "ht_numentries (cw_HT (tw_C d')) \<le> 2 ^ 48"
      "[104, 105] = flush_name (tw_eof (sample_written c)) (tw_tapename sample_tape)" "describable sample_tape [104, 105]"
      "index_names_ok sample_env d' [104, 105]"
    by (rule sample_closed)
  obtain S w' where del: "deletetape (sample_delete_env (tw_S d')) (\<lambda>_. mem_ok) (Some [7]) toy_metadata True 1 ''c'' [104, 105] True
      (sample_delete_world d') = Some (0, Some S, w')"
    using sample_deletion [OF c] by blast
  have w: "dw_fs (sample_delete_world d') = tw_fs d'" "dw_log (sample_delete_world d') = tw_log d'"
    by (simp_all add: sample_delete_world_def)
  obtain HT uniq all st fs where "chunks_directory_read no_fault sample_hash (Some [7]) () (Some ''c'') True (dw_fs w') =
      Some (Some (HT, uniq, all, st), fs)" "dir_map HT = Map.empty"
    using delete_undoes_archive [OF sample_env_ok sample_tape_inv sample_no_archives c(1) sample_ready c(2-6) sample_delete_simps(1-3)
        sample_delete_env_ok(1) sample_reads w del [folded sample_machine], of sample_hash "[7]" True] sample_collision_free
    by blast
  then show ?thesis using c(1,2) del by blast
qed

end
