(* ===== verification/Tape_Fsck.thy ===== *)
theory Tape_Fsck
  imports Tape_Undo
begin

text \<open>
  \<^verbatim>\<open>tar/multitape/multitape_fsck.c\<close>: the archives, their indexes and their chunks on the server are
  made consistent, and the chunk directory is rebuilt from them.  The keys, zlib and the storage layer
  are the record \<open>fsck_env\<close>; \<open>fe_list\<close> is \<^verbatim>\<open>storage_directory_read\<close>, which a run calls once for each
  class of files.  \<open>ma\<close> are the allocations: of the run, and of each archive.
\<close>

record ('r, 's) fsck_env =
  fe_cr :: crypto
  fe_hash :: "bytes \<Rightarrow> bytes"                          \<comment> \<open>the keyed hash of the chunk table\<close>
  fe_entropy :: "bytes option"                       \<comment> \<open>for the key of the chunk table\<close>
  fe_list :: "u64 \<Rightarrow> char \<Rightarrow> int \<Rightarrow> bytes list option"
  fe_init :: "u64 \<Rightarrow> 'r option"                        \<comment> \<open>\<^verbatim>\<open>storage_read_init\<close>\<close>
  fe_ralloc :: "'r rfile_alloc"
  fe_rfile :: "'r rfile"
  fe_addcache :: "'r addcache"
  fe_set_limit :: "'r \<Rightarrow> nat \<Rightarrow> 'r"
  fe_uncompress :: uncompress
  fe_start :: "u64 \<Rightarrow> bool \<Rightarrow> u8 \<Rightarrow> ('s \<times> bytes) option"  \<comment> \<open>\<^verbatim>\<open>storage_fsck_start\<close>: cookie, sequence number\<close>
  fe_dfile :: "'s dfile"
  fe_end :: "'s \<Rightarrow> int \<times> 's"                            \<comment> \<open>\<^verbatim>\<open>storage_delete_end\<close>\<close>
  fe_flt :: fault
  fe_srv :: storage

record fsck_world =
  fw_fs :: fs
  fw_log :: storage_log
  fw_modified :: bool

subsection \<open>Binary search\<close>

fun memcmp :: "bytes \<Rightarrow> bytes \<Rightarrow> int" where
  "memcmp (a # as) (b # bs) = (if a = b then memcmp as bs else if a < b then -1 else 1)"
| "memcmp _ _ = 0"

function findinlist :: "bytes \<Rightarrow> bytes list \<Rightarrow> nat \<Rightarrow> nat" where
  "findinlist file flist nfiles =
     (if nfiles = 0 then nfiles
      else if nfiles = 1 then (if memcmp file (flist ! 0) \<noteq> 0 then nfiles else 0)
      else let midpoint = nfiles div 2; cmp = memcmp file (flist ! midpoint) in
        if cmp < 0
        then let rc = findinlist file flist midpoint in if rc = midpoint then nfiles else rc
        else if cmp = 0 then midpoint
        else let rc = findinlist file (drop (midpoint + 1) flist) (nfiles - (midpoint + 1)) in
          if rc = nfiles - (midpoint + 1) then nfiles else rc + (midpoint + 1))"
  by auto
termination by (relation "measure (\<lambda>(file, flist, nfiles). nfiles)") auto

declare findinlist.simps [simp del]

subsection \<open>Archives\<close>

text \<open>The callback works on the statistics cookie; \<^const>\<open>None\<close> is a call that did not return.\<close>

definition callback_chunkref :: "(bytes \<Rightarrow> bytes) \<Rightarrow> chunks_s option \<Rightarrow> bytes \<Rightarrow> int \<times> chunks_s option" where
  "callback_chunkref hash C ch =
     (case C of
        None \<Rightarrow> (-1, None)
      | Some C \<Rightarrow>
          (case chunks_stats_addchunk hash C (ch_hash ch) (ch_len ch) (ch_zlen ch) of
             None \<Rightarrow> (-1, None)
           | Some (rc, C) \<Rightarrow> (rc, Some C)))"

function delete_index_frags :: "crypto \<Rightarrow> 's dfile \<Rightarrow> bytes \<Rightarrow> nat \<Rightarrow> nat \<Rightarrow> 's \<Rightarrow> int \<times> 's" where
  "delete_index_frags cr dfile hbuf indexlen fragnum SD =
     (if fragnum * MAXIFRAG < indexlen
      then case dfile SD (CHR ''i'') (multitape_metaindex_fragname cr hbuf (of_nat fragnum)) of (rc, SD) \<Rightarrow>
        if rc \<noteq> 0 then (-1, SD) else delete_index_frags cr dfile hbuf indexlen (fragnum + 1) SD
      else (0, SD))"
  by auto
termination
  by (relation "measure (\<lambda>(cr, dfile, hbuf, indexlen, fragnum, SD). indexlen - fragnum * MAXIFRAG)") (auto simp: MAXIFRAG_def MAXCHUNK_def)

declare delete_index_frags.simps [simp del]

definition deletearchive :: "crypto \<Rightarrow> 's dfile \<Rightarrow> 's \<Rightarrow> tapemetadata \<Rightarrow> int \<times> 's" where
  "deletearchive cr dfile SD tmd =
     (case crypto_hash_data cr CRYPTO_KEY_HMAC_NAME (tm_name tmd) of
        None \<Rightarrow> (-1, SD)
      | Some hbuf \<Rightarrow>
          (case delete_index_frags cr dfile hbuf (unat (tm_indexlen tmd)) 0 SD of (rc, SD) \<Rightarrow>
             if rc \<noteq> 0 then (-1, SD)
             else case dfile SD (CHR ''m'') hbuf of (rc, SD) \<Rightarrow> if rc \<noteq> 0 then (-1, SD) else (0, SD)))"

subsection \<open>Phase 1: metadata\<close>

text \<open>\<open>mdats\<close> are the metadata read so far.\<close>

fun phase1_files :: "mem \<Rightarrow> (nat \<Rightarrow> mem) \<Rightarrow> crypto \<Rightarrow> 'r rfile_alloc \<Rightarrow> 's dfile \<Rightarrow> tapemetadata \<Rightarrow> nat \<Rightarrow> bytes list
    \<Rightarrow> 's \<Rightarrow> 'r \<Rightarrow> tapemetadata list \<Rightarrow> int \<times> 's \<times> 'r \<times> tapemetadata list" where
  "phase1_files ma mget cr ralloc dfile junk file [] SD SR mdats = (0, SD, SR, mdats)"
| "phase1_files ma mget cr ralloc dfile junk file (h # flist) SD SR mdats =
     (if \<not> ma file then (-1, SD, SR, mdats)
      else case multitape_metadata_get_byhash (mget file) cr ralloc SR None junk h of
             (Inr mdat, SR, _) \<Rightarrow>
               phase1_files ma mget cr ralloc dfile junk (Suc file) flist SD SR (mdats @ [mdat])
           | (Inl rc, SR, _) \<Rightarrow>
               if rc = -1 \<or> rc = 1 then (-1, SD, SR, mdats)
               else if rc = 2
               then case dfile SD (CHR ''m'') h of (rc, SD) \<Rightarrow>
                 if rc \<noteq> 0 then (-1, SD, SR, mdats)
                 else phase1_files ma mget cr ralloc dfile junk (Suc file) flist SD SR mdats
               else phase1_files ma mget cr ralloc dfile junk (Suc file) flist SD SR mdats)"

definition phase1 :: "mem \<Rightarrow> mem \<Rightarrow> (nat \<Rightarrow> mem) \<Rightarrow> ('r, 's) fsck_env \<Rightarrow> tapemetadata \<Rightarrow> u64 \<Rightarrow> 's \<Rightarrow> 'r
    \<Rightarrow> int \<times> 's \<times> 'r \<times> tapemetadata list" where
  "phase1 ma mfile mget FE junk machinenum SD SR =
     (case fe_list FE machinenum (CHR ''m'') 0 of
        None \<Rightarrow> (-1, SD, SR, [])
      | Some flist \<Rightarrow>
          if 0 < length flist \<and> (length flist > SIZE_MAX div 8 \<or> \<not> ma 0) then (-1, SD, SR, [])
          else phase1_files mfile mget (fe_cr FE) (fe_ralloc FE) (fe_dfile FE) junk 0 flist SD SR [])"

subsection \<open>Phase 2: the fragments of the indexes\<close>

text \<open>Whether a fragment is missing.\<close>

function frags_missing :: "crypto \<Rightarrow> bytes list \<Rightarrow> bytes \<Rightarrow> nat \<Rightarrow> nat \<Rightarrow> bool" where
  "frags_missing cr flist hbuf indexlen fragnum =
     (if fragnum * MAXIFRAG < indexlen
      then if findinlist (multitape_metaindex_fragname cr hbuf (of_nat fragnum)) flist (length flist) = length flist
        then True else frags_missing cr flist hbuf indexlen (fragnum + 1)
      else False)"
  by auto
termination
  by (relation "measure (\<lambda>(cr, flist, hbuf, indexlen, fragnum). indexlen - fragnum * MAXIFRAG)") (auto simp: MAXIFRAG_def MAXCHUNK_def)

declare frags_missing.simps [simp del]

fun phase2_check :: "crypto \<Rightarrow> 's dfile \<Rightarrow> bytes list \<Rightarrow> tapemetadata list \<Rightarrow> 's
    \<Rightarrow> int \<times> 's \<times> tapemetadata option list" where
  "phase2_check cr dfile flist [] SD = (0, SD, [])"
| "phase2_check cr dfile flist (m # mdats) SD =
     (case crypto_hash_data cr CRYPTO_KEY_HMAC_NAME (tm_name m) of
        None \<Rightarrow> (-1, SD, map Some (m # mdats))
      | Some hbuf \<Rightarrow>
          if frags_missing cr flist hbuf (unat (tm_indexlen m)) 0
          then case dfile SD (CHR ''m'') hbuf of (rc, SD) \<Rightarrow>
            if rc \<noteq> 0 then (-1, SD, map Some (m # mdats))
            else case phase2_check cr dfile flist mdats SD of (rc, SD, mdatlist) \<Rightarrow> (rc, SD, None # mdatlist)
          else case phase2_check cr dfile flist mdats SD of (rc, SD, mdatlist) \<Rightarrow> (rc, SD, Some m # mdatlist))"

text \<open>\<^const>\<open>None\<close> is a write outside the vector.\<close>

function mark_frags :: "crypto \<Rightarrow> bytes list \<Rightarrow> bytes \<Rightarrow> nat \<Rightarrow> nat \<Rightarrow> bool list \<Rightarrow> bool list option" where
  "mark_frags cr flist hbuf indexlen fragnum neededvec =
     (if fragnum * MAXIFRAG < indexlen
      then let i = findinlist (multitape_metaindex_fragname cr hbuf (of_nat fragnum)) flist (length flist) in
        if i \<ge> length neededvec then None
        else mark_frags cr flist hbuf indexlen (fragnum + 1) (neededvec[i := True])
      else Some neededvec)"
  by auto
termination
  by (relation "measure (\<lambda>(cr, flist, hbuf, indexlen, fragnum, neededvec). indexlen - fragnum * MAXIFRAG)") (auto simp: MAXIFRAG_def MAXCHUNK_def)

declare mark_frags.simps [simp del]

fun phase2_mark :: "crypto \<Rightarrow> bytes list \<Rightarrow> tapemetadata option list \<Rightarrow> bool list \<Rightarrow> (int \<times> bool list) option" where
  "phase2_mark cr flist [] neededvec = Some (0, neededvec)"
| "phase2_mark cr flist (None # mdatlist) neededvec = phase2_mark cr flist mdatlist neededvec"
| "phase2_mark cr flist (Some m # mdatlist) neededvec =
     (case crypto_hash_data cr CRYPTO_KEY_HMAC_NAME (tm_name m) of
        None \<Rightarrow> Some (-1, neededvec)
      | Some hbuf \<Rightarrow>
          (case mark_frags cr flist hbuf (unat (tm_indexlen m)) 0 neededvec of
             None \<Rightarrow> None
           | Some neededvec \<Rightarrow> phase2_mark cr flist mdatlist neededvec))"

fun phase2_delete :: "'s dfile \<Rightarrow> (bytes \<times> bool) list \<Rightarrow> 's \<Rightarrow> int \<times> 's" where
  "phase2_delete dfile [] SD = (0, SD)"
| "phase2_delete dfile ((h, needed) # fs) SD =
     (if \<not> needed
      then case dfile SD (CHR ''i'') h of (rc, SD) \<Rightarrow> if rc \<noteq> 0 then (-1, SD) else phase2_delete dfile fs SD
      else phase2_delete dfile fs SD)"

definition phase2 :: "mem \<Rightarrow> ('r, 's) fsck_env \<Rightarrow> u64 \<Rightarrow> 's \<Rightarrow> tapemetadata list
    \<Rightarrow> (int \<times> 's \<times> tapemetadata option list) option" where
  "phase2 ma FE machinenum SD mdats =
     (case fe_list FE machinenum (CHR ''i'') 0 of
        None \<Rightarrow> Some (-1, SD, map Some mdats)
      | Some flist \<Rightarrow>
          (case phase2_check (fe_cr FE) (fe_dfile FE) flist mdats SD of (rc, SD, mdatlist) \<Rightarrow>
             if rc \<noteq> 0 then Some (-1, SD, mdatlist)
             else if 0 < length flist \<and> \<not> ma 1 then Some (-1, SD, mdatlist)
             else case phase2_mark (fe_cr FE) flist mdatlist (replicate (length flist) False) of
                    None \<Rightarrow> None
                  | Some (rc, neededvec) \<Rightarrow>
                      if rc \<noteq> 0 then Some (-1, SD, mdatlist)
                      else case phase2_delete (fe_dfile FE) (zip flist neededvec) SD of (rc, SD) \<Rightarrow>
                        Some (if rc \<noteq> 0 then -1 else 0, SD, mdatlist)))"

subsection \<open>Phases 3 to 5: chunks\<close>

text \<open>\<open>junkc\<close> stands for the fields of fresh memory that are not set.\<close>

definition phase3 :: "mem \<Rightarrow> ('r, 's) fsck_env \<Rightarrow> u32 \<times> chunkstats \<Rightarrow> u64 \<Rightarrow> string \<Rightarrow> chunks_s option option" where
  "phase3 ma FE junkc machinenum cachedir =
     chunks_fsck_start ma (fe_hash FE) (fe_entropy FE) (fst junkc) (snd junkc)
       (fe_list FE machinenum (CHR ''c'') 0) cachedir"

fun phase4_archives :: "(nat \<Rightarrow> mem) \<Rightarrow> ('r, 's) fsck_env \<Rightarrow> nat \<Rightarrow> tapemetadata option list \<Rightarrow> 's \<Rightarrow> 'r \<Rightarrow> chunks_s
    \<Rightarrow> (int \<times> 's \<times> 'r \<times> chunks_s) option" where
  "phase4_archives ma FE file [] SD SR C = Some (0, SD, SR, C)"
| "phase4_archives ma FE file (None # mdatlist) SD SR C = phase4_archives ma FE (Suc file) mdatlist SD SR C"
| "phase4_archives ma FE file (Some m # mdatlist) SD SR C =
     (let C = chunks_stats_extrastats (chunks_stats_zeroarchive C) (tm_metadatalen m) in
      case multitape_chunkiter_tmd (ma file) (fe_cr FE) (fe_rfile FE) (fe_addcache FE) (fe_uncompress FE) m
             (callback_chunkref (fe_hash FE)) SR (Some C) (\<lambda>C. C) of
        (rc, SR, None) \<Rightarrow> None
      | (rc, SR, Some C) \<Rightarrow>
          if rc = -1 then Some (-1, SD, SR, C)
          else if rc = 0
          then case chunks_fsck_archive_add C of (rc, C) \<Rightarrow>
            if rc \<noteq> 0 then Some (-1, SD, SR, C) else phase4_archives ma FE (Suc file) mdatlist SD SR C
          else if rc = 1 \<or> rc = 2
          then case deletearchive (fe_cr FE) (fe_dfile FE) SD m of (rc, SD) \<Rightarrow>
            if rc \<noteq> 0 then Some (-1, SD, SR, C) else phase4_archives ma FE (Suc file) mdatlist SD SR C
          else phase4_archives ma FE (Suc file) mdatlist SD SR C)"

definition phase4 :: "(nat \<Rightarrow> mem) \<Rightarrow> ('r, 's) fsck_env \<Rightarrow> tapemetadata option list \<Rightarrow> 's \<Rightarrow> 'r \<Rightarrow> chunks_s
    \<Rightarrow> (int \<times> 's \<times> 'r \<times> chunks_s) option" where
  "phase4 ma FE mdatlist SD SR C =
     phase4_archives ma FE 0 mdatlist SD (fe_set_limit FE SR (100 * chunks_stats_getdirsz C)) C"

definition phase5 :: "('r, 's) fsck_env \<Rightarrow> 's \<Rightarrow> chunks_s \<Rightarrow> int \<times> chunks_s \<times> 's" where
  "phase5 FE SD C = chunks_fsck_deletechunks (fe_dfile FE) C SD"

subsection \<open>The phases together\<close>

text \<open>The allocations of a run: those of phases 1 and 2, the structures and the parsing of phase 1, the chunk
  table, and those of phase 4.\<close>

record fsck_mem =
  fm_lists :: mem
  fm_files :: mem
  fm_get :: "nat \<Rightarrow> mem"
  fm_table :: mem
  fm_iter :: "nat \<Rightarrow> mem"

text \<open>\<^const>\<open>Inl\<close> is a failure.\<close>

definition fsck_phases :: "fsck_mem \<Rightarrow> ('r, 's) fsck_env \<Rightarrow> tapemetadata \<Rightarrow> u32 \<times> chunkstats \<Rightarrow> u64 \<Rightarrow> string \<Rightarrow> 's \<Rightarrow> 'r
    \<Rightarrow> ('s + chunks_s \<times> 's) option" where
  "fsck_phases ma FE junk junkc machinenum cachedir SD SR =
     (case phase1 (fm_lists ma) (fm_files ma) (fm_get ma) FE junk machinenum SD SR of (rc, SD, SR, mdats) \<Rightarrow>
      if rc \<noteq> 0 then Some (Inl SD)
      else case phase2 (fm_lists ma) FE machinenum SD mdats of
        None \<Rightarrow> None
      | Some (rc, SD, mdatlist) \<Rightarrow>
      if rc \<noteq> 0 then Some (Inl SD)
      else case phase3 (fm_table ma) FE junkc machinenum cachedir of
        None \<Rightarrow> None
      | Some None \<Rightarrow> Some (Inl SD)
      | Some (Some C) \<Rightarrow>
      (case phase4 (fm_iter ma) FE mdatlist SD SR C of
        None \<Rightarrow> None
      | Some (rc, SD, SR, C) \<Rightarrow>
      if rc \<noteq> 0 then Some (Inl SD)
      else case phase5 FE SD C of (rc, C, SD) \<Rightarrow>
      Some (if rc \<noteq> 0 then Inl SD else Inr (C, SD))))"

text \<open>\<open>lock\<close> says whether the cache directory can be locked; the cookie of the deletions is returned with the
  result.\<close>

definition fscktape :: "fsck_mem \<Rightarrow> ('r, 's) fsck_env \<Rightarrow> tapemetadata \<Rightarrow> u32 \<times> chunkstats \<Rightarrow> bool \<Rightarrow> u64 \<Rightarrow> string
    \<Rightarrow> int \<Rightarrow> int \<Rightarrow> fsck_world \<Rightarrow> (int \<times> 's option \<times> fsck_world) option" where
  "fscktape ma FE junk junkc lock machinenum cachedir prune whichkey w =
     (let key = (if whichkey = 0 then 0 else 1) in
      if \<not> lock then Some (-1, None, w)
      else case multitape_cleanstate (fe_flt FE) (fe_srv FE) cachedir machinenum key (fw_fs w) (fw_log w) (fw_modified w) of
             (rc, fs, log, modified) \<Rightarrow>
      let w = \<lparr>fw_fs = fs, fw_log = log, fw_modified = modified\<rparr> in
      if rc \<noteq> 0 then Some (-1, None, w)
      else let rq = Commit_from_checkpoint_call machinenum key; ans = fe_srv FE log rq;
        w = w\<lparr>fw_log := log @ [(rq, fst ans)], fw_modified := modified \<or> snd ans\<rparr> in
      if fst ans \<noteq> 0 then Some (-1, None, w)
      else (case fe_start FE machinenum (prune = 0) key of
        None \<Rightarrow> Some (-1, None, w)
      | Some (SD, seqnum) \<Rightarrow>
      (case fe_init FE machinenum of
        None \<Rightarrow> Some (-1, Some SD, w)
      | Some SR \<Rightarrow>
      (case fsck_phases ma FE junk junkc machinenum cachedir SD SR of
        None \<Rightarrow> None
      | Some (Inl SD) \<Rightarrow> Some (-1, Some SD, w)
      | Some (Inr (C, SD)) \<Rightarrow>
      case chunks_fsck_end (fe_flt FE) C (fw_fs w) of (rc, fs) \<Rightarrow>
      let w = w\<lparr>fw_fs := fs\<rparr> in
      if rc \<noteq> 0 then Some (-1, Some SD, w)
      else case fe_end FE SD of (rc, SD) \<Rightarrow>
      if rc \<noteq> 0 then Some (-1, Some SD, w)
      else case multitape_commit (fe_flt FE) (fe_srv FE) cachedir machinenum seqnum key (fw_fs w) (fw_log w) (fw_modified w) of
             (rc, fs, log, modified) \<Rightarrow>
      Some (if rc \<noteq> 0 then -1 else 0, Some SD, \<lparr>fw_fs = fs, fw_log = log, fw_modified = modified\<rparr>)))))"

definition statstape_initialize :: "fault \<Rightarrow> bytes option \<Rightarrow> u64 \<Rightarrow> string \<Rightarrow> fs \<Rightarrow> int \<times> fs" where
  "statstape_initialize flt entropy machinenum cachedir fs = chunks_initialize flt entropy cachedir fs"

subsection \<open>What the binary search finds\<close>

lemma memcmp_eq: "length a = length b \<Longrightarrow> memcmp a b = 0 \<longleftrightarrow> a = b"
  by (induction a b rule: memcmp.induct) auto

lemma memcmp_neg: "length a = length b \<Longrightarrow> memcmp b a > 0 \<longleftrightarrow> memcmp a b < 0"
  by (induction a b rule: memcmp.induct) auto

lemma memcmp_trans:
  "length a = length b \<Longrightarrow> length b = length c \<Longrightarrow> memcmp a b < 0 \<Longrightarrow> memcmp b c < 0 \<Longrightarrow> memcmp a c < 0"
proof (induction a b arbitrary: c rule: memcmp.induct)
  case (1 a as b bs)
  then show ?case by (cases c) (auto split: if_splits)
qed auto

lemma memcmp_refl [simp]: "memcmp a a = 0"
  by (induction a) auto

text \<open>A list of f names of 32 bytes in strictly increasing order.\<close>

definition sorted_files :: "bytes list \<Rightarrow> bool" where
  "sorted_files flist \<longleftrightarrow> (\<forall>h\<in>set flist. length h = 32) \<and> sorted_wrt (\<lambda>a b. memcmp a b < 0) flist"

lemma sorted_files_distinct: "sorted_files flist \<Longrightarrow> distinct flist"
  unfolding sorted_files_def by (induction flist) auto

lemma findinlist_spec:
  assumes "sorted_files flist" "n \<le> length flist" "length f = 32"
  shows "(findinlist f flist n < n \<longrightarrow> flist ! findinlist f flist n = f) \<and>
    (findinlist f flist n < n \<or> findinlist f flist n = n \<and> f \<notin> set (take n flist))"
  using assms
proof (induction f flist n rule: findinlist.induct)
  case (1 f flist n)
  have len: "length (flist ! i) = 32" if "i < length flist" for i using "1.prems"(1) that by (simp add: sorted_files_def)
  have less: "memcmp (flist ! i) (flist ! j) < 0" if "i < j" "j < length flist" for i j
    using "1.prems"(1) that by (simp add: sorted_files_def sorted_wrt_iff_nth_less)
  consider "n = 0" | "n = 1" | "n \<noteq> 0" "n \<noteq> 1" by blast
  then show ?case
  proof cases
    case 1
    then show ?thesis by (subst (1 2 3 4) findinlist.simps) simp
  next
    case 2
    then have ne: "flist \<noteq> []" and t: "take 1 flist = [flist ! 0]" using "1.prems"(2) by (cases flist; simp)+
    have "length f = length (flist ! 0)" using len [of 0] ne "1.prems"(3) by simp
    note eq = memcmp_eq [OF this]
    show ?thesis using 2 t eq by (subst (1 2 3 4) findinlist.simps) auto
  next
    case 3
    define mid where "mid = n div 2"
    have mid: "mid < n" "mid < length flist" "mid \<le> length flist" using 3 "1.prems"(2) by (auto simp: mid_def)
    define cmp where "cmp = memcmp f (flist ! mid)"
    have step: "findinlist f flist n =
        (if cmp < 0 then let rc = findinlist f flist mid in if rc = mid then n else rc
         else if cmp = 0 then mid
         else let rc = findinlist f (drop (mid + 1) flist) (n - (mid + 1)) in
           if rc = n - (mid + 1) then n else rc + (mid + 1))"
      using 3 by (subst findinlist.simps) (simp add: Let_def mid_def cmp_def)
    have l: "length f = length (flist ! mid)" using len [OF mid(2)] "1.prems"(3) by simp
    consider "cmp < 0" | "cmp = 0" | "cmp > 0" by linarith
    then show ?thesis
    proof cases
      case 1
      have IH: "(findinlist f flist mid < mid \<longrightarrow> flist ! findinlist f flist mid = f) \<and>
          (findinlist f flist mid < mid \<or> findinlist f flist mid = mid \<and> f \<notin> set (take mid flist))"
        using "1.IH"(1) [OF 3 mid_def cmp_def [unfolded mid_def, folded mid_def] 1] "1.prems" mid(3) by blast
      have "f \<noteq> flist ! i" if "mid \<le> i" "i < n" for i
      proof
        assume f: "f = flist ! i"
        then show False
          using 1 memcmp_neg [of "flist ! i" "flist ! mid"] less [of mid i] l that "1.prems"(2) by (cases "mid = i") (auto simp: cmp_def)
      qed
      then have "f \<notin> set (take n flist)" if "f \<notin> set (take mid flist)"
        using that "1.prems"(2) mid(1) by (auto simp: in_set_conv_nth) (metis leI)
      then show ?thesis using IH 1 mid(1) unfolding step by (auto simp: Let_def)
    next
      case 2
      then show ?thesis using mid(1) l memcmp_eq [of f "flist ! mid"] unfolding step by (simp add: cmp_def)
    next
      case 3
      let ?l = "drop (mid + 1) flist" and ?k = "n - (mid + 1)"
      have sub: "sorted_files ?l" "?k \<le> length ?l"
        using "1.prems"(1,2) by (auto simp: sorted_files_def intro: sorted_wrt_drop dest: in_set_dropD)
      have IH: "(findinlist f ?l ?k < ?k \<longrightarrow> ?l ! findinlist f ?l ?k = f) \<and>
          (findinlist f ?l ?k < ?k \<or> findinlist f ?l ?k = ?k \<and> f \<notin> set (take ?k ?l))"
        using "1.IH"(2) [OF \<open>n \<noteq> 0\<close> \<open>n \<noteq> 1\<close> mid_def cmp_def] 3 sub "1.prems"(3) by simp
      have "f \<noteq> flist ! i" if "i \<le> mid" for i
      proof
        assume f: "f = flist ! i"
        then show False using 3 less [of i mid] mid(2) that by (cases "mid = i") (auto simp: cmp_def)
      qed
      then have "f \<notin> set (take (mid + 1) flist)" using mid(2) by (auto simp: in_set_conv_nth less_Suc_eq_le)
      moreover have "take n flist = take (mid + 1) flist @ take ?k ?l"
        using mid(1) by (metis add.commute le_add_diff_inverse Suc_eq_plus1 Suc_leI take_add)
      ultimately have "f \<notin> set (take n flist)" if "f \<notin> set (take ?k ?l)" using that by simp
      then show ?thesis using IH 3 mid(1) "1.prems"(2) unfolding step by (auto simp: Let_def add.commute)
    qed
  qed
qed

end
