(* ===== verification/Fsck_Archives.thy ===== *)
theory Fsck_Archives
  imports Tape_Fsck
begin

text \<open>
  What the phases of \<^verbatim>\<open>tar/multitape/multitape_fsck.c\<close> read from a server that does not change
  (\<open>answers\<close>), the uses of chunks of an archive as the iteration over its chunks meets them, and how
  phase 4 counts them.  Theory \<open>Fsck_Run\<close> puts the phases together.
\<close>

subsection \<open>A server that does not change\<close>

text \<open>The files of a server that does not change: 1 for a file that is not there, 2 for a file that is
  corrupt.  The storage layer answers with the file, or has an error.\<close>

type_synonym server = "char \<times> bytes \<Rightarrow> int + bytes"

definition sized :: "nat \<Rightarrow> int + bytes \<Rightarrow> int + bytes" where
  "sized n x = (case x of Inl rc \<Rightarrow> Inl rc | Inr b \<Rightarrow> if length b = n then Inr b else Inl 2)"

definition or_error :: "bool \<Rightarrow> int + 'a \<Rightarrow> int + 'a \<Rightarrow> bool" where
  "or_error fail x y \<longleftrightarrow> x = y \<or> fail \<and> x = Inl (-1)"

abbreviation mem_may :: "bool \<Rightarrow> mem \<Rightarrow> bool" where
  "mem_may fail ma \<equiv> fail \<or> (\<forall>k. ma k)"

definition answers :: "bool \<Rightarrow> server \<Rightarrow> 'r rfile_alloc \<Rightarrow> 'r rfile \<Rightarrow> bool" where
  "answers fail F ralloc rfile \<longleftrightarrow>
     (\<forall>k rc. F k = Inl rc \<longrightarrow> rc = 1 \<or> rc = 2) \<and>
     (\<forall>S c h. or_error fail (fst (ralloc S c h)) (F (c, h))) \<and>
     (\<forall>S n c h. or_error fail (fst (rfile S n c h)) (sized n (F (c, h))))"

definition still_alloc :: "server \<Rightarrow> unit rfile_alloc" where
  "still_alloc F = (\<lambda>S c h. (F (c, h), S))"

definition still_rfile :: "server \<Rightarrow> unit rfile" where
  "still_rfile F = (\<lambda>S n c h. (sized n (F (c, h)), S))"

definition still_cache :: "unit addcache" where
  "still_cache = (\<lambda>S c h. (0, S))"

lemma or_error_refl [simp]: "or_error fail x x"
  by (simp add: or_error_def)

lemma get_frags_still:
  assumes "answers fail F ralloc rfile"
  shows "or_error fail (fst (get_frags cr rfile h len n mbuf S C)) (fst (get_frags cr (still_rfile F) h len n mbuf () D))"
proof (induction "len - n * MAXIFRAG" arbitrary: n mbuf S C D rule: less_induct)
  case less
  show ?case
  proof (cases "n * MAXIFRAG < len")
    case False
    then show ?thesis by (subst (1 2) get_frags.simps) simp
  next
    case True
    have small: "len - (n + 1) * MAXIFRAG < len - n * MAXIFRAG" using True by (simp add: MAXIFRAG_def MAXCHUNK_def)
    let ?k = "frag_length len n" and ?f = "multitape_metaindex_fragname cr h (of_nat n)"
    obtain x S1 where x: "rfile S ?k (CHR ''i'') ?f = (x, S1)" by fastforce
    then have "or_error fail x (sized ?k (F (CHR ''i'', ?f)))" using assms unfolding answers_def by (metis fst_conv)
    then consider "fail" "x = Inl (-1)" | "x = sized ?k (F (CHR ''i'', ?f))" unfolding or_error_def by blast
    then show ?thesis
    proof cases
      case 1
      then show ?thesis using True x by (subst get_frags.simps) (simp add: or_error_def Let_def)
    next
      case 2
      show ?thesis
      proof (cases x)
        case (Inl e)
        then show ?thesis using True x 2 by (subst (1 2) get_frags.simps) (simp add: Let_def still_rfile_def)
      next
        case (Inr b)
        then show ?thesis using True x 2 less.hyps [OF small]
          by (subst (1 2) get_frags.simps) (simp add: Let_def still_rfile_def)
      qed
    qed
  qed
qed

lemma index_dec_still: "fail \<or> ma \<Longrightarrow> or_error fail (index_dec ma buf) (index_dec True buf)"
  by (auto simp: index_dec_def or_error_def Let_def)

lemma or_error_cases:
  assumes "or_error fail x y"
  obtains "fail" "x = Inl (-1)" | rc where "x = Inl rc" "y = Inl rc" | v where "x = Inr v" "y = Inr v"
  using assms unfolding or_error_def by (cases x) auto

lemma or_error_bind:
  assumes "or_error fail x y" "\<And>v. or_error fail (f v) (g v)" "e (-1) = Inl (-1)"
  shows "or_error fail (case x of Inl rc \<Rightarrow> e rc | Inr v \<Rightarrow> f v) (case y of Inl rc \<Rightarrow> e rc | Inr v \<Rightarrow> g v)"
  using assms(1)
proof (cases rule: or_error_cases)
  case 1
  then show ?thesis by (simp add: or_error_def assms(3))
next
  case (3 v)
  then show ?thesis using assms(2) by simp
qed simp

lemma metaindex_dec_still: "mem_may fail ma \<Longrightarrow> or_error fail (metaindex_dec ma buf) (metaindex_dec mem_ok buf)"
  unfolding metaindex_dec_def
  by (intro or_error_bind index_dec_still) (auto intro!: or_error_bind index_dec_still split: prod.splits)

lemma metaindex_get_still:
  assumes "answers fail F ralloc rfile" and ma: "mem_may fail ma"
  shows "or_error fail (fst (multitape_metaindex_get ma cr rfile S C m)) (fst (multitape_metaindex_get mem_ok cr (still_rfile F) () None m))"
proof (cases "crypto_hash_data cr CRYPTO_KEY_HMAC_NAME (tm_name m)")
  case None
  then show ?thesis by (simp add: multitape_metaindex_get_def)
next
  case (Some h)
  obtain x S1 C1 where x: "get_frags cr rfile h (unat (tm_indexlen m)) 0 [] S C = (x, S1, C1)" by (metis prod_cases3)
  obtain y S2 C2 where y: "get_frags cr (still_rfile F) h (unat (tm_indexlen m)) 0 [] () None = (y, S2, C2)" by (metis prod_cases3)
  have "or_error fail x y" using get_frags_still [OF assms(1), of cr h "unat (tm_indexlen m)" 0 "[]" S C None] x y by simp
  then show ?thesis
  proof (cases rule: or_error_cases)
    case (3 v)
    have d: "or_error fail (metaindex_dec (\<lambda>k. ma (Suc k)) v) (metaindex_dec mem_ok v)"
      by (rule metaindex_dec_still) (use ma in blast)
    show ?thesis using Some x y 3 d ma by (auto simp: multitape_metaindex_get_def or_error_def split: option.splits)
  qed (use Some x y ma in \<open>auto simp: multitape_metaindex_get_def or_error_def\<close>)
qed

lemma chunks_read_chunk_still:
  assumes "answers fail F ralloc rfile"
  shows "or_error fail (fst (chunks_read_chunk cr rfile u CR S h len zlen)) (fst (chunks_read_chunk cr (still_rfile F) u CR () h len zlen))"
proof -
  obtain x S1 where x: "rfile S zlen (CHR ''c'') h = (x, S1)" by fastforce
  then have "or_error fail x (sized zlen (F (CHR ''c'', h)))" using assms unfolding answers_def by (metis fst_conv)
  then show ?thesis
  proof (cases rule: or_error_cases)
    case (3 v)
    then show ?thesis using x by (simp add: chunks_read_chunk_def still_rfile_def split: sum.splits option.splits)
  qed (use x in \<open>simp_all add: chunks_read_chunk_def still_rfile_def or_error_def\<close>)
qed

lemma parse_argv_or_error: "mem_may fail ma \<Longrightarrow> or_error fail (parse_argv ma k n p) (parse_argv mem_ok k' n p)"
proof (induction n arbitrary: k k' p)
  case (Suc n)
  show ?case
  proof (cases "nul_string p")
    case (Some a)
    obtain v q where "a = (v, q)" by (cases a)
    then have a: "nul_string p = Some (v, q)" using Some by simp
    show ?thesis using Suc.IH [OF Suc.prems, of "Suc k" q "Suc k'"] a Suc.prems by (cases rule: or_error_cases) (auto simp: or_error_def)
  qed simp
qed simp

lemma metadata_dec_or_error:
  assumes ma: "mem_may fail ma"
  shows "or_error fail (multitape_metadata_dec ma cr m buf) (multitape_metadata_dec mem_ok cr m buf)"
proof (cases "nul_string buf")
  case (Some a)
  obtain name p where a: "a = (name, p)" by (cases a)
  let ?argc = "sint (le32dec (drop 8 p))" and ?q = "drop 4 (drop 8 p)"
  have "or_error fail (parse_argv ma 2 (nat ?argc) ?q) (parse_argv mem_ok 2 (nat ?argc) ?q)" by (rule parse_argv_or_error [OF ma])
  then show ?thesis
    unfolding multitape_metadata_dec_def Some a option.case prod.case Let_def
    using ma by (cases rule: or_error_cases) (auto simp: or_error_def)
qed (simp add: multitape_metadata_dec_def)

text \<open>The metadata under a hash.\<close>

definition metadata_at :: "crypto \<Rightarrow> server \<Rightarrow> tapemetadata \<Rightarrow> bytes \<Rightarrow> int + tapemetadata" where
  "metadata_at cr F junk h = fst (multitape_metadata_get mem_ok cr (still_alloc F) () None junk h)"

lemma metadata_get_still:
  assumes "answers fail F ralloc rfile" and ma: "mem_may fail ma"
  shows "or_error fail (fst (multitape_metadata_get ma cr ralloc S C junk h)) (metadata_at cr F junk h)"
proof -
  obtain x S1 where x: "ralloc S (CHR ''m'') h = (x, S1)" by fastforce
  then have "or_error fail x (F (CHR ''m'', h))" using assms unfolding answers_def by (metis fst_conv)
  then show ?thesis
  proof (cases rule: or_error_cases)
    case (3 b)
    have d: "or_error fail (multitape_metadata_dec ma cr junk b) (multitape_metadata_dec mem_ok cr junk b)"
      by (rule metadata_dec_or_error [OF ma])
    then show ?thesis
      using x 3 by (cases rule: or_error_cases)
        (auto simp: multitape_metadata_get_def metadata_at_def still_alloc_def or_error_def Let_def split: option.splits)
  qed (use x in \<open>simp_all add: multitape_metadata_get_def metadata_at_def still_alloc_def or_error_def\<close>)
qed

subsection \<open>The headers of an archive\<close>

text \<open>The chunk headers that the iteration visits, in order, if the callback does not stop it, and how it ends.\<close>

abbreviation collect :: "bytes list \<Rightarrow> bytes \<Rightarrow> int \<times> bytes list" where
  "collect \<equiv> \<lambda>vs v. (0, vs @ [v])"

definition archive_trace :: "crypto \<Rightarrow> server \<Rightarrow> uncompress \<Rightarrow> tapemetadata \<Rightarrow> int \<times> bytes list" where
  "archive_trace cr F u m =
     (case multitape_chunkiter_tmd mem_ok cr (still_rfile F) still_cache u m collect () None (\<lambda>_. []) of
        (rc, _, vs) \<Rightarrow> (rc, vs))"

text \<open>An iteration that follows these headers until the callback stops it.\<close>

definition follows :: "('s \<Rightarrow> bytes \<Rightarrow> int \<times> 's) \<Rightarrow> 's \<Rightarrow> int \<times> bytes list \<Rightarrow> int \<Rightarrow> 's \<Rightarrow> bool" where
  "follows func s tr rc s' \<longleftrightarrow>
     (case visit func (snd tr) s of (e, s1) \<Rightarrow> s' = s1 \<and> rc = (if e \<noteq> 0 then e else fst tr))"

lemma visit_collect: "visit collect vs us = (0, us @ vs)"
  by (induction vs arbitrary: us) simp_all

lemma headers_split: "\<exists>xs r. buf = concat xs @ r \<and> (\<forall>x\<in>set xs. length x = 40) \<and> length r < 40"
proof (induction "length buf" arbitrary: buf rule: less_induct)
  case less
  show ?case
  proof (cases "length buf < 40")
    case True
    then show ?thesis by (intro exI [of _ "[]"] exI [of _ buf]) simp
  next
    case False
    then have "length (drop 40 buf) < length buf" by simp
    from less.hyps [OF this] obtain xs r where r: "drop 40 buf = concat xs @ r" "\<forall>x\<in>set xs. length x = 40" "length r < 40" by blast
    then have "buf = concat (take 40 buf # xs) @ r" by (metis append_take_drop_id append.assoc concat.simps(2))
    then show ?thesis using r(2,3) False by (intro exI [of _ "take 40 buf # xs"] exI [of _ r]) simp
  qed
qed

lemma follows_stop: "visit func vs s = (rc, s') \<Longrightarrow> rc \<noteq> 0 \<Longrightarrow> follows func s (e, vs @ ws) rc s'"
  by (simp add: follows_def visit_append)

lemma follows_go: "visit func vs s = (0, s1) \<Longrightarrow> follows func s1 (e, ws) rc s' \<Longrightarrow> follows func s (e, vs @ ws) rc s'"
  by (simp add: follows_def visit_append split: prod.splits)

lemma follows_end: "visit func vs s = (0, s') \<Longrightarrow> follows func s (e, vs) e s'"
  by (simp add: follows_def)

text \<open>The same for the index of the chunk index, where \<^const>\<open>None\<close> is the end of the loop.\<close>

definition exits :: "int option \<Rightarrow> 's \<Rightarrow> (int \<times> 'r \<times> 's) + ('r \<times> 's) \<Rightarrow> bool" where
  "exits e s r \<longleftrightarrow> (case e of None \<Rightarrow> \<exists>S. r = Inr (S, s) | Some rc \<Rightarrow> \<exists>S. r = Inl (rc, S, s))"

definition follows_index :: "('s \<Rightarrow> bytes \<Rightarrow> int \<times> 's) \<Rightarrow> 's \<Rightarrow> int option \<times> bytes list
    \<Rightarrow> (int \<times> 'r \<times> 's) + ('r \<times> 's) \<Rightarrow> bool" where
  "follows_index func s tr r \<longleftrightarrow>
     (case visit func (snd tr) s of (e, s1) \<Rightarrow> exits (if e \<noteq> 0 then Some e else fst tr) s1 r)"

abbreviation errs :: "bool \<Rightarrow> (int \<times> 'r \<times> 's) + ('r \<times> 's) \<Rightarrow> bool" where
  "errs fail r \<equiv> fail \<and> (\<exists>S s. r = Inl (-1, S, s))"

lemma follows_index_stop: "visit func vs s = (rc, s') \<Longrightarrow> rc \<noteq> 0 \<Longrightarrow> follows_index func s (e, vs @ ws) (Inl (rc, S, s'))"
  by (simp add: follows_index_def visit_append exits_def)

lemma follows_index_go:
  "visit func vs s = (0, s1) \<Longrightarrow> follows_index func s1 (e, ws) r \<Longrightarrow> follows_index func s (e, vs @ ws) r"
  by (cases "visit func ws s1"; cases "fst (visit func ws s1) = 0") (auto simp: follows_index_def visit_append)

lemma iter_cindex_trace:
  assumes ans: "answers fail F ralloc rfile" and cache: "\<forall>S c h. fst (addcache S c h) = 0"
  shows "\<exists>e vs. (\<forall>us. exits e (us @ vs) (iter_cindex cr (still_rfile F) still_cache u CR collect cindex ibuf () us)) \<and>
    (\<forall>func S (s :: 's). let r = iter_cindex cr rfile addcache u CR func cindex ibuf S s in
       errs fail r \<or> follows_index func s (e, vs) r)"
proof (induction "length cindex" arbitrary: cindex ibuf rule: less_induct)
  case less
  show ?case
  proof (cases "40 \<le> length cindex")
    case False
    have "exits None (us @ []) (iter_cindex cr (still_rfile F) still_cache u CR collect cindex ibuf () us)" for us
      using False by (subst iter_cindex.simps) (simp add: exits_def)
    moreover have "follows_index func s (None, []) (iter_cindex cr rfile addcache u CR func cindex ibuf S s)" for func S and s :: 's
      using False by (subst iter_cindex.simps) (simp add: follows_index_def exits_def)
    ultimately show ?thesis unfolding Let_def by blast
  next
    case True
    define v where "v = take 40 cindex"
    define y where "y = fst (chunks_read_chunk cr (still_rfile F) u CR () (ch_hash v) (ch_len v) (ch_zlen v))"
    have y: "chunks_read_chunk cr (still_rfile F) u CR () (ch_hash v) (ch_len v) (ch_zlen v) = (y, ())" by (simp add: y_def prod_eq_iff)
    have still: "iter_cindex cr (still_rfile F) still_cache u CR collect cindex ibuf () us =
        (if ch_len v > MAXCHUNK then Inl (2, (), us @ [v])
         else case y of Inl rc \<Rightarrow> Inl (rc, (), us @ [v])
           | Inr b \<Rightarrow> (case iter_headers collect (ibuf @ b) (us @ [v]) of (rc, ibuf, s) \<Rightarrow>
               if rc \<noteq> 0 then Inl (rc, (), s)
               else iter_cindex cr (still_rfile F) still_cache u CR collect (drop 40 cindex) ibuf () s))" for us
      by (subst iter_cindex.simps) (use True y in \<open>simp add: chunks_read_cache_def still_cache_def v_def [symmetric] split: sum.splits\<close>)
    have real: "\<exists>S2 x. or_error fail x y \<and> iter_cindex cr rfile addcache u CR func cindex ibuf S s =
        (case func s v of (rc, s) \<Rightarrow>
         if rc \<noteq> 0 then Inl (rc, S, s)
         else if ch_len v > MAXCHUNK then Inl (2, S, s)
         else case x of Inl rc \<Rightarrow> Inl (rc, S2, s)
           | Inr b \<Rightarrow> (case iter_headers func (ibuf @ b) s of (rc, ibuf, s) \<Rightarrow>
               if rc \<noteq> 0 then Inl (rc, S2, s)
               else iter_cindex cr rfile addcache u CR func (drop 40 cindex) ibuf S2 s))" for func S and s :: 's
    proof -
      obtain S1 where S1: "addcache S (CHR ''c'') (ch_hash v) = (0, S1)" using cache by (metis prod.collapse)
      obtain x S2 where x: "chunks_read_chunk cr rfile u CR S1 (ch_hash v) (ch_len v) (ch_zlen v) = (x, S2)" by fastforce
      have "or_error fail x y" using chunks_read_chunk_still [OF ans, of cr u CR S1 "ch_hash v" "ch_len v" "ch_zlen v"] x y by simp
      moreover have "iter_cindex cr rfile addcache u CR func cindex ibuf S s =
        (case func s v of (rc, s) \<Rightarrow>
         if rc \<noteq> 0 then Inl (rc, S, s)
         else if ch_len v > MAXCHUNK then Inl (2, S, s)
         else case x of Inl rc \<Rightarrow> Inl (rc, S2, s)
           | Inr b \<Rightarrow> (case iter_headers func (ibuf @ b) s of (rc, ibuf, s) \<Rightarrow>
               if rc \<noteq> 0 then Inl (rc, S2, s)
               else iter_cindex cr rfile addcache u CR func (drop 40 cindex) ibuf S2 s))"
        by (subst iter_cindex.simps) (use True S1 x in \<open>simp add: chunks_read_cache_def v_def [symmetric] split: sum.splits prod.splits\<close>)
      ultimately show ?thesis by blast
    qed
    show ?thesis
    proof (cases "ch_len v > MAXCHUNK")
      case True
      have "follows_index func s (Some 2, [v]) (iter_cindex cr rfile addcache u CR func cindex ibuf S s)" for func S and s :: 's
        using real [of func S s] True by (auto simp: follows_index_def exits_def split: prod.splits if_splits)
      then show ?thesis using still True by (intro exI [of _ "Some 2"] exI [of _ "[v]"]) (simp add: exits_def Let_def)
    next
      case small: False
      show ?thesis
      proof (cases y)
        case (Inl e)
        have "errs fail (iter_cindex cr rfile addcache u CR func cindex ibuf S s) \<or>
            follows_index func s (Some e, [v]) (iter_cindex cr rfile addcache u CR func cindex ibuf S s)" for func S and s :: 's
          using real [of func S s] small Inl by (auto simp: follows_index_def exits_def or_error_def split: prod.splits if_splits)
        then show ?thesis using still small Inl by (intro exI [of _ "Some e"] exI [of _ "[v]"]) (simp add: exits_def Let_def)
      next
        case (Inr b)
        obtain xs r where r: "ibuf @ b = concat xs @ r" "\<forall>x\<in>set xs. length x = 40" "length r < 40" using headers_split by blast
        have "length (drop 40 cindex) < length cindex" using \<open>40 \<le> length cindex\<close> by simp
        from less.hyps [OF this, of r] obtain e vs where IH:
            "\<And>us. exits e (us @ vs) (iter_cindex cr (still_rfile F) still_cache u CR collect (drop 40 cindex) r () us)"
            "\<And>func S (s :: 's). errs fail (iter_cindex cr rfile addcache u CR func (drop 40 cindex) r S s) \<or>
              follows_index func s (e, vs) (iter_cindex cr rfile addcache u CR func (drop 40 cindex) r S s)"
          unfolding Let_def by blast
        have "exits e (us @ v # xs @ vs) (iter_cindex cr (still_rfile F) still_cache u CR collect cindex ibuf () us)" for us
        proof -
          have "iter_headers collect (ibuf @ b) (us @ [v]) = (0, r, us @ [v] @ xs)"
            unfolding r(1) using iter_headers_progress [OF r(2,3) visit_collect] by simp
          then show ?thesis using still small Inr IH(1) [of "us @ [v] @ xs"] by simp
        qed
        moreover have "errs fail (iter_cindex cr rfile addcache u CR func cindex ibuf S s) \<or>
            follows_index func s (e, (v # xs) @ vs) (iter_cindex cr rfile addcache u CR func cindex ibuf S s)" for func S and s :: 's
        proof -
          define R where "R = iter_cindex cr rfile addcache u CR func cindex ibuf S s"
          obtain S2 x where x1: "or_error fail x y" and x2: "R =
            (case func s v of (rc, s) \<Rightarrow>
             if rc \<noteq> 0 then Inl (rc, S, s)
             else case x of Inl rc \<Rightarrow> Inl (rc, S2, s)
               | Inr b \<Rightarrow> (case iter_headers func (ibuf @ b) s of (rc, ibuf, s) \<Rightarrow>
                   if rc \<noteq> 0 then Inl (rc, S2, s)
                   else iter_cindex cr rfile addcache u CR func (drop 40 cindex) ibuf S2 s))"
            using real [of func S s] unfolding if_not_P [OF small] R_def by blast
          obtain rc1 s1 where f: "func s v = (rc1, s1)" by fastforce
          have "errs fail R \<or> follows_index func s (e, (v # xs) @ vs) R"
          proof (cases "rc1 = 0 \<and> x = y")
            case False
            then show ?thesis using x1 x2 f by (auto simp: follows_index_def exits_def or_error_def)
          next
            case True
            obtain rc2 r2 s2 where h: "iter_headers func (ibuf @ b) s1 = (rc2, r2, s2)" by (metis prod_cases3)
            have w: "visit func xs s1 = (rc2, s2)" "rc2 = 0 \<longrightarrow> r2 = r" using iter_headers_visit [OF r(2,3), of func s1] h r(1) by auto
            have v: "visit func (v # xs) s = (rc2, s2)" using f True w by simp
            show ?thesis
            proof (cases "rc2 = 0")
              case False
              then have "R = Inl (rc2, S2, s2)" using x2 f True h Inr by simp
              then show ?thesis using follows_index_stop [OF v False, of e vs S2] by simp
            next
              case rc2: True
              then have "R = iter_cindex cr rfile addcache u CR func (drop 40 cindex) r S2 s2"
                using x2 f True h w(2) Inr by simp
              then show ?thesis using IH(2) [of func S2 s2] follows_index_go [OF v [unfolded rc2]] by metis
            qed
          qed
          then show ?thesis unfolding R_def .
        qed
        ultimately show ?thesis unfolding Let_def by (intro exI [of _ e] exI [of _ "(v # xs) @ vs"]) simp
      qed
    qed
  qed
qed

lemma chunks_read_init_mem: "chunks_read_init ma k = Some CR \<Longrightarrow> chunks_read_init mem_ok k = Some CR"
  by (auto simp: chunks_read_init_def split: if_splits)

lemma chunkiter_trace:
  fixes func :: "'s \<Rightarrow> bytes \<Rightarrow> int \<times> 's"
  assumes ans: "answers fail F ralloc rfile" and cache: "\<forall>S c h. fst (addcache S c h) = 0"
    and run: "multitape_chunkiter_tmd ma cr rfile addcache u m func S C start = (rc, S', s')"
    and ma: "mem_may fail ma"
  shows "fail \<and> rc = -1 \<or> (\<exists>ma S. fst (multitape_metaindex_get ma cr rfile S C m) = fst (multitape_metaindex_get mem_ok cr (still_rfile F) () None m) \<and>
      follows func (start (snd (snd (multitape_metaindex_get ma cr rfile S C m)))) (archive_trace cr F u m) rc s')"
proof (rule disjCI)
  assume bad: "\<not> (\<exists>ma S. fst (multitape_metaindex_get ma cr rfile S C m) = fst (multitape_metaindex_get mem_ok cr (still_rfile F) () None m) \<and>
      follows func (start (snd (snd (multitape_metaindex_get ma cr rfile S C m)))) (archive_trace cr F u m) rc s')"
  show "fail \<and> rc = -1"
  proof (rule ccontr)
    assume rc: "\<not> (fail \<and> rc = -1)"
    obtain CR where CR: "chunks_read_init ma MAXCHUNK = Some CR"
      using run rc ma by (cases "chunks_read_init ma MAXCHUNK") (auto simp: multitape_chunkiter_tmd_def chunks_read_init_def MAXCHUNK_def)
    note CR' = chunks_read_init_mem [OF CR]
    let ?ma = "\<lambda>k. ma (2 + k)"
    obtain x S1 C1 where x: "multitape_metaindex_get ?ma cr rfile S C m = (x, S1, C1)" by (metis prod_cases3)
    obtain y D1 where y: "multitape_metaindex_get mem_ok cr (still_rfile F) () None m = (y, (), D1)" by (metis prod_cases3 old.unit.exhaust)
    have xy: "or_error fail x y" using metaindex_get_still [OF ans, of ?ma cr S C m] x y ma by auto
    have neg: "\<not> follows func (start C1) (archive_trace cr F u m) rc s'" if "x = y"
    proof
      assume f: "follows func (start C1) (archive_trace cr F u m) rc s'"
      have "C1 = snd (snd (multitape_metaindex_get ?ma cr rfile S C m))"
        "fst (multitape_metaindex_get ?ma cr rfile S C m) = fst (multitape_metaindex_get mem_ok cr (still_rfile F) () None m)"
        using x y that by simp_all
      then show False using bad f by blast
    qed
    show False
    proof (cases x)
      case (Inl e)
      then have "rc = e" "s' = start C1" using run CR x by (auto simp: multitape_chunkiter_tmd_def)
      moreover have "y = Inl e" using xy Inl rc \<open>rc = e\<close> by (auto simp: or_error_def)
      ultimately show False using neg Inl y CR' by (simp add: archive_trace_def multitape_chunkiter_tmd_def follows_def)
    next
      case (Inr tmi)
      have y': "y = Inr tmi" using xy Inr by (simp add: or_error_def)
      note neg = neg [unfolded Inr y', OF refl]
      obtain xs r where h: "mi_hindex tmi = concat xs @ r" "\<forall>x\<in>set xs. length x = 40" "length r < 40" using headers_split by blast
      obtain zs t where t: "mi_tindex tmi = concat zs @ t" "\<forall>x\<in>set zs. length x = 40" "length t < 40" using headers_split by blast
      obtain e vs where cs: "\<forall>us. exits e (us @ vs) (iter_cindex cr (still_rfile F) still_cache u CR collect (mi_cindex tmi) [] () us)"
          "\<forall>func S (s :: 's). let r = iter_cindex cr rfile addcache u CR func (mi_cindex tmi) [] S s in
            errs fail r \<or> follows_index func s (e, vs) r"
        using iter_cindex_trace [OF ans cache, of cr u CR "mi_cindex tmi" "[]"] by (elim exE conjE) (rule that)
      note c = cs(1) [rule_format] cs(2) [rule_format, unfolded Let_def]
      have i0: "iter_cindex cr (still_rfile F) still_cache u CR collect (mi_cindex tmi) [] () xs =
          (case e of None \<Rightarrow> Inr ((), xs @ vs) | Some rc \<Rightarrow> Inl (rc, (), xs @ vs))"
        using c(1) [of xs] by (auto simp: exits_def split: option.splits)
      have tr: "archive_trace cr F u m = (case e of Some rc \<Rightarrow> (rc, xs @ vs) | None \<Rightarrow> (0, xs @ vs @ zs))"
        using y y' CR' i0 iter_headers_progress [OF h(2,3) visit_collect, of "[]"]
          iter_headers_progress [OF t(2,3) visit_collect, of "xs @ vs"]
        by (simp add: archive_trace_def multitape_chunkiter_tmd_def h(1) t(1) split: option.splits)
      have ma6: "ma 6" using run CR x Inr rc ma by (auto simp: multitape_chunkiter_tmd_def split: if_splits)
      obtain rc1 r1 s1 where h1: "iter_headers func (mi_hindex tmi) (start C1) = (rc1, r1, s1)" by (metis prod_cases3)
      have v1: "visit func xs (start C1) = (rc1, s1)" using iter_headers_visit [OF h(2,3), of func "start C1"] h1 h(1) by simp
      show False
      proof (cases "rc1 = 0")
        case False
        then have "rc = rc1" "s' = s1" using run CR x Inr ma6 h1 by (auto simp: multitape_chunkiter_tmd_def)
        then show False using neg tr follows_stop [OF v1 False] by (auto split: option.splits)
      next
        case True
        let ?r = "iter_cindex cr rfile addcache u CR func (mi_cindex tmi) [] S1 s1"
        have run': "(rc, S', s') = (case ?r of Inl exit \<Rightarrow> exit | Inr (S, s) \<Rightarrow>
            (case iter_headers func (mi_tindex tmi) s of (rc, _, s) \<Rightarrow> if rc \<noteq> 0 then (rc, S, s) else (0, S, s)))"
          using run CR x Inr ma6 h1 True by (simp add: multitape_chunkiter_tmd_def)
        have f2: "follows_index func s1 (e, vs) ?r" using c(2) [of func S1 s1] run' rc by auto
        obtain rc3 s3 where v2: "visit func vs s1 = (rc3, s3)" by fastforce
        have v12: "visit func (xs @ vs) (start C1) = (rc3, s3)" using v1 v2 True by (simp add: visit_append)
        have ex: "exits (if rc3 \<noteq> 0 then Some rc3 else e) s3 ?r" using f2 v2 by (cases "rc3 = 0") (simp_all add: follows_index_def)
        show False
        proof (cases "if rc3 \<noteq> 0 then Some rc3 else e")
          case (Some rc2)
          then have "rc = rc2" "s' = s3" using run' ex by (auto simp: exits_def)
          then have "follows func (start C1) (archive_trace cr F u m) rc s'"
            using Some tr v12 follows_stop [OF v12, of 0 zs] by (auto simp: follows_def split: if_splits option.splits)
          then show False using neg by simp
        next
          case None
          then have e: "rc3 = 0" "e = None" by (auto split: if_splits)
          obtain S2 where r2: "?r = Inr (S2, s3)" using ex e by (auto simp: exits_def)
          obtain rc4 r4 s4 where h4: "iter_headers func (mi_tindex tmi) s3 = (rc4, r4, s4)" by (metis prod_cases3)
          have v4: "visit func zs s3 = (rc4, s4)" using iter_headers_visit [OF t(2,3), of func s3] h4 t(1) by simp
          have "rc = rc4" "s' = s4" using run' r2 h4 by (auto split: if_splits)
          then have "follows func s3 (0, zs) rc s'" using v4 by (simp add: follows_def)
          then have "follows func (start C1) (0, (xs @ vs) @ zs) rc s'" using follows_go [of func "xs @ vs"] v12 e(1) by simp
          then show False using neg tr e(2) by simp
        qed
      qed
    qed
  qed
qed

subsection \<open>Counting the chunks of an archive\<close>

abbreviation header_use :: "bytes \<Rightarrow> chunk_use" where
  "header_use v \<equiv> (ch_hash v, ch_len v, ch_zlen v)"

lemma counted_settled: "fsck_inv hash D (counted as cur) C \<Longrightarrow> fsck_inv hash D (settled as []) C"
  unfolding fsck_inv_def counted_def settled_def by (auto simp: map_add_Some_iff)

text \<open>The fields that the uses of an archive leave alone.\<close>

definition same_totals :: "chunks_s \<Rightarrow> chunks_s \<Rightarrow> bool" where
  "same_totals C C' \<longleftrightarrow> cs_stats_total C' = cs_stats_total C \<and> cs_stats_unique C' = cs_stats_unique C \<and>
     cs_stats_extra C' = cs_stats_extra C \<and> cs_stats_tapee C' = cs_stats_tapee C \<and> cs_path C' = cs_path C"

lemma same_totals_refl [simp]: "same_totals C C"
  by (simp add: same_totals_def)

lemma same_totals_trans: "same_totals C C' \<Longrightarrow> same_totals C' C'' \<Longrightarrow> same_totals C C''"
  by (simp add: same_totals_def)

lemma addchunk_totals: "chunks_stats_addchunk hash C h len zlen = Some (rc, C') \<Longrightarrow> same_totals C C'"
  by (auto simp: chunks_stats_addchunk_def same_totals_def Let_def split: option.splits)

definition header_ok :: "bytes \<Rightarrow> bool" where
  "header_ok v \<longleftrightarrow> 0 < ch_len v \<and> 0 < ch_zlen v \<and> ch_zlen v < 2 ^ 30"

lemma visit_chunkref:
  assumes inv: "fsck_inv hash D (counted as cur) C" "cs_stats_tape C = triples_stats cur"
    and vs: "\<forall>v\<in>set vs. header_ok v" and sizes: "length as < 4294967296" "length cur + length vs < 4294967296"
  shows "\<exists>C' cur'. visit (callback_chunkref hash) vs (Some C) = (if ch_hash ` set vs \<subseteq> D then 0 else 1, Some C') \<and>
    fsck_inv hash D (counted as cur') C' \<and> same_totals C C' \<and>
    (ch_hash ` set vs \<subseteq> D \<longrightarrow> cur' = cur @ map header_use vs \<and> cs_stats_tape C' = triples_stats cur')"
  using assms
proof (induction vs arbitrary: cur C)
  case Nil
  then show ?case by auto
next
  case (Cons v vs)
  have z: "ch_zlen v < 2 ^ 30" using Cons.prems(3) by (simp add: header_ok_def)
  show ?case
  proof (cases "ch_hash v \<in> D")
    case False
    have "rwhashtab_read hash cd_hash (cs_HT C) (ch_hash v) = Some (dir_map (cs_HT C) (ch_hash v))"
      using Cons.prems(1) by (simp add: fsck_inv_def rwhashtab_read_spec)
    moreover have "dir_map (cs_HT C) (ch_hash v) = None" using Cons.prems(1) False by (auto simp: fsck_inv_def)
    ultimately have "callback_chunkref hash (Some C) v = (1, Some C)" by (simp add: callback_chunkref_def chunks_stats_addchunk_def)
    then show ?thesis using False Cons.prems(1) by auto
  next
    case True
    have len: "length cur < 4294967296" "length (cur @ [header_use v]) + length vs < 4294967296" using Cons.prems(5) by simp_all
    obtain C1 where C1: "chunks_stats_addchunk hash C (ch_hash v) (ch_len v) (ch_zlen v) = Some (0, C1)"
        "fsck_inv hash D (counted as (cur @ [header_use v])) C1" "cs_stats_tape C1 = triples_stats (cur @ [header_use v])"
      using addchunk_inv [OF Cons.prems(1,2) True z Cons.prems(4) len(1), of "ch_len v"] by blast
    have cb: "callback_chunkref hash (Some C) v = (0, Some C1)" using C1(1) by (simp add: callback_chunkref_def)
    have ok: "\<forall>v\<in>set vs. header_ok v" using Cons.prems(3) by simp
    obtain C' cur' where "visit (callback_chunkref hash) vs (Some C1) = (if ch_hash ` set vs \<subseteq> D then 0 else 1, Some C')"
        "fsck_inv hash D (counted as cur') C'" "same_totals C1 C'"
        "ch_hash ` set vs \<subseteq> D \<longrightarrow> cur' = (cur @ [header_use v]) @ map header_use vs \<and> cs_stats_tape C' = triples_stats cur'"
      using Cons.IH [OF C1(2,3) ok Cons.prems(4) len(2)] by blast
    then show ?thesis
      using cb True same_totals_trans [OF addchunk_totals [OF C1(1)]] by (intro exI [of _ C'] exI [of _ cur']) simp
  qed
qed

text \<open>The cookie after the index has been read.\<close>

lemma get_frags_cookie:
  "\<exists>x. snd (snd (get_frags cr rfile h len n mbuf S (Some C))) = Some (C\<lparr>cs_stats_tapee := x\<rparr>)"
proof (induction "len - n * MAXIFRAG" arbitrary: n mbuf S C rule: less_induct)
  case less
  show ?case
  proof (cases "n * MAXIFRAG < len")
    case False
    then show ?thesis by (subst get_frags.simps) (auto intro!: exI [of _ "cs_stats_tapee C"])
  next
    case True
    have small: "len - (n + 1) * MAXIFRAG < len - n * MAXIFRAG" using True by (simp add: MAXIFRAG_def MAXCHUNK_def)
    obtain x S1 where x: "rfile S (frag_length len n) (CHR ''i'') (multitape_metaindex_fragname cr h (of_nat n)) = (x, S1)" by fastforce
    show ?thesis
    proof (cases x)
      case (Inl e)
      then show ?thesis using True x by (subst get_frags.simps) (auto simp: Let_def intro!: exI [of _ "cs_stats_tapee C"])
    next
      case (Inr b)
      let ?C = "chunks_stats_extrastats C (frag_length len n)"
      obtain y where "snd (snd (get_frags cr rfile h len (n + 1) (mbuf @ b) S1 (Some ?C))) = Some (?C\<lparr>cs_stats_tapee := y\<rparr>)"
        using less.hyps [OF small, of "mbuf @ b" S1 ?C] by blast
      then show ?thesis
        using True x Inr by (subst get_frags.simps) (simp add: Let_def chunks_stats_extrastats_def, blast)
    qed
  qed
qed

text \<open>The fragments of an index of \<open>len\<close> bytes, and the files of an archive other than chunks.\<close>

definition nfrags :: "nat \<Rightarrow> nat" where
  "nfrags len = (len + MAXIFRAG - 1) div MAXIFRAG"

lemma nfrags_iff: "n * MAXIFRAG < len \<longleftrightarrow> n < nfrags len"
proof -
  have "n < (len + MAXIFRAG - 1) div MAXIFRAG \<longleftrightarrow> Suc n * MAXIFRAG \<le> len + MAXIFRAG - 1"
    unfolding Suc_le_eq [symmetric] by (rule less_eq_div_iff_mult_less_eq) simp
  also have "\<dots> \<longleftrightarrow> n * MAXIFRAG < len" by (simp add: MAXIFRAG_def MAXCHUNK_def) arith
  finally show ?thesis by (simp add: nfrags_def)
qed

abbreviation files_stats :: "nat \<Rightarrow> nat \<Rightarrow> chunkstats" where
  "files_stats k len \<equiv> \<lparr>st_nchunks = of_nat k, st_len = of_nat len, st_zlen = of_nat len\<rparr>"

lemma get_frags_extra:
  assumes "get_frags cr rfile h len n mbuf S (Some C) = (Inr b, S', C')"
  shows "C' = Some (C\<lparr>cs_stats_tapee := chunks_stats_addstats (cs_stats_tapee C) (files_stats (nfrags len - n) (len - n * MAXIFRAG))\<rparr>)"
  using assms
proof (induction "len - n * MAXIFRAG" arbitrary: n mbuf S C rule: less_induct)
  case less
  show ?case
  proof (cases "n * MAXIFRAG < len")
    case False
    then have "nfrags len - n = 0" "len - n * MAXIFRAG = 0" using nfrags_iff [of n len] by (simp_all add: not_less)
    then show ?thesis using less.prems False by (subst (asm) get_frags.simps) (simp add: chunks_stats_addstats_def)
  next
    case True
    have small: "len - (n + 1) * MAXIFRAG < len - n * MAXIFRAG" using True by (simp add: MAXIFRAG_def MAXCHUNK_def)
    let ?k = "frag_length len n"
    obtain b1 S1 where b: "rfile S ?k (CHR ''i'') (multitape_metaindex_fragname cr h (of_nat n)) = (Inr b1, S1)"
        "get_frags cr rfile h len (n + 1) (mbuf @ b1) S1 (Some (chunks_stats_extrastats C ?k)) = (Inr b, S', C')"
      using less.prems True by (subst (asm) get_frags.simps) (auto simp: Let_def split: prod.splits sum.splits)
    have nf: "nfrags len - n = Suc (nfrags len - (n + 1))" using True unfolding nfrags_iff by simp
    have k: "len - n * MAXIFRAG = ?k + (len - (n + 1) * MAXIFRAG)"
      using True by (auto simp: frag_length_def Let_def)
    show ?thesis
      using less.hyps [OF small b(2)] unfolding nf k
      by (simp add: chunks_stats_extrastats_def chunks_stats_addstats_def chunks_stats_add_def ac_simps)
  qed
qed

definition archive_extra :: "tapemetadata \<Rightarrow> chunkstats" where
  "archive_extra m =
     files_stats (1 + nfrags (unat (tm_indexlen m))) (tm_metadatalen m + unat (tm_indexlen m))"

lemma metaindex_get_cookie:
  "\<exists>x. snd (snd (multitape_metaindex_get ma cr rfile S (Some C) m)) = Some (C\<lparr>cs_stats_tapee := x\<rparr>)"
proof -
  have id: "Some C = Some (C\<lparr>cs_stats_tapee := cs_stats_tapee C\<rparr>)" by simp
  show ?thesis
  proof (cases "crypto_hash_data cr CRYPTO_KEY_HMAC_NAME (tm_name m)")
    case None
    then show ?thesis using id by (simp add: multitape_metaindex_get_def) (rule exI [of _ "cs_stats_tapee C"], simp)
  next
    case (Some h)
    obtain x S1 C1 where x: "get_frags cr rfile h (unat (tm_indexlen m)) 0 [] S (Some C) = (x, S1, C1)" by (metis prod_cases3)
    obtain y where "C1 = Some (C\<lparr>cs_stats_tapee := y\<rparr>)"
      using get_frags_cookie [of cr rfile h "unat (tm_indexlen m)" 0 "[]" S C] x by auto
    then show ?thesis
      using Some x by (auto simp: multitape_metaindex_get_def split: sum.splits option.splits intro: exI [of _ "cs_stats_tapee C"])
  qed
qed

lemma metaindex_get_extra:
  assumes "fst (multitape_metaindex_get ma cr rfile S (Some C) m) = Inr tmi"
  shows "snd (snd (multitape_metaindex_get ma cr rfile S (Some C) m)) =
    Some (C\<lparr>cs_stats_tapee := chunks_stats_addstats (cs_stats_tapee C) (files_stats (nfrags (unat (tm_indexlen m))) (unat (tm_indexlen m)))\<rparr>)"
proof -
  obtain h where h: "crypto_hash_data cr CRYPTO_KEY_HMAC_NAME (tm_name m) = Some h"
    using assms by (cases "crypto_hash_data cr CRYPTO_KEY_HMAC_NAME (tm_name m)") (auto simp: multitape_metaindex_get_def)
  obtain x S1 C1 where x: "get_frags cr rfile h (unat (tm_indexlen m)) 0 [] S (Some C) = (x, S1, C1)" by (metis prod_cases3)
  then obtain b where b: "x = Inr b" using assms h by (cases x) (auto simp: multitape_metaindex_get_def split: if_splits)
  note C1 = get_frags_extra [OF x [unfolded b]]
  show ?thesis using assms h x b C1 by (auto simp: multitape_metaindex_get_def split: if_splits option.splits)
qed

subsection \<open>What the phases are to find and to do\<close>

definition archive_uses :: "crypto \<Rightarrow> server \<Rightarrow> uncompress \<Rightarrow> tapemetadata \<Rightarrow> chunk_use list" where
  "archive_uses cr F u m = map header_use (snd (archive_trace cr F u m))"

text \<open>An archive whose chunks are all in the list of chunk files \<open>D\<close>, and whose index can be read.\<close>

definition complete :: "crypto \<Rightarrow> server \<Rightarrow> uncompress \<Rightarrow> bytes set \<Rightarrow> tapemetadata \<Rightarrow> bool" where
  "complete cr F u D m \<longleftrightarrow> fst (archive_trace cr F u m) = 0 \<and> fst ` set (archive_uses cr F u m) \<subseteq> D"

definition name_hash :: "crypto \<Rightarrow> tapemetadata \<Rightarrow> bytes" where
  "name_hash cr m = the (crypto_hash_data cr CRYPTO_KEY_HMAC_NAME (tm_name m))"

definition index_frags :: "crypto \<Rightarrow> tapemetadata \<Rightarrow> (char \<times> bytes) list" where
  "index_frags cr m = map (frag_file cr (name_hash cr m)) [0..<nfrags (unat (tm_indexlen m))]"

definition archive_files :: "crypto \<Rightarrow> tapemetadata \<Rightarrow> (char \<times> bytes) list" where
  "archive_files cr m = index_frags cr m @ [(CHR ''m'', name_hash cr m)]"

text \<open>The statistics of the files of archives other than chunks.\<close>

definition extras :: "tapemetadata list \<Rightarrow> chunkstats" where
  "extras ms =
     files_stats (\<Sum>m\<leftarrow>ms. 1 + nfrags (unat (tm_indexlen m))) (\<Sum>m\<leftarrow>ms. tm_metadatalen m + unat (tm_indexlen m))"

lemma extras_Nil [simp]: "extras [] = chunks_stats_zero"
  by (simp add: extras_def chunks_stats_zero_def)

lemma extras_snoc: "extras (ms @ [m]) = chunks_stats_addstats (extras ms) (archive_extra m)"
  by (simp add: extras_def archive_extra_def chunks_stats_addstats_def)

text \<open>What the counters can count.\<close>

definition countable_archive :: "crypto \<Rightarrow> server \<Rightarrow> uncompress \<Rightarrow> tapemetadata \<Rightarrow> bool" where
  "countable_archive cr F u m \<longleftrightarrow>
     (\<forall>v\<in>set (snd (archive_trace cr F u m)). header_ok v) \<and> length (snd (archive_trace cr F u m)) < 4294967296"

definition fsck_env_ok :: "bool \<Rightarrow> ('s \<Rightarrow> (char \<times> bytes) list) \<Rightarrow> server \<Rightarrow> ('r, 's) fsck_env \<Rightarrow> bool" where
  "fsck_env_ok fail reqs F FE \<longleftrightarrow>
     answers fail F (fe_ralloc FE) (fe_rfile FE) \<and> (\<forall>S c h. fst (fe_addcache FE S c h) = 0) \<and>
     deletes_logged reqs (fe_dfile FE) \<and> (\<forall>S. reqs (snd (fe_end FE S)) = reqs S) \<and>
     (\<forall>m ro k S q. fe_start FE m ro k = Some (S, q) \<longrightarrow> reqs S = [] \<and> length q = 32) \<and> hmacs_ok (fe_cr FE)"

subsection \<open>Phase 4\<close>

lemma sized_codes: "(\<forall>k rc. F k = Inl rc \<longrightarrow> rc = 1 \<or> rc = 2) \<Longrightarrow> sized n (F k) = Inl rc \<Longrightarrow> rc = 1 \<or> rc = 2"
  by (auto simp: sized_def split: sum.splits if_splits)

abbreviation fsck_code :: "int \<Rightarrow> bool" where
  "fsck_code rc \<equiv> rc = -1 \<or> rc = 1 \<or> rc = 2"

lemma get_frags_codes:
  assumes F: "\<forall>k rc. F k = Inl rc \<longrightarrow> rc = 1 \<or> rc = 2"
  shows "fst (get_frags cr (still_rfile F) h len n mbuf () C) = Inl rc \<Longrightarrow> fsck_code rc"
proof (induction "len - n * MAXIFRAG" arbitrary: n mbuf C rule: less_induct)
  case less
  have True: "n * MAXIFRAG < len" using less.prems by (subst (asm) get_frags.simps) (auto split: if_splits)
  have small: "len - (n + 1) * MAXIFRAG < len - n * MAXIFRAG" using True by (simp add: MAXIFRAG_def MAXCHUNK_def)
  show ?case
    using less.prems True less.hyps [OF small] sized_codes [OF F]
    by (subst (asm) get_frags.simps) (auto simp: Let_def still_rfile_def split: sum.splits)
qed

lemma index_dec_codes: "index_dec ma buf = Inl rc \<Longrightarrow> fsck_code rc"
  by (auto simp: index_dec_def Let_def split: if_splits)

lemma metaindex_get_codes:
  assumes F: "\<forall>k rc. F k = Inl rc \<longrightarrow> rc = 1 \<or> rc = 2"
    and run: "fst (multitape_metaindex_get ma cr (still_rfile F) () C m) = Inl rc"
  shows "fsck_code rc"
proof (cases "crypto_hash_data cr CRYPTO_KEY_HMAC_NAME (tm_name m)")
  case None
  then show ?thesis using run by (simp add: multitape_metaindex_get_def)
next
  case (Some h)
  obtain x S1 C1 where x: "get_frags cr (still_rfile F) h (unat (tm_indexlen m)) 0 [] () C = (x, S1, C1)" by (metis prod_cases3)
  have dec: "metaindex_dec ma' b = Inl e \<Longrightarrow> fsck_code e" for ma' b e
    using index_dec_codes by (auto simp: metaindex_dec_def split: sum.splits prod.splits if_splits)
  show ?thesis
  proof (cases x)
    case (Inl e)
    then show ?thesis using run Some x get_frags_codes [OF F, of cr h "unat (tm_indexlen m)" 0 "[]" C e]
      by (simp add: multitape_metaindex_get_def split: if_splits)
  next
    case (Inr b)
    then show ?thesis using run Some x dec by (simp add: multitape_metaindex_get_def split: if_splits option.splits)
  qed
qed

lemma iter_cindex_codes:
  assumes F: "\<forall>k rc. F k = Inl rc \<longrightarrow> rc = 1 \<or> rc = 2"
  shows "iter_cindex cr (still_rfile F) still_cache u CR collect cindex ibuf S us = Inl (rc, S', us') \<Longrightarrow> fsck_code rc"
proof (induction "length cindex" arbitrary: cindex ibuf S us rule: less_induct)
  case less
  show ?case
  proof (cases "40 \<le> length cindex")
    case False
    then show ?thesis using less.prems by (subst (asm) iter_cindex.simps) simp
  next
    case True
    then have small: "length (drop 40 cindex) < length cindex" by simp
    let ?v = "take 40 cindex"
    have read: "fst (chunks_read_chunk cr (still_rfile F) u CR () (ch_hash ?v) (ch_len ?v) (ch_zlen ?v)) = Inl e \<Longrightarrow> fsck_code e" for e
      using sized_codes [OF F] by (auto simp: chunks_read_chunk_def still_rfile_def split: if_splits sum.splits option.splits)
    define x where "x = fst (chunks_read_chunk cr (still_rfile F) u CR () (ch_hash ?v) (ch_len ?v) (ch_zlen ?v))"
    then have x: "chunks_read_chunk cr (still_rfile F) u CR () (ch_hash ?v) (ch_len ?v) (ch_zlen ?v) = (x, ())" by (simp add: prod_eq_iff)
    have run: "(if ch_len ?v > MAXCHUNK then Inl (2, (), us @ [?v])
        else case x of Inl rc \<Rightarrow> Inl (rc, (), us @ [?v])
          | Inr b \<Rightarrow> (case iter_headers collect (ibuf @ b) (us @ [?v]) of (rc, ibuf, s) \<Rightarrow>
              if rc \<noteq> 0 then Inl (rc, (), s)
              else iter_cindex cr (still_rfile F) still_cache u CR collect (drop 40 cindex) ibuf () s)) = Inl (rc, (), us')"
      using less.prems True x by (subst (asm) iter_cindex.simps) (simp add: chunks_read_cache_def still_cache_def Let_def split: if_splits sum.splits)
    show ?thesis
    proof (cases "ch_len ?v > MAXCHUNK")
      case True
      then show ?thesis using run by simp
    next
      case ok: False
      show ?thesis
      proof (cases x)
        case (Inl e)
        then show ?thesis using run ok read [of e] x by simp
      next
        case (Inr b)
        obtain xs r where r: "ibuf @ b = concat xs @ r" "\<forall>x\<in>set xs. length x = 40" "length r < 40" using headers_split by blast
        have "iter_headers collect (ibuf @ b) (us @ [?v]) = (0, r, (us @ [?v]) @ xs)"
          unfolding r(1) using iter_headers_progress [OF r(2,3) visit_collect] by simp
        then show ?thesis using run ok Inr less.hyps [OF small] by simp
      qed
    qed
  qed
qed

lemma trace_codes:
  assumes F: "\<forall>k rc. F k = Inl rc \<longrightarrow> rc = 1 \<or> rc = 2"
  shows "fst (archive_trace cr F u m) = 0 \<and> (\<exists>tmi. fst (multitape_metaindex_get mem_ok cr (still_rfile F) () None m) = Inr tmi) \<or>
    fsck_code (fst (archive_trace cr F u m))"
proof -
  have CR: "chunks_read_init mem_ok MAXCHUNK = Some (the (chunks_read_init mem_ok MAXCHUNK))"
    by (simp add: chunks_read_init_def MAXCHUNK_def)
  obtain y D1 where y: "multitape_metaindex_get mem_ok cr (still_rfile F) () None m = (y, (), D1)"
    by (cases "multitape_metaindex_get mem_ok cr (still_rfile F) () None m") auto
  show ?thesis
  proof (cases y)
    case (Inl e)
    have "archive_trace cr F u m = (e, [])"
      unfolding archive_trace_def multitape_chunkiter_tmd_def by (subst CR) (simp add: y [simplified] Inl)
    then show ?thesis using metaindex_get_codes [OF F, of mem_ok cr None m e] y Inl by simp
  next
    case (Inr tmi)
    obtain xs r where h: "mi_hindex tmi = concat xs @ r" "\<forall>x\<in>set xs. length x = 40" "length r < 40" using headers_split by blast
    obtain zs t where t: "mi_tindex tmi = concat zs @ t" "\<forall>x\<in>set zs. length x = 40" "length t < 40" using headers_split by blast
    let ?r = "iter_cindex cr (still_rfile F) still_cache u (the (chunks_read_init mem_ok MAXCHUNK)) collect (mi_cindex tmi) [] () xs"
    have i1: "iter_headers collect (mi_hindex tmi) [] = (0, r, xs)"
      unfolding h(1) using iter_headers_progress [OF h(2,3) visit_collect, of "[]"] by simp
    have i2: "iter_headers collect (mi_tindex tmi) us = (0, t, us @ zs)" for us
      unfolding t(1) using iter_headers_progress [OF t(2,3) visit_collect] by simp
    have "archive_trace cr F u m = (case ?r of Inl (e, _, us) \<Rightarrow> (e, us) | Inr (_, us) \<Rightarrow> (0, us @ zs))"
      unfolding archive_trace_def multitape_chunkiter_tmd_def
      by (subst CR) (simp add: y [simplified] Inr i1 i2 split: sum.splits prod.splits)
    then show ?thesis using iter_cindex_codes [OF F, of cr u _ "mi_cindex tmi" "[]" "()" xs] y Inr
      by (auto split: sum.splits prod.splits)
  qed
qed

lemma deletes_loggedD: "deletes_logged reqs dfile \<Longrightarrow> dfile s c h = (rc, s') \<Longrightarrow> reqs s' = reqs s @ [(c, h)]"
  unfolding deletes_logged_def by (metis snd_conv)

lemma upt_Suc_step: "n < k \<Longrightarrow> map f [n..<k] = f n # map f [Suc n..<k]"
  by (simp add: upt_conv_Cons)

lemma delete_index_frags_spec:
  assumes log: "deletes_logged reqs dfile" and run: "delete_index_frags cr dfile h len n S = (0, S')"
  shows "reqs S' = reqs S @ map (frag_file cr h) [n..<nfrags len]"
  using run
proof (induction "len - n * MAXIFRAG" arbitrary: n S rule: less_induct)
  case less
  show ?case
  proof (cases "n * MAXIFRAG < len")
    case False
    then have "nfrags len \<le> n" using nfrags_iff [of n len] by simp
    then show ?thesis using less.prems False by (subst (asm) delete_index_frags.simps) simp
  next
    case True
    have small: "len - (n + 1) * MAXIFRAG < len - n * MAXIFRAG" using True by (simp add: MAXIFRAG_def MAXCHUNK_def)
    obtain S1 where S1: "dfile S (CHR ''i'') (multitape_metaindex_fragname cr h (of_nat n)) = (0, S1)"
        "delete_index_frags cr dfile h len (n + 1) S1 = (0, S')"
      using less.prems True by (subst (asm) delete_index_frags.simps) (auto split: prod.splits if_splits)
    have "n < nfrags len" using True nfrags_iff by simp
    from less.hyps [OF small S1(2)] show ?thesis
      by (simp add: deletes_loggedD [OF log S1(1)] upt_Suc_step [OF \<open>n < nfrags len\<close>])
  qed
qed

lemma deletearchive_spec:
  assumes log: "deletes_logged reqs dfile" and run: "deletearchive cr dfile S m = (0, S')"
  shows "reqs S' = reqs S @ archive_files cr m"
proof -
  obtain h where h: "crypto_hash_data cr CRYPTO_KEY_HMAC_NAME (tm_name m) = Some h"
    using run by (auto simp: deletearchive_def split: option.splits)
  obtain S1 where S1: "delete_index_frags cr dfile h (unat (tm_indexlen m)) 0 S = (0, S1)" "dfile S1 (CHR ''m'') h = (0, S')"
    using run h by (auto simp: deletearchive_def split: prod.splits if_splits)
  show ?thesis
    using delete_index_frags_spec [OF log S1(1)] deletes_loggedD [OF log S1(2)]
    by (simp add: archive_files_def index_frags_def name_hash_def h)
qed

text \<open>The cookie after the archives \<open>ms\<close> have been counted.\<close>

definition counts_archives :: "(bytes \<Rightarrow> bytes) \<Rightarrow> crypto \<Rightarrow> server \<Rightarrow> uncompress \<Rightarrow> bytes set \<Rightarrow> string \<Rightarrow> tapemetadata list \<Rightarrow> chunks_s \<Rightarrow> bool" where
  "counts_archives hash cr F u D c ms C \<longleftrightarrow>
     fsck_inv hash D (settled (map (archive_uses cr F u) ms) []) C \<and>
     cs_stats_total C = triples_stats (concat (map (archive_uses cr F u) ms)) \<and> cs_stats_extra C = extras ms \<and> cs_path C = c"

lemma zeroarchive_extra:
  "cs_stats_extra (chunks_stats_zeroarchive C) = cs_stats_extra C" "cs_stats_tapee (chunks_stats_zeroarchive C) = chunks_stats_zero"
  by (simp_all add: chunks_stats_zeroarchive_def split: prod.splits)

lemma archive_add_extra:
  "chunks_fsck_archive_add C = (rc, C') \<Longrightarrow> cs_stats_extra C' = chunks_stats_addstats (cs_stats_extra C) (cs_stats_tapee C)"
  by (auto simp: chunks_fsck_archive_add_def Let_def split: prod.splits)

lemma phase4_archive:
  assumes env: "fsck_env_ok fail reqs F FE" and inv: "counts_archives (fe_hash FE) (fe_cr FE) F (fe_uncompress FE) D c ms C"
    and m: "countable_archive (fe_cr FE) F (fe_uncompress FE) m" and ms: "length ms < 4294967296"
    and run: "multitape_chunkiter_tmd ma (fe_cr FE) (fe_rfile FE) (fe_addcache FE) (fe_uncompress FE) m
      (callback_chunkref (fe_hash FE)) SR (Some (chunks_stats_extrastats (chunks_stats_zeroarchive C) (tm_metadatalen m))) (\<lambda>C. C) = (rc, SR', C')"
    and ma: "mem_may fail ma" and rc: "rc = -1 \<Longrightarrow> \<not> fail \<and> fst (archive_trace (fe_cr FE) F (fe_uncompress FE) m) \<noteq> -1"
  shows "\<exists>C1. C' = Some C1 \<and>
    (if complete (fe_cr FE) F (fe_uncompress FE) D m
     then rc = 0 \<and> (\<exists>C2. chunks_fsck_archive_add C1 = (0, C2) \<and> counts_archives (fe_hash FE) (fe_cr FE) F (fe_uncompress FE) D c (ms @ [m]) C2)
     else (rc = 1 \<or> rc = 2) \<and> counts_archives (fe_hash FE) (fe_cr FE) F (fe_uncompress FE) D c ms C1)"
proof -
  let ?cr = "fe_cr FE" and ?u = "fe_uncompress FE" and ?hash = "fe_hash FE"
  let ?as = "map (archive_uses ?cr F ?u) ms"
  define C0 where "C0 = chunks_stats_extrastats (chunks_stats_zeroarchive C) (tm_metadatalen m)"
  have e: "answers fail F (fe_ralloc FE) (fe_rfile FE)" "\<forall>S c h. fst (fe_addcache FE S c h) = 0" "\<forall>k rc. F k = Inl rc \<longrightarrow> rc = 1 \<or> rc = 2"
    using env by (simp_all add: fsck_env_ok_def answers_def)
  have i: "fsck_inv ?hash D (settled ?as []) C" "cs_stats_total C = triples_stats (concat ?as)" "cs_stats_extra C = extras ms" "cs_path C = c"
    using inv by (simp_all add: counts_archives_def)
  note z = zeroarchive_inv [OF i(1,2)]
  have C0: "fsck_inv ?hash D (counted ?as []) C0" "cs_stats_tape C0 = triples_stats []" "cs_stats_total C0 = triples_stats (concat ?as)"
      "cs_path C0 = c" "cs_stats_extra C0 = extras ms" "cs_stats_tapee C0 = files_stats 1 (tm_metadatalen m)"
    using z i(3,4) by (simp_all add: C0_def chunks_stats_extrastats_def fsck_inv_def zeroarchive_extra chunks_stats_add_def chunks_stats_zero_def)
  obtain ma' S where f0: "fst (multitape_metaindex_get ma' ?cr (fe_rfile FE) S (Some C0) m) =
        fst (multitape_metaindex_get mem_ok ?cr (still_rfile F) () None m)"
      "follows (callback_chunkref ?hash) (snd (snd (multitape_metaindex_get ma' ?cr (fe_rfile FE) S (Some C0) m))) (archive_trace ?cr F ?u m) rc C'"
    using chunkiter_trace [OF e(1,2) run [folded C0_def] ma] rc by blast
  obtain x where x: "snd (snd (multitape_metaindex_get ma' ?cr (fe_rfile FE) S (Some C0) m)) = Some (C0\<lparr>cs_stats_tapee := x\<rparr>)"
    using metaindex_get_cookie [of ma' ?cr "fe_rfile FE" S C0 m] by blast
  define C1 where "C1 = C0\<lparr>cs_stats_tapee := x\<rparr>"
  obtain tr vs where tr: "archive_trace ?cr F ?u m = (tr, vs)" by fastforce
  have C1: "fsck_inv ?hash D (counted ?as []) C1" "cs_stats_tape C1 = triples_stats []" using C0 by (simp_all add: C1_def fsck_inv_def)
  have sizes: "\<forall>v\<in>set vs. header_ok v" "length ?as < 4294967296" "length ([] :: chunk_use list) + length vs < 4294967296"
    using m ms tr by (simp_all add: countable_archive_def)
  obtain C2 cur where v: "visit (callback_chunkref ?hash) vs (Some C1) = (if ch_hash ` set vs \<subseteq> D then 0 else 1, Some C2)"
      "fsck_inv ?hash D (counted ?as cur) C2" "same_totals C1 C2"
      "ch_hash ` set vs \<subseteq> D \<longrightarrow> cur = [] @ map header_use vs \<and> cs_stats_tape C2 = triples_stats cur"
    using visit_chunkref [OF C1 sizes] by blast
  have f: "C' = Some C2" "rc = (if ch_hash ` set vs \<subseteq> D then tr else 1)"
    using f0(2) v(1) tr unfolding x C1_def [symmetric] by (auto simp: follows_def)
  have uses: "archive_uses ?cr F ?u m = map header_use vs" by (simp add: archive_uses_def tr)
  have comp: "complete ?cr F ?u D m \<longleftrightarrow> tr = 0 \<and> ch_hash ` set vs \<subseteq> D" by (simp add: complete_def tr uses image_image)
  have tot: "cs_stats_total C2 = triples_stats (concat ?as)" "cs_stats_extra C2 = extras ms" "cs_path C2 = c" "cs_stats_tapee C2 = x"
    using v(3) C0 by (simp_all add: same_totals_def C1_def)
  show ?thesis
  proof (cases "complete ?cr F ?u D m")
    case True
    then have c: "tr = 0" "ch_hash ` set vs \<subseteq> D" using comp by blast+
    then have cur: "cur = archive_uses ?cr F ?u m" "cs_stats_tape C2 = triples_stats cur" using v(4) uses by simp_all
    have "\<not> fsck_code (fst (archive_trace ?cr F ?u m))" using c(1) tr by simp
    then obtain tmi where "fst (multitape_metaindex_get mem_ok ?cr (still_rfile F) () None m) = Inr tmi"
      using trace_codes [OF e(3), of ?cr ?u m] by blast
    then have "fst (multitape_metaindex_get ma' ?cr (fe_rfile FE) S (Some C0) m) = Inr tmi" using f0(1) by simp
    from arg_cong [OF metaindex_get_extra [OF this, unfolded x], of "\<lambda>C. cs_stats_tapee (the C)"]
    have xval: "x = chunks_stats_addstats (cs_stats_tapee C0) (files_stats (nfrags (unat (tm_indexlen m))) (unat (tm_indexlen m)))"
      by simp
    have "x = archive_extra m" unfolding xval C0(6) by (simp add: chunks_stats_addstats_def archive_extra_def)
    moreover obtain C3 where C3: "chunks_fsck_archive_add C2 = (0, C3)" "fsck_inv ?hash D (settled (?as @ [cur]) []) C3"
        "cs_stats_total C3 = triples_stats (concat (?as @ [cur]))" "cs_path C3 = cs_path C2"
      using archive_add_inv [OF v(2) tot(1) cur(2)] by blast
    ultimately have "counts_archives ?hash ?cr F ?u D c (ms @ [m]) C3"
      using archive_add_extra [OF C3(1)] tot cur(1) by (simp add: counts_archives_def extras_snoc)
    then show ?thesis using True f c C3(1) by simp
  next
    case False
    then have "rc \<noteq> 0" using f(2) comp by auto
    moreover have "rc \<noteq> -1" using rc f(2) tr by auto
    moreover have "tr = 0 \<or> fsck_code tr" using trace_codes [OF e(3), of ?cr ?u m] tr by auto
    ultimately have "rc = 1 \<or> rc = 2" using f(2) by (auto split: if_splits)
    moreover have "counts_archives ?hash ?cr F ?u D c ms C2" using counted_settled [OF v(2)] tot by (simp add: counts_archives_def)
    ultimately show ?thesis using False f(1) by simp
  qed
qed

abbreviation broken_archives :: "crypto \<Rightarrow> server \<Rightarrow> uncompress \<Rightarrow> bytes set \<Rightarrow> tapemetadata list \<Rightarrow> tapemetadata list" where
  "broken_archives cr F u D ms \<equiv> filter (\<lambda>m. \<not> complete cr F u D m) ms"

lemma phase4_archives_spec:
  assumes env: "fsck_env_ok fail reqs F FE" and inv: "counts_archives (fe_hash FE) (fe_cr FE) F (fe_uncompress FE) D c ms C"
    and m: "\<forall>m\<in>set (somes mdatlist). countable_archive (fe_cr FE) F (fe_uncompress FE) m"
    and len: "length ms + length mdatlist < 4294967296"
    and ma: "\<And>k. mem_may fail (ma k)" and run: "phase4_archives ma FE n mdatlist SD SR C = Some (0, SD', SR', C')"
  shows "counts_archives (fe_hash FE) (fe_cr FE) F (fe_uncompress FE) D c
      (ms @ filter (complete (fe_cr FE) F (fe_uncompress FE) D) (somes mdatlist)) C' \<and>
    reqs SD' = reqs SD @ concat (map (archive_files (fe_cr FE)) (broken_archives (fe_cr FE) F (fe_uncompress FE) D (somes mdatlist)))"
  using inv m len run
proof (induction mdatlist arbitrary: n ms SD SR C)
  case Nil
  then show ?case by simp
next
  case (Cons x mdatlist)
  show ?case
  proof (cases x)
    case None
    then show ?thesis using Cons.IH [of ms C "Suc n" SD SR] Cons.prems by simp
  next
    case (Some m)
    let ?cr = "fe_cr FE" and ?u = "fe_uncompress FE"
    have p: "somes (x # mdatlist) = m # somes mdatlist" by (simp add: Some)
    have m1: "countable_archive ?cr F ?u m" and m2: "\<forall>m\<in>set (somes mdatlist). countable_archive ?cr F ?u m"
      using Cons.prems(2) unfolding p by simp_all
    obtain rc SR1 C1 where it: "multitape_chunkiter_tmd (ma n) ?cr (fe_rfile FE) (fe_addcache FE) ?u m
        (callback_chunkref (fe_hash FE)) SR (Some (chunks_stats_extrastats (chunks_stats_zeroarchive C) (tm_metadatalen m))) (\<lambda>C. C) = (rc, SR1, C1)"
      by (metis prod_cases3)
    have rc: "rc \<noteq> -1" using Cons.prems(4) it by (auto simp: Some Let_def split: option.splits)
    have lms: "length ms < 4294967296" using Cons.prems(3) by simp
    obtain C2 where C2: "C1 = Some C2" and step: "if complete ?cr F ?u D m
       then rc = 0 \<and> (\<exists>C3. chunks_fsck_archive_add C2 = (0, C3) \<and> counts_archives (fe_hash FE) ?cr F ?u D c (ms @ [m]) C3)
       else (rc = 1 \<or> rc = 2) \<and> counts_archives (fe_hash FE) ?cr F ?u D c ms C2"
      using phase4_archive [OF env Cons.prems(1) m1 lms it ma] rc by blast
    show ?thesis
    proof (cases "complete ?cr F ?u D m")
      case True
      then obtain C3 where C3: "rc = 0" "chunks_fsck_archive_add C2 = (0, C3)" "counts_archives (fe_hash FE) ?cr F ?u D c (ms @ [m]) C3"
        using step by auto
      have run': "phase4_archives ma FE (Suc n) mdatlist SD SR1 C3 = Some (0, SD', SR', C')"
        using Cons.prems(4) it by (simp add: Some C2 C3 Let_def)
      have "length (ms @ [m]) + length mdatlist < 4294967296" using Cons.prems(3) by simp
      from Cons.IH [OF C3(3) m2 this run'] show ?thesis using True unfolding p by simp
    next
      case False
      then have st: "rc = 1 \<or> rc = 2" "counts_archives (fe_hash FE) ?cr F ?u D c ms C2" using step by auto
      obtain SD1 where del: "deletearchive ?cr (fe_dfile FE) SD m = (0, SD1)"
          "phase4_archives ma FE (Suc n) mdatlist SD1 SR1 C2 = Some (0, SD', SR', C')"
        using Cons.prems(4) it st(1) by (auto simp: Some C2 Let_def split: prod.splits if_splits)
      have log: "deletes_logged reqs (fe_dfile FE)" using env by (simp add: fsck_env_ok_def)
      have "length ms + length mdatlist < 4294967296" using Cons.prems(3) by simp
      from Cons.IH [OF st(2) m2 this del(2)] deletearchive_spec [OF log del(1)] show ?thesis
        using False unfolding p by simp
    qed
  qed
qed

end
