(* ===== verification/Fsck_Run.thy ===== *)
theory Fsck_Run
  imports Fsck_Archives
begin

text \<open>
  A whole run of \<^verbatim>\<open>fscktape\<close> (\<^verbatim>\<open>tar/multitape/multitape_fsck.c\<close>): which files it asks the server to
  delete, the transaction it commits, the chunk directory it leaves, and that it succeeds when no call
  fails.
\<close>

subsection \<open>Phases 1, 2 and 5\<close>

text \<open>The metadata that can be read, and the hashes of the corrupt ones.\<close>

definition metas :: "crypto \<Rightarrow> server \<Rightarrow> tapemetadata \<Rightarrow> bytes list \<Rightarrow> tapemetadata list" where
  "metas cr F junk ml = somes (map (\<lambda>h. case metadata_at cr F junk h of Inl rc \<Rightarrow> None | Inr m \<Rightarrow> Some m) ml)"

definition corrupt :: "crypto \<Rightarrow> server \<Rightarrow> tapemetadata \<Rightarrow> bytes list \<Rightarrow> bytes list" where
  "corrupt cr F junk ml = filter (\<lambda>h. metadata_at cr F junk h = Inl 2) ml"

lemma phase1_files_spec:
  assumes ans: "answers fail F ralloc rfile" and log: "deletes_logged reqs dfile" and ma: "\<And>k. mem_may fail (mget k)"
    and run: "phase1_files ma mget cr ralloc dfile junk n ml SD SR ms = (0, SD', SR', ms')"
  shows "ms' = ms @ metas cr F junk ml \<and> reqs SD' = reqs SD @ map (Pair (CHR ''m'')) (corrupt cr F junk ml)"
  using run
proof (induction ml arbitrary: n SD SR ms)
  case Nil
  then show ?case by (simp add: metas_def corrupt_def)
next
  case (Cons h ml)
  obtain x SR1 C where x: "multitape_metadata_get_byhash (mget n) cr ralloc SR None junk h = (x, SR1, C)" by (metis prod_cases3)
  have xo: "or_error fail x (metadata_at cr F junk h)"
    using metadata_get_still [OF ans ma, of n cr SR None junk h] x by (simp add: multitape_metadata_get_byhash_def)
  have ma: "ma n" using Cons.prems by (simp split: if_splits)
  show ?case
  proof (cases x)
    case (Inr m)
    then have "metadata_at cr F junk h = Inr m" using xo by (simp add: or_error_def)
    moreover have "phase1_files ma mget cr ralloc dfile junk (Suc n) ml SD SR1 (ms @ [m]) = (0, SD', SR', ms')"
      using Cons.prems ma x Inr by simp
    ultimately show ?thesis using Cons.IH [of "Suc n" SD SR1 "ms @ [m]"] by (simp add: metas_def corrupt_def)
  next
    case (Inl rc)
    then have rc: "rc \<noteq> -1" "rc \<noteq> 1" using Cons.prems ma x by auto
    then have at: "metadata_at cr F junk h = Inl rc" using xo Inl by (simp add: or_error_def)
    show ?thesis
    proof (cases "rc = 2")
      case True
      then obtain SD1 where d: "dfile SD (CHR ''m'') h = (0, SD1)"
          "phase1_files ma mget cr ralloc dfile junk (Suc n) ml SD1 SR1 ms = (0, SD', SR', ms')"
        using Cons.prems ma x Inl by (auto split: prod.splits if_splits)
      then show ?thesis using Cons.IH [OF d(2)] deletes_loggedD [OF log d(1)] at True by (simp add: metas_def corrupt_def)
    next
      case False
      then have "phase1_files ma mget cr ralloc dfile junk (Suc n) ml SD SR1 ms = (0, SD', SR', ms')"
        using Cons.prems ma x Inl rc by simp
      then show ?thesis using Cons.IH at False by (simp add: metas_def corrupt_def)
    qed
  qed
qed

text \<open>The archives whose index is complete.\<close>

definition indexed :: "crypto \<Rightarrow> bytes list \<Rightarrow> tapemetadata \<Rightarrow> bool" where
  "indexed cr il m \<longleftrightarrow> set (index_frags cr m) \<subseteq> Pair (CHR ''i'') ` set il"

lemma indexed_iff:
  "indexed cr il m \<longleftrightarrow>
     (\<forall>k<nfrags (unat (tm_indexlen m)). multitape_metaindex_fragname cr (name_hash cr m) (of_nat k) \<in> set il)"
  unfolding indexed_def index_frags_def by (simp add: image_subset_iff inj_image_mem_iff inj_on_def Ball_def)

lemma fragname_length: "hmacs_ok cr \<Longrightarrow> length (multitape_metaindex_fragname cr h n) = 32"
  by (simp add: multitape_metaindex_fragname_def hmacs_ok_def)

lemma findinlist_absent:
  assumes "sorted_files il" "length f = 32"
  shows "findinlist f il (length il) = length il \<longleftrightarrow> f \<notin> set il"
proof -
  note s = findinlist_spec [OF assms(1) order_refl assms(2)]
  show ?thesis
  proof
    assume "findinlist f il (length il) = length il"
    then show "f \<notin> set il" using s by auto
  next
    assume f: "f \<notin> set il"
    then have "\<not> findinlist f il (length il) < length il" using s nth_mem by metis
    then show "findinlist f il (length il) = length il" using s by blast
  qed
qed

lemma findinlist_present:
  assumes "sorted_files il" "length f = 32" "f \<in> set il"
  shows "findinlist f il (length il) < length il" "il ! findinlist f il (length il) = f"
  using findinlist_spec [OF assms(1) order_refl assms(2)] assms(3) by auto

lemma ex_from: "n < k \<Longrightarrow> (\<exists>i. n \<le> i \<and> i < k \<and> P i) \<longleftrightarrow> P n \<or> (\<exists>i. n + 1 \<le> i \<and> i < (k :: nat) \<and> P i)"
proof -
  assume n: "n < k"
  have le: "n \<le> i \<longleftrightarrow> i = n \<or> n + 1 \<le> i" for i by auto
  show ?thesis unfolding le [of _] using n by auto
qed

lemma set_from: "n < k \<Longrightarrow> {f i |i. n \<le> i \<and> i < k} = insert (f n) {f i |i. n + 1 \<le> i \<and> i < (k :: nat)}"
  by (rule set_eqI) (use ex_from [of n k "\<lambda>i. _ = f i"] in \<open>auto; metis\<close>)

lemma frags_missing_iff:
  assumes il: "sorted_files il" and cr: "hmacs_ok cr"
  shows "frags_missing cr il h len n \<longleftrightarrow> (\<exists>k. n \<le> k \<and> k < nfrags len \<and> multitape_metaindex_fragname cr h (of_nat k) \<notin> set il)"
proof (induction "len - n * MAXIFRAG" arbitrary: n rule: less_induct)
  case less
  show ?case
  proof (cases "n * MAXIFRAG < len")
    case False
    then have "\<not> n < nfrags len" using nfrags_iff [of n len] by simp
    then show ?thesis using False by (subst frags_missing.simps) auto
  next
    case True
    have small: "len - (n + 1) * MAXIFRAG < len - n * MAXIFRAG" using True by (simp add: MAXIFRAG_def MAXCHUNK_def)
    have n: "n < nfrags len" using True nfrags_iff by simp
    have step: "frags_missing cr il h len n \<longleftrightarrow>
        multitape_metaindex_fragname cr h (of_nat n) \<notin> set il \<or> frags_missing cr il h len (n + 1)"
      using True by (subst frags_missing.simps) (simp add: findinlist_absent [OF il fragname_length [OF cr]])
    show ?thesis unfolding step less.hyps [OF small] ex_from [OF n] by simp
  qed
qed

lemma phase2_check_spec:
  assumes il: "sorted_files il" and cr: "hmacs_ok cr" and log: "deletes_logged reqs dfile"
    and run: "phase2_check cr dfile il ms SD = (0, SD', mdatlist)"
  shows "mdatlist = map (\<lambda>m. if indexed cr il m then Some m else None) ms \<and>
    (\<forall>m\<in>set ms. crypto_hash_data cr CRYPTO_KEY_HMAC_NAME (tm_name m) \<noteq> None) \<and>
    reqs SD' = reqs SD @ map (\<lambda>m. (CHR ''m'', name_hash cr m)) (filter (\<lambda>m. \<not> indexed cr il m) ms)"
  using run
proof (induction ms arbitrary: SD mdatlist)
  case (Cons m ms)
  obtain h where h: "crypto_hash_data cr CRYPTO_KEY_HMAC_NAME (tm_name m) = Some h"
    using Cons.prems by (cases "crypto_hash_data cr CRYPTO_KEY_HMAC_NAME (tm_name m)") simp_all
  have nh: "name_hash cr m = h" by (simp add: name_hash_def h)
  have ix: "frags_missing cr il h (unat (tm_indexlen m)) 0 \<longleftrightarrow> \<not> indexed cr il m"
    unfolding frags_missing_iff [OF il cr] by (auto simp: indexed_iff nh)
  show ?case
  proof (cases "indexed cr il m")
    case True
    then obtain ml where ml: "phase2_check cr dfile il ms SD = (0, SD', ml)" "mdatlist = Some m # ml"
      using Cons.prems h ix by (auto split: prod.splits)
    then show ?thesis using Cons.IH [OF ml(1)] True h by simp
  next
    case False
    then obtain SD1 ml where d: "dfile SD (CHR ''m'') h = (0, SD1)" "phase2_check cr dfile il ms SD1 = (0, SD', ml)" "mdatlist = None # ml"
      using Cons.prems h ix by (auto split: prod.splits if_splits)
    then show ?thesis using Cons.IH [OF d(2)] False h deletes_loggedD [OF log d(1)] by (simp add: nh)
  qed
qed simp

text \<open>The vector after the fragments in \<open>P\<close> have been marked.\<close>

definition marks :: "bytes list \<Rightarrow> bytes set \<Rightarrow> bool list \<Rightarrow> bool" where
  "marks il P v \<longleftrightarrow> length v = length il \<and> (\<forall>i<length il. v ! i \<longleftrightarrow> il ! i \<in> P)"

lemma marks_update:
  assumes "sorted_files il" "marks il P v" "i < length il"
  shows "marks il (insert (il ! i) P) (v[i := True])"
  using assms sorted_files_distinct [OF assms(1)] by (auto simp: marks_def nth_list_update nth_eq_iff_index_eq)

lemma mark_frags_spec:
  assumes il: "sorted_files il" and cr: "hmacs_ok cr" and v: "marks il P v"
    and here: "\<forall>k. n \<le> k \<and> k < nfrags len \<longrightarrow> multitape_metaindex_fragname cr h (of_nat k) \<in> set il"
  shows "\<exists>v'. mark_frags cr il h len n v = Some v' \<and>
    marks il (P \<union> {multitape_metaindex_fragname cr h (of_nat k) |k. n \<le> k \<and> k < nfrags len}) v'"
  using v here
proof (induction "len - n * MAXIFRAG" arbitrary: n P v rule: less_induct)
  case less
  show ?case
  proof (cases "n * MAXIFRAG < len")
    case False
    then have "\<not> n < nfrags len" using nfrags_iff [of n len] by simp
    then have none: "{multitape_metaindex_fragname cr h (of_nat k) |k. n \<le> k \<and> k < nfrags len} = {}" by auto
    show ?thesis using False less.prems(1) unfolding none by (subst mark_frags.simps) simp
  next
    case True
    have small: "len - (n + 1) * MAXIFRAG < len - n * MAXIFRAG" using True by (simp add: MAXIFRAG_def MAXCHUNK_def)
    have n: "n < nfrags len" using True nfrags_iff by simp
    let ?f = "multitape_metaindex_fragname cr h (of_nat n)" and ?i = "findinlist (multitape_metaindex_fragname cr h (of_nat n)) il (length il)"
    have i: "?i < length il" "il ! ?i = ?f"
      using findinlist_present [OF il fragname_length [OF cr]] less.prems(2) n by blast+
    have m: "marks il (insert ?f P) (v[?i := True])" using marks_update [OF il less.prems(1) i(1)] by (simp add: i(2))
    have rest: "\<forall>k. n + 1 \<le> k \<and> k < nfrags len \<longrightarrow> multitape_metaindex_fragname cr h (of_nat k) \<in> set il" using less.prems(2) by simp
    have eq: "insert ?f P \<union> {multitape_metaindex_fragname cr h (of_nat k) |k. n + 1 \<le> k \<and> k < nfrags len} =
        P \<union> {multitape_metaindex_fragname cr h (of_nat k) |k. n \<le> k \<and> k < nfrags len}"
      unfolding set_from [OF n] by simp
    show ?thesis
      using less.hyps [OF small m rest] True i(1) less.prems(1) unfolding eq
      by (subst mark_frags.simps) (simp add: Let_def marks_def)
  qed
qed

definition needed :: "crypto \<Rightarrow> tapemetadata list \<Rightarrow> bytes set" where
  "needed cr ms = {h. \<exists>m\<in>set ms. (CHR ''i'', h) \<in> set (index_frags cr m)}"

lemma phase2_mark_spec:
  assumes il: "sorted_files il" and cr: "hmacs_ok cr" and v: "marks il P v"
    and here: "\<forall>m\<in>set (somes mdatlist). indexed cr il m \<and> crypto_hash_data cr CRYPTO_KEY_HMAC_NAME (tm_name m) \<noteq> None"
  shows "\<exists>v'. phase2_mark cr il mdatlist v = Some (0, v') \<and> marks il (P \<union> needed cr (somes mdatlist)) v'"
  using v here
proof (induction mdatlist arbitrary: P v)
  case Nil
  then show ?case by (simp add: needed_def)
next
  case (Cons x mdatlist)
  show ?case
  proof (cases x)
    case None
    then show ?thesis using Cons by simp
  next
    case (Some m)
    then have m: "indexed cr il m" "\<forall>m\<in>set (somes mdatlist). indexed cr il m \<and> crypto_hash_data cr CRYPTO_KEY_HMAC_NAME (tm_name m) \<noteq> None"
      using Cons.prems(2) by simp_all
    obtain h where h: "crypto_hash_data cr CRYPTO_KEY_HMAC_NAME (tm_name m) = Some h" using Cons.prems(2) Some by auto
    have nh: "name_hash cr m = h" by (simp add: name_hash_def h)
    have "\<forall>k. 0 \<le> k \<and> k < nfrags (unat (tm_indexlen m)) \<longrightarrow> multitape_metaindex_fragname cr h (of_nat k) \<in> set il"
      using m(1) by (auto simp: indexed_iff nh)
    from mark_frags_spec [OF il cr Cons.prems(1) this] obtain v1 where v1: "mark_frags cr il h (unat (tm_indexlen m)) 0 v = Some v1"
        "marks il (P \<union> {multitape_metaindex_fragname cr h (of_nat k) |k. 0 \<le> k \<and> k < nfrags (unat (tm_indexlen m))}) v1" by blast
    have eq: "P \<union> {multitape_metaindex_fragname cr h (of_nat k) |k. 0 \<le> k \<and> k < nfrags (unat (tm_indexlen m))} \<union> needed cr (somes mdatlist) =
        P \<union> needed cr (somes (x # mdatlist))"
      by (auto simp: needed_def Some index_frags_def nh)
    show ?thesis using Cons.IH [OF v1(2) m(2)] h v1(1) unfolding eq by (simp add: Some)
  qed
qed

lemma phase2_delete_spec:
  assumes log: "deletes_logged reqs dfile" and run: "phase2_delete dfile (zip il v) SD = (0, SD')" and v: "marks il P v"
  shows "reqs SD' = reqs SD @ map (Pair (CHR ''i'')) (filter (\<lambda>h. h \<notin> P) il)"
proof -
  have "length v = length il" "\<forall>i<length il. v ! i \<longleftrightarrow> il ! i \<in> P" using v by (simp_all add: marks_def)
  then show ?thesis using run
  proof (induction il arbitrary: v SD)
    case Nil
    then show ?case by simp
  next
    case (Cons h il)
    obtain b w where b: "v = b # w" using Cons.prems(1) by (cases v) auto
    have w: "length w = length il" "\<forall>i<length il. w ! i \<longleftrightarrow> il ! i \<in> P" "b \<longleftrightarrow> h \<in> P"
      using Cons.prems(1,2) unfolding b by (auto simp: All_less_Suc2 dest: spec [of _ "Suc _"])
    show ?case
    proof (cases b)
      case True
      then show ?thesis using Cons.IH [OF w(1,2)] Cons.prems(3) w(3) by (simp add: b)
    next
      case False
      then obtain SD1 where d: "dfile SD (CHR ''i'') h = (0, SD1)" "phase2_delete dfile (zip il w) SD1 = (0, SD')"
        using Cons.prems(3) by (auto simp: b split: prod.splits if_splits)
      then show ?thesis using Cons.IH [OF w(1,2) d(2)] False w(3) deletes_loggedD [OF log d(1)] by simp
    qed
  qed
qed

lemma somes_filter: "somes (map (\<lambda>m. if P m then Some m else None) ms) = filter P ms"
  by (induction ms) simp_all

lemma phase2_spec:
  assumes il: "fe_list FE machinenum (CHR ''i'') 0 = Some il" "sorted_files il" and env: "fsck_env_ok fail reqs F FE"
    and run: "phase2 ma FE machinenum SD ms = Some (0, SD', mdatlist)"
  shows "somes mdatlist = filter (indexed (fe_cr FE) il) ms \<and> length mdatlist = length ms \<and>
    reqs SD' = reqs SD @ map (\<lambda>m. (CHR ''m'', name_hash (fe_cr FE) m)) (filter (\<lambda>m. \<not> indexed (fe_cr FE) il m) ms) @
      map (Pair (CHR ''i'')) (filter (\<lambda>h. h \<notin> needed (fe_cr FE) (filter (indexed (fe_cr FE) il) ms)) il)"
proof -
  have e: "hmacs_ok (fe_cr FE)" "deletes_logged reqs (fe_dfile FE)" using env by (simp_all add: fsck_env_ok_def)
  obtain SD1 v where c: "phase2_check (fe_cr FE) (fe_dfile FE) il ms SD = (0, SD1, mdatlist)"
      "phase2_mark (fe_cr FE) il mdatlist (replicate (length il) False) = Some (0, v)"
      "phase2_delete (fe_dfile FE) (zip il v) SD1 = (0, SD')"
    using run by (auto simp: phase2_def il(1) split: prod.splits option.splits if_splits)
  note k = phase2_check_spec [OF il(2) e c(1)]
  then have s: "somes mdatlist = filter (indexed (fe_cr FE) il) ms" by (simp add: somes_filter)
  have z: "marks il {} (replicate (length il) False)" by (simp add: marks_def)
  have "\<forall>m\<in>set (somes mdatlist). indexed (fe_cr FE) il m \<and> crypto_hash_data (fe_cr FE) CRYPTO_KEY_HMAC_NAME (tm_name m) \<noteq> None"
    using k unfolding s by auto
  from phase2_mark_spec [OF il(2) e(1) z this] c(2) have "marks il (needed (fe_cr FE) (somes mdatlist)) v" by auto
  from phase2_delete_spec [OF e(2) c(3) this] show ?thesis using k s by simp
qed

text \<open>Phase 2 never writes outside its vector.\<close>

lemma phase2_in_bounds:
  assumes "\<And>il. fe_list FE machinenum (CHR ''i'') 0 = Some il \<Longrightarrow> sorted_files il" and env: "fsck_env_ok fail reqs F FE"
  shows "phase2 ma FE machinenum SD ms \<noteq> None"
proof (cases "fe_list FE machinenum (CHR ''i'') 0")
  case None
  then show ?thesis by (simp add: phase2_def)
next
  case (Some il)
  have il: "sorted_files il" using assms(1) Some by blast
  have e: "hmacs_ok (fe_cr FE)" "deletes_logged reqs (fe_dfile FE)" using env by (simp_all add: fsck_env_ok_def)
  obtain rc SD1 ml where c: "phase2_check (fe_cr FE) (fe_dfile FE) il ms SD = (rc, SD1, ml)" by (metis prod_cases3)
  show ?thesis
  proof (cases "rc = 0")
    case False
    then show ?thesis using Some c by (simp add: phase2_def)
  next
    case True
    note k = phase2_check_spec [OF il e c [unfolded True]]
    have "\<forall>m\<in>set (somes ml). indexed (fe_cr FE) il m \<and> crypto_hash_data (fe_cr FE) CRYPTO_KEY_HMAC_NAME (tm_name m) \<noteq> None"
      using k by (auto simp: somes_filter)
    moreover have "marks il {} (replicate (length il) False)" by (simp add: marks_def)
    ultimately obtain v where "phase2_mark (fe_cr FE) il ml (replicate (length il) False) = Some (0, v)"
      using phase2_mark_spec [OF il e(1)] by blast
    then show ?thesis using Some c True by (simp add: phase2_def split: prod.splits)
  qed
qed

lemma deletechunks_logged:
  assumes inv: "dir_inv hash (cs_HT C)" and log: "deletes_logged reqs dfile" and run: "chunks_fsck_deletechunks dfile C S = (0, C', S')"
  shows "dir_inv hash (cs_HT C') \<and> dir_map (cs_HT C') = dir_map (cs_HT C) \<and> cs_stats_extra C' = cs_stats_extra C \<and> cs_path C' = cs_path C \<and>
    (\<exists>ds. distinct ds \<and> set ds = {h. \<exists>ch. dir_map (cs_HT C) h = Some ch \<and> cd_nrefs ch = 0} \<and>
       reqs S' = reqs S @ map (Pair (CHR ''c'')) ds)"
proof -
  let ?f = "callback_delete dfile" and ?rs = "somes (ht_ht (cs_HT C))"
  obtain H' where H': "rwhashtab_foreach ?f (cs_HT C) S = (0, H', S')" "C' = C\<lparr>cs_HT := H'\<rparr>"
    using run by (auto simp: chunks_fsck_deletechunks_def split: prod.splits)
  have key: "cd_hash (fst (snd (?f r s))) = cd_hash r" for r s by (simp add: callback_delete_def split: prod.splits)
  note spec = rwhashtab_foreach_spec [where func = ?f, OF inv key H'(1)]
  have "recs' = recs \<and> reqs s' = reqs s @ map (\<lambda>ch. (CHR ''c'', cd_hash ch)) (filter (\<lambda>ch. cd_nrefs ch = 0) recs)"
    if "foreach_recs ?f recs s = (0, recs', s')" for recs recs' s s'
    using that
  proof (induction recs arbitrary: s recs')
    case (Cons r recs)
    show ?case
    proof (cases "cd_nrefs r = 0")
      case True
      obtain rc s1 where d: "dfile s (CHR ''c'') (cd_hash r) = (rc, s1)" by fastforce
      then have "rc = 0" using Cons.prems True by (auto simp: callback_delete_def split: if_splits)
      then show ?thesis using Cons.prems True d Cons.IH [of s1] deletes_loggedD [OF log d]
        by (auto simp: callback_delete_def split: prod.splits if_splits)
    next
      case False
      then show ?thesis using Cons.prems Cons.IH [of s] by (auto simp: callback_delete_def split: prod.splits if_splits)
    qed
  qed simp
  from this [OF spec(2)] have out: "somes (ht_ht H') = ?rs"
      "reqs S' = reqs S @ map (\<lambda>ch. (CHR ''c'', cd_hash ch)) (filter (\<lambda>ch. cd_nrefs ch = 0) ?rs)" by auto
  let ?ds = "map cd_hash (filter (\<lambda>ch. cd_nrefs ch = 0) ?rs)"
  have "distinct (map cd_hash ?rs)" using inv by (simp add: ht_inv_def tab_ok_def)
  then have "distinct ?ds" by (rule distinct_map_filter)
  moreover have "set ?ds = {h. \<exists>ch. dir_map (cs_HT C) h = Some ch \<and> cd_nrefs ch = 0}"
    using ht_map_Some [OF inv] by auto
  moreover have "reqs S' = reqs S @ map (Pair (CHR ''c'')) ?ds" using out(2) by (simp add: comp_def)
  moreover have "dir_map H' = dir_map (cs_HT C)" by (simp add: ht_map_def out(1))
  ultimately show ?thesis using spec(1) H'(2) by (intro conjI exI [of _ ?ds]) simp_all
qed

subsection \<open>A whole run\<close>

text \<open>A cache directory without pending transactions: there is no marker.  Chunk directories that were never
  committed may be left, if \<^verbatim>\<open>directory.tmp\<close> is a file.\<close>

definition cache_clean :: "string \<Rightarrow> fs \<Rightarrow> bool" where
  "cache_clean c fs \<longleftrightarrow> fs_names fs (cache_name c ''ckpt_m'') = None \<and> fs_names fs (cache_name c ''commit_m'') = None \<and>
     (\<forall>i. fs_names fs (directory_path c ''.tmp'') = Some i \<longrightarrow>
        i < fs_next fs \<and> (\<exists>d s. fs_node fs i = Some (Regular d s)))"

text \<open>The cache that a run may find: clean, or left by a transaction, whatever a crash lost.\<close>

definition fsck_cache :: "string \<Rightarrow> u64 \<Rightarrow> fs \<Rightarrow> storage_log \<Rightarrow> bool" where
  "fsck_cache c machine fs log \<longleftrightarrow> cache_clean c fs \<or>
     (\<exists>x. recoverable x fs log \<and> tx_cache x = c \<and> tx_machine x = machine \<and>
        length (tx_seqnum x) = 32 \<and> length (tx_nonce x) = 32)"

lemma cache_clean_step: "cache_clean c fs \<Longrightarrow> dir_step {} fs fs' \<Longrightarrow> cache_clean c fs'"
  using dir_step_names [of "{}" fs fs'] dir_step_node [of "{}" fs fs'] by (auto simp: cache_clean_def)

lemma cleanstate_clean:
  assumes clean: "cache_clean c fs" and run: "multitape_cleanstate flt srv c machine key fs log modified = (0, fs', log', m)"
  shows "cache_clean c fs'" "fs_names fs' = fs_names fs"
proof -
  obtain r1 fs1 where r1: "read_marker flt (cache_name c ''ckpt_m'') 64 fs = (r1, fs1)" by fastforce
  note m1 = read_marker_result [OF r1]
  have "r1 = Inl ENOENT"
    using m1(4) clean run by (auto simp: cache_clean_def multitape_cleanstate_def docheckpoint_read r1)
  have c1: "cache_clean c fs1" using cache_clean_step [OF clean m1(1)] .
  have run1: "multitape_docommit flt srv c machine key fs1 log modified = (0, fs', log', m)"
    using run by (auto simp: multitape_cleanstate_def docheckpoint_read r1 \<open>r1 = Inl ENOENT\<close> split: prod.splits if_splits)
  obtain r2 fs2 where r2: "read_marker flt (cache_name c ''commit_m'') 32 fs1 = (r2, fs2)" by fastforce
  note m2 = read_marker_result [OF r2]
  have "r2 = Inl ENOENT" using m2(4) c1 run1 by (auto simp: cache_clean_def docommit_read r2)
  then have fs': "fs' = fs2" using run1 by (auto simp: docommit_read r2)
  then show "cache_clean c fs'" using cache_clean_step [OF c1 m2(1)] by simp
  show "fs_names fs' = fs_names fs" using dir_step_names [OF m1(1)] dir_step_names [OF m2(1)] fs' by auto
qed

lemma fsck_cache_clean:
  assumes "fsck_cache c machine fs log" and run: "multitape_cleanstate flt srv c machine key fs log modified = (0, fs', log', m)"
  shows "cache_clean c fs' \<and> (fs_names fs (directory_path c ''.ckpt'') = None \<longrightarrow> fs_names fs' (directory_path c ''.ckpt'') = None)"
  using assms(1) unfolding fsck_cache_def
proof (elim disjE exE conjE)
  assume "cache_clean c fs"
  from cleanstate_clean [OF this run] show ?thesis by simp
next
  fix x assume x: "recoverable x fs log" "tx_cache x = c" "tx_machine x = machine" "length (tx_seqnum x) = 32" "length (tx_nonce x) = 32"
  note rec = cleanstate_recovers [OF x(1,4,5) run [folded x(2,3)]]
  then show ?thesis by (auto simp: cache_clean_def phase_committed_def x(2))
qed

lemma fscktape_steps:
  assumes run: "fscktape ma FE junk junkc lock machinenum c prune whichkey w = Some (0, Some SD, w')"
  obtains key fs1 log1 m1 log2 m2 SD0 seq SR C SD1 fs2 m3 where
    "multitape_cleanstate (fe_flt FE) (fe_srv FE) c machinenum key (fw_fs w) (fw_log w) (fw_modified w) = (0, fs1, log1, m1)"
    "fe_start FE machinenum (prune = 0) key = Some (SD0, seq)" "fe_init FE machinenum = Some SR"
    "fsck_phases ma FE junk junkc machinenum c SD0 SR = Some (Inr (C, SD1))"
    "chunks_fsck_end (fe_flt FE) C fs1 = (0, fs2)" "SD = snd (fe_end FE SD1)"
    "multitape_commit (fe_flt FE) (fe_srv FE) c machinenum seq key fs2 log2 m2 = (0, fw_fs w', fw_log w', m3)"
proof -
  define key :: u8 where "key = (if whichkey = 0 then 0 else 1)"
  note run = run [unfolded fscktape_def, folded key_def, unfolded Let_def]
  obtain fs1 log1 m1 where 1: "multitape_cleanstate (fe_flt FE) (fe_srv FE) c machinenum key (fw_fs w) (fw_log w) (fw_modified w) = (0, fs1, log1, m1)"
    using run by (auto split: prod.splits if_splits)
  define log2 where "log2 = log1 @ [(Commit_from_checkpoint_call machinenum key, 0)]"
  define m2 where "m2 = (m1 \<or> snd (fe_srv FE log1 (Commit_from_checkpoint_call machinenum key)))"
  have srv: "lock" "fst (fe_srv FE log1 (Commit_from_checkpoint_call machinenum key)) = 0" using run 1 by (auto split: if_splits)
  obtain SD0 seq where 2: "fe_start FE machinenum (prune = 0) key = Some (SD0, seq)" using run 1 srv by (auto split: option.splits)
  obtain SR where 3: "fe_init FE machinenum = Some SR" using run 1 srv 2 by (auto split: option.splits)
  obtain C SD1 where 4: "fsck_phases ma FE junk junkc machinenum c SD0 SR = Some (Inr (C, SD1))"
    using run 1 srv 2 3 by (auto split: option.splits sum.splits)
  obtain fs2 where 5: "chunks_fsck_end (fe_flt FE) C fs1 = (0, fs2)" using run 1 srv 2 3 4 by (auto split: prod.splits if_splits)
  obtain SD2 where 6: "fe_end FE SD1 = (0, SD2)" using run 1 srv 2 3 4 5 by (auto split: prod.splits if_splits)
  obtain m3 where 7: "multitape_commit (fe_flt FE) (fe_srv FE) c machinenum seq key fs2 log2 m2 = (0, fw_fs w', fw_log w', m3)" "SD = SD2"
    using run 1 srv 2 3 4 5 6 by (auto simp: log2_def m2_def split: prod.splits if_splits)
  show thesis by (rule that [OF 1 2 3 4 5 _ 7(1)]) (simp add: 6 7(2))
qed

lemma fsck_phases_steps:
  assumes "fsck_phases ma FE junk junkc machinenum c SD SR = Some (Inr (C', SD'))"
  shows "\<exists>SD1 SR1 ms SD2 mdatlist C SD3 SR3 C3.
    phase1 (fm_lists ma) (fm_files ma) (fm_get ma) FE junk machinenum SD SR = (0, SD1, SR1, ms) \<and>
    phase2 (fm_lists ma) FE machinenum SD1 ms = Some (0, SD2, mdatlist) \<and>
    phase3 (fm_table ma) FE junkc machinenum c = Some (Some C) \<and>
    phase4 (fm_iter ma) FE mdatlist SD2 SR1 C = Some (0, SD3, SR3, C3) \<and> phase5 FE SD3 C3 = (0, C', SD')"
  using assms
  by (auto simp: fsck_phases_def split: prod.splits if_splits option.splits)

lemma metas_length: "length (metas cr F junk ml) \<le> length ml"
  unfolding metas_def by (induction ml) (auto split: sum.splits)

lemma fsck_start_counts:
  assumes "chunks_fsck_start ma hash entropy junk junks (Some cl) c = Some (Some C)"
  shows "counts_archives hash cr F u (set cl) c [] C"
proof -
  have "cs_stats_extra C = chunks_stats_zero" "cs_path C = c"
    using assms by (auto simp: chunks_fsck_start_def split: if_splits option.splits)
  then show ?thesis using fsck_start_inv [OF assms] by (simp add: counts_archives_def)
qed

lemma fsck_phases_spec:
  assumes env: "fsck_env_ok True reqs F FE"
    and lists: "fe_list FE machinenum (CHR ''m'') 0 = Some ml" "fe_list FE machinenum (CHR ''i'') 0 = Some il"
      "fe_list FE machinenum (CHR ''c'') 0 = Some cl"
    and il: "sorted_files il" and ml: "length ml < 4294967296"
    and cnt: "\<forall>m\<in>set (metas (fe_cr FE) F junk ml). countable_archive (fe_cr FE) F (fe_uncompress FE) m"
    and run: "fsck_phases ma FE junk junkc machinenum c SD SR = Some (Inr (C, SD'))"
  defines "ms \<equiv> metas (fe_cr FE) F junk ml"
  defines "ix \<equiv> filter (indexed (fe_cr FE) il) ms"
  shows "counts_archives (fe_hash FE) (fe_cr FE) F (fe_uncompress FE) (set cl) c
      (filter (complete (fe_cr FE) F (fe_uncompress FE) (set cl)) ix) C \<and>
    (\<exists>ds. distinct ds \<and> set ds = {h. \<exists>ch. dir_map (cs_HT C) h = Some ch \<and> cd_nrefs ch = 0} \<and>
      reqs SD' = reqs SD @ map (Pair (CHR ''m'')) (corrupt (fe_cr FE) F junk ml) @
        map (\<lambda>m. (CHR ''m'', name_hash (fe_cr FE) m)) (filter (\<lambda>m. \<not> indexed (fe_cr FE) il m) ms) @
        map (Pair (CHR ''i'')) (filter (\<lambda>h. h \<notin> needed (fe_cr FE) ix) il) @
        concat (map (archive_files (fe_cr FE)) (broken_archives (fe_cr FE) F (fe_uncompress FE) (set cl) ix)) @
        map (Pair (CHR ''c'')) ds)"
proof -
  have e: "answers True F (fe_ralloc FE) (fe_rfile FE)" "deletes_logged reqs (fe_dfile FE)" using env by (simp_all add: fsck_env_ok_def)
  obtain SD1 SR1 ms1 SD2 mdatlist C0 SD3 SR3 C3 where r:
      "phase1 (fm_lists ma) (fm_files ma) (fm_get ma) FE junk machinenum SD SR = (0, SD1, SR1, ms1)"
      "phase2 (fm_lists ma) FE machinenum SD1 ms1 = Some (0, SD2, mdatlist)"
      "phase3 (fm_table ma) FE junkc machinenum c = Some (Some C0)"
      "phase4 (fm_iter ma) FE mdatlist SD2 SR1 C0 = Some (0, SD3, SR3, C3)" "phase5 FE SD3 C3 = (0, C, SD')"
    using fsck_phases_steps [OF run] by (elim exE conjE) (rule that)
  have p1: "ms1 = ms" "reqs SD1 = reqs SD @ map (Pair (CHR ''m'')) (corrupt (fe_cr FE) F junk ml)"
    using r(1) phase1_files_spec [OF e, of "fm_get ma" "fm_files ma" "fe_cr FE" junk 0 ml SD SR "[]" SD1 SR1 ms1]
    by (auto simp: phase1_def lists(1) ms_def split: if_splits)
  note p2 = phase2_spec [OF lists(2) il env r(2) [unfolded p1(1)], folded ix_def]
  have p3: "counts_archives (fe_hash FE) (fe_cr FE) F (fe_uncompress FE) (set cl) c [] C0"
    using r(3) fsck_start_counts by (simp add: phase3_def lists(3))
  have small: "length ([] :: tapemetadata list) + length mdatlist < 4294967296"
    using p2 metas_length [of "fe_cr FE" F junk ml] ml by (simp add: ms_def)
  have "\<forall>m\<in>set (somes mdatlist). countable_archive (fe_cr FE) F (fe_uncompress FE) m" using p2 cnt by (auto simp: ix_def ms_def)
  from phase4_archives_spec [OF env p3 this small _ r(4) [unfolded phase4_def]]
  have p4: "counts_archives (fe_hash FE) (fe_cr FE) F (fe_uncompress FE) (set cl) c
      (filter (complete (fe_cr FE) F (fe_uncompress FE) (set cl)) ix) C3"
    "reqs SD3 = reqs SD2 @ concat (map (archive_files (fe_cr FE)) (broken_archives (fe_cr FE) F (fe_uncompress FE) (set cl) ix))"
    using p2 by simp_all
  have inv: "dir_inv (fe_hash FE) (cs_HT C3)" using p4(1) by (simp add: counts_archives_def fsck_inv_def)
  have tot: "cs_stats_total C = cs_stats_total C3" using r(5) by (auto simp: phase5_def chunks_fsck_deletechunks_def split: prod.splits)
  note p5 = deletechunks_logged [OF inv e(2) r(5) [unfolded phase5_def]]
  obtain ds where ds: "distinct ds" "set ds = {h. \<exists>ch. dir_map (cs_HT C3) h = Some ch \<and> cd_nrefs ch = 0}"
      "reqs SD' = reqs SD3 @ map (Pair (CHR ''c'')) ds" using p5 by blast
  have "counts_archives (fe_hash FE) (fe_cr FE) F (fe_uncompress FE) (set cl) c
      (filter (complete (fe_cr FE) F (fe_uncompress FE) (set cl)) ix) C"
    using p4(1) p5 tot by (simp add: counts_archives_def fsck_inv_def)
  then show ?thesis using ds p5 p1(2) p2 p4(2) by (intro conjI exI [of _ ds]) simp_all
qed

text \<open>What the directory says of the archives \<open>as\<close>, given by their uses.\<close>

definition directory_counts :: "chunk_use list list \<Rightarrow> (bytes \<Rightarrow> chunkdata option) \<Rightarrow> bool" where
  "directory_counts as m \<longleftrightarrow>
     dom m = fst ` set (concat as) \<and>
     (\<forall>h. refs m h = of_nat (archives_using as h) \<and> copies m h = of_nat (uses (concat as) h)) \<and>
     (\<forall>h ch len zlen. m h = Some ch \<longrightarrow> map_of (concat as) h = Some (len, zlen) \<longrightarrow>
        cd_hash ch = h \<and> cd_len ch = of_nat len \<and> cd_zlen_flags ch = of_nat zlen)"

definition archive_countable :: "chunk_use list \<Rightarrow> bool" where
  "archive_countable us \<longleftrightarrow> (\<forall>(h, len, zlen)\<in>set us. 0 < len \<and> len < 4294967296 \<and> 0 < zlen \<and> zlen < 2 ^ 30)"

lemma archives_using_pos: "archives_using as h = 0 \<longleftrightarrow> h \<notin> fst ` set (concat as)"
  by (auto simp: archives_using_def filter_empty_conv)

lemma settled_reloaded:
  assumes inv: "fsck_inv hash D (settled as []) C" and D: "fst ` set (concat as) \<subseteq> D" "\<forall>h\<in>D. length h = 32"
    and as: "\<forall>us\<in>set as. archive_countable us" "length as < 4294967296"
  shows "directory_counts as (reloaded () (dir_map (cs_HT C)))"
    "\<forall>k ch. dir_map (cs_HT C) k = Some ch \<longrightarrow> cd_nrefs ch \<noteq> 0 \<longrightarrow> chunk_wf ch"
    "{h. \<exists>ch. dir_map (cs_HT C) h = Some ch \<and> cd_nrefs ch = 0} = D - fst ` set (concat as)"
proof -
  let ?m = "dir_map (cs_HT C)"
  have dom: "dom ?m = D" and rec: "\<And>h ch. ?m h = Some ch \<Longrightarrow> settled as [] h ch" using inv by (auto simp: fsck_inv_def)
  have small: "archives_using as h < 4294967296" for h
    using as(2) by (auto simp: archives_using_def intro: order_le_less_trans [OF length_filter_le])
  have live: "cd_nrefs ch \<noteq> 0 \<longleftrightarrow> h \<in> fst ` set (concat as)" if "?m h = Some ch" for h ch
  proof -
    have "(of_nat (archives_using as h) :: u32) = 0 \<longleftrightarrow> archives_using as h = 0"
      using small [of h] by (auto simp: word_of_nat_eq_0_iff dest: dvd_imp_le)
    then show ?thesis using rec [OF that] archives_using_pos [of as h] by (simp add: settled_def)
  qed
  have lens: "0 < len \<and> len < 4294967296 \<and> 0 < zlen \<and> zlen < 2 ^ 30" if "map_of (concat as) h = Some (len, zlen)" for h len zlen
    using map_of_SomeD [OF that] as(1) by (fastforce simp: archive_countable_def)
  have first: "\<exists>len zlen. map_of (concat as) h = Some (len, zlen)" if "h \<in> fst ` set (concat as)" for h
    using that by (metis map_of_eq_None_iff not_None_eq surj_pair)
  have some: "reloaded () ?m h = (if h \<in> fst ` set (concat as) then map_option (stored ()) (?m h) else None)" for h
    using live [of h] by (auto simp: reloaded_def split: option.splits)
  have here: "?m h \<noteq> None" if "h \<in> fst ` set (concat as)" for h using that D(1) dom by blast
  have none: "uses (concat as) h = 0" "archives_using as h = 0" if "h \<notin> fst ` set (concat as)" for h
    using that archives_using_pos [of as h] by (auto simp: count_list_0_iff)
  show "directory_counts as (reloaded () ?m)"
    unfolding directory_counts_def
  proof (intro conjI allI impI)
    have "reloaded () ?m h \<noteq> None \<longleftrightarrow> h \<in> fst ` set (concat as)" for h using here [of h] unfolding some by simp
    then show "dom (reloaded () ?m) = fst ` set (concat as)" unfolding dom_def by (intro set_eqI) (simp only: mem_Collect_eq)
  next
    fix h
    have "refs (reloaded () ?m) h = of_nat (archives_using as h) \<and> copies (reloaded () ?m) h = of_nat (uses (concat as) h)"
    proof (cases "h \<in> fst ` set (concat as)")
      case True
      then obtain r where r: "?m h = Some r" using here by blast
      show ?thesis unfolding refs_def copies_def some if_P [OF True] using rec [OF r] by (simp add: r stored_def settled_def)
    next
      case False
      show ?thesis unfolding refs_def copies_def some if_not_P [OF False] by (simp add: none [OF False])
    qed
    then show "refs (reloaded () ?m) h = of_nat (archives_using as h)" "copies (reloaded () ?m) h = of_nat (uses (concat as) h)" by blast+
  next
    fix h ch len zlen assume a: "reloaded () ?m h = Some ch" "map_of (concat as) h = Some (len, zlen)"
    then obtain r where r: "?m h = Some r" "ch = stored () r" by (auto simp: some split: if_splits)
    then show "cd_hash ch = h" "cd_len ch = of_nat len" "cd_zlen_flags ch = of_nat zlen"
      using rec [OF r(1)] a(2) by (auto simp: settled_def stored_def)
  qed
  show "\<forall>k ch. ?m k = Some ch \<longrightarrow> cd_nrefs ch \<noteq> 0 \<longrightarrow> chunk_wf ch"
  proof (intro allI impI)
    fix k ch assume a: "?m k = Some ch" "cd_nrefs ch \<noteq> 0"
    have "k \<in> fst ` set (concat as)" using live [OF a(1)] a(2) by (rule iffD1)
    from first [OF this] obtain len zlen where l: "map_of (concat as) k = Some (len, zlen)" by (elim exE)
    have "(of_nat len :: u32) \<noteq> 0" "(of_nat zlen :: u32) \<noteq> 0"
      using lens [OF l] by (auto simp: word_of_nat_eq_0_iff dest: dvd_imp_le)
    moreover have "k \<in> D" using a(1) dom by blast
    ultimately show "chunk_wf ch" using rec [OF a(1)] l D(2) by (auto simp: settled_def chunk_wf_def)
  qed
  show "{h. \<exists>ch. ?m h = Some ch \<and> cd_nrefs ch = 0} = D - fst ` set (concat as)"
    using live dom by blast
qed

lemma countable_uses: "countable_archive cr F u m \<Longrightarrow> archive_countable (archive_uses cr F u m)"
proof -
  have "unat w < 4294967296" for w :: u32 using unsigned_less [of w] by simp
  then show "countable_archive cr F u m \<Longrightarrow> archive_countable (archive_uses cr F u m)"
    by (auto simp: countable_archive_def archive_countable_def archive_uses_def header_ok_def)
qed

lemma fsck_run_exact:
  assumes env: "fsck_env_ok True reqs F FE"
    and lists: "fe_list FE machinenum (CHR ''m'') 0 = Some ml" "fe_list FE machinenum (CHR ''i'') 0 = Some il"
      "fe_list FE machinenum (CHR ''c'') 0 = Some cl"
    and ok: "sorted_files il" "length ml < 4294967296" "\<forall>h\<in>set cl. length h = 32" "length cl \<le> 2 ^ 48"
    and cnt: "\<forall>m\<in>set (metas (fe_cr FE) F junk ml). countable_archive (fe_cr FE) F (fe_uncompress FE) m"
    and cache: "fsck_cache c machinenum (fw_fs w) (fw_log w)"
    and run: "fscktape ma FE junk junkc lock machinenum c prune whichkey w = Some (0, Some SD, w')"
  defines "ms \<equiv> metas (fe_cr FE) F junk ml"
  defines "ix \<equiv> filter (indexed (fe_cr FE) il) ms"
  defines "kept \<equiv> filter (complete (fe_cr FE) F (fe_uncompress FE) (set cl)) ix"
  defines "as \<equiv> map (archive_uses (fe_cr FE) F (fe_uncompress FE)) kept"
  shows "\<exists>ds seq i HT fs.
    reqs SD = map (Pair (CHR ''m'')) (corrupt (fe_cr FE) F junk ml) @
      map (\<lambda>m. (CHR ''m'', name_hash (fe_cr FE) m)) (filter (\<lambda>m. \<not> indexed (fe_cr FE) il m) ms) @
      map (Pair (CHR ''i'')) (filter (\<lambda>h. h \<notin> needed (fe_cr FE) ix) il) @
      concat (map (archive_files (fe_cr FE)) (broken_archives (fe_cr FE) F (fe_uncompress FE) (set cl) ix)) @
      map (Pair (CHR ''c'')) ds \<and>
    distinct ds \<and> set ds = set cl - fst ` set (concat as) \<and>
    commit_complete (direct_txn c machinenum seq i) (fw_log w') (fw_fs w') \<and>
    (fs_names (fw_fs w) (directory_path c ''.ckpt'') = None \<longrightarrow>
       transaction_complete (direct_txn c machinenum seq i) (fw_log w') (fw_fs w')) \<and>
    chunks_directory_read no_fault hash (Some rb) () (Some c) mustexist (fw_fs w') =
      Some (Some (HT, unique_of (dir_map HT), total_of (dir_map HT), extras kept), fs) \<and>
    directory_counts as (dir_map HT)"
proof -
  obtain key fs1 log1 m1 log2 m2 SD0 seq SR C SD1 fs2 m3 where r:
    "multitape_cleanstate (fe_flt FE) (fe_srv FE) c machinenum key (fw_fs w) (fw_log w) (fw_modified w) = (0, fs1, log1, m1)"
    "fe_start FE machinenum (prune = 0) key = Some (SD0, seq)" "fe_init FE machinenum = Some SR"
    "fsck_phases ma FE junk junkc machinenum c SD0 SR = Some (Inr (C, SD1))"
    "chunks_fsck_end (fe_flt FE) C fs1 = (0, fs2)" "SD = snd (fe_end FE SD1)"
    "multitape_commit (fe_flt FE) (fe_srv FE) c machinenum seq key fs2 log2 m2 = (0, fw_fs w', fw_log w', m3)"
    by (rule fscktape_steps [OF run])
  note p = fsck_phases_spec [OF env lists ok(1,2) cnt r(4), folded ms_def, folded ix_def, folded kept_def]
  have inv: "fsck_inv (fe_hash FE) (set cl) (settled as []) C" "cs_stats_extra C = extras kept" "cs_path C = c"
    using p by (simp_all add: counts_archives_def as_def)
  have D: "fst ` set (concat as) \<subseteq> set cl" by (auto simp: as_def kept_def complete_def)
  have as: "\<forall>us\<in>set as. archive_countable us" using cnt countable_uses by (auto simp: as_def kept_def ix_def ms_def)
  have "length as \<le> length ml"
    unfolding as_def kept_def ix_def ms_def length_map by (intro order_trans [OF length_filter_le] metas_length)
  then have small: "length as < 4294967296" using ok(2) by simp
  note s = settled_reloaded [OF inv(1) D ok(3) as small]
  have e: "reqs SD0 = []" "length seq = 32" "reqs SD = reqs SD1" using env r(2,6) by (auto simp: fsck_env_ok_def)
  have clean: "fs_names fs1 (directory_path c ''.tmp'') = Some j \<Longrightarrow> j < fs_next fs1"
      "fs_names fs1 (cache_name c ''ckpt_m'') = None"
      "fs_names (fw_fs w) (directory_path c ''.ckpt'') = None \<longrightarrow> fs_names fs1 (directory_path c ''.ckpt'') = None" for j
    using fsck_cache_clean [OF cache r(1)] by (simp_all add: cache_clean_def)
  have w4: "chunks_directory_write (fe_flt FE) c (cs_HT C) (extras kept) ''.tmp'' fs1 = (0, fs2)"
    using r(5) inv(2,3) by (auto simp: chunks_fsck_end_def split: prod.splits if_splits)
  have "\<exists>i. commit_complete (direct_txn c machinenum seq i) (fw_log w') (fw_fs w') \<and>
      (fs_names fs1 (directory_path c ''.ckpt'') = None \<longrightarrow>
        transaction_complete (direct_txn c machinenum seq i) (fw_log w') (fw_fs w')) \<and>
      fs_names (fw_fs w') (directory_path c []) = Some i \<and> directory_node (extras kept) (cs_HT C) i (fw_fs w')"
    by (rule written_commit_ok [OF _ clean(2) e(2) w4 r(7)]) (rule clean(1))
  then obtain i where w: "commit_complete (direct_txn c machinenum seq i) (fw_log w') (fw_fs w')"
      "fs_names fs1 (directory_path c ''.ckpt'') = None \<longrightarrow>
        transaction_complete (direct_txn c machinenum seq i) (fw_log w') (fw_fs w')"
      "fs_names (fw_fs w') (directory_path c []) = Some i" "directory_node (extras kept) (cs_HT C) i (fw_fs w')"
    by (elim exE conjE) (rule that)
  have com: "commit_complete (direct_txn c machinenum seq i) (fw_log w') (fw_fs w') \<and>
      (fs_names (fw_fs w) (directory_path c ''.ckpt'') = None \<longrightarrow>
        transaction_complete (direct_txn c machinenum seq i) (fw_log w') (fw_fs w'))"
    by (intro conjI impI w(1)) (rule mp [OF w(2)], erule mp [OF clean(3)])
  have dir: "dir_inv (fe_hash FE) (cs_HT C)" "dom (dir_map (cs_HT C)) = set cl" using inv(1) by (simp_all add: fsck_inv_def)
  have "card (set cl) \<le> 2 ^ 48" using card_length [of cl] ok(4) by simp
  then have num: "ht_numentries (cs_HT C) \<le> 2 ^ 48"
    using directory_bound [OF dir(1), of "dir_map (cs_HT C)"] by (simp add: dir(2))
  obtain HT fs where HT: "chunks_directory_read no_fault hash (Some rb) () (Some c) mustexist (fw_fs w') =
      Some (Some (HT, unique_of (dir_map HT), total_of (dir_map HT), extras kept), fs)"
      "dir_map HT = reloaded () (dir_map (cs_HT C))"
    using read_live_directory [OF dir(1) s(2) num w(3) w(4) [unfolded directory_node_def, THEN conjunct2], of hash rb "()" mustexist]
    by blast
  obtain ds where "distinct ds" "set ds = set cl - fst ` set (concat as)"
    "reqs SD = map (Pair (CHR ''m'')) (corrupt (fe_cr FE) F junk ml) @
      map (\<lambda>m. (CHR ''m'', name_hash (fe_cr FE) m)) (filter (\<lambda>m. \<not> indexed (fe_cr FE) il m) ms) @
      map (Pair (CHR ''i'')) (filter (\<lambda>h. h \<notin> needed (fe_cr FE) ix) il) @
      concat (map (archive_files (fe_cr FE)) (broken_archives (fe_cr FE) F (fe_uncompress FE) (set cl) ix)) @
      map (Pair (CHR ''c'')) ds"
    using p e s(3) by auto
  then show ?thesis using com HT s(1)
    by (intro exI [of _ ds] exI [of _ seq] exI [of _ i] exI [of _ HT] exI [of _ fs]) simp
qed

subsection \<open>Nothing blocks a run in which no call fails\<close>

definition fsck_env_up :: "('r, 's) fsck_env \<Rightarrow> bool" where
  "fsck_env_up FE \<longleftrightarrow> fe_flt FE = no_fault \<and> server_up (fe_srv FE) \<and> fe_entropy FE \<noteq> None \<and>
     (\<forall>S c h. fst (fe_dfile FE S c h) = 0) \<and> (\<forall>S. fst (fe_end FE S) = 0) \<and>
     (\<forall>m ro k. fe_start FE m ro k \<noteq> None) \<and> (\<forall>m. fe_init FE m \<noteq> None)"

definition fsck_mem_ok :: fsck_mem where
  "fsck_mem_ok = \<lparr>fm_lists = mem_ok, fm_files = mem_ok, fm_get = \<lambda>_. mem_ok, fm_table = mem_ok, fm_iter = \<lambda>_. mem_ok\<rparr>"

lemma metadata_at_name:
  assumes "metadata_at cr F junk h = Inr m"
  shows "\<exists>hbuf. crypto_hash_data cr CRYPTO_KEY_HMAC_NAME (tm_name m) = Some hbuf"
  using assms
  by (auto simp: metadata_at_def multitape_metadata_get_def still_alloc_def Let_def split: sum.splits option.splits if_splits)

lemma metas_name: "m \<in> set (metas cr F junk ml) \<Longrightarrow> \<exists>hbuf. crypto_hash_data cr CRYPTO_KEY_HMAC_NAME (tm_name m) = Some hbuf"
  unfolding metas_def set_somes using metadata_at_name by (fastforce split: sum.splits)

lemma phase1_files_progress:
  assumes ans: "answers False F ralloc rfile" and up: "\<forall>S c h. fst (dfile S c h) = 0"
    and ml: "\<forall>h\<in>set ml. metadata_at cr F junk h \<noteq> Inl (-1) \<and> metadata_at cr F junk h \<noteq> Inl 1"
  shows "\<exists>SD' SR' ms'. phase1_files mem_ok (\<lambda>_. mem_ok) cr ralloc dfile junk n ml SD SR ms = (0, SD', SR', ms')"
  using ml
proof (induction ml arbitrary: n SD SR ms)
  case (Cons h ml)
  obtain x SR1 C where x: "multitape_metadata_get_byhash mem_ok cr ralloc SR None junk h = (x, SR1, C)" by (metis prod_cases3)
  have "or_error False x (metadata_at cr F junk h)"
    using metadata_get_still [OF ans, of mem_ok cr SR None junk h] x by (simp add: multitape_metadata_get_byhash_def)
  then have at: "metadata_at cr F junk h = x" by (simp add: or_error_def)
  obtain SD1 where d: "dfile SD (CHR ''m'') h = (0, SD1)" using up by (metis prod.collapse)
  show ?case using x at d Cons.prems Cons.IH by (cases x) simp_all
qed simp

lemma phase2_check_progress:
  assumes up: "\<forall>S c h. fst (dfile S c h) = 0" and ms: "\<forall>m\<in>set ms. \<exists>h. crypto_hash_data cr CRYPTO_KEY_HMAC_NAME (tm_name m) = Some h"
  shows "\<exists>SD' ml. phase2_check cr dfile il ms SD = (0, SD', ml)"
  using ms
proof (induction ms arbitrary: SD)
  case (Cons m ms)
  obtain h where h: "crypto_hash_data cr CRYPTO_KEY_HMAC_NAME (tm_name m) = Some h" using Cons.prems by auto
  obtain SD1 where d: "dfile SD (CHR ''m'') h = (0, SD1)" using up by (metis prod.collapse)
  have ms: "\<forall>m\<in>set ms. \<exists>h. crypto_hash_data cr CRYPTO_KEY_HMAC_NAME (tm_name m) = Some h" using Cons.prems by simp
  obtain SD2 ml2 where "phase2_check cr dfile il ms SD = (0, SD2, ml2)" using Cons.IH [OF ms] by blast
  moreover obtain SD3 ml3 where "phase2_check cr dfile il ms SD1 = (0, SD3, ml3)" using Cons.IH [OF ms] by blast
  ultimately show ?case using h d by simp
qed simp

lemma phase2_delete_progress:
  assumes up: "\<forall>S c h. fst (dfile S c h) = 0"
  shows "\<exists>SD'. phase2_delete dfile fs SD = (0, SD')"
proof (induction fs arbitrary: SD)
  case (Cons x fs)
  obtain h b where x: "x = (h, b)" by fastforce
  obtain SD1 where "dfile SD (CHR ''i'') h = (0, SD1)" using up by (metis prod.collapse)
  then show ?case using Cons.IH by (simp add: x)
qed simp

lemma phase2_progress:
  assumes il: "fe_list FE machinenum (CHR ''i'') 0 = Some il" "sorted_files il" and env: "fsck_env_ok fail reqs F FE" "fsck_env_up FE"
    and ms: "\<forall>m\<in>set ms. \<exists>h. crypto_hash_data (fe_cr FE) CRYPTO_KEY_HMAC_NAME (tm_name m) = Some h"
  shows "\<exists>SD' mdatlist. phase2 mem_ok FE machinenum SD ms = Some (0, SD', mdatlist)"
proof -
  have e: "hmacs_ok (fe_cr FE)" "deletes_logged reqs (fe_dfile FE)" "\<forall>S c h. fst (fe_dfile FE S c h) = 0"
    using env by (simp_all add: fsck_env_ok_def fsck_env_up_def)
  obtain SD1 ml where c: "phase2_check (fe_cr FE) (fe_dfile FE) il ms SD = (0, SD1, ml)"
    using phase2_check_progress [OF e(3) ms] by blast
  have "\<forall>m\<in>set (somes ml). indexed (fe_cr FE) il m \<and> crypto_hash_data (fe_cr FE) CRYPTO_KEY_HMAC_NAME (tm_name m) \<noteq> None"
    using phase2_check_spec [OF il(2) e(1,2) c] by (auto simp: somes_filter)
  moreover have "marks il {} (replicate (length il) False)" by (simp add: marks_def)
  ultimately obtain v where v: "phase2_mark (fe_cr FE) il ml (replicate (length il) False) = Some (0, v)"
    using phase2_mark_spec [OF il(2) e(1)] by blast
  obtain SD2 where "phase2_delete (fe_dfile FE) (zip il v) SD1 = (0, SD2)" using phase2_delete_progress [OF e(3)] by blast
  then show ?thesis using il(1) c v by (simp add: phase2_def)
qed

lemma fsck_insert_progress:
  assumes "dir_inv hash HT" "ht_tight HT" "distinct cl" "set cl \<inter> dom (dir_map HT) = {}" "ht_numentries HT + length cl \<le> 2 ^ 48"
  shows "\<exists>HT'. fsck_insert mem_ok hash k (map (fsck_entry junk) cl) HT = Some (Some HT')"
  using assms
proof (induction cl arbitrary: k HT)
  case (Cons h cl)
  let ?ch = "fsck_entry junk h"
  have key: "cd_hash ?ch = h" by (simp add: fsck_entry_def)
  have room: "ht_numentries HT < 2 ^ 48" using Cons.prems(5) by simp
  obtain rc HT1 where ins: "rwhashtab_insert True hash cd_hash HT ?ch = Some (rc, HT1)" "dir_inv hash HT1"
    "rc = 0 \<and> dir_map HT (cd_hash ?ch) = None \<and> dir_map HT1 = (dir_map HT)(cd_hash ?ch \<mapsto> ?ch) \<or>
     rc = 1 \<and> dir_map HT (cd_hash ?ch) \<noteq> None \<and> dir_map HT1 = dir_map HT \<or> rc = -1 \<and> HT1 = HT"
    using ht.ins_result [OF Cons.prems(1), of True ?ch] by blast
  note r = rwhashtab_insert_room [OF Cons.prems(1,2) room ins(1)]
  have "dir_map HT h = None" using Cons.prems(4) by auto
  then have m: "rc = 0" "dir_map HT1 = (dir_map HT)(h \<mapsto> ?ch)" using ins(3) r(1) unfolding key by auto
  have "card (dom (dir_map HT1)) = Suc (card (dom (dir_map HT)))"
    unfolding m(2) using \<open>dir_map HT h = None\<close> by (simp add: domIff)
  then have n: "ht_numentries HT1 = Suc (ht_numentries HT)"
    using ht_numentries_card [OF ins(2)] ht_numentries_card [OF Cons.prems(1)] by simp
  have "\<exists>HT'. fsck_insert mem_ok hash (Suc k) (map (fsck_entry junk) cl) HT1 = Some (Some HT')"
    using Cons.prems(3-5) by (intro Cons.IH [OF ins(2) r(2)]) (auto simp: m(2) n split: if_splits)
  then show ?case using ins(1) m(1) by simp
qed simp

lemma fsck_start_progress:
  assumes "distinct cl" "length cl \<le> 2 ^ 48" "entropy \<noteq> None"
  shows "\<exists>C. chunks_fsck_start mem_ok hash entropy junk junks (Some cl) c = Some (Some C)"
proof -
  obtain rb where rb: "entropy = Some rb" using assms(3) by blast
  obtain HT :: "chunkdata_statstape rwhashtab" where HT: "rwhashtab_init mem_ok entropy 32 = Some HT"
    unfolding rb by (simp add: rwhashtab_init_def)
  have i: "dir_inv hash HT" "dir_map HT = Map.empty" "ht_numentries HT = 0" "ht_tight HT"
    using rwhashtab_init_inv [OF HT] rwhashtab_init_tight [OF HT] by blast+
  obtain HT' where "fsck_insert mem_ok hash 5 (map (fsck_entry junk) cl) HT = Some (Some HT')"
    using fsck_insert_progress [OF i(1,4) assms(1), of 5 junk] i(2,3) assms(2) by auto
  moreover have "\<not> length cl > SIZE_MAX div 52" using assms(2) by simp
  ultimately show ?thesis using HT by (simp add: chunks_fsck_start_def)
qed

lemma deletearchive_progress:
  assumes up: "\<forall>S c h. fst (dfile S c h) = 0" and h: "\<exists>h. crypto_hash_data cr CRYPTO_KEY_HMAC_NAME (tm_name m) = Some h"
  shows "\<exists>S'. deletearchive cr dfile S m = (0, S')"
proof -
  have frags: "\<exists>S'. delete_index_frags cr dfile h len n S = (0, S')" for h len n S
  proof (induction "len - n * MAXIFRAG" arbitrary: n S rule: less_induct)
    case less
    show ?case
    proof (cases "n * MAXIFRAG < len")
      case False
      then show ?thesis by (subst delete_index_frags.simps) simp
    next
      case True
      obtain S1 where "dfile S (CHR ''i'') (multitape_metaindex_fragname cr h (of_nat n)) = (0, S1)" using up by (metis prod.collapse)
      moreover have "len - (n + 1) * MAXIFRAG < len - n * MAXIFRAG" using True by (simp add: MAXIFRAG_def MAXCHUNK_def)
      ultimately show ?thesis using True less.hyps [of "n + 1" S1] by (subst delete_index_frags.simps) simp
    qed
  qed
  obtain hb where hb: "crypto_hash_data cr CRYPTO_KEY_HMAC_NAME (tm_name m) = Some hb" using h by blast
  obtain S1 where S1: "delete_index_frags cr dfile hb (unat (tm_indexlen m)) 0 S = (0, S1)" using frags by blast
  obtain S2 where "dfile S1 (CHR ''m'') hb = (0, S2)" using up by (metis prod.collapse)
  then show ?thesis using hb S1 by (simp add: deletearchive_def)
qed

lemma phase4_archives_progress:
  assumes env: "fsck_env_ok False reqs F FE" "fsck_env_up FE"
    and inv: "counts_archives (fe_hash FE) (fe_cr FE) F (fe_uncompress FE) D c ms C"
    and m: "\<forall>m\<in>set (somes mdatlist). countable_archive (fe_cr FE) F (fe_uncompress FE) m \<and>
      fst (archive_trace (fe_cr FE) F (fe_uncompress FE) m) \<noteq> -1 \<and> (\<exists>h. crypto_hash_data (fe_cr FE) CRYPTO_KEY_HMAC_NAME (tm_name m) = Some h)"
    and len: "length ms + length mdatlist < 4294967296"
  shows "\<exists>SD' SR' C'. phase4_archives (\<lambda>_. mem_ok) FE n mdatlist SD SR C = Some (0, SD', SR', C')"
  using inv m len
proof (induction mdatlist arbitrary: n ms SD SR C)
  case (Cons x mdatlist)
  show ?case
  proof (cases x)
    case None
    then show ?thesis using Cons by simp
  next
    case (Some m)
    let ?cr = "fe_cr FE" and ?u = "fe_uncompress FE"
    have m1: "countable_archive ?cr F ?u m" "fst (archive_trace ?cr F ?u m) \<noteq> -1"
        "\<exists>h. crypto_hash_data ?cr CRYPTO_KEY_HMAC_NAME (tm_name m) = Some h" and
      m2: "\<forall>m\<in>set (somes mdatlist). countable_archive (fe_cr FE) F (fe_uncompress FE) m \<and>
        fst (archive_trace (fe_cr FE) F (fe_uncompress FE) m) \<noteq> -1 \<and> (\<exists>h. crypto_hash_data (fe_cr FE) CRYPTO_KEY_HMAC_NAME (tm_name m) = Some h)"
      using Cons.prems(2) by (simp_all add: Some)
    obtain rc SR1 C1 where it: "multitape_chunkiter_tmd mem_ok ?cr (fe_rfile FE) (fe_addcache FE) ?u m
        (callback_chunkref (fe_hash FE)) SR (Some (chunks_stats_extrastats (chunks_stats_zeroarchive C) (tm_metadatalen m))) (\<lambda>C. C) = (rc, SR1, C1)"
      by (metis prod_cases3)
    have lms: "length ms < 4294967296" using Cons.prems(3) by simp
    obtain C2 where C2: "C1 = Some C2" and step: "if complete ?cr F ?u D m
       then rc = 0 \<and> (\<exists>C3. chunks_fsck_archive_add C2 = (0, C3) \<and> counts_archives (fe_hash FE) ?cr F ?u D c (ms @ [m]) C3)
       else (rc = 1 \<or> rc = 2) \<and> counts_archives (fe_hash FE) ?cr F ?u D c ms C2"
      using phase4_archive [OF env(1) Cons.prems(1) m1(1) lms it] m1(2) by auto
    show ?thesis
    proof (cases "complete ?cr F ?u D m")
      case True
      then obtain C3 where C3: "rc = 0" "chunks_fsck_archive_add C2 = (0, C3)" "counts_archives (fe_hash FE) ?cr F ?u D c (ms @ [m]) C3"
        using step by auto
      have "length (ms @ [m]) + length mdatlist < 4294967296" using Cons.prems(3) by simp
      from Cons.IH [OF C3(3) m2 this, of "Suc n" SD SR1] show ?thesis using it C3(1,2) by (simp add: Some C2 Let_def)
    next
      case False
      then have st: "rc = 1 \<or> rc = 2" "counts_archives (fe_hash FE) ?cr F ?u D c ms C2" using step by auto
      obtain SD1 where del: "deletearchive ?cr (fe_dfile FE) SD m = (0, SD1)"
        using deletearchive_progress [of "fe_dfile FE" ?cr m SD] env(2) m1(3) by (auto simp: fsck_env_up_def)
      have "length ms + length mdatlist < 4294967296" using Cons.prems(3) by simp
      from Cons.IH [OF st(2) m2 this, of "Suc n" SD1 SR1] show ?thesis using it st(1) del by (auto simp: Some C2 Let_def)
    qed
  qed
qed simp

lemma deletechunks_progress:
  assumes inv: "dir_inv hash (cs_HT C)" and up: "\<forall>S c h. fst (dfile S c h) = 0"
  shows "\<exists>C' S'. chunks_fsck_deletechunks dfile C S = (0, C', S')"
proof -
  let ?f = "callback_delete dfile" and ?rs = "somes (ht_ht (cs_HT C))"
  have f: "\<exists>s'. ?f r s = (0, r, s')" for r s
  proof -
    obtain s1 where "dfile s (CHR ''c'') (cd_hash r) = (0, s1)" using up by (metis prod.collapse)
    then show ?thesis by (simp add: callback_delete_def)
  qed
  have recs: "\<exists>rs' s'. foreach_recs ?f rs s = (0, rs', s')" for rs s
  proof (induction rs arbitrary: s)
    case (Cons r rs)
    obtain s1 where "?f r s = (0, r, s1)" using f by blast
    moreover obtain rs' s' where "foreach_recs ?f rs s1 = (0, rs', s')" using Cons.IH by blast
    ultimately show ?case by simp
  qed simp
  have key: "cd_hash (fst (snd (?f r s))) = cd_hash r" for r s using f [of r s] by auto
  obtain rc H' S' where run: "rwhashtab_foreach ?f (cs_HT C) S = (rc, H', S')" by (metis prod_cases3)
  have "foreach_recs ?f ?rs S = (rc, somes (ht_ht H'), S')" using rwhashtab_foreach_spec(2) [where func = ?f, OF inv key run] .
  then have "rc = 0" using recs [of ?rs S] by auto
  then show ?thesis using run by (simp add: chunks_fsck_deletechunks_def)
qed

lemma cleanstate_succeeds:
  assumes cache: "fsck_cache c machine fs log" and srv: "server_up srv"
  shows "fst (multitape_cleanstate no_fault srv c machine key fs log modified) = 0"
  using cache unfolding fsck_cache_def
proof (elim disjE exE conjE)
  assume clean: "cache_clean c fs"
  obtain r1 fs1 where r1: "read_marker no_fault (cache_name c ''ckpt_m'') 64 fs = (r1, fs1)" by fastforce
  note m1 = read_marker_result [OF r1]
  have v1: "r1 = Inl ENOENT" using m1(4) clean by (auto simp: cache_clean_def)
  have c1: "cache_clean c fs1" using cache_clean_step [OF clean m1(1)] .
  obtain r2 fs2 where r2: "read_marker no_fault (cache_name c ''commit_m'') 32 fs1 = (r2, fs2)" by fastforce
  have "r2 = Inl ENOENT" using read_marker_result(4) [OF r2] c1 by (auto simp: cache_clean_def)
  then show ?thesis by (simp add: multitape_cleanstate_def docheckpoint_read docommit_read r1 v1 r2)
next
  fix x assume x: "recoverable x fs log" "tx_cache x = c" "tx_machine x = machine" "length (tx_seqnum x) = 32" "length (tx_nonce x) = 32"
  obtain rc fs' log' m where run: "multitape_cleanstate no_fault srv c machine key fs log modified = (rc, fs', log', m)" by (metis prod_cases4)
  show ?thesis using cleanstate_recovers [OF x(1,4,5) run [folded x(2,3)]] srv run by simp
qed

lemma fsck_phases_progress:
  assumes env: "fsck_env_ok False reqs F FE" "fsck_env_up FE"
    and lists: "fe_list FE machinenum (CHR ''m'') 0 = Some ml" "fe_list FE machinenum (CHR ''i'') 0 = Some il"
      "fe_list FE machinenum (CHR ''c'') 0 = Some cl"
    and ok: "sorted_files il" "length ml < 4294967296" "sorted_files cl" "length cl \<le> 2 ^ 48"
    and ml: "\<forall>h\<in>set ml. metadata_at (fe_cr FE) F junk h \<noteq> Inl (-1) \<and> metadata_at (fe_cr FE) F junk h \<noteq> Inl 1"
    and cnt: "\<forall>m\<in>set (metas (fe_cr FE) F junk ml). countable_archive (fe_cr FE) F (fe_uncompress FE) m \<and>
      fst (archive_trace (fe_cr FE) F (fe_uncompress FE) m) \<noteq> -1"
  shows "\<exists>C SD'. fsck_phases fsck_mem_ok FE junk junkc machinenum c SD SR = Some (Inr (C, SD')) \<and> cs_path C = c"
proof -
  have e: "answers False F (fe_ralloc FE) (fe_rfile FE)" "deletes_logged reqs (fe_dfile FE)" "\<forall>S c h. fst (fe_dfile FE S c h) = 0"
      "fe_entropy FE \<noteq> None"
    using env by (simp_all add: fsck_env_ok_def fsck_env_up_def)
  let ?ms = "metas (fe_cr FE) F junk ml"
  obtain SD1 SR1 ms1 where p1: "phase1_files mem_ok (\<lambda>_. mem_ok) (fe_cr FE) (fe_ralloc FE) (fe_dfile FE) junk 0 ml SD SR [] = (0, SD1, SR1, ms1)"
    using phase1_files_progress [OF e(1,3) ml] by blast
  have ms1: "ms1 = ?ms" using phase1_files_spec [OF e(1,2) _ p1] by simp
  have q1: "phase1 mem_ok mem_ok (\<lambda>_. mem_ok) FE junk machinenum SD SR = (0, SD1, SR1, ?ms)"
    using p1 ok(2) ms1 by (simp add: phase1_def lists(1))
  have names: "\<forall>m\<in>set ?ms. \<exists>h. crypto_hash_data (fe_cr FE) CRYPTO_KEY_HMAC_NAME (tm_name m) = Some h"
    using metas_name by blast
  obtain SD2 mdatlist where q2: "phase2 mem_ok FE machinenum SD1 ?ms = Some (0, SD2, mdatlist)"
    using phase2_progress [OF lists(2) ok(1) env names] by blast
  note s2 = phase2_spec [OF lists(2) ok(1) env(1) q2]
  obtain C0 where C0: "chunks_fsck_start mem_ok (fe_hash FE) (fe_entropy FE) (fst junkc) (snd junkc) (Some cl) c = Some (Some C0)"
    using fsck_start_progress [OF sorted_files_distinct [OF ok(3)] ok(4) e(4)] by blast
  have q3: "phase3 mem_ok FE junkc machinenum c = Some (Some C0)" using C0 by (simp add: phase3_def lists(3))
  note c0 = fsck_start_counts [OF C0, of "fe_cr FE" F "fe_uncompress FE"]
  have len: "length ([] :: tapemetadata list) + length mdatlist < 4294967296"
    using s2 metas_length [of "fe_cr FE" F junk ml] ok(2) by simp
  have cm: "\<forall>m\<in>set (somes mdatlist). countable_archive (fe_cr FE) F (fe_uncompress FE) m \<and>
      fst (archive_trace (fe_cr FE) F (fe_uncompress FE) m) \<noteq> -1 \<and> (\<exists>h. crypto_hash_data (fe_cr FE) CRYPTO_KEY_HMAC_NAME (tm_name m) = Some h)"
    using s2 cnt names by auto
  obtain SD3 SR3 C3 where q4: "phase4_archives (\<lambda>_. mem_ok) FE 0 mdatlist SD2 (fe_set_limit FE SR1 (100 * chunks_stats_getdirsz C0)) C0 = Some (0, SD3, SR3, C3)"
    using phase4_archives_progress [OF env c0 cm len] by blast
  have cm': "\<forall>m\<in>set (somes mdatlist). countable_archive (fe_cr FE) F (fe_uncompress FE) m" using cm by blast
  have inv: "dir_inv (fe_hash FE) (cs_HT C3)" "cs_path C3 = c"
    using phase4_archives_spec [OF env(1) c0 cm' len _ q4] by (simp_all add: counts_archives_def fsck_inv_def)
  obtain C4 SD4 where q5: "chunks_fsck_deletechunks (fe_dfile FE) C3 SD3 = (0, C4, SD4)"
    using deletechunks_progress [OF inv(1) e(3)] by blast
  have "cs_path C4 = c" using deletechunks_logged [OF inv(1) e(2) q5] inv(2) by simp
  then show ?thesis
    using q1 q2 q3 q4 q5 by (simp add: fsck_phases_def fsck_mem_ok_def phase4_def phase5_def)
qed

lemma fscktape_progress:
  assumes env: "fsck_env_ok False reqs F FE" "fsck_env_up FE"
    and lists: "fe_list FE machinenum (CHR ''m'') 0 = Some ml" "fe_list FE machinenum (CHR ''i'') 0 = Some il"
      "fe_list FE machinenum (CHR ''c'') 0 = Some cl"
    and ok: "sorted_files il" "length ml < 4294967296" "sorted_files cl" "length cl \<le> 2 ^ 48"
    and ml: "\<forall>h\<in>set ml. metadata_at (fe_cr FE) F junk h \<noteq> Inl (-1) \<and> metadata_at (fe_cr FE) F junk h \<noteq> Inl 1"
    and cnt: "\<forall>m\<in>set (metas (fe_cr FE) F junk ml). countable_archive (fe_cr FE) F (fe_uncompress FE) m \<and>
      fst (archive_trace (fe_cr FE) F (fe_uncompress FE) m) \<noteq> -1"
    and cache: "fsck_cache c machinenum (fw_fs w) (fw_log w)"
  shows "\<exists>SD w'. fscktape fsck_mem_ok FE junk junkc True machinenum c prune whichkey w = Some (0, Some SD, w')"
proof -
  define key :: u8 where "key = (if whichkey = 0 then 0 else 1)"
  have up: "fe_flt FE = no_fault" "server_up (fe_srv FE)" using env(2) by (simp_all add: fsck_env_up_def)
  obtain fs1 log1 m1 where r1: "multitape_cleanstate no_fault (fe_srv FE) c machinenum key (fw_fs w) (fw_log w) (fw_modified w) = (0, fs1, log1, m1)"
    using cleanstate_succeeds [OF cache up(2)] by (metis prod_cases4 fst_conv)
  have clean: "fs_names fs1 (cache_name c ''commit_m'') = None"
      "fs_names fs1 (directory_path c ''.tmp'') = Some j \<Longrightarrow> \<exists>d s. fs_node fs1 j = Some (Regular d s)" for j
    using fsck_cache_clean [OF cache r1] by (simp_all add: cache_clean_def)
  let ?rq = "Commit_from_checkpoint_call machinenum key"
  have srv: "fst (fe_srv FE log1 ?rq) = 0" using up(2) by (simp add: server_up_def)
  obtain SD0 seq where r2: "fe_start FE machinenum (prune = 0) key = Some (SD0, seq)"
    using env(2) unfolding fsck_env_up_def by (metis option.exhaust surj_pair)
  have seq: "length seq = 32" using env(1) r2 by (auto simp: fsck_env_ok_def)
  obtain SR where r3: "fe_init FE machinenum = Some SR" using env(2) unfolding fsck_env_up_def by (metis option.exhaust)
  obtain C SD1 where r4: "fsck_phases fsck_mem_ok FE junk junkc machinenum c SD0 SR = Some (Inr (C, SD1))" "cs_path C = c"
    using fsck_phases_progress [OF env lists ok ml cnt] by blast
  obtain fs2 where w2: "chunks_directory_write no_fault c (cs_HT C) (cs_stats_extra C) ''.tmp'' fs1 = (0, fs2)"
      "\<And>q. q \<noteq> directory_path c ''.tmp'' \<Longrightarrow> fs_names fs2 q = fs_names fs1 q"
    by (rule publish_again_succeeds [where fs = fs1 and path = c and suff = "''.tmp''" and HT = "cs_HT C" and st = "cs_stats_extra C"])
      (rule clean(2), assumption, rule that)
  then have r5: "chunks_fsck_end no_fault C fs1 = (0, fs2)" by (simp add: chunks_fsck_end_def r4(2))
  obtain SD2 where r6: "fe_end FE SD1 = (0, SD2)" using env(2) unfolding fsck_env_up_def by (metis prod.collapse)
  obtain i where i: "fs_names fs2 (directory_path c ''.tmp'') = Some i" "crash_views fs2 = {fs_names fs2}"
    using chunks_directory_write_spec [OF w2(1)] unfolding Let_def by blast
  let ?x = "direct_txn c machinenum seq i"
  have free: "fs_names fs2 (commit_m ?x) = None"
    using clean(1) w2(2) by (simp_all add: directory_path_def cache_name_def)
  have "fst (multitape_commit no_fault (fe_srv FE) c machinenum seq key fs2 (log1 @ [(?rq, 0)]) (m1 \<or> snd (fe_srv FE log1 ?rq))) = 0"
    using fresh_commit_succeeds [OF i(2) _ free _ up(2), of key] i(1) seq by simp
  then obtain fs3 log3 m3 where r7: "multitape_commit no_fault (fe_srv FE) c machinenum seq key fs2 (log1 @ [(?rq, 0)]) (m1 \<or> snd (fe_srv FE log1 ?rq)) = (0, fs3, log3, m3)"
    by (metis prod_cases4 fst_conv)
  show ?thesis
    unfolding fscktape_def key_def [symmetric] Let_def using r1 srv r2 r3 r4(1) r5 r6 r7 up(1) by simp
qed

end
