(* ===== verification/Fsck_Exact.thy ===== *)
theory Fsck_Exact
  imports Fsck_Run
begin

text \<open>
  The properties of \<^verbatim>\<open>fscktape\<close> (\<^verbatim>\<open>tar/multitape/multitape_fsck.c\<close>), with an environment in which they are
  evaluated.
\<close>

text \<open>The archives with a complete index, those of them that are kept, and their uses of chunks.\<close>

definition fsck_indexed :: "('r, 's) fsck_env \<Rightarrow> server \<Rightarrow> tapemetadata \<Rightarrow> bytes list \<Rightarrow> bytes list \<Rightarrow> tapemetadata list" where
  "fsck_indexed FE F junk ml il = filter (indexed (fe_cr FE) il) (metas (fe_cr FE) F junk ml)"

definition fsck_kept :: "('r, 's) fsck_env \<Rightarrow> server \<Rightarrow> tapemetadata \<Rightarrow> bytes list \<Rightarrow> bytes list \<Rightarrow> bytes list \<Rightarrow> tapemetadata list" where
  "fsck_kept FE F junk ml il cl =
     filter (complete (fe_cr FE) F (fe_uncompress FE) (set cl)) (fsck_indexed FE F junk ml il)"

definition fsck_uses :: "('r, 's) fsck_env \<Rightarrow> server \<Rightarrow> tapemetadata \<Rightarrow> bytes list \<Rightarrow> bytes list \<Rightarrow> bytes list \<Rightarrow> chunk_use list list" where
  "fsck_uses FE F junk ml il cl = map (archive_uses (fe_cr FE) F (fe_uncompress FE)) (fsck_kept FE F junk ml il cl)"

text \<open>The requests to delete before those for chunks: corrupt metadata, metadata without a complete index, fragments of
  no archive, archives that are broken.\<close>

definition fsck_requests :: "('r, 's) fsck_env \<Rightarrow> server \<Rightarrow> tapemetadata \<Rightarrow> bytes list \<Rightarrow> bytes list \<Rightarrow> bytes list \<Rightarrow> (char \<times> bytes) list" where
  "fsck_requests FE F junk ml il cl =
     map (Pair (CHR ''m'')) (corrupt (fe_cr FE) F junk ml) @
     map (\<lambda>m. (CHR ''m'', name_hash (fe_cr FE) m)) (filter (\<lambda>m. \<not> indexed (fe_cr FE) il m) (metas (fe_cr FE) F junk ml)) @
     map (Pair (CHR ''i'')) (filter (\<lambda>h. h \<notin> needed (fe_cr FE) (fsck_indexed FE F junk ml il)) il) @
     concat (map (archive_files (fe_cr FE)) (broken_archives (fe_cr FE) F (fe_uncompress FE) (set cl) (fsck_indexed FE F junk ml il)))"

lemma fsck_result:
  assumes env: "fsck_env_ok True reqs F FE"
    and lists: "fe_list FE machinenum (CHR ''m'') 0 = Some ml" "fe_list FE machinenum (CHR ''i'') 0 = Some il"
      "fe_list FE machinenum (CHR ''c'') 0 = Some cl"
    and ok: "sorted_files il" "length ml < 4294967296" "\<forall>h\<in>set cl. length h = 32" "length cl \<le> 2 ^ 48"
    and cnt: "\<forall>m\<in>set (metas (fe_cr FE) F junk ml). countable_archive (fe_cr FE) F (fe_uncompress FE) m"
    and cache: "fsck_cache c machinenum (fw_fs w) (fw_log w)"
    and run: "fscktape ma FE junk junkc lock machinenum c prune whichkey w = Some (0, Some SD, w')"
  shows "\<exists>ds seq i HT fs.
    reqs SD = fsck_requests FE F junk ml il cl @ map (Pair (CHR ''c'')) ds \<and>
    distinct ds \<and> set ds = set cl - fst ` set (concat (fsck_uses FE F junk ml il cl)) \<and>
    commit_complete (direct_txn c machinenum seq i) (fw_log w') (fw_fs w') \<and>
    (fs_names (fw_fs w) (directory_path c ''.ckpt'') = None \<longrightarrow>
       transaction_complete (direct_txn c machinenum seq i) (fw_log w') (fw_fs w')) \<and>
    chunks_directory_read no_fault hash (Some rb) () (Some c) mustexist (fw_fs w') =
      Some (Some (HT, unique_of (dir_map HT), total_of (dir_map HT), extras (fsck_kept FE F junk ml il cl)), fs) \<and>
    directory_counts (fsck_uses FE F junk ml il cl) (dir_map HT)"
  using fsck_run_exact [OF assms, of hash rb mustexist]
  unfolding fsck_requests_def fsck_uses_def fsck_kept_def fsck_indexed_def append_assoc .

text \<open>C2: What \<^verbatim>\<open>fscktape\<close> does when it returns 0: it asks the server to delete
  exactly the corrupt metadata, the metadata of archives whose index is not complete, the fragments that no
  archive with a complete index has, every file of the archives that are broken (the index does not match, or a chunk is
  missing or corrupt) and the chunks that no kept archive uses, each of those once; its transaction is committed, and
  the chunk directory it leaves has a record for exactly the chunks of the archives that are kept, with the number of
  archives and of uses, and their statistics.  Reads, allocations, calls of the operating system and of the storage
  layer may fail on the way, with one exception: registering a chunk with the read cache must not, because the
  iteration then reports success before it has seen all chunks of the archive.  Further conditions: the lists of the server are as it sends them
  (fragments in increasing order, hashes of 32 bytes, fewer than \<open>2 ^ 32\<close> metadata files and at most \<open>2 ^ 48\<close> chunks);
  the archives can be counted (chunk headers with nonzero lengths, compressed below \<open>2 ^ 30\<close>, and fewer than
  \<open>2 ^ 32\<close> of them in an archive); and the cache has no marker of a transaction, or is the one of a
  transaction that was interrupted and can be completed.  Without a marker, chunk directories that were never committed
  may be left: \<^verbatim>\<open>directory.tmp\<close> is overwritten, and \<^verbatim>\<open>directory.ckpt\<close> stays where it is.\<close>

theorem fsck_exact:
  assumes env: "fsck_env_ok True reqs F FE"
    and lists: "fe_list FE machinenum (CHR ''m'') 0 = Some ml" "fe_list FE machinenum (CHR ''i'') 0 = Some il"
      "fe_list FE machinenum (CHR ''c'') 0 = Some cl"
    and ok: "sorted_files il" "length ml < 4294967296" "\<forall>h\<in>set cl. length h = 32" "length cl \<le> 2 ^ 48"
    and cnt: "\<forall>m\<in>set (metas (fe_cr FE) F junk ml). countable_archive (fe_cr FE) F (fe_uncompress FE) m"
    and cache: "fsck_cache c machinenum (fw_fs w) (fw_log w)"
    and run: "fscktape ma FE junk junkc lock machinenum c prune whichkey w = Some (0, Some SD, w')"
  shows "\<exists>ds seq i HT fs.
    reqs SD = fsck_requests FE F junk ml il cl @ map (Pair (CHR ''c'')) ds \<and>
    distinct ds \<and> set ds = set cl - fst ` set (concat (fsck_uses FE F junk ml il cl)) \<and>
    commit_complete (direct_txn c machinenum seq i) (fw_log w') (fw_fs w') \<and>
    (fs_names (fw_fs w) (directory_path c ''.ckpt'') = None \<longrightarrow>
       transaction_complete (direct_txn c machinenum seq i) (fw_log w') (fw_fs w')) \<and>
    chunks_directory_read no_fault hash (Some rb) () (Some c) mustexist (fw_fs w') =
      Some (Some (HT, unique_of (dir_map HT), total_of (dir_map HT), extras (fsck_kept FE F junk ml il cl)), fs) \<and>
    directory_counts (fsck_uses FE F junk ml il cl) (dir_map HT)"
  by (rule fsck_result [OF assms])

text \<open>C7: \<^verbatim>\<open>fscktape\<close> succeeds when nothing fails: no allocation, no call of the operating system, the storage layer and the
  server answer, and no signature or hash computation has an internal error.  As above, the lists of the
  server are in order, the archives can be counted (chunk headers with nonzero lengths, compressed below \<open>2 ^ 30\<close>,
  fewer than \<open>2 ^ 32\<close> in an archive), and the cache has no marker of a transaction, or is the one of a transaction that was
  interrupted and can be completed: with a malformed marker the call returns -1.  Files that an interrupted run has
  left do no harm.\<close>

theorem fsck_succeeds:
  assumes env: "fsck_env_ok False reqs F FE" "fsck_env_up FE"
    and lists: "fe_list FE machinenum (CHR ''m'') 0 = Some ml" "fe_list FE machinenum (CHR ''i'') 0 = Some il"
      "fe_list FE machinenum (CHR ''c'') 0 = Some cl"
    and ok: "sorted_files il" "length ml < 4294967296" "sorted_files cl" "length cl \<le> 2 ^ 48"
    and ml: "\<forall>h\<in>set ml. metadata_at (fe_cr FE) F junk h \<noteq> Inl (-1) \<and> metadata_at (fe_cr FE) F junk h \<noteq> Inl 1"
    and cnt: "\<forall>m\<in>set (metas (fe_cr FE) F junk ml). countable_archive (fe_cr FE) F (fe_uncompress FE) m \<and>
      fst (archive_trace (fe_cr FE) F (fe_uncompress FE) m) \<noteq> -1"
    and cache: "fsck_cache c machinenum (fw_fs w) (fw_log w)"
  shows "\<exists>SD w'. fscktape fsck_mem_ok FE junk junkc True machinenum c prune whichkey w = Some (0, Some SD, w')"
  by (rule fscktape_progress [OF assms])

subsection \<open>A server with files that belong to nothing\<close>

text \<open>Metadata that are corrupt, a fragment and a chunk.\<close>

definition stray_server :: server where
  "stray_server k = Inr []"

definition stray_file :: "char \<Rightarrow> bytes" where
  "stray_file c = replicate 32 (if c = CHR ''m'' then 1 else if c = CHR ''i'' then 2 else 3)"

definition sample_fsck_env :: "server \<Rightarrow> (char \<Rightarrow> bytes list) \<Rightarrow> (unit, (char \<times> bytes) list) fsck_env" where
  "sample_fsck_env F ls = \<lparr>fe_cr = sample_crypto, fe_hash = sample_hash, fe_entropy = Some [7], fe_list = \<lambda>m c k. Some (ls c),
     fe_init = \<lambda>m. Some (), fe_ralloc = still_alloc F, fe_rfile = still_rfile F, fe_addcache = still_cache, fe_set_limit = \<lambda>r n. r,
     fe_uncompress = sample_inflate, fe_start = \<lambda>m ro k. Some ([], replicate 32 3), fe_dfile = \<lambda>s c h. (0, s @ [(c, h)]),
     fe_end = \<lambda>s. (0, s), fe_flt = no_fault, fe_srv = sample_server\<rparr>"

lemma sample_fsck_simps [simp]:
  "fe_cr (sample_fsck_env F ls) = sample_crypto" "fe_list (sample_fsck_env F ls) m c k = Some (ls c)"
  "fe_uncompress (sample_fsck_env F ls) = sample_inflate"
  by (simp_all add: sample_fsck_env_def)

lemma sample_fsck_env_ok:
  assumes F: "\<forall>k rc. F k = Inl rc \<longrightarrow> rc = 1 \<or> rc = 2"
  shows "fsck_env_ok fail (\<lambda>s. s) F (sample_fsck_env F ls)" "fsck_env_up (sample_fsck_env F ls)"
  using F sample_server_up sample_env_ok(1)
  by (simp_all add: fsck_env_ok_def fsck_env_up_def sample_fsck_env_def answers_def deletes_logged_def still_alloc_def still_rfile_def
      still_cache_def env_ok_def sample_env_def)

abbreviation stray_env :: "(unit, (char \<times> bytes) list) fsck_env" where
  "stray_env \<equiv> sample_fsck_env stray_server (\<lambda>c. [stray_file c])"

definition stray_world :: fsck_world where
  "stray_world = \<lparr>fw_fs = empty_fs, fw_log = [], fw_modified = False\<rparr>"

lemma stray_metadata: "metadata_at sample_crypto stray_server toy_metadata h = Inl 2"
  by (simp add: metadata_at_def multitape_metadata_get_def still_alloc_def stray_server_def multitape_metadata_dec_def nul_string_def)

lemma stray_lists: "metas sample_crypto stray_server toy_metadata [h] = []" "corrupt sample_crypto stray_server toy_metadata [h] = [h]"
  by (simp_all add: metas_def corrupt_def stray_metadata)

lemma stray_cache: "fsck_cache ''c'' 1 (fw_fs stray_world) (fw_log stray_world)"
  by (simp add: fsck_cache_def cache_clean_def stray_world_def empty_fs_def fs_names_def)

lemma stray_sorted: "sorted_files [stray_file c]"
  by (simp add: sorted_files_def stray_file_def)

lemma stray_env_ok: "fsck_env_ok fail (\<lambda>s. s) stray_server stray_env" "fsck_env_up stray_env"
  using sample_fsck_env_ok [of stray_server] by (simp_all add: stray_server_def)

lemma fsck_succeeds_witness:
  "\<exists>SD w'. fscktape fsck_mem_ok stray_env toy_metadata (0, chunks_stats_zero) True 1 ''c'' 1 1 stray_world = Some (0, Some SD, w')"
  by (rule fsck_succeeds [OF stray_env_ok sample_fsck_simps(2,2,2)])
    (simp_all add: stray_sorted stray_lists stray_metadata stray_cache)

lemma stray_run:
  "\<exists>SD w'. fscktape fsck_mem_ok stray_env toy_metadata (0, chunks_stats_zero) True 1 ''c'' 1 1 stray_world = Some (0, Some SD, w')"
  by (rule fscktape_progress [OF stray_env_ok sample_fsck_simps(2,2,2)])
    (simp_all add: stray_sorted stray_lists stray_metadata stray_cache)

lemma fsck_exact_witness:
  "\<exists>SD w' HT uniq all st fs.
     fscktape fsck_mem_ok stray_env toy_metadata (0, chunks_stats_zero) True 1 ''c'' 1 1 stray_world = Some (0, Some SD, w') \<and>
     SD = [(CHR ''m'', stray_file (CHR ''m'')), (CHR ''i'', stray_file (CHR ''i'')), (CHR ''c'', stray_file (CHR ''c''))] \<and>
     chunks_directory_read no_fault sample_hash (Some [7]) () (Some ''c'') True (fw_fs w') = Some (Some (HT, uniq, all, st), fs) \<and>
     dir_map HT = Map.empty"
proof -
  obtain SD w' where run: "fscktape fsck_mem_ok stray_env toy_metadata (0, chunks_stats_zero) True 1 ''c'' 1 1 stray_world = Some (0, Some SD, w')"
    using stray_run by blast
  have none: "fsck_indexed stray_env stray_server toy_metadata [stray_file (CHR ''m'')] [stray_file (CHR ''i'')] = []"
    by (simp add: fsck_indexed_def stray_lists)
  then have uses: "fsck_uses stray_env stray_server toy_metadata [stray_file (CHR ''m'')] [stray_file (CHR ''i'')] [stray_file (CHR ''c'')] = []"
    and reqs: "fsck_requests stray_env stray_server toy_metadata [stray_file (CHR ''m'')] [stray_file (CHR ''i'')] [stray_file (CHR ''c'')] =
      [(CHR ''m'', stray_file (CHR ''m'')), (CHR ''i'', stray_file (CHR ''i''))]"
    by (simp_all add: fsck_uses_def fsck_kept_def fsck_requests_def stray_lists needed_def)
  have small: "length [stray_file (CHR ''m'')] < 4294967296" "\<forall>h\<in>set [stray_file (CHR ''c'')]. length h = 32"
      "length [stray_file (CHR ''c'')] \<le> 2 ^ 48"
      "\<forall>m\<in>set (metas (fe_cr stray_env) stray_server toy_metadata [stray_file (CHR ''m'')]).
         countable_archive (fe_cr stray_env) stray_server (fe_uncompress stray_env) m"
    by (simp_all add: stray_lists stray_file_def)
  obtain ds HT uniq all st fs where r: "SD = [(CHR ''m'', stray_file (CHR ''m'')), (CHR ''i'', stray_file (CHR ''i''))] @ map (Pair (CHR ''c'')) ds"
      "distinct ds" "set ds = set [stray_file (CHR ''c'')] - fst ` set (concat ([] :: chunk_use list list))"
      "chunks_directory_read no_fault sample_hash (Some [7]) () (Some ''c'') True (fw_fs w') = Some (Some (HT, uniq, all, st), fs)"
      "directory_counts [] (dir_map HT)"
    using fsck_exact [OF stray_env_ok(1) sample_fsck_simps(2,2,2) stray_sorted small stray_cache run, of sample_hash "[7]" True]
    unfolding uses reqs by (elim exE conjE) (rule that)
  have "length ds = 1" using r(2,3) distinct_card [of ds] by simp
  then have "ds = [stray_file (CHR ''c'')]" using r(3) by (cases ds) auto
  moreover have "dir_map HT = Map.empty" using r(5) by (simp add: directory_counts_def)
  ultimately show ?thesis using run r(1,4) by simp
qed

end
