(* ===== verification/Fsck_Session.thy ===== *)
theory Fsck_Session
  imports Fsck_Exact
begin

text \<open>
  A session of \<^verbatim>\<open>tar/multitape/multitape_write.c\<close> followed by a check of
  \<^verbatim>\<open>tar/multitape/multitape_fsck.c\<close>: the check deletes nothing and rebuilds the directory that the
  session left.
\<close>

text \<open>The files of a storage layer as a server that does not change.\<close>

definition serve :: "files \<Rightarrow> server" where
  "serve F k = (case F k of None \<Rightarrow> Inl 1 | Some b \<Rightarrow> Inr b)"

lemma serve_reads: "rfile_alloc_ok fail F (still_alloc (serve F))" "rfile_ok fail F (still_rfile (serve F))"
  by (simp_all add: rfile_alloc_ok_def rfile_ok_def still_alloc_def still_rfile_def serve_def sized_def)

lemma serve_codes: "\<forall>k rc. serve F k = Inl rc \<longrightarrow> rc = 1 \<or> rc = 2"
  by (auto simp: serve_def split: option.splits)

text \<open>A header of the archive says what the directory says.\<close>

definition header_true :: "(bytes \<Rightarrow> chunkdata option) \<Rightarrow> bytes \<Rightarrow> bool" where
  "header_true m v \<longleftrightarrow> length v = 40 \<and> header_ok v \<and>
     (\<exists>cd. m (ch_hash v) = Some cd \<and> ch_len v = unat (cd_len cd) \<and> ch_zlen v = unat (cd_zlen cd))"

lemma named_header:
  assumes srv: "on_server E u F m" and wf: "\<forall>k cd. m k = Some cd \<longrightarrow> chunk_wf cd"
    and ch: "names_chunk E m v b" and free: "collision_free E u F b"
  shows "header_true m v"
proof -
  obtain h cd where h: "chunk_hash E b = Some h" "length h = 32" "m h = Some cd" "length b \<le> MAXCHUNK" "b \<noteq> []"
      "v = h @ le32enc (of_nat (length b)) @ le32enc (cd_zlen cd)"
    using ch unfolding names_chunk_def by blast
  obtain b' z where z: "chunk_hash E b' = Some h" "F (CHR ''c'', h) = Some z" "length z = unat (cd_zlen cd)"
      "length z \<le> ZBUFLEN" "length b' = unat (cd_len cd)" "u (length b') z = Inr b'"
    using srv h(3) unfolding on_server_def holds_chunk_def by blast
  have b: "b' = b" using free h(1) z(1,2,6) unfolding collision_free_def by blast
  have parts: "length v = 40" "ch_hash v = h" "ch_len v = length b" "ch_zlen v = length z"
    using h(2,4) z(3) by (simp_all add: h(6) unat_of_nat_u32 MAXCHUNK_def)
  have "cd_zlen cd \<noteq> 0" using wf h(3) by (auto simp: chunk_wf_def)
  then have "0 < length z" using z(3) by (simp add: unat_gt_0)
  moreover have "0 < unat (cd_len cd)" using h(5) z(5) b by (metis length_greater_0_conv)
  ultimately show ?thesis using parts(1,2,4) h(3) z(3,4,5) b parts(3) by (simp add: header_true_def header_ok_def ZBUFLEN_value)
qed

lemma named_headers:
  assumes "on_server E u F m" "\<forall>k cd. m k = Some cd \<longrightarrow> chunk_wf cd"
    and "list_all2 (names_chunk E m) vs bufs" "\<forall>b\<in>set bufs. collision_free E u F b"
  shows "\<forall>v\<in>set vs. header_true m v"
  using assms(3,4) named_header [OF assms(1,2)] by (induction rule: list_all2_induct) auto

text \<open>The headers of an archive that was stored, as the iteration over its chunks meets them.\<close>

lemma stored_trace:
  assumes st: "tape_stored E files u m0 d name content"
    and idx: "\<And>S. value_or_fail False (tape_index d)
      (fst (multitape_metaindex_get mem_ok (te_cr E) (still_rfile (serve (files (tw_S d)))) S None m))"
  shows "\<exists>es bufs chs us. tape_chunks E d es bufs \<and> content = archive_bytes es \<and> length chs = length bufs \<and>
    mset us = mset (map ch_hash chs) \<and> write_inv (te_hash E) m0 us (tw_C d) \<and>
    ((\<forall>b\<in>set bufs. collision_free E u (files (tw_S d)) b) \<longrightarrow>
      (\<forall>v\<in>set chs. header_true (chunk_table d) v) \<and>
      (\<exists>vs. archive_trace (te_cr E) (serve (files (tw_S d))) u m = (0, vs) \<and> mset vs = mset chs))"
proof -
  let ?F = "files (tw_S d)" and ?m = "chunk_table d"
  obtain es where es: "tape_named E files u m0 d es" "content = archive_bytes es" using st unfolding tape_stored_def by blast
  obtain hbufs ibufs cs cbufs tbufs where n:
      "list_all2 (names_chunk E ?m) (ws_index (tw_stream d Headers)) hbufs" "concat hbufs = header_stream es"
      "list_all2 (names_chunk E ?m) (ws_index (tw_stream d Chunks)) ibufs" "concat ibufs = concat cs"
      "list_all2 (names_chunk E ?m) cs cbufs" "concat cbufs = chunk_data es"
      "list_all2 (names_chunk E ?m) (ws_index (tw_stream d Trailers)) tbufs" "concat tbufs = trailer_data es"
      "base_ok E files u m0 (tape_uses d cs) d"
    using es(1) unfolding tape_named_def stream_done_def by (elim exE conjE) (rule that)
  obtain us where us: "mset us = tape_uses d cs" "write_inv (te_hash E) m0 us (tw_C d)" "on_server E u ?F ?m"
    using n(9) unfolding base_ok_def by blast
  have wf: "\<forall>k cd. ?m k = Some cd \<longrightarrow> chunk_wf cd" using us(2) by (auto simp: write_inv_def tally_def)
  let ?hs = "ws_index (tw_stream d Headers)" and ?ih = "ws_index (tw_stream d Chunks)" and ?ts = "ws_index (tw_stream d Trailers)"
  let ?chs = "?hs @ ?ih @ cs @ ?ts" and ?bufs = "hbufs @ ibufs @ cbufs @ tbufs"
  have all: "list_all2 (names_chunk E ?m) ?chs ?bufs" using n(1,3,5,7) by (simp add: list_all2_appendI)
  have chunks: "tape_chunks E d es ?bufs" unfolding tape_chunks_def using n(1-8) by blast
  have trace: "\<exists>vs. archive_trace (te_cr E) (serve ?F) u m = (0, vs) \<and> mset vs = mset ?chs"
    if free: "\<forall>b\<in>set ?bufs. collision_free E u ?F b"
  proof -
    have ok: "list_all2 (chunk_ok (tape_rchunk E u (still_rfile (serve ?F))) fail) ?ih ibufs" for fail
      by (rule named_chunks_ok [OF us(3) serve_reads(2) n(3)]) (use free in auto)
    have l: "\<forall>x\<in>set ?hs. length x = 40" "\<forall>x\<in>set cs. length x = 40" "\<forall>x\<in>set ?ts. length x = 40" "\<forall>x\<in>set ?ih. ch_len x \<le> MAXCHUNK"
      using names_chunk_length [OF n(1)] names_chunk_length [OF n(3)] names_chunk_length [OF n(5)] names_chunk_length [OF n(7)] by blast+
    have i: "mi_hindex (tape_index d) = concat ?hs" "mi_cindex (tape_index d) = concat ?ih" "mi_tindex (tape_index d) = concat ?ts"
      by (simp_all add: tape_index_def)
    have cache: "\<And>S c h. fst (still_cache S c h) = 0" by (simp add: still_cache_def)
    have "accepts collect (\<lambda>_. True) UNIV" by (simp add: accepts_def)
    then obtain S' vs where run: "multitape_chunkiter_tmd mem_ok (te_cr E) (still_rfile (serve ?F)) still_cache u m collect () None (\<lambda>_. []) = (0, S', vs)"
      using chunkiter_progress [where addcache = still_cache, OF cache _ tape_cookie_init idx i(1) l(1) i(2) ok n(4) l(2,4) i(3) l(3), of collect "\<lambda>_. True" UNIV "[]"]
      by auto
    have nz: "\<And>S n c h. fst (still_rfile (serve ?F) S n c h) \<noteq> Inl 0"
      by (auto simp: still_rfile_def sized_def serve_def split: sum.splits option.splits)
    have idx': "\<And>S. value_or_fail True (tape_index d) (fst (multitape_metaindex_get mem_ok (te_cr E) (still_rfile (serve ?F)) S None m))"
      using idx by (simp add: value_or_fail_def)
    obtain us' where "mset us' = mset ?chs" "visit collect us' [] = (0, vs)"
      using chunkiter_visits [OF cache nz tape_cookie_init idx' i(1) l(1) i(2) ok n(4) l(2) i(3) l(3) run] by blast
    then show ?thesis using run by (simp add: archive_trace_def visit_collect)
  qed
  have same: "mset us = mset (map ch_hash ?chs)" using us(1) by (simp add: ac_simps)
  have "(\<forall>b\<in>set ?bufs. collision_free E u ?F b) \<longrightarrow> (\<forall>v\<in>set ?chs. header_true ?m v) \<and>
      (\<exists>vs. archive_trace (te_cr E) (serve ?F) u m = (0, vs) \<and> mset vs = mset ?chs)"
    using named_headers [OF us(3) wf all] trace by blast
  then show ?thesis using chunks es(2) list_all2_lengthD [OF all] same us(2) by blast
qed

text \<open>The directory that is counted from the archive is the one that was written with it.\<close>

lemma counted_is_reloaded:
  assumes t: "tally Map.empty us m" and us: "mset us = mset (map ch_hash vs)" and vs: "\<forall>v\<in>set vs. header_true m v"
    and counts: "directory_counts [map header_use vs] m'"
  shows "m' = reloaded () m"
proof
  fix k
  let ?uses = "map header_use vs"
  have dom: "dom m = ch_hash ` set vs" using t mset_eq_setD [OF us] by (simp add: tally_def)
  have dom': "dom m' = ch_hash ` set vs" using counts by (auto simp: directory_counts_def image_image)
  show "m' k = reloaded () m k"
  proof (cases "k \<in> ch_hash ` set vs")
    case False
    then have "m' k = None" "m k = None" using dom dom' by blast+
    then show ?thesis by (simp add: reloaded_def)
  next
    case True
    then obtain ch cd where ch: "m' k = Some ch" and cd: "m k = Some cd" using dom dom' by blast
    have in_us: "k \<in> set us" using True mset_eq_setD [OF us] by simp
    have old: "cd_nrefs cd = 1" "cd_ncopies cd = of_nat (count_list us k)" "cd_hash cd = k"
      using t cd in_us unfolding tally_def by (auto simp: refs_def copies_def dest!: spec [of _ k])
    have "k \<in> fst ` set ?uses" using True by (simp add: image_image)
    then have "map_of ?uses k \<noteq> None" by (simp only: map_of_eq_None_iff simp_thms)
    then obtain len zlen where l: "map_of ?uses k = Some (len, zlen)" by auto
    then obtain v where v: "v \<in> set vs" "ch_hash v = k" "ch_len v = len" "ch_zlen v = zlen" by (auto dest!: map_of_SomeD)
    have true: "len = unat (cd_len cd)" "zlen = unat (cd_zlen cd)" using vs v cd by (auto simp: header_true_def)
    have new: "cd_hash ch = k" "cd_len ch = of_nat len" "cd_zlen_flags ch = of_nat zlen"
      using counts ch l by (auto simp: directory_counts_def)
    have "refs m' k = of_nat (archives_using [?uses] k) \<and> copies m' k = of_nat (uses (concat [?uses]) k)"
      using counts unfolding directory_counts_def by blast
    moreover have "archives_using [?uses] k = 1" using \<open>k \<in> fst ` set ?uses\<close> by (simp add: archives_using_def)
    moreover have "uses (concat [?uses]) k = count_list us k"
    proof -
      have "map fst (concat [?uses]) = map ch_hash vs" by simp
      then show ?thesis using us by (metis count_mset)
    qed
    ultimately have "cd_nrefs ch = 1" "cd_ncopies ch = of_nat (count_list us k)" using ch by (simp_all add: refs_def copies_def)
    then have "ch = stored () cd" using new old true by (simp add: stored_def)
    then show ?thesis using ch cd old(1) by (simp add: reloaded_def)
  qed
qed

subsection \<open>A check after a session\<close>

lemma closed_session:
  assumes env: "env_ok E files u" "storage_ok E files"
    and start: "tape_inv E files u m0 d0 []" and run: "tape_run E d0 content d"
    and ready: "cache_ready c d0" "tokens_ok E d0" and close: "writetape_close E d = Some (0, d')"
    and name: "name = flush_name (tw_eof d) (tw_tapename d0)" "describable d0 name"
  shows "fsck_cache c (tw_machinenum d0) (tw_fs d') (tw_log d')" "fs_names (tw_fs d') (directory_path c ''.ckpt'') = None" "tape_stored E files u m0 d' name content" "describable d' name"
proof -
  obtain x0 where "tx_cache x0 = c" "tx_machine x0 = tw_machinenum d0" "length (tx_seqnum x0) = 32"
      "length (tx_nonce x0) = 32" "recoverable x0 (tw_fs d') (tw_log d')"
    and st: "tape_stored E files u m0 d' name content" "describable d' name" "fs_names (tw_fs d') (directory_path c ''.ckpt'') = None"
    by (rule closed_transaction [OF assms])
  then show "fsck_cache c (tw_machinenum d0) (tw_fs d') (tw_log d')" unfolding fsck_cache_def by blast
  show "fs_names (tw_fs d') (directory_path c ''.ckpt'') = None" "tape_stored E files u m0 d' name content" "describable d' name" by (rule st)+
qed

text \<open>Nothing is wrong with the only archive on a server.\<close>

lemma sole_archive:
  assumes m: "metadata_at (fe_cr FE) F junk h = Inr m" "name_hash (fe_cr FE) m = h"
    and il: "Pair (CHR ''i'') ` set il = set (index_frags (fe_cr FE) m)"
    and full: "complete (fe_cr FE) F (fe_uncompress FE) (set cl) m"
  shows "metas (fe_cr FE) F junk [h] = [m]" "fsck_kept FE F junk [h] il cl = [m]" "fsck_requests FE F junk [h] il cl = []"
proof -
  show ms: "metas (fe_cr FE) F junk [h] = [m]" using m(1) by (simp add: metas_def)
  have ix: "indexed (fe_cr FE) il m" using il by (simp add: indexed_def)
  have "needed (fe_cr FE) [m] = set il" unfolding needed_def by (simp add: il [symmetric] image_iff)
  then show "fsck_kept FE F junk [h] il cl = [m]" "fsck_requests FE F junk [h] il cl = []"
    using ms ix full m(1) by (simp_all add: fsck_kept_def fsck_requests_def fsck_indexed_def corrupt_def)
qed

text \<open>What a check finds on the server after a session that wrote its only archive.\<close>

lemma session_archive:
  assumes env: "env_ok E files u" "signatures_ok False (te_cr E)" and st: "tape_stored E files u Map.empty d' name content"
    and name: "describable d' name" "index_names_ok E d' name"
    and FE: "fe_cr FE = te_cr E" "fe_uncompress FE = u"
    and h: "crypto_hash_data (te_cr E) CRYPTO_KEY_HMAC_NAME name = Some h"
    and cl: "set cl = dom (chunk_table d')"
    and il: "Pair (CHR ''i'') ` set il = frag_file (te_cr E) h ` {n. n * MAXIFRAG < length (metaindex_enc (tape_index d'))}"
  defines "F \<equiv> serve (files (tw_S d'))"
  shows "\<exists>es bufs. tape_chunks E d' es bufs \<and> archive_bytes es = content \<and>
    ((\<forall>b\<in>set bufs. collision_free E u (files (tw_S d')) b) \<and> length bufs < 4294967296 \<longrightarrow>
      (\<exists>m vs us. metadata_at (fe_cr FE) F junk h = Inr m \<and> metas (fe_cr FE) F junk [h] = [m] \<and>
        fsck_requests FE F junk [h] il cl = [] \<and> fsck_uses FE F junk [h] il cl = [map header_use vs] \<and>
        archive_trace (fe_cr FE) F (fe_uncompress FE) m = (0, vs) \<and> countable_archive (fe_cr FE) F (fe_uncompress FE) m \<and>
        tally Map.empty us (chunk_table d') \<and> mset us = mset (map ch_hash vs) \<and> (\<forall>v\<in>set vs. header_true (chunk_table d') v)))"
proof -
  obtain res r1 m where by_name: "multitape_metadata_get_byname mem_ok (te_cr E) (still_alloc F) () None junk name = (res, r1, None)"
      "res = Inr m" "tm_name m = name" "unat (tm_indexlen m) = length (metaindex_enc (tape_index d'))"
      "\<And>r. value_or_fail False (tape_index d') (fst (multitape_metaindex_get mem_ok (te_cr E) (still_rfile F) r None m))"
    unfolding F_def using stored_description [OF env st name serve_reads, of "()" junk] by blast
  have m: "metadata_at (fe_cr FE) F junk h = Inr m"
    using by_name(1,2) by (simp add: multitape_metadata_get_byname_def metadata_at_def h FE(1))
  have nh: "name_hash (fe_cr FE) m = h" by (simp add: name_hash_def by_name(3) h FE(1))
  obtain es bufs chs us where tr: "tape_chunks E d' es bufs" "content = archive_bytes es" "length chs = length bufs"
      "mset us = mset (map ch_hash chs)" "write_inv (te_hash E) Map.empty us (tw_C d')"
      "(\<forall>b\<in>set bufs. collision_free E u (files (tw_S d')) b) \<longrightarrow> (\<forall>v\<in>set chs. header_true (chunk_table d') v) \<and>
        (\<exists>vs. archive_trace (te_cr E) F u m = (0, vs) \<and> mset vs = mset chs)"
    unfolding F_def using stored_trace [OF st by_name(5) [unfolded F_def]] by blast
  have t: "tally Map.empty us (chunk_table d')" using tr(5) by (simp add: write_inv_def)
  have "\<exists>m vs us. metadata_at (fe_cr FE) F junk h = Inr m \<and> metas (fe_cr FE) F junk [h] = [m] \<and>
        fsck_requests FE F junk [h] il cl = [] \<and> fsck_uses FE F junk [h] il cl = [map header_use vs] \<and>
        archive_trace (fe_cr FE) F (fe_uncompress FE) m = (0, vs) \<and> countable_archive (fe_cr FE) F (fe_uncompress FE) m \<and>
        tally Map.empty us (chunk_table d') \<and> mset us = mset (map ch_hash vs) \<and> (\<forall>v\<in>set vs. header_true (chunk_table d') v)"
    if free: "\<forall>b\<in>set bufs. collision_free E u (files (tw_S d')) b" and few: "length bufs < 4294967296"
  proof -
    obtain vs where vs: "archive_trace (te_cr E) F u m = (0, vs)" "mset vs = mset chs" using tr(6) free by blast
    have true: "\<forall>v\<in>set vs. header_true (chunk_table d') v" using tr(6) free mset_eq_setD [OF vs(2)] by simp
    have "mset (map ch_hash vs) = mset (map ch_hash chs)" using vs(2) by (simp only: mset_map)
    then have us: "mset us = mset (map ch_hash vs)" using tr(4) by simp
    have uses: "archive_uses (fe_cr FE) F (fe_uncompress FE) m = map header_use vs" by (simp add: archive_uses_def vs(1) FE)
    have "dom (chunk_table d') = ch_hash ` set vs" using t mset_eq_setD [OF us] by (simp add: tally_def)
    then have full: "complete (fe_cr FE) F (fe_uncompress FE) (set cl) m"
      using vs(1) uses cl by (simp add: complete_def FE image_image)
    have "{n. n * MAXIFRAG < length (metaindex_enc (tape_index d'))} = set [0..<nfrags (unat (tm_indexlen m))]"
      using nfrags_iff by (auto simp: by_name(4))
    then have "Pair (CHR ''i'') ` set il = set (index_frags (fe_cr FE) m)" unfolding il index_frags_def nh by (simp add: FE(1))
    note sole = sole_archive [OF m nh this full]
    have "length vs = length chs" using vs(2) by (metis size_mset)
    then have "countable_archive (fe_cr FE) F (fe_uncompress FE) m"
      using true few vs(1) tr(3) by (auto simp: countable_archive_def FE header_true_def)
    moreover have "fsck_uses FE F junk [h] il cl = [map header_use vs]" by (simp add: fsck_uses_def sole(2) uses)
    moreover have "archive_trace (fe_cr FE) F (fe_uncompress FE) m = (0, vs)" by (simp add: FE vs(1))
    ultimately show ?thesis using m sole(1,3) t us true by blast
  qed
  then show ?thesis using tr(1,2) by blast
qed

lemma fsck_after_close:
  assumes env: "env_ok E files u" "storage_ok E files" "signatures_ok False (te_cr E)"
    and start: "tape_inv E files u Map.empty d0 []" and run: "tape_run E d0 content d"
    and ready: "cache_ready c d0" "tokens_ok E d0" and close: "writetape_close E d = Some (0, d')"
    and name: "name = flush_name (tw_eof d) (tw_tapename d0)" "describable d0 name" "index_names_ok E d' name"
    and FE: "fe_cr FE = te_cr E" "fe_uncompress FE = u" "fsck_env_ok True reqs (serve (files (tw_S d'))) FE"
    and h: "crypto_hash_data (te_cr E) CRYPTO_KEY_HMAC_NAME name = Some h"
    and lists: "fe_list FE (tw_machinenum d0) (CHR ''m'') 0 = Some [h]" "fe_list FE (tw_machinenum d0) (CHR ''i'') 0 = Some il"
      "fe_list FE (tw_machinenum d0) (CHR ''c'') 0 = Some cl"
    and ok: "sorted_files il" "length cl \<le> 2 ^ 48" "set cl = dom (chunk_table d')"
      "Pair (CHR ''i'') ` set il = frag_file (te_cr E) h ` {n. n * MAXIFRAG < length (metaindex_enc (tape_index d'))}"
    and w: "fw_fs w = tw_fs d'" "fw_log w = tw_log d'"
    and fsck: "fscktape ma FE junk junkc lock (tw_machinenum d0) c prune whichkey w = Some (0, Some SD, w')"
  shows "\<exists>es bufs. tape_chunks E d' es bufs \<and> archive_bytes es = content \<and>
    ((\<forall>b\<in>set bufs. collision_free E u (files (tw_S d')) b) \<and> length bufs < 4294967296 \<longrightarrow>
      reqs SD = [] \<and>
      (\<exists>seq i HT st fs. transaction_complete (direct_txn c (tw_machinenum d0) seq i) (fw_log w') (fw_fs w') \<and>
        chunks_directory_read no_fault hash (Some rb) () (Some c) mustexist (fw_fs w') =
          Some (Some (HT, unique_of (dir_map HT), total_of (dir_map HT), st), fs) \<and>
        dir_map HT = reloaded () (chunk_table d')))"
proof -
  let ?F = "serve (files (tw_S d'))"
  note closed = closed_session [OF env(1,2) start run ready close name(1,2)]
  obtain es bufs where ses: "tape_chunks E d' es bufs" "archive_bytes es = content"
      "(\<forall>b\<in>set bufs. collision_free E u (files (tw_S d')) b) \<and> length bufs < 4294967296 \<longrightarrow>
      (\<exists>m vs us. metadata_at (fe_cr FE) ?F junk h = Inr m \<and> metas (fe_cr FE) ?F junk [h] = [m] \<and>
        fsck_requests FE ?F junk [h] il cl = [] \<and> fsck_uses FE ?F junk [h] il cl = [map header_use vs] \<and>
        archive_trace (fe_cr FE) ?F (fe_uncompress FE) m = (0, vs) \<and> countable_archive (fe_cr FE) ?F (fe_uncompress FE) m \<and>
        tally Map.empty us (chunk_table d') \<and> mset us = mset (map ch_hash vs) \<and> (\<forall>v\<in>set vs. header_true (chunk_table d') v))"
    using session_archive [OF env(1,3) closed(3,4) name(3) FE(1,2) h ok(3,4), of junk] by blast
  have "reqs SD = [] \<and>
      (\<exists>seq i HT st fs. transaction_complete (direct_txn c (tw_machinenum d0) seq i) (fw_log w') (fw_fs w') \<and>
        chunks_directory_read no_fault hash (Some rb) () (Some c) mustexist (fw_fs w') =
          Some (Some (HT, unique_of (dir_map HT), total_of (dir_map HT), st), fs) \<and>
        dir_map HT = reloaded () (chunk_table d'))"
    if ready: "(\<forall>b\<in>set bufs. collision_free E u (files (tw_S d')) b) \<and> length bufs < 4294967296"
  proof -
    obtain m vs us where a: "metas (fe_cr FE) ?F junk [h] = [m]" "fsck_requests FE ?F junk [h] il cl = []"
        "fsck_uses FE ?F junk [h] il cl = [map header_use vs]" "countable_archive (fe_cr FE) ?F (fe_uncompress FE) m"
        "tally Map.empty us (chunk_table d')" "mset us = mset (map ch_hash vs)" "\<forall>v\<in>set vs. header_true (chunk_table d') v"
      using mp [OF ses(3) ready] by (elim exE conjE) (rule that)
    have dom: "dom (chunk_table d') = ch_hash ` set vs" using a(5) mset_eq_setD [OF a(6)] by (simp add: tally_def)
    have cnt: "\<forall>m\<in>set (metas (fe_cr FE) ?F junk [h]). countable_archive (fe_cr FE) ?F (fe_uncompress FE) m" by (simp add: a(1,4))
    have len: "\<forall>h\<in>set cl. length h = 32" "length [h] < 4294967296" using a(7) by (auto simp: ok(3) dom header_true_def)
    have all: "set cl - fst ` set (concat [map header_use vs]) = {}" using dom ok(3) by (simp add: image_image)
    obtain ds seq i HT fs where r: "reqs SD = map (Pair (CHR ''c'')) ds" "set ds = {}"
        "fs_names (fw_fs w) (directory_path c ''.ckpt'') = None \<longrightarrow>
          transaction_complete (direct_txn c (tw_machinenum d0) seq i) (fw_log w') (fw_fs w')"
        "chunks_directory_read no_fault hash (Some rb) () (Some c) mustexist (fw_fs w') =
          Some (Some (HT, unique_of (dir_map HT), total_of (dir_map HT), extras (fsck_kept FE ?F junk [h] il cl)), fs)"
        "directory_counts [map header_use vs] (dir_map HT)"
      using fsck_result [OF FE(3) lists ok(1) len(2,1) ok(2) cnt closed(1) [folded w] fsck, of hash rb mustexist]
      unfolding a(2,3) all append_Nil by (elim exE conjE) (rule that)
    have "dir_map HT = reloaded () (chunk_table d')" by (rule counted_is_reloaded [OF a(5,6,7) r(5)])
    then show ?thesis using r(1,2,4) mp [OF r(3)] closed(2) [folded w] by auto
  qed
  then show ?thesis using ses(1,2) by blast
qed

text \<open>C4: A check after an archive was written finds nothing to repair.  A session on an empty server is written and closed,
  and the server lists the files of the archive.  If \<^verbatim>\<open>fscktape\<close> then returns 0, it has asked the storage layer to delete
  nothing, and the chunk directory that it has rebuilt from the archive is the one that the session left in the cache.
  (No chunk may have the same hash as another, and registering a chunk with the read cache does not fail.)\<close>

theorem fsck_keeps_archive:
  assumes env: "env_ok E files u" "storage_ok E files" "signatures_ok False (te_cr E)"
    and start: "tape_inv E files u Map.empty d0 []" and run: "tape_run E d0 content d"
    and ready: "cache_ready c d0" "tokens_ok E d0" and close: "writetape_close E d = Some (0, d')"
    and name: "name = flush_name (tw_eof d) (tw_tapename d0)" "describable d0 name" "index_names_ok E d' name"
    and FE: "fe_cr FE = te_cr E" "fe_uncompress FE = u" "fsck_env_ok True reqs (serve (files (tw_S d'))) FE"
    and h: "crypto_hash_data (te_cr E) CRYPTO_KEY_HMAC_NAME name = Some h"
    and lists: "fe_list FE (tw_machinenum d0) (CHR ''m'') 0 = Some [h]" "fe_list FE (tw_machinenum d0) (CHR ''i'') 0 = Some il"
      "fe_list FE (tw_machinenum d0) (CHR ''c'') 0 = Some cl"
    and ok: "sorted_files il" "length cl \<le> 2 ^ 48" "set cl = dom (chunk_table d')"
      "Pair (CHR ''i'') ` set il = frag_file (te_cr E) h ` {n. n * MAXIFRAG < length (metaindex_enc (tape_index d'))}"
    and w: "fw_fs w = tw_fs d'" "fw_log w = tw_log d'"
    and fsck: "fscktape ma FE junk junkc lock (tw_machinenum d0) c prune whichkey w = Some (0, Some SD, w')"
  shows "\<exists>es bufs. tape_chunks E d' es bufs \<and> archive_bytes es = content \<and>
    ((\<forall>b\<in>set bufs. collision_free E u (files (tw_S d')) b) \<and> length bufs < 4294967296 \<longrightarrow>
      reqs SD = [] \<and>
      (\<exists>seq i HT st fs. transaction_complete (direct_txn c (tw_machinenum d0) seq i) (fw_log w') (fw_fs w') \<and>
        chunks_directory_read no_fault hash (Some rb) () (Some c) mustexist (fw_fs w') =
          Some (Some (HT, unique_of (dir_map HT), total_of (dir_map HT), st), fs) \<and>
        dir_map HT = reloaded () (chunk_table d')))"
  by (rule fsck_after_close [OF assms])

subsection \<open>The sample archive, checked\<close>

definition sample_tape_hash :: bytes where
  "sample_tape_hash = 2 # take 31 ([104, 105] @ replicate 31 0)"

definition sample_files :: "char \<Rightarrow> bytes list" where
  "sample_files c = (if c = CHR ''m'' then [sample_tape_hash]
     else if c = CHR ''i'' then [multitape_metaindex_fragname sample_crypto sample_tape_hash 0] else [sample_name])"

lemma sample_files_sorted: "sorted_files (sample_files c)"
proof -
  have "hmacs_ok sample_crypto" using sample_env_ok(1) by (simp add: env_ok_def sample_env_def)
  then show ?thesis using sample_name_hash(2)
    by (simp add: sorted_files_def sample_files_def multitape_metaindex_fragname_def hmacs_ok_def sample_tape_hash_def)
qed

lemma sample_crypto_env [simp]: "te_cr sample_env = sample_crypto" "te_hash sample_env = sample_hash"
  by (simp_all add: sample_env_def)

lemma sample_tape_hash_ok: "crypto_hash_data (te_cr sample_env) CRYPTO_KEY_HMAC_NAME [104, 105] = Some sample_tape_hash"
  using sample_hash_data(2) [of "[104, 105]"] by (simp add: sample_tape_hash_def length_byte_def)

definition sample_fsck_world :: "(toy_store, unit) tape_w \<Rightarrow> fsck_world" where
  "sample_fsck_world d = \<lparr>fw_fs = tw_fs d, fw_log = tw_log d, fw_modified = False\<rparr>"

lemma sample_fsck_closed:
  obtains c d' where "tape_run sample_env sample_tape [7] (sample_written c)"
    "writetape_close sample_env (sample_written c) = Some (0, d')"
    "[104, 105] = flush_name (tw_eof (sample_written c)) (tw_tapename sample_tape)" "describable sample_tape [104, 105]"
    "index_names_ok sample_env d' [104, 105]"
    "set (sample_files (CHR ''c'')) = dom (chunk_table d')" "\<forall>es bufs. tape_chunks sample_env d' es bufs \<longrightarrow> length bufs < 4294967296"
    "Pair (CHR ''i'') ` set (sample_files (CHR ''i'')) =
      frag_file (te_cr sample_env) sample_tape_hash ` {n. n * MAXIFRAG < length (metaindex_enc (tape_index d'))}"
proof -
  obtain c where c: "tape_run sample_env sample_tape [7] (sample_written c)" "tape_chunker c" "pending c = sample_block"
    using sample_run by blast
  obtain d' where d': "writetape_close sample_env (sample_written c) = Some (0, d')" "tw_stream d' = tw_stream (sample_flushed c)"
      "cw_HT (tw_C d') = cw_HT sample_stored_w"
    using sample_close [OF c(2,3)] by blast
  have n: "[104, 105] = flush_name (tw_eof (sample_written c)) (tw_tapename sample_tape)"
    by (simp add: flush_name_def sample_written_def)
  have desc: "describable sample_tape [104, 105]" by (simp add: describable_def sample_tape_def)
  have "cd_hash (chunk_new sample_name 17 18) = sample_name" using sample_name_hash(2) by (simp add: chunk_new_def)
  then have cl: "set (sample_files (CHR ''c'')) = dom (chunk_table d')"
    by (auto simp: d'(3) sample_stored_w_def sample_files_def ht_map_def)
  have idx: "ws_index (tw_stream d' Headers) = [sample_header]" "ws_index (tw_stream d' Chunks) = []" "ws_index (tw_stream d' Trailers) = []"
    by (simp_all add: d'(2) sample_flushed_def sample_wstream_def)
  have few: "\<forall>es bufs. tape_chunks sample_env d' es bufs \<longrightarrow> length bufs < 4294967296"
  proof (intro allI impI)
    fix es bufs assume ch: "tape_chunks sample_env d' es bufs"
    obtain hbufs ibufs cs cbufs tbufs where b: "bufs = hbufs @ ibufs @ cbufs @ tbufs"
      "list_all2 (names_chunk sample_env (chunk_table d')) [sample_header] hbufs"
      "list_all2 (names_chunk sample_env (chunk_table d')) [] ibufs" "concat ibufs = concat cs"
      "list_all2 (names_chunk sample_env (chunk_table d')) cs cbufs"
      "list_all2 (names_chunk sample_env (chunk_table d')) [] tbufs"
      using ch unfolding tape_chunks_def idx by (elim exE conjE) (rule that)
    have "cs = []" using b(3,4) names_chunk_length [OF b(5)] by (cases cs) auto
    then show "length bufs < 4294967296" using b by (auto simp: list_all2_Cons1)
  qed
  have "tape_index d' = tape_index (sample_flushed c)" using d'(2) by (simp add: tape_index_def)
  then have "{n. n * MAXIFRAG < length (metaindex_enc (tape_index d'))} = {0}"
    using sample_index(3) [of c] by (auto simp: MAXIFRAG_def MAXCHUNK_def)
  then have il: "Pair (CHR ''i'') ` set (sample_files (CHR ''i'')) =
      frag_file (te_cr sample_env) sample_tape_hash ` {n. n * MAXIFRAG < length (metaindex_enc (tape_index d'))}"
    by (simp add: sample_files_def)
  show thesis by (rule that [OF c(1) d'(1) n desc sample_names_ok [OF d'(2)] cl few il])
qed

abbreviation sample_check_env :: "(toy_store, unit) tape_w \<Rightarrow> (unit, (char \<times> bytes) list) fsck_env" where
  "sample_check_env d \<equiv> sample_fsck_env (serve (map_of (tw_S d))) sample_files"

lemma sample_check:
  assumes "tape_run sample_env sample_tape [7] (sample_written c)" "writetape_close sample_env (sample_written c) = Some (0, d')"
    "[104, 105] = flush_name (tw_eof (sample_written c)) (tw_tapename sample_tape)" "describable sample_tape [104, 105]"
    "index_names_ok sample_env d' [104, 105]"
    "set (sample_files (CHR ''c'')) = dom (chunk_table d')" "\<forall>es bufs. tape_chunks sample_env d' es bufs \<longrightarrow> length bufs < 4294967296"
    "Pair (CHR ''i'') ` set (sample_files (CHR ''i'')) =
      frag_file (te_cr sample_env) sample_tape_hash ` {n. n * MAXIFRAG < length (metaindex_enc (tape_index d'))}"
  shows "\<exists>SD w'. fscktape fsck_mem_ok (sample_check_env d') toy_metadata (0, chunks_stats_zero) True 1 ''c'' 1 1 (sample_fsck_world d') =
    Some (0, Some SD, w')"
proof -
  let ?F = "serve (map_of (tw_S d'))" and ?FE = "sample_check_env d'"
  note closed = closed_session [OF sample_env_ok(1,2) sample_tape_inv assms(1) sample_ready assms(2-4)]
  have FE: "fe_cr ?FE = te_cr sample_env" "fe_uncompress ?FE = sample_inflate" by simp_all
  obtain m vs where m: "metadata_at (fe_cr ?FE) ?F toy_metadata sample_tape_hash = Inr m"
      "metas (fe_cr ?FE) ?F toy_metadata [sample_tape_hash] = [m]" "archive_trace (fe_cr ?FE) ?F (fe_uncompress ?FE) m = (0, vs)"
      "countable_archive (fe_cr ?FE) ?F (fe_uncompress ?FE) m"
    using session_archive [OF sample_env_ok(1,3) closed(3,4) assms(5) FE sample_tape_hash_ok assms(6,8), of toy_metadata]
      sample_collision_free assms(7) by blast
  have ml: "sample_files (CHR ''m'') = [sample_tape_hash]" by (simp add: sample_files_def)
  show ?thesis
    by (rule fscktape_progress [OF sample_fsck_env_ok [OF serve_codes] sample_fsck_simps(2,2,2) sample_files_sorted _ sample_files_sorted])
      (use m closed(1) in \<open>simp_all add: ml sample_fsck_world_def sample_machine\<close>, simp add: sample_files_def)
qed

lemma fsck_keeps_archive_witness:
  "\<exists>d d' SD w' HT uniq all st fs. tape_run sample_env sample_tape [7] d \<and> writetape_close sample_env d = Some (0, d') \<and>
     fscktape fsck_mem_ok (sample_check_env d') toy_metadata (0, chunks_stats_zero) True 1 ''c'' 1 1 (sample_fsck_world d') = Some (0, Some SD, w') \<and>
     SD = [] \<and>
     chunks_directory_read no_fault sample_hash (Some [7]) () (Some ''c'') True (fw_fs w') = Some (Some (HT, uniq, all, st), fs) \<and>
     dir_map HT = reloaded () (chunk_table d')"
proof -
  obtain c d' where c: "tape_run sample_env sample_tape [7] (sample_written c)"
    "writetape_close sample_env (sample_written c) = Some (0, d')"
    "[104, 105] = flush_name (tw_eof (sample_written c)) (tw_tapename sample_tape)" "describable sample_tape [104, 105]"
    "index_names_ok sample_env d' [104, 105]"
    "set (sample_files (CHR ''c'')) = dom (chunk_table d')" "\<forall>es bufs. tape_chunks sample_env d' es bufs \<longrightarrow> length bufs < 4294967296"
    "Pair (CHR ''i'') ` set (sample_files (CHR ''i'')) =
      frag_file (te_cr sample_env) sample_tape_hash ` {n. n * MAXIFRAG < length (metaindex_enc (tape_index d'))}"
    by (rule sample_fsck_closed)
  let ?FE = "sample_check_env d'"
  have m: "tw_machinenum sample_tape = 1" by (rule sample_machine)
  obtain SD w' where run: "fscktape fsck_mem_ok ?FE toy_metadata (0, chunks_stats_zero) True (tw_machinenum sample_tape) ''c'' 1 1 (sample_fsck_world d') =
      Some (0, Some SD, w')"
    using sample_check [OF c] unfolding m by blast
  have FE: "fe_cr ?FE = te_cr sample_env" "fe_uncompress ?FE = sample_inflate" by simp_all
  have ml: "fe_list ?FE (tw_machinenum sample_tape) (CHR ''m'') 0 = Some [sample_tape_hash]" by (simp add: sample_files_def)
  have cl: "length (sample_files (CHR ''c'')) \<le> 2 ^ 48" by (simp add: sample_files_def)
  have w: "fw_fs (sample_fsck_world d') = tw_fs d'" "fw_log (sample_fsck_world d') = tw_log d'" by (simp_all add: sample_fsck_world_def)
  obtain HT st fs where "SD = []"
      "chunks_directory_read no_fault sample_hash (Some [7]) () (Some ''c'') True (fw_fs w') =
        Some (Some (HT, unique_of (dir_map HT), total_of (dir_map HT), st), fs)"
      "dir_map HT = reloaded () (chunk_table d')"
    using fsck_keeps_archive [OF sample_env_ok sample_tape_inv c(1) sample_ready c(2-5) FE sample_fsck_env_ok(1) [OF serve_codes]
        sample_tape_hash_ok ml sample_fsck_simps(2,2) sample_files_sorted cl c(6,8) w run, of sample_hash "[7]" True]
      sample_collision_free c(7) by blast
  then show ?thesis using c(1,2) run unfolding m by blast
qed

end
