(* ===== verification/Tape_Recover.thy ===== *)
theory Tape_Recover
  imports Fsck_Exact
begin

text \<open>
  \<^verbatim>\<open>tar/multitape/multitape_recover.c\<close>: a pending checkpoint or commit is completed, of this machine or
  another.  \<^verbatim>\<open>tar/multitape/multitape_nuke.c\<close>: every file of the archive set is deleted, in one transaction that
  is committed without looking at the cache directory.  The storage layer of the latter is an \<open>fsck_env\<close>.
\<close>

definition recovertape :: "fault \<Rightarrow> storage \<Rightarrow> u64 \<Rightarrow> string \<Rightarrow> int \<Rightarrow> fs \<Rightarrow> storage_log \<Rightarrow> bool
    \<Rightarrow> int \<times> fs \<times> storage_log \<times> bool" where
  "recovertape flt srv machinenum cachedir whichkey fs log modified =
     (let key = (if whichkey = 0 then 0 else 1) in
      case multitape_cleanstate flt srv cachedir machinenum key fs log modified of (rc, fs, log, modified) \<Rightarrow>
        if rc \<noteq> 0 then (-1, fs, log, modified)
        else let rq = Commit_from_checkpoint_call machinenum key; ans = srv log rq;
          log = log @ [(rq, fst ans)]; modified = (modified \<or> snd ans) in
        (if fst ans \<noteq> 0 then -1 else 0, fs, log, modified))"

fun nuke_files :: "'s dfile \<Rightarrow> char \<Rightarrow> bytes list \<Rightarrow> 's \<Rightarrow> int \<times> 's" where
  "nuke_files dfile class [] SD = (0, SD)"
| "nuke_files dfile class (h # flist) SD =
     (case dfile SD class h of (rc, SD) \<Rightarrow> if rc \<noteq> 0 then (-1, SD) else nuke_files dfile class flist SD)"

text \<open>The files of one class are listed with the delete key, and deleted.\<close>

definition nuke_class :: "('r, 's) fsck_env \<Rightarrow> u64 \<Rightarrow> char \<Rightarrow> 's \<Rightarrow> int \<times> 's" where
  "nuke_class FE machinenum class SD =
     (case fe_list FE machinenum class 1 of
        None \<Rightarrow> (-1, SD)
      | Some flist \<Rightarrow> nuke_files (fe_dfile FE) class flist SD)"

definition nuketape :: "('r, 's) fsck_env \<Rightarrow> u64 \<Rightarrow> storage_log \<Rightarrow> bool \<Rightarrow> int \<times> 's option \<times> storage_log \<times> bool" where
  "nuketape FE machinenum log modified =
     (case fe_start FE machinenum False 1 of
        None \<Rightarrow> (-1, None, log, modified)
      | Some (SD, seqnum) \<Rightarrow>
          (case nuke_class FE machinenum (CHR ''m'') SD of (rc, SD) \<Rightarrow>
           if rc \<noteq> 0 then (-1, Some SD, log, modified)
           else case nuke_class FE machinenum (CHR ''i'') SD of (rc, SD) \<Rightarrow>
           if rc \<noteq> 0 then (-1, Some SD, log, modified)
           else case nuke_class FE machinenum (CHR ''c'') SD of (rc, SD) \<Rightarrow>
           if rc \<noteq> 0 then (-1, Some SD, log, modified)
           else case fe_end FE SD of (rc, SD) \<Rightarrow>
           if rc \<noteq> 0 then (-1, Some SD, log, modified)
           else let rq = Commit_call machinenum seqnum 1; ans = fe_srv FE log rq in
             (if fst ans \<noteq> 0 then -1 else 0, Some SD, log @ [(rq, fst ans)], modified \<or> snd ans)))"

subsection \<open>Recovery\<close>

text \<open>If \<^verbatim>\<open>recovertape\<close> returns 0 from any state that a transaction or a crash may have left, the transaction is
  committed, with no marker left whatever a crash loses, and the server was asked last to commit a checkpoint
  of any other machine.  It returns 0 when nothing fails.\<close>

lemma recover_completes:
  assumes inv: "recoverable x fs log" and len: "length (tx_seqnum x) = 32" "length (tx_nonce x) = 32"
    and run: "recovertape flt srv (tx_machine x) (tx_cache x) whichkey fs log modified = (rc, fs', log', modified')"
  shows "(rc = 0 \<longrightarrow> transaction_complete x log' fs' \<and>
      (\<exists>key. last log' = (Commit_from_checkpoint_call (tx_machine x) key, 0))) \<and>
    (flt = no_fault \<longrightarrow> server_up srv \<longrightarrow> rc = 0)"
proof -
  define key :: u8 where "key = (if whichkey = 0 then 0 else 1)"
  obtain rc1 fs1 log1 m1 where c: "multitape_cleanstate flt srv (tx_cache x) (tx_machine x) key fs log modified = (rc1, fs1, log1, m1)"
    by (metis prod_cases4)
  note r = cleanstate_recovers [OF inv len c]
  let ?rq = "Commit_from_checkpoint_call (tx_machine x) key"
  have run': "(if rc1 \<noteq> 0 then (-1, fs1, log1, m1)
      else (if fst (srv log1 ?rq) \<noteq> 0 then -1 else 0, fs1, log1 @ [(?rq, fst (srv log1 ?rq))], m1 \<or> snd (srv log1 ?rq))) =
      (rc, fs', log', modified')"
    using run c unfolding recovertape_def key_def [symmetric] Let_def by simp
  have "transaction_complete x log' fs' \<and> last log' = (?rq, 0)" if "rc = 0"
  proof -
    have e: "rc1 = 0" "fs' = fs1" "log' = log1 @ [(?rq, 0)]" using run' that by (auto split: if_splits)
    have "phase_committed x fs1" "committed x log1" "fs_names fs1 (commit_m x) = None" "crash_views fs1 = {fs_names fs1}"
      using r e(1) by blast+
    then show ?thesis by (simp add: e(2,3) transaction_complete_def phase_committed_def acknowledged_append)
  qed
  moreover have "rc = 0" if "flt = no_fault" "server_up srv"
    using run' r that by (auto simp: server_up_def split: if_splits)
  ultimately show ?thesis by blast
qed

subsection \<open>Deletion of everything\<close>

lemma nuke_files_spec:
  assumes log: "deletes_logged reqs dfile"
  shows "nuke_files dfile class flist S = (0, S') \<Longrightarrow> reqs S' = reqs S @ map (Pair class) flist"
proof (induction flist arbitrary: S)
  case (Cons h flist)
  obtain rc S1 where d: "dfile S class h = (rc, S1)" by fastforce
  then have "reqs S1 = reqs S @ [(class, h)]" by (rule deletes_loggedD [OF log])
  then show ?case using Cons.prems Cons.IH [of S1] d by (auto split: if_splits)
qed simp

lemma nuke_class_spec:
  assumes "deletes_logged reqs (fe_dfile FE)" "nuke_class FE machinenum class S = (0, S')"
  shows "\<exists>flist. fe_list FE machinenum class 1 = Some flist \<and> reqs S' = reqs S @ map (Pair class) flist"
  using assms nuke_files_spec [OF assms(1)] by (auto simp: nuke_class_def split: option.splits)

text \<open>C14: All or nothing: the only call that \<^verbatim>\<open>nuketape\<close> makes to change the server is one request to commit, and it makes
  it only after the storage layer has been asked to delete every file that is listed, first the metadata, then the
  fragments of indexes, then the chunks; otherwise it returns -1.  It returns 0 if and only if the commit succeeds.\<close>

theorem nuke_all_or_nothing:
  assumes env: "fsck_env_ok True reqs F FE" and run: "nuketape FE machinenum log modified = (rc, SD, log', modified')"
  shows "log' = log \<and> modified' = modified \<and> rc = -1 \<or>
    (\<exists>S seqnum ml il cl. SD = Some S \<and>
      fe_list FE machinenum (CHR ''m'') 1 = Some ml \<and> fe_list FE machinenum (CHR ''i'') 1 = Some il \<and>
      fe_list FE machinenum (CHR ''c'') 1 = Some cl \<and>
      reqs S = map (Pair (CHR ''m'')) ml @ map (Pair (CHR ''i'')) il @ map (Pair (CHR ''c'')) cl \<and>
      log' = log @ [(Commit_call machinenum seqnum 1, fst (fe_srv FE log (Commit_call machinenum seqnum 1)))] \<and>
      (rc = 0 \<longleftrightarrow> fst (fe_srv FE log (Commit_call machinenum seqnum 1)) = 0))"
proof (cases "fe_start FE machinenum False 1")
  case None
  then show ?thesis using run by (simp add: nuketape_def)
next
  case (Some a)
  obtain S0 seqnum where a: "a = (S0, seqnum)" by fastforce
  have e: "deletes_logged reqs (fe_dfile FE)" "\<And>S. reqs (snd (fe_end FE S)) = reqs S" "reqs S0 = []"
    using env Some a by (auto simp: fsck_env_ok_def)
  obtain r1 S1 where 1: "nuke_class FE machinenum (CHR ''m'') S0 = (r1, S1)" by fastforce
  obtain r2 S2 where 2: "nuke_class FE machinenum (CHR ''i'') S1 = (r2, S2)" by fastforce
  obtain r3 S3 where 3: "nuke_class FE machinenum (CHR ''c'') S2 = (r3, S3)" by fastforce
  obtain r4 S4 where 4: "fe_end FE S3 = (r4, S4)" by fastforce
  let ?rq = "Commit_call machinenum seqnum 1"
  show ?thesis
  proof (cases "r1 = 0 \<and> r2 = 0 \<and> r3 = 0 \<and> r4 = 0")
    case False
    then show ?thesis using run by (auto simp: nuketape_def Some a 1 2 3 4 split: if_splits)
  next
    case True
    then have out: "rc = (if fst (fe_srv FE log ?rq) \<noteq> 0 then -1 else 0)" "SD = Some S4" "log' = log @ [(?rq, fst (fe_srv FE log ?rq))]"
      using run by (auto simp: nuketape_def Some a 1 2 3 4 Let_def)
    obtain ml il cl where "fe_list FE machinenum (CHR ''m'') 1 = Some ml" "fe_list FE machinenum (CHR ''i'') 1 = Some il"
        "fe_list FE machinenum (CHR ''c'') 1 = Some cl" "reqs S1 = reqs S0 @ map (Pair (CHR ''m'')) ml"
        "reqs S2 = reqs S1 @ map (Pair (CHR ''i'')) il" "reqs S3 = reqs S2 @ map (Pair (CHR ''c'')) cl"
      using nuke_class_spec [OF e(1)] 1 2 3 True by metis
    moreover have "reqs S4 = reqs S3" using e(2) [of S3] by (simp add: 4)
    ultimately show ?thesis using out e(3) by simp
  qed
qed

lemma nuke_all_or_nothing_witness:
  "\<exists>SD log m. nuketape stray_env 1 [] False = (0, Some SD, log, m) \<and>
     SD = [(CHR ''m'', stray_file (CHR ''m'')), (CHR ''i'', stray_file (CHR ''i'')), (CHR ''c'', stray_file (CHR ''c''))] \<and>
     log = [(Commit_call 1 (replicate 32 3) 1, 0)]"
proof -
  obtain SD m where run: "nuketape stray_env 1 [] False = (0, Some SD, [(Commit_call 1 (replicate 32 3) 1, 0)], m)"
    by (simp add: nuketape_def nuke_class_def sample_fsck_env_def sample_server_def)
  then show ?thesis using nuke_all_or_nothing [OF stray_env_ok(1) run] by simp
qed

end
