(* ===== verification/Spec2Isabelle.thy ===== *)
theory Spec2Isabelle
  imports Chunk_Lifecycle Multitape_Transaction Chunkify Tape_Read Tape_Undo Fsck_Session Tape_Recover
begin

text \<open>
  A development for the Tarsnap client: deduplicated, encrypted archives on an untrusted server,
  with a cache directory on the client.  Paths below are under \<^verbatim>\<open>src/\<close>.

  \<^bold>\<open>The program.\<close>  \<^verbatim>\<open>tar/\<close> is the archiver; its archives are byte streams that the
  multitape layer (\<^verbatim>\<open>tar/multitape\<close>) cuts into chunks (\<^verbatim>\<open>chunkify.c\<close>).  The chunk layer
  (\<^verbatim>\<open>tar/chunks\<close>) stores each chunk once, under its keyed hash, and counts in the chunk directory
  how many archives use it; the directory is a hash table (\<^verbatim>\<open>lib/datastruct/rwhashtab.c\<close>) and a file
  in the cache.  The stream indexes of an archive are its metaindex, and its name, arguments and the
  hash of the metaindex its signed metadata.  The storage layer (\<^verbatim>\<open>tar/storage\<close>) carries files to
  the server inside transactions; the client checkpoints and commits them with links and renames in
  the cache, so that the directory and the server agree after a crash.

  \<^bold>\<open>Theories.\<close>
  \<^item> \<^verbatim>\<open>Prelude\<close>: C integers, byte strings, allocation failure, lemmas on lists and masks.
  \<^item> \<^verbatim>\<open>Sysendian\<close>, \<^verbatim>\<open>Hexify\<close>, \<^verbatim>\<open>Crypto_Hash\<close>: \<^verbatim>\<open>libcperciva/util/sysendian.h\<close> and
    \<^verbatim>\<open>hexify.c\<close>, \<^verbatim>\<open>lib/crypto/crypto_hash.c\<close> and \<^verbatim>\<open>crypto_verify_bytes.c\<close>: codecs
    invert each other, the comparison without branches is equality.
  \<^item> \<^verbatim>\<open>Table_Interface\<close>, \<^verbatim>\<open>Rwhashtab\<close>: the contract of a keyed table as a locale, and
    \<^verbatim>\<open>rwhashtab.c\<close>, which meets it: probes end, insertion refines a map update, growth keeps the
    records, iteration visits each once.
  \<^item> \<^verbatim>\<open>Posix_Dir\<close>, \<^verbatim>\<open>Hexlink\<close>: the cache directory with what is durable and what a power
    failure may leave; \<^verbatim>\<open>lib/util/hexlink.c\<close>, \<^verbatim>\<open>dirutil.c\<close>, \<^verbatim>\<open>fileutil.c\<close>.
    A \<^verbatim>\<open>rename\<close> is two changes of the directory, of which a power failure may keep one, unless the file
    system has the flag \<open>fs_atomic_rename\<close>.
  \<^item> \<^verbatim>\<open>Chunks_Stats\<close>, \<^verbatim>\<open>Chunks_Directory\<close>, \<^verbatim>\<open>Chunks_Commit\<close>: chunk records and
    statistics, the directory file, its commit by link and unlink.  Where \<^verbatim>\<open>link\<close> is refused the code
    renames; then a power failure can lose the directory, as a property shows, and the properties about crashes
    exclude it (\<open>rename_safe\<close>: the flag is set, or no link is refused).
  \<^item> \<^verbatim>\<open>Padme\<close>, \<^verbatim>\<open>Chunks_Write\<close>, \<^verbatim>\<open>Chunks_Delete\<close>, \<^verbatim>\<open>Chunk_Lifecycle\<close>:
    \<^verbatim>\<open>chunks_write.c\<close> and \<^verbatim>\<open>chunks_delete.c\<close>: uses and references are counted exactly, and
    deleting an archive undoes writing it, through the commits of both.
  \<^item> \<^verbatim>\<open>Chunks_Fsck\<close>: \<^verbatim>\<open>chunks_stats.c\<close>: the directory is rebuilt from the archives.
  \<^item> \<^verbatim>\<open>Multitape_Transaction\<close>: \<^verbatim>\<open>multitape_transaction.c\<close>: checkpoints and commits survive
    any history of failures and are completed by the next recovery that returns 0.
  \<^item> \<^verbatim>\<open>Chunkify_Params\<close>, \<^verbatim>\<open>Chunkify\<close>: \<^verbatim>\<open>chunkify.c\<close>: primes, Montgomery
    multiplication, the window; the loops end and the chunks are the stream.
  \<^item> \<^verbatim>\<open>Tape_Metadata\<close>, \<^verbatim>\<open>Tape_Metaindex\<close>, \<^verbatim>\<open>Chunks_Read\<close>:
    \<^verbatim>\<open>multitape_metadata.c\<close>, \<^verbatim>\<open>multitape_metaindex.c\<close>, \<^verbatim>\<open>chunks_read.c\<close>,
    \<^verbatim>\<open>multitape_chunkiter.c\<close>: what is stored is read back, what was not signed is not accepted.
  \<^item> \<^verbatim>\<open>Tape_Read\<close>: \<^verbatim>\<open>multitape_read.c\<close>: streams of chunks over streams of chunk headers; a
    source of bytes is a locale, met by an index in memory and by a stream over such an index.
  \<^item> \<^verbatim>\<open>Tape_Write\<close>: \<^verbatim>\<open>multitape_write.c\<close>: entries, three streams of chunks, the callbacks
    of the chunkers, checkpoints, closing.  \<^verbatim>\<open>Tape_Content\<close>: the invariant of a tape (the chunks in the
    streams name data on the server, what is written is what the entries and buffers hold), kept by
    every operation.  \<^verbatim>\<open>Tape_Commit\<close>: closing and checkpoints on the transaction layer.
  \<^item> \<^verbatim>\<open>Tape_Session\<close>, \<^verbatim>\<open>Tape_Sample\<close>, \<^verbatim>\<open>Tape_Roundtrip\<close>: sessions as a step
    relation over the operations of the writer, a session that is evaluated, and the properties of
    whole sessions: what is written is read back, what is closed is durable.  The invariant counts the
    uses of every chunk exactly.
  \<^item> \<^verbatim>\<open>Tape_Delete\<close>, \<^verbatim>\<open>Tape_Undo\<close>: \<^verbatim>\<open>multitape_delete.c\<close>: an archive is
    deleted chunk by chunk, then its metaindex and its metadata; deleting an archive that was written
    gives back the chunk directory and the server of before, and succeeds when nothing fails.
  \<^item> \<^verbatim>\<open>Tape_Fsck\<close>, \<^verbatim>\<open>Fsck_Archives\<close>, \<^verbatim>\<open>Fsck_Run\<close>, \<^verbatim>\<open>Fsck_Exact\<close>:
    \<^verbatim>\<open>multitape_fsck.c\<close>: the five phases, what they find on a server that does not change, and the whole run:
    exactly what is wrong is deleted, and the directory is rebuilt from the archives that are kept.
    \<^verbatim>\<open>Fsck_Session\<close>: a check after a session deletes nothing and rebuilds the session's directory.
  \<^item> \<^verbatim>\<open>Tape_Recover\<close>: \<^verbatim>\<open>multitape_recover.c\<close> and \<^verbatim>\<open>multitape_nuke.c\<close>: recovery completes
    what is pending; everything is deleted in one transaction or none of it.

  \<^bold>\<open>Conventions.\<close>  An integer of \<open>n\<close> bits is a word, a \<^verbatim>\<open>size_t\<close> a natural number with
  its checks against \<^verbatim>\<open>SIZE_MAX\<close>, a return code an \<^typ>\<open>int\<close>; a result with an error is a sum.
  Allocations and system calls fail as an oracle says.  Loops without a bound are options or
  \<open>partial_function\<close>s, with \<^const>\<open>None\<close> for not returning, as after a division by zero or a failed
  \<^verbatim>\<open>assert\<close>; probe loops run as often as the table has
  slots, after which the positions repeat.  Cryptographic primitives, zlib, and the storage layer with
  the server are parameters; what is assumed of them is a named predicate (\<open>zlib_ok\<close>, \<open>zlib_inverse\<close>,
  \<open>signatures_ok\<close>, \<open>hmacs_ok\<close>, \<open>wfile_ok\<close>, \<open>rfile_ok\<close>, \<open>rfile_alloc_ok\<close>, \<open>storage_ok\<close>,
  \<open>delete_env_ok\<close>, \<open>delete_env_up\<close>, \<open>answers\<close>, \<open>fsck_env_ok\<close>, \<open>fsck_env_up\<close>), with an instance in each witness.
  \<open>delete_env_ok\<close> and \<open>fsck_env_ok\<close> ask that registering a chunk with the read cache does not fail: after such a
  failure the iteration over an archive reports success too early.

  \<^bold>\<open>Not modelled.\<close>  The network protocol, the event loop, the cryptographic primitives and key
  files, printing and listing archives (\<^verbatim>\<open>multitape_stats.c\<close>), the archiver's front end, the chunkification cache, and the vendored libarchive.
\<close>

end
